(* ===== verification/Prelude.thy ===== *)
theory Prelude
  imports Main "HOL-Library.Word" "HOL-Library.AList" "HOL-Library.Code_Target_Numeral"
begin

text \<open>
  Shared vocabulary of the development: the machine types the Rust code uses, the standard
  library's arithmetic on them (\<open>saturating_*\<close>, \<open>checked_*\<close>), little-endian byte strings,
  slices, and fallible stateful computations, with the lemmas every component needs.

  A \<open>usize\<close> or a counter is a \<open>nat\<close>; a \<open>u64\<close> that the code compares with its maximum is a
  \<open>nat\<close> together with the bound written out; an \<open>i64\<close> time is an \<open>int\<close> whose saturating
  operations clamp to the range of the type.
\<close>

section \<open>Collections of facts\<close>

named_theorems model_defs \<open>definitions of operations, unfolded by component proofs\<close>
named_theorems wf_intros \<open>introduction rules for well-formedness of states\<close>

section \<open>Machine types\<close>

type_synonym byte = "8 word"
type_synonym bytes = "8 word list"
type_synonym u32 = "32 word"

abbreviation U64_MAX :: nat where "U64_MAX \<equiv> 18446744073709551615"
abbreviation U32_MAX :: nat where "U32_MAX \<equiv> 4294967295"
abbreviation I64_MAX :: int where "I64_MAX \<equiv> 9223372036854775807"
abbreviation I64_MIN :: int where "I64_MIN \<equiv> - 9223372036854775808"

definition in_i64 :: "int \<Rightarrow> bool" where
  "in_i64 x \<longleftrightarrow> I64_MIN \<le> x \<and> x \<le> I64_MAX"

definition clamp_i64 :: "int \<Rightarrow> int" where
  "clamp_i64 x = max I64_MIN (min I64_MAX x)"

definition sat_add :: "int \<Rightarrow> int \<Rightarrow> int" where
  "sat_add a b = clamp_i64 (a + b)"

definition sat_sub :: "int \<Rightarrow> int \<Rightarrow> int" where
  "sat_sub a b = clamp_i64 (a - b)"

text \<open>\<open>u64::checked_add(1)\<close>, \<open>u64::saturating_add\<close> and \<open>u64::saturating_mul\<close>.\<close>

definition checked_succ :: "nat \<Rightarrow> nat option" where
  "checked_succ n = (if n < U64_MAX then Some (Suc n) else None)"

definition sat_add_u64 :: "nat \<Rightarrow> nat \<Rightarrow> nat" where
  "sat_add_u64 a b = min U64_MAX (a + b)"

definition sat_mul_u64 :: "nat \<Rightarrow> nat \<Rightarrow> nat" where
  "sat_mul_u64 a b = min U64_MAX (a * b)"

lemma clamp_i64_range [simp]: "in_i64 (clamp_i64 x)"
  by (simp add: in_i64_def clamp_i64_def)

lemma clamp_i64_id: "in_i64 x \<Longrightarrow> clamp_i64 x = x"
  by (simp add: in_i64_def clamp_i64_def)

lemma clamp_i64_mono: "x \<le> y \<Longrightarrow> clamp_i64 x \<le> clamp_i64 y"
  by (simp add: clamp_i64_def)

lemma sat_add_range [simp]: "in_i64 (sat_add a b)"
  by (simp add: sat_add_def)

lemma sat_sub_range [simp]: "in_i64 (sat_sub a b)"
  by (simp add: sat_sub_def)

lemma sat_add_mono: "a \<le> b \<Longrightarrow> sat_add c a \<le> sat_add c b"
  by (simp add: sat_add_def clamp_i64_mono)

lemma sat_sub_mono: "a \<le> b \<Longrightarrow> sat_sub a c \<le> sat_sub b c"
  by (simp add: sat_sub_def clamp_i64_mono)

lemma sat_sub_le: "0 \<le> c \<Longrightarrow> in_i64 a \<Longrightarrow> sat_sub a c \<le> a"
  by (simp add: sat_sub_def clamp_i64_def in_i64_def)

lemma checked_succ_Some: "checked_succ n = Some m \<longleftrightarrow> n < U64_MAX \<and> m = Suc n"
  by (auto simp: checked_succ_def)

section \<open>Little-endian byte strings\<close>

fun le_bytes :: "nat \<Rightarrow> nat \<Rightarrow> bytes" where
  "le_bytes 0 v = []"
| "le_bytes (Suc n) v = of_nat (v mod 256) # le_bytes n (v div 256)"

fun from_le :: "bytes \<Rightarrow> nat" where
  "from_le [] = 0"
| "from_le (b # bs) = unat b + 256 * from_le bs"

lemma length_le_bytes [simp]: "length (le_bytes n v) = n"
  by (induction n arbitrary: v) auto

lemma unat_byte_mod: "unat (of_nat (v mod 256) :: byte) = v mod 256"
  by (simp add: unat_of_nat)

lemma unat_byte_less: "unat (b :: byte) < 256"
  using unsigned_less [of b, where ?'a = nat] by simp

lemma from_le_bytes_mod: "from_le (le_bytes n v) = v mod 256 ^ n"
proof (induction n arbitrary: v)
  case 0
  show ?case by simp
next
  case (Suc n)
  have "from_le (le_bytes (Suc n) v) = v mod 256 + 256 * (v div 256 mod 256 ^ n)"
    by (simp add: Suc.IH unat_byte_mod)
  also have "\<dots> = v mod 256 ^ Suc n"
    by (simp add: mod_mult2_eq)
  finally show ?case .
qed

lemma from_le_bytes: "v < 256 ^ n \<Longrightarrow> from_le (le_bytes n v) = v"
  by (simp add: from_le_bytes_mod)

lemma from_le_bound: "from_le bs < 256 ^ length bs"
proof (induction bs)
  case Nil
  show ?case by simp
next
  case (Cons b bs)
  have "unat b + 256 * from_le bs < 256 + 256 * from_le bs"
    using unat_byte_less by simp
  also have "\<dots> = 256 * Suc (from_le bs)" by simp
  also have "\<dots> \<le> 256 * 256 ^ length bs"
    using Cons.IH by (intro mult_le_mono) auto
  finally show ?case by simp
qed

lemma le_bytes_from_le: "le_bytes (length bs) (from_le bs) = bs"
proof (induction bs)
  case Nil
  show ?case by simp
next
  case (Cons b bs)
  have "(unat b + 256 * from_le bs) mod 256 = unat b"
    using unat_byte_less by simp
  moreover have "(unat b + 256 * from_le bs) div 256 = from_le bs"
    using unat_byte_less by simp
  ultimately show ?case by (simp add: Cons.IH)
qed

lemma from_le_inject:
  "length bs = length cs \<Longrightarrow> from_le bs = from_le cs \<longleftrightarrow> bs = cs"
  by (metis le_bytes_from_le)

section \<open>Slices\<close>

text \<open>\<open>slice::get(a..b)\<close>: \<open>None\<close> when the range is reversed or runs past the end.\<close>

definition slice_get :: "'a list \<Rightarrow> nat \<Rightarrow> nat \<Rightarrow> 'a list option" where
  "slice_get xs a b = (if a \<le> b \<and> b \<le> length xs then Some (take (b - a) (drop a xs)) else None)"

text \<open>\<open>slice[a..b]\<close> where the code has established the bounds.\<close>

definition slice_of :: "'a list \<Rightarrow> nat \<Rightarrow> nat \<Rightarrow> 'a list" where
  "slice_of xs a b = take (b - a) (drop a xs)"

lemma slice_get_Some_iff:
  "slice_get xs a b = Some ys \<longleftrightarrow> a \<le> b \<and> b \<le> length xs \<and> ys = slice_of xs a b"
  by (auto simp: slice_get_def slice_of_def)

lemma slice_get_None_iff: "slice_get xs a b = None \<longleftrightarrow> b < a \<or> length xs < b"
  by (auto simp: slice_get_def)

lemma length_slice: "b \<le> length xs \<Longrightarrow> length (slice_of xs a b) = b - a"
  by (simp add: slice_of_def)

lemma slice_append_left: "b \<le> length xs \<Longrightarrow> slice_of (xs @ ys) a b = slice_of xs a b"
  by (auto simp: slice_of_def)

lemma slice_concat:
  assumes "a \<le> b" "b \<le> c"
  shows "slice_of xs a b @ slice_of xs b c = slice_of xs a c"
proof -
  have "slice_of xs a c = take ((b - a) + (c - b)) (drop a xs)"
    using assms by (simp add: slice_of_def)
  also have "\<dots> = take (b - a) (drop a xs) @ take (c - b) (drop (b - a) (drop a xs))"
    by (rule take_add)
  also have "\<dots> = slice_of xs a b @ slice_of xs b c"
    using assms by (simp add: slice_of_def)
  finally show ?thesis by simp
qed

lemma slice_middle: "slice_of (xs @ ys @ zs) (length xs) (length xs + length ys) = ys"
  by (simp add: slice_of_def)

section \<open>Association lists\<close>

lemma length_delete_key:
  "distinct (map fst xs) \<Longrightarrow> map_of xs k = Some v \<Longrightarrow> Suc (length (AList.delete k xs)) = length xs"
proof (induction xs)
  case (Cons x xs)
  then show ?case
    by (cases x) (auto simp: delete_id split: if_splits simp del: map_of_eq_Some_iff)
qed simp

lemma length_update_key:
  "length (AList.update k v xs) = (if map_of xs k = None then Suc (length xs) else length xs)"
  by (induction xs) auto

section \<open>Fallible computations over a state\<close>

text \<open>
  \<open>io::Result\<close> with side effects: the state is returned on both branches, because what was
  done before an early return stays done. \<open>and_then m f\<close> is the code after a \<open>?\<close>.
\<close>

type_synonym ('e, 's, 'a) fallible = "'s \<Rightarrow> ('e + 'a) \<times> 's"

definition and_then :: "('e + 'a) \<times> 's \<Rightarrow> ('a \<Rightarrow> 's \<Rightarrow> ('e + 'b) \<times> 's) \<Rightarrow> ('e + 'b) \<times> 's" where
  "and_then r f = (case r of (Inl e, s) \<Rightarrow> (Inl e, s) | (Inr x, s) \<Rightarrow> f x s)"

lemma and_then_Inl [simp]: "and_then (Inl e, s) f = (Inl e, s)"
  by (simp add: and_then_def)

lemma and_then_Inr [simp]: "and_then (Inr x, s) f = f x s"
  by (simp add: and_then_def)

lemma and_then_cong [fundef_cong]:
  "r = r' \<Longrightarrow> (\<And>x s. r' = (Inr x, s) \<Longrightarrow> f x s = g x s) \<Longrightarrow> and_then r f = and_then r' g"
  by (cases r') (auto simp: and_then_def split: sum.splits)

lemma and_then_eq_Inr:
  "and_then r f = (Inr y, s') \<longleftrightarrow> (\<exists>x s. r = (Inr x, s) \<and> f x s = (Inr y, s'))"
  by (cases r) (auto simp: and_then_def split: sum.splits)

lemma and_then_eq_Inl:
  "and_then r f = (Inl e, s') \<longleftrightarrow> r = (Inl e, s') \<or> (\<exists>x s. r = (Inr x, s) \<and> f x s = (Inl e, s'))"
  by (cases r) (auto simp: and_then_def split: sum.splits)

lemma and_then_cases:
  assumes "and_then m f = (r, s')"
  obtains (stop) e where "m = (Inl e, s')" "r = Inl e"
  | (continue) x s where "m = (Inr x, s)" "f x s = (r, s')"
  using assms by (cases m) (auto simp: and_then_def split: sum.splits)

section \<open>Lists and options\<close>

text \<open>\<open>Option::is_some_and\<close> and \<open>Option::is_none_or\<close>.\<close>

definition is_some_and :: "'a option \<Rightarrow> ('a \<Rightarrow> bool) \<Rightarrow> bool" where
  "is_some_and x p = (case x of None \<Rightarrow> False | Some y \<Rightarrow> p y)"

definition is_none_or :: "'a option \<Rightarrow> ('a \<Rightarrow> bool) \<Rightarrow> bool" where
  "is_none_or x p = (case x of None \<Rightarrow> True | Some y \<Rightarrow> p y)"

lemma is_some_and_simps [simp]: "is_some_and None p = False" "is_some_and (Some y) p = p y"
  by (simp_all add: is_some_and_def)

lemma is_none_or_simps [simp]: "is_none_or None p = True" "is_none_or (Some y) p = p y"
  by (simp_all add: is_none_or_def)

lemma is_some_and_iff: "is_some_and x p \<longleftrightarrow> (\<exists>y. x = Some y \<and> p y)"
  by (cases x) auto

lemma is_none_or_iff: "is_none_or x p \<longleftrightarrow> (\<forall>y. x = Some y \<longrightarrow> p y)"
  by (cases x) auto

section \<open>Decimal numbers\<close>

text \<open>What \<open>format!("\{n\}")\<close> writes.\<close>

definition digit_char :: "nat \<Rightarrow> char" where
  "digit_char d = char_of (48 + d)"

fun dec_string :: "nat \<Rightarrow> string" where
  "dec_string n = (if n < 10 then [digit_char n] else dec_string (n div 10) @ [digit_char (n mod 10)])"

declare dec_string.simps [simp del]

end
