(* ===== verification/Buf_Record.thy ===== *)
theory Buf_Record
  imports Prelude
begin

text \<open>
  Record framing (\<open>crates/atlas-buffer/src/record.rs\<close>): a record on disk is its length and
  the CRC32C of its payload, both 32-bit little-endian, then the payload. The checksum
  function is the \<open>crc32c\<close> crate's and a parameter \<open>crc\<close> of every definition here; nothing
  is assumed about it.

  Facts: a written frame parses back wherever it lies; every cut of one is \<open>Incomplete\<close>; what
  parses as a record is exactly an encoded payload; and a scan returns the records that were
  written, up to the first torn or corrupt frame.
\<close>

section \<open>Constants and encoding\<close>

definition RECORD_HEADER :: nat where
  "RECORD_HEADER = 8"

definition MAX_PAYLOAD :: nat where
  "MAX_PAYLOAD = 256 * 1024"

text \<open>The range of payload sizes the callers of \<open>encode\<close> have checked.\<close>

definition payload_ok :: "bytes \<Rightarrow> bool" where
  "payload_ok p \<longleftrightarrow> p \<noteq> [] \<and> length p \<le> MAX_PAYLOAD"

text \<open>\<open>encode\<close> appends one framed record to \<open>out\<close>.\<close>

definition record_encode :: "(bytes \<Rightarrow> u32) \<Rightarrow> bytes \<Rightarrow> bytes \<Rightarrow> bytes" where
  "record_encode crc payload out =
     ((out @ le_bytes 4 (length payload mod 2 ^ 32)) @ le_bytes 4 (unat (crc payload))) @ payload"

definition frame_of :: "(bytes \<Rightarrow> u32) \<Rightarrow> bytes \<Rightarrow> bytes" where
  "frame_of crc payload = record_encode crc payload []"

section \<open>Parsing\<close>

datatype frame = Record nat nat | Incomplete | Invalid

definition parse :: "(bytes \<Rightarrow> u32) \<Rightarrow> bytes \<Rightarrow> nat \<Rightarrow> frame" where
  "parse crc data pos =
     (case (if pos \<le> length data then slice_get (drop pos data) 0 RECORD_HEADER else None) of
        None \<Rightarrow> Incomplete
      | Some header \<Rightarrow>
          (let len = from_le (slice_of header 0 4);
               crc0 = from_le (slice_of header 4 8)
           in if len = 0 \<or> len > MAX_PAYLOAD then Invalid
              else let payload_start = pos + RECORD_HEADER in
                (case slice_get data payload_start (payload_start + len) of
                   None \<Rightarrow> Incomplete
                 | Some payload \<Rightarrow>
                     if unat (crc payload) \<noteq> crc0 then Invalid
                     else Record payload_start (payload_start + len))))"

record scan_result =
  valid_end :: nat
  records :: "(nat \<times> nat) list"

lemma parse_Record_progress:
  assumes "parse crc data pos = Record s n"
  shows "s = pos + 8" "s < n" "n \<le> length data"
  using assms
  by (auto simp: parse_def RECORD_HEADER_def slice_get_Some_iff Let_def
      split: option.splits if_splits)

text \<open>The loop of \<open>scan\<close>, with its two mutable variables as arguments.\<close>

function scan_loop :: "(bytes \<Rightarrow> u32) \<Rightarrow> bytes \<Rightarrow> nat \<Rightarrow> (nat \<times> nat) list \<Rightarrow> scan_result" where
  "scan_loop crc data pos recs =
     (case parse crc data pos of
        Record s n \<Rightarrow> scan_loop crc data n (recs @ [(s, n)])
      | _ \<Rightarrow> \<lparr>valid_end = pos, records = recs\<rparr>)"
  by pat_completeness auto
termination
proof (relation "measure (\<lambda>(crc, data, pos, recs). length data - pos)", goal_cases)
  case 1
  show ?case by simp
next
  case (2 crc data pos recs s n)
  then show ?case using parse_Record_progress [of crc data pos s n] by simp
qed

declare scan_loop.simps [simp del]

definition scan :: "(bytes \<Rightarrow> u32) \<Rightarrow> bytes \<Rightarrow> nat \<Rightarrow> scan_result" where
  "scan crc data start = scan_loop crc data (min start (length data)) []"

section \<open>Frames\<close>

lemma MAX_PAYLOAD_u32: "n \<le> MAX_PAYLOAD \<Longrightarrow> n mod 4294967296 = n"
  by (simp add: MAX_PAYLOAD_def)

lemma unat_u32_less: "unat (w :: u32) < 256 ^ 4"
  using unsigned_less [of w, where ?'a = nat] by simp

lemma record_encode_frame: "record_encode crc p out = out @ frame_of crc p"
  by (simp add: record_encode_def frame_of_def)

lemma length_frame_of [simp]: "length (frame_of crc p) = 8 + length p"
  by (simp add: frame_of_def record_encode_def)

lemma frame_of_split:
  "frame_of crc p = le_bytes 4 (length p mod 2 ^ 32) @ le_bytes 4 (unat (crc p)) @ p"
  by (simp add: frame_of_def record_encode_def)

lemma frame_of_nonempty [simp]: "frame_of crc p \<noteq> []"
  using length_frame_of [of crc p] by (metis add_is_0 list.size(3) zero_neq_numeral)

text \<open>The two header fields, read back from a frame that starts at \<open>length pre\<close>.\<close>

lemma header_of_frame:
  assumes "length p \<le> MAX_PAYLOAD"
  shows "take 8 (frame_of crc p @ post) = le_bytes 4 (length p) @ le_bytes 4 (unat (crc p))"
  using assms by (simp add: frame_of_split MAX_PAYLOAD_u32)

lemma from_le_length_field:
  "n \<le> MAX_PAYLOAD \<Longrightarrow> from_le (le_bytes 4 n) = n"
  by (rule from_le_bytes) (simp add: MAX_PAYLOAD_def)

lemma from_le_crc_field: "from_le (le_bytes 4 (unat (w :: u32))) = unat w"
  by (rule from_le_bytes) (rule unat_u32_less)

lemma parse_frame_context:
  assumes ok: "payload_ok p"
  shows "parse crc (pre @ frame_of crc p @ post) (length pre)
       = Record (length pre + 8) (length pre + 8 + length p)"
proof -
  let ?d = "pre @ frame_of crc p @ post"
  from ok have len: "length p \<le> MAX_PAYLOAD" and ne: "length p \<noteq> 0"
    by (auto simp: payload_ok_def)
  have hdr: "slice_get (frame_of crc p @ post) 0 8
           = Some (le_bytes 4 (length p) @ le_bytes 4 (unat (crc p)))"
    using header_of_frame [OF len, of crc post] by (simp add: slice_get_def)
  have pay: "slice_get ?d (length pre + 8) (length pre + 8 + length p) = Some p"
    by (simp add: slice_get_def frame_of_split)
  show ?thesis
    using len ne
    by (simp add: parse_def RECORD_HEADER_def hdr pay slice_of_def from_le_length_field
        from_le_crc_field Let_def)
qed

lemma parse_cut_frame:
  assumes ok: "payload_ok p" and cut: "k < length (frame_of crc p)"
  shows "parse crc (pre @ take k (frame_of crc p)) (length pre) = Incomplete"
proof (cases "k < 8")
  case True
  then show ?thesis
    by (simp add: parse_def slice_get_def RECORD_HEADER_def)
next
  case False
  let ?d = "pre @ take k (frame_of crc p)"
  from ok have len: "length p \<le> MAX_PAYLOAD" and ne: "length p \<noteq> 0"
    by (auto simp: payload_ok_def)
  have "take 8 (take k (frame_of crc p)) = le_bytes 4 (length p) @ le_bytes 4 (unat (crc p))"
    using False header_of_frame [OF len, of crc "[]"] by (simp add: min_absorb1)
  then have hdr: "slice_get (take k (frame_of crc p)) 0 8
           = Some (le_bytes 4 (length p) @ le_bytes 4 (unat (crc p)))"
    using False cut by (simp add: slice_get_def)
  have pay: "slice_get ?d (length pre + 8) (length pre + 8 + length p) = None"
    using cut False by (simp add: slice_get_def)
  show ?thesis
    using len ne
    by (simp add: parse_def RECORD_HEADER_def hdr pay slice_of_def from_le_length_field)
qed

text \<open>Soundness of \<open>parse\<close>: a record it reports is the encoding of its payload.\<close>

lemma parse_Record_sound:
  assumes "parse crc data pos = Record s n"
  shows "payload_ok (slice_of data s n) \<and> slice_of data pos n = frame_of crc (slice_of data s n)"
proof -
  from assms obtain header where
    pos: "pos \<le> length data" and
    hdr: "slice_get (drop pos data) 0 8 = Some header" and
    len0: "from_le (slice_of header 0 4) \<noteq> 0" and
    lenM: "from_le (slice_of header 0 4) \<le> MAX_PAYLOAD" and
    pay: "slice_get data (pos + 8) (pos + 8 + from_le (slice_of header 0 4)) = Some (slice_of data s n)" and
    crcq: "unat (crc (slice_of data s n)) = from_le (slice_of header 4 8)" and
    sn: "s = pos + 8" "n = pos + 8 + from_le (slice_of header 0 4)"
    by (auto simp: parse_def RECORD_HEADER_def Let_def slice_get_Some_iff
        split: option.splits if_splits)
  obtain len where len: "from_le (slice_of header 0 4) = len" by simp
  note len0 = len0 [unfolded len] and lenM = lenM [unfolded len] and pay = pay [unfolded len]
    and sn = sn [unfolded len]
  let ?p = "slice_of data s n"
  from pay have bound: "pos + 8 + len \<le> length data" by (simp add: slice_get_Some_iff)
  then have plen: "length ?p = len" by (simp add: sn length_slice)
  from hdr have h: "header = take 8 (drop pos data)" and lh: "length header = 8"
    using bound by (auto simp: slice_get_Some_iff slice_of_def)
  have h1: "slice_of header 0 4 = le_bytes 4 len"
    using le_bytes_from_le [of "slice_of header 0 4"] lh by (simp add: length_slice len)
  have h2: "slice_of header 4 8 = le_bytes 4 (unat (crc ?p))"
    using le_bytes_from_le [of "slice_of header 4 8"] lh by (simp add: length_slice crcq)
  have "slice_of header 0 4 @ slice_of header 4 8 = header"
    using slice_concat [of 0 4 8 header] lh by (simp add: slice_of_def)
  then have "header = le_bytes 4 (length ?p mod 2 ^ 32) @ le_bytes 4 (unat (crc ?p))"
    unfolding h1 h2 using lenM by (simp add: plen MAX_PAYLOAD_u32)
  moreover have "slice_of data pos n = header @ ?p"
    using slice_concat [of pos "pos + 8" n data] by (simp add: h sn slice_of_def)
  ultimately have "slice_of data pos n = frame_of crc ?p"
    by (simp add: frame_of_split)
  moreover have "payload_ok ?p"
    using len0 lenM plen by (auto simp: payload_ok_def)
  ultimately show ?thesis by blast
qed

section \<open>Streams of frames\<close>

definition frames :: "(bytes \<Rightarrow> u32) \<Rightarrow> bytes list \<Rightarrow> bytes" where
  "frames crc ps = concat (map (frame_of crc) ps)"

lemma frames_simps [simp]:
  "frames crc [] = []"
  "frames crc (p # ps) = frame_of crc p @ frames crc ps"
  "frames crc (ps @ qs) = frames crc ps @ frames crc qs"
  by (simp_all add: frames_def)

definition payloads_at :: "bytes \<Rightarrow> (nat \<times> nat) list \<Rightarrow> bytes list" where
  "payloads_at data rs = map (\<lambda>(s, n). slice_of data s n) rs"

lemma payloads_at_simps [simp]:
  "payloads_at data [] = []"
  "payloads_at data ((s, n) # rs) = slice_of data s n # payloads_at data rs"
  "payloads_at data (rs @ rs') = payloads_at data rs @ payloads_at data rs'"
  by (simp_all add: payloads_at_def)

lemma scan_loop_step:
  "parse crc data pos = Record s n \<Longrightarrow>
     scan_loop crc data pos recs = scan_loop crc data n (recs @ [(s, n)])"
  by (subst scan_loop.simps) simp

lemma scan_loop_stop:
  "(\<And>s n. parse crc data pos \<noteq> Record s n) \<Longrightarrow>
     scan_loop crc data pos recs = \<lparr>valid_end = pos, records = recs\<rparr>"
  by (subst scan_loop.simps) (auto split: frame.splits)

text \<open>
  What a tail must satisfy for the scan to stop in front of it: parsing at its start gives no
  record. Torn frames and zero filling satisfy it for every checksum function.
\<close>

definition no_frame_at :: "(bytes \<Rightarrow> u32) \<Rightarrow> bytes \<Rightarrow> bytes \<Rightarrow> bool" where
  "no_frame_at crc pre tail \<longleftrightarrow>
     (case parse crc (pre @ tail) (length pre) of Record _ _ \<Rightarrow> False | _ \<Rightarrow> True)"

lemma scan_loop_frames:
  assumes "list_all payload_ok ps" and "no_frame_at crc (pre @ frames crc ps) tail"
  shows "valid_end (scan_loop crc (pre @ frames crc ps @ tail) (length pre) recs)
           = length pre + length (frames crc ps) \<and>
         payloads_at (pre @ frames crc ps @ tail)
           (records (scan_loop crc (pre @ frames crc ps @ tail) (length pre) recs))
           = payloads_at (pre @ frames crc ps @ tail) recs @ ps"
  using assms
proof (induction ps arbitrary: pre recs)
  case Nil
  then have "scan_loop crc (pre @ tail) (length pre) recs = \<lparr>valid_end = length pre, records = recs\<rparr>"
    by (intro scan_loop_stop) (auto simp: no_frame_at_def)
  then show ?case by simp
next
  case (Cons p ps)
  let ?pre' = "pre @ frame_of crc p"
  let ?d = "pre @ frames crc (p # ps) @ tail"
  have d: "?d = ?pre' @ frames crc ps @ tail" by simp
  have "parse crc ?d (length pre) = Record (length pre + 8) (length ?pre')"
    using Cons.prems(1) parse_frame_context [of p crc pre "frames crc ps @ tail"]
    by (simp add: add.assoc)
  then have step: "scan_loop crc ?d (length pre) recs
      = scan_loop crc ?d (length ?pre') (recs @ [(length pre + 8, length ?pre')])"
    by (rule scan_loop_step)
  have sl: "slice_of ?d (length pre + 8) (length ?pre') = p"
    using slice_middle [of "pre @ le_bytes 4 (length p mod 2 ^ 32) @ le_bytes 4 (unat (crc p))" p
        "frames crc ps @ tail"]
    by (simp add: frame_of_split add.assoc)
  have "no_frame_at crc (?pre' @ frames crc ps) tail" "list_all payload_ok ps"
    using Cons.prems by simp_all
  from Cons.IH [OF this(2) this(1), of "recs @ [(length pre + 8, length ?pre')]"]
  show ?case
    unfolding step unfolding d using sl unfolding d by simp
qed

lemma scan_frames:
  assumes "list_all payload_ok ps" and "no_frame_at crc (pre @ frames crc ps) tail"
  shows "valid_end (scan crc (pre @ frames crc ps @ tail) (length pre))
           = length pre + length (frames crc ps)"
    and "payloads_at (pre @ frames crc ps @ tail)
           (records (scan crc (pre @ frames crc ps @ tail) (length pre))) = ps"
  using scan_loop_frames [OF assms, of "[]"] by (simp_all add: scan_def)

section \<open>Tails that hold no frame\<close>

lemma no_frame_empty: "no_frame_at crc pre []"
  by (simp add: no_frame_at_def parse_def slice_get_def RECORD_HEADER_def)

lemma no_frame_cut: "payload_ok p \<Longrightarrow> k < length (frame_of crc p) \<Longrightarrow>
    no_frame_at crc pre (take k (frame_of crc p))"
  by (simp add: no_frame_at_def parse_cut_frame)

lemma from_le_zeros: "from_le (replicate n 0) = 0"
  by (induction n) auto

lemma no_frame_zeros: "no_frame_at crc pre (replicate k 0 @ rest)" if "k \<ge> 4"
  using that
  by (auto simp: no_frame_at_def parse_def slice_get_def RECORD_HEADER_def slice_of_def from_le_zeros
      Let_def min_def)

text \<open>A write that stopped somewhere leaves whole frames and a cut one.\<close>

lemma cut_frames:
  assumes "list_all payload_ok ps"
  shows "\<exists>qs rest tail. ps = qs @ rest \<and> take k (frames crc ps) = frames crc qs @ tail \<and>
           (\<forall>pre. no_frame_at crc pre tail)"
  using assms
proof (induction ps arbitrary: k)
  case Nil
  then show ?case using no_frame_empty by auto
next
  case (Cons p ps)
  show ?case
  proof (cases "k < length (frame_of crc p)")
    case True
    then have "take k (frames crc (p # ps)) = frames crc [] @ take k (frame_of crc p)" by simp
    then show ?thesis using True Cons.prems no_frame_cut
      by (intro exI [of _ "[]"] exI [of _ "p # ps"] exI [of _ "take k (frame_of crc p)"]) auto
  next
    case False
    from Cons.IH [of "k - length (frame_of crc p)"] Cons.prems
    obtain qs rest tail where
      "ps = qs @ rest" "take (k - length (frame_of crc p)) (frames crc ps) = frames crc qs @ tail"
      "\<forall>pre. no_frame_at crc pre tail" by auto
    then show ?thesis using False
      by (intro exI [of _ "p # qs"] exI [of _ rest] exI [of _ tail]) auto
  qed
qed

lemma frames_inject:
  assumes "list_all payload_ok ps" "list_all payload_ok qs" "frames crc ps = frames crc qs"
  shows "ps = qs"
proof -
  have "payloads_at (frames crc ps) (records (scan crc (frames crc ps) 0)) = ps"
    using scan_frames(2) [of ps crc "[]" "[]"] assms(1) no_frame_empty by simp
  moreover have "payloads_at (frames crc qs) (records (scan crc (frames crc qs) 0)) = qs"
    using scan_frames(2) [of qs crc "[]" "[]"] assms(2) no_frame_empty by simp
  ultimately show ?thesis unfolding assms(3) by (rule trans [OF sym])
qed

section \<open>Every scan\<close>

text \<open>The records of any scan lie end to end and re-encode to the bytes scanned.\<close>

lemma scan_loop_sound:
  "pos \<le> length data \<Longrightarrow> \<exists>ps. list_all payload_ok ps \<and>
     pos \<le> valid_end (scan_loop crc data pos recs) \<and>
     valid_end (scan_loop crc data pos recs) \<le> length data \<and>
     slice_of data pos (valid_end (scan_loop crc data pos recs)) = frames crc ps \<and>
     payloads_at data (records (scan_loop crc data pos recs)) = payloads_at data recs @ ps \<and>
     no_frame_at crc (take (valid_end (scan_loop crc data pos recs)) data)
        (drop (valid_end (scan_loop crc data pos recs)) data)"
proof (induction crc data pos recs rule: scan_loop.induct)
  case (1 crc data pos recs)
  show ?case
  proof (cases "parse crc data pos")
    case (Record s n)
    note p = parse_Record_progress [OF Record] and snd = parse_Record_sound [OF Record]
    let ?r = "scan_loop crc data n (recs @ [(s, n)])"
    from "1.IH" [OF Record] p obtain ps where
      ps: "list_all payload_ok ps" "n \<le> valid_end ?r" "valid_end ?r \<le> length data"
        "slice_of data n (valid_end ?r) = frames crc ps"
        "payloads_at data (records ?r) = payloads_at data (recs @ [(s, n)]) @ ps"
        "no_frame_at crc (take (valid_end ?r) data) (drop (valid_end ?r) data)" by auto
    have "slice_of data pos (valid_end ?r) = slice_of data pos n @ slice_of data n (valid_end ?r)"
      using p ps(2) slice_concat [of pos n "valid_end ?r" data] by simp
    with ps snd p show ?thesis
      by (intro exI [of _ "slice_of data s n # ps"]) (auto simp: scan_loop_step [OF Record])
  next
    case Incomplete
    then show ?thesis using "1.prems"
      by (intro exI [of _ "[]"]) (simp add: scan_loop_stop slice_of_def no_frame_at_def)
  next
    case Invalid
    then show ?thesis using "1.prems"
      by (intro exI [of _ "[]"]) (simp add: scan_loop_stop slice_of_def no_frame_at_def)
  qed
qed


text \<open>Whole frames are found whatever follows them.\<close>

lemma scan_loop_extends: "\<exists>more. records (scan_loop crc data pos recs) = recs @ more"
proof (induction crc data pos recs rule: scan_loop.induct)
  case (1 crc data pos recs)
  show ?case
  proof (cases "parse crc data pos")
    case (Record s n)
    then show ?thesis using "1.IH" [OF Record] by (auto simp: scan_loop_step [OF Record])
  qed (simp_all add: scan_loop_stop)
qed

lemma scan_loop_prefix:
  assumes "list_all payload_ok ps"
  shows "\<exists>more. payloads_at (pre @ frames crc ps @ tail)
      (records (scan_loop crc (pre @ frames crc ps @ tail) (length pre) recs)) =
      payloads_at (pre @ frames crc ps @ tail) recs @ ps @ more"
  using assms
proof (induction ps arbitrary: pre recs)
  case Nil
  then show ?case using scan_loop_extends [of crc "pre @ tail" "length pre" recs] by auto
next
  case (Cons p ps)
  let ?pre' = "pre @ frame_of crc p"
  let ?d = "pre @ frames crc (p # ps) @ tail"
  have d: "?d = ?pre' @ frames crc ps @ tail" by simp
  have "parse crc ?d (length pre) = Record (length pre + 8) (length ?pre')"
    using Cons.prems parse_frame_context [of p crc pre "frames crc ps @ tail"] by (simp add: add.assoc)
  then have step: "scan_loop crc ?d (length pre) recs
      = scan_loop crc ?d (length ?pre') (recs @ [(length pre + 8, length ?pre')])"
    by (rule scan_loop_step)
  have sl: "slice_of ?d (length pre + 8) (length ?pre') = p"
    using slice_middle [of "pre @ le_bytes 4 (length p mod 2 ^ 32) @ le_bytes 4 (unat (crc p))" p
        "frames crc ps @ tail"]
    by (simp add: frame_of_split add.assoc)
  from Cons.IH [of ?pre' "recs @ [(length pre + 8, length ?pre')]"] Cons.prems
  show ?case unfolding step unfolding d using sl unfolding d by simp
qed

end
