(* ===== verification/Buf_Fs.thy ===== *)
theory Buf_Fs
  imports Prelude "HOL-Library.Char_ord"
begin

text \<open>
  The buffer directory (\<open>crates/atlas-buffer/src/fsx.rs\<close>) and the part of the standard library's
  file system the buffer uses. A \<open>world\<close> holds the directory's entries by name, what open
  handles still see of deleted files, and the fates of the I/O calls to come: each call
  consumes one fate and either succeeds or fails with an error, a failing write having put
  down some prefix of its bytes. Every theorem holds for every sequence of fates.

  Facts: segment names round-trip and sort like their numbers, exactly the names the writer
  makes are listed, and each operation's effect on the files, failures included.
\<close>

section \<open>Errors, fates and the world\<close>

datatype io_error =
    NotFound
  | AlreadyExists
  | PermissionDenied
  | InvalidInput
  | InvalidData
  | OtherError

datatype fate = Good | Fail io_error nat

text \<open>A directory entry: a regular file with its bytes, or a reparse point, directory, device.\<close>

datatype node = Regular bytes | NotRegular

datatype dir_kind = DirMissing | PlainDir | NotPlainDir

record world =
  dir :: dir_kind
  files :: "(string \<times> node) list"
  unlinked :: "(string \<times> node) list"
  fates :: "fate list"

type_synonym 'a io = "(io_error + 'a) \<times> world"

definition next_fate :: "world \<Rightarrow> fate \<times> world" where
  "next_fate w = (case fates w of [] \<Rightarrow> (Good, w) | f # fs \<Rightarrow> (f, w\<lparr>fates := fs\<rparr>))"

text \<open>One I/O call without a partial effect: it fails as its fate says, or does \<open>f\<close>.\<close>

definition io_call :: "world \<Rightarrow> (world \<Rightarrow> 'a io) \<Rightarrow> 'a io" where
  "io_call w f = (case next_fate w of (Good, w') \<Rightarrow> f w' | (Fail e _, w') \<Rightarrow> (Inl e, w'))"

definition put_file :: "string \<Rightarrow> node \<Rightarrow> world \<Rightarrow> world" where
  "put_file name x w = w\<lparr>files := AList.update name x (files w)\<rparr>"

definition node_of :: "world \<Rightarrow> string \<Rightarrow> node option" where
  "node_of w name = map_of (files w) name"

definition file_data :: "world \<Rightarrow> string \<Rightarrow> bytes option" where
  "file_data w name = (case node_of w name of Some (Regular b) \<Rightarrow> Some b | _ \<Rightarrow> None)"

text \<open>What a handle opened earlier reads: the file, also after its name was deleted.\<close>

definition handle_data :: "world \<Rightarrow> string \<Rightarrow> bytes" where
  "handle_data w name =
     (case node_of w name of
        Some (Regular b) \<Rightarrow> b
      | _ \<Rightarrow> (case map_of (unlinked w) name of Some (Regular b) \<Rightarrow> b | _ \<Rightarrow> []))"

section \<open>Segment names\<close>

definition SEGMENT_MAGIC :: bytes where
  "SEGMENT_MAGIC = [0x41, 0x54, 0x4c, 0x53, 0x45, 0x47, 0x30, 0x31]"

definition SEGMENT_HEADER :: nat where
  "SEGMENT_HEADER = 8"

definition segment_path :: "nat \<Rightarrow> string" where
  "segment_path seq =
     replicate (20 - length (dec_string seq)) (CHR ''0'') @ dec_string seq @ ''.seg''"

definition is_ascii_digit :: "char \<Rightarrow> bool" where
  "is_ascii_digit c \<longleftrightarrow> 48 \<le> (of_char c :: nat) \<and> (of_char c :: nat) \<le> 57"

definition dec_value :: "string \<Rightarrow> nat" where
  "dec_value s = foldl (\<lambda>a c. 10 * a + (of_char c - 48)) 0 s"

definition parse_u64 :: "string \<Rightarrow> nat option" where
  "parse_u64 s = (if dec_value s \<le> U64_MAX then Some (dec_value s) else None)"

definition strip_suffix :: "string \<Rightarrow> string \<Rightarrow> string option" where
  "strip_suffix suf s =
     (if length suf \<le> length s \<and> drop (length s - length suf) s = suf
      then Some (take (length s - length suf) s) else None)"

definition parse_segment_name :: "string \<Rightarrow> nat option" where
  "parse_segment_name name =
     (case strip_suffix ''.seg'' name of
        None \<Rightarrow> None
      | Some digits \<Rightarrow>
          if length digits \<noteq> 20 \<or> \<not> list_all is_ascii_digit digits then None
          else parse_u64 digits)"

text \<open>Sequence numbers in the directory, ascending; other names are ignored.\<close>

definition segment_seqs :: "string list \<Rightarrow> nat list" where
  "segment_seqs names = sort (List.map_filter parse_segment_name names)"

definition list_segments :: "world \<Rightarrow> nat list io" where
  "list_segments w = io_call w (\<lambda>w. (Inr (segment_seqs (map fst (files w))), w))"

subsection \<open>Decimal digits\<close>

fun fixed_digits :: "nat \<Rightarrow> nat \<Rightarrow> string" where
  "fixed_digits 0 n = []"
| "fixed_digits (Suc k) n = fixed_digits k (n div 10) @ [digit_char (n mod 10)]"

lemma length_fixed_digits [simp]: "length (fixed_digits k n) = k"
  by (induction k arbitrary: n) auto

lemma of_char_digit: "d < 10 \<Longrightarrow> of_char (digit_char d) = (48 + d :: nat)"
  by (simp add: digit_char_def)

lemma dec_value_snoc: "dec_value (s @ [c]) = 10 * dec_value s + (of_char c - 48)"
  by (simp add: dec_value_def)

lemma dec_value_Nil [simp]: "dec_value [] = 0"
  by (simp add: dec_value_def)

lemma dec_value_fixed: "dec_value (fixed_digits k n) = n mod 10 ^ k"
proof (induction k arbitrary: n)
  case 0
  show ?case by simp
next
  case (Suc k)
  have "dec_value (fixed_digits (Suc k) n) = 10 * (n div 10 mod 10 ^ k) + n mod 10"
    by (simp add: dec_value_snoc Suc.IH of_char_digit)
  also have "\<dots> = n mod 10 ^ Suc k"
    by (simp add: mod_mult2_eq)
  finally show ?case .
qed

lemma fixed_digits_value:
  "list_all is_ascii_digit s \<Longrightarrow> fixed_digits (length s) (dec_value s) = s"
proof (induction s rule: rev_induct)
  case Nil
  show ?case by simp
next
  case (snoc c s)
  then obtain d where d: "of_char c = 48 + d" "d < (10 :: nat)"
    using le_Suc_ex [of 48 "of_char c"] by (auto simp: is_ascii_digit_def)
  then have "digit_char d = c" by (metis char_of_char digit_char_def)
  moreover have "(10 * dec_value s + d) div 10 = dec_value s" "(10 * dec_value s + d) mod 10 = d"
    using d by simp_all
  ultimately show ?case using snoc d by (simp add: dec_value_snoc)
qed

lemma fixed_digits_digits: "list_all is_ascii_digit (fixed_digits k n)"
  by (induction k arbitrary: n) (auto simp: is_ascii_digit_def of_char_digit)

lemma fixed_digits_zero_pad:
  "n < 10 ^ k \<Longrightarrow> fixed_digits (j + k) n = replicate j (CHR ''0'') @ fixed_digits k n"
proof (induction k arbitrary: n)
  case 0
  have "digit_char 0 = CHR ''0''" by (simp add: digit_char_def char_of_def bit_0)
  then have "fixed_digits j 0 = replicate j (CHR ''0'')"
    by (induction j) (auto simp: replicate_append_same)
  then show ?case using 0 by simp
next
  case (Suc k)
  then show ?case by (simp add: less_mult_imp_div_less mult.commute)
qed

lemma dec_string_fixed:
  "dec_string n = fixed_digits (length (dec_string n)) n \<and> n < 10 ^ length (dec_string n)
     \<and> (n < 10 ^ Suc k \<longrightarrow> length (dec_string n) \<le> Suc k)"
proof (induction n arbitrary: k rule: dec_string.induct)
  case (1 n)
  show ?case
  proof (cases "n < 10")
    case True
    then have "dec_string n = [digit_char n]" by (simp add: dec_string.simps)
    with True show ?thesis by simp
  next
    case False
    let ?m = "n div 10"
    have e: "dec_string n = dec_string ?m @ [digit_char (n mod 10)]"
      using False by (subst dec_string.simps) simp
    from "1.IH" [OF False, of "k - 1"] have
      ih: "dec_string ?m = fixed_digits (length (dec_string ?m)) ?m"
        "?m < 10 ^ length (dec_string ?m)"
        "?m < 10 ^ Suc (k - 1) \<longrightarrow> length (dec_string ?m) \<le> Suc (k - 1)"
      by auto
    have "n < 10 ^ Suc (length (dec_string ?m))"
      using ih(2) by (simp add: div_less_iff_less_mult mult.commute)
    moreover have "length (dec_string n) \<le> Suc k" if "n < 10 ^ Suc k"
    proof (cases k)
      case 0
      with that False show ?thesis by simp
    next
      case (Suc j)
      with that have "?m < 10 ^ Suc j" by (simp add: div_less_iff_less_mult mult.commute)
      with ih(3) Suc show ?thesis by (simp add: e)
    qed
    ultimately show ?thesis
      unfolding e using ih(1) by simp
  qed
qed

lemma segment_path_fixed:
  assumes "n < 10 ^ 20"
  shows "segment_path n = fixed_digits 20 n @ ''.seg''"
proof -
  let ?l = "length (dec_string n)"
  from dec_string_fixed [of n 19] assms
  have l: "?l \<le> 20" and d: "dec_string n = fixed_digits ?l n" and b: "n < 10 ^ ?l" by auto
  from l fixed_digits_zero_pad [OF b, of "20 - ?l"]
  have "fixed_digits 20 n = replicate (20 - ?l) (CHR ''0'') @ fixed_digits ?l n" by simp
  then show ?thesis using d by (simp add: segment_path_def)
qed

lemma dec_value_zeros: "dec_value (replicate k (CHR ''0'') @ s) = dec_value s"
proof (induction s rule: rev_induct)
  case Nil
  have "dec_value (replicate k (CHR ''0'')) = 0"
    by (induction k) (auto simp: dec_value_snoc simp flip: replicate_append_same)
  then show ?case by simp
next
  case (snoc c s)
  then show ?case
    using dec_value_snoc [of "replicate k (CHR ''0'') @ s" c] by (simp add: dec_value_snoc)
qed

lemma dec_value_dec_string: "dec_value (dec_string n) = n"
  using dec_string_fixed [of n 0] dec_value_fixed [of "length (dec_string n)" n] by simp

text \<open>Distinct numbers have distinct names, whatever their size.\<close>

lemma segment_path_inject [simp]: "segment_path m = segment_path n \<longleftrightarrow> m = n"
proof
  assume "segment_path m = segment_path n"
  then have "replicate (20 - length (dec_string m)) (CHR ''0'') @ dec_string m
      = replicate (20 - length (dec_string n)) (CHR ''0'') @ dec_string n"
    by (simp add: segment_path_def)
  then have "dec_value (replicate (20 - length (dec_string m)) (CHR ''0'') @ dec_string m)
      = dec_value (replicate (20 - length (dec_string n)) (CHR ''0'') @ dec_string n)"
    by (rule arg_cong)
  then have "dec_value (dec_string m) = dec_value (dec_string n)"
    by (simp only: dec_value_zeros)
  then show "m = n" by (simp add: dec_value_dec_string)
qed simp

lemma u64_below: "n \<le> U64_MAX \<Longrightarrow> n < 10 ^ 20"
  by simp

lemma parse_segment_name_iff:
  "parse_segment_name name = Some seq \<longleftrightarrow> seq \<le> U64_MAX \<and> name = segment_path seq"
proof
  assume "parse_segment_name name = Some seq"
  then obtain digits where d: "strip_suffix ''.seg'' name = Some digits" "length digits = 20"
    "list_all is_ascii_digit digits" "parse_u64 digits = Some seq"
    by (auto simp: parse_segment_name_def split: option.splits if_splits)
  then have seq: "seq = dec_value digits" "seq \<le> U64_MAX"
    by (auto simp: parse_u64_def split: if_splits)
  from d(1) have "name = digits @ ''.seg''"
    unfolding strip_suffix_def by (metis append_take_drop_id option.distinct(1) option.inject)
  moreover have "digits = fixed_digits 20 seq"
    using fixed_digits_value [OF d(3)] d(2) seq by simp
  ultimately show "seq \<le> U64_MAX \<and> name = segment_path seq"
    using seq(2) segment_path_fixed [OF u64_below, OF seq(2)] by (simp only: simp_thms)
next
  assume a: "seq \<le> U64_MAX \<and> name = segment_path seq"
  then have n: "name = fixed_digits 20 seq @ ''.seg''"
    using segment_path_fixed [OF u64_below] by simp
  then have "strip_suffix ''.seg'' name = Some (fixed_digits 20 seq)"
    by (simp add: strip_suffix_def)
  moreover have "dec_value (fixed_digits 20 seq) = seq"
    using a by (simp add: dec_value_fixed)
  ultimately show "parse_segment_name name = Some seq"
    using a by (simp add: parse_segment_name_def parse_u64_def fixed_digits_digits)
qed

lemma parse_segment_path [simp]: "n \<le> U64_MAX \<Longrightarrow> parse_segment_name (segment_path n) = Some n"
  by (simp add: parse_segment_name_iff)

text \<open>Names sort like numbers: the lexicographic order of their bytes is the numeric order.\<close>

definition byte_order :: "(char \<times> char) set" where
  "byte_order = {(a, b). (of_char a :: nat) < of_char b}"

lemma fixed_digits_lex:
  "m < n \<Longrightarrow> n < 10 ^ k \<Longrightarrow> (fixed_digits k m, fixed_digits k n) \<in> lexord byte_order"
proof (induction k arbitrary: m n)
  case 0
  then show ?case by simp
next
  case (Suc k)
  show ?case
  proof (cases "m div 10 = n div 10")
    case True
    then have "m mod 10 < n mod 10" using Suc.prems(1)
      by (metis div_mult_mod_eq nat_add_left_cancel_less)
    then have "([digit_char (m mod 10)], [digit_char (n mod 10)]) \<in> lexord byte_order"
      by (simp add: byte_order_def of_char_digit)
    then show ?thesis using True by (simp add: lexord_append_leftI)
  next
    case False
    then have "m div 10 < n div 10" using Suc.prems(1) by (simp add: div_le_mono le_neq_implies_less)
    moreover have "n div 10 < 10 ^ k"
      using Suc.prems(2) by (simp add: div_less_iff_less_mult mult.commute)
    ultimately have "(fixed_digits k (m div 10), fixed_digits k (n div 10)) \<in> lexord byte_order"
      by (rule Suc.IH)
    then show ?thesis
      using lexord_sufI [of "fixed_digits k (m div 10)" "fixed_digits k (n div 10)" byte_order] by simp
  qed
qed

lemma segment_path_lex:
  assumes "m < n" "n \<le> U64_MAX"
  shows "(segment_path m, segment_path n) \<in> lexord byte_order"
proof -
  have "(fixed_digits 20 m, fixed_digits 20 n) \<in> lexord byte_order"
    using assms by (intro fixed_digits_lex) auto
  then have "(fixed_digits 20 m @ ''.seg'', fixed_digits 20 n @ ''.seg'') \<in> lexord byte_order"
    by (rule lexord_sufI) simp
  moreover have "segment_path m = fixed_digits 20 m @ ''.seg''"
    using assms by (intro segment_path_fixed) simp
  moreover have "segment_path n = fixed_digits 20 n @ ''.seg''"
    using assms by (intro segment_path_fixed) simp
  ultimately show ?thesis by (simp only:)
qed

lemma segment_seqs_sorted: "sorted (segment_seqs names)"
  by (simp add: segment_seqs_def)

lemma map_filter_parse_set:
  "set (List.map_filter parse_segment_name names) = {s. s \<le> U64_MAX \<and> segment_path s \<in> set names}"
proof (induction names)
  case Nil
  show ?case by (simp add: map_filter_simps)
next
  case (Cons x names)
  show ?case
  proof (cases "parse_segment_name x")
    case None
    then have "\<forall>s \<le> U64_MAX. segment_path s \<noteq> x"
      by (metis option.distinct(1) parse_segment_path)
    with None Cons.IH show ?thesis by (auto simp: map_filter_simps)
  next
    case (Some s)
    then have "s \<le> U64_MAX" "x = segment_path s" by (auto simp: parse_segment_name_iff)
    with Some Cons.IH show ?thesis by (auto simp: map_filter_simps)
  qed
qed

lemma map_filter_parse_distinct:
  "distinct names \<Longrightarrow> distinct (List.map_filter parse_segment_name names)"
proof (induction names)
  case Nil
  show ?case by (simp add: map_filter_simps)
next
  case (Cons x names)
  then show ?case
    by (cases "parse_segment_name x")
      (auto simp: map_filter_simps map_filter_parse_set parse_segment_name_iff)
qed

lemma segment_seqs_distinct: "distinct names \<Longrightarrow> distinct (segment_seqs names)"
  by (simp add: segment_seqs_def map_filter_parse_distinct)

lemma set_segment_seqs:
  "set (segment_seqs names) = {s. s \<le> U64_MAX \<and> segment_path s \<in> set names}"
  by (simp add: segment_seqs_def map_filter_parse_set)


section \<open>Operations on the directory\<close>

definition resize :: "nat \<Rightarrow> bytes \<Rightarrow> bytes" where
  "resize n b = take n b @ replicate (n - length b) 0"

definition overwrite :: "nat \<Rightarrow> bytes \<Rightarrow> bytes \<Rightarrow> bytes" where
  "overwrite pos bs b = take pos (resize (max pos (length b)) b) @ bs @ drop (pos + length bs) b"

text \<open>
  \<open>fsx::open\<close>: the open itself, creating the file when asked to, and the check of the handle
  that what was opened is a regular file.
\<close>

definition open_file :: "bool \<Rightarrow> string \<Rightarrow> world \<Rightarrow> unit io" where
  "open_file create name w = io_call w (\<lambda>w.
     case node_of w name of
       None \<Rightarrow> if create then (Inr (), put_file name (Regular []) w) else (Inl NotFound, w)
     | Some _ \<Rightarrow> (Inr (), w))"

definition check_regular :: "string \<Rightarrow> world \<Rightarrow> unit io" where
  "check_regular name w = io_call w (\<lambda>w.
     if node_of w name = Some NotRegular then (Inl InvalidData, w) else (Inr (), w))"

definition fs_open :: "bool \<Rightarrow> string \<Rightarrow> world \<Rightarrow> unit io" where
  "fs_open create name w = and_then (open_file create name w) (\<lambda>_ w. check_regular name w)"

definition open_read :: "string \<Rightarrow> world \<Rightarrow> unit io" where
  "open_read name w = fs_open False name w"

definition open_rw :: "string \<Rightarrow> world \<Rightarrow> unit io" where
  "open_rw name w = fs_open True name w"

text \<open>\<open>segment_len\<close>: the size from the entry itself, never through a reparse point.\<close>

definition segment_len :: "string \<Rightarrow> world \<Rightarrow> nat io" where
  "segment_len name w = io_call w (\<lambda>w.
     case node_of w name of
       None \<Rightarrow> (Inl NotFound, w)
     | Some NotRegular \<Rightarrow> (Inl InvalidData, w)
     | Some (Regular b) \<Rightarrow> (Inr (length b), w))"

definition prepare_dir :: "world \<Rightarrow> unit io" where
  "prepare_dir w =
     (let created = io_call w (\<lambda>w.
            if dir w = DirMissing then (Inr (), w\<lparr>dir := PlainDir\<rparr>) else (Inl AlreadyExists, w))
      in case created of
           (Inl e, w) \<Rightarrow> if e = AlreadyExists then
               io_call w (\<lambda>w. if dir w = PlainDir then (Inr (), w) else (Inl InvalidData, w))
             else (Inl e, w)
         | (Inr _, w) \<Rightarrow>
               io_call w (\<lambda>w. if dir w = PlainDir then (Inr (), w) else (Inl InvalidData, w)))"

text \<open>The standard library's operations on an open file and on names.\<close>

definition on_file :: "string \<Rightarrow> (bytes \<Rightarrow> bytes) \<Rightarrow> world \<Rightarrow> world" where
  "on_file name f w =
     (case node_of w name of
        Some (Regular b) \<Rightarrow> put_file name (Regular (f b)) w
      | _ \<Rightarrow> w)"

definition set_len :: "string \<Rightarrow> nat \<Rightarrow> world \<Rightarrow> unit io" where
  "set_len name n w = io_call w (\<lambda>w. (Inr (), on_file name (resize n) w))"

definition write_all :: "string \<Rightarrow> nat \<Rightarrow> bytes \<Rightarrow> world \<Rightarrow> unit io" where
  "write_all name pos bs w =
     (case next_fate w of
        (Good, w') \<Rightarrow> (Inr (), on_file name (overwrite pos bs) w')
      | (Fail e k, w') \<Rightarrow> (Inl e, on_file name (overwrite pos (take k bs)) w'))"

definition sync :: "world \<Rightarrow> unit io" where
  "sync w = io_call w (\<lambda>w. (Inr (), w))"

definition seek :: "world \<Rightarrow> unit io" where
  "seek w = io_call w (\<lambda>w. (Inr (), w))"

definition read_to_end :: "string \<Rightarrow> world \<Rightarrow> bytes io" where
  "read_to_end name w = io_call w (\<lambda>w. (Inr (handle_data w name), w))"

text \<open>\<open>read_up_to\<close> a number of bytes from a position.\<close>

definition read_up_to :: "string \<Rightarrow> nat \<Rightarrow> nat \<Rightarrow> world \<Rightarrow> bytes io" where
  "read_up_to name pos n w = io_call w (\<lambda>w. (Inr (take n (drop pos (handle_data w name))), w))"

text \<open>
  Deleting a name; open handles keep what they saw. A call that reports \<open>NotFound\<close> found the
  name gone: if it was there, another process deleted it first.
\<close>

definition unlink :: "string \<Rightarrow> world \<Rightarrow> world" where
  "unlink name w = (case node_of w name of
       None \<Rightarrow> w
     | Some x \<Rightarrow> w\<lparr>files := AList.delete name (files w), unlinked := AList.update name x (unlinked w)\<rparr>)"

definition remove_file :: "string \<Rightarrow> world \<Rightarrow> unit io" where
  "remove_file name w =
     (case next_fate w of
        (Fail e _, w') \<Rightarrow> (Inl e, if e = NotFound then unlink name w' else w')
      | (Good, w') \<Rightarrow> (if node_of w' name = None then (Inl NotFound, w') else (Inr (), unlink name w')))"

definition rename :: "string \<Rightarrow> string \<Rightarrow> world \<Rightarrow> unit io" where
  "rename old new w = io_call w (\<lambda>w.
     case node_of w old of
       None \<Rightarrow> (Inl NotFound, w)
     | Some x \<Rightarrow> (Inr (), w\<lparr>files := AList.update new x (AList.delete old (files w))\<rparr>))"

section \<open>Effects of the operations\<close>

text \<open>Two worlds that differ in the fates to come only.\<close>

definition upto_fates :: "world \<Rightarrow> world \<Rightarrow> bool" where
  "upto_fates w w' \<longleftrightarrow> files w' = files w \<and> unlinked w' = unlinked w \<and> dir w' = dir w"

definition fs_ok :: "world \<Rightarrow> bool" where
  "fs_ok w \<longleftrightarrow> distinct (map fst (files w))"

lemma upto_fates_refl [simp]: "upto_fates w w"
  by (simp add: upto_fates_def)

lemma upto_fates_trans: "upto_fates a b \<Longrightarrow> upto_fates b c \<Longrightarrow> upto_fates a c"
  by (simp add: upto_fates_def)

lemma upto_fates_node: "upto_fates w w' \<Longrightarrow> node_of w' = node_of w"
  by (simp add: upto_fates_def node_of_def fun_eq_iff)

lemma upto_fates_data: "upto_fates w w' \<Longrightarrow> file_data w' = file_data w"
  by (simp add: file_data_def fun_eq_iff upto_fates_node)

lemma upto_fates_handle: "upto_fates w w' \<Longrightarrow> handle_data w' = handle_data w"
  by (rule ext) (simp add: handle_data_def upto_fates_def node_of_def
      cong: option.case_cong node.case_cong)

lemma upto_fates_ok: "upto_fates w w' \<Longrightarrow> fs_ok w' = fs_ok w"
  by (simp add: fs_ok_def upto_fates_def)

lemma next_fate_upto: "next_fate w = (f, w') \<Longrightarrow> upto_fates w w'"
  by (auto simp: next_fate_def upto_fates_def split: list.splits)

text \<open>The one case analysis of a call: it failed and did nothing, or \<open>f\<close> ran.\<close>

lemma io_call_cases:
  assumes "io_call w f = (r, w')"
  obtains (failed) e where "r = Inl e" "upto_fates w w'"
  | (ran) v where "upto_fates w v" "f v = (r, w')"
  using assms next_fate_upto unfolding io_call_def
  by (fastforce split: prod.splits fate.splits)

lemma node_of_put [simp]: "node_of (put_file name x w) = (node_of w)(name \<mapsto> x)"
  by (simp add: node_of_def put_file_def fun_eq_iff update_conv')

lemma fs_ok_put [simp]: "fs_ok w \<Longrightarrow> fs_ok (put_file name x w)"
  by (simp add: fs_ok_def put_file_def distinct_update)

lemma fs_ok_on_file [simp]: "fs_ok w \<Longrightarrow> fs_ok (on_file name f w)"
  by (simp add: on_file_def split: option.splits node.splits)

lemma node_of_on_file:
  "node_of (on_file name f w) =
     (case node_of w name of Some (Regular b) \<Rightarrow> (node_of w)(name \<mapsto> Regular (f b)) | _ \<Rightarrow> node_of w)"
  by (auto simp: on_file_def split: option.splits node.splits)

lemma names_in_dom: "name \<in> set (map fst (files w)) \<longleftrightarrow> node_of w name \<noteq> None"
  by (simp add: node_of_def map_of_eq_None_iff)

lemma set_list_segments:
  "list_segments w = (Inr ss, w') \<Longrightarrow>
     set ss = {s. s \<le> U64_MAX \<and> node_of w (segment_path s) \<noteq> None} \<and> sorted ss \<and> upto_fates w w'
       \<and> (fs_ok w \<longrightarrow> distinct ss)"
  unfolding list_segments_def
  by (erule io_call_cases)
    (auto simp: set_segment_seqs segment_seqs_sorted names_in_dom upto_fates_node fs_ok_def
      upto_fates_ok [unfolded fs_ok_def] segment_seqs_distinct simp del: set_map)

lemma resize_len [simp]: "length (resize n b) = n"
  by (simp add: resize_def)

lemma resize_cut: "n \<le> length b \<Longrightarrow> resize n b = take n b"
  by (simp add: resize_def)

lemma resize_append: "resize (length a) (a @ b) = a"
  by (simp add: resize_def)

lemma overwrite_end [simp]: "overwrite (length b) bs b = b @ bs"
  by (simp add: overwrite_def resize_def)

lemma sync_upto: "sync w = (r, w') \<Longrightarrow> upto_fates w w'"
  unfolding sync_def by (erule io_call_cases) auto

lemma seek_upto: "seek w = (r, w') \<Longrightarrow> upto_fates w w'"
  unfolding seek_def by (erule io_call_cases) auto

lemma list_segments_upto: "list_segments w = (r, w') \<Longrightarrow> upto_fates w w'"
  unfolding list_segments_def by (erule io_call_cases) auto

lemma check_regular_upto:
  "check_regular name w = (r, w') \<Longrightarrow> upto_fates w w' \<and> (r = Inr () \<longrightarrow> node_of w name \<noteq> Some NotRegular)"
  unfolding check_regular_def
  by (erule io_call_cases) (auto simp: upto_fates_node split: if_splits)

lemma open_file_effect:
  "open_file create name w = (r, w') \<Longrightarrow>
     (upto_fates w w' \<and> (r = Inr () \<longrightarrow> node_of w name \<noteq> None) \<or>
      create \<and> r = Inr () \<and> node_of w name = None \<and>
        (\<exists>v. upto_fates w v \<and> w' = put_file name (Regular []) v))"
  unfolding open_file_def
  by (erule io_call_cases) (auto simp: upto_fates_node split: option.splits if_splits)

lemma regular_nodeI:
  "node_of w name \<noteq> None \<Longrightarrow> node_of w name \<noteq> Some NotRegular \<Longrightarrow> \<exists>b. node_of w name = Some (Regular b)"
  by (metis node.exhaust not_Some_eq)

lemma open_read_upto:
  assumes "open_read name w = (r, w')"
  shows "upto_fates w w' \<and> (r = Inr () \<longrightarrow> (\<exists>b. node_of w name = Some (Regular b)))"
  using assms [unfolded open_read_def fs_open_def]
proof (cases rule: and_then_cases)
  case (stop e)
  then show ?thesis using open_file_effect by fastforce
next
  case (continue x w1)
  from open_file_effect [OF continue(1)] have u: "upto_fates w w1" "node_of w name \<noteq> None" by auto
  then have n: "node_of w1 = node_of w" by (simp add: upto_fates_node)
  from check_regular_upto [OF continue(2)] have
    c: "upto_fates w1 w'" "r = Inr () \<Longrightarrow> node_of w1 name \<noteq> Some NotRegular" by auto
  have "\<exists>b. node_of w name = Some (Regular b)" if "r = Inr ()"
    using c(2) [OF that] u(2) unfolding n by (rule regular_nodeI [rotated])
  then show ?thesis using upto_fates_trans [OF u(1) c(1)] by blast
qed

lemma segment_len_upto:
  "segment_len name w = (r, w') \<Longrightarrow>
     upto_fates w w' \<and> (\<forall>n. r = Inr n \<longrightarrow> (\<exists>b. node_of w name = Some (Regular b) \<and> n = length b))"
  unfolding segment_len_def
  by (erule io_call_cases) (auto simp: upto_fates_node split: option.splits node.splits)

lemma read_to_end_upto:
  "read_to_end name w = (r, w') \<Longrightarrow> upto_fates w w' \<and> (\<forall>b. r = Inr b \<longrightarrow> b = handle_data w name)"
  unfolding read_to_end_def by (erule io_call_cases) (auto simp: upto_fates_handle)

lemma read_up_to_upto:
  "read_up_to name pos n w = (r, w') \<Longrightarrow>
     upto_fates w w' \<and> (\<forall>b. r = Inr b \<longrightarrow> b = take n (drop pos (handle_data w name)))"
  unfolding read_up_to_def by (erule io_call_cases) (auto simp: upto_fates_handle)

lemma open_rw_effect:
  assumes "open_rw name w = (r, w')"
  obtains v where "upto_fates v w'" "v = w \<or> node_of w name = None \<and> v = put_file name (Regular []) w"
    "r = Inr () \<longrightarrow> (\<exists>b. node_of v name = Some (Regular b))"
proof -
  obtain r1 w1 where o: "open_file True name w = (r1, w1)" by fastforce
  note o' = open_file_effect [OF o]
  have put: "upto_fates (put_file name x w) (put_file name x v)" if "upto_fates w v" for x v
    using that by (simp add: upto_fates_def put_file_def)
  show thesis
  proof (cases r1)
    case (Inl e)
    then have "w' = w1" "r = Inl e" using assms o by (auto simp: open_rw_def fs_open_def)
    then show thesis using that [of w] o' Inl by auto
  next
    case (Inr u)
    then have c: "check_regular name w1 = (r, w')"
      using assms o by (simp add: open_rw_def fs_open_def)
    note c' = check_regular_upto [OF c]
    show thesis
    proof (cases "upto_fates w w1 \<and> node_of w name \<noteq> None")
      case True
      then have u: "upto_fates w w1" "node_of w name \<noteq> None" by auto
      then have n: "node_of w1 = node_of w" by (simp add: upto_fates_node)
      have "r = Inr () \<longrightarrow> (\<exists>b. node_of w name = Some (Regular b))"
        using c' u(2) regular_nodeI [of w name] by (simp add: n)
      then show thesis using that [of w] upto_fates_trans [OF u(1)] c' by blast
    next
      case False
      with o' Inr obtain v where "upto_fates w v" "w1 = put_file name (Regular []) v" "node_of w name = None"
        by auto
      then show thesis
        using that [of "put_file name (Regular []) w"] c' put [of v "Regular []"] upto_fates_trans by auto
    qed
  qed
qed

lemma put_upto: "upto_fates w v \<Longrightarrow> upto_fates (put_file name x w) (put_file name x v)"
  by (simp add: upto_fates_def put_file_def)

lemma on_file_upto: "upto_fates w v \<Longrightarrow> upto_fates (on_file name f w) (on_file name f v)"
  unfolding on_file_def upto_fates_node
  by (simp add: upto_fates_node put_upto split: option.splits node.splits)

lemma set_len_effect:
  "set_len name n w = (r, w') \<Longrightarrow>
     (\<exists>e. r = Inl e) \<and> upto_fates w w' \<or> r = Inr () \<and> upto_fates (on_file name (resize n) w) w'"
  unfolding set_len_def
  by (erule io_call_cases) (auto intro: on_file_upto)

lemma write_all_effect:
  "write_all name pos bs w = (r, w') \<Longrightarrow>
     (\<exists>e k. r = Inl e \<and> upto_fates (on_file name (overwrite pos (take k bs)) w) w') \<or>
     r = Inr () \<and> upto_fates (on_file name (overwrite pos bs) w) w'"
  unfolding write_all_def
  by (auto split: prod.splits fate.splits intro!: on_file_upto dest: next_fate_upto)

lemma node_of_unlink [simp]: "node_of (unlink name w) = (node_of w)(name := None)"
  by (auto simp: unlink_def node_of_def fun_eq_iff delete_conv' split: option.splits)

lemma fs_ok_unlink [simp]: "fs_ok w \<Longrightarrow> fs_ok (unlink name w)"
  by (simp add: unlink_def fs_ok_def distinct_delete split: option.splits)

lemma unlink_upto: "upto_fates w v \<Longrightarrow> upto_fates (unlink name w) (unlink name v)"
  by (simp add: unlink_def upto_fates_node split: option.splits) (simp add: upto_fates_def)

lemma unlink_absent: "node_of w name = None \<Longrightarrow> unlink name w = w"
  by (simp add: unlink_def)

lemma remove_file_effect:
  assumes "remove_file name w = (r, w')"
  shows "(\<exists>e. r = Inl e \<and> e \<noteq> NotFound) \<and> upto_fates w w' \<or>
    (r = Inr () \<or> r = Inl NotFound) \<and> upto_fates (unlink name w) w'"
proof (cases "next_fate w")
  case (Pair f v)
  note u = next_fate_upto [OF Pair]
  then have n: "node_of v name = node_of w name" by (simp add: upto_fates_node)
  show ?thesis
    using assms Pair u unlink_upto [OF u] unlink_absent [of w name] n
    by (auto simp: remove_file_def split: fate.splits if_splits)
qed

lemma rename_effect:
  "rename old new w = (r, w') \<Longrightarrow>
     (\<exists>e. r = Inl e) \<and> upto_fates w w' \<or>
     (\<exists>x. r = Inr () \<and> node_of w old = Some x \<and>
        node_of w' = ((node_of w)(old := None))(new \<mapsto> x) \<and> unlinked w' = unlinked w \<and>
        (fs_ok w \<longrightarrow> fs_ok w'))"
  unfolding rename_def
  by (erule io_call_cases)
    (auto simp: upto_fates_def node_of_def fun_eq_iff delete_conv' update_conv' fs_ok_def
      distinct_delete distinct_update split: option.splits)

text \<open>Without faults every call succeeds and no fate is consumed.\<close>

definition fault_free :: "world \<Rightarrow> bool" where
  "fault_free w \<longleftrightarrow> fates w = []"

lemma io_call_fault_free: "fault_free w \<Longrightarrow> io_call w f = f w"
  by (simp add: io_call_def next_fate_def fault_free_def)

lemma fault_free_updates [simp]:
  "fault_free (put_file name x w) = fault_free w"
  "fault_free (on_file name f w) = fault_free w"
  "fault_free (unlink name w) = fault_free w"
  by (auto simp: fault_free_def put_file_def on_file_def unlink_def split: option.splits node.splits)

lemma write_all_fault_free:
  "fault_free w \<Longrightarrow> write_all name pos bs w = (Inr (), on_file name (overwrite pos bs) w)"
  by (simp add: write_all_def next_fate_def fault_free_def)

end
