(* ===== verification/Buf_Config.thy ===== *)
theory Buf_Config
  imports Buf_Record Buf_Fs
begin

text \<open>
  The buffer's configuration, loss reports and counters (\<open>crates/atlas-buffer/src/lib.rs\<close>).
  Sizes are \<open>u64\<close>/\<open>usize\<close> values held as \<open>nat\<close>; durations are in nanoseconds.
  Facts: the spec's defaults pass validation, a valid configuration has room for four segments
  and one maximum-size record, and a gap's time range is the minimum and maximum of what was
  added to it.
\<close>

datatype overflow = Retention | HeadTail | DropOldest | DropNewest

record config =
  segment_bytes :: nat
  cap_bytes :: nat
  overflow :: overflow
  flush_interval :: nat
  retry_interval :: nat
  backlog_bytes :: nat

definition config_new :: config where
  "config_new = \<lparr>segment_bytes = 16 * 2 ^ 20, cap_bytes = 2 ^ 30, overflow = Retention,
     flush_interval = 1000000000, retry_interval = 10 * 1000000000, backlog_bytes = 32 * 2 ^ 20\<rparr>"

definition validate :: "config \<Rightarrow> io_error + unit" where
  "validate c =
     (if segment_bytes c \<le> SEGMENT_HEADER then Inl InvalidInput
      else if cap_bytes c < sat_mul_u64 (segment_bytes c) 4 then Inl InvalidInput
      else if backlog_bytes c < RECORD_HEADER + MAX_PAYLOAD then Inl InvalidInput
      else Inr ())"

lemma validate_new: "validate config_new = Inr ()"
  by (simp add: validate_def config_new_def SEGMENT_HEADER_def RECORD_HEADER_def MAX_PAYLOAD_def
      sat_mul_u64_def)

lemma validate_ok:
  "validate c = Inr () \<longleftrightarrow> 8 < segment_bytes c \<and> min U64_MAX (segment_bytes c * 4) \<le> cap_bytes c
     \<and> 8 + MAX_PAYLOAD \<le> backlog_bytes c"
  by (auto simp: validate_def SEGMENT_HEADER_def RECORD_HEADER_def sat_mul_u64_def not_le not_less)

section \<open>Gaps\<close>

record gap =
  gap_records :: nat
  first_time :: "int option"
  last_time :: "int option"

definition gap_empty :: gap where
  "gap_empty = \<lparr>gap_records = 0, first_time = None, last_time = None\<rparr>"

definition gap_add :: "int option \<Rightarrow> gap \<Rightarrow> gap" where
  "gap_add time g =
     (let g = g\<lparr>gap_records := gap_records g + 1\<rparr>
      in case time of
           None \<Rightarrow> g
         | Some t \<Rightarrow> g\<lparr>first_time := Some (case first_time g of None \<Rightarrow> t | Some f \<Rightarrow> min f t),
                       last_time := Some (case last_time g of None \<Rightarrow> t | Some l \<Rightarrow> max l t)\<rparr>)"

lemma gap_records_add [simp]: "gap_records (gap_add t g) = Suc (gap_records g)"
  by (simp add: gap_add_def Let_def split: option.splits)

lemma gap_records_empty [simp]: "gap_records gap_empty = 0"
  by (simp add: gap_empty_def)

lemma gap_records_fold [simp]: "gap_records (fold gap_add ts g) = gap_records g + length ts"
  by (induction ts arbitrary: g) auto

text \<open>The reported range: the least and greatest of the times that decoded.\<close>

definition known_times :: "int option list \<Rightarrow> int list" where
  "known_times ts = List.map_filter id ts"

lemma known_times_simps [simp]:
  "known_times [] = []"
  "known_times (None # ts) = known_times ts"
  "known_times (Some t # ts) = t # known_times ts"
  by (simp_all add: known_times_def map_filter_simps)

lemma gap_fold_times:
  "first_time g = Some f \<Longrightarrow> last_time g = Some l \<Longrightarrow>
     first_time (fold gap_add ts g) = Some (Min (set (f # known_times ts))) \<and>
     last_time (fold gap_add ts g) = Some (Max (set (l # known_times ts)))"
proof (induction ts arbitrary: g f l)
  case Nil
  then show ?case by simp
next
  case (Cons t ts)
  show ?case
  proof (cases t)
    case None
    with Cons show ?thesis by (simp add: gap_add_def)
  next
    case (Some x)
    have "first_time (gap_add t g) = Some (min f x)" "last_time (gap_add t g) = Some (max l x)"
      using Some Cons.prems by (simp_all add: gap_add_def)
    from Cons.IH [OF this] show ?thesis
      using Some by (cases "known_times ts = []") (simp_all add: min.assoc max.assoc)
  qed
qed

lemma gap_range:
  "first_time (fold gap_add ts gap_empty) =
     (if known_times ts = [] then None else Some (Min (set (known_times ts)))) \<and>
   last_time (fold gap_add ts gap_empty) =
     (if known_times ts = [] then None else Some (Max (set (known_times ts))))"
proof -
  have "first_time (fold gap_add ts g) =
     (if known_times ts = [] then None else Some (Min (set (known_times ts)))) \<and>
     last_time (fold gap_add ts g) =
     (if known_times ts = [] then None else Some (Max (set (known_times ts))))"
    if "first_time g = None" "last_time g = None" for g
    using that
  proof (induction ts arbitrary: g)
    case Nil
    then show ?case by simp
  next
    case (Cons t ts)
    show ?case
    proof (cases t)
      case None
      with Cons show ?thesis by (simp add: gap_add_def)
    next
      case (Some x)
      with Cons.prems have "first_time (gap_add t g) = Some x" "last_time (gap_add t g) = Some x"
        by (simp_all add: gap_add_def)
      from gap_fold_times [OF this, of ts] show ?thesis using Some by simp
    qed
  qed
  then show ?thesis by (simp add: gap_empty_def)
qed

section \<open>Counters\<close>

record stats =
  records_written :: nat
  bytes_written :: nat
  retention_evictions :: nat
  overflow_evictions :: nat
  overflow_drops :: nat
  delete_failures :: nat
  backlog_drops :: nat
  rejected :: nat
  write_errors :: nat
  recoveries :: nat

definition stats_default :: stats where
  "stats_default = \<lparr>records_written = 0, bytes_written = 0, retention_evictions = 0,
     overflow_evictions = 0, overflow_drops = 0, delete_failures = 0, backlog_drops = 0,
     rejected = 0, write_errors = 0, recoveries = 0\<rparr>"

end
