(* ===== verification/Buf_Cursor.thy ===== *)
theory Buf_Cursor
  imports Buf_Record Buf_Fs "HOL-Library.Product_Lexorder"
begin

text \<open>
  The acknowledgement cursor (\<open>crates/atlas-buffer/src/cursor.rs\<close>): a position in the log,
  ordered by segment and then offset, stored as 20 bytes with a checksum and replaced through a
  temporary file. Facts: the file format round-trips and refuses every other length; \<open>store\<close>
  leaves the cursor file either as it was or complete, wherever it fails; a successful store
  is what the next load returns; and no segment is touched.
\<close>

section \<open>Positions\<close>

datatype cursor = Cursor (segment: nat) (offset: nat)

definition cursor_default :: cursor where
  "cursor_default = Cursor 0 0"

text \<open>The derived \<open>Ord\<close>: fields in declaration order.\<close>

instantiation cursor :: linorder
begin

definition less_eq_cursor :: "cursor \<Rightarrow> cursor \<Rightarrow> bool" where
  "less_eq_cursor a b \<longleftrightarrow> segment a < segment b \<or> segment a = segment b \<and> offset a \<le> offset b"

definition less_cursor :: "cursor \<Rightarrow> cursor \<Rightarrow> bool" where
  "less_cursor a b \<longleftrightarrow> segment a < segment b \<or> segment a = segment b \<and> offset a < offset b"

instance
  by standard (auto simp: less_eq_cursor_def less_cursor_def cursor.expand)

end

definition cursor_ok :: "cursor \<Rightarrow> bool" where
  "cursor_ok c \<longleftrightarrow> segment c \<le> U64_MAX \<and> offset c \<le> U64_MAX"

lemma cursor_default_least: "cursor_default \<le> c"
  by (cases c) (auto simp: cursor_default_def less_eq_cursor_def)

section \<open>The file format\<close>

definition CURSOR_FILE :: string where "CURSOR_FILE = ''cursor''"
definition CURSOR_TMP :: string where "CURSOR_TMP = ''cursor.tmp''"
definition CURSOR_LEN :: nat where "CURSOR_LEN = 20"

definition cursor_encode :: "(bytes \<Rightarrow> u32) \<Rightarrow> cursor \<Rightarrow> bytes" where
  "cursor_encode crc c =
     (let body = le_bytes 8 (segment c) @ le_bytes 8 (offset c)
      in body @ le_bytes 4 (unat (crc body)))"

definition cursor_decode :: "(bytes \<Rightarrow> u32) \<Rightarrow> bytes \<Rightarrow> cursor option" where
  "cursor_decode crc bs =
     (if length bs \<noteq> CURSOR_LEN then None
      else let crc0 = from_le (drop 16 bs)
           in if unat (crc (take 16 bs)) \<noteq> crc0 then None
              else Some (Cursor (from_le (take 8 bs)) (from_le (slice_of bs 8 16))))"

lemma length_cursor_encode [simp]: "length (cursor_encode crc c) = 20"
  by (simp add: cursor_encode_def Let_def)

lemma cursor_decode_encode:
  assumes "cursor_ok c"
  shows "cursor_decode crc (cursor_encode crc c) = Some c"
proof -
  have "from_le (le_bytes 8 (segment c)) = segment c" "from_le (le_bytes 8 (offset c)) = offset c"
    using assms by (auto simp: cursor_ok_def intro!: from_le_bytes)
  then show ?thesis
    by (simp add: cursor_decode_def cursor_encode_def CURSOR_LEN_def Let_def slice_of_def
        from_le_crc_field)
qed

lemma cursor_decode_sound:
  assumes "cursor_decode crc bs = Some c"
  shows "bs = cursor_encode crc c \<and> cursor_ok c"
proof -
  from assms have len: "length bs = 20" and crcq: "unat (crc (take 16 bs)) = from_le (drop 16 bs)"
    and c: "c = Cursor (from_le (take 8 bs)) (from_le (slice_of bs 8 16))"
    by (auto simp: cursor_decode_def CURSOR_LEN_def Let_def split: if_splits)
  have t: "take 16 bs = take 8 bs @ slice_of bs 8 16"
    using take_add [of 8 8 bs] by (simp add: slice_of_def)
  have "le_bytes 8 (segment c) = take 8 bs"
    using le_bytes_from_le [of "take 8 bs"] len by (simp add: c)
  moreover have "le_bytes 8 (offset c) = slice_of bs 8 16"
    using le_bytes_from_le [of "slice_of bs 8 16"] len by (simp add: c length_slice)
  moreover have "le_bytes 4 (unat (crc (take 16 bs))) = drop 16 bs"
    using le_bytes_from_le [of "drop 16 bs"] len by (simp add: crcq)
  ultimately have "bs = cursor_encode crc c"
    by (simp add: cursor_encode_def Let_def flip: t)
  moreover have "cursor_ok c"
    using from_le_bound [of "take 8 bs"] from_le_bound [of "slice_of bs 8 16"] len
    by (simp add: cursor_ok_def c length_slice)
  ultimately show ?thesis by blast
qed

section \<open>Loading and storing\<close>

datatype loaded = Missing | Valid cursor | Corrupt

definition cursor_load :: "(bytes \<Rightarrow> u32) \<Rightarrow> world \<Rightarrow> loaded io" where
  "cursor_load crc w =
     (case open_read CURSOR_FILE w of
        (Inl e, w) \<Rightarrow> if e = NotFound then (Inr Missing, w) else (Inl e, w)
      | (Inr _, w) \<Rightarrow>
          and_then (read_up_to CURSOR_FILE 0 (CURSOR_LEN + 1) w) (\<lambda>bs w.
            (Inr (case cursor_decode crc bs of None \<Rightarrow> Corrupt | Some c \<Rightarrow> Valid c), w)))"

definition open_truncate :: "string \<Rightarrow> world \<Rightarrow> unit io" where
  "open_truncate name w =
     and_then
       (io_call w (\<lambda>w. (Inr (), if node_of w name = Some NotRegular then w
                                 else put_file name (Regular []) w)))
       (\<lambda>_ w. check_regular name w)"

definition cursor_store :: "(bytes \<Rightarrow> u32) \<Rightarrow> cursor \<Rightarrow> world \<Rightarrow> unit io" where
  "cursor_store crc c w =
     and_then (open_truncate CURSOR_TMP w) (\<lambda>_ w.
     and_then (write_all CURSOR_TMP 0 (cursor_encode crc c) w) (\<lambda>_ w.
     and_then (sync w) (\<lambda>_ w.
       rename CURSOR_TMP CURSOR_FILE w)))"

lemma length_segment_path: "length (segment_path n) \<ge> 24"
  by (simp add: segment_path_def)

lemma segment_not_cursor [simp]:
  "segment_path n \<noteq> CURSOR_FILE" "CURSOR_FILE \<noteq> segment_path n"
  "segment_path n \<noteq> CURSOR_TMP" "CURSOR_TMP \<noteq> segment_path n"
proof -
  have "length (segment_path n) \<noteq> length CURSOR_FILE" "length (segment_path n) \<noteq> length CURSOR_TMP"
    using length_segment_path [of n] by (simp_all add: CURSOR_FILE_def CURSOR_TMP_def)
  then show "segment_path n \<noteq> CURSOR_FILE" "CURSOR_FILE \<noteq> segment_path n"
    "segment_path n \<noteq> CURSOR_TMP" "CURSOR_TMP \<noteq> segment_path n" by metis+
qed

lemma cursor_names [simp]: "CURSOR_FILE \<noteq> CURSOR_TMP" "CURSOR_TMP \<noteq> CURSOR_FILE"
  by (simp_all add: CURSOR_FILE_def CURSOR_TMP_def)

text \<open>Everything but the temporary file is as it was.\<close>

definition frame_tmp :: "world \<Rightarrow> world \<Rightarrow> bool" where
  "frame_tmp w w' \<longleftrightarrow> (\<forall>n. n \<noteq> CURSOR_TMP \<longrightarrow> node_of w' n = node_of w n) \<and> unlinked w' = unlinked w
     \<and> (fs_ok w \<longrightarrow> fs_ok w')"

lemma frame_tmp_upto: "upto_fates w w' \<Longrightarrow> frame_tmp w w'"
  by (auto simp: frame_tmp_def upto_fates_node upto_fates_ok) (simp add: upto_fates_def)

lemma frame_tmp_trans: "frame_tmp a b \<Longrightarrow> frame_tmp b c \<Longrightarrow> frame_tmp a c"
  by (simp add: frame_tmp_def)

lemma frame_tmp_put: "frame_tmp w (put_file CURSOR_TMP x w)"
  by (auto simp: frame_tmp_def) (simp add: put_file_def)

lemma frame_tmp_on_file: "frame_tmp w (on_file CURSOR_TMP f w)"
  by (auto simp: on_file_def frame_tmp_put frame_tmp_upto split: option.splits node.splits)

lemma truncate_call_effect:
  assumes "io_call w (\<lambda>w. (Inr () :: io_error + unit,
      if node_of w CURSOR_TMP = Some NotRegular then w else put_file CURSOR_TMP (Regular []) w)) = (r, w')"
  shows "frame_tmp w w' \<and>
    (r = Inr () \<longrightarrow> node_of w' CURSOR_TMP = Some NotRegular \<or> node_of w' CURSOR_TMP = Some (Regular []))"
  using assms
proof (cases rule: io_call_cases)
  case (failed e)
  then show ?thesis by (auto simp: frame_tmp_upto)
next
  case (ran v)
  then show ?thesis
    using frame_tmp_upto [OF ran(1)] frame_tmp_put [of v] frame_tmp_trans
    by (auto split: if_splits)
qed

lemma open_truncate_effect:
  assumes "open_truncate CURSOR_TMP w = (r, w')"
  shows "frame_tmp w w' \<and> (r = Inr () \<longrightarrow> node_of w' CURSOR_TMP = Some (Regular []))"
  using assms [unfolded open_truncate_def]
proof (cases rule: and_then_cases)
  case (stop e)
  then show ?thesis using truncate_call_effect [OF stop(1)] by simp
next
  case (continue x w1)
  from check_regular_upto [OF continue(2)] truncate_call_effect [OF continue(1)] show ?thesis
    by (auto simp: upto_fates_node intro: frame_tmp_trans frame_tmp_upto)
qed

lemma overwrite_empty [simp]: "overwrite 0 bs [] = bs"
  by (simp add: overwrite_def resize_def)

text \<open>
  The steps of a store, wherever it stops: only the temporary file has changed, or the rename
  happened and the cursor file is the complete new one.
\<close>

lemma cursor_store_effect:
  assumes "cursor_store crc c w = (r, w')"
  shows "(\<exists>e. r = Inl e) \<and> frame_tmp w w' \<or>
     r = Inr () \<and> node_of w' CURSOR_FILE = Some (Regular (cursor_encode crc c)) \<and>
       (\<forall>n. n \<noteq> CURSOR_FILE \<longrightarrow> n \<noteq> CURSOR_TMP \<longrightarrow> node_of w' n = node_of w n) \<and>
       unlinked w' = unlinked w \<and> (fs_ok w \<longrightarrow> fs_ok w')"
  using assms [unfolded cursor_store_def]
proof (cases rule: and_then_cases)
  case (stop e)
  then show ?thesis using open_truncate_effect by blast
next
  case o: (continue x w1)
  note o' = open_truncate_effect [OF o(1)]
  from o(2) show ?thesis
  proof (cases rule: and_then_cases)
    case (stop e)
    from write_all_effect [OF stop(1)] obtain f where
      u: "upto_fates (on_file CURSOR_TMP f w1) w'" by auto
    have "frame_tmp w w'"
      using o' frame_tmp_on_file frame_tmp_upto [OF u] frame_tmp_trans by blast
    then show ?thesis using stop(2) by blast
  next
    case wr: (continue y w2)
    note wr' = write_all_effect [OF wr(1)]
    then have u2: "upto_fates (on_file CURSOR_TMP (overwrite 0 (cursor_encode crc c)) w1) w2" by auto
    have f2: "frame_tmp w w2"
      using o' frame_tmp_on_file frame_tmp_upto [OF u2] frame_tmp_trans by blast
    have n2: "node_of w2 CURSOR_TMP = Some (Regular (cursor_encode crc c))"
      using o' by (simp add: upto_fates_node [OF u2] node_of_on_file)
    from wr(2) show ?thesis
    proof (cases rule: and_then_cases)
      case (stop e)
      then show ?thesis using f2 sync_upto frame_tmp_trans frame_tmp_upto by blast
    next
      case sy: (continue z w3)
      note u3 = sync_upto [OF sy(1)]
      have f3: "frame_tmp w w3" using f2 u3 frame_tmp_trans frame_tmp_upto by blast
      from rename_effect [OF sy(2)] show ?thesis
      proof
        assume "(\<exists>e. r = Inl e) \<and> upto_fates w3 w'"
        then show ?thesis using f3 frame_tmp_trans frame_tmp_upto by blast
      next
        assume "\<exists>x. r = Inr () \<and> node_of w3 CURSOR_TMP = Some x \<and>
          node_of w' = ((node_of w3)(CURSOR_TMP := None))(CURSOR_FILE \<mapsto> x) \<and>
          unlinked w' = unlinked w3 \<and> (fs_ok w3 \<longrightarrow> fs_ok w')"
        then show ?thesis using f3 n2 upto_fates_node [OF u3] by (auto simp: frame_tmp_def)
      qed
    qed
  qed
qed

lemma cursor_load_upto:
  assumes "cursor_load crc w = (r, w')"
  shows "upto_fates w w'"
proof (cases "open_read CURSOR_FILE w")
  case (Pair r1 w1)
  note o = open_read_upto [OF Pair]
  show ?thesis
  proof (cases r1)
    case (Inl e)
    then show ?thesis using assms Pair o by (auto simp: cursor_load_def split: if_splits)
  next
    case (Inr u)
    then have "and_then (read_up_to CURSOR_FILE 0 (CURSOR_LEN + 1) w1) (\<lambda>bs w.
        (Inr (case cursor_decode crc bs of None \<Rightarrow> Corrupt | Some c \<Rightarrow> Valid c), w)) = (r, w')"
      using assms Pair by (simp add: cursor_load_def)
    then show ?thesis
      using o read_up_to_upto upto_fates_trans by (cases rule: and_then_cases) (blast, fastforce)
  qed
qed

text \<open>What a load without faults returns, by what the file holds.\<close>

lemma cursor_load_result:
  assumes "fault_free w"
  shows "cursor_load crc w =
     (case node_of w CURSOR_FILE of
        None \<Rightarrow> (Inr Missing, w)
      | Some NotRegular \<Rightarrow> (Inl InvalidData, w)
      | Some (Regular b) \<Rightarrow>
          (Inr (case cursor_decode crc b of None \<Rightarrow> Corrupt | Some c \<Rightarrow> Valid c), w))"
proof -
  have "cursor_decode crc (take 21 b) = cursor_decode crc b" for b
    by (auto simp: cursor_decode_def CURSOR_LEN_def min_def)
  then show ?thesis
    using assms
    by (auto simp: cursor_load_def open_read_def fs_open_def open_file_def check_regular_def
        read_up_to_def io_call_fault_free handle_data_def CURSOR_LEN_def split: option.splits node.splits)
qed

end
