(* ===== verification/Buf_Writer.thy ===== *)
theory Buf_Writer
  imports Buf_Config Buf_Cursor "HOL-Library.Sublist"
begin

text \<open>
  The single writer (\<open>crates/atlas-buffer/src/writer.rs\<close>). The writer's fields are a record; its
  methods act on the pair of the writer and the file system's world and return what they did
  together with the result, failures included. \<open>active_file\<close> (\<open>file\<close> in the source) is the open handle: the segment it
  belongs to and its position. An \<open>expect\<close> or an index that would panic is the error \<open>Panic\<close>.
\<close>

section \<open>State\<close>

datatype segment = Segment (seq: nat) (len: nat)

datatype dropped = Rejected | BacklogFull

datatype room = Made | Full

datatype wr_error = Io io_error | Panic

record recovery =
  truncated_bytes :: nat
  cursor_reset :: bool
  foreign_segment :: "nat option"

record writer =
  cfg :: config
  segments :: "segment list"
  active_file :: "(nat \<times> nat) option"
  unsynced :: bool
  pending :: bytes
  acked :: "cursor option"
  last_flush :: "nat option"
  retry_at :: "nat option"
  stats :: stats
  gaps :: "gap list"
  drop_gap :: "gap option"

type_synonym wstate = "writer \<times> world"
type_synonym 'a wres = "(wr_error + 'a) \<times> wstate"

text \<open>An I/O call inside a method.\<close>

definition lift_io :: "(world \<Rightarrow> 'a io) \<Rightarrow> wstate \<Rightarrow> 'a wres" where
  "lift_io f st = (case st of (wr, w) \<Rightarrow>
     (case f w of (Inl e, w') \<Rightarrow> (Inl (Io e), (wr, w')) | (Inr x, w') \<Rightarrow> (Inr x, (wr, w'))))"

definition set_active_len :: "nat \<Rightarrow> writer \<Rightarrow> writer" where
  "set_active_len n wr =
     wr\<lparr>segments := butlast (segments wr) @ [Segment (seq (last (segments wr))) n]\<rparr>"

definition disk_bytes :: "writer \<Rightarrow> nat" where
  "disk_bytes wr = sum_list (map len (segments wr))"

text \<open>The sequence number after \<open>n\<close>, refused at the end of the range.\<close>

definition next_seq :: "nat \<Rightarrow> io_error + nat" where
  "next_seq n = (case checked_succ n of None \<Rightarrow> Inl InvalidData | Some m \<Rightarrow> Inr m)"

text \<open>Length of the framed record at a position; \<open>None\<close> where the slice would panic.\<close>

definition record_len :: "bytes \<Rightarrow> nat \<Rightarrow> nat option" where
  "record_len pend pos =
     (case slice_get pend pos (pos + 4) of
        None \<Rightarrow> None
      | Some b \<Rightarrow> Some (RECORD_HEADER + from_le b))"

definition remove_segment :: "nat \<Rightarrow> world \<Rightarrow> unit io" where
  "remove_segment n w =
     (case remove_file (segment_path n) w of
        (Inl e, w') \<Rightarrow> if e \<noteq> NotFound then (Inl e, w') else (Inr (), w')
      | (Inr _, w') \<Rightarrow> (Inr (), w'))"

section \<open>Queueing\<close>

definition append_record :: "(bytes \<Rightarrow> u32) \<Rightarrow> bytes \<Rightarrow> writer \<Rightarrow> (dropped + unit) \<times> writer" where
  "append_record crc payload wr =
     (if payload = [] \<or> length payload > MAX_PAYLOAD
      then (Inl Rejected, wr\<lparr>stats := (stats wr)\<lparr>rejected := rejected (stats wr) + 1\<rparr>\<rparr>)
      else if length (pending wr) + RECORD_HEADER + length payload > backlog_bytes (cfg wr)
      then (Inl BacklogFull,
            wr\<lparr>stats := (stats wr)\<lparr>backlog_drops := backlog_drops (stats wr) + 1\<rparr>\<rparr>)
      else (Inr (), wr\<lparr>pending := record_encode crc payload (pending wr)\<rparr>))"

section \<open>Making room\<close>

text \<open>\<open>victim\<close>'s \<open>HeadTail\<close> loop: the segments pinned at the head.\<close>

function pin :: "segment list \<Rightarrow> nat \<Rightarrow> nat \<Rightarrow> nat \<Rightarrow> nat \<Rightarrow> nat" where
  "pin segs sealed target pinned bytes =
     (if pinned < sealed \<and> bytes < target
      then pin segs sealed target (pinned + 1) (bytes + len (segs ! pinned))
      else pinned)"
  by pat_completeness auto
termination
  by (relation "measure (\<lambda>(segs, sealed, target, pinned, bytes). sealed - pinned)") auto

declare pin.simps [simp del]

definition victim_first :: "writer \<Rightarrow> nat option" where
  "victim_first wr =
     (let sealed = length (segments wr) - 1
      in case overflow (cfg wr) of
           Retention \<Rightarrow> Some 0
         | DropOldest \<Rightarrow> Some 0
         | DropNewest \<Rightarrow> None
         | HeadTail \<Rightarrow> Some (pin (segments wr) sealed (disk_bytes wr div 4) 0 0))"

definition victim :: "writer \<Rightarrow> nat list \<Rightarrow> nat option" where
  "victim wr skip =
     (case victim_first wr of
        None \<Rightarrow> None
      | Some first \<Rightarrow>
          find (\<lambda>i. seq (segments wr ! i) \<notin> set skip) [first ..< length (segments wr) - 1])"

text \<open>What a segment about to be deleted holds; unreadable counts as nothing.\<close>

definition segment_gap ::
  "(bytes \<Rightarrow> u32) \<Rightarrow> (bytes \<Rightarrow> int option) \<Rightarrow> nat \<Rightarrow> world \<Rightarrow> gap \<times> world" where
  "segment_gap crc rt n w =
     (case and_then (open_read (segment_path n) w) (\<lambda>_ w. read_to_end (segment_path n) w) of
        (Inl _, w') \<Rightarrow> (gap_empty, w')
      | (Inr data, w') \<Rightarrow>
          (if take SEGMENT_HEADER data = SEGMENT_MAGIC
           then fold (\<lambda>(s, e) g. gap_add (rt (slice_of data s e)) g)
                  (records (scan crc data SEGMENT_HEADER)) gap_empty
           else gap_empty, w'))"

definition remove_nth :: "nat \<Rightarrow> 'a list \<Rightarrow> 'a list" where
  "remove_nth i xs = take i xs @ drop (Suc i) xs"

definition count_eviction :: "gap option \<Rightarrow> writer \<Rightarrow> writer" where
  "count_eviction g wr =
     (case g of
        None \<Rightarrow> wr\<lparr>stats := (stats wr)\<lparr>retention_evictions := retention_evictions (stats wr) + 1\<rparr>\<rparr>
      | Some gp \<Rightarrow>
          wr\<lparr>stats := (stats wr)\<lparr>overflow_evictions := overflow_evictions (stats wr) + 1\<rparr>,
             gaps := (if gap_records gp > 0 then gaps wr @ [gp] else gaps wr)\<rparr>)"

lemma count_eviction_frame [simp]:
  "segments (count_eviction g wr) = segments wr" "cfg (count_eviction g wr) = cfg wr"
  "pending (count_eviction g wr) = pending wr" "active_file (count_eviction g wr) = active_file wr"
  "unsynced (count_eviction g wr) = unsynced wr" "acked (count_eviction g wr) = acked wr"
  "drop_gap (count_eviction g wr) = drop_gap wr" "retry_at (count_eviction g wr) = retry_at wr"
  "last_flush (count_eviction g wr) = last_flush wr"
  by (simp_all add: count_eviction_def split: option.splits)

lemma victim_Some:
  assumes "victim wr skip = Some i"
  shows "i < length (segments wr) - 1 \<and> seq (segments wr ! i) \<notin> set skip"
  using assms
  by (auto simp: victim_def find_Some_iff nth_append split: option.splits)

text \<open>The segments not yet found undeletable; each turn of the loop lowers their number.\<close>

definition deletable :: "segment list \<Rightarrow> nat list \<Rightarrow> segment list" where
  "deletable segs skip = filter (\<lambda>s. seq s \<notin> set skip) segs"

lemma deletable_remove_nth:
  assumes "i < length segs" "seq (segs ! i) \<notin> set skip"
  shows "length (deletable (remove_nth i segs) skip) < length (deletable segs skip)"
proof -
  have "segs = take i segs @ segs ! i # drop (Suc i) segs"
    using assms(1) by (rule id_take_nth_drop)
  then have "deletable segs skip =
      deletable (take i segs) skip @ segs ! i # deletable (drop (Suc i) segs) skip"
    using assms(2) by (metis (no_types, lifting) deletable_def filter.simps(2) filter_append)
  then show ?thesis by (simp add: remove_nth_def deletable_def)
qed

lemma deletable_skip:
  assumes "i < length segs" "seq (segs ! i) \<notin> set skip"
  shows "length (deletable segs (skip @ [seq (segs ! i)])) < length (deletable segs skip)"
proof -
  have "deletable segs (skip @ [seq (segs ! i)]) =
      filter (\<lambda>s. seq s \<noteq> seq (segs ! i)) (deletable segs skip)"
    by (auto simp: deletable_def intro: filter_cong)
  moreover have "segs ! i \<in> set (deletable segs skip)"
    using assms by (simp add: deletable_def)
  ultimately show ?thesis by (metis (mono_tags, lifting) length_filter_less)
qed

text \<open>Read before deleting, count only once deleted.\<close>

definition eviction_gap ::
  "(bytes \<Rightarrow> u32) \<Rightarrow> (bytes \<Rightarrow> int option) \<Rightarrow> nat \<Rightarrow> wstate \<Rightarrow> gap option \<times> world" where
  "eviction_gap crc rt n st = (case st of (wr, w) \<Rightarrow>
     if overflow (cfg wr) \<noteq> Retention
     then (case segment_gap crc rt n w of (g, w) \<Rightarrow> (Some g, w))
     else (None, w))"

function make_room :: "(bytes \<Rightarrow> u32) \<Rightarrow> (bytes \<Rightarrow> int option) \<Rightarrow> nat list \<Rightarrow> wstate \<Rightarrow> room \<times> wstate" where
  "make_room crc rt undeletable (wr, w) =
     (if disk_bytes wr + segment_bytes (cfg wr) > cap_bytes (cfg wr) then
        (case victim wr undeletable of
           None \<Rightarrow> (if undeletable = [] then Full else Made, (wr, w))
         | Some i \<Rightarrow>
             (case eviction_gap crc rt (seq (segments wr ! i)) (wr, w) of (g, w) \<Rightarrow>
                (case remove_segment (seq (segments wr ! i)) w of
                   (Inl _, w) \<Rightarrow>
                     make_room crc rt (undeletable @ [seq (segments wr ! i)])
                       (wr\<lparr>stats := (stats wr)\<lparr>delete_failures := delete_failures (stats wr) + 1\<rparr>\<rparr>, w)
                 | (Inr _, w) \<Rightarrow>
                     make_room crc rt undeletable
                       (count_eviction g (wr\<lparr>segments := remove_nth i (segments wr)\<rparr>), w))))
      else (Made, (wr, w)))"
  by pat_completeness auto
termination
proof (relation "measure (\<lambda>(crc, rt, skip, (wr, w)). length (deletable (segments wr) skip))",
    goal_cases)
  case 1
  show ?case by simp
next
  case (2 crc rt skip wr w i)
  then show ?case
    using victim_Some [of wr skip i] deletable_skip [of i "segments wr" skip] by auto
next
  case (3 crc rt skip wr w i)
  then show ?case
    using victim_Some [of wr skip i] deletable_remove_nth [of i "segments wr" skip] by auto
qed

declare make_room.simps [simp del]

text \<open>
  The loop's rule: what holds before it and survives a refused and an accepted deletion holds
  after it, where either the size fits or the policy has no further victim.
\<close>

definition room_exit :: "writer \<Rightarrow> nat list \<Rightarrow> room \<Rightarrow> bool" where
  "room_exit wr u rm \<longleftrightarrow>
     (if disk_bytes wr + segment_bytes (cfg wr) > cap_bytes (cfg wr)
      then victim wr u = None \<and> rm = (if u = [] then Full else Made) else rm = Made)"

lemma make_room_rule:
  assumes "make_room crc rt u (wr, w) = (rm, st')" and "P u wr w"
    and "\<And>u wr w i g w1 e w2. P u wr w \<Longrightarrow> victim wr u = Some i \<Longrightarrow>
      disk_bytes wr + segment_bytes (cfg wr) > cap_bytes (cfg wr) \<Longrightarrow>
      eviction_gap crc rt (seq (segments wr ! i)) (wr, w) = (g, w1) \<Longrightarrow>
      remove_segment (seq (segments wr ! i)) w1 = (Inl e, w2) \<Longrightarrow>
      P (u @ [seq (segments wr ! i)])
        (wr\<lparr>stats := (stats wr)\<lparr>delete_failures := delete_failures (stats wr) + 1\<rparr>\<rparr>) w2"
    and "\<And>u wr w i g w1 w2. P u wr w \<Longrightarrow> victim wr u = Some i \<Longrightarrow>
      disk_bytes wr + segment_bytes (cfg wr) > cap_bytes (cfg wr) \<Longrightarrow>
      eviction_gap crc rt (seq (segments wr ! i)) (wr, w) = (g, w1) \<Longrightarrow>
      remove_segment (seq (segments wr ! i)) w1 = (Inr (), w2) \<Longrightarrow>
      P u (count_eviction g (wr\<lparr>segments := remove_nth i (segments wr)\<rparr>)) w2"
  shows "\<exists>u' wr' w'. st' = (wr', w') \<and> P u' wr' w' \<and> room_exit wr' u' rm"
  using assms
proof (induction crc rt u "(wr, w)" arbitrary: wr w rule: make_room.induct)
  case (1 crc rt u wr w)
  note failed = "1.prems"(3) and removed = "1.prems"(4)
  show ?case
  proof (cases "disk_bytes wr + segment_bytes (cfg wr) > cap_bytes (cfg wr)")
    case False
    then have "st' = (wr, w)" "room_exit wr u rm"
      using "1.prems"(1) by (simp_all add: make_room.simps [of crc rt u] room_exit_def)
    then show ?thesis using "1.prems"(2) by blast
  next
    case over: True
    show ?thesis
    proof (cases "victim wr u")
      case None
      then have "st' = (wr, w)" "room_exit wr u rm"
        using "1.prems"(1) over by (simp_all add: make_room.simps [of crc rt u] room_exit_def)
      then show ?thesis using "1.prems"(2) by blast
    next
      case (Some i)
      obtain g w1 where g: "eviction_gap crc rt (seq (segments wr ! i)) (wr, w) = (g, w1)" by fastforce
      obtain r w2 where r: "remove_segment (seq (segments wr ! i)) w1 = (r, w2)" by fastforce
      show ?thesis
      proof (cases r)
        case (Inl e)
        show ?thesis
          by (rule "1.hyps"(1) [OF over Some g [symmetric] r [symmetric] Inl])
            (use "1.prems"(1,2) over Some g r Inl failed removed in
              \<open>auto simp: make_room.simps [of crc rt u]\<close>)
      next
        case (Inr x)
        show ?thesis
          by (rule "1.hyps"(2) [OF over Some g [symmetric] r [symmetric] Inr])
            (use "1.prems"(1,2) over Some g r Inr failed removed in
              \<open>auto simp: make_room.simps [of crc rt u]\<close>)
      qed
    qed
  qed
qed

section \<open>Writing\<close>

text \<open>
  Opens the active segment at its last good length, creating it with its header if it is new;
  a torn write left by an earlier failure is cut off.
\<close>

definition open_active :: "wstate \<Rightarrow> unit wres" where
  "open_active st = (case st of (wr, w) \<Rightarrow>
     if segments wr = [] then (Inl Panic, st)
     else let a = last (segments wr); path = segment_path (seq a) in
       and_then (lift_io (open_rw path) (wr, w)) (\<lambda>_ st.
       and_then (lift_io (set_len path (len a)) st) (\<lambda>_ st.
       and_then (lift_io seek st) (\<lambda>_ st.
         if len a = 0 then
           and_then (lift_io (write_all path 0 SEGMENT_MAGIC) st) (\<lambda>_ (wr, w).
             (Inr (), ((set_active_len SEGMENT_HEADER wr)
                \<lparr>unsynced := True, active_file := Some (seq a, SEGMENT_HEADER)\<rparr>, w)))
         else (case st of (wr, w) \<Rightarrow> (Inr (), (wr\<lparr>active_file := Some (seq a, len a)\<rparr>, w)))))))"

text \<open>The inner loop of \<open>write_from\<close>: whole records that fit; an empty segment takes one.\<close>

function batch :: "bytes \<Rightarrow> nat \<Rightarrow> nat \<Rightarrow> nat \<Rightarrow> nat \<Rightarrow> nat \<Rightarrow> (nat \<times> nat) option" where
  "batch pend dn active_len segbytes fin count =
     (if fin < length pend then
        (case record_len pend fin of
           None \<Rightarrow> None
         | Some l \<Rightarrow>
             (let next = fin + l;
                  fits = active_len + (next - dn) \<le> segbytes
              in if \<not> fits \<and> \<not> (fin = dn \<and> active_len = SEGMENT_HEADER) then Some (fin, count)
                 else batch pend dn active_len segbytes next (count + 1)))
      else Some (fin, count))"
  by pat_completeness auto
termination
  by (relation "measure (\<lambda>(pend, dn, al, sb, fin, count). length pend - fin)")
    (auto simp: record_len_def RECORD_HEADER_def split: option.splits)

declare batch.simps [simp del]

text \<open>Seals the active segment and starts the next one, after making room for it.\<close>

definition rotate :: "(bytes \<Rightarrow> u32) \<Rightarrow> (bytes \<Rightarrow> int option) \<Rightarrow> wstate \<Rightarrow> room wres" where
  "rotate crc rt st =
     (case make_room crc rt [] st of
        (Full, st) \<Rightarrow> (Inr Full, st)
      | (Made, (wr, w)) \<Rightarrow>
          and_then
            (case active_file wr of
               None \<Rightarrow> (Inr (), (wr, w))
             | Some f \<Rightarrow>
                 and_then (lift_io sync (wr\<lparr>active_file := None\<rparr>, w)) (\<lambda>_ (wr, w).
                   (Inr (), (wr\<lparr>unsynced := False\<rparr>, w))))
            (\<lambda>_ (wr, w).
               if segments wr = [] then (Inl Panic, (wr, w))
               else case next_seq (seq (last (segments wr))) of
                 Inl e \<Rightarrow> (Inl (Io e), (wr, w))
               | Inr n \<Rightarrow>
                   and_then (open_active (wr\<lparr>segments := segments wr @ [Segment n 0]\<rparr>, w))
                     (\<lambda>_ st. (Inr Made, st))))"

text \<open>Drops \<open>pending[from..]\<close> for lack of room, adding it to the open gap.\<close>

function drop_loop ::
  "(bytes \<Rightarrow> int option) \<Rightarrow> nat \<Rightarrow> gap \<Rightarrow> writer \<Rightarrow> (gap \<times> writer) option" where
  "drop_loop rt pos g wr =
     (if pos < length (pending wr) then
        (case record_len (pending wr) pos of
           None \<Rightarrow> None
         | Some l \<Rightarrow>
             (let next = pos + l in
              case slice_get (pending wr) (pos + RECORD_HEADER) next of
                None \<Rightarrow> None
              | Some p \<Rightarrow>
                  drop_loop rt next (gap_add (rt p) g)
                    (wr\<lparr>stats := (stats wr)\<lparr>overflow_drops := overflow_drops (stats wr) + 1\<rparr>\<rparr>)))
      else Some (g, wr))"
  by pat_completeness auto
termination
  by (relation "measure (\<lambda>(rt, pos, g, wr). length (pending wr) - pos)")
    (auto simp: record_len_def RECORD_HEADER_def split: option.splits)

declare drop_loop.simps [simp del]

definition drop_pending :: "(bytes \<Rightarrow> int option) \<Rightarrow> nat \<Rightarrow> writer \<Rightarrow> writer option" where
  "drop_pending rt from wr =
     (case drop_loop rt from (case drop_gap wr of None \<Rightarrow> gap_empty | Some g \<Rightarrow> g) wr of
        None \<Rightarrow> None
      | Some (g, wr) \<Rightarrow> Some (wr\<lparr>drop_gap := Some g\<rparr>))"

lemma lift_io_wr: "lift_io f (wr, w) = (r, (wr', w')) \<Longrightarrow> wr' = wr"
  by (auto simp: lift_io_def split: prod.splits sum.splits)

lemma open_active_Inr:
  assumes "open_active (wr, w) = (Inr x, (wr', w'))"
  shows "pending wr' = pending wr \<and> segments wr' \<noteq> [] \<and>
    (len (last (segments wr)) = 0 \<longrightarrow> len (last (segments wr')) = SEGMENT_HEADER)"
  using assms
  by (auto simp: open_active_def Let_def and_then_eq_Inr set_active_len_def
      dest!: lift_io_wr split: if_splits)

lemma make_room_pending:
  "make_room crc rt u (wr, w) = (rm, (wr', w')) \<Longrightarrow> pending wr' = pending wr"
  by (drule make_room_rule [where P = "\<lambda>u v w. pending v = pending wr"]) auto

lemma rotate_Made:
  assumes "rotate crc rt (wr, w) = (Inr Made, (wr', w'))"
  shows "pending wr' = pending wr \<and> len (last (segments wr')) = SEGMENT_HEADER"
proof -
  obtain rm wr1 w1 where m: "make_room crc rt [] (wr, w) = (rm, (wr1, w1))"
    by (metis prod.exhaust)
  have p: "pending wr1 = pending wr"
    using make_room_pending [OF m] .
  have "rm = Made" using assms m by (cases rm) (auto simp: rotate_def)
  then show ?thesis
    using assms m p
    by (fastforce simp: rotate_def and_then_eq_Inr split: option.splits if_splits sum.splits
        dest: lift_io_wr open_active_Inr)
qed

lemma batch_ge: "batch pend dn al sb e c = Some (e', c') \<Longrightarrow> e \<le> e'"
proof (induction pend dn al sb e c rule: batch.induct)
  case (1 pend dn al sb e c)
  show ?case
    using "1.IH" "1.prems"
    by (auto simp: batch.simps [of pend dn al sb e c] Let_def split: if_splits option.splits)
      fastforce+
qed

lemma batch_progress:
  assumes "batch pend dn SEGMENT_HEADER sb dn c = Some (e', c')" "dn < length pend"
  shows "dn < e'"
  using assms batch_ge
  by (subst (asm) batch.simps)
    (fastforce simp: Let_def record_len_def RECORD_HEADER_def split: if_splits option.splits)

text \<open>
  \<open>write_from\<close>: \<open>dn\<close> marks the bytes already written or dropped, and is returned with every
  result. The loop either writes a batch or rotates, and after a rotation always writes.
\<close>

function write_from ::
  "(bytes \<Rightarrow> u32) \<Rightarrow> (bytes \<Rightarrow> int option) \<Rightarrow> nat \<Rightarrow> wstate \<Rightarrow> nat \<times> unit wres" where
  "write_from crc rt dn (wr, w) =
     (if dn < length (pending wr) then
        if segments wr = [] then (dn, (Inl Panic, (wr, w)))
        else let active_len = len (last (segments wr)) in
          (case batch (pending wr) dn active_len (segment_bytes (cfg wr)) dn 0 of
             None \<Rightarrow> (dn, (Inl Panic, (wr, w)))
           | Some (fin, count) \<Rightarrow>
               if fin = dn then
                 (case rotate crc rt (wr, w) of
                    (Inl e, st) \<Rightarrow> (dn, (Inl e, st))
                  | (Inr Made, st) \<Rightarrow> write_from crc rt dn st
                  | (Inr Full, (wr, w)) \<Rightarrow>
                      (case drop_pending rt dn wr of
                         None \<Rightarrow> (dn, (Inl Panic, (wr, w)))
                       | Some wr \<Rightarrow> (length (pending wr), (Inr (), (wr, w)))))
               else
                 (case (active_file wr, slice_get (pending wr) dn fin) of
                    (Some (n, pos), Some bs) \<Rightarrow>
                      (case write_all (segment_path n) pos bs w of
                         (Inl e, w) \<Rightarrow> (dn, (Inl (Io e), (wr, w)))
                       | (Inr _, w) \<Rightarrow>
                           write_from crc rt fin
                             (let wr = set_active_len (active_len + (fin - dn)) wr
                              in wr\<lparr>active_file := Some (n, pos + (fin - dn)),
                                    unsynced := True,
                                    stats := (stats wr)
                                      \<lparr>records_written := records_written (stats wr) + count,
                                       bytes_written := bytes_written (stats wr) + (fin - dn)\<rparr>\<rparr>, w))
                  | _ \<Rightarrow> (dn, (Inl Panic, (wr, w)))))
      else (dn, (Inr (), (wr, w))))"
  by pat_completeness auto
termination
proof (relation "measures [\<lambda>(crc, rt, dn, (wr, w)). length (pending wr) - dn,
    \<lambda>(crc, rt, dn, (wr, w)). if len (last (segments wr)) = SEGMENT_HEADER then 0 else 1]",
    goal_cases)
  case 1
  show ?case by simp
next
  case (2 crc rt dn wr w al x fin count xb st b)
  obtain wr' w' where st: "st = (wr', w')" by fastforce
  with 2 have "rotate crc rt (wr, w) = (Inr Made, (wr', w'))" by simp
  from rotate_Made [OF this]
  have r: "pending wr' = pending wr" "len (last (segments wr')) = SEGMENT_HEADER" by auto
  have "len (last (segments wr)) \<noteq> SEGMENT_HEADER"
    using 2 batch_progress [of "pending wr" dn "segment_bytes (cfg wr)" 0 fin count] by auto
  then show ?case using r st by simp
next
  case (3 crc rt dn wr w al x fin count)
  then have "dn < fin"
    using batch_ge [of "pending wr" dn al "segment_bytes (cfg wr)" dn 0 fin count] by auto
  moreover from this 3 have "length (pending wr) - fin < length (pending wr) - dn" by simp
  ultimately show ?case by (simp add: set_active_len_def Let_def)
qed

declare write_from.simps [simp del]

definition write_pending :: "(bytes \<Rightarrow> u32) \<Rightarrow> (bytes \<Rightarrow> int option) \<Rightarrow> wstate \<Rightarrow> unit wres" where
  "write_pending crc rt st =
     (case write_from crc rt 0 st of
        (dn, (r, (wr, w))) \<Rightarrow> (r, (wr\<lparr>pending := drop dn (pending wr)\<rparr>, w)))"

text \<open>Writes what is queued and flushes what was written.\<close>

definition flush_now :: "(bytes \<Rightarrow> u32) \<Rightarrow> (bytes \<Rightarrow> int option) \<Rightarrow> wstate \<Rightarrow> unit wres" where
  "flush_now crc rt st =
     and_then
       (case st of (wr, w) \<Rightarrow>
          if active_file wr = None \<and> (pending wr \<noteq> [] \<or> unsynced wr) then open_active (wr, w)
          else (Inr (), (wr, w)))
       (\<lambda>_ (wr, w).
     and_then (if pending wr \<noteq> [] then write_pending crc rt (wr, w) else (Inr (), (wr, w)))
       (\<lambda>_ (wr, w).
          if unsynced wr then
            if active_file wr = None then (Inl Panic, (wr, w))
            else and_then (lift_io sync (wr, w)) (\<lambda>_ (wr, w). (Inr (), (wr\<lparr>unsynced := False\<rparr>, w)))
          else (Inr (), (wr, w))))"

section \<open>The public operations\<close>

definition tick ::
  "(bytes \<Rightarrow> u32) \<Rightarrow> (bytes \<Rightarrow> int option) \<Rightarrow> nat \<Rightarrow> wstate \<Rightarrow> unit wres" where
  "tick crc rt now st = (case st of (wr, w) \<Rightarrow>
     if (case retry_at wr of
           Some t \<Rightarrow> now < t
         | None \<Rightarrow>
             \<not> is_none_or (last_flush wr) (\<lambda>t. now - t \<ge> flush_interval (cfg wr)) \<and>
             \<not> length (pending wr) \<ge> backlog_bytes (cfg wr) div 2)
     then (Inr (), (wr, w))
     else
       (case flush_now crc rt (wr\<lparr>last_flush := Some now\<rparr>, w) of
          (Inr _, (wr, w)) \<Rightarrow>
            (Inr (), (case retry_at wr of
                        None \<Rightarrow> wr
                      | Some _ \<Rightarrow> wr\<lparr>retry_at := None,
                          stats := (stats wr)\<lparr>recoveries := recoveries (stats wr) + 1\<rparr>\<rparr>, w))
        | (Inl Panic, st) \<Rightarrow> (Inl Panic, st)
        | (Inl (Io e), (wr, w)) \<Rightarrow>
            (Inl (Io e), (wr\<lparr>active_file := None,
                        retry_at := Some (now + retry_interval (cfg wr)),
                        stats := (stats wr)\<lparr>write_errors := write_errors (stats wr) + 1\<rparr>\<rparr>, w))))"

text \<open>\<open>close\<close> consumes the writer: its counters, or the error of the last flush.\<close>

definition close :: "(bytes \<Rightarrow> u32) \<Rightarrow> (bytes \<Rightarrow> int option) \<Rightarrow> wstate \<Rightarrow> (wr_error + stats) \<times> world" where
  "close crc rt st =
     (case flush_now crc rt st of
        (Inl e, (wr, w)) \<Rightarrow> (Inl e, w)
      | (Inr _, (wr, w)) \<Rightarrow> (Inr (stats wr), w))"

text \<open>The \<open>retain\<close> of \<open>ack\<close>: segments kept, and how many could not be deleted.\<close>

fun retain_segments ::
  "nat \<Rightarrow> nat \<Rightarrow> segment list \<Rightarrow> world \<Rightarrow> (segment list \<times> nat) \<times> world" where
  "retain_segments cur active [] w = (([], 0), w)"
| "retain_segments cur active (s # ss) w =
     (if seq s \<ge> cur \<or> seq s = active then
        (case retain_segments cur active ss w of ((ks, f), w) \<Rightarrow> ((s # ks, f), w))
      else
        (case remove_segment (seq s) w of
           (Inl _, w) \<Rightarrow> (case retain_segments cur active ss w of ((ks, f), w) \<Rightarrow> ((s # ks, f + 1), w))
         | (Inr _, w) \<Rightarrow> retain_segments cur active ss w))"

definition ack :: "(bytes \<Rightarrow> u32) \<Rightarrow> cursor \<Rightarrow> wstate \<Rightarrow> unit wres" where
  "ack crc c st = (case st of (wr, w) \<Rightarrow>
     if is_some_and (acked wr) (\<lambda>a. c \<le> a) then (Inr (), (wr, w))
     else if segments wr = [] then (Inl Panic, (wr, w))
     else if segment c > seq (last (segments wr)) then (Inl (Io InvalidInput), (wr, w))
     else
       and_then (lift_io (cursor_store crc c) (wr, w)) (\<lambda>_ (wr, w).
         let active = seq (last (segments wr)) in
         (case retain_segments (segment c) active (segments wr) w of
            ((ks, failures), w) \<Rightarrow>
              (Inr (), (wr\<lparr>acked := Some c, segments := ks,
                 stats := (stats wr)\<lparr>delete_failures := delete_failures (stats wr) + failures\<rparr>\<rparr>, w)))))"

definition take_gaps :: "writer \<Rightarrow> gap list \<times> writer" where
  "take_gaps wr =
     (let gs = (case drop_gap wr of None \<Rightarrow> gaps wr | Some g \<Rightarrow> gaps wr @ [g])
      in (gs, wr\<lparr>drop_gap := None, gaps := []\<rparr>))"

definition is_failing :: "writer \<Rightarrow> bool" where
  "is_failing wr \<longleftrightarrow> retry_at wr \<noteq> None"


section \<open>Opening\<close>

text \<open>
  A header torn while the segment was being created: a prefix of the magic, followed by
  nothing or by zeros.
\<close>

definition torn_header :: "bytes \<Rightarrow> bool" where
  "torn_header data =
     (let head = take (min (length data) (length SEGMENT_MAGIC)) data;
          written = length (dropWhile (\<lambda>b. b = 0) (rev head))
      in take written SEGMENT_MAGIC = take written head
         \<and> list_all (\<lambda>b. b = 0) (drop (length head) data))"

text \<open>
  Scans the newest segment and cuts it after its last valid record; a torn header becomes an
  empty segment. The result is the length kept (\<open>None\<close>: not an Atlas segment, left untouched)
  and the bytes cut off.
\<close>

definition recover_newest :: "(bytes \<Rightarrow> u32) \<Rightarrow> nat \<Rightarrow> world \<Rightarrow> (nat option \<times> nat) io" where
  "recover_newest crc n w =
     (let path = segment_path n in
      and_then (open_rw path w) (\<lambda>_ w.
      and_then (read_to_end path w) (\<lambda>data w.
        if length data \<ge> length SEGMENT_MAGIC \<and> take (length SEGMENT_MAGIC) data = SEGMENT_MAGIC then
          (let ve = valid_end (scan crc data (length SEGMENT_MAGIC)) in
           if ve < length data then
             and_then (set_len path ve w) (\<lambda>_ w.
             and_then (sync w) (\<lambda>_ w. (Inr (Some ve, length data - ve), w)))
           else (Inr (Some ve, 0), w))
        else if \<not> torn_header data then (Inr (None, 0), w)
        else
          and_then (set_len path 0 w) (\<lambda>_ w.
          and_then (seek w) (\<lambda>_ w.
          and_then (write_all path 0 SEGMENT_MAGIC w) (\<lambda>_ w.
          and_then (sync w) (\<lambda>_ w. (Inr (Some SEGMENT_HEADER, length data), w))))))))"

definition recovery_default :: recovery where
  "recovery_default = \<lparr>truncated_bytes = 0, cursor_reset = False, foreign_segment = None\<rparr>"

text \<open>The length of a segment found on disk: the newest one is recovered first.\<close>

definition open_segment ::
  "(bytes \<Rightarrow> u32) \<Rightarrow> bool \<Rightarrow> nat \<Rightarrow> recovery \<Rightarrow> world \<Rightarrow> (nat \<times> recovery) io" where
  "open_segment crc newest n rec w =
     (if newest then
        and_then (recover_newest crc n w) (\<lambda>(l, cut) w.
          let rec = rec\<lparr>truncated_bytes := truncated_bytes rec + cut\<rparr> in
          case l of
            Some l \<Rightarrow> (Inr (l, rec), w)
          | None \<Rightarrow> and_then (segment_len (segment_path n) w) (\<lambda>l w.
                      (Inr (l, rec\<lparr>foreign_segment := Some n\<rparr>), w)))
      else and_then (segment_len (segment_path n) w) (\<lambda>l w. (Inr (l, rec), w)))"

text \<open>
  The loop of \<open>open\<close> over the listed segments: those wholly behind the cursor are deleted, and
  kept and counted when they cannot be.
\<close>

fun open_loop ::
  "(bytes \<Rightarrow> u32) \<Rightarrow> cursor option \<Rightarrow> nat list \<Rightarrow> recovery \<Rightarrow> nat \<Rightarrow> world
     \<Rightarrow> (segment list \<times> recovery \<times> nat) io" where
  "open_loop crc ackd [] rec fails w = (Inr ([], rec, fails), w)"
| "open_loop crc ackd (n # ns) rec fails w =
     (let behind = is_some_and ackd (\<lambda>c. n < segment c) in
      case (if behind then remove_segment n w else (Inl OtherError, w)) of
        (Inr _, w) \<Rightarrow> open_loop crc ackd ns rec fails w
      | (Inl _, w) \<Rightarrow>
          and_then (open_segment crc (ns = []) n rec w) (\<lambda>(l, rec) w.
          and_then (open_loop crc ackd ns rec (if behind then fails + 1 else fails) w)
            (\<lambda>(ss, rec, fails) w. (Inr (Segment n l # ss, rec, fails), w))))"

definition writer_open :: "(bytes \<Rightarrow> u32) \<Rightarrow> config \<Rightarrow> world \<Rightarrow> (writer \<times> recovery) io" where
  "writer_open crc c w =
     (case validate c of Inl e \<Rightarrow> (Inl e, w) | Inr _ \<Rightarrow>
      and_then (prepare_dir w) (\<lambda>_ w.
      and_then (cursor_load crc w) (\<lambda>ld w.
        let ackd = (case ld of Valid p \<Rightarrow> Some p | _ \<Rightarrow> None);
            rec = recovery_default\<lparr>cursor_reset := (ld = Corrupt)\<rparr> in
      and_then (list_segments w) (\<lambda>seqs w.
        case next_seq (max (if seqs = [] then 0 else last seqs)
                           (case ackd of None \<Rightarrow> 0 | Some p \<Rightarrow> segment p)) of
          Inl e \<Rightarrow> (Inl e, w)
        | Inr n \<Rightarrow>
      and_then (open_loop crc ackd seqs rec 0 w) (\<lambda>(ss, rec, fails) w.
        (Inr (\<lparr>cfg = c, segments = ss @ [Segment n 0], active_file = None, unsynced = False,
               pending = [], acked = ackd, last_flush = None, retry_at = None,
               stats = stats_default\<lparr>delete_failures := fails\<rparr>, gaps = [], drop_gap = None\<rparr>,
              rec), w))))))"

end
