(* ===== verification/Buf_Writer_Inv.thy ===== *)
theory Buf_Writer_Inv
  imports Buf_Writer
begin

text \<open>
  What the writer keeps true of its segments and files, and what its log is. \<open>disk_log\<close> is the
  sequence of payloads in the segments the writer knows, oldest first, each read up to the
  length the writer has recorded; \<open>queue\<close> is what waits in memory. Every operation keeps the
  invariant and only ever shortens \<open>disk_log @ queue\<close> where a counter says so.
\<close>

section \<open>The log\<close>

definition seg_payloads :: "(bytes \<Rightarrow> u32) \<Rightarrow> bytes \<Rightarrow> bytes list" where
  "seg_payloads crc b =
     (if take SEGMENT_HEADER b = SEGMENT_MAGIC
      then payloads_at b (records (scan crc b SEGMENT_HEADER)) else [])"

definition seg_data :: "world \<Rightarrow> segment \<Rightarrow> bytes" where
  "seg_data w s = (case node_of w (segment_path (seq s)) of Some (Regular b) \<Rightarrow> take (len s) b | _ \<Rightarrow> [])"

definition seg_log :: "(bytes \<Rightarrow> u32) \<Rightarrow> world \<Rightarrow> segment \<Rightarrow> bytes list" where
  "seg_log crc w s = seg_payloads crc (seg_data w s)"

definition disk_log :: "(bytes \<Rightarrow> u32) \<Rightarrow> writer \<Rightarrow> world \<Rightarrow> bytes list" where
  "disk_log crc wr w = concat (map (seg_log crc w) (segments wr))"

definition queue :: "(bytes \<Rightarrow> u32) \<Rightarrow> writer \<Rightarrow> bytes list" where
  "queue crc wr = payloads_at (pending wr) (records (scan crc (pending wr) 0))"

lemma length_MAGIC [simp]: "length SEGMENT_MAGIC = 8"
  by (simp add: SEGMENT_MAGIC_def)

lemma MAGIC_nonempty [simp]: "SEGMENT_MAGIC \<noteq> []"
  by (simp add: SEGMENT_MAGIC_def)

lemma payloads_of_frames:
  "list_all payload_ok ps \<Longrightarrow>
     payloads_at (pre @ frames crc ps) (records (scan crc (pre @ frames crc ps) (length pre))) = ps"
  using scan_frames(2) [of ps crc pre "[]"] no_frame_empty by simp

lemma seg_payloads_frames [simp]:
  "list_all payload_ok ps \<Longrightarrow> seg_payloads crc (SEGMENT_MAGIC @ frames crc ps) = ps"
  using payloads_of_frames [of ps SEGMENT_MAGIC crc] by (simp add: seg_payloads_def SEGMENT_HEADER_def)

lemma seg_payloads_magic [simp]: "seg_payloads crc SEGMENT_MAGIC = []"
  using seg_payloads_frames [of "[]" crc] by simp

lemma seg_payloads_Nil [simp]: "seg_payloads crc [] = []"
  by (simp add: seg_payloads_def SEGMENT_HEADER_def SEGMENT_MAGIC_def)

lemma queue_frames: "pending wr = frames crc ps \<Longrightarrow> list_all payload_ok ps \<Longrightarrow> queue crc wr = ps"
  using payloads_of_frames [of ps "[]" crc] by (simp add: queue_def)

lemma seg_log_node_cong:
  "node_of w' (segment_path (seq s)) = node_of w (segment_path (seq s)) \<Longrightarrow>
     seg_log crc w' s = seg_log crc w s"
  by (simp add: seg_log_def seg_data_def)

section \<open>The invariant\<close>

definition sealed_ok :: "world \<Rightarrow> segment \<Rightarrow> bool" where
  "sealed_ok w s \<longleftrightarrow> (\<exists>b. node_of w (segment_path (seq s)) = Some (Regular b) \<and> length b = len s)"

text \<open>
  The active segment: whole records up to the recorded length. With a handle open the file
  ends there; without one it may go on with a torn write. A segment of length 0 has no file
  yet, or one whose contents do not matter.
\<close>

definition active_ok :: "(bytes \<Rightarrow> u32) \<Rightarrow> world \<Rightarrow> (nat \<times> nat) option \<Rightarrow> segment \<Rightarrow> bool" where
  "active_ok crc w f s \<longleftrightarrow>
     f = None \<and> len s = 0 \<or>
     (\<exists>ps tail. list_all payload_ok ps \<and>
        node_of w (segment_path (seq s)) = Some (Regular (SEGMENT_MAGIC @ frames crc ps @ tail)) \<and>
        len s = 8 + length (frames crc ps) \<and>
        (f = None \<or> f = Some (seq s, len s) \<and> tail = []))"

definition seg_inv :: "(bytes \<Rightarrow> u32) \<Rightarrow> writer \<Rightarrow> world \<Rightarrow> bool" where
  "seg_inv crc wr w \<longleftrightarrow>
     segments wr \<noteq> [] \<and>
     sorted_wrt (<) (map seq (segments wr)) \<and>
     (\<forall>s \<in> set (segments wr). seq s \<le> U64_MAX) \<and>
     (\<forall>s \<in> set (butlast (segments wr)). sealed_ok w s) \<and>
     active_ok crc w (active_file wr) (last (segments wr)) \<and>
     fs_ok w"

definition pend_inv :: "(bytes \<Rightarrow> u32) \<Rightarrow> writer \<Rightarrow> bool" where
  "pend_inv crc wr \<longleftrightarrow> (\<exists>ps. list_all payload_ok ps \<and> pending wr = frames crc ps)"

definition writer_inv :: "(bytes \<Rightarrow> u32) \<Rightarrow> writer \<Rightarrow> world \<Rightarrow> bool" where
  "writer_inv crc wr w \<longleftrightarrow> seg_inv crc wr w \<and> pend_inv crc wr"

text \<open>The invariant as it is after a failed call, when the handle is about to be dropped.\<close>

definition seg_inv_closed :: "(bytes \<Rightarrow> u32) \<Rightarrow> writer \<Rightarrow> world \<Rightarrow> bool" where
  "seg_inv_closed crc wr w \<longleftrightarrow> seg_inv crc (wr\<lparr>active_file := None\<rparr>) w"

lemma active_ok_close: "active_ok crc w f s \<Longrightarrow> active_ok crc w None s"
  by (auto simp: active_ok_def)

lemma seg_inv_close: "seg_inv crc wr w \<Longrightarrow> seg_inv_closed crc wr w"
  by (auto simp: seg_inv_closed_def seg_inv_def intro: active_ok_close)

lemma seg_inv_upto: "upto_fates w w' \<Longrightarrow> seg_inv crc wr w' = seg_inv crc wr w"
  by (simp add: seg_inv_def sealed_ok_def active_ok_def upto_fates_node upto_fates_ok)

lemma disk_log_upto: "upto_fates w w' \<Longrightarrow> disk_log crc wr w' = disk_log crc wr w"
  by (simp add: disk_log_def seg_log_def seg_data_def upto_fates_node cong: map_cong)

text \<open>The invariant and the log depend on the segments and the handle only.\<close>

lemma seg_inv_cong:
  "segments wr' = segments wr \<Longrightarrow> active_file wr' = active_file wr \<Longrightarrow> seg_inv crc wr' w = seg_inv crc wr w"
  by (simp add: seg_inv_def)

lemma disk_log_cong: "segments wr' = segments wr \<Longrightarrow> disk_log crc wr' w = disk_log crc wr w"
  by (simp add: disk_log_def)

lemma disk_log_upd [simp]:
  "disk_log crc (wr\<lparr>active_file := f\<rparr>) w = disk_log crc wr w"
  "disk_log crc (wr\<lparr>stats := t\<rparr>) w = disk_log crc wr w"
  "disk_log crc (wr\<lparr>unsynced := b\<rparr>) w = disk_log crc wr w"
  "disk_log crc (wr\<lparr>pending := p\<rparr>) w = disk_log crc wr w"
  "disk_log crc (wr\<lparr>drop_gap := g\<rparr>) w = disk_log crc wr w"
  "disk_log crc (wr\<lparr>gaps := gs\<rparr>) w = disk_log crc wr w"
  "disk_log crc (wr\<lparr>last_flush := lf\<rparr>) w = disk_log crc wr w"
  "disk_log crc (wr\<lparr>retry_at := ra\<rparr>) w = disk_log crc wr w"
  "disk_log crc (wr\<lparr>acked := a\<rparr>) w = disk_log crc wr w"
  "disk_log crc (count_eviction ge wr) w = disk_log crc wr w"
  by (simp_all add: disk_log_def)

lemma seg_inv_upd [simp]:
  "seg_inv crc (wr\<lparr>stats := t\<rparr>) w = seg_inv crc wr w"
  "seg_inv crc (wr\<lparr>unsynced := b\<rparr>) w = seg_inv crc wr w"
  "seg_inv crc (wr\<lparr>pending := p\<rparr>) w = seg_inv crc wr w"
  "seg_inv crc (wr\<lparr>drop_gap := g\<rparr>) w = seg_inv crc wr w"
  "seg_inv crc (wr\<lparr>gaps := gs\<rparr>) w = seg_inv crc wr w"
  "seg_inv crc (wr\<lparr>last_flush := lf\<rparr>) w = seg_inv crc wr w"
  "seg_inv crc (wr\<lparr>retry_at := ra\<rparr>) w = seg_inv crc wr w"
  "seg_inv crc (wr\<lparr>acked := a\<rparr>) w = seg_inv crc wr w"
  "seg_inv crc (count_eviction ge wr) w = seg_inv crc wr w"
  "seg_inv crc (wr\<lparr>unsynced := b, active_file := f\<rparr>) w = seg_inv crc (wr\<lparr>active_file := f\<rparr>) w"
  "seg_inv crc (wr\<lparr>active_file := f, stats := t\<rparr>) w = seg_inv crc (wr\<lparr>active_file := f\<rparr>) w"
  by (simp_all add: seg_inv_def)

section \<open>Segments and their files\<close>

text \<open>Splitting the segments into the sealed ones and the active one.\<close>

lemma seg_inv_split:
  assumes "seg_inv crc wr w"
  obtains ss a where "segments wr = ss @ [a]" "\<forall>s \<in> set ss. seq s < seq a"
    "\<forall>s \<in> set ss. sealed_ok w s" "active_ok crc w (active_file wr) a"
proof -
  from assms obtain ss a where s: "segments wr = ss @ [a]"
    unfolding seg_inv_def by (metis rev_exhaust)
  with assms that show thesis by (auto simp: seg_inv_def sorted_wrt_append)
qed

lemma active_log:
  assumes "active_ok crc w f s"
  obtains "len s = 0" "seg_log crc w s = []" "f = None"
  | ps tail where "list_all payload_ok ps" "seg_log crc w s = ps"
      "node_of w (segment_path (seq s)) = Some (Regular (SEGMENT_MAGIC @ frames crc ps @ tail))"
      "len s = 8 + length (frames crc ps)" "f = None \<or> f = Some (seq s, len s) \<and> tail = []"
  using assms unfolding active_ok_def
proof (elim disjE exE conjE, goal_cases)
  case 1
  then have "seg_log crc w s = []"
    by (simp add: seg_log_def seg_data_def split: option.splits node.splits)
  with 1 show thesis using that(1) by blast
next
  case (2 ps tail)
  then have "seg_data w s = SEGMENT_MAGIC @ frames crc ps" by (simp add: seg_data_def)
  with 2 show thesis using that(2) by (auto simp: seg_log_def)
next
  case (3 ps tail)
  then have "seg_data w s = SEGMENT_MAGIC @ frames crc ps" by (simp add: seg_data_def)
  with 3 show thesis using that(2) by (auto simp: seg_log_def)
qed

text \<open>Changing the file of the active segment leaves the others alone.\<close>

lemma seg_inv_set_active:
  assumes inv: "seg_inv crc wr w"
    and segs: "segments wr' = butlast (segments wr) @ [Segment (seq (last (segments wr))) n]"
    and node: "node_of w' = (node_of w)(segment_path (seq (last (segments wr))) \<mapsto> x)"
    and act: "active_ok crc w' (active_file wr') (Segment (seq (last (segments wr))) n)"
    and ok: "fs_ok w'"
  shows "seg_inv crc wr' w' \<and> disk_log crc wr' w' =
    concat (map (seg_log crc w) (butlast (segments wr))) @
    seg_log crc w' (Segment (seq (last (segments wr))) n)"
proof -
  from inv obtain ss a where s: "segments wr = ss @ [a]" "\<forall>s \<in> set ss. seq s < seq a"
    "\<forall>s \<in> set ss. sealed_ok w s" by (rule seg_inv_split)
  have same: "node_of w' (segment_path (seq s)) = node_of w (segment_path (seq s))" if "s \<in> set ss" for s
    using node s that by auto
  from inv have "sorted_wrt (<) (map seq (segments wr'))" "\<forall>s \<in> set (segments wr'). seq s \<le> U64_MAX"
    using s by (auto simp: seg_inv_def segs sorted_wrt_append)
  moreover have "\<forall>s \<in> set ss. sealed_ok w' s"
    using s(3) same by (auto simp: sealed_ok_def)
  moreover have "concat (map (seg_log crc w') ss) = concat (map (seg_log crc w) ss)"
    using same by (intro arg_cong [of _ _ concat] map_cong) (auto intro: seg_log_node_cong)
  ultimately show ?thesis
    using act ok s(1) by (simp add: seg_inv_def segs disk_log_def)
qed


section \<open>Opening the active segment\<close>

lemma lift_io_cases:
  assumes "lift_io f (wr, w) = (r, st')"
  obtains (fail) e w' where "f w = (Inl e, w')" "r = Inl (Io e)" "st' = (wr, w')"
  | (ok) x w' where "f w = (Inr x, w')" "r = Inr x" "st' = (wr, w')"
  using assms by (auto simp: lift_io_def split: prod.splits sum.splits)

text \<open>The fields the I/O methods leave alone.\<close>

definition wr_frame :: "writer \<Rightarrow> writer \<Rightarrow> bool" where
  "wr_frame wr wr' \<longleftrightarrow> cfg wr' = cfg wr \<and> pending wr' = pending wr \<and> stats wr' = stats wr \<and>
     gaps wr' = gaps wr \<and> drop_gap wr' = drop_gap wr \<and> acked wr' = acked wr \<and>
     retry_at wr' = retry_at wr \<and> map seq (segments wr') = map seq (segments wr)"

lemma wr_frame_refl [simp]: "wr_frame wr wr"
  by (simp add: wr_frame_def)

text \<open>
  While the active segment is empty on record, nothing its file goes through matters; its
  segment and log stay as they are.
\<close>

lemma seg_log_empty: "len s = 0 \<Longrightarrow> seg_log crc w s = []"
  by (simp add: seg_log_def seg_data_def split: option.splits node.splits)

lemma seg_inv_empty_active:
  assumes "seg_inv crc wr w" "active_file wr = None" "len (last (segments wr)) = 0"
    and "node_of w' = (node_of w)(segment_path (seq (last (segments wr))) \<mapsto> x)"
    and "fs_ok w'"
  shows "seg_inv crc wr w' \<and> disk_log crc wr w' = disk_log crc wr w"
proof -
  from assms(1) obtain ss a where s: "segments wr = ss @ [a]" by (rule seg_inv_split)
  then have a: "a = Segment (seq a) 0" using assms(3) by (cases a) simp
  have "active_ok crc w' (active_file wr) (Segment (seq a) 0)"
    by (simp add: active_ok_def assms(2))
  with s a have "seg_inv crc wr w' \<and> disk_log crc wr w' =
      concat (map (seg_log crc w) ss) @ seg_log crc w' (Segment (seq a) 0)"
    using seg_inv_set_active [OF assms(1) _ assms(4) _ assms(5), of wr 0] by simp
  moreover have "disk_log crc wr w = concat (map (seg_log crc w) ss)"
    using s a seg_log_empty [of a crc w] assms(3) by (simp add: disk_log_def)
  ultimately show ?thesis by (simp add: seg_log_empty)
qed

lemma seg_inv_node_cong:
  assumes "seg_inv crc wr w" "node_of w' = node_of w" "fs_ok w'"
  shows "seg_inv crc wr w' \<and> disk_log crc wr w' = disk_log crc wr w"
  using assms
  by (simp add: seg_inv_def sealed_ok_def active_ok_def disk_log_def seg_log_def seg_data_def
      cong: map_cong)

text \<open>
  The file operations of \<open>open_active\<close> on a single name: the node they leave, whether or not
  they fail.
\<close>

definition touches :: "string \<Rightarrow> world \<Rightarrow> world \<Rightarrow> bool" where
  "touches path w w' \<longleftrightarrow>
     (node_of w' = node_of w \<or> (\<exists>x. node_of w' = (node_of w)(path \<mapsto> x))) \<and> (fs_ok w \<longrightarrow> fs_ok w')"

lemma touches_upto: "upto_fates w w' \<Longrightarrow> touches path w w'"
  by (simp add: touches_def upto_fates_node upto_fates_ok)

lemma touches_trans: "touches p a b \<Longrightarrow> touches p b c \<Longrightarrow> touches p a c"
  unfolding touches_def by (auto simp: fun_upd_upd)

lemma touches_put: "touches p w (put_file p x w)"
  by (auto simp: touches_def)

lemma touches_on_file: "touches p w (on_file p f w)"
  by (auto simp: on_file_def touches_put touches_upto split: option.splits node.splits)

lemma open_rw_touches: "open_rw p w = (r, w') \<Longrightarrow> touches p w w'"
  by (erule open_rw_effect) (auto intro: touches_trans touches_put touches_upto)

lemma set_len_touches: "set_len p n w = (r, w') \<Longrightarrow> touches p w w'"
  by (drule set_len_effect) (auto intro: touches_trans touches_on_file touches_upto)

lemma write_all_touches: "write_all p n bs w = (r, w') \<Longrightarrow> touches p w w'"
  by (drule write_all_effect) (auto intro: touches_trans touches_on_file touches_upto)

lemma seek_touches: "seek w = (r, w') \<Longrightarrow> touches p w w'"
  by (drule seek_upto) (rule touches_upto)

lemma touches_empty_active:
  assumes "seg_inv crc wr w" "active_file wr = None" "len (last (segments wr)) = 0"
    and "touches (segment_path (seq (last (segments wr)))) w w'"
  shows "seg_inv crc wr w' \<and> disk_log crc wr w' = disk_log crc wr w"
proof -
  have ok: "fs_ok w'" using assms(1,4) by (simp add: touches_def seg_inv_def)
  from assms(4) consider "node_of w' = node_of w" |
    x where "node_of w' = (node_of w)(segment_path (seq (last (segments wr))) \<mapsto> x)"
    by (auto simp: touches_def)
  then show ?thesis
    by cases (use seg_inv_node_cong [OF assms(1) _ ok] seg_inv_empty_active [OF assms(1-3) _ ok] in blast)+
qed

text \<open>The new handle is at the end of an active segment that holds whole records only.\<close>

definition opened :: "(bytes \<Rightarrow> u32) \<Rightarrow> wstate \<Rightarrow> (wr_error + unit) \<Rightarrow> wstate \<Rightarrow> bool" where
  "opened crc st r st' = (case (st, st') of ((wr, w), (wr', w')) \<Rightarrow>
     wr_frame wr wr' \<and> r \<noteq> Inl Panic \<and> seg_inv_closed crc wr' w' \<and>
     disk_log crc wr' w' = disk_log crc wr w \<and>
     (unsynced wr \<longrightarrow> unsynced wr') \<and>
     (case r of
        Inl _ \<Rightarrow> segments wr' = segments wr
      | Inr _ \<Rightarrow> seg_inv crc wr' w' \<and> active_file wr' \<noteq> None \<and>
          segments wr' = (if len (last (segments wr)) = 0
             then butlast (segments wr) @ [Segment (seq (last (segments wr))) 8] else segments wr)))"

lemma opened_failed:
  assumes "seg_inv crc wr w'" "active_file wr = None" "disk_log crc wr w' = disk_log crc wr w"
  shows "opened crc (wr, w) (Inl (Io e)) (wr, w')"
  using assms seg_inv_close by (auto simp: opened_def)


lemma open_new_active:
  assumes inv: "seg_inv crc wr w" and f: "active_file wr = None" and z: "len (last (segments wr)) = 0"
    and o: "open_active (wr, w) = (r, st')"
  shows "opened crc (wr, w) r st'"
proof -
  let ?a = "last (segments wr)" and ?p = "segment_path (seq (last (segments wr)))"
  have failed: "opened crc (wr, w) (Inl (Io e)) (wr, v)" if "touches ?p w v" for e v
    using touches_empty_active [OF inv f z that] f opened_failed by blast
  from inv have "segments wr \<noteq> []" by (simp add: seg_inv_def)
  with o z have "and_then (lift_io (open_rw ?p) (wr, w)) (\<lambda>_ st.
       and_then (lift_io (set_len ?p 0) st) (\<lambda>_ st.
       and_then (lift_io seek st) (\<lambda>_ st.
           and_then (lift_io (write_all ?p 0 SEGMENT_MAGIC) st) (\<lambda>_ (wr, w).
             (Inr (), ((set_active_len SEGMENT_HEADER wr)
                \<lparr>unsynced := True, active_file := Some (seq ?a, SEGMENT_HEADER)\<rparr>, w)))))) = (r, st')"
    by (simp add: open_active_def Let_def)
  then show ?thesis
  proof (cases rule: and_then_cases)
    case (stop e)
    then show ?thesis
      by (cases rule: lift_io_cases) (auto intro: failed open_rw_touches)
  next
    case (continue x st1)
    from continue(1) obtain w1 where 1: "open_rw ?p w = (Inr (), w1)" "st1 = (wr, w1)"
      by (cases rule: lift_io_cases) auto
    have t1: "touches ?p w w1" by (rule open_rw_touches [OF 1(1)])
    obtain b1 where b1: "node_of w1 ?p = Some (Regular b1)"
      by (rule open_rw_effect [OF 1(1)]) (auto simp: upto_fates_node)
    from continue(2) [unfolded 1] show ?thesis
    proof (cases rule: and_then_cases)
      case (stop e)
      then show ?thesis
        by (cases rule: lift_io_cases) (auto intro: failed touches_trans [OF t1] set_len_touches)
    next
      case (continue x st2)
      from continue(1) obtain w2 where 2: "set_len ?p 0 w1 = (Inr (), w2)" "st2 = (wr, w2)"
        by (cases rule: lift_io_cases) auto
      have t2: "touches ?p w w2" by (rule touches_trans [OF t1 set_len_touches [OF 2(1)]])
      have b2: "node_of w2 ?p = Some (Regular [])"
        using set_len_effect [OF 2(1)] b1 by (auto simp: upto_fates_node node_of_on_file resize_def)
      from continue(2) [unfolded 2] show ?thesis
      proof (cases rule: and_then_cases)
        case (stop e)
        then show ?thesis
          by (cases rule: lift_io_cases) (auto intro: failed touches_trans [OF t2] seek_touches)
      next
        case (continue x st3)
        from continue(1) obtain w3 where 3: "seek w2 = (Inr (), w3)" "st3 = (wr, w3)"
          by (cases rule: lift_io_cases) auto
        have t3: "touches ?p w w3" by (rule touches_trans [OF t2 seek_touches [OF 3(1)]])
        have b3: "node_of w3 ?p = Some (Regular [])"
          using b2 upto_fates_node [OF seek_upto [OF 3(1)]] by simp
        from continue(2) [unfolded 3] show ?thesis
        proof (cases rule: and_then_cases)
          case (stop e)
          then show ?thesis
            by (cases rule: lift_io_cases) (auto intro: failed touches_trans [OF t3] write_all_touches)
        next
          case (continue x st4)
          from continue(1) obtain w4 where 4: "write_all ?p 0 SEGMENT_MAGIC w3 = (Inr (), w4)"
            "st4 = (wr, w4)" by (cases rule: lift_io_cases) auto
          have t4: "touches ?p w w4" by (rule touches_trans [OF t3 write_all_touches [OF 4(1)]])
          have n4: "node_of w4 ?p = Some (Regular SEGMENT_MAGIC)"
            using write_all_effect [OF 4(1)] b3 by (auto simp: upto_fates_node node_of_on_file)
          then have nw: "node_of w4 = (node_of w)(?p \<mapsto> Regular SEGMENT_MAGIC)"
            using t4 by (auto simp: touches_def fun_eq_iff)
          let ?wr' = "(set_active_len SEGMENT_HEADER wr)
            \<lparr>unsynced := True, active_file := Some (seq ?a, SEGMENT_HEADER)\<rparr>"
          have st': "r = Inr ()" "st' = (?wr', w4)" using continue(2) 4 by auto
          have a: "active_ok crc w4 (active_file ?wr') (Segment (seq ?a) 8)"
            using n4 by (auto simp: active_ok_def SEGMENT_HEADER_def intro!: exI [of _ "[]"])
          have segs: "segments ?wr' = butlast (segments wr) @ [Segment (seq ?a) 8]"
            by (simp add: set_active_len_def SEGMENT_HEADER_def)
          have ok: "fs_ok w4" using t4 inv by (simp add: touches_def seg_inv_def)
          have "seg_log crc w4 (Segment (seq ?a) 8) = []"
            using n4 by (simp add: seg_log_def seg_data_def)
          moreover have "disk_log crc wr w = concat (map (seg_log crc w) (butlast (segments wr)))"
            using seg_log_empty [of ?a crc w] z inv
            by (auto elim!: seg_inv_split simp: disk_log_def)
          moreover have "map seq (segments ?wr') = map seq (segments wr)"
            using inv by (auto elim!: seg_inv_split simp: set_active_len_def)
          ultimately show ?thesis
            using seg_inv_set_active [OF inv segs nw a ok] segs z
              seg_inv_close [of crc ?wr' w4]
            by (simp add: st' opened_def wr_frame_def set_active_len_def)
        qed
      qed
    qed
  qed
qed

lemma open_old_active:
  assumes inv: "seg_inv crc wr w" and f: "active_file wr = None" and z: "len (last (segments wr)) \<noteq> 0"
    and o: "open_active (wr, w) = (r, st')"
  shows "opened crc (wr, w) r st'"
proof -
  let ?a = "last (segments wr)" and ?p = "segment_path (seq (last (segments wr)))"
  have failed: "opened crc (wr, w) (Inl (Io e)) (wr, v)" if "upto_fates w v" for e v
    using inv f that by (intro opened_failed) (simp_all add: seg_inv_upto disk_log_upto)
  from inv z obtain ps tail where ps: "list_all payload_ok ps"
    "node_of w ?p = Some (Regular (SEGMENT_MAGIC @ frames crc ps @ tail))"
    "len ?a = 8 + length (frames crc ps)"
    by (auto simp: seg_inv_def active_ok_def)
  from inv have ne: "segments wr \<noteq> []" by (simp add: seg_inv_def)
  with o z have "and_then (lift_io (open_rw ?p) (wr, w)) (\<lambda>_ st.
       and_then (lift_io (set_len ?p (len ?a)) st) (\<lambda>_ st.
       and_then (lift_io seek st) (\<lambda>_ st.
         (case st of (wr, w) \<Rightarrow> (Inr (), (wr\<lparr>active_file := Some (seq ?a, len ?a)\<rparr>, w)))))) = (r, st')"
    by (simp add: open_active_def Let_def)
  then show ?thesis
  proof (cases rule: and_then_cases)
    case (stop e)
    then show ?thesis
      by (cases rule: lift_io_cases) (auto intro!: failed elim!: open_rw_effect simp: ps)
  next
    case (continue x st1)
    from continue(1) obtain w1 where 1: "open_rw ?p w = (Inr (), w1)" "st1 = (wr, w1)"
      by (cases rule: lift_io_cases) auto
    have u1: "upto_fates w w1"
      by (rule open_rw_effect [OF 1(1)]) (auto simp: ps)
    from continue(2) [unfolded 1] show ?thesis
    proof (cases rule: and_then_cases)
      case (stop e)
      then show ?thesis
        by (cases rule: lift_io_cases) (auto intro!: failed dest!: set_len_effect intro: upto_fates_trans [OF u1])
    next
      case (continue x st2)
      from continue(1) obtain w2 where 2: "set_len ?p (len ?a) w1 = (Inr (), w2)" "st2 = (wr, w2)"
        by (cases rule: lift_io_cases) auto
      have r: "resize (len ?a) (SEGMENT_MAGIC @ frames crc ps @ tail) = SEGMENT_MAGIC @ frames crc ps"
        using resize_append [of "SEGMENT_MAGIC @ frames crc ps" tail] by (simp add: ps(3))
      have n2: "node_of w2 = (node_of w)(?p \<mapsto> Regular (SEGMENT_MAGIC @ frames crc ps))"
        using set_len_effect [OF 2(1)] ps(2) upto_fates_node [OF u1]
        by (auto simp: upto_fates_node node_of_on_file r)
      have ok2: "fs_ok w2"
        using set_len_touches [OF 2(1)] touches_upto [OF u1] inv
        by (auto simp: touches_def seg_inv_def)
      have segs: "segments wr = butlast (segments wr) @ [Segment (seq ?a) (len ?a)]" using ne by simp
      have log: "disk_log crc wr w = concat (map (seg_log crc w) (butlast (segments wr))) @ ps"
      proof -
        have "seg_log crc w ?a = ps"
          using ps by (simp add: seg_log_def seg_data_def)
        then show ?thesis using inv by (auto elim!: seg_inv_split simp: disk_log_def)
      qed
      have aok: "active_ok crc v g (Segment (seq ?a) (len ?a))" "seg_log crc v (Segment (seq ?a) (len ?a)) = ps"
        if "node_of v = node_of w2" "g = None \<or> g = Some (seq ?a, len ?a)" for g v
        using that ps n2 by (auto simp: active_ok_def seg_log_def seg_data_def intro!: exI [of _ ps])
      have at: "seg_inv crc (wr\<lparr>active_file := g\<rparr>) v \<and>
          disk_log crc (wr\<lparr>active_file := g\<rparr>) v = disk_log crc wr w"
        if "upto_fates w2 v" "g = None \<or> g = Some (seq ?a, len ?a)" for g v
      proof -
        have n: "node_of v = node_of w2" using upto_fates_node [OF that(1)] by simp
        show ?thesis
          using seg_inv_set_active [OF inv, of "wr\<lparr>active_file := g\<rparr>" "len ?a" v
              "Regular (SEGMENT_MAGIC @ frames crc ps)"] segs n n2 aok [OF n that(2)] ok2 log
            upto_fates_ok [OF that(1)] by simp
      qed
      from continue(2) [unfolded 2] show ?thesis
      proof (cases rule: and_then_cases)
        case (stop e)
        have idf: "wr\<lparr>active_file := None\<rparr> = wr" using f by (cases wr) simp
        from stop show ?thesis
          by (cases rule: lift_io_cases)
            (use at [of _ None] f idf in \<open>auto intro!: opened_failed dest: seek_upto\<close>)
      next
        case (continue x st3)
        from continue(1) obtain w3 where 3: "seek w2 = (Inr (), w3)" "st3 = (wr, w3)"
          by (cases rule: lift_io_cases) auto
        have "r = Inr ()" "st' = (wr\<lparr>active_file := Some (seq ?a, len ?a)\<rparr>, w3)"
          using continue(2) 3 by auto
        then show ?thesis
          using at [OF seek_upto [OF 3(1)], of "Some (seq ?a, len ?a)"] z
            seg_inv_close [of crc "wr\<lparr>active_file := Some (seq ?a, len ?a)\<rparr>" w3]
          by (simp add: opened_def wr_frame_def)
      qed
    qed
  qed
qed

lemma open_active_opened:
  "seg_inv crc wr w \<Longrightarrow> active_file wr = None \<Longrightarrow> open_active (wr, w) = (r, st') \<Longrightarrow>
     opened crc (wr, w) r st'"
  using open_new_active open_old_active by blast


section \<open>Making room\<close>

lemma remove_segment_effect:
  assumes "remove_segment n w = (r, w')"
  shows "(\<exists>e. r = Inl e) \<and> upto_fates w w' \<or> r = Inr () \<and> upto_fates (unlink (segment_path n) w) w'"
proof (cases "remove_file (segment_path n) w")
  case (Pair r1 w1)
  then show ?thesis
    using assms remove_file_effect [OF Pair]
    by (auto simp: remove_segment_def split: sum.splits if_splits)
qed

lemma segment_gap_upto: "segment_gap crc rt n w = (g, w') \<Longrightarrow> upto_fates w w'"
proof -
  assume a: "segment_gap crc rt n w = (g, w')"
  obtain r1 w1 where b: "and_then (open_read (segment_path n) w)
      (\<lambda>_ w. read_to_end (segment_path n) w) = (r1, w1)" by fastforce
  then have "upto_fates w w1"
  proof (cases rule: and_then_cases)
    case (stop e)
    then show ?thesis using open_read_upto by blast
  next
    case (continue x v)
    then show ?thesis using open_read_upto read_to_end_upto upto_fates_trans by blast
  qed
  with a b show ?thesis by (auto simp: segment_gap_def split: sum.splits)
qed

lemma eviction_gap_upto: "eviction_gap crc rt n (wr, w) = (g, w') \<Longrightarrow> upto_fates w w'"
  by (auto simp: eviction_gap_def split: if_splits prod.splits intro: segment_gap_upto)

text \<open>Deleting one sealed segment takes exactly its records out of the log.\<close>

lemma evict_one:
  assumes inv: "seg_inv crc wr w" and i: "i < length (segments wr) - 1"
    and node: "node_of w' = (node_of w)(segment_path (seq (segments wr ! i)) := None)" and ok: "fs_ok w'"
  obtains A B where
    "seg_inv crc (wr\<lparr>segments := remove_nth i (segments wr)\<rparr>) w'"
    "disk_log crc wr w = A @ seg_log crc w (segments wr ! i) @ B"
    "disk_log crc (wr\<lparr>segments := remove_nth i (segments wr)\<rparr>) w' = A @ B"
    "last (remove_nth i (segments wr)) = last (segments wr)"
proof -
  obtain d where d: "segments wr ! i = d" by simp
  from inv obtain ss a where s: "segments wr = ss @ [a]" by (rule seg_inv_split)
  with i have i': "i < length ss" by simp
  then obtain x y where ss: "ss = x @ d # y" "length x = i"
    using id_take_nth_drop [OF i'] s d by (metis length_take min.absorb4 nth_append)
  then have segs: "segments wr = x @ d # y @ [a]" using s by simp
  have rem: "remove_nth i (segments wr) = x @ y @ [a]"
    using ss(2) by (subst segs) (simp add: remove_nth_def)
  have "sorted_wrt (<) (map seq (x @ d # y @ [a]))"
    using inv segs by (simp add: seg_inv_def)
  then have ne: "seq t \<noteq> seq d" if "t \<in> set (x @ y @ [a])" for t
    using that by (fastforce simp: sorted_wrt_append)
  then have same: "node_of w' (segment_path (seq t)) = node_of w (segment_path (seq t))"
    if "t \<in> set (x @ y @ [a])" for t using that node d by simp
  have logs: "concat (map (seg_log crc w') ts) = concat (map (seg_log crc w) ts)"
    if "set ts \<subseteq> set (x @ y @ [a])" for ts
    using that same by (intro arg_cong [of _ _ concat] map_cong) (auto intro!: seg_log_node_cong)
  let ?wr' = "wr\<lparr>segments := remove_nth i (segments wr)\<rparr>"
  have "sorted_wrt (<) (map seq (x @ y @ [a]))" "\<forall>t \<in> set (x @ y @ [a]). seq t \<le> U64_MAX"
    "\<forall>t \<in> set (x @ y). sealed_ok w t" "active_ok crc w (active_file wr) a"
    using inv segs by (auto simp: seg_inv_def sorted_wrt_append butlast_append)
  moreover have "\<forall>t \<in> set (x @ y). sealed_ok w' t" if "\<forall>t \<in> set (x @ y). sealed_ok w t"
    using that same by (auto simp: sealed_ok_def)
  moreover have "active_ok crc w' (active_file wr) a" if "active_ok crc w (active_file wr) a"
    using that same by (simp add: active_ok_def)
  ultimately have "seg_inv crc ?wr' w'"
    using ok by (simp add: seg_inv_def rem butlast_append)
  moreover have "disk_log crc wr w = concat (map (seg_log crc w) x) @ seg_log crc w d @
      concat (map (seg_log crc w) (y @ [a]))"
    unfolding disk_log_def by (subst segs) simp
  moreover have "disk_log crc ?wr' w' =
      concat (map (seg_log crc w) x) @ concat (map (seg_log crc w) (y @ [a]))"
    using logs [of "x @ y @ [a]"] by (simp add: disk_log_def rem)
  moreover have "last (remove_nth i (segments wr)) = last (segments wr)"
    using rem s by simp
  ultimately show thesis using that unfolding d by blast
qed

text \<open>The counters of what was deleted or dropped: records leave the log only when one moves.\<close>

definition losses :: "writer \<Rightarrow> nat" where
  "losses wr = retention_evictions (stats wr) + overflow_evictions (stats wr) + overflow_drops (stats wr)"

lemma losses_eviction [simp]: "losses (count_eviction g wr) = Suc (losses wr)"
  by (simp add: losses_def count_eviction_def split: option.splits)

text \<open>What a step that may lose records does to a log: it keeps the order of what is left.\<close>

definition shrinks :: "nat \<Rightarrow> 'a list \<Rightarrow> nat \<Rightarrow> 'a list \<Rightarrow> bool" where
  "shrinks n xs n' xs' \<longleftrightarrow> subseq xs' xs \<and> n \<le> n' \<and> (n' = n \<longrightarrow> xs' = xs)"

lemma shrinks_refl [simp]: "shrinks n xs n xs"
  by (simp add: shrinks_def)

lemma shrinks_trans: "shrinks n xs m ys \<Longrightarrow> shrinks m ys k zs \<Longrightarrow> shrinks n xs k zs"
  unfolding shrinks_def by (metis le_antisym le_trans subseq_order.trans)

lemma shrinks_append: "shrinks n xs m ys \<Longrightarrow> shrinks n (xs @ zs) m (ys @ zs)"
  by (auto simp: shrinks_def)

lemma shrinks_cut: "shrinks n (A @ s @ B) (Suc n) (A @ B)"
proof -
  have "subseq (A @ B) (A @ s @ B)"
    by (intro list_emb_append_mono) (auto intro: list_emb_append2)
  then show ?thesis by (simp add: shrinks_def)
qed

definition same_but_segments :: "writer \<Rightarrow> writer \<Rightarrow> bool" where
  "same_but_segments wr wr' \<longleftrightarrow> cfg wr' = cfg wr \<and> pending wr' = pending wr \<and>
     active_file wr' = active_file wr \<and> unsynced wr' = unsynced wr \<and> acked wr' = acked wr \<and>
     drop_gap wr' = drop_gap wr \<and> retry_at wr' = retry_at wr \<and> last_flush wr' = last_flush wr \<and>
     last (segments wr') = last (segments wr)"

lemma make_room_effect:
  assumes inv: "seg_inv crc wr w" and m: "make_room crc rt u (wr, w) = (rm, (wr', w'))"
  shows "seg_inv crc wr' w'" "same_but_segments wr wr'"
    "shrinks (losses wr) (disk_log crc wr w) (losses wr') (disk_log crc wr' w')"
    "\<exists>u'. room_exit wr' u' rm"
proof -
  let ?P = "\<lambda>u v x. seg_inv crc v x \<and> same_but_segments wr v \<and>
     shrinks (losses wr) (disk_log crc wr w) (losses v) (disk_log crc v x)"
  have "\<exists>u' v x. (wr', w') = (v, x) \<and> ?P u' v x \<and> room_exit v u' rm"
  proof (rule make_room_rule [OF m])
    show "?P u wr w" using inv by (simp add: same_but_segments_def)
  next
    fix u v x i g x1 e x2
    assume P: "?P u v x" and g: "eviction_gap crc rt (seq (segments v ! i)) (v, x) = (g, x1)"
      and r: "remove_segment (seq (segments v ! i)) x1 = (Inl e, x2)"
    have "upto_fates x1 x2" using remove_segment_effect [OF r] by simp
    with eviction_gap_upto [OF g] have "upto_fates x x2" by (rule upto_fates_trans)
    with P show "?P (u @ [seq (segments v ! i)])
        (v\<lparr>stats := (stats v)\<lparr>delete_failures := delete_failures (stats v) + 1\<rparr>\<rparr>) x2"
      by (simp add: seg_inv_upto disk_log_upto same_but_segments_def losses_def)
  next
    fix u v x i g x1 x2
    assume P: "?P u v x" and vi: "victim v u = Some i"
      and g: "eviction_gap crc rt (seq (segments v ! i)) (v, x) = (g, x1)"
      and r: "remove_segment (seq (segments v ! i)) x1 = (Inr (), x2)"
    have u1: "upto_fates x x1" by (rule eviction_gap_upto [OF g])
    have u2: "upto_fates (unlink (segment_path (seq (segments v ! i))) x1) x2"
      using remove_segment_effect [OF r] by simp
    have node: "node_of x2 = (node_of x)(segment_path (seq (segments v ! i)) := None)"
      using upto_fates_node [OF u1] upto_fates_node [OF u2] by simp
    have ok: "fs_ok x2"
      using P u1 u2 by (simp add: seg_inv_def upto_fates_ok)
    from P have iv: "seg_inv crc v x" by simp
    have il: "i < length (segments v) - 1" using victim_Some [OF vi] by simp
    show "?P u (count_eviction g (v\<lparr>segments := remove_nth i (segments v)\<rparr>)) x2"
    proof (rule evict_one [OF iv il node ok])
      fix A B
      let ?v' = "v\<lparr>segments := remove_nth i (segments v)\<rparr>"
      assume "seg_inv crc ?v' x2" and l: "disk_log crc v x = A @ seg_log crc x (segments v ! i) @ B"
        and l': "disk_log crc ?v' x2 = A @ B"
        and la: "last (remove_nth i (segments v)) = last (segments v)"
      moreover have "shrinks (losses v) (disk_log crc v x) (Suc (losses v)) (disk_log crc ?v' x2)"
        unfolding l l' by (rule shrinks_cut)
      moreover have "losses ?v' = losses v" by (simp add: losses_def)
      ultimately show ?thesis
        using P by (auto simp: same_but_segments_def intro: shrinks_trans)
    qed
  qed
  then show "seg_inv crc wr' w'" "same_but_segments wr wr'"
    "shrinks (losses wr) (disk_log crc wr w) (losses wr') (disk_log crc wr' w')"
    "\<exists>u'. room_exit wr' u' rm" by blast+
qed


section \<open>Rotation\<close>

text \<open>With a handle open, the active segment can be sealed as it is.\<close>

lemma seg_inv_push:
  assumes inv: "seg_inv crc wr w" and f: "active_file wr \<noteq> None"
    and n: "next_seq (seq (last (segments wr))) = Inr n"
    and wr': "segments wr' = segments wr @ [Segment n 0]" "active_file wr' = None"
  shows "seg_inv crc wr' w \<and> disk_log crc wr' w = disk_log crc wr w"
proof -
  from inv obtain ss a where s: "segments wr = ss @ [a]" "\<forall>s \<in> set ss. seq s < seq a"
    "\<forall>s \<in> set ss. sealed_ok w s" "active_ok crc w (active_file wr) a" by (rule seg_inv_split)
  from n s have "n = Suc (seq a)" "n \<le> U64_MAX"
    by (auto simp: next_seq_def checked_succ_def split: if_splits option.splits)
  moreover have "sealed_ok w a" using s(4) f by (auto simp: active_ok_def sealed_ok_def)
  moreover have "sorted_wrt (<) (map seq (ss @ [a]))" "\<forall>t \<in> set (ss @ [a]). seq t \<le> U64_MAX" "fs_ok w"
    using inv s(1) by (simp_all add: seg_inv_def)
  ultimately have "seg_inv crc wr' w"
    using s(2,3) unfolding seg_inv_def wr' s(1)
    by (auto simp: sorted_wrt_append active_ok_def butlast_append)
  then show ?thesis
    using s(1) wr'(1) seg_log_empty [of "Segment n 0" crc w] by (simp add: disk_log_def)
qed

definition rotated :: "(bytes \<Rightarrow> u32) \<Rightarrow> wstate \<Rightarrow> (wr_error + room) \<Rightarrow> wstate \<Rightarrow> bool" where
  "rotated crc st r st' = (case (st, st') of ((wr, w), (wr', w')) \<Rightarrow>
     pending wr' = pending wr \<and> cfg wr' = cfg wr \<and> r \<noteq> Inl Panic \<and> seg_inv_closed crc wr' w' \<and>
     shrinks (losses wr) (disk_log crc wr w) (losses wr') (disk_log crc wr' w') \<and>
     (case r of
        Inl _ \<Rightarrow> True
      | Inr rm \<Rightarrow> seg_inv crc wr' w' \<and> active_file wr' \<noteq> None \<and>
          (rm = Made \<longrightarrow> len (last (segments wr')) = 8)))"

lemma rotate_effect:
  assumes inv: "seg_inv crc wr w" and f: "active_file wr \<noteq> None"
    and r: "rotate crc rt (wr, w) = (r, st')"
  shows "rotated crc (wr, w) r st'"
proof -
  obtain rm wr1 w1 where m: "make_room crc rt [] (wr, w) = (rm, (wr1, w1))" by (metis prod.exhaust)
  note m' = make_room_effect [OF inv m]
  from m'(2) f obtain h where h: "active_file wr1 = Some h" by (auto simp: same_but_segments_def)
  show ?thesis
  proof (cases rm)
    case Full
    then show ?thesis
      using r m m' f seg_inv_close by (auto simp: rotate_def rotated_def same_but_segments_def)
  next
    case Made
    let ?wr2 = "wr1\<lparr>active_file := None\<rparr>"
    have base: "rotated crc (wr, w) (Inl (Io e)) (v, x)"
      if "upto_fates w1 x" "v = ?wr2\<lparr>unsynced := b\<rparr>" for e v x b
      using that m' seg_inv_close [OF m'(1)]
      by (auto simp: rotated_def same_but_segments_def seg_inv_closed_def seg_inv_upto disk_log_upto
          losses_def)
    from r m Made h have "and_then (and_then (lift_io sync (?wr2, w1)) (\<lambda>_ (wr, w).
                   (Inr (), (wr\<lparr>unsynced := False\<rparr>, w))))
            (\<lambda>_ (wr, w).
               if segments wr = [] then (Inl Panic, (wr, w))
               else case next_seq (seq (last (segments wr))) of
                 Inl e \<Rightarrow> (Inl (Io e), (wr, w))
               | Inr n \<Rightarrow>
                   and_then (open_active (wr\<lparr>segments := segments wr @ [Segment n 0]\<rparr>, w))
                     (\<lambda>_ st. (Inr Made, st))) = (r, st')"
      by (simp add: rotate_def)
    then show ?thesis
    proof (cases rule: and_then_cases)
      case (stop e)
      from stop(1) show ?thesis
      proof (cases rule: and_then_cases)
        case (stop e')
        from stop(1) show ?thesis
          by (cases rule: lift_io_cases)
            (use base [of _ ?wr2 "unsynced ?wr2"] stop \<open>r = Inl e\<close> in \<open>auto dest: sync_upto\<close>)
      qed auto
    next
      case (continue x st2)
      from continue(1) obtain w2 where 2: "upto_fates w1 w2" "st2 = (?wr2\<lparr>unsynced := False\<rparr>, w2)"
        by (cases rule: and_then_cases) (auto elim!: lift_io_cases dest: sync_upto)
      let ?wr3 = "?wr2\<lparr>unsynced := False\<rparr>"
      have ne: "segments wr1 \<noteq> []" using m'(1) by (simp add: seg_inv_def)
      show ?thesis
      proof (cases "next_seq (seq (last (segments wr1)))")
        case (Inl e)
        then show ?thesis using continue(2) 2 ne base [OF 2(1) refl] by auto
      next
        case (Inr n)
        let ?wr4 = "?wr3\<lparr>segments := segments wr1 @ [Segment n 0]\<rparr>"
        have i1: "seg_inv crc wr1 w2" using m'(1) 2(1) by (simp add: seg_inv_upto)
        have p: "seg_inv crc ?wr4 w2 \<and> disk_log crc ?wr4 w2 = disk_log crc wr1 w2"
          by (rule seg_inv_push [OF i1 _ Inr]) (simp_all add: h)
        obtain r4 wr5 w5 where o: "open_active (?wr4, w2) = (r4, (wr5, w5))" by (metis prod.exhaust)
        have "opened crc (?wr4, w2) r4 (wr5, w5)"
          by (rule open_active_opened [OF conjunct1 [OF p] _ o]) simp
        moreover have "and_then (r4, (wr5, w5)) (\<lambda>_ st. (Inr Made, st)) = (r, st')"
          using continue(2) 2 ne Inr o by simp
        ultimately show ?thesis
          using m' p disk_log_upto [OF 2(1), of crc wr1]
          by (cases r4) (auto simp: rotated_def opened_def wr_frame_def same_but_segments_def losses_def)
      qed
    qed
  qed
qed

section \<open>Batches\<close>

lemma record_len_frame:
  assumes "drop pos pend = frame_of crc p @ rest" "payload_ok p"
  shows "record_len pend pos = Some (length (frame_of crc p))"
proof -
  have l: "length pend - pos = 8 + length p + length rest"
    using arg_cong [OF assms(1), of length] by simp
  have "take 4 (drop pos pend) = le_bytes 4 (length p)"
    using assms by (simp add: frame_of_split payload_ok_def MAX_PAYLOAD_u32)
  then show ?thesis
    using l assms(2) by (simp add: record_len_def slice_get_def RECORD_HEADER_def from_le_length_field
        payload_ok_def)
qed

lemma frames_take_Suc:
  "c < length rs \<Longrightarrow> frames crc (take (Suc c) rs) = frames crc (take c rs) @ frame_of crc (rs ! c)"
  by (simp add: take_Suc_conv_app_nth)

lemma drop_frames_take:
  assumes "drop dn pend = frames crc rs"
  shows "drop (dn + length (frames crc (take c rs))) pend = frames crc (drop c rs)"
proof -
  have "frames crc rs = frames crc (take c rs) @ frames crc (drop c rs)"
    by (metis append_take_drop_id frames_simps(3))
  moreover have "drop (dn + k) pend = drop k (drop dn pend)" for k by (simp add: add.commute)
  ultimately show ?thesis using assms by simp
qed

lemma frames_empty_iff [simp]: "frames crc rs = [] \<longleftrightarrow> rs = []"
  by (cases rs) auto

lemma batch_frames:
  assumes rs: "drop dn pend = frames crc rs" "list_all payload_ok rs" and c: "c \<le> length rs"
    and dn: "dn \<le> length pend"
  shows "\<exists>k. c \<le> k \<and> k \<le> length rs \<and>
    batch pend dn al sb (dn + length (frames crc (take c rs))) c
      = Some (dn + length (frames crc (take k rs)), k) \<and>
    (k = c \<or> al + length (frames crc (take k rs)) \<le> sb \<or> k = 1 \<and> al = 8)"
  using c
proof (induction "length rs - c" arbitrary: c)
  case 0
  then have "drop (dn + length (frames crc (take c rs))) pend = []"
    using drop_frames_take [OF rs(1), of c] by simp
  then have "batch pend dn al sb (dn + length (frames crc (take c rs))) c
      = Some (dn + length (frames crc (take c rs)), c)"
    by (subst batch.simps) simp
  then show ?case using 0 by (intro exI [of _ c]) auto
next
  case (Suc n)
  let ?e = "dn + length (frames crc (take c rs))"
  let ?f = "frame_of crc (rs ! c)"
  have cl: "c < length rs" using Suc.hyps(2) by simp
  have d: "drop ?e pend = ?f @ frames crc (drop (Suc c) rs)"
    using drop_frames_take [OF rs(1), of c] cl by (simp add: Cons_nth_drop_Suc [symmetric])
  have pk: "payload_ok (rs ! c)" using rs(2) cl by (simp add: list_all_length)
  have lt: "?e < length pend"
    using arg_cong [OF d, of length] by simp
  have nx: "length (frames crc (take (Suc c) rs)) = length (frames crc (take c rs)) + (8 + length (rs ! c))"
    using cl by (simp add: frames_take_Suc)
  have unf: "batch pend dn al sb ?e c =
    (if \<not> al + length (frames crc (take (Suc c) rs)) \<le> sb \<and> \<not> (c = 0 \<and> al = 8) then Some (?e, c)
     else batch pend dn al sb (dn + length (frames crc (take (Suc c) rs))) (Suc c))"
    using lt record_len_frame [OF d pk] cl
    by (subst batch.simps) (auto simp: Let_def SEGMENT_HEADER_def nx add.assoc)
  show ?case
  proof (cases "\<not> al + length (frames crc (take (Suc c) rs)) \<le> sb \<and> \<not> (c = 0 \<and> al = 8)")
    case True
    then show ?thesis using unf cl by (intro exI [of _ c]) auto
  next
    case False
    have "n = length rs - Suc c" "Suc c \<le> length rs" using Suc.hyps(2) cl by simp_all
    from Suc.hyps(1) [OF this] obtain k where k: "Suc c \<le> k" "k \<le> length rs"
      "batch pend dn al sb (dn + length (frames crc (take (Suc c) rs))) (Suc c)
        = Some (dn + length (frames crc (take k rs)), k)"
      "k = Suc c \<or> al + length (frames crc (take k rs)) \<le> sb \<or> k = 1 \<and> al = 8" by blast
    then show ?thesis using unf False by (intro exI [of _ k]) auto
  qed
qed

lemma drop_loop_frames:
  "drop pos (pending wr) = frames crc rs \<Longrightarrow> list_all payload_ok rs \<Longrightarrow>
     drop_loop rt pos g wr = Some (fold gap_add (map rt rs) g,
       wr\<lparr>stats := (stats wr)\<lparr>overflow_drops := overflow_drops (stats wr) + length rs\<rparr>\<rparr>)"
proof (induction rs arbitrary: pos g wr)
  case Nil
  then show ?case by (subst drop_loop.simps) simp
next
  case (Cons p rs)
  have d: "drop pos (pending wr) = frame_of crc p @ frames crc rs" using Cons.prems by simp
  have rl: "record_len (pending wr) pos = Some (8 + length p)"
    using record_len_frame [OF d] Cons.prems by simp
  have len: "length (pending wr) = pos + (8 + length p) + length (frames crc rs)" and lt: "pos < length (pending wr)"
    using arg_cong [OF d, of length] by (auto simp: not_less)
  have "drop (pos + (8 + length p)) (pending wr) = frames crc rs"
    using arg_cong [OF d, of "drop (8 + length p)"] by (simp add: add.commute)
  moreover have "slice_get (pending wr) (pos + RECORD_HEADER) (pos + (8 + length p)) = Some p"
  proof -
    have "drop (pos + 8) (pending wr) = p @ frames crc rs"
      using arg_cong [OF d, of "drop 8"] by (simp add: frame_of_split add.commute)
    then show ?thesis using len by (simp add: slice_get_def RECORD_HEADER_def)
  qed
  ultimately show ?case
    using Cons.prems lt rl
    by (subst drop_loop.simps) (simp add: Let_def Cons.IH)
qed


section \<open>The write loop\<close>

text \<open>Writing a batch at the open handle: the records are in the log, or the write is torn.\<close>

lemma write_batch_effect:
  assumes inv: "seg_inv crc wr w" and f: "active_file wr = Some (n, pos)"
    and ok: "list_all payload_ok qs"
    and wr: "write_all (segment_path n) pos (frames crc qs) w = (r, w')"
    and wr': "segments wr' = butlast (segments wr) @
        [Segment (seq (last (segments wr))) (len (last (segments wr)) + length (frames crc qs))]"
      "active_file wr' = Some (n, pos + length (frames crc qs))"
  shows "(r = Inr () \<longrightarrow> seg_inv crc wr' w' \<and> disk_log crc wr' w' = disk_log crc wr w @ qs)"
    and "(r \<noteq> Inr () \<longrightarrow> seg_inv_closed crc wr w' \<and> disk_log crc wr w' = disk_log crc wr w)"
proof -
  let ?a = "last (segments wr)" and ?p = "segment_path (seq (last (segments wr)))"
  from inv have ne: "segments wr \<noteq> []" and aok: "active_ok crc w (active_file wr) ?a"
    by (simp_all add: seg_inv_def)
  from aok f obtain ps where ps: "list_all payload_ok ps"
    "node_of w ?p = Some (Regular (SEGMENT_MAGIC @ frames crc ps))"
    "len ?a = 8 + length (frames crc ps)" and n: "n = seq ?a" "pos = len ?a"
    by (auto simp: active_ok_def)
  have log: "disk_log crc wr w = concat (map (seg_log crc w) (butlast (segments wr))) @ ps"
  proof -
    have "seg_log crc w ?a = ps" using ps by (simp add: seg_log_def seg_data_def)
    then show ?thesis using inv by (auto elim!: seg_inv_split simp: disk_log_def)
  qed
  have pos: "pos = length (SEGMENT_MAGIC @ frames crc ps)" using n ps by simp
  have ow: "overwrite pos bs (SEGMENT_MAGIC @ frames crc ps) = SEGMENT_MAGIC @ frames crc ps @ bs" for bs
    using overwrite_end [of "SEGMENT_MAGIC @ frames crc ps" bs] pos by simp
  have fok: "fs_ok w'"
    using write_all_touches [OF wr] inv by (simp add: touches_def seg_inv_def)
  show "(r = Inr () \<longrightarrow> seg_inv crc wr' w' \<and> disk_log crc wr' w' = disk_log crc wr w @ qs)"
  proof
    assume "r = Inr ()"
    then have nw: "node_of w' = (node_of w)(?p \<mapsto> Regular (SEGMENT_MAGIC @ frames crc (ps @ qs)))"
      using write_all_effect [OF wr] ps(2) n by (auto simp: upto_fates_node node_of_on_file ow [unfolded n])
    have "active_ok crc w' (active_file wr') (Segment (seq ?a) (len ?a + length (frames crc qs)))"
      using ps ok nw n wr'(2) by (auto simp: active_ok_def intro!: exI [of _ "ps @ qs"])
    moreover have "seg_log crc w' (Segment (seq ?a) (len ?a + length (frames crc qs))) = ps @ qs"
      using nw ps ok seg_payloads_frames [of "ps @ qs" crc] by (simp add: seg_log_def seg_data_def)
    ultimately show "seg_inv crc wr' w' \<and> disk_log crc wr' w' = disk_log crc wr w @ qs"
      using seg_inv_set_active [OF inv wr'(1) nw _ fok] log by simp
  qed
  show "(r \<noteq> Inr () \<longrightarrow> seg_inv_closed crc wr w' \<and> disk_log crc wr w' = disk_log crc wr w)"
  proof
    assume "r \<noteq> Inr ()"
    then obtain k where nw: "node_of w' = (node_of w)(?p \<mapsto>
        Regular (SEGMENT_MAGIC @ frames crc ps @ take k (frames crc qs)))"
      using write_all_effect [OF wr] ps(2) n by (auto simp: upto_fates_node node_of_on_file ow [unfolded n])
    have "segments (wr\<lparr>active_file := None\<rparr>) = butlast (segments wr) @ [Segment (seq ?a) (len ?a)]"
      using ne by simp
    moreover have "active_ok crc w' (active_file (wr\<lparr>active_file := None\<rparr>)) (Segment (seq ?a) (len ?a))"
      using ps nw by (auto simp: active_ok_def intro!: exI [of _ ps])
    moreover have "seg_log crc w' (Segment (seq ?a) (len ?a)) = ps"
      using nw ps by (simp add: seg_log_def seg_data_def)
    ultimately show "seg_inv_closed crc wr w' \<and> disk_log crc wr w' = disk_log crc wr w"
      using seg_inv_set_active [OF inv _ nw _ fok, of "wr\<lparr>active_file := None\<rparr>" "len ?a"] log
      by (simp add: seg_inv_closed_def)
  qed
qed

text \<open>What a run of the loop has done when it stops, with \<open>rs\<close> the records still to write.\<close>

definition written ::
  "(bytes \<Rightarrow> u32) \<Rightarrow> wstate \<Rightarrow> bytes list \<Rightarrow> nat \<Rightarrow> (wr_error + unit) \<Rightarrow> wstate \<Rightarrow> bytes list \<Rightarrow> bool" where
  "written crc st rs dn r st' rs' = (case (st, st') of ((wr, w), (wr', w')) \<Rightarrow>
     pending wr' = pending wr \<and> cfg wr' = cfg wr \<and> r \<noteq> Inl Panic \<and>
     drop dn (pending wr) = frames crc rs' \<and> list_all payload_ok rs' \<and> dn \<le> length (pending wr) \<and>
     seg_inv_closed crc wr' w' \<and>
     shrinks (losses wr) (disk_log crc wr w @ rs) (losses wr') (disk_log crc wr' w' @ rs') \<and>
     (r = Inr () \<longrightarrow> seg_inv crc wr' w' \<and> active_file wr' \<noteq> None \<and> rs' = []))"

lemma written_trans:
  assumes "written crc (wr1, w1) rs1 dn r st' rs'"
    and "pending wr1 = pending wr" "cfg wr1 = cfg wr"
    and "shrinks (losses wr) (disk_log crc wr w @ rs) (losses wr1) (disk_log crc wr1 w1 @ rs1)"
  shows "written crc (wr, w) rs dn r st' rs'"
  using assms by (auto simp: written_def split: prod.splits intro: shrinks_trans)

lemma drop_pending_frames:
  assumes "drop dn (pending wr) = frames crc rs" "list_all payload_ok rs"
  shows "\<exists>g. drop_pending rt dn wr = Some (wr\<lparr>
    stats := (stats wr)\<lparr>overflow_drops := overflow_drops (stats wr) + length rs\<rparr>, drop_gap := g\<rparr>)"
  using drop_loop_frames [OF assms] by (fastforce simp: drop_pending_def)

lemma write_from_effect:
  assumes "write_from crc rt dn (wr, w) = (dn', (r, st'))"
    and "seg_inv crc wr w" "active_file wr \<noteq> None"
    and "drop dn (pending wr) = frames crc rs" "list_all payload_ok rs" "dn \<le> length (pending wr)"
  shows "\<exists>rs'. written crc (wr, w) rs dn' r st' rs'"
  using assms
proof (induction crc rt dn "(wr, w)" arbitrary: wr w rs rule: write_from.induct)
  case (1 crc rt dn wr w)
  note inv = "1.prems"(2) and f = "1.prems"(3) and rs = "1.prems"(4,5) and dn = "1.prems"(6)
  let ?al = "len (last (segments wr))"
  from inv have ne: "segments wr \<noteq> []" by (simp add: seg_inv_def)
  show ?case
  proof (cases "dn < length (pending wr)")
    case False
    then have "rs = []" using rs(1) by (metis drop_all frames_empty_iff not_less)
    moreover have "write_from crc rt dn (wr, w) = (dn, (Inr (), (wr, w)))"
      using False by (simp add: write_from.simps [of crc rt dn wr w])
    ultimately show ?thesis
      using "1.prems" by (intro exI [of _ "[]"]) (auto simp: written_def seg_inv_close)
  next
    case lt: True
    obtain k where k: "k \<le> length rs" and b: "batch (pending wr) dn ?al (segment_bytes (cfg wr)) dn 0
        = Some (dn + length (frames crc (take k rs)), k)"
      using batch_frames [OF rs, of 0 ?al "segment_bytes (cfg wr)"] dn by auto
    let ?fin = "dn + length (frames crc (take k rs))"
    note step = write_from.simps [of crc rt dn wr w]
    show ?thesis
    proof (cases "?fin = dn")
      case True
      obtain rr wr1 w1 where ro: "rotate crc rt (wr, w) = (rr, (wr1, w1))" by (metis prod.exhaust)
      have rd: "rotated crc (wr, w) rr (wr1, w1)" by (rule rotate_effect [OF inv f ro])
      show ?thesis
      proof (cases rr)
        case (Inl e)
        then have "dn' = dn" "r = Inl e" "st' = (wr1, w1)"
          using "1.prems"(1) step lt ne b True ro by (auto simp: Let_def)
        then show ?thesis
          using rd Inl rs dn by (intro exI [of _ rs]) (auto simp: rotated_def written_def intro: shrinks_append)
      next
        case (Inr rm)
        show ?thesis
        proof (cases rm)
          case Made
          have "write_from crc rt dn (wr1, w1) = (dn', (r, st'))"
            using "1.prems"(1) step lt ne b True ro Inr Made by (simp add: Let_def)
          then have "\<exists>rs'. written crc (wr1, w1) rs dn' r st' rs'"
            using "1.hyps"(1) [OF lt ne refl b refl True ro [symmetric] Inr Made] rd Inr rs dn
            by (auto simp: rotated_def)
          then show ?thesis
            using rd by (auto simp: rotated_def intro: written_trans shrinks_append)
        next
          case Full
          from rs rd obtain g where dp: "drop_pending rt dn wr1 = Some (wr1\<lparr>
              stats := (stats wr1)\<lparr>overflow_drops := overflow_drops (stats wr1) + length rs\<rparr>, drop_gap := g\<rparr>)"
            using drop_pending_frames [of dn wr1 crc rs rt] by (auto simp: rotated_def)
          have "dn' = length (pending wr)" "r = Inr ()" "st' = (wr1\<lparr>
              stats := (stats wr1)\<lparr>overflow_drops := overflow_drops (stats wr1) + length rs\<rparr>, drop_gap := g\<rparr>, w1)"
            using "1.prems"(1) step lt ne b True ro Inr Full dp rd by (auto simp: Let_def rotated_def)
          moreover have "shrinks (losses wr1) (disk_log crc wr1 w1 @ rs)
              (losses wr1 + length rs) (disk_log crc wr1 w1)"
            by (auto simp: shrinks_def)
          ultimately show ?thesis
            using rd Inr by (intro exI [of _ "[]"])
              (auto simp: rotated_def written_def losses_def seg_inv_close add.assoc
                dest: shrinks_append [where zs = rs] elim!: shrinks_trans)
        qed
      qed
    next
      case nf: False
      obtain n pos where fp: "active_file wr = Some (n, pos)" using f by auto
      have sl: "slice_get (pending wr) dn ?fin = Some (frames crc (take k rs))"
      proof -
        have "frames crc rs = frames crc (take k rs) @ frames crc (drop k rs)"
          by (metis append_take_drop_id frames_simps(3))
        then have "drop dn (pending wr) = frames crc (take k rs) @ frames crc (drop k rs)"
          using rs by simp
        moreover from this have "length (pending wr) - dn \<ge> length (frames crc (take k rs))"
          by (metis le_add1 length_append length_drop)
        ultimately show ?thesis using lt by (simp add: slice_get_def)
      qed
      have okk: "list_all payload_ok (take k rs)" "list_all payload_ok (drop k rs)"
        using rs(2) by (auto simp: list_all_iff dest: in_set_takeD in_set_dropD)
      let ?bl = "length (frames crc (take k rs))"
      let ?wr1 = "(set_active_len (?al + ?bl) wr)\<lparr>active_file := Some (n, pos + ?bl), unsynced := True,
          stats := (stats wr)\<lparr>records_written := records_written (stats wr) + k,
                              bytes_written := bytes_written (stats wr) + ?bl\<rparr>\<rparr>"
      have segs1: "segments ?wr1 = butlast (segments wr) @ [Segment (seq (last (segments wr))) (?al + ?bl)]"
        "active_file ?wr1 = Some (n, pos + ?bl)" by (simp_all add: set_active_len_def)
      obtain rw w1 where wa: "write_all (segment_path n) pos (frames crc (take k rs)) w = (rw, w1)"
        by fastforce
      note eff = write_batch_effect [OF inv fp okk(1) wa segs1]
      show ?thesis
      proof (cases rw)
        case (Inl e)
        then have "dn' = dn" "r = Inl (Io e)" "st' = (wr, w1)"
          using "1.prems"(1) step lt ne b nf fp sl wa by (auto simp: Let_def)
        then show ?thesis
          using eff(2) Inl rs dn by (intro exI [of _ rs]) (auto simp: written_def)
      next
        case (Inr u)
        have tup: "(Some (n, pos), Some (frames crc (take k rs))) =
            (active_file wr, slice_get (pending wr) dn ?fin)" using fp sl by simp
        have run: "write_from crc rt ?fin (?wr1, w1) = (dn', (r, st'))"
          using "1.prems"(1) step lt ne b nf fp sl wa Inr by (simp add: Let_def set_active_len_def)
        have dr: "drop ?fin (pending ?wr1) = frames crc (drop k rs)" "?fin \<le> length (pending ?wr1)"
          using drop_frames_take [OF rs(1), of k] sl by (simp_all add: set_active_len_def slice_get_Some_iff)
        have "\<exists>rs'. written crc (?wr1, w1) (drop k rs) dn' r st' rs'"
          using "1.hyps"(2) [OF lt ne refl b refl nf tup refl refl refl wa [symmetric] Inr, of "drop k rs"]
            f run eff(1) dr okk Inr by (simp add: Let_def set_active_len_def)
        then obtain rs' where w: "written crc (?wr1, w1) (drop k rs) dn' r st' rs'" by blast
        have "losses ?wr1 = losses wr" by (simp add: losses_def)
        moreover have "disk_log crc ?wr1 w1 @ drop k rs = disk_log crc wr w @ rs"
          using eff(1) Inr by simp
        ultimately show ?thesis
          using written_trans [OF w, of wr w rs] by (auto simp: set_active_len_def)
      qed
    qed
  qed
qed

end
