(* ===== verification/Buf_Writer_Ops.thy ===== *)
theory Buf_Writer_Ops
  imports Buf_Writer_Inv
begin

text \<open>
  The writer's public operations keep its invariant and its log, whatever the file system does:
  \<open>tick\<close>, \<open>append\<close>, \<open>ack\<close>, \<open>take_gaps\<close> and \<open>close\<close> of \<open>crates/atlas-buffer/src/writer.rs\<close>.
  The log is what the segments hold followed by what is queued. No operation reorders it,
  invents a record or panics; a record leaves it only with a counter or with an acknowledgement.
\<close>

section \<open>Flushing\<close>

definition total_log :: "(bytes \<Rightarrow> u32) \<Rightarrow> writer \<Rightarrow> world \<Rightarrow> bytes list" where
  "total_log crc wr w = disk_log crc wr w @ queue crc wr"

text \<open>What a flush has done, failed or not.\<close>

definition flushed :: "(bytes \<Rightarrow> u32) \<Rightarrow> wstate \<Rightarrow> (wr_error + unit) \<Rightarrow> wstate \<Rightarrow> bool" where
  "flushed crc st r st' = (case (st, st') of ((wr, w), (wr', w')) \<Rightarrow>
     cfg wr' = cfg wr \<and> r \<noteq> Inl Panic \<and> pend_inv crc wr' \<and> seg_inv_closed crc wr' w' \<and>
     shrinks (losses wr) (total_log crc wr w) (losses wr') (total_log crc wr' w') \<and>
     (r = Inr () \<longrightarrow> seg_inv crc wr' w' \<and> pending wr' = []))"

lemma pend_inv_queue: "pend_inv crc wr \<Longrightarrow> pending wr = frames crc (queue crc wr) \<and> list_all payload_ok (queue crc wr)"
  by (auto simp: pend_inv_def queue_frames)

lemma queue_cong: "pending wr' = pending wr \<Longrightarrow> queue crc wr' = queue crc wr"
  by (simp add: queue_def)

lemma pend_inv_cong: "pending wr' = pending wr \<Longrightarrow> pend_inv crc wr' = pend_inv crc wr"
  by (simp add: pend_inv_def)

lemma queue_empty [simp]: "pending wr = [] \<Longrightarrow> queue crc wr = []"
  using queue_frames [of wr crc "[]"] by simp

lemma write_pending_effect:
  assumes "write_pending crc rt (wr, w) = (r, st')"
    and "seg_inv crc wr w" "pend_inv crc wr" "active_file wr \<noteq> None"
  shows "flushed crc (wr, w) r st' \<and> (r = Inr () \<longrightarrow> active_file (fst st') \<noteq> None)"
proof -
  obtain dn r1 wr1 w1 where wf: "write_from crc rt 0 (wr, w) = (dn, (r1, (wr1, w1)))"
    by (metis prod.exhaust)
  then have st': "r = r1" "st' = (wr1\<lparr>pending := drop dn (pending wr1)\<rparr>, w1)"
    using assms(1) by (auto simp: write_pending_def)
  have q: "drop 0 (pending wr) = frames crc (queue crc wr)" "list_all payload_ok (queue crc wr)"
    using pend_inv_queue [OF assms(3)] by (simp_all only: drop_0)
  obtain rs where rs: "written crc (wr, w) (queue crc wr) dn r1 (wr1, w1) rs"
    using write_from_effect [OF wf assms(2,4) q] by auto
  let ?wr = "wr1\<lparr>pending := drop dn (pending wr1)\<rparr>"
  have p: "pending ?wr = frames crc rs" "list_all payload_ok rs"
    using rs by (auto simp: written_def)
  then have "queue crc ?wr = rs" by (rule queue_frames)
  moreover have "pend_inv crc ?wr" using p by (auto simp: pend_inv_def)
  moreover have "losses ?wr = losses wr1" "disk_log crc ?wr w1 = disk_log crc wr1 w1"
    by (simp_all add: losses_def disk_log_def)
  moreover have "seg_inv_closed crc ?wr w1 = seg_inv_closed crc wr1 w1" "seg_inv crc ?wr w1 = seg_inv crc wr1 w1"
    by (simp_all add: seg_inv_closed_def seg_inv_def)
  ultimately show ?thesis
    using rs p by (auto simp: st' flushed_def written_def total_log_def)
qed

lemma opened_flushed:
  assumes "opened crc (wr, w) r (wr', w')" "pend_inv crc wr"
  shows "cfg wr' = cfg wr \<and> pend_inv crc wr' \<and> losses wr' = losses wr \<and>
    total_log crc wr' w' = total_log crc wr w"
proof -
  from assms have "wr_frame wr wr'" "disk_log crc wr' w' = disk_log crc wr w"
    by (simp_all add: opened_def)
  then show ?thesis
    using assms(2) queue_cong [of wr' wr] pend_inv_cong [of wr' wr]
    by (simp add: wr_frame_def total_log_def losses_def)
qed

lemma flushed_cong:
  assumes "flushed crc (wr1, w1) r st'"
    and "cfg wr1 = cfg wr" "losses wr1 = losses wr" "total_log crc wr1 w1 = total_log crc wr w"
  shows "flushed crc (wr, w) r st'"
  using assms by (auto simp: flushed_def)

text \<open>The tail of a flush: sync what was written.\<close>

definition sync_step :: "wstate \<Rightarrow> unit wres" where
  "sync_step st = (case st of (wr, w) \<Rightarrow>
     if unsynced wr then
       if active_file wr = None then (Inl Panic, (wr, w))
       else and_then (lift_io sync (wr, w)) (\<lambda>_ (wr, w). (Inr (), (wr\<lparr>unsynced := False\<rparr>, w)))
     else (Inr (), (wr, w)))"

lemma sync_step_effect:
  assumes "sync_step (wr, w) = (r, (wr', w'))" "unsynced wr \<longrightarrow> active_file wr \<noteq> None"
  shows "r \<noteq> Inl Panic \<and> upto_fates w w' \<and> (\<exists>b. wr' = wr\<lparr>unsynced := b\<rparr>) \<and> (r = Inr () \<longrightarrow> \<not> unsynced wr')"
proof (cases "unsynced wr")
  case False
  then show ?thesis using assms(1) by (auto simp: sync_step_def intro: exI [of _ False])
next
  case True
  obtain rs ws where s: "sync w = (rs, ws)" by fastforce
  have "wr = wr\<lparr>unsynced := True\<rparr>" using True by simp
  then show ?thesis using assms True s sync_upto [OF s]
    by (cases rs) (auto simp: sync_step_def lift_io_def intro: exI [of _ True] exI [of _ False])
qed

lemma flush_now_steps:
  "flush_now crc rt (wr, w) =
     and_then
       (if active_file wr = None \<and> (pending wr \<noteq> [] \<or> unsynced wr) then open_active (wr, w)
        else (Inr (), (wr, w)))
       (\<lambda>_ st. and_then (if pending (fst st) \<noteq> [] then write_pending crc rt st else (Inr (), st))
       (\<lambda>_ st. sync_step st))"
  by (simp add: flush_now_def sync_step_def case_prod_beta' cong: and_then_cong if_cong)

lemma sync_step_flushed:
  assumes "sync_step (wr1, w1) = (r, st')" "unsynced wr1 \<longrightarrow> active_file wr1 \<noteq> None"
    and "flushed crc (wr, w) (Inr ()) (wr1, w1)"
  shows "flushed crc (wr, w) r st' \<and> (r = Inr () \<longrightarrow> \<not> unsynced (fst st'))"
proof -
  obtain wr' w' where st': "st' = (wr', w')" by fastforce
  from sync_step_effect [OF assms(1,2) [unfolded st']] obtain b
    where b: "r \<noteq> Inl Panic" "upto_fates w1 w'" "wr' = wr1\<lparr>unsynced := b\<rparr>" "r = Inr () \<longrightarrow> \<not> unsynced wr'"
    by blast
  have "total_log crc wr' w' = total_log crc wr1 w1" "losses wr' = losses wr1" "pend_inv crc wr' = pend_inv crc wr1"
    "seg_inv crc wr' w' = seg_inv crc wr1 w1"
    using b(2) by (simp_all add: b(3) total_log_def disk_log_upto queue_def losses_def pend_inv_def
        seg_inv_upto)
  then show ?thesis
    using assms(3) b by (auto simp: flushed_def st' seg_inv_close)
qed

lemma flush_effect:
  assumes "writer_inv crc wr w" "flush_now crc rt (wr, w) = (r, st')"
  shows "flushed crc (wr, w) r st' \<and> (r = Inr () \<longrightarrow> \<not> unsynced (fst st'))"
proof -
  from assms(1) have inv: "seg_inv crc wr w" "pend_inv crc wr" by (simp_all add: writer_inv_def)
  let ?open = "if active_file wr = None \<and> (pending wr \<noteq> [] \<or> unsynced wr) then open_active (wr, w)
    else (Inr (), (wr, w))"
  from assms(2) [unfolded flush_now_steps] show ?thesis
  proof (cases rule: and_then_cases)
    case (stop e)
    then have o: "opened crc (wr, w) r st'" using inv
      by (cases st') (auto split: if_splits intro: open_active_opened)
    obtain wr' w' where st': "st' = (wr', w')" by fastforce
    note f = opened_flushed [OF o [unfolded st'] inv(2)]
    from o have "r \<noteq> Inl Panic" "seg_inv_closed crc wr' w'" by (simp_all add: opened_def st')
    then show ?thesis using f stop by (simp add: flushed_def st')
  next
    case (continue u st1)
    obtain wr1 w1 where st1: "st1 = (wr1, w1)" by fastforce
    have one: "seg_inv crc wr1 w1 \<and> pend_inv crc wr1 \<and> cfg wr1 = cfg wr \<and> losses wr1 = losses wr \<and>
      total_log crc wr1 w1 = total_log crc wr w \<and> (pending wr1 \<noteq> [] \<or> unsynced wr1 \<longrightarrow> active_file wr1 \<noteq> None)"
    proof (cases "active_file wr = None \<and> (pending wr \<noteq> [] \<or> unsynced wr)")
      case True
      then have o: "opened crc (wr, w) (Inr ()) (wr1, w1)"
        using continue(1) st1 inv open_active_opened by auto
      from o have "seg_inv crc wr1 w1" "active_file wr1 \<noteq> None" by (simp_all add: opened_def)
      then show ?thesis using opened_flushed [OF o inv(2)] by simp
    next
      case False
      then show ?thesis using continue(1) st1 inv by auto
    qed
    from continue(2) show ?thesis
    proof (cases rule: and_then_cases)
      case (stop e)
      then have "write_pending crc rt (wr1, w1) = (r, st')" "pending wr1 \<noteq> []"
        using st1 by (auto split: if_splits)
      then show ?thesis using write_pending_effect [of crc rt wr1 w1 r st'] one stop
        by (auto intro: flushed_cong)
    next
      case w: (continue v st2)
      obtain wr2 w2 where st2: "st2 = (wr2, w2)" by fastforce
      have "flushed crc (wr, w) (Inr ()) (wr2, w2) \<and> (unsynced wr2 \<longrightarrow> active_file wr2 \<noteq> None)"
      proof (cases "pending wr1 = []")
        case True
        then show ?thesis using w(1) st1 st2 one by (auto simp: flushed_def seg_inv_close)
      next
        case False
        then show ?thesis using write_pending_effect [of crc rt wr1 w1 "Inr ()" "(wr2, w2)"] w(1) st1 st2 one
          by (auto intro: flushed_cong)
      qed
      then show ?thesis using sync_step_flushed w(2) st2 by blast
    qed
  qed
qed


section \<open>The flush timer\<close>

text \<open>What an operation does to the log as a whole.\<close>

definition log_kept :: "(bytes \<Rightarrow> u32) \<Rightarrow> wstate \<Rightarrow> wstate \<Rightarrow> bool" where
  "log_kept crc st st' = (case (st, st') of ((wr, w), (wr', w')) \<Rightarrow>
     writer_inv crc wr' w' \<and> cfg wr' = cfg wr \<and>
     shrinks (losses wr) (total_log crc wr w) (losses wr') (total_log crc wr' w'))"

lemma flushed_kept:
  assumes "flushed crc (wr, w) r (wr1, w1)"
    and "active_file wr' = None \<or> r = Inr () \<and> active_file wr' = active_file wr1"
    and "cfg wr' = cfg wr1" "pending wr' = pending wr1" "losses wr' = losses wr1" "segments wr' = segments wr1"
  shows "log_kept crc (wr, w) (wr', w1)"
proof -
  have "total_log crc wr' w1 = total_log crc wr1 w1"
    using assms queue_cong [of wr' wr1] disk_log_cong [of wr' wr1] by (simp add: total_log_def)
  moreover have "pend_inv crc wr'"
    using assms pend_inv_cong [of wr' wr1] by (simp add: flushed_def)
  moreover have "seg_inv crc wr' w1"
    using assms(2)
  proof
    assume "active_file wr' = None"
    then show ?thesis using assms seg_inv_cong [of wr' "wr1\<lparr>active_file := None\<rparr>"]
      by (simp add: flushed_def seg_inv_closed_def)
  next
    assume "r = Inr () \<and> active_file wr' = active_file wr1"
    then show ?thesis using assms seg_inv_cong [of wr' wr1] by (simp add: flushed_def)
  qed
  ultimately show ?thesis using assms by (simp add: flushed_def log_kept_def writer_inv_def)
qed

lemma writer_inv_last_flush [simp]: "writer_inv crc (wr\<lparr>last_flush := t\<rparr>) w = writer_inv crc wr w"
  by (simp add: writer_inv_def seg_inv_def pend_inv_def)

definition tick_due :: "nat \<Rightarrow> writer \<Rightarrow> bool" where
  "tick_due now wr \<longleftrightarrow> (case retry_at wr of
     Some t \<Rightarrow> t \<le> now
   | None \<Rightarrow> (case last_flush wr of None \<Rightarrow> True | Some t \<Rightarrow> now - t \<ge> flush_interval (cfg wr)) \<or>
       length (pending wr) \<ge> backlog_bytes (cfg wr) div 2)"

lemma tick_idle: "\<not> tick_due now wr \<Longrightarrow> tick crc rt now (wr, w) = (Inr (), (wr, w))"
  by (auto simp: tick_def tick_due_def is_none_or_def split: option.splits)

lemma tick_flushes:
  assumes "tick_due now wr" "flush_now crc rt (wr\<lparr>last_flush := Some now\<rparr>, w) = (r, (wr1, w1))"
  shows "tick crc rt now (wr, w) = (case r of
      Inr _ \<Rightarrow> (Inr (), (case retry_at wr1 of None \<Rightarrow> wr1
         | Some _ \<Rightarrow> wr1\<lparr>retry_at := None,
             stats := (stats wr1)\<lparr>recoveries := recoveries (stats wr1) + 1\<rparr>\<rparr>, w1))
    | Inl Panic \<Rightarrow> (Inl Panic, (wr1, w1))
    | Inl (Io e) \<Rightarrow> (Inl (Io e), (wr1\<lparr>active_file := None, retry_at := Some (now + retry_interval (cfg wr1)),
         stats := (stats wr1)\<lparr>write_errors := write_errors (stats wr1) + 1\<rparr>\<rparr>, w1)))"
proof -
  have "\<not> (case retry_at wr of Some t \<Rightarrow> now < t
      | None \<Rightarrow> \<not> is_none_or (last_flush wr) (\<lambda>t. now - t \<ge> flush_interval (cfg wr)) \<and>
          \<not> length (pending wr) \<ge> backlog_bytes (cfg wr) div 2)"
    using assms(1) by (auto simp: tick_due_def is_none_or_def split: option.splits)
  then show ?thesis
    unfolding tick_def using assms(2) by (simp split: sum.splits wr_error.splits)
qed

lemma log_kept_refl: "writer_inv crc wr w \<Longrightarrow> log_kept crc (wr, w) (wr, w)"
  by (simp add: log_kept_def)

lemma tick_effect:
  assumes inv: "writer_inv crc wr w" and t: "tick crc rt now (wr, w) = (r, st')"
  shows "r \<noteq> Inl Panic \<and> log_kept crc (wr, w) st' \<and>
    (tick_due now wr \<and> r = Inr () \<longrightarrow> pending (fst st') = [] \<and> \<not> unsynced (fst st') \<and> retry_at (fst st') = None) \<and>
    (\<forall>e. r = Inl e \<longrightarrow> active_file (fst st') = None \<and> retry_at (fst st') = Some (now + retry_interval (cfg wr)))"
proof (cases "tick_due now wr")
  case False
  then show ?thesis using t inv by (auto simp: tick_idle log_kept_refl)
next
  case True
  let ?wr0 = "wr\<lparr>last_flush := Some now\<rparr>"
  obtain r1 wr1 w1 where f: "flush_now crc rt (?wr0, w) = (r1, (wr1, w1))" by (metis prod.exhaust)
  note st = tick_flushes [OF True f] t
  have "writer_inv crc ?wr0 w" using inv by simp
  note e = flush_effect [OF this f]
  have "total_log crc ?wr0 w = total_log crc wr w" "losses ?wr0 = losses wr" "cfg ?wr0 = cfg wr"
    by (simp_all add: total_log_def queue_def losses_def)
  then have fl: "flushed crc (wr, w) r1 (wr1, w1)"
    by (intro flushed_cong [OF e [THEN conjunct1]]) simp_all
  then have c: "cfg wr1 = cfg wr" by (simp add: flushed_def)
  show ?thesis
  proof (cases r1)
    case (Inl err)
    then obtain x where x: "err = Io x" using fl by (cases err) (auto simp: flushed_def)
    then have "r = Inl (Io x)" "st' = (wr1\<lparr>active_file := None,
        retry_at := Some (now + retry_interval (cfg wr1)),
        stats := (stats wr1)\<lparr>write_errors := write_errors (stats wr1) + 1\<rparr>\<rparr>, w1)"
      using st Inl by simp_all
    then show ?thesis using c by (auto intro!: flushed_kept [OF fl] simp: losses_def)
  next
    case (Inr u)
    let ?wr' = "case retry_at wr1 of None \<Rightarrow> wr1 | Some _ \<Rightarrow> wr1\<lparr>retry_at := None,
        stats := (stats wr1)\<lparr>recoveries := recoveries (stats wr1) + 1\<rparr>\<rparr>"
    from Inr st have "r = Inr ()" and st': "st' = (?wr', w1)" by simp_all
    moreover have "log_kept crc (wr, w) (?wr', w1)"
      using Inr by (intro flushed_kept [OF fl]) (auto simp: losses_def split: option.splits)
    moreover have "pending ?wr' = [] \<and> \<not> unsynced ?wr' \<and> retry_at ?wr' = None"
      using e Inr by (auto simp: flushed_def split: option.splits)
    ultimately show ?thesis by simp
  qed
qed

section \<open>Queueing\<close>

lemma append_record_effect:
  assumes inv: "pend_inv crc wr" and a: "append_record crc p wr = (r, wr')"
  shows "(case r of
      Inr _ \<Rightarrow> payload_ok p \<and> queue crc wr' = queue crc wr @ [p] \<and> pend_inv crc wr' \<and>
        length (pending wr') \<le> backlog_bytes (cfg wr) \<and> stats wr' = stats wr
    | Inl Rejected \<Rightarrow> \<not> payload_ok p \<and> pending wr' = pending wr \<and>
        rejected (stats wr') = rejected (stats wr) + 1
    | Inl BacklogFull \<Rightarrow> payload_ok p \<and> pending wr' = pending wr \<and>
        length (pending wr) + 8 + length p > backlog_bytes (cfg wr) \<and>
        backlog_drops (stats wr') = backlog_drops (stats wr) + 1) \<and>
    losses wr' = losses wr \<and> cfg wr' = cfg wr \<and> segments wr' = segments wr \<and>
    active_file wr' = active_file wr"
proof -
  have q: "pending wr = frames crc (queue crc wr) \<and> list_all payload_ok (queue crc wr)"
    by (rule pend_inv_queue [OF inv])
  obtain qs where qs: "queue crc wr = qs" by simp
  note q = q [unfolded qs]
  show ?thesis
  proof (cases "payload_ok p \<and> length (pending wr) + 8 + length p \<le> backlog_bytes (cfg wr)")
    case True
    then have ok: "payload_ok p" by simp
    from True a have r: "r = Inr ()" and wr': "wr' = wr\<lparr>pending := record_encode crc p (pending wr)\<rparr>"
      by (auto simp: append_record_def payload_ok_def RECORD_HEADER_def split: if_splits)
    have p: "pending wr' = frames crc (qs @ [p])"
      using q by (simp add: wr' record_encode_frame)
    have l: "list_all payload_ok (qs @ [p])" using q ok by simp
    have "pend_inv crc wr'" using p l unfolding pend_inv_def by blast
    moreover have "queue crc wr' = qs @ [p]" by (rule queue_frames [OF p l])
    moreover have "length (pending wr') \<le> backlog_bytes (cfg wr)"
      using True by (simp add: wr' record_encode_frame)
    moreover have "losses wr' = losses wr" by (simp add: wr' losses_def)
    ultimately show ?thesis using ok qs r by (simp add: wr')
  next
    case False
    then show ?thesis using a
      by (auto simp: append_record_def payload_ok_def RECORD_HEADER_def losses_def split: if_splits)
  qed
qed

lemma append_kept:
  assumes inv: "writer_inv crc wr w" and a: "append_record crc p wr = (r, wr')"
  shows "writer_inv crc wr' w \<and> cfg wr' = cfg wr \<and> losses wr' = losses wr \<and>
    total_log crc wr' w = total_log crc wr w @ (if r = Inr () then [p] else [])"
proof -
  from inv have i: "seg_inv crc wr w" "pend_inv crc wr" by (simp_all add: writer_inv_def)
  note e = append_record_effect [OF i(2) a]
  then have d: "disk_log crc wr' w = disk_log crc wr w" "seg_inv crc wr' w"
    using i seg_inv_cong [of wr' wr] disk_log_cong [of wr' wr] by simp_all
  show ?thesis
  proof (cases r)
    case (Inr u)
    then show ?thesis using e d by (simp add: writer_inv_def total_log_def)
  next
    case (Inl x)
    then have "pending wr' = pending wr" using e by (auto split: dropped.splits)
    then show ?thesis using e d Inl i queue_cong [of wr' wr] pend_inv_cong [of wr' wr]
      by (simp add: writer_inv_def total_log_def)
  qed
qed

lemma take_gaps_kept:
  assumes "writer_inv crc wr w" "take_gaps wr = (gs, wr')"
  shows "writer_inv crc wr' w \<and> cfg wr' = cfg wr \<and> losses wr' = losses wr \<and>
    total_log crc wr' w = total_log crc wr w"
proof -
  from assms(2) have "wr' = wr\<lparr>drop_gap := None, gaps := []\<rparr>"
    by (simp add: take_gaps_def Let_def)
  then show ?thesis using assms(1)
    by (simp add: writer_inv_def seg_inv_def pend_inv_def losses_def total_log_def queue_def disk_log_def)
qed


section \<open>Acknowledging\<close>

text \<open>What \<open>retain\<close> leaves: the segments it could not or must not delete, untouched.\<close>

definition erase :: "nat set \<Rightarrow> (string \<Rightarrow> node option) \<Rightarrow> string \<Rightarrow> node option" where
  "erase gone f = (\<lambda>p. if p \<in> segment_path ` gone then None else f p)"

lemma erase_empty [simp]: "erase {} f = f"
  by (simp add: erase_def fun_eq_iff)

lemma erase_insert: "erase gone (f(segment_path n := None)) = erase (insert n gone) f"
  by (auto simp: erase_def fun_eq_iff)

lemma retain_effect:
  assumes "retain_segments cur act ss w = ((ks, fails), w')" "distinct (map seq ss)"
  shows "\<exists>gone. gone \<subseteq> {n \<in> seq ` set ss. n < cur \<and> n \<noteq> act} \<and>
    ks = filter (\<lambda>s. seq s \<notin> gone) ss \<and> node_of w' = erase gone (node_of w) \<and>
    (fs_ok w \<longrightarrow> fs_ok w') \<and> fails + card gone = card {n \<in> seq ` set ss. n < cur \<and> n \<noteq> act}"
  using assms
proof (induction ss arbitrary: w ks fails)
  case Nil
  then show ?case by auto
next
  case (Cons s ss)
  let ?D = "\<lambda>xs. {n \<in> seq ` set xs. n < cur \<and> n \<noteq> act}"
  from Cons.prems(2) have new: "seq s \<notin> seq ` set ss" and dis: "distinct (map seq ss)" by auto
  have keep: "filter (\<lambda>t. seq t \<notin> insert (seq s) gone) ss = filter (\<lambda>t. seq t \<notin> gone) ss" for gone
    using new by (intro filter_cong refl) (metis imageI insert_iff)
  show ?case
  proof (cases "seq s \<ge> cur \<or> seq s = act")
    case True
    then have D: "?D (s # ss) = ?D ss" by auto
    obtain ks1 where r: "retain_segments cur act ss w = ((ks1, fails), w')" "ks = s # ks1"
      using Cons.prems(1) True by (auto split: prod.splits)
    from Cons.IH [OF r(1) dis] obtain gone where g: "gone \<subseteq> ?D ss" "ks1 = filter (\<lambda>s. seq s \<notin> gone) ss"
      "node_of w' = erase gone (node_of w)" "fs_ok w \<longrightarrow> fs_ok w'" "fails + card gone = card (?D ss)" by blast
    have "seq s \<notin> gone" using g(1) new by blast
    then show ?thesis using g D r(2) by (intro exI [of _ gone]) auto
  next
    case False
    then have D: "?D (s # ss) = insert (seq s) (?D ss)" and nD: "seq s \<notin> ?D ss" using new by auto
    then have card: "card (?D (s # ss)) = Suc (card (?D ss))" by simp
    obtain rr w1 where rm: "remove_segment (seq s) w = (rr, w1)" by fastforce
    note e = remove_segment_effect [OF rm]
    show ?thesis
    proof (cases rr)
      case (Inl err)
      then have u: "upto_fates w w1" using e by simp
      obtain ks1 f1 where r: "retain_segments cur act ss w1 = ((ks1, f1), w')" "ks = s # ks1" "fails = Suc f1"
        using Cons.prems(1) False rm Inl by (auto split: prod.splits)
      from Cons.IH [OF r(1) dis] obtain gone where g: "gone \<subseteq> ?D ss" "ks1 = filter (\<lambda>s. seq s \<notin> gone) ss"
        "node_of w' = erase gone (node_of w1)" "fs_ok w1 \<longrightarrow> fs_ok w'" "f1 + card gone = card (?D ss)" by blast
      have "seq s \<notin> gone" using g(1) new by blast
      then show ?thesis using g D r(2,3) card u
        by (intro exI [of _ gone]) (auto simp: upto_fates_node upto_fates_ok)
    next
      case (Inr x)
      then have u: "upto_fates (unlink (segment_path (seq s)) w) w1" using e by auto
      have r: "retain_segments cur act ss w1 = ((ks, fails), w')"
        using Cons.prems(1) False rm Inr by simp
      from Cons.IH [OF r dis] obtain gone where g: "gone \<subseteq> ?D ss" "ks = filter (\<lambda>s. seq s \<notin> gone) ss"
        "node_of w' = erase gone (node_of w1)" "fs_ok w1 \<longrightarrow> fs_ok w'" "fails + card gone = card (?D ss)" by blast
      have "seq s \<notin> gone" using g(1) nD by blast
      moreover have "finite gone" using g(1) finite_subset by fastforce
      moreover have "node_of w' = erase (insert (seq s) gone) (node_of w)"
        using g(3) upto_fates_node [OF u] by (simp add: erase_insert)
      ultimately show ?thesis using g D card keep [of gone] upto_fates_ok [OF u]
        by (intro exI [of _ "insert (seq s) gone"]) auto
    qed
  qed
qed

text \<open>Deleting some sealed segments keeps the invariant and the other segments' records.\<close>

lemma seg_inv_filter:
  assumes inv: "seg_inv crc wr w" and g: "seq (last (segments wr)) \<notin> gone"
    and node: "\<forall>n. n \<notin> gone \<longrightarrow> node_of w' (segment_path n) = node_of w (segment_path n)" and ok: "fs_ok w'"
    and wr': "segments wr' = filter (\<lambda>s. seq s \<notin> gone) (segments wr)" "active_file wr' = active_file wr"
  shows "seg_inv crc wr' w' \<and>
    disk_log crc wr' w' = concat (map (seg_log crc w) (filter (\<lambda>s. seq s \<notin> gone) (segments wr)))"
proof -
  from inv obtain ss a where s: "segments wr = ss @ [a]" "\<forall>s \<in> set ss. seq s < seq a"
    "\<forall>s \<in> set ss. sealed_ok w s" "active_ok crc w (active_file wr) a" by (rule seg_inv_split)
  let ?f = "filter (\<lambda>s. seq s \<notin> gone)"
  have segs: "segments wr' = ?f ss @ [a]" using g s(1) by (simp add: wr')
  have same: "node_of w' (segment_path (seq t)) = node_of w (segment_path (seq t))" if "t \<in> set (?f ss @ [a])" for t
    using that g node s(1) by auto
  have "sorted_wrt (<) (map seq ss)" "\<forall>t \<in> set (ss @ [a]). seq t \<le> U64_MAX"
    using inv s(1) by (simp_all add: seg_inv_def sorted_wrt_append)
  then have "sorted_wrt (<) (map seq (?f ss @ [a]))" "\<forall>t \<in> set (?f ss @ [a]). seq t \<le> U64_MAX"
    using s(2) by (auto simp: sorted_wrt_append sorted_wrt_map intro: sorted_wrt_filter)
  moreover have "\<forall>t \<in> set (?f ss). sealed_ok w' t"
    using s(3) same by (auto simp: sealed_ok_def)
  moreover have "active_ok crc w' (active_file wr) a"
    using s(4) same [of a] by (simp add: active_ok_def)
  ultimately have "seg_inv crc wr' w'" using ok by (simp add: seg_inv_def segs wr'(2))
  moreover have logs: "map (seg_log crc w') (?f ss @ [a]) = map (seg_log crc w) (?f ss @ [a])"
    by (intro map_cong refl seg_log_node_cong same)
  have "disk_log crc wr' w' = concat (map (seg_log crc w) (?f (segments wr)))"
    unfolding disk_log_def segs logs using g s(1) by simp
  then show ?thesis using calculation by blast
qed

lemma concat_filter_subseq: "subseq (concat (map f (filter P xs))) (concat (map f xs))"
  by (induction xs) (auto intro: list_emb_append_mono list_emb_append2)

text \<open>
  What an acknowledgement has done: it failed and changed nothing but the temporary file, or the
  cursor file holds the new position and some sealed segments wholly behind it are gone.
\<close>

definition acked_to :: "(bytes \<Rightarrow> u32) \<Rightarrow> cursor \<Rightarrow> wstate \<Rightarrow> (wr_error + unit) \<Rightarrow> wstate \<Rightarrow> bool" where
  "acked_to crc c st r st' = (case (st, st') of ((wr, w), (wr', w')) \<Rightarrow>
     (\<exists>gone. gone \<subseteq> {n. n < segment c \<and> n \<noteq> seq (last (segments wr))} \<and>
        segments wr' = filter (\<lambda>s. seq s \<notin> gone) (segments wr) \<and>
        (\<forall>n. n \<notin> gone \<longrightarrow> node_of w' (segment_path n) = node_of w (segment_path n)) \<and>
        disk_log crc wr' w' = concat (map (seg_log crc w) (segments wr')) \<and>
        (\<forall>e. r = Inl e \<longrightarrow> wr' = wr \<and> gone = {})) \<and>
     pending wr' = pending wr \<and> cfg wr' = cfg wr \<and> active_file wr' = active_file wr \<and>
     losses wr' = losses wr \<and> retry_at wr' = retry_at wr \<and>
     (r = Inr () \<longrightarrow> (\<exists>a. acked wr' = Some a \<and> c \<le> a)) \<and>
     (\<forall>a. acked wr = Some a \<longrightarrow> (\<exists>a'. acked wr' = Some a' \<and> a \<le> a')) \<and>
     (node_of w' CURSOR_FILE = node_of w CURSOR_FILE \<and> acked wr' = acked wr \<or>
      node_of w' CURSOR_FILE = Some (Regular (cursor_encode crc c)) \<and> acked wr' = Some c))"

lemma acked_nothing:
  assumes "seg_inv crc wr w" "frame_tmp w w'" "r = Inr () \<longrightarrow> (\<exists>a. acked wr = Some a \<and> c \<le> a)"
  shows "seg_inv crc wr w' \<and> acked_to crc c (wr, w) r (wr, w')"
proof -
  have n: "\<forall>n. n \<notin> {} \<longrightarrow> node_of w' (segment_path n) = node_of w (segment_path n)"
    and ok: "fs_ok w'" and cf: "node_of w' CURSOR_FILE = node_of w CURSOR_FILE"
    using assms by (simp_all add: frame_tmp_def seg_inv_def)
  note f = seg_inv_filter [OF assms(1) _ n ok, of wr]
  have "seq (last (segments wr)) \<notin> {}" by simp
  from f [OF this] have "seg_inv crc wr w'" "disk_log crc wr w' = concat (map (seg_log crc w) (segments wr))"
    by simp_all
  then show ?thesis using n cf assms(3)
    by (auto simp: acked_to_def intro!: exI [of _ "{}"])
qed

lemma ack_effect:
  assumes inv: "seg_inv crc wr w" and a: "ack crc c (wr, w) = (r, (wr', w'))"
  shows "r \<noteq> Inl Panic \<and> seg_inv crc wr' w' \<and> acked_to crc c (wr, w) r (wr', w')"
proof (cases "is_some_and (acked wr) (\<lambda>a. c \<le> a)")
  case True
  then have "r = Inr ()" "wr' = wr" "w' = w" using a by (auto simp: ack_def)
  then show ?thesis
    using acked_nothing [OF inv, of w r c] True by (auto simp: is_some_and_iff frame_tmp_def)
next
  case new: False
  from inv have ne: "segments wr \<noteq> []" by (simp add: seg_inv_def)
  show ?thesis
  proof (cases "segment c > seq (last (segments wr))")
    case True
    then have "r = Inl (Io InvalidInput)" "wr' = wr" "w' = w" using a new ne by (auto simp: ack_def)
    then show ?thesis using acked_nothing [OF inv, of w r c] by (auto simp: frame_tmp_def)
  next
    case False
    obtain rs w1 where cs: "cursor_store crc c w = (rs, w1)" by fastforce
    note e = cursor_store_effect [OF cs]
    show ?thesis
    proof (cases rs)
      case (Inl x)
      then have "r = Inl (Io x)" "wr' = wr" "w' = w1" using a new ne False cs by (auto simp: ack_def lift_io_def)
      then show ?thesis using acked_nothing [OF inv, of w1 r c] e Inl by auto
    next
      case (Inr u)
      obtain ks f w2 where rt: "retain_segments (segment c) (seq (last (segments wr))) (segments wr) w1 = ((ks, f), w2)"
        by (metis prod.exhaust)
      then have r: "r = Inr ()" "w' = w2" and wr': "wr' = wr\<lparr>acked := Some c, segments := ks,
          stats := (stats wr)\<lparr>delete_failures := delete_failures (stats wr) + f\<rparr>\<rparr>"
        using a new ne False cs Inr by (auto simp: ack_def lift_io_def Let_def)
      from inv have "distinct (map seq (segments wr))"
        unfolding seg_inv_def using strict_sorted_iff by blast
      from retain_effect [OF rt this] obtain gone where
        g: "gone \<subseteq> {n \<in> seq ` set (segments wr). n < segment c \<and> n \<noteq> seq (last (segments wr))}"
          "ks = filter (\<lambda>s. seq s \<notin> gone) (segments wr)" "node_of w2 = erase gone (node_of w1)"
          "fs_ok w1 \<longrightarrow> fs_ok w2" by blast
      have n1: "node_of w1 (segment_path n) = node_of w (segment_path n)" for n
        using e Inr by simp
      have n2: "\<forall>n. n \<notin> gone \<longrightarrow> node_of w2 (segment_path n) = node_of w (segment_path n)"
        by (auto simp: g(3) erase_def n1)
      have cf: "node_of w2 CURSOR_FILE = Some (Regular (cursor_encode crc c))"
        using e Inr by (auto simp: g(3) erase_def)
      have ok: "fs_ok w2" using inv e Inr g(4) by (simp add: seg_inv_def)
      have "seg_inv crc wr' w2 \<and> disk_log crc wr' w2 =
          concat (map (seg_log crc w) (filter (\<lambda>s. seq s \<notin> gone) (segments wr)))"
        by (rule seg_inv_filter [OF inv _ n2 ok]) (use g in \<open>auto simp: wr'\<close>)
      moreover have "\<forall>a. acked wr = Some a \<longrightarrow> a \<le> c" using new by (auto simp: is_some_and_iff)
      ultimately show ?thesis using g n2 cf r
        by (auto simp: acked_to_def wr' losses_def intro!: exI [of _ gone])
    qed
  qed
qed

lemma ack_kept:
  assumes inv: "writer_inv crc wr w" and a: "ack crc c (wr, w) = (r, (wr', w'))"
  shows "r \<noteq> Inl Panic \<and> writer_inv crc wr' w' \<and> cfg wr' = cfg wr \<and> losses wr' = losses wr \<and>
    queue crc wr' = queue crc wr \<and> subseq (total_log crc wr' w') (total_log crc wr w)"
proof -
  from inv have i: "seg_inv crc wr w" "pend_inv crc wr" by (simp_all add: writer_inv_def)
  note e = ack_effect [OF i(1) a]
  then obtain gone where g: "segments wr' = filter (\<lambda>s. seq s \<notin> gone) (segments wr)"
    "disk_log crc wr' w' = concat (map (seg_log crc w) (segments wr'))"
    and p: "pending wr' = pending wr" and "cfg wr' = cfg wr" "losses wr' = losses wr"
    unfolding acked_to_def by fastforce
  moreover have "subseq (disk_log crc wr' w') (disk_log crc wr w)"
    unfolding g(2) unfolding g(1) disk_log_def by (rule concat_filter_subseq)
  ultimately show ?thesis
    using e i queue_cong [OF p] pend_inv_cong [OF p] by (simp add: writer_inv_def total_log_def)
qed

end
