(* ===== verification/Buf_Writer_Open.thy ===== *)
theory Buf_Writer_Open
  imports Buf_Writer_Ops
begin

text \<open>
  \<open>Writer::open\<close> (\<open>crates/atlas-buffer/src/writer.rs\<close>): what recovery keeps. Whatever bytes the
  directory holds, a successful open establishes the writer's invariant; the log afterwards is
  what a scan finds in each segment left, newest included; the segments gone were wholly behind
  the cursor; and the new active segment sorts after every segment found and after the cursor.
\<close>

section \<open>Recovery of the newest segment\<close>

text \<open>The bytes under a name; none when there is no regular file.\<close>

definition bytes_at :: "world \<Rightarrow> string \<Rightarrow> bytes" where
  "bytes_at w p = (case node_of w p of Some (Regular b) \<Rightarrow> b | _ \<Rightarrow> [])"

lemma bytes_at_simp: "node_of w p = Some (Regular b) \<Longrightarrow> bytes_at w p = b"
  by (simp add: bytes_at_def)

lemma handle_data_regular: "node_of w p = Some (Regular b) \<Longrightarrow> handle_data w p = b"
  by (simp add: handle_data_def)

text \<open>Cutting a segment where its scan ends keeps what the scan found.\<close>

lemma scan_split:
  assumes "take (length SEGMENT_MAGIC) data = SEGMENT_MAGIC"
  obtains ps tail where "list_all payload_ok ps" "data = SEGMENT_MAGIC @ frames crc ps @ tail"
    "valid_end (scan crc data (length SEGMENT_MAGIC)) = 8 + length (frames crc ps)"
    "seg_payloads crc data = ps"
proof -
  let ?ve = "valid_end (scan crc data (length SEGMENT_MAGIC))"
  have len: "8 \<le> length data" using arg_cong [OF assms, of length] by simp
  from scan_loop_sound [of "min 8 (length data)" data crc "[]"] len
  obtain ps where ps: "list_all payload_ok ps" "8 \<le> ?ve" "?ve \<le> length data"
    "slice_of data 8 ?ve = frames crc ps" "payloads_at data (records (scan crc data 8)) = ps"
    by (auto simp: scan_def)
  have "data = take 8 data @ drop 8 data" by simp
  also have "drop 8 data = slice_of data 8 ?ve @ drop ?ve data"
    using ps(2) append_take_drop_id [of "?ve - 8" "drop 8 data"] by (simp add: slice_of_def)
  finally have "data = SEGMENT_MAGIC @ frames crc ps @ drop ?ve data" using assms ps(4) by simp
  moreover have "?ve = 8 + length (frames crc ps)"
    using arg_cong [OF ps(4), of length] ps(2,3) by (simp add: length_slice)
  ultimately show thesis
    using that ps assms by (simp add: seg_payloads_def SEGMENT_HEADER_def)
qed

lemma seg_payloads_not_magic:
  "\<not> (length data \<ge> length SEGMENT_MAGIC \<and> take (length SEGMENT_MAGIC) data = SEGMENT_MAGIC) \<Longrightarrow>
     seg_payloads crc data = []"
  by (auto simp: seg_payloads_def SEGMENT_HEADER_def dest: arg_cong [where f = length])

definition recovered :: "(bytes \<Rightarrow> u32) \<Rightarrow> string \<Rightarrow> world \<Rightarrow> nat option \<times> nat \<Rightarrow> world \<Rightarrow> bool" where
  "recovered crc p w lc w' \<longleftrightarrow>
     (\<exists>b. node_of w' = (node_of w)(p \<mapsto> Regular b) \<and>
        seg_payloads crc b = seg_payloads crc (bytes_at w p) \<and>
        (case fst lc of
           None \<Rightarrow> snd lc = 0 \<and> b = bytes_at w p \<and> seg_payloads crc b = []
         | Some l \<Rightarrow> length b = l \<and> length (bytes_at w p) \<le> l + snd lc)) \<and>
     (fs_ok w \<longrightarrow> fs_ok w')"

lemma recover_newest_effect:
  assumes "recover_newest crc n w = (Inr lc, w')"
  shows "recovered crc (segment_path n) w lc w'"
proof -
  let ?p = "segment_path n"
  from assms obtain w1 w2 data where o: "open_rw ?p w = (Inr (), w1)"
    and rd: "read_to_end ?p w1 = (Inr data, w2)"
    and rest: "(if length data \<ge> length SEGMENT_MAGIC \<and> take (length SEGMENT_MAGIC) data = SEGMENT_MAGIC then
          (let ve = valid_end (scan crc data (length SEGMENT_MAGIC)) in
           if ve < length data then
             and_then (set_len ?p ve w2) (\<lambda>_ w.
             and_then (sync w) (\<lambda>_ w. (Inr (Some ve, length data - ve), w)))
           else (Inr (Some ve, 0), w2))
        else if \<not> torn_header data then (Inr (None, 0), w2)
        else
          and_then (set_len ?p 0 w2) (\<lambda>_ w.
          and_then (seek w) (\<lambda>_ w.
          and_then (write_all ?p 0 SEGMENT_MAGIC w) (\<lambda>_ w.
          and_then (sync w) (\<lambda>_ w. (Inr (Some SEGMENT_HEADER, length data), w)))))) = (Inr lc, w')"
    by (auto simp: recover_newest_def Let_def and_then_eq_Inr)
  from o obtain v b where v: "upto_fates v w1" "v = w \<or> node_of w ?p = None \<and> v = put_file ?p (Regular []) w"
    "node_of v ?p = Some (Regular b)" by (elim open_rw_effect) auto
  have u2: "upto_fates v w2" and d: "data = b"
    using v read_to_end_upto [OF rd] upto_fates_trans handle_data_regular [of w1 ?p b]
    by (auto simp: upto_fates_node [OF v(1)])
  have b0: "bytes_at w ?p = b" using v(2,3) by (auto simp: bytes_at_def)
  have nv: "node_of v = (node_of w)(?p \<mapsto> Regular b)" using v(2,3) by auto
  have n2: "node_of w2 = (node_of w)(?p \<mapsto> Regular b)" using upto_fates_node [OF u2] nv by simp
  have ok2: "fs_ok w \<longrightarrow> fs_ok w2" using upto_fates_ok [OF u2] v(2) by auto
  show ?thesis
  proof (cases "length data \<ge> length SEGMENT_MAGIC \<and> take (length SEGMENT_MAGIC) data = SEGMENT_MAGIC")
    case True
    then obtain ps tail where ps: "list_all payload_ok ps" "b = SEGMENT_MAGIC @ frames crc ps @ tail"
      "valid_end (scan crc data (length SEGMENT_MAGIC)) = 8 + length (frames crc ps)"
      "seg_payloads crc b = ps" using d by (metis scan_split)
    show ?thesis
    proof (cases "8 + length (frames crc ps) < length data")
      case False
      then have "lc = (Some (8 + length (frames crc ps)), 0)" "w' = w2" "tail = []"
        using rest True ps(2) d unfolding ps(3) by (auto simp: Let_def)
      then show ?thesis using n2 ok2 b0 ps(2) by (auto simp: recovered_def)
    next
      case cut: True
      obtain w3 w4 where s: "set_len ?p (8 + length (frames crc ps)) w2 = (Inr (), w3)" "sync w3 = (Inr (), w')"
        "lc = (Some (8 + length (frames crc ps)), length data - (8 + length (frames crc ps)))"
        using rest True cut unfolding ps(3) by (auto simp: Let_def and_then_eq_Inr)
      have "upto_fates (on_file ?p (resize (8 + length (frames crc ps))) w2) w'"
        using set_len_effect [OF s(1)] sync_upto [OF s(2)] upto_fates_trans by blast
      moreover have "resize (8 + length (frames crc ps)) b = SEGMENT_MAGIC @ frames crc ps"
        using ps(2) by (simp add: resize_cut)
      ultimately have "node_of w' = (node_of w)(?p \<mapsto> Regular (SEGMENT_MAGIC @ frames crc ps))" "fs_ok w \<longrightarrow> fs_ok w'"
        using n2 ok2 by (auto simp: upto_fates_node upto_fates_ok node_of_on_file)
      then show ?thesis using b0 ps cut d
        by (auto simp: recovered_def s(3) intro!: exI [of _ "SEGMENT_MAGIC @ frames crc ps"])
    qed
  next
    case False
    then have none: "seg_payloads crc b = []" using seg_payloads_not_magic d by blast
    show ?thesis
    proof (cases "torn_header data")
      case nt: False
      then have "lc = (None, 0)" "w' = w2" using rest False by auto
      then show ?thesis using n2 ok2 b0 none by (auto simp: recovered_def)
    next
      case True
      obtain w3 w4 w5 where s: "set_len ?p 0 w2 = (Inr (), w3)" "seek w3 = (Inr (), w4)"
        "write_all ?p 0 SEGMENT_MAGIC w4 = (Inr (), w5)" "sync w5 = (Inr (), w')"
        "lc = (Some SEGMENT_HEADER, length data)"
        using rest False True by (auto simp: and_then_eq_Inr)
      have u3: "upto_fates (on_file ?p (resize 0) w2) w4"
        using set_len_effect [OF s(1)] seek_upto [OF s(2)] upto_fates_trans by blast
      then have n4: "node_of w4 = (node_of w)(?p \<mapsto> Regular [])"
        using n2 by (auto simp: upto_fates_node node_of_on_file resize_def)
      have "upto_fates (on_file ?p (overwrite 0 SEGMENT_MAGIC) w4) w'"
        using write_all_effect [OF s(3)] sync_upto [OF s(4)] upto_fates_trans by auto
      then have "node_of w' = (node_of w)(?p \<mapsto> Regular SEGMENT_MAGIC)" "fs_ok w \<longrightarrow> fs_ok w'"
        using n4 ok2 u3 by (auto simp: upto_fates_node upto_fates_ok node_of_on_file)
      then show ?thesis using b0 none d
        by (auto simp: recovered_def s(5) SEGMENT_HEADER_def)
    qed
  qed
qed

section \<open>The segments found\<close>

lemma open_segment_effect:
  assumes "open_segment crc newest n rec w = (Inr (l, rec'), w')"
  shows "\<exists>b. node_of w' = (node_of w)(segment_path n \<mapsto> Regular b) \<and> length b = l \<and>
    seg_payloads crc b = seg_payloads crc (bytes_at w (segment_path n)) \<and> (fs_ok w \<longrightarrow> fs_ok w')"
proof (cases newest)
  case False
  then have "segment_len (segment_path n) w = (Inr l, w')"
    using assms by (auto simp: open_segment_def and_then_eq_Inr)
  then obtain b where "upto_fates w w'" "node_of w (segment_path n) = Some (Regular b)" "l = length b"
    using segment_len_upto by blast
  then show ?thesis
    by (intro exI [of _ b]) (auto simp: upto_fates_node upto_fates_ok bytes_at_def)
next
  case True
  then obtain lo cut w1 where r: "recover_newest crc n w = (Inr (lo, cut), w1)"
    and rest: "(case lo of Some l \<Rightarrow> (Inr (l, rec\<lparr>truncated_bytes := truncated_bytes rec + cut\<rparr>), w1)
      | None \<Rightarrow> and_then (segment_len (segment_path n) w1) (\<lambda>l w. (Inr (l,
          rec\<lparr>truncated_bytes := truncated_bytes rec + cut, foreign_segment := Some n\<rparr>), w)))
      = (Inr (l, rec'), w')"
    using assms by (auto simp: open_segment_def and_then_eq_Inr Let_def)
  from recover_newest_effect [OF r] obtain b where
    b: "node_of w1 = (node_of w)(segment_path n \<mapsto> Regular b)"
      "seg_payloads crc b = seg_payloads crc (bytes_at w (segment_path n))"
      "\<And>l. lo = Some l \<Longrightarrow> length b = l" "fs_ok w \<longrightarrow> fs_ok w1"
    unfolding recovered_def by (fastforce split: option.splits)
  show ?thesis
  proof (cases lo)
    case (Some k)
    then show ?thesis using rest b by auto
  next
    case None
    then have "segment_len (segment_path n) w1 = (Inr l, w')" using rest by (auto simp: and_then_eq_Inr)
    then have "upto_fates w1 w'" "l = length b" using segment_len_upto b(1) by fastforce+
    then show ?thesis using b by (auto simp: upto_fates_node upto_fates_ok)
  qed
qed

text \<open>What the loop over the listed segments has done when it succeeds.\<close>

definition found :: "(bytes \<Rightarrow> u32) \<Rightarrow> cursor option \<Rightarrow> nat list \<Rightarrow> world \<Rightarrow> segment list \<Rightarrow> world \<Rightarrow> bool" where
  "found crc ackd ns w ss w' \<longleftrightarrow>
     (\<exists>gone. (\<forall>n \<in> gone. is_some_and ackd (\<lambda>c. n < segment c)) \<and> map seq ss = filter (\<lambda>n. n \<notin> gone) ns) \<and>
     (\<forall>s \<in> set ss. sealed_ok w' s \<and> seg_log crc w' s = seg_payloads crc (bytes_at w (segment_path (seq s)))) \<and>
     (\<forall>p. p \<notin> segment_path ` set ns \<longrightarrow> node_of w' p = node_of w p) \<and> (fs_ok w \<longrightarrow> fs_ok w')"

lemma seg_log_whole:
  "node_of w (segment_path (seq s)) = Some (Regular b) \<Longrightarrow> length b = len s \<Longrightarrow>
     sealed_ok w s \<and> seg_log crc w s = seg_payloads crc b"
  by (simp add: sealed_ok_def seg_log_def seg_data_def)

lemma found_skip:
  assumes "found crc ackd ns w1 ss w'" "n \<notin> set ns" "is_some_and ackd (\<lambda>c. n < segment c)"
    and "node_of w1 = (node_of w)(segment_path n := None)" "fs_ok w \<longrightarrow> fs_ok w1"
  shows "found crc ackd (n # ns) w ss w'"
proof -
  from assms(1) obtain gone where g: "\<forall>n \<in> gone. is_some_and ackd (\<lambda>c. n < segment c)"
    "map seq ss = filter (\<lambda>n. n \<notin> gone) ns" by (auto simp: found_def)
  have "filter (\<lambda>m. m \<notin> insert n gone) (n # ns) = filter (\<lambda>m. m \<notin> gone) ns"
    using assms(2) by (auto intro: filter_cong)
  then have "\<exists>gone. (\<forall>n \<in> gone. is_some_and ackd (\<lambda>c. n < segment c)) \<and>
      map seq ss = filter (\<lambda>m. m \<notin> gone) (n # ns)"
    using g assms(3) by (intro exI [of _ "insert n gone"]) auto
  moreover have "seq s \<noteq> n" if "s \<in> set ss" for s
    using that g(2) assms(2) by (metis filter_is_subset image_eqI list.set_map subsetD)
  then have "bytes_at w1 (segment_path (seq s)) = bytes_at w (segment_path (seq s))" if "s \<in> set ss" for s
    using that assms(4) by (simp add: bytes_at_def)
  ultimately show ?thesis using assms(1,4,5) by (auto simp: found_def)
qed

lemma found_keep:
  assumes f: "found crc ackd ns w1 ss w'" and n: "n \<notin> set ns"
    and node: "node_of w1 = (node_of w)(segment_path n \<mapsto> Regular b)" and ok: "fs_ok w \<longrightarrow> fs_ok w1"
    and b: "seg_payloads crc b = seg_payloads crc (bytes_at w (segment_path n))" "length b = l"
  shows "found crc ackd (n # ns) w (Segment n l # ss) w'"
proof -
  from f obtain gone where g: "\<forall>n \<in> gone. is_some_and ackd (\<lambda>c. n < segment c)"
    "map seq ss = filter (\<lambda>n. n \<notin> gone) ns" by (auto simp: found_def)
  have "filter (\<lambda>m. m \<notin> gone - {n}) ns = filter (\<lambda>m. m \<notin> gone) ns"
    using n by (auto intro: filter_cong)
  then have "\<exists>gone. (\<forall>n \<in> gone. is_some_and ackd (\<lambda>c. n < segment c)) \<and>
      map seq (Segment n l # ss) = filter (\<lambda>m. m \<notin> gone) (n # ns)"
    using g by (intro exI [of _ "gone - {n}"]) auto
  moreover have "segment_path n \<notin> segment_path ` set ns" using n by auto
  then have "node_of w' (segment_path n) = Some (Regular b)"
    using f node by (simp add: found_def)
  then have "sealed_ok w' (Segment n l) \<and> seg_log crc w' (Segment n l) = seg_payloads crc b"
    using b(2) by (intro seg_log_whole) simp_all
  moreover have "seq s \<noteq> n" if "s \<in> set ss" for s
    using that g(2) n by (metis filter_is_subset image_eqI list.set_map subsetD)
  then have "bytes_at w1 (segment_path (seq s)) = bytes_at w (segment_path (seq s))" if "s \<in> set ss" for s
    using that node by (simp add: bytes_at_def)
  ultimately show ?thesis using f node ok b by (auto simp: found_def)
qed

lemma open_loop_effect:
  assumes "open_loop crc ackd ns rec fails w = (Inr (ss, rec', fails'), w')" "distinct ns"
  shows "found crc ackd ns w ss w'"
  using assms
proof (induction ns arbitrary: rec fails w ss)
  case Nil
  then show ?case by (auto simp: found_def)
next
  case (Cons n ns)
  let ?b = "is_some_and ackd (\<lambda>c. n < segment c)"
  obtain rr w1 where rm: "(if ?b then remove_segment n w else (Inl OtherError, w)) = (rr, w1)" by fastforce
  show ?case
  proof (cases rr)
    case (Inr u)
    then have b: "?b" "remove_segment n w = (Inr (), w1)" using rm by (auto split: if_splits)
    then have u: "upto_fates (unlink (segment_path n) w) w1" using remove_segment_effect by fastforce
    have "open_loop crc ackd ns rec fails w1 = (Inr (ss, rec', fails'), w')"
      using Cons.prems(1) rm Inr by (simp add: Let_def)
    from Cons.IH [OF this] Cons.prems(2) have "found crc ackd ns w1 ss w'" by simp
    then show ?thesis
      using Cons.prems(2) b upto_fates_node [OF u] upto_fates_ok [OF u] by (intro found_skip) auto
  next
    case (Inl e)
    have u: "upto_fates w w1"
      using rm Inl remove_segment_effect [of n w] by (auto split: if_splits)
    obtain l rec1 w2 ss1 where os: "open_segment crc (ns = []) n rec w1 = (Inr (l, rec1), w2)"
      and ol: "open_loop crc ackd ns rec1 (if ?b then fails + 1 else fails) w2 = (Inr (ss1, rec', fails'), w')"
      and ss: "ss = Segment n l # ss1"
      using Cons.prems(1) rm Inl by (auto simp: Let_def and_then_eq_Inr)
    from open_segment_effect [OF os] obtain b where b: "node_of w2 = (node_of w)(segment_path n \<mapsto> Regular b)"
      "length b = l" "seg_payloads crc b = seg_payloads crc (bytes_at w (segment_path n))" "fs_ok w \<longrightarrow> fs_ok w2"
      by (auto simp: upto_fates_node [OF u] upto_fates_ok [OF u] bytes_at_def)
    from Cons.IH [OF ol] Cons.prems(2) have "found crc ackd ns w2 ss1 w'" by simp
    then show ?thesis
      unfolding ss using Cons.prems(2) b by (intro found_keep) auto
  qed
qed

section \<open>Opening\<close>

lemma prepare_dir_upto:
  "prepare_dir w = (r, w') \<Longrightarrow> node_of w' = node_of w \<and> fs_ok w' = fs_ok w"
  unfolding prepare_dir_def Let_def io_call_def next_fate_def
  by (auto split: prod.splits sum.splits if_splits list.splits fate.splits simp: fs_ok_def node_of_def fun_eq_iff)

lemma next_seq_Inr: "next_seq n = Inr m \<longleftrightarrow> m = Suc n \<and> n < U64_MAX"
  by (auto simp: next_seq_def checked_succ_def split: option.splits)

lemma writer_open_effect:
  assumes o: "writer_open crc c w = (Inr (wr, rec), w')" and ok: "fs_ok w"
  shows "writer_inv crc wr w' \<and> queue crc wr = [] \<and> losses wr = 0 \<and> cfg wr = c \<and> validate c = Inr () \<and>
    (\<exists>seqs gone. sorted seqs \<and> distinct seqs \<and>
       set seqs = {n. n \<le> U64_MAX \<and> node_of w (segment_path n) \<noteq> None} \<and>
       (\<forall>n \<in> gone. is_some_and (acked wr) (\<lambda>a. n < segment a)) \<and>
       map seq (butlast (segments wr)) = filter (\<lambda>n. n \<notin> gone) seqs \<and>
       disk_log crc wr w' = concat (map (\<lambda>n. seg_payloads crc (bytes_at w (segment_path n))) (filter (\<lambda>n. n \<notin> gone) seqs)) \<and>
       (\<forall>n \<in> set seqs. n < seq (last (segments wr))) \<and>
       (\<forall>a. acked wr = Some a \<longrightarrow> segment a < seq (last (segments wr))))"
proof -
  from o have val: "validate c = Inr ()"
    by (auto simp: writer_open_def split: sum.splits)
  from o obtain u w1 ld w2 seqs w3 where p: "prepare_dir w = (Inr u, w1)"
    and cl: "cursor_load crc w1 = (Inr ld, w2)" and ls: "list_segments w2 = (Inr seqs, w3)"
    and rest: "(let ackd = (case ld of Valid p \<Rightarrow> Some p | _ \<Rightarrow> None) in
      case next_seq (max (if seqs = [] then 0 else last seqs)
                           (case ackd of None \<Rightarrow> 0 | Some p \<Rightarrow> segment p)) of
          Inl e \<Rightarrow> (Inl e, w3)
        | Inr n \<Rightarrow>
      and_then (open_loop crc ackd seqs (recovery_default\<lparr>cursor_reset := (ld = Corrupt)\<rparr>) 0 w3) (\<lambda>(ss, rec, fails) w.
        (Inr (\<lparr>cfg = c, segments = ss @ [Segment n 0], active_file = None, unsynced = False,
               pending = [], acked = ackd, last_flush = None, retry_at = None,
               stats = stats_default\<lparr>delete_failures := fails\<rparr>, gaps = [], drop_gap = None\<rparr>,
              rec), w))) = (Inr (wr, rec), w')"
    unfolding writer_open_def val sum.case Let_def and_then_eq_Inr by blast
  obtain ackd where ackd: "(case ld of Valid p \<Rightarrow> Some p | _ \<Rightarrow> None) = ackd" by simp
  from rest obtain n ss fails where
    ns: "next_seq (max (if seqs = [] then 0 else last seqs)
        (case ackd of None \<Rightarrow> 0 | Some p \<Rightarrow> segment p)) = Inr n"
    and ol: "open_loop crc ackd seqs
        (recovery_default\<lparr>cursor_reset := (ld = Corrupt)\<rparr>) 0 w3 = (Inr (ss, rec, fails), w')"
    and wr: "wr = \<lparr>cfg = c, segments = ss @ [Segment n 0], active_file = None, unsynced = False,
               pending = [], acked = ackd, last_flush = None,
               retry_at = None, stats = stats_default\<lparr>delete_failures := fails\<rparr>, gaps = [], drop_gap = None\<rparr>"
    unfolding ackd Let_def by (cases "next_seq (max (if seqs = [] then 0 else last seqs)
        (case ackd of None \<Rightarrow> 0 | Some p \<Rightarrow> segment p))") (auto simp: and_then_eq_Inr)
  note l = set_list_segments [OF ls]
  note pd = prepare_dir_upto [OF p] and cu = cursor_load_upto [OF cl]
  have n2: "node_of w2 = node_of w" and ok2: "fs_ok w2"
    using pd upto_fates_node [OF cu] upto_fates_ok [OF cu] ok by simp_all
  from l have lu: "upto_fates w2 w3" by blast
  have n3: "node_of w3 = node_of w" and ok3: "fs_ok w3"
    using n2 ok2 upto_fates_node [OF lu] upto_fates_ok [OF lu] by simp_all
  have seqs: "set seqs = {s. s \<le> U64_MAX \<and> node_of w (segment_path s) \<noteq> None}" "sorted seqs" "distinct seqs"
    using l ok2 n2 by simp_all
  have big: "n \<le> U64_MAX" "\<forall>s \<in> set seqs. s < n" "\<forall>a. ackd = Some a \<longrightarrow> segment a < n"
  proof -
    from ns have m: "n = Suc (max (if seqs = [] then 0 else last seqs) (case ackd of None \<Rightarrow> 0 | Some p \<Rightarrow> segment p))"
      "n \<le> U64_MAX" by (simp_all add: next_seq_Inr)
    then show "n \<le> U64_MAX" by simp
    show "\<forall>s \<in> set seqs. s < n"
    proof
      fix s assume s: "s \<in> set seqs"
      then obtain xs x where x: "seqs = xs @ [x]" by (metis empty_iff empty_set rev_exhaust)
      with seqs(2) s have "s \<le> last seqs" by (auto simp: sorted_append)
      then show "s < n" using m(1) x by simp
    qed
    show "\<forall>a. ackd = Some a \<longrightarrow> segment a < n" using m by auto
  qed
  from open_loop_effect [OF ol seqs(3)] have f: "found crc ackd seqs w3 ss w'" by simp
  then obtain gone where g: "\<forall>n \<in> gone. is_some_and ackd (\<lambda>c. n < segment c)"
    "map seq ss = filter (\<lambda>n. n \<notin> gone) seqs" by (auto simp: found_def)
  have sub: "\<forall>s \<in> set ss. seq s \<in> set seqs"
    using g(2) by (metis filter_is_subset image_eqI list.set_map subsetD)
  have "sorted_wrt (<) seqs" using seqs(2,3) by (simp add: strict_sorted_iff)
  then have "sorted_wrt (<) (map seq ss)" unfolding g(2) by (rule sorted_wrt_filter)
  then have "seg_inv crc wr w'"
    using f ok3 sub big seqs(1) by (auto simp: seg_inv_def wr found_def active_ok_def sorted_wrt_append)
  moreover have "pend_inv crc wr" by (auto simp: pend_inv_def wr intro: exI [of _ "[]"])
  moreover have "disk_log crc wr w' = concat (map (\<lambda>n. seg_payloads crc (bytes_at w (segment_path n))) (map seq ss))"
  proof -
    have "map (seg_log crc w') ss = map (\<lambda>s. seg_payloads crc (bytes_at w (segment_path (seq s)))) ss"
      using f n3 by (intro map_cong) (auto simp: found_def bytes_at_def)
    from arg_cong [OF this, of concat] show ?thesis
      by (simp del: map_eq_conv add: disk_log_def wr seg_log_empty comp_def)
  qed
  ultimately show ?thesis
    using g big seqs
    by (auto simp: writer_inv_def val wr losses_def stats_default_def intro!: exI [of _ seqs] exI [of _ gone])
qed

end
