(* ===== verification/Buf_Writer_Run.thy ===== *)
theory Buf_Writer_Run
  imports Buf_Writer_Open
begin

text \<open>
  Runs of the writer: \<open>Writer::open\<close> followed by any sequence of the public operations of
  \<open>crates/atlas-buffer/src/writer.rs\<close>, with any file-system faults. The operations are the steps
  of a labelled relation, the labels saying what the caller saw; the properties of the component
  are stated over runs and over single operations.
\<close>

section \<open>Steps and runs\<close>

datatype event = Accepted bytes | Refused | Ticked | Acked | GapsTaken

inductive wstep :: "(bytes \<Rightarrow> u32) \<Rightarrow> (bytes \<Rightarrow> int option) \<Rightarrow> wstate \<Rightarrow> event \<Rightarrow> wstate \<Rightarrow> bool"
  for crc rt where
  accept: "append_record crc p wr = (Inr (), wr') \<Longrightarrow> wstep crc rt (wr, w) (Accepted p) (wr', w)"
| refuse: "append_record crc p wr = (Inl d, wr') \<Longrightarrow> wstep crc rt (wr, w) Refused (wr', w)"
| tick: "tick crc rt now (wr, w) = (r, st') \<Longrightarrow> wstep crc rt (wr, w) Ticked st'"
| ack: "ack crc c (wr, w) = (r, st') \<Longrightarrow> wstep crc rt (wr, w) Acked st'"
| gaps: "take_gaps wr = (gs, wr') \<Longrightarrow> wstep crc rt (wr, w) GapsTaken (wr', w)"

inductive wrun :: "(bytes \<Rightarrow> u32) \<Rightarrow> (bytes \<Rightarrow> int option) \<Rightarrow> wstate \<Rightarrow> event list \<Rightarrow> wstate \<Rightarrow> bool"
  for crc rt st where
  start: "wrun crc rt st [] st"
| step: "wrun crc rt st es st' \<Longrightarrow> wstep crc rt st' e st'' \<Longrightarrow> wrun crc rt st (es @ [e]) st''"

fun accepted :: "event list \<Rightarrow> bytes list" where
  "accepted [] = []"
| "accepted (Accepted p # es) = p # accepted es"
| "accepted (_ # es) = accepted es"

lemma accepted_append [simp]: "accepted (es @ fs) = accepted es @ accepted fs"
  by (induction es rule: accepted.induct) auto

lemma subseq_append_right: "subseq xs ys \<Longrightarrow> subseq (xs @ zs) (ys @ zs)"
  by simp

lemma wstep_effect:
  assumes s: "wstep crc rt (wr, w) e (wr', w')" and inv: "writer_inv crc wr w"
  shows "writer_inv crc wr' w' \<and> cfg wr' = cfg wr \<and> losses wr \<le> losses wr' \<and>
    subseq (total_log crc wr' w') (total_log crc wr w @ accepted [e]) \<and>
    (e \<noteq> Acked \<and> losses wr' = losses wr \<longrightarrow> total_log crc wr' w' = total_log crc wr w @ accepted [e])"
  using s
proof (cases rule: wstep.cases)
  case (accept p)
  then show ?thesis using append_kept [OF inv] by fastforce
next
  case (refuse p d)
  then show ?thesis using append_kept [OF inv] by fastforce
next
  case (tick now r)
  then show ?thesis using tick_effect [OF inv] by (fastforce simp: log_kept_def shrinks_def)
next
  case (ack c r)
  then show ?thesis using ack_kept [OF inv] by fastforce
next
  case (gaps gs)
  then show ?thesis using take_gaps_kept [OF inv] by fastforce
qed

lemma wrun_effect:
  assumes "wrun crc rt st0 es st" "st0 = (wr0, w0)" "st = (wr, w)" "writer_inv crc wr0 w0"
  shows "writer_inv crc wr w \<and> cfg wr = cfg wr0 \<and> losses wr0 \<le> losses wr \<and>
    subseq (total_log crc wr w) (total_log crc wr0 w0 @ accepted es) \<and>
    (Acked \<notin> set es \<and> losses wr = losses wr0 \<longrightarrow> total_log crc wr w = total_log crc wr0 w0 @ accepted es)"
  using assms
proof (induction arbitrary: wr w rule: wrun.induct)
  case start
  then show ?case by simp
next
  case (step es st' e st'')
  obtain wr1 w1 where st': "st' = (wr1, w1)" by fastforce
  from step have ih: "writer_inv crc wr1 w1 \<and> cfg wr1 = cfg wr0 \<and> losses wr0 \<le> losses wr1 \<and>
    subseq (total_log crc wr1 w1) (total_log crc wr0 w0 @ accepted es) \<and>
    (Acked \<notin> set es \<and> losses wr1 = losses wr0 \<longrightarrow> total_log crc wr1 w1 = total_log crc wr0 w0 @ accepted es)"
    using st' by blast
  from step.hyps(2) st' step.prems(2) have "wstep crc rt (wr1, w1) e (wr, w)" by simp
  from wstep_effect [OF this] ih
  have e: "writer_inv crc wr w" "cfg wr = cfg wr1" "losses wr1 \<le> losses wr"
    "subseq (total_log crc wr w) (total_log crc wr1 w1 @ accepted [e])"
    "e \<noteq> Acked \<and> losses wr = losses wr1 \<longrightarrow> total_log crc wr w = total_log crc wr1 w1 @ accepted [e]"
    by blast+
  have "subseq (total_log crc wr1 w1 @ accepted [e]) ((total_log crc wr0 w0 @ accepted es) @ accepted [e])"
    using ih by (intro subseq_append_right) blast
  with e(4) have "subseq (total_log crc wr w) (total_log crc wr0 w0 @ accepted (es @ [e]))"
    by (simp only: accepted_append append_assoc)
  then show ?case using e ih by auto
qed

section \<open>A concrete writer\<close>

text \<open>An empty directory, small segments and a constant checksum; the states of a short run.\<close>

definition demo_crc :: "bytes \<Rightarrow> u32" where "demo_crc _ = 7"
definition demo_time :: "bytes \<Rightarrow> int option" where "demo_time _ = None"

definition demo_config :: config where
  "demo_config = config_new\<lparr>segment_bytes := 30, cap_bytes := 120\<rparr>"

definition demo_world :: world where
  "demo_world = \<lparr>dir = PlainDir, files = [], unlinked = [], fates = []\<rparr>"

definition demo_open :: wstate where
  "demo_open = (case writer_open demo_crc demo_config demo_world of
     (Inr (wr, _), w) \<Rightarrow> (wr, w) | (Inl _, w) \<Rightarrow> undefined)"

definition demo_queued :: wstate where
  "demo_queued = (snd (append_record demo_crc [1, 2, 3] (fst demo_open)), snd demo_open)"

definition demo_written :: wstate where
  "demo_written = snd (tick demo_crc demo_time 5 demo_queued)"

lemma demo_opened:
  "writer_open demo_crc demo_config demo_world =
     (Inr (fst demo_open, recovery_default), snd demo_open)"
  unfolding demo_open_def by code_simp

lemma demo_append: "append_record demo_crc [1, 2, 3] (fst demo_open) = (Inr (), fst demo_queued)"
  unfolding demo_queued_def by code_simp

lemma demo_tick:
  "tick demo_crc demo_time 5 (fst demo_queued, snd demo_queued) = (Inr (), (fst demo_written, snd demo_written))"
  unfolding demo_written_def by code_simp

lemma demo_fs_ok [simp]: "fs_ok demo_world"
  by (simp add: fs_ok_def demo_world_def)

lemma demo_inv: "writer_inv demo_crc (fst demo_open) (snd demo_open)"
  "writer_inv demo_crc (fst demo_queued) (snd demo_queued)"
  "writer_inv demo_crc (fst demo_written) (snd demo_written)"
proof -
  show o: "writer_inv demo_crc (fst demo_open) (snd demo_open)"
    using writer_open_effect [OF demo_opened demo_fs_ok] by blast
  show q: "writer_inv demo_crc (fst demo_queued) (snd demo_queued)"
    using append_kept [OF o demo_append] by (simp add: demo_queued_def)
  show "writer_inv demo_crc (fst demo_written) (snd demo_written)"
    using tick_effect [OF q demo_tick] unfolding log_kept_def by (simp add: case_prod_beta)
qed

lemma demo_run: "wrun demo_crc demo_time (fst demo_open, snd demo_open) [Accepted [1, 2, 3], Ticked]
    (fst demo_written, snd demo_written)"
proof -
  have "wstep demo_crc demo_time (fst demo_open, snd demo_open) (Accepted [1, 2, 3]) (fst demo_queued, snd demo_open)"
    by (rule wstep.accept [OF demo_append])
  then have "wrun demo_crc demo_time (fst demo_open, snd demo_open) ([] @ [Accepted [1, 2, 3]])
      (fst demo_queued, snd demo_queued)"
    by (intro wrun.step [OF wrun.start]) (simp add: demo_queued_def)
  from wrun.step [OF this wstep.tick [OF demo_tick]] show ?thesis by simp
qed

section \<open>Properties\<close>

text \<open>What \<open>Writer::open\<close> finds in the directory: the records of each listed segment, in order.\<close>

definition found_log :: "(bytes \<Rightarrow> u32) \<Rightarrow> world \<Rightarrow> nat list \<Rightarrow> bytes list" where
  "found_log crc w seqs = concat (map (\<lambda>n. seg_payloads crc (bytes_at w (segment_path n))) seqs)"

definition listed :: "world \<Rightarrow> nat set \<Rightarrow> nat list" where
  "listed w gone = filter (\<lambda>n. n \<notin> gone) (segment_seqs (map fst (files w)))"

lemma open_log:
  assumes "writer_open crc c w = (Inr (wr, rec), w')" and ok: "fs_ok w"
  shows "\<exists>gone. (\<forall>n \<in> gone. is_some_and (acked wr) (\<lambda>a. n < segment a)) \<and>
    map seq (butlast (segments wr)) = listed w gone \<and>
    disk_log crc wr w' = found_log crc w (listed w gone)"
proof -
  from writer_open_effect [OF assms] obtain seqs gone where s: "sorted seqs" "distinct seqs"
    "set seqs = {n. n \<le> U64_MAX \<and> node_of w (segment_path n) \<noteq> None}"
    and g: "\<forall>n \<in> gone. is_some_and (acked wr) (\<lambda>a. n < segment a)"
    "map seq (butlast (segments wr)) = filter (\<lambda>n. n \<notin> gone) seqs"
    "disk_log crc wr w' = concat (map (\<lambda>n. seg_payloads crc (bytes_at w (segment_path n))) (filter (\<lambda>n. n \<notin> gone) seqs))"
    by blast
  have "seqs = segment_seqs (map fst (files w))"
    using s ok by (intro sorted_distinct_set_unique)
      (auto simp: segment_seqs_sorted fs_ok_def segment_seqs_distinct set_segment_seqs names_in_dom simp del: set_map)
  then show ?thesis using g unfolding listed_def found_log_def by blast
qed

text \<open>C1: whatever faults the file system throws, from a successful \<open>open\<close> on, after any sequence
  of \<open>append\<close>, \<open>tick\<close>, \<open>ack\<close> and \<open>take_gaps\<close>: the log (what the segments hold, then what is
  queued) is a subsequence of what was found on disk followed by the accepted records in the order
  they were accepted (nothing invented, duplicated or reordered); and as long as no eviction or
  overflow counter has moved and nothing was acknowledged, no record is missing.\<close>

theorem writer_run_log:
  assumes "fs_ok w" and "writer_open crc c w = (Inr (wr0, rec), w0)"
    and "wrun crc rt (wr0, w0) es (wr, w')"
  shows "writer_inv crc wr w' \<and>
    (\<exists>gone. (\<forall>n \<in> gone. is_some_and (acked wr0) (\<lambda>a. n < segment a)) \<and>
       subseq (total_log crc wr w') (found_log crc w (listed w gone) @ accepted es) \<and>
       (Acked \<notin> set es \<and> losses wr = 0 \<longrightarrow>
          total_log crc wr w' = found_log crc w (listed w gone) @ accepted es))"
proof -
  from writer_open_effect [OF assms(2,1)] have inv: "writer_inv crc wr0 w0" "queue crc wr0 = []" "losses wr0 = 0"
    by blast+
  from open_log [OF assms(2,1)] obtain gone where "\<forall>n \<in> gone. is_some_and (acked wr0) (\<lambda>a. n < segment a)"
    "disk_log crc wr0 w0 = found_log crc w (listed w gone)" by blast
  then show ?thesis
    using wrun_effect [OF assms(3) refl refl inv(1)] inv by (auto simp: total_log_def)
qed


theorem writer_run_log_witness:
  "total_log demo_crc (fst demo_written) (snd demo_written) = [[1, 2, 3]] \<and>
   writer_inv demo_crc (fst demo_written) (snd demo_written)"
proof -
  have "losses (fst demo_written) = 0" "acked (fst demo_open) = None" by code_simp+
  moreover have "found_log demo_crc demo_world (listed demo_world {}) = []"
    by (simp add: found_log_def listed_def demo_world_def segment_seqs_def map_filter_simps)
  ultimately show ?thesis
    using writer_run_log [OF demo_fs_ok demo_opened demo_run] by auto
qed

text \<open>C3: one \<open>tick\<close>, under any faults. It never panics and keeps the invariant; records leave the
  log only with an eviction or overflow counter, and what stays keeps its order. When a flush is
  due and succeeds, nothing is left queued or unsynced and the failing mode ends; when it fails,
  the handle is dropped and the retry is scheduled; when none is due, nothing happens.\<close>

theorem tick_outcome:
  assumes "writer_inv crc wr w" and "tick crc rt now (wr, w) = (r, (wr', w'))"
  shows "r \<noteq> Inl Panic \<and> writer_inv crc wr' w' \<and>
    subseq (total_log crc wr' w') (total_log crc wr w) \<and>
    (losses wr' = losses wr \<longrightarrow> total_log crc wr' w' = total_log crc wr w) \<and>
    (if \<not> tick_due now wr then r = Inr () \<and> wr' = wr \<and> w' = w
     else case r of
       Inr _ \<Rightarrow> pending wr' = [] \<and> \<not> unsynced wr' \<and> retry_at wr' = None \<and>
                total_log crc wr' w' = disk_log crc wr' w'
     | Inl _ \<Rightarrow> active_file wr' = None \<and> retry_at wr' = Some (now + retry_interval (cfg wr)))"
  using tick_effect [OF assms] tick_idle [of now wr crc rt w] assms(2)
  by (auto simp: log_kept_def shrinks_def total_log_def split: sum.splits)

theorem tick_outcome_witness:
  "disk_log demo_crc (fst demo_written) (snd demo_written) =
     total_log demo_crc (fst demo_queued) (snd demo_queued) \<and> pending (fst demo_written) = []"
proof -
  have "losses (fst demo_written) = losses (fst demo_queued)" "tick_due 5 (fst demo_queued)" by code_simp+
  with tick_outcome [OF demo_inv(2) demo_tick] show ?thesis by auto
qed

text \<open>C11: \<open>append\<close> queues a payload exactly when it is not empty, not too large and fits the backlog;
  the queue then grows by that record and stays within the bound. Each refusal is counted under
  its reason and leaves the queue alone.\<close>

theorem append_outcome:
  assumes "writer_inv crc wr w" and "append_record crc p wr = (r, wr')"
  shows "writer_inv crc wr' w \<and> segments wr' = segments wr \<and>
    (case r of
       Inr _ \<Rightarrow> payload_ok p \<and> queue crc wr' = queue crc wr @ [p] \<and>
         length (pending wr') \<le> backlog_bytes (cfg wr)
     | Inl Rejected \<Rightarrow> \<not> payload_ok p \<and> queue crc wr' = queue crc wr \<and>
         rejected (stats wr') = rejected (stats wr) + 1
     | Inl BacklogFull \<Rightarrow> payload_ok p \<and> queue crc wr' = queue crc wr \<and>
         length (pending wr) + 8 + length p > backlog_bytes (cfg wr) \<and>
         backlog_drops (stats wr') = backlog_drops (stats wr) + 1)"
proof -
  from assms(1) have "pend_inv crc wr" by (simp add: writer_inv_def)
  from append_record_effect [OF this assms(2)] append_kept [OF assms] queue_cong [of wr' wr crc]
  show ?thesis by (simp split: sum.splits dropped.splits)
qed

theorem append_outcome_witness:
  "queue demo_crc (fst demo_queued) = queue demo_crc (fst demo_open) @ [[1, 2, 3]]"
  using append_outcome [OF demo_inv(1) demo_append] by simp


text \<open>C7: \<open>ack\<close>, under any faults: it never panics, keeps the invariant and the queue, and moves
  the acknowledged position only forward. Only sealed segments wholly behind the position may go;
  every other segment keeps its file and its records. The cursor file is untouched, or holds the
  complete new position, and then \<open>acked\<close> says so too.\<close>

theorem ack_outcome:
  assumes "writer_inv crc wr w" and "ack crc c (wr, w) = (r, (wr', w'))"
  shows "r \<noteq> Inl Panic \<and> writer_inv crc wr' w' \<and> queue crc wr' = queue crc wr \<and>
    (\<exists>gone. gone \<subseteq> {n. n < segment c \<and> n \<noteq> seq (last (segments wr))} \<and>
       segments wr' = filter (\<lambda>s. seq s \<notin> gone) (segments wr) \<and>
       disk_log crc wr' w' = concat (map (seg_log crc w) (segments wr'))) \<and>
    (r = Inr () \<longrightarrow> is_some_and (acked wr') (\<lambda>a. c \<le> a)) \<and>
    (\<forall>a. acked wr = Some a \<longrightarrow> is_some_and (acked wr') (\<lambda>a'. a \<le> a')) \<and>
    (node_of w' CURSOR_FILE = node_of w CURSOR_FILE \<and> acked wr' = acked wr \<or>
     node_of w' CURSOR_FILE = Some (Regular (cursor_encode crc c)) \<and> acked wr' = Some c)"
proof -
  from assms(1) have i: "seg_inv crc wr w" by (simp add: writer_inv_def)
  from ack_effect [OF i assms(2)] have a: "acked_to crc c (wr, w) r (wr', w')" by blast
  then obtain gone where "gone \<subseteq> {n. n < segment c \<and> n \<noteq> seq (last (segments wr))}"
    "segments wr' = filter (\<lambda>s. seq s \<notin> gone) (segments wr)"
    "disk_log crc wr' w' = concat (map (seg_log crc w) (segments wr'))"
    unfolding acked_to_def prod.case by blast
  then have "\<exists>gone. gone \<subseteq> {n. n < segment c \<and> n \<noteq> seq (last (segments wr))} \<and>
       segments wr' = filter (\<lambda>s. seq s \<notin> gone) (segments wr) \<and>
       disk_log crc wr' w' = concat (map (seg_log crc w) (segments wr'))" by blast
  then show ?thesis
    using ack_kept [OF assms] a unfolding acked_to_def by (simp add: is_some_and_iff)
qed

definition demo_acked :: "(wr_error + unit) \<times> wstate" where
  "demo_acked = ack demo_crc (Cursor 1 19) demo_written"

theorem ack_outcome_witness:
  "acked (fst (snd demo_acked)) = Some (Cursor 1 19) \<and>
   writer_inv demo_crc (fst (snd demo_acked)) (snd (snd demo_acked))"
proof -
  have "ack demo_crc (Cursor 1 19) (fst demo_written, snd demo_written) =
      (fst demo_acked, (fst (snd demo_acked), snd (snd demo_acked)))"
    by (simp add: demo_acked_def)
  from ack_outcome [OF demo_inv(3) this]
  have "writer_inv demo_crc (fst (snd demo_acked)) (snd (snd demo_acked))" by blast
  moreover have "acked (fst (snd demo_acked)) = Some (Cursor 1 19)" by code_simp
  ultimately show ?thesis by blast
qed

text \<open>C4: a successful \<open>open\<close> on any directory. The configuration was valid, the invariant holds
  with an empty queue, and the log is exactly what a scan of each listed segment finds, the newest
  one included although it was cut; the listed segments missing were wholly behind the stored
  cursor. The new active segment sorts after everything found and after the cursor.\<close>

theorem open_outcome:
  assumes "fs_ok w" and "writer_open crc c w = (Inr (wr, rec), w')"
  shows "validate c = Inr () \<and> writer_inv crc wr w' \<and> queue crc wr = [] \<and>
    (\<exists>gone. (\<forall>n \<in> gone. is_some_and (acked wr) (\<lambda>a. n < segment a)) \<and>
       map seq (butlast (segments wr)) = listed w gone \<and>
       disk_log crc wr w' = found_log crc w (listed w gone)) \<and>
    (\<forall>n \<le> U64_MAX. node_of w (segment_path n) \<noteq> None \<longrightarrow> n < seq (last (segments wr))) \<and>
    (\<forall>a. acked wr = Some a \<longrightarrow> segment a < seq (last (segments wr)))"
  using writer_open_effect [OF assms(2,1)] open_log [OF assms(2,1)] by blast

text \<open>A directory with a whole segment, a torn newest one and a foreign name.\<close>

definition torn_world :: world where
  "torn_world = demo_world\<lparr>files :=
     [(segment_path 7, Regular (SEGMENT_MAGIC @ frames demo_crc [[1, 2], [3]] @ [5, 0, 0])),
      (''notes.txt'', Regular [1]),
      (segment_path 4, Regular (SEGMENT_MAGIC @ frames demo_crc [[9]]))]\<rparr>"

definition torn_open :: wstate where
  "torn_open = (case writer_open demo_crc demo_config torn_world of
     (Inr (wr, _), w) \<Rightarrow> (wr, w) | (Inl _, w) \<Rightarrow> undefined)"

lemma torn_opened:
  "writer_open demo_crc demo_config torn_world =
     (Inr (fst torn_open, recovery_default\<lparr>truncated_bytes := 3\<rparr>), snd torn_open)"
  unfolding torn_open_def by code_simp

lemma torn_fs_ok [simp]: "fs_ok torn_world"
proof -
  have "length ''notes.txt'' \<noteq> length (segment_path n)" for n
    using length_segment_path [of n] by simp
  then have n: "segment_path n \<noteq> ''notes.txt''" for n by metis
  then show ?thesis by (simp add: fs_ok_def torn_world_def demo_world_def n n [symmetric])
qed

theorem open_outcome_witness:
  "disk_log demo_crc (fst torn_open) (snd torn_open) = [[9], [1, 2], [3]] \<and>
   seq (last (segments (fst torn_open))) = 8 \<and> writer_inv demo_crc (fst torn_open) (snd torn_open)"
proof -
  have "disk_log demo_crc (fst torn_open) (snd torn_open) = [[9], [1, 2], [3]]"
    "seq (last (segments (fst torn_open))) = 8" by code_simp+
  with open_outcome [OF torn_fs_ok torn_opened] show ?thesis by simp
qed


lemma written_prefix:
  assumes inv: "seg_inv crc wr w" and s: "s \<in> set (segments wr)" "0 < len s"
  shows "node_of w (segment_path (seq s)) \<noteq> None \<and>
    prefix (seg_log crc w s) (seg_payloads crc (bytes_at w (segment_path (seq s))))"
proof -
  from inv obtain ss a where ss: "segments wr = ss @ [a]" "\<forall>s \<in> set ss. sealed_ok w s"
    "active_ok crc w (active_file wr) a" by (rule seg_inv_split)
  show ?thesis
  proof (cases "s \<in> set ss")
    case True
    then obtain b where b: "node_of w (segment_path (seq s)) = Some (Regular b)" "length b = len s"
      using ss(2) by (auto simp: sealed_ok_def)
    then show ?thesis using seg_log_whole [OF b] by (simp add: bytes_at_def)
  next
    case False
    then have "s = a" using s ss(1) by simp
    with ss(3) s(2) obtain ps tail where p: "list_all payload_ok ps" "seg_log crc w s = ps"
      "node_of w (segment_path (seq s)) = Some (Regular (SEGMENT_MAGIC @ frames crc ps @ tail))"
      by (auto elim: active_log)
    have "prefix ps (seg_payloads crc (SEGMENT_MAGIC @ frames crc ps @ tail))"
      using scan_loop_prefix [OF p(1), of SEGMENT_MAGIC crc tail "[]"]
      by (auto simp: seg_payloads_def SEGMENT_HEADER_def scan_def)
    then show ?thesis using p by (simp add: bytes_at_def)
  qed
qed

text \<open>C5: a crash at any point of a run loses nothing that was written: reopening the same files
  finds, in every segment that is still listed, at least the records the writer had written there,
  in their order, after whatever torn bytes follow them have been cut.\<close>

theorem crash_keeps_written:
  assumes "writer_inv crc wr w" and "upto_fates w v" and "writer_open crc c v = (Inr (wr', rec), w')"
  shows "\<exists>gone f. (\<forall>n \<in> gone. is_some_and (acked wr') (\<lambda>a. n < segment a)) \<and>
     disk_log crc wr' w' = concat (map f (listed v gone)) \<and>
     (\<forall>s \<in> set (segments wr). 0 < len s \<and> seq s \<notin> gone \<longrightarrow>
        seq s \<in> set (listed v gone) \<and> prefix (seg_log crc w s) (f (seq s)))"
proof -
  from assms(1) have inv: "seg_inv crc wr w" by (simp add: writer_inv_def)
  have n: "node_of v = node_of w" and ok: "fs_ok v"
    using inv upto_fates_node [OF assms(2)] upto_fates_ok [OF assms(2)] by (simp_all add: seg_inv_def)
  have b: "bytes_at v = bytes_at w" by (simp add: bytes_at_def n fun_eq_iff)
  from open_log [OF assms(3) ok] obtain gone where g: "\<forall>n \<in> gone. is_some_and (acked wr') (\<lambda>a. n < segment a)"
    "disk_log crc wr' w' = concat (map (\<lambda>n. seg_payloads crc (bytes_at v (segment_path n))) (listed v gone))"
    unfolding found_log_def by blast
  have "seq s \<in> set (listed v gone) \<and>
      prefix (seg_log crc w s) (seg_payloads crc (bytes_at v (segment_path (seq s))))"
    if "s \<in> set (segments wr)" "0 < len s" "seq s \<notin> gone" for s
    using written_prefix [OF inv that(1,2)] that inv
    by (simp add: listed_def set_segment_seqs names_in_dom n b seg_inv_def del: set_map)
  then show ?thesis using g by blast
qed

text \<open>The demo writer, its next write cut after five bytes by a failing disk, then the crash.\<close>

definition demo_cut :: wstate where
  "demo_cut = (case append_record demo_crc [8, 8] (fst demo_written) of (_, wr) \<Rightarrow>
     snd (tick demo_crc demo_time (10 ^ 10) (wr, (snd demo_written)\<lparr>fates := [Fail OtherError 5]\<rparr>)))"

definition demo_reopen :: wstate where
  "demo_reopen = (case writer_open demo_crc demo_config (snd demo_cut) of
     (Inr (wr, _), w) \<Rightarrow> (wr, w) | (Inl _, w) \<Rightarrow> undefined)"

lemma demo_reopened:
  "writer_open demo_crc demo_config (snd demo_cut) =
     (Inr (fst demo_reopen, recovery_default\<lparr>truncated_bytes := 5\<rparr>), snd demo_reopen)"
  unfolding demo_reopen_def by code_simp

lemma demo_cut_inv: "writer_inv demo_crc (fst demo_cut) (snd demo_cut)"
proof -
  obtain r wr where a: "append_record demo_crc [8, 8] (fst demo_written) = (r, wr)" by fastforce
  let ?w = "(snd demo_written)\<lparr>fates := [Fail OtherError 5]\<rparr>"
  have "upto_fates (snd demo_written) ?w" by (simp add: upto_fates_def)
  then have "writer_inv demo_crc (fst demo_written) ?w"
    using demo_inv(3) by (simp add: writer_inv_def seg_inv_upto)
  from append_kept [OF this a] have i: "writer_inv demo_crc wr ?w" by blast
  obtain r' wr' w' where t: "tick demo_crc demo_time (10 ^ 10) (wr, ?w) = (r', (wr', w'))"
    by (metis prod.exhaust)
  from tick_effect [OF i t] show ?thesis
    using a t by (simp add: demo_cut_def log_kept_def)
qed

theorem crash_keeps_written_witness:
  "disk_log demo_crc (fst demo_reopen) (snd demo_reopen) = [[1, 2, 3]] \<and>
   (\<exists>gone. listed (snd demo_cut) gone = [1])"
proof -
  have "disk_log demo_crc (fst demo_reopen) (snd demo_reopen) = [[1, 2, 3]]"
    "segments (fst demo_cut) = [Segment 1 19]" "segment_seqs (map fst (files (snd demo_cut))) = [1]"
    "acked (fst demo_reopen) = None" by code_simp+
  with crash_keeps_written [OF demo_cut_inv upto_fates_refl demo_reopened] show ?thesis
    by (fastforce simp: listed_def)
qed

end
