(* ===== verification/Buf_Policy.thy ===== *)
theory Buf_Policy
  imports Buf_Writer_Run
begin

text \<open>
  Making room (\<open>victim\<close>, \<open>make_room\<close> and \<open>segment_gap\<close> of \<open>crates/atlas-buffer/src/writer.rs\<close>):
  which segments an overflow policy may delete, that a valid configuration always finds room
  unless the policy is to drop the newest, and that what a deleted segment held is reported
  exactly.
\<close>

section \<open>The choice of a victim\<close>

text \<open>
  A policy chooses among the sealed segments outside a protected head. Each turn of the loop
  takes the oldest it may; the protected head is the policy's parameter.
\<close>

definition head_bytes :: "segment list \<Rightarrow> nat \<Rightarrow> nat" where
  "head_bytes segs i = sum_list (map len (take i segs))"

lemma head_bytes_Suc: "i < length segs \<Longrightarrow> head_bytes segs (Suc i) = head_bytes segs i + len (segs ! i)"
  by (simp add: head_bytes_def take_Suc_conv_app_nth)

lemma head_bytes_all: "head_bytes (segments wr) (length (segments wr)) = disk_bytes wr"
  by (simp add: head_bytes_def disk_bytes_def)

lemma pin_spec:
  assumes "pinned \<le> sealed" "sealed \<le> length segs" "bytes = head_bytes segs pinned"
  shows "pinned \<le> pin segs sealed target pinned bytes \<and> pin segs sealed target pinned bytes \<le> sealed \<and>
    (pin segs sealed target pinned bytes < sealed \<longrightarrow>
       target \<le> head_bytes segs (pin segs sealed target pinned bytes)) \<and>
    (\<forall>j. pinned \<le> j \<and> j < pin segs sealed target pinned bytes \<longrightarrow> head_bytes segs j < target)"
  using assms
proof (induction segs sealed target pinned bytes rule: pin.induct)
  case (1 segs sealed target pinned bytes)
  show ?case
  proof (cases "pinned < sealed \<and> bytes < target")
    case False
    then have "pin segs sealed target pinned bytes = pinned" by (simp add: pin.simps [of segs])
    with False "1.prems" show ?thesis by auto
  next
    case True
    then have e: "pin segs sealed target pinned bytes =
        pin segs sealed target (pinned + 1) (bytes + len (segs ! pinned))"
      by (simp add: pin.simps [of segs sealed target pinned])
    from "1.IH" [OF True] "1.prems" True show ?thesis
      unfolding e by (auto simp: head_bytes_Suc) (metis Suc_leI le_neq_implies_less)+
  qed
qed

definition protected_head :: "writer \<Rightarrow> nat" where
  "protected_head wr = (if overflow (cfg wr) = HeadTail
     then pin (segments wr) (length (segments wr) - 1) (disk_bytes wr div 4) 0 0 else 0)"

lemma victim_cases:
  "victim wr skip = (if overflow (cfg wr) = DropNewest then None
     else find (\<lambda>i. seq (segments wr ! i) \<notin> set skip) [protected_head wr ..< length (segments wr) - 1])"
  by (cases "overflow (cfg wr)") (simp_all add: victim_def victim_first_def protected_head_def Let_def)

lemma find_upt_Some:
  "find P [a ..< b] = Some i \<longleftrightarrow> a \<le> i \<and> i < b \<and> P i \<and> (\<forall>j. a \<le> j \<and> j < i \<longrightarrow> \<not> P j)"
proof
  assume "find P [a ..< b] = Some i"
  then obtain k where "k < b - a" "P (a + k)" "i = a + k" "\<forall>j<k. \<not> P (a + j)"
    by (auto simp: find_Some_iff)
  then show "a \<le> i \<and> i < b \<and> P i \<and> (\<forall>j. a \<le> j \<and> j < i \<longrightarrow> \<not> P j)"
    by (auto dest: le_Suc_ex)
next
  assume "a \<le> i \<and> i < b \<and> P i \<and> (\<forall>j. a \<le> j \<and> j < i \<longrightarrow> \<not> P j)"
  then show "find P [a ..< b] = Some i"
    by (auto simp: find_Some_iff intro!: exI [of _ "i - a"])
qed

lemma find_upt_None: "find P [a ..< b] = None \<longleftrightarrow> (\<forall>i. a \<le> i \<and> i < b \<longrightarrow> \<not> P i)"
  by (auto simp: find_None_iff)

text \<open>C10: the victim is never the active segment, is the oldest sealed segment that is not pinned and
  has not been refused; with \<open>HeadTail\<close> the pinned head is the shortest one that holds a quarter
  of the bytes on disk, and \<open>DropNewest\<close> has no victim.\<close>

theorem victim_choice:
  "victim wr skip = Some i \<longleftrightarrow>
     overflow (cfg wr) \<noteq> DropNewest \<and> protected_head wr \<le> i \<and> i < length (segments wr) - 1 \<and>
     seq (segments wr ! i) \<notin> set skip \<and>
     (\<forall>j. protected_head wr \<le> j \<and> j < i \<longrightarrow> seq (segments wr ! j) \<in> set skip) \<and>
     (overflow (cfg wr) = HeadTail \<longrightarrow>
        disk_bytes wr div 4 \<le> head_bytes (segments wr) (protected_head wr) \<and>
        (\<forall>j < protected_head wr. head_bytes (segments wr) j < disk_bytes wr div 4))"
proof -
  have "head_bytes (segments wr) 0 = 0" by (simp add: head_bytes_def)
  then have p: "(protected_head wr < length (segments wr) - 1 \<longrightarrow>
        disk_bytes wr div 4 \<le> head_bytes (segments wr) (protected_head wr)) \<and>
      (\<forall>j < protected_head wr. head_bytes (segments wr) j < disk_bytes wr div 4)"
    if "overflow (cfg wr) = HeadTail"
    using pin_spec [of 0 "length (segments wr) - 1" "segments wr" 0 "disk_bytes wr div 4"] that
    by (auto simp: protected_head_def)
  show ?thesis
    unfolding victim_cases using p by (auto simp: find_upt_Some)
qed

section \<open>Room is found\<close>

definition segments_small :: "writer \<Rightarrow> bool" where
  "segments_small wr \<longleftrightarrow> (\<forall>s \<in> set (segments wr). len s \<le> segment_bytes (cfg wr))"

lemma sum_list_bound: "(\<forall>x \<in> set xs. f x \<le> (b :: nat)) \<Longrightarrow> sum_list (map f xs) \<le> length xs * b"
  by (induction xs) auto

text \<open>With small segments, a policy that may delete has a victim whenever room is missing.\<close>

lemma victim_exists:
  assumes small: "segments_small wr" and ne: "segments wr \<noteq> []"
    and cap: "4 * segment_bytes (cfg wr) \<le> cap_bytes (cfg wr)"
    and over: "disk_bytes wr + segment_bytes (cfg wr) > cap_bytes (cfg wr)"
    and pol: "overflow (cfg wr) \<noteq> DropNewest"
  shows "victim wr [] \<noteq> None"
proof
  let ?segs = "segments wr" and ?n = "length (segments wr) - 1" and ?sb = "segment_bytes (cfg wr)"
  assume "victim wr [] = None"
  then have none: "?n \<le> protected_head wr"
    using pol by (auto simp: victim_cases find_upt_None not_less)
  have lenp: "length ?segs = Suc ?n" using ne by (cases ?segs) auto
  have big: "3 * ?sb < disk_bytes wr" using cap over by linarith
  have all: "disk_bytes wr = head_bytes ?segs ?n + len (?segs ! ?n)"
    using head_bytes_all [of wr] lenp by (metis head_bytes_Suc lessI)
  have last: "len (?segs ! ?n) \<le> ?sb" using small lenp by (simp add: segments_small_def)
  show False
  proof (cases "overflow (cfg wr) = HeadTail")
    case False
    then have "?n = 0" using none by (simp add: protected_head_def)
    then show False using all last big by (simp add: head_bytes_def)
  next
    case True
    have "head_bytes ?segs 0 = 0" by (simp add: head_bytes_def)
    with True pin_spec [of 0 ?n ?segs 0 "disk_bytes wr div 4"]
    have p: "\<forall>j < protected_head wr. head_bytes ?segs j < disk_bytes wr div 4"
      by (auto simp: protected_head_def)
    show False
    proof (cases ?n)
      case 0
      then show False using all last big by (simp add: head_bytes_def)
    next
      case (Suc k)
      have "head_bytes ?segs k < disk_bytes wr div 4" using p none Suc by simp
      moreover have "head_bytes ?segs ?n = head_bytes ?segs k + len (?segs ! k)"
        using lenp Suc by (simp add: head_bytes_Suc)
      moreover have "len (?segs ! k) \<le> ?sb" using small lenp Suc by (simp add: segments_small_def)
      ultimately have "head_bytes ?segs ?n \<le> disk_bytes wr div 4 + ?sb" by linarith
      then show False using all last big by linarith
    qed
  qed
qed

lemma make_room_inv:
  assumes m: "make_room crc rt u (wr, w) = (rm, (wr', w'))" and "segments wr \<noteq> []" "segments_small wr"
  shows "segments wr' \<noteq> [] \<and> segments_small wr' \<and> cfg wr' = cfg wr \<and>
    subseq (segments wr') (segments wr) \<and> last (segments wr') = last (segments wr) \<and>
    (\<exists>u'. room_exit wr' u' rm \<and> set u \<subseteq> set u' \<and>
       delete_failures (stats wr') + length u = delete_failures (stats wr) + length u')"
proof -
  let ?P = "\<lambda>u' v (x :: world). segments v \<noteq> [] \<and> cfg v = cfg wr \<and> subseq (segments v) (segments wr) \<and>
    last (segments v) = last (segments wr) \<and> set u \<subseteq> set u' \<and>
    delete_failures (stats v) + length u = delete_failures (stats wr) + length u'"
  have "\<exists>u' v x. (wr', w') = (v, x) \<and> ?P u' v x \<and> room_exit v u' rm"
  proof (rule make_room_rule [OF m])
    show "?P u wr w" using assms(2) by simp
  next
    fix u' v x i g x1 e x2
    assume "?P u' v x"
    then show "?P (u' @ [seq (segments v ! i)])
        (v\<lparr>stats := (stats v)\<lparr>delete_failures := delete_failures (stats v) + 1\<rparr>\<rparr>) x2" by auto
  next
    fix u' v x i g x1 x2
    assume P: "?P u' v x" and v: "victim v u' = Some i"
    have i: "i < length (segments v) - 1" using victim_Some [OF v] by simp
    then have "remove_nth i (segments v) \<noteq> []" "last (remove_nth i (segments v)) = last (segments v)"
      by (auto simp: remove_nth_def last_append last_drop)
    moreover have "subseq (remove_nth i (segments v)) (segments v)"
    proof -
      have "subseq (take i (segments v) @ drop (Suc i) (segments v))
          (take i (segments v) @ segments v ! i # drop (Suc i) (segments v))"
        by (intro subseq_append_iff [THEN iffD2] list_emb_append_mono) auto
      then show ?thesis using i by (simp add: remove_nth_def id_take_nth_drop [symmetric])
    qed
    moreover have "delete_failures (stats (count_eviction g y)) = delete_failures (stats y)" for y
      by (simp add: count_eviction_def split: option.splits)
    ultimately show "?P u' (count_eviction g (v\<lparr>segments := remove_nth i (segments v)\<rparr>)) x2"
      using P by (auto intro: subseq_order.trans)
  qed
  then obtain u' where P: "?P u' wr' w'" "room_exit wr' u' rm" by blast
  then have "segments_small wr'"
    using assms(3) by (auto simp: segments_small_def dest: list_emb_set)
  then show ?thesis using P by blast
qed

text \<open>C8: making room. With a valid configuration and segments of the configured size, the result is
  \<open>Full\<close> only under \<open>DropNewest\<close>, so every other policy goes on writing; the active segment is
  kept; and if every deletion worked, \<open>Made\<close> means that a whole further segment fits under the cap.\<close>

theorem make_room_outcome:
  assumes "make_room crc rt [] (wr, w) = (rm, (wr', w'))"
    and "segments wr \<noteq> []" and "segments_small wr" and "4 * segment_bytes (cfg wr) \<le> cap_bytes (cfg wr)"
  shows "(rm = Full \<longrightarrow> overflow (cfg wr) = DropNewest) \<and>
    subseq (segments wr') (segments wr) \<and> last (segments wr') = last (segments wr) \<and>
    (rm = Made \<and> delete_failures (stats wr') = delete_failures (stats wr) \<longrightarrow>
       disk_bytes wr' + segment_bytes (cfg wr) \<le> cap_bytes (cfg wr))"
proof -
  from make_room_inv [OF assms(1-3)] obtain u where u: "segments wr' \<noteq> []" "segments_small wr'"
    "cfg wr' = cfg wr" "subseq (segments wr') (segments wr)" "last (segments wr') = last (segments wr)"
    "room_exit wr' u rm" "delete_failures (stats wr') = delete_failures (stats wr) + length u" by auto
  have "overflow (cfg wr) = DropNewest" if "rm = Full"
  proof -
    from u(6) that have "u = []" "victim wr' u = None" "disk_bytes wr' + segment_bytes (cfg wr') > cap_bytes (cfg wr')"
      by (auto simp: room_exit_def split: if_splits)
    then show ?thesis using victim_exists [OF u(2,1)] u(3) assms(4) by auto
  qed
  moreover have "disk_bytes wr' + segment_bytes (cfg wr) \<le> cap_bytes (cfg wr)"
    if "rm = Made" "delete_failures (stats wr') = delete_failures (stats wr)"
    using that u(3,6,7) by (auto simp: room_exit_def split: if_splits)
  ultimately show ?thesis using u by blast
qed

text \<open>Four sealed segments under a cap of eighty bytes; the first one fills a quarter.\<close>

definition room_world :: world where
  "room_world = demo_world\<lparr>files := map (\<lambda>n. (segment_path n,
     Regular (SEGMENT_MAGIC @ frames demo_crc [[of_nat n, 2]]))) [1, 2, 3, 4]\<rparr>"

definition room_writer :: writer where
  "room_writer = (fst demo_open)
     \<lparr>segments := map (\<lambda>n. Segment n 18) [1, 2, 3, 4] @ [Segment 5 0],
      cfg := demo_config\<lparr>segment_bytes := 20, cap_bytes := 80, overflow := HeadTail\<rparr>\<rparr>"

definition room_made :: "room \<times> wstate" where
  "room_made = make_room demo_crc demo_time [] (room_writer, room_world)"

theorem make_room_outcome_witness:
  "map seq (segments (fst (snd room_made))) = [1, 3, 4, 5] \<and> disk_bytes (fst (snd room_made)) + 20 \<le> 80"
proof -
  have m: "make_room demo_crc demo_time [] (room_writer, room_world) =
      (fst room_made, (fst (snd room_made), snd (snd room_made)))" by (simp add: room_made_def)
  have "segments room_writer \<noteq> []" "segments_small room_writer"
    "4 * segment_bytes (cfg room_writer) \<le> cap_bytes (cfg room_writer)"
    by (simp_all add: room_writer_def segments_small_def)
  from make_room_outcome [OF m this] have "fst room_made = Made \<and>
      delete_failures (stats (fst (snd room_made))) = delete_failures (stats room_writer) \<longrightarrow>
      disk_bytes (fst (snd room_made)) + segment_bytes (cfg room_writer) \<le> cap_bytes (cfg room_writer)" by blast
  moreover have "fst room_made = Made" "segment_bytes (cfg room_writer) = 20" "cap_bytes (cfg room_writer) = 80"
    "delete_failures (stats (fst (snd room_made))) = delete_failures (stats room_writer)"
    "map seq (segments (fst (snd room_made))) = [1, 3, 4, 5]" by code_simp+
  ultimately show ?thesis by simp
qed

theorem victim_choice_witness:
  "victim room_writer [] = Some 1 \<and> disk_bytes room_writer div 4 \<le> head_bytes (segments room_writer) (protected_head room_writer)"
proof -
  have v: "victim room_writer [] = Some 1" by code_simp
  moreover have "overflow (cfg room_writer) = HeadTail" by code_simp
  ultimately show ?thesis using victim_choice [of room_writer "[]" 1] by blast
qed

section \<open>Loss reports\<close>

lemma fold_gap_map:
  "fold (\<lambda>(s, e) g. gap_add (rt (slice_of data s e)) g) rs g = fold gap_add (map rt (payloads_at data rs)) g"
  by (induction rs arbitrary: g) auto

lemma segment_gap_result:
  assumes "fault_free w" "node_of w (segment_path n) = Some (Regular b)"
  shows "segment_gap crc rt n w = (fold gap_add (map rt (seg_payloads crc b)) gap_empty, w)"
proof -
  have "open_read (segment_path n) w = (Inr (), w)"
    using assms by (simp add: open_read_def fs_open_def open_file_def check_regular_def io_call_fault_free)
  moreover have "read_to_end (segment_path n) w = (Inr b, w)"
    using assms by (simp add: read_to_end_def io_call_fault_free handle_data_regular)
  ultimately show ?thesis
    by (simp add: segment_gap_def seg_payloads_def fold_gap_map)
qed

lemma remove_segment_result:
  "fault_free w \<Longrightarrow> remove_segment n w = (Inr (), unlink (segment_path n) w)"
  by (auto simp: remove_segment_def remove_file_def next_fate_def fault_free_def unlink_absent split: option.splits)

text \<open>C9: a deletion under an overflow policy reports exactly what is lost. With a disk that works, a
  turn of the loop deletes the victim's file and appends one loss report whose count is the number
  of records the victim held and whose times are the least and greatest of their event times; a
  victim without records adds no report.\<close>

theorem eviction_reported:
  assumes "fault_free w" and "seg_inv crc wr w" and "overflow (cfg wr) \<noteq> Retention"
    and "victim wr u = Some i" and "disk_bytes wr + segment_bytes (cfg wr) > cap_bytes (cfg wr)"
  shows "\<exists>g. make_room crc rt u (wr, w) = make_room crc rt u
        (wr\<lparr>segments := remove_nth i (segments wr),
            stats := (stats wr)\<lparr>overflow_evictions := overflow_evictions (stats wr) + 1\<rparr>,
            gaps := gaps wr @ (if gap_records g > 0 then [g] else [])\<rparr>,
         unlink (segment_path (seq (segments wr ! i))) w) \<and>
     gap_records g = length (seg_log crc w (segments wr ! i)) \<and>
     (let ts = known_times (map rt (seg_log crc w (segments wr ! i))) in
        first_time g = (if ts = [] then None else Some (Min (set ts))) \<and>
        last_time g = (if ts = [] then None else Some (Max (set ts))))"
proof -
  have i: "i < length (segments wr) - 1" using victim_Some [OF assms(4)] by simp
  then have "segments wr ! i \<in> set (butlast (segments wr))"
    by (metis in_set_conv_nth length_butlast nth_butlast)
  then have "sealed_ok w (segments wr ! i)" using assms(2) by (simp add: seg_inv_def)
  then obtain b where b: "node_of w (segment_path (seq (segments wr ! i))) = Some (Regular b)"
    "length b = len (segments wr ! i)" by (auto simp: sealed_ok_def)
  let ?g = "fold gap_add (map rt (seg_payloads crc b)) gap_empty"
  have log: "seg_log crc w (segments wr ! i) = seg_payloads crc b" using seg_log_whole [OF b] by simp
  have "eviction_gap crc rt (seq (segments wr ! i)) (wr, w) = (Some ?g, w)"
    using assms(1,3) segment_gap_result [OF assms(1) b(1)] by (simp add: eviction_gap_def)
  then have "make_room crc rt u (wr, w) = make_room crc rt u
      (count_eviction (Some ?g) (wr\<lparr>segments := remove_nth i (segments wr)\<rparr>),
       unlink (segment_path (seq (segments wr ! i))) w)"
    using assms(4,5) remove_segment_result [OF assms(1)] by (simp add: make_room.simps [of crc rt u wr w])
  moreover have "count_eviction (Some ?g) (wr\<lparr>segments := remove_nth i (segments wr)\<rparr>) =
      wr\<lparr>segments := remove_nth i (segments wr),
         stats := (stats wr)\<lparr>overflow_evictions := overflow_evictions (stats wr) + 1\<rparr>,
         gaps := gaps wr @ (if gap_records ?g > 0 then [?g] else [])\<rparr>"
    by (simp add: count_eviction_def)
  ultimately show ?thesis
    using gap_range [of "map rt (seg_payloads crc b)"]
    by (intro exI [of _ ?g]) (simp add: log Let_def)
qed

theorem eviction_reported_witness:
  "\<exists>g. gap_records g = 1 \<and>
     make_room demo_crc (\<lambda>p. Some 40) [] (room_writer, room_world) = make_room demo_crc (\<lambda>p. Some 40) []
       (room_writer\<lparr>segments := [Segment 1 18, Segment 3 18, Segment 4 18, Segment 5 0],
          stats := (stats room_writer)\<lparr>overflow_evictions := 1\<rparr>, gaps := [g]\<rparr>,
        unlink (segment_path 2) room_world)"
proof -
  have v: "victim room_writer [] = Some 1" "segments room_writer ! 1 = Segment 2 18"
    "remove_nth 1 (segments room_writer) = [Segment 1 18, Segment 3 18, Segment 4 18, Segment 5 0]"
    "overflow_evictions (stats room_writer) = 0" "gaps room_writer = []"
    "seg_log demo_crc room_world (Segment 2 18) = [[2, 2]]"
    "disk_bytes room_writer + segment_bytes (cfg room_writer) > cap_bytes (cfg room_writer)"
    "overflow (cfg room_writer) \<noteq> Retention" by code_simp+
  have ff: "fault_free room_world" by (simp add: fault_free_def room_world_def demo_world_def)
  have n: "node_of room_world (segment_path n) = Some (Regular (SEGMENT_MAGIC @ frames demo_crc [[of_nat n, 2]]))"
    if "n \<in> {1, 2, 3, 4}" for n
    using that by (auto simp: node_of_def room_world_def demo_world_def)
  have "fs_ok room_world" by (simp add: fs_ok_def room_world_def demo_world_def)
  moreover have "active_file room_writer = None" by code_simp
  ultimately have "seg_inv demo_crc room_writer room_world"
    by (simp add: seg_inv_def room_writer_def sealed_ok_def n active_ok_def)
  from eviction_reported [OF ff this v(8) v(1) v(7), of "\<lambda>p. Some 40"] v show ?thesis by auto
qed

end
