(* ===== verification/Sources.thy ===== *)
theory Sources
  imports Prelude
begin

text \<open>
  The interface between a consumer and what it takes records from: a step that returns the next
  record or nothing, over a state with a list of what is left. The log's reader and the agent's
  queues provide it; the laws give every consumer that loops until nothing comes the whole list.
\<close>

locale source =
  fixes step :: "'s \<Rightarrow> 'a option \<times> 's"
    and left :: "'s \<Rightarrow> 'a list"
    and ok :: "'s \<Rightarrow> bool"
  assumes step_some: "ok s \<Longrightarrow> step s = (Some x, s') \<Longrightarrow> left s = x # left s' \<and> ok s'"
    and step_none: "ok s \<Longrightarrow> step s = (None, s') \<Longrightarrow> left s = [] \<and> left s' = [] \<and> ok s'"
begin

text \<open>A consumer's loop with a bound on the number of steps.\<close>

primrec consume :: "nat \<Rightarrow> 's \<Rightarrow> 'a list \<times> 's" where
  "consume 0 s = ([], s)"
| "consume (Suc n) s = (case step s of
     (None, s) \<Rightarrow> ([], s)
   | (Some x, s) \<Rightarrow> (case consume n s of (xs, s) \<Rightarrow> (x # xs, s)))"

lemma consume_take: "ok s \<Longrightarrow> consume n s = (xs, s') \<Longrightarrow> xs = take n (left s) \<and> left s' = drop n (left s) \<and> ok s'"
proof (induction n arbitrary: s xs)
  case 0
  then show ?case by simp
next
  case (Suc n)
  obtain r s1 where st: "step s = (r, s1)" by fastforce
  show ?case
  proof (cases r)
    case None
    then show ?thesis using step_none [OF Suc.prems(1)] st Suc.prems(2) by auto
  next
    case (Some x)
    with step_some [OF Suc.prems(1)] st have l: "left s = x # left s1" "ok s1" by auto
    obtain ys where d: "consume n s1 = (ys, s')" and "xs = x # ys"
      using Suc.prems(2) st Some by (auto split: prod.splits)
    then show ?thesis using Suc.IH [OF l(2) d] l(1) by simp
  qed
qed

text \<open>Enough steps return everything that was left, in order, and leave nothing.\<close>

lemma consume_all:
  assumes "ok s" "length (left s) \<le> n"
  shows "fst (consume n s) = left s \<and> left (snd (consume n s)) = []"
proof -
  obtain xs s' where d: "consume n s = (xs, s')" by (rule prod.exhaust)
  from consume_take [OF assms(1) d] assms(2) show ?thesis by (simp add: d)
qed

lemma step_none_iff:
  assumes "ok s"
  shows "fst (step s) = None \<longleftrightarrow> left s = []"
proof -
  obtain r s' where st: "step s = (r, s')" by (rule prod.exhaust)
  show ?thesis
  proof (cases r)
    case None
    then show ?thesis using step_none [OF assms] st by simp
  next
    case (Some x)
    then show ?thesis using step_some [OF assms] st by simp
  qed
qed

end

end
