(* ===== verification/Buf_Reader.thy ===== *)
theory Buf_Reader
  imports Buf_Writer_Run Sources
begin

text \<open>
  Readers (\<open>crates/atlas-buffer/src/reader.rs\<close>): the position, the open handle and the counter
  are a record; \<open>next_record\<close> and its helpers act on it and the file system's world. The loops
  terminate because a segment is left only when a larger number is listed.

  Facts: whatever the files hold, the records \<open>next_record\<close> returns are exactly those a scan of
  the remaining segments finds, in order, and it returns \<open>None\<close> exactly when none is left.
\<close>

section \<open>State\<close>

record delivered =
  at_pos :: cursor
  next_pos :: cursor
  payload :: bytes

record reader =
  rpos :: cursor
  rfile :: "nat option"
  corrupt_segments :: nat

type_synonym rstate = "reader \<times> world"
type_synonym 'a rres = "(wr_error + 'a) \<times> rstate"

datatype at = AtRecord delivered | AtEnd | AtBad

definition reader_open :: "cursor \<Rightarrow> reader" where
  "reader_open from = \<lparr>rpos = from, rfile = None, corrupt_segments = 0\<rparr>"

definition position :: "reader \<Rightarrow> cursor" where
  "position rd = rpos rd"

text \<open>An I/O call inside a method.\<close>

definition reader_io :: "(world \<Rightarrow> 'a io) \<Rightarrow> rstate \<Rightarrow> 'a rres" where
  "reader_io f st = (case st of (rd, w) \<Rightarrow>
     (case f w of (Inl e, w') \<Rightarrow> (Inl (Io e), (rd, w')) | (Inr x, w') \<Rightarrow> (Inr x, (rd, w'))))"

definition next_segment :: "reader \<Rightarrow> reader" where
  "next_segment rd = rd\<lparr>rfile := None, rpos := Cursor (sat_add_u64 (segment (rpos rd)) 1) 0\<rparr>"

definition newer_segment_exists :: "rstate \<Rightarrow> bool rres" where
  "newer_segment_exists st =
     and_then (reader_io list_segments st) (\<lambda>seqs (rd, w).
       (Inr (seqs \<noteq> [] \<and> last seqs > segment (rpos rd)), (rd, w)))"

section \<open>Entering a segment\<close>

text \<open>What one turn of \<open>enter_segment\<close>'s loop decides: to return, or to try the next segment.\<close>

datatype turn = Entered bool | Again

definition enter_turn :: "rstate \<Rightarrow> turn rres" where
  "enter_turn st =
     and_then (reader_io list_segments st) (\<lambda>seqs (rd, w).
       case find (\<lambda>s. s \<ge> segment (rpos rd)) seqs of
         None \<Rightarrow> (Inr (Entered False), (rd, w))
       | Some n \<Rightarrow>
           (let rd = (if n > segment (rpos rd) then rd\<lparr>rpos := Cursor n 0\<rparr> else rd);
                sealed = (seqs \<noteq> [] \<and> last seqs > n) in
            case open_read (segment_path n) w of
              (Inl e, w) \<Rightarrow>
                if sealed \<and> (e = NotFound \<or> e = PermissionDenied) then (Inr Again, (next_segment rd, w))
                else (Inl (Io e), (rd, w))
            | (Inr _, w) \<Rightarrow>
                and_then (reader_io (read_up_to (segment_path n) 0 (length SEGMENT_MAGIC)) (rd, w))
                  (\<lambda>header (rd, w).
                   if header = SEGMENT_MAGIC then
                     (Inr (Entered True),
                       (rd\<lparr>rpos := Cursor (segment (rpos rd)) (max (offset (rpos rd)) SEGMENT_HEADER),
                           rfile := Some n\<rparr>, w))
                   else if \<not> sealed then (Inr (Entered False), (rd, w))
                   else (Inr Again,
                          (next_segment (rd\<lparr>corrupt_segments := corrupt_segments rd + 1\<rparr>), w)))))"

lemma reader_io_cases:
  assumes "reader_io f (rd, w) = (r, st')"
  obtains (fail) e w' where "f w = (Inl e, w')" "r = Inl (Io e)" "st' = (rd, w')"
  | (ok) x w' where "f w = (Inr x, w')" "r = Inr x" "st' = (rd, w')"
  using assms by (auto simp: reader_io_def split: prod.splits sum.splits)

lemma listed_bound: "list_segments w = (Inr seqs, w') \<Longrightarrow> n \<in> set seqs \<Longrightarrow> n \<le> U64_MAX"
  using set_list_segments by blast

lemma find_mem: "find P xs = Some x \<Longrightarrow> x \<in> set xs \<and> P x"
  by (auto simp: find_Some_iff)

text \<open>A turn that goes on has moved past a listed segment that is not the last.\<close>

lemma enter_turn_again:
  assumes "enter_turn (rd, w) = (Inr Again, (rd', w'))"
  shows "segment (rpos rd) < segment (rpos rd') \<and> segment (rpos rd') \<le> U64_MAX \<and>
    rfile rd' = None \<and> offset (rpos rd') = 0"
proof -
  from assms obtain seqs w1 where ls: "list_segments w = (Inr seqs, w1)"
    and rest: "(case find (\<lambda>s. s \<ge> segment (rpos rd)) seqs of
         None \<Rightarrow> (Inr (Entered False), (rd, w1))
       | Some n \<Rightarrow>
           (let rd = (if n > segment (rpos rd) then rd\<lparr>rpos := Cursor n 0\<rparr> else rd);
                sealed = (seqs \<noteq> [] \<and> last seqs > n) in
            case open_read (segment_path n) w1 of
              (Inl e, w) \<Rightarrow>
                if sealed \<and> (e = NotFound \<or> e = PermissionDenied) then (Inr Again, (next_segment rd, w))
                else (Inl (Io e), (rd, w))
            | (Inr _, w) \<Rightarrow>
                and_then (reader_io (read_up_to (segment_path n) 0 (length SEGMENT_MAGIC)) (rd, w))
                  (\<lambda>header (rd, w).
                   if header = SEGMENT_MAGIC then
                     (Inr (Entered True),
                       (rd\<lparr>rpos := Cursor (segment (rpos rd)) (max (offset (rpos rd)) SEGMENT_HEADER),
                           rfile := Some n\<rparr>, w))
                   else if \<not> sealed then (Inr (Entered False), (rd, w))
                   else (Inr Again,
                          (next_segment (rd\<lparr>corrupt_segments := corrupt_segments rd + 1\<rparr>), w))))) =
       (Inr Again, (rd', w'))"
    by (auto simp: enter_turn_def and_then_eq_Inr elim!: reader_io_cases)
  then obtain n where n: "find (\<lambda>s. s \<ge> segment (rpos rd)) seqs = Some n"
    by (auto split: option.splits)
  obtain rd1 where rd1: "(if n > segment (rpos rd) then rd\<lparr>rpos := Cursor n 0\<rparr> else rd) = rd1"
    "segment (rpos rd1) = n" using find_mem [OF n] by (auto split: if_splits)
  have "seqs \<noteq> [] \<and> last seqs > n \<and> (rd' = next_segment rd1 \<or>
      rd' = next_segment (rd1\<lparr>corrupt_segments := corrupt_segments rd1 + 1\<rparr>))"
    using rest unfolding n option.case Let_def rd1(1)
    by (auto simp: and_then_eq_Inr split: prod.splits sum.splits if_splits elim!: reader_io_cases)
  moreover from this have "last seqs \<le> U64_MAX"
    using listed_bound [OF ls] last_in_set by blast
  ultimately show ?thesis
    using find_mem [OF n] rd1(2) by (auto simp: next_segment_def sat_add_u64_def)
qed

function enter_segment :: "rstate \<Rightarrow> bool rres" where
  "enter_segment (rd, w) =
     (case enter_turn (rd, w) of
        (Inl e, st) \<Rightarrow> (Inl e, st)
      | (Inr (Entered b), st) \<Rightarrow> (Inr b, st)
      | (Inr Again, st) \<Rightarrow> enter_segment st)"
  by pat_completeness auto
termination
proof (relation "measure (\<lambda>(rd, w). U64_MAX - segment (rpos rd))", goal_cases)
  case 1
  show ?case by simp
next
  case (2 rd w x st)
  obtain rd' w' where "st = (rd', w')" by fastforce
  with 2 enter_turn_again [of rd w rd' w'] show ?case by auto
qed

declare enter_segment.simps [simp del]

section \<open>Reading one record\<close>

definition read_at :: "(bytes \<Rightarrow> u32) \<Rightarrow> rstate \<Rightarrow> at rres" where
  "read_at crc st = (case st of (rd, w) \<Rightarrow>
     case rfile rd of
       None \<Rightarrow> (Inl Panic, (rd, w))
     | Some n \<Rightarrow>
         and_then (reader_io seek (rd, w)) (\<lambda>_ st.
         and_then (reader_io (read_up_to (segment_path n) (offset (rpos rd)) RECORD_HEADER) st) (\<lambda>buf st.
           if buf = [] then (Inr AtEnd, st)
           else if length buf < RECORD_HEADER then (Inr AtBad, st)
           else if parse crc buf 0 = Invalid then (Inr AtBad, st)
           else let len = from_le (take 4 buf) in
             and_then (reader_io (read_up_to (segment_path n) (offset (rpos rd) + RECORD_HEADER) len) st) (\<lambda>body (rd, w).
               if length body < len then (Inr AtBad, (rd, w))
               else case parse crc (buf @ body) 0 of
                 Record _ _ \<Rightarrow>
                   (let next = Cursor (segment (rpos rd)) (offset (rpos rd) + length (buf @ body)) in
                    (Inr (AtRecord \<lparr>at_pos = rpos rd, next_pos = next, payload = body\<rparr>),
                     (rd\<lparr>rpos := next\<rparr>, w)))
               | _ \<Rightarrow> (Inr AtBad, (rd, w))))))"

section \<open>The next record\<close>

text \<open>What one turn of \<open>next_record\<close>'s loop decides.\<close>

definition record_turn :: "(bytes \<Rightarrow> u32) \<Rightarrow> rstate \<Rightarrow> delivered option option rres" where
  "record_turn crc st =
     and_then (if rfile (fst st) = None then enter_segment st else (Inr True, st)) (\<lambda>entered st.
       if \<not> entered then (Inr (Some None), st)
       else and_then (read_at crc st) (\<lambda>a st.
         case a of
           AtRecord r \<Rightarrow> (Inr (Some (Some r)), st)
         | _ \<Rightarrow>
             and_then (newer_segment_exists st) (\<lambda>newer st.
               if \<not> newer then (Inr (Some None), st)
               else and_then (read_at crc st) (\<lambda>a (rd, w).
                 case a of
                   AtRecord r \<Rightarrow> (Inr (Some (Some r)), (rd, w))
                 | AtEnd \<Rightarrow> (Inr None, (next_segment rd, w))
                 | AtBad \<Rightarrow>
                     (Inr None, (next_segment (rd\<lparr>corrupt_segments := corrupt_segments rd + 1\<rparr>), w))))))"

lemma read_at_frame:
  assumes "read_at crc (rd, w) = (r, (rd', w'))"
  shows "rfile rd' = rfile rd \<and> segment (rpos rd') = segment (rpos rd) \<and>
    (r = Inr AtEnd \<or> r = Inr AtBad \<longrightarrow> rd' = rd)"
  using assms
  by (auto simp: read_at_def Let_def split: option.splits if_splits frame.splits
      elim!: and_then_cases reader_io_cases)

lemma enter_segment_pos:
  "enter_segment (rd, w) = (r, (rd', w')) \<Longrightarrow> segment (rpos rd) \<le> segment (rpos rd')"
proof (induction "(rd, w)" arbitrary: rd w rule: enter_segment.induct)
  case (1 rd w)
  show ?case
  proof (cases "\<exists>st. enter_turn (rd, w) = (Inr Again, st)")
    case True
    then obtain rd1 w1 where t: "enter_turn (rd, w) = (Inr Again, (rd1, w1))" by auto
    from "1.hyps" [OF t [symmetric] refl refl] "1.prems" t enter_turn_again [OF t] show ?thesis
      by (simp add: enter_segment.simps [of rd w])
  next
    case False
    obtain rr st where t: "enter_turn (rd, w) = (rr, st)" by (rule prod.exhaust)
    with False "1.prems" have "st = (rd', w')"
      by (auto simp: enter_segment.simps [of rd w] split: sum.splits turn.splits)
    with t have "enter_turn (rd, w) = (rr, (rd', w'))" by simp
    then have "segment (rpos rd) \<le> segment (rpos rd') \<or> rr = Inr Again"
      by (auto simp: enter_turn_def Let_def split: option.splits prod.splits sum.splits if_splits
          elim!: and_then_cases reader_io_cases dest!: find_mem)
    then show ?thesis using False t by auto
  qed
qed

lemma record_turn_again:
  assumes "record_turn crc (rd, w) = (Inr None, (rd', w'))"
  shows "segment (rpos rd) < segment (rpos rd') \<and> segment (rpos rd') \<le> U64_MAX"
proof -
  from assms obtain en st1 where
    e: "(if rfile rd = None then enter_segment (rd, w) else (Inr True, (rd, w))) = (Inr en, st1)"
    and k1: "(if \<not> en then (Inr (Some None), st1)
       else and_then (read_at crc st1) (\<lambda>a st.
         case a of
           AtRecord r \<Rightarrow> (Inr (Some (Some r)), st)
         | _ \<Rightarrow> and_then (newer_segment_exists st) (\<lambda>newer st.
               if \<not> newer then (Inr (Some None), st)
               else and_then (read_at crc st) (\<lambda>a (rd, w).
                 case a of
                   AtRecord r \<Rightarrow> (Inr (Some (Some r)), (rd, w))
                 | AtEnd \<Rightarrow> (Inr None, (next_segment rd, w))
                 | AtBad \<Rightarrow> (Inr None,
                     (next_segment (rd\<lparr>corrupt_segments := corrupt_segments rd + 1\<rparr>), w)))))) =
       (Inr None, (rd', w'))"
    by (auto simp: record_turn_def and_then_eq_Inr)
  obtain rd1 w1 where st1: "st1 = (rd1, w1)" by fastforce
  from k1 have en: "en" by (cases en) auto
  with k1 obtain a st2 where r1: "read_at crc st1 = (Inr a, st2)"
    and k2: "(case a of
           AtRecord r \<Rightarrow> (Inr (Some (Some r)), st2)
         | _ \<Rightarrow> and_then (newer_segment_exists st2) (\<lambda>newer st.
               if \<not> newer then (Inr (Some None), st)
               else and_then (read_at crc st) (\<lambda>a (rd, w).
                 case a of
                   AtRecord r \<Rightarrow> (Inr (Some (Some r)), (rd, w))
                 | AtEnd \<Rightarrow> (Inr None, (next_segment rd, w))
                 | AtBad \<Rightarrow> (Inr None,
                     (next_segment (rd\<lparr>corrupt_segments := corrupt_segments rd + 1\<rparr>), w))))) =
       (Inr None, (rd', w'))"
    by (auto simp: and_then_eq_Inr)
  obtain rd2 w2 where st2: "st2 = (rd2, w2)" by fastforce
  from k2 have a: "a = AtEnd \<or> a = AtBad" by (cases a) auto
  with k2 obtain newer st3 where nw0: "newer_segment_exists st2 = (Inr newer, st3)"
    and k3: "(if \<not> newer then (Inr (Some None), st3)
               else and_then (read_at crc st3) (\<lambda>a (rd, w).
                 case a of
                   AtRecord r \<Rightarrow> (Inr (Some (Some r)), (rd, w))
                 | AtEnd \<Rightarrow> (Inr None, (next_segment rd, w))
                 | AtBad \<Rightarrow> (Inr None,
                     (next_segment (rd\<lparr>corrupt_segments := corrupt_segments rd + 1\<rparr>), w)))) =
       (Inr None, (rd', w'))"
    by (auto simp: and_then_eq_Inr)
  obtain rd3 w3 where st3: "st3 = (rd3, w3)" by fastforce
  from k3 have newer by (cases newer) auto
  with k3 obtain b rd4 w4 where r2: "read_at crc (rd3, w3) = (Inr b, (rd4, w4))"
    and k4: "(case b of
           AtRecord r \<Rightarrow> (Inr (Some (Some r)), (rd4, w4))
         | AtEnd \<Rightarrow> (Inr None, (next_segment rd4, w4))
         | AtBad \<Rightarrow> (Inr None, (next_segment (rd4\<lparr>corrupt_segments := corrupt_segments rd4 + 1\<rparr>), w4))) =
       ((Inr None, (rd', w')) :: delivered option option rres)"
    by (auto simp: and_then_eq_Inr st3)
  from k4 have rd': "rd' = next_segment rd4 \<or>
      rd' = next_segment (rd4\<lparr>corrupt_segments := corrupt_segments rd4 + 1\<rparr>)"
    by (cases b) auto
  have nw: "newer_segment_exists (rd2, w2) = (Inr True, (rd3, w3))"
    using nw0 \<open>newer\<close> st2 st3 by simp
  note r1 = r1 [unfolded st1 st2] and e = e [unfolded st1]
  from nw obtain seqs where ls: "list_segments w2 = (Inr seqs, w3)" "rd3 = rd2" "seqs \<noteq> []"
    "segment (rpos rd2) < last seqs"
    by (auto simp: newer_segment_exists_def and_then_eq_Inr elim!: reader_io_cases)
  have "last seqs \<le> U64_MAX" using listed_bound [OF ls(1)] ls(3) by simp
  moreover have "segment (rpos rd) \<le> segment (rpos rd1)"
    using e enter_segment_pos [of rd w] by (auto split: if_splits)
  ultimately show ?thesis
    using rd' read_at_frame [OF r1] read_at_frame [OF r2] ls
    by (auto simp: next_segment_def sat_add_u64_def)
qed

function next_record :: "(bytes \<Rightarrow> u32) \<Rightarrow> rstate \<Rightarrow> delivered option rres" where
  "next_record crc (rd, w) =
     (case record_turn crc (rd, w) of
        (Inl e, st) \<Rightarrow> (Inl e, st)
      | (Inr (Some r), st) \<Rightarrow> (Inr r, st)
      | (Inr None, st) \<Rightarrow> next_record crc st)"
  by pat_completeness auto
termination
proof (relation "measure (\<lambda>(crc, rd, w). U64_MAX - segment (rpos rd))", goal_cases)
  case 1
  show ?case by simp
next
  case (2 crc rd w x st b)
  obtain rd' w' where "st = (rd', w')" by fastforce
  with 2 record_turn_again [of crc rd w rd' w'] show ?case by auto
qed

declare next_record.simps [simp del]


section \<open>What is left to read\<close>

definition listing :: "world \<Rightarrow> nat list" where
  "listing w = segment_seqs (map fst (files w))"

definition tail_from :: "(bytes \<Rightarrow> u32) \<Rightarrow> bytes \<Rightarrow> nat \<Rightarrow> bytes list" where
  "tail_from crc b off = payloads_at b (records (scan crc b off))"

definition rest_of :: "(bytes \<Rightarrow> u32) \<Rightarrow> bytes \<Rightarrow> nat \<Rightarrow> bytes list" where
  "rest_of crc b off = (if take SEGMENT_HEADER b = SEGMENT_MAGIC then tail_from crc b (max off SEGMENT_HEADER) else [])"

definition later :: "(bytes \<Rightarrow> u32) \<Rightarrow> world \<Rightarrow> nat \<Rightarrow> bytes list" where
  "later crc w k = concat (map (\<lambda>n. seg_payloads crc (bytes_at w (segment_path n))) (filter (\<lambda>n. k < n) (listing w)))"

definition pending_from :: "(bytes \<Rightarrow> u32) \<Rightarrow> world \<Rightarrow> cursor \<Rightarrow> bytes list" where
  "pending_from crc w c = (if segment c \<in> set (listing w)
     then rest_of crc (bytes_at w (segment_path (segment c))) (offset c) else []) @ later crc w (segment c)"

text \<open>The records a reader has still to deliver, its open handle's first.\<close>

definition unread :: "(bytes \<Rightarrow> u32) \<Rightarrow> reader \<Rightarrow> world \<Rightarrow> bytes list" where
  "unread crc rd w = (case rfile rd of
     Some n \<Rightarrow> tail_from crc (handle_data w (segment_path n)) (offset (rpos rd)) @ later crc w (segment (rpos rd))
   | None \<Rightarrow> pending_from crc w (rpos rd))"

definition reader_ok :: "world \<Rightarrow> reader \<Rightarrow> bool" where
  "reader_ok w rd \<longleftrightarrow> (\<forall>n. rfile rd = Some n \<longrightarrow> n = segment (rpos rd) \<and> SEGMENT_HEADER \<le> offset (rpos rd) \<and>
     (n \<in> set (listing w) \<longrightarrow> take SEGMENT_HEADER (bytes_at w (segment_path n)) = SEGMENT_MAGIC))"

text \<open>A directory at rest: calls succeed, names are distinct and segments are regular files.\<close>

definition at_rest :: "world \<Rightarrow> bool" where
  "at_rest w \<longleftrightarrow> fault_free w \<and> fs_ok w \<and> (\<forall>n. node_of w (segment_path n) \<noteq> Some NotRegular)"

lemma rest_of_0: "rest_of crc b 0 = seg_payloads crc b"
  by (simp add: rest_of_def seg_payloads_def tail_from_def)

subsection \<open>Sorted listings\<close>

lemma filter_ge_split:
  "sorted_wrt (<) (L :: nat list) \<Longrightarrow>
     filter (\<lambda>s. k \<le> s) L = (if k \<in> set L then [k] else []) @ filter (\<lambda>s. k < s) L"
proof (induction L)
  case Nil
  then show ?case by simp
next
  case (Cons x L)
  then have "\<forall>y \<in> set L. x < y" by simp
  then have "x = k \<Longrightarrow> filter (\<lambda>s. k \<le> s) L = L \<and> filter (\<lambda>s. k < s) L = L \<and> k \<notin> set L"
    by (auto intro!: filter_True)
  with Cons show ?case by auto
qed

lemma filter_ge_find:
  assumes "sorted_wrt (<) (L :: nat list)"
  shows "filter (\<lambda>s. k \<le> s) L = (case find (\<lambda>s. s \<ge> k) L of None \<Rightarrow> [] | Some n \<Rightarrow> n # filter (\<lambda>s. n < s) L)"
  using assms
proof (induction L)
  case Nil
  then show ?case by simp
next
  case (Cons x L)
  then have lt: "\<forall>y \<in> set L. x < y" by simp
  show ?case
  proof (cases "k \<le> x")
    case True
    then have "filter (\<lambda>s. k \<le> s) L = L" "filter (\<lambda>s. x < s) L = L"
      using lt by (auto intro!: filter_True)
    then show ?thesis using True by simp
  next
    case False
    have "x < n" if "find (\<lambda>s. s \<ge> k) L = Some n" for n
      using find_mem [OF that] lt by blast
    then show ?thesis using Cons False by (auto split: option.splits)
  qed
qed

lemma listing_sorted: "fs_ok w \<Longrightarrow> sorted_wrt (<) (listing w)"
  by (simp add: listing_def fs_ok_def strict_sorted_iff segment_seqs_sorted segment_seqs_distinct)

lemma pending_from_find:
  assumes "fs_ok w"
  shows "pending_from crc w c = (case find (\<lambda>s. s \<ge> segment c) (listing w) of
      None \<Rightarrow> []
    | Some n \<Rightarrow> rest_of crc (bytes_at w (segment_path n)) (if n > segment c then 0 else offset c) @ later crc w n)"
proof -
  let ?L = "listing w" and ?k = "segment c"
  note s = listing_sorted [OF assms]
  have e: "(if ?k \<in> set ?L then [?k] else []) @ filter (\<lambda>s. ?k < s) ?L =
      (case find (\<lambda>s. s \<ge> ?k) ?L of None \<Rightarrow> [] | Some n \<Rightarrow> n # filter (\<lambda>s. n < s) ?L)"
    using filter_ge_split [OF s] filter_ge_find [OF s] by simp
  show ?thesis
  proof (cases "find (\<lambda>s. s \<ge> ?k) ?L")
    case None
    with e show ?thesis by (auto simp: pending_from_def later_def split: if_splits)
  next
    case (Some n)
    show ?thesis
    proof (cases "?k \<in> set ?L")
      case True
      with e Some have "n = ?k" by simp
      with True Some show ?thesis by (simp add: pending_from_def)
    next
      case False
      with Some find_mem [OF Some] have "n > ?k" using le_neq_implies_less by blast
      moreover have "filter (\<lambda>s. ?k < s) ?L = n # filter (\<lambda>s. n < s) ?L" using e Some False by simp
      ultimately show ?thesis using False Some by (simp add: pending_from_def later_def rest_of_0)
    qed
  qed
qed

lemma later_next:
  assumes "fs_ok w"
  shows "pending_from crc w (Cursor (Suc n) 0) = later crc w n"
proof -
  have "filter (\<lambda>s. n < s) (listing w) = filter (\<lambda>s. Suc n \<le> s) (listing w)"
    by (intro filter_cong) auto
  with filter_ge_split [OF listing_sorted [OF assms], of "Suc n"] show ?thesis
    by (simp add: pending_from_def later_def rest_of_0)
qed

subsection \<open>The helpers on a directory at rest\<close>

lemma at_rest_calls:
  assumes "at_rest w"
  shows "list_segments w = (Inr (listing w), w)" "seek w = (Inr (), w)"
    "read_up_to name pos n w = (Inr (take n (drop pos (handle_data w name))), w)"
  using assms by (simp_all add: at_rest_def list_segments_def seek_def read_up_to_def io_call_fault_free listing_def)

lemma at_rest_node:
  assumes "at_rest w" "n \<in> set (listing w)"
  shows "node_of w (segment_path n) = Some (Regular (bytes_at w (segment_path n)))"
proof -
  have "node_of w (segment_path n) \<noteq> None"
    using assms(2) by (simp add: listing_def set_segment_seqs names_in_dom del: set_map)
  then show ?thesis using assms(1)
    by (auto simp: at_rest_def bytes_at_def split: option.splits node.splits)
qed

lemma at_rest_open:
  assumes "at_rest w" "n \<in> set (listing w)"
  shows "open_read (segment_path n) w = (Inr (), w)"
  using assms at_rest_node [OF assms]
  by (simp add: at_rest_def open_read_def fs_open_def open_file_def check_regular_def io_call_fault_free)

lemma scan_loop_acc:
  "records (scan_loop crc d pos (recs @ recs')) = recs @ records (scan_loop crc d pos recs')"
proof (induction crc d pos recs' rule: scan_loop.induct)
  case (1 crc d pos recs')
  show ?case
  proof (cases "parse crc d pos")
    case (Record s n)
    then show ?thesis using "1.IH" [OF Record] by (simp add: scan_loop_step [OF Record])
  qed (simp_all add: scan_loop_stop)
qed

lemma tail_from_parse:
  assumes "off \<le> length b"
  shows "tail_from crc b off =
    (case parse crc b off of Record s n \<Rightarrow> slice_of b s n # tail_from crc b n | _ \<Rightarrow> [])"
proof (cases "parse crc b off")
  case (Record s n)
  then have "n \<le> length b" using parse_Record_progress(3) by blast
  with assms Record show ?thesis
    using scan_loop_acc [of crc b n "[(s, n)]" "[]"]
    by (simp add: tail_from_def scan_def scan_loop_step min_def)
qed (use assms in \<open>simp_all add: tail_from_def scan_def scan_loop_stop min_def\<close>)

lemma tail_from_end: "length b \<le> off \<Longrightarrow> tail_from crc b off = []"
proof -
  assume a: "length b \<le> off"
  have "parse crc b (length b) = Incomplete" by (simp add: parse_def slice_get_def RECORD_HEADER_def)
  then show ?thesis using a by (simp add: tail_from_def scan_def scan_loop_stop min_def)
qed

text \<open>\<open>read_at\<close> decides like \<open>parse\<close> on the whole file, although it reads the header first.\<close>

lemma read_at_result:
  assumes w: "at_rest w" and f: "rfile rd = Some n" and b: "handle_data w (segment_path n) = b"
  shows "case parse crc b (offset (rpos rd)) of
      Record s e \<Rightarrow> read_at crc (rd, w) =
        (Inr (AtRecord \<lparr>at_pos = rpos rd, next_pos = Cursor (segment (rpos rd)) e, payload = slice_of b s e\<rparr>),
         (rd\<lparr>rpos := Cursor (segment (rpos rd)) e\<rparr>, w))
    | _ \<Rightarrow> read_at crc (rd, w) = (Inr (if length b \<le> offset (rpos rd) then AtEnd else AtBad), (rd, w))"
proof -
  obtain off where off: "offset (rpos rd) = off" by simp
  let ?buf = "take 8 (drop off b)"
  have io: "reader_io seek (rd, w) = (Inr (), (rd, w))"
    "reader_io (read_up_to (segment_path n) p k) (rd, w) = (Inr (take k (drop p b)), (rd, w))" for p k
    by (simp_all add: reader_io_def at_rest_calls [OF w] b)
  consider (short) "length b \<le> off" | (torn) "off < length b" "length b < off + 8" | (hdr) "off + 8 \<le> length b"
    by linarith
  then show ?thesis
  proof cases
    case short
    then have "parse crc b off = Incomplete" by (auto simp: parse_def slice_get_def RECORD_HEADER_def)
    with short show ?thesis by (simp add: read_at_def f io off)
  next
    case torn
    then have "parse crc b off = Incomplete" by (auto simp: parse_def slice_get_def RECORD_HEADER_def)
    moreover have "length ?buf < 8" "?buf \<noteq> []" using torn by auto
    ultimately show ?thesis using torn by (simp add: read_at_def f io off RECORD_HEADER_def del: take_eq_Nil)
  next
    case hdr
    obtain len where len: "from_le (take 4 ?buf) = len" by simp
    let ?body = "take len (drop (off + 8) b)"
    have lb: "length ?buf = 8" using hdr by simp
    have h: "slice_get (drop off b) 0 8 = Some ?buf" using hdr by (simp add: slice_get_def)
    have len': "from_le (slice_of ?buf 0 4) = len" using len by (simp add: slice_of_def)
    have pb: "parse crc ?buf 0 = (if len = 0 \<or> len > MAX_PAYLOAD then Invalid else Incomplete)"
      using lb len' by (simp add: parse_def slice_get_def RECORD_HEADER_def Let_def min_def)
    show ?thesis
    proof (cases "len = 0 \<or> len > MAX_PAYLOAD")
      case True
      then have "parse crc b off = Invalid"
        using h hdr len' by (simp add: parse_def RECORD_HEADER_def Let_def)
      with True hdr lb pb show ?thesis by (auto simp: read_at_def f io off RECORD_HEADER_def)
    next
      case ok: False
      show ?thesis
      proof (cases "off + 8 + len \<le> length b")
        case False
        then have "parse crc b off = Incomplete"
          using h hdr len' ok by (simp add: parse_def RECORD_HEADER_def Let_def slice_get_def)
        with False ok hdr lb pb len show ?thesis by (auto simp: read_at_def f io off RECORD_HEADER_def Let_def)
      next
        case True
        have sg: "slice_get b (off + 8) (off + 8 + len) = Some ?body" using True by (simp add: slice_get_def)
        have h0: "slice_get (?buf @ ?body) 0 8 = Some ?buf" using lb by (simp add: slice_get_def)
        have s0: "slice_get (?buf @ ?body) 8 (8 + len) = Some ?body"
          using lb True by (simp add: slice_get_def)
        have bl: "length ?body = len" using True by simp
        obtain crc0 where c0: "from_le (slice_of ?buf 4 8) = crc0" by simp
        have p1: "parse crc b off = (if unat (crc ?body) \<noteq> crc0 then Invalid else Record (off + 8) (off + 8 + len))"
          using h hdr len' ok sg c0 by (simp add: parse_def RECORD_HEADER_def Let_def)
        have p2: "parse crc (?buf @ ?body) 0 = (if unat (crc ?body) \<noteq> crc0 then Invalid else Record 8 (8 + len))"
          using h0 len' ok s0 c0 by (simp add: parse_def RECORD_HEADER_def Let_def)
        have sl: "slice_of b (off + 8) (off + 8 + len) = ?body" by (simp add: slice_of_def)
        have e: "read_at crc (rd, w) = (case parse crc (?buf @ ?body) 0 of
            Record _ _ \<Rightarrow> (let next = Cursor (segment (rpos rd)) (offset (rpos rd) + length (?buf @ ?body)) in
                    (Inr (AtRecord \<lparr>at_pos = rpos rd, next_pos = next, payload = ?body\<rparr>),
                     (rd\<lparr>rpos := next\<rparr>, w)))
               | _ \<Rightarrow> (Inr AtBad, (rd, w)))"
          using ok lb pb len bl by (auto simp: read_at_def f io off RECORD_HEADER_def Let_def)
        show ?thesis
          unfolding e p2 off p1 using lb bl hdr sl by (auto simp: Let_def add.commute)
      qed
    qed
  qed
qed


section \<open>The loops on a directory at rest\<close>

lemma later_last:
  assumes "fs_ok w" "\<not> (listing w \<noteq> [] \<and> last (listing w) > n)"
  shows "later crc w n = []"
proof -
  have "m \<le> n" if m: "m \<in> set (listing w)" for m
  proof -
    from m obtain xs x where x: "listing w = xs @ [x]" by (metis empty_iff empty_set rev_exhaust)
    with m listing_sorted [OF assms(1)] have "m \<le> x" by (auto simp: sorted_wrt_append)
    then show ?thesis using assms(2) x by simp
  qed
  then have "filter (\<lambda>m. n < m) (listing w) = []" by (auto simp: filter_empty_conv not_less)
  then show ?thesis by (simp add: later_def)
qed

lemma next_segment_listed:
  assumes "listing w \<noteq> []" "last (listing w) > segment (rpos rd)"
  shows "next_segment rd = rd\<lparr>rfile := None, rpos := Cursor (Suc (segment (rpos rd))) 0\<rparr>"
proof -
  have "last (listing w) \<le> U64_MAX"
    using set_segment_seqs [of "map fst (files w)"] last_in_set [OF assms(1)]
    by (auto simp: listing_def simp del: set_map)
  then show ?thesis using assms(2) by (simp add: next_segment_def sat_add_u64_def)
qed

lemma enter_turn_result:
  assumes w: "at_rest w" and f: "rfile rd = None"
  shows "\<exists>t rd'. enter_turn (rd, w) = (Inr t, (rd', w)) \<and> unread crc rd' w = unread crc rd w \<and>
    reader_ok w rd' \<and> (t = Entered True \<longrightarrow> rfile rd' \<noteq> None) \<and> (t \<noteq> Entered True \<longrightarrow> rfile rd' = None) \<and>
    (t = Entered False \<longrightarrow> unread crc rd w = [])"
proof -
  from w have fo: "fs_ok w" by (simp add: at_rest_def)
  obtain k off where c: "rpos rd = Cursor k off" by (cases "rpos rd")
  have u: "unread crc rd w = pending_from crc w (Cursor k off)" by (simp add: unread_def f c)
  note find = pending_from_find [OF fo, of crc "Cursor k off"]
  have ls: "reader_io list_segments (rd, w) = (Inr (listing w), (rd, w))"
    by (simp add: reader_io_def at_rest_calls [OF w])
  show ?thesis
  proof (cases "find (\<lambda>s. s \<ge> k) (listing w)")
    case None
    then have "enter_turn (rd, w) = (Inr (Entered False), (rd, w))" by (simp add: enter_turn_def ls c)
    moreover have "unread crc rd w = []" using find None by (simp add: u)
    ultimately show ?thesis using f by (auto simp: reader_ok_def)
  next
    case (Some n)
    from find_mem [OF Some] have n: "n \<in> set (listing w)" "k \<le> n" by auto
    let ?b = "bytes_at w (segment_path n)" and ?off = "if n > k then 0 else off"
    let ?sealed = "listing w \<noteq> [] \<and> last (listing w) > n"
    obtain rd1 where rd1: "(if n > k then rd\<lparr>rpos := Cursor n 0\<rparr> else rd) = rd1" by simp
    have rp: "rpos rd1 = Cursor n ?off" "rfile rd1 = None" using n(2) c f by (auto simp flip: rd1)
    have uf: "unread crc rd w = rest_of crc ?b ?off @ later crc w n" using find Some by (simp add: u)
    have hd: "handle_data w (segment_path n) = ?b"
      using at_rest_node [OF w n(1)] by (rule handle_data_regular)
    have hr: "reader_io (read_up_to (segment_path n) 0 8) (r, w) = (Inr (take 8 ?b), (r, w))" for r
      by (simp add: reader_io_def at_rest_calls [OF w] hd)
    note last = later_last [OF fo]
    have et: "enter_turn (rd, w) = (if take 8 ?b = SEGMENT_MAGIC then
         (Inr (Entered True), (rd1\<lparr>rpos := Cursor n (max ?off SEGMENT_HEADER), rfile := Some n\<rparr>, w))
       else if \<not> ?sealed then (Inr (Entered False), (rd1, w))
       else (Inr Again, (next_segment (rd1\<lparr>corrupt_segments := corrupt_segments rd1 + 1\<rparr>), w)))"
      using Some rp rd1 at_rest_open [OF w n(1)] hr [of rd1]
      by (simp add: enter_turn_def ls c Let_def)
    consider (ok) "take 8 ?b = SEGMENT_MAGIC" | (new) "take 8 ?b \<noteq> SEGMENT_MAGIC" "\<not> ?sealed"
      | (bad) "take 8 ?b \<noteq> SEGMENT_MAGIC" "?sealed" by blast
    then show ?thesis
    proof cases
      case ok
      let ?rd = "rd1\<lparr>rpos := Cursor n (max ?off SEGMENT_HEADER), rfile := Some n\<rparr>"
      have "unread crc ?rd w = unread crc rd w"
        using ok hd unfolding uf by (simp add: unread_def rest_of_def SEGMENT_HEADER_def)
      then show ?thesis using et ok by (auto simp: reader_ok_def SEGMENT_HEADER_def)
    next
      case new
      have "unread crc rd1 w = pending_from crc w (Cursor n ?off)" by (simp add: unread_def rp)
      then have "unread crc rd1 w = unread crc rd w" using n(1) by (simp add: uf pending_from_def)
      moreover have "unread crc rd w = []" using new last by (simp add: uf rest_of_def SEGMENT_HEADER_def)
      ultimately show ?thesis using et new rp by (auto simp: reader_ok_def)
    next
      case bad
      have "next_segment (rd1\<lparr>corrupt_segments := corrupt_segments rd1 + 1\<rparr>) =
          rd1\<lparr>corrupt_segments := corrupt_segments rd1 + 1, rfile := None, rpos := Cursor (Suc n) 0\<rparr>"
        using bad(2) by (subst next_segment_listed [of w]) (simp_all add: rp)
      moreover have "unread crc (rd1\<lparr>corrupt_segments := corrupt_segments rd1 + 1, rfile := None,
          rpos := Cursor (Suc n) 0\<rparr>) w = unread crc rd w"
        using bad later_next [OF fo, of crc n] unfolding uf
        by (simp add: unread_def rest_of_def SEGMENT_HEADER_def)
      ultimately show ?thesis using et bad by (auto simp: reader_ok_def)
    qed
  qed
qed

lemma enter_segment_result:
  assumes "at_rest w" "rfile rd = None"
  shows "\<exists>b rd'. enter_segment (rd, w) = (Inr b, (rd', w)) \<and> unread crc rd' w = unread crc rd w \<and>
    reader_ok w rd' \<and> (b \<longrightarrow> rfile rd' \<noteq> None) \<and> (\<not> b \<longrightarrow> unread crc rd w = [])"
  using assms
proof (induction "(rd, w)" arbitrary: rd rule: enter_segment.induct)
  case (1 rd)
  from enter_turn_result [OF "1.prems"] obtain t rd1 where t: "enter_turn (rd, w) = (Inr t, (rd1, w))"
    "unread crc rd1 w = unread crc rd w" "reader_ok w rd1" "t = Entered True \<longrightarrow> rfile rd1 \<noteq> None"
    "t \<noteq> Entered True \<longrightarrow> rfile rd1 = None" "t = Entered False \<longrightarrow> unread crc rd w = []" by blast
  show ?case
  proof (cases t)
    case (Entered b)
    then show ?thesis using t by (cases b) (auto simp: enter_segment.simps [of rd w])
  next
    case Again
    with t have "\<exists>b rd'. enter_segment (rd1, w) = (Inr b, (rd', w)) \<and> unread crc rd' w = unread crc rd1 w \<and>
      reader_ok w rd' \<and> (b \<longrightarrow> rfile rd' \<noteq> None) \<and> (\<not> b \<longrightarrow> unread crc rd1 w = [])"
      by (intro "1.hyps" [OF t(1) [unfolded Again, symmetric] refl refl "1.prems"(1)]) simp
    then show ?thesis using t Again by (simp add: enter_segment.simps [of rd w])
  qed
qed

text \<open>What one turn of \<open>next_record\<close> does to what is left to read.\<close>

definition took :: "bytes list \<Rightarrow> delivered option option \<Rightarrow> bytes list \<Rightarrow> bool" where
  "took ps r qs \<longleftrightarrow> (case r of
     None \<Rightarrow> qs = ps
   | Some None \<Rightarrow> ps = [] \<and> qs = []
   | Some (Some d) \<Rightarrow> ps = payload d # qs)"

lemma record_turn_none:
  assumes w: "at_rest w" and f: "rfile rd = Some n" and n: "segment (rpos rd) = n" and ok: "reader_ok w rd"
    and a: "read_at crc (rd, w) = (Inr a, (rd, w))" "a = AtEnd \<or> a = AtBad"
    and t: "unread crc rd w = later crc w n"
    and en: "(if rfile rd0 = None then enter_segment (rd0, w) else (Inr True, (rd0, w))) = (Inr True, (rd, w))"
  shows "\<exists>r rd'. record_turn crc (rd0, w) = (Inr r, (rd', w)) \<and> reader_ok w rd' \<and> took (unread crc rd w) r (unread crc rd' w)"
proof -
  from w have fo: "fs_ok w" by (simp add: at_rest_def)
  let ?newer = "listing w \<noteq> [] \<and> last (listing w) > n"
  have nw: "newer_segment_exists (rd, w) = (Inr ?newer, (rd, w))"
    by (simp add: newer_segment_exists_def reader_io_def at_rest_calls [OF w] n)
  show ?thesis
  proof (cases ?newer)
    case False
    then have "unread crc rd w = []" using t later_last [OF fo] by simp
    then show ?thesis using a nw False ok by (auto simp: took_def record_turn_def en)
  next
    case True
    let ?rd = "rd\<lparr>corrupt_segments := corrupt_segments rd + 1\<rparr>"
    let ?next = "\<lambda>r :: reader. r\<lparr>rfile := None, rpos := Cursor (Suc n) 0\<rparr>"
    have e: "next_segment rd = ?next rd" "next_segment ?rd = ?next ?rd"
      using next_segment_listed [of w rd] next_segment_listed [of w ?rd] True n by simp_all
    have "unread crc (?next rd) w = unread crc rd w" "unread crc (?next ?rd) w = unread crc rd w"
      unfolding t using later_next [OF fo, of crc n] by (simp_all add: unread_def)
    then show ?thesis using a(2) nw True e
      by (elim disjE) (simp_all add: a(1) took_def reader_ok_def record_turn_def en)
  qed
qed

lemma record_turn_result:
  assumes w: "at_rest w" and ok: "reader_ok w rd"
  shows "\<exists>r rd'. record_turn crc (rd, w) = (Inr r, (rd', w)) \<and> reader_ok w rd' \<and>
    took (unread crc rd w) r (unread crc rd' w)"
proof -
  from w have fo: "fs_ok w" by (simp add: at_rest_def)
  obtain en rd1 where en: "(if rfile rd = None then enter_segment (rd, w) else (Inr True, (rd, w))) = (Inr en, (rd1, w))"
    "unread crc rd1 w = unread crc rd w" "reader_ok w rd1" "en \<longrightarrow> rfile rd1 \<noteq> None" "\<not> en \<longrightarrow> unread crc rd w = []"
    using enter_segment_result [OF w, of rd crc] ok by (cases "rfile rd = None") auto
  show ?thesis
  proof (cases en)
    case False
    then show ?thesis using en by (simp add: record_turn_def took_def)
  next
    case True
    then obtain n where f: "rfile rd1 = Some n" using en by auto
    then have n: "segment (rpos rd1) = n" using en(3) by (simp add: reader_ok_def)
    obtain b off where b: "handle_data w (segment_path n) = b" and off: "offset (rpos rd1) = off" by simp
    have u: "unread crc rd w = tail_from crc b off @ later crc w n"
      using en(2) by (simp add: unread_def f b off n)
    note ra = read_at_result [OF w f b, of crc, unfolded off n]
    show ?thesis
    proof (cases "parse crc b off")
      case (Record s e)
      let ?rd' = "rd1\<lparr>rpos := Cursor n e\<rparr>"
      have le: "off \<le> length b" "e \<le> length b"
        using parse_Record_progress [OF Record] by linarith+
      have "unread crc ?rd' w = tail_from crc b e @ later crc w n" by (simp add: unread_def f b)
      moreover have "tail_from crc b off = slice_of b s e # tail_from crc b e"
        using Record le by (simp add: tail_from_parse)
      moreover have "reader_ok w ?rd'"
        using en(3) n parse_Record_progress [OF Record] off by (auto simp: reader_ok_def f)
      ultimately show ?thesis using en True ra Record u by (simp add: record_turn_def took_def)
    next
      case none: Incomplete
      have t: "tail_from crc b off = []"
        using none tail_from_parse [of off b crc] tail_from_end [of b off crc] by (cases "off \<le> length b") auto
      then have "unread crc rd1 w = later crc w n" using u en(2) by simp
      moreover have "read_at crc (rd1, w) = (Inr (if length b \<le> off then AtEnd else AtBad), (rd1, w))"
        using ra none by simp
      ultimately show ?thesis
        using record_turn_none [OF w f n en(3), of crc _ rd] en(1,2) True by auto
    next
      case none: Invalid
      have t: "tail_from crc b off = []"
        using none tail_from_parse [of off b crc] tail_from_end [of b off crc] by (cases "off \<le> length b") auto
      then have "unread crc rd1 w = later crc w n" using u en(2) by simp
      moreover have "read_at crc (rd1, w) = (Inr (if length b \<le> off then AtEnd else AtBad), (rd1, w))"
        using ra none by simp
      ultimately show ?thesis
        using record_turn_none [OF w f n en(3), of crc _ rd] en(1,2) True by auto
    qed
  qed
qed


lemma reader_ok_open [simp]: "reader_ok w (reader_open c)"
  by (simp add: reader_ok_def reader_open_def)

lemma unread_open: "unread crc (reader_open c) w = pending_from crc w c"
  by (simp add: unread_def reader_open_def)

text \<open>A reader that enters a listed segment could as well have been opened at its position.\<close>

lemma unread_reopened:
  assumes "at_rest w" "reader_ok w rd" "segment (rpos rd) \<in> set (listing w)"
  shows "unread crc rd w = unread crc (reader_open (rpos rd)) w"
proof (cases "rfile rd")
  case None
  then show ?thesis by (simp add: unread_open) (simp add: unread_def)
next
  case (Some n)
  then have n: "n = segment (rpos rd)" "max (offset (rpos rd)) SEGMENT_HEADER = offset (rpos rd)"
    "take SEGMENT_HEADER (bytes_at w (segment_path n)) = SEGMENT_MAGIC"
    using assms by (auto simp: reader_ok_def)
  have "handle_data w (segment_path n) = bytes_at w (segment_path n)"
    using at_rest_node [OF assms(1), of n] assms(3) n(1) by (intro handle_data_regular) simp
  then show ?thesis using n assms(3) Some
    by (simp add: unread_open) (simp add: unread_def pending_from_def rest_of_def)
qed

definition reached :: "(bytes \<Rightarrow> u32) \<Rightarrow> reader \<Rightarrow> world \<Rightarrow> delivered option \<Rightarrow> reader \<Rightarrow> bool" where
  "reached crc rd w r rd' \<longleftrightarrow> (case r of
     None \<Rightarrow> unread crc rd w = [] \<and> unread crc rd' w = []
   | Some d \<Rightarrow> unread crc rd w = payload d # unread crc rd' w)"

lemma next_record_result:
  assumes "at_rest w" "reader_ok w rd"
  shows "\<exists>r rd'. next_record crc (rd, w) = (Inr r, (rd', w)) \<and> reader_ok w rd' \<and> reached crc rd w r rd'"
  using assms
proof (induction crc "(rd, w)" arbitrary: rd rule: next_record.induct)
  case (1 crc rd)
  from record_turn_result [OF "1.prems"] obtain r rd1 where t: "record_turn crc (rd, w) = (Inr r, (rd1, w))"
    "reader_ok w rd1" "took (unread crc rd w) r (unread crc rd1 w)" by blast
  show ?case
  proof (cases r)
    case (Some d)
    then have "next_record crc (rd, w) = (Inr d, (rd1, w))" using t by (simp add: next_record.simps [of crc rd w])
    then show ?thesis using t Some by (cases d) (auto simp: took_def reached_def)
  next
    case None
    have "\<exists>r rd'. next_record crc (rd1, w) = (Inr r, (rd', w)) \<and> reader_ok w rd' \<and> reached crc rd1 w r rd'"
      by (rule "1.hyps" [OF t(1) [unfolded None, symmetric] refl refl "1.prems"(1) t(2)])
    moreover have "unread crc rd1 w = unread crc rd w" using t None by (simp add: took_def)
    ultimately show ?thesis
      using t None by (simp add: next_record.simps [of crc rd w] reached_def cong: option.case_cong)
  qed
qed


text \<open>The position reported with a record is the reader's own, whatever fails.\<close>

lemma frame_none: "f \<noteq> Incomplete \<Longrightarrow> f \<noteq> Invalid \<Longrightarrow> \<forall>s n. f \<noteq> Record s n \<Longrightarrow> P"
  by (cases f) auto

lemma read_at_next_pos:
  "read_at crc st = (Inr (AtRecord d), (rd', w')) \<Longrightarrow> next_pos d = rpos rd'"
  by (auto simp: read_at_def Let_def and_then_eq_Inr split: prod.splits option.splits if_splits frame.splits
      elim!: reader_io_cases elim: frame_none)

lemma record_turn_next_pos:
  assumes "record_turn crc st = (Inr (Some (Some d)), (rd', w'))"
  shows "next_pos d = rpos rd'"
proof -
  from assms obtain en st1 where k1: "(if \<not> en then (Inr (Some None), st1)
       else and_then (read_at crc st1) (\<lambda>a st.
         case a of
           AtRecord r \<Rightarrow> (Inr (Some (Some r)), st)
         | _ \<Rightarrow> and_then (newer_segment_exists st) (\<lambda>newer st.
               if \<not> newer then (Inr (Some None), st)
               else and_then (read_at crc st) (\<lambda>a (rd, w).
                 case a of
                   AtRecord r \<Rightarrow> (Inr (Some (Some r)), (rd, w))
                 | AtEnd \<Rightarrow> (Inr None, (next_segment rd, w))
                 | AtBad \<Rightarrow> (Inr None,
                     (next_segment (rd\<lparr>corrupt_segments := corrupt_segments rd + 1\<rparr>), w)))))) =
       (Inr (Some (Some d)), (rd', w'))"
    by (auto simp: record_turn_def and_then_eq_Inr)
  then obtain a st2 where r1: "read_at crc st1 = (Inr a, st2)"
    and k2: "(case a of
           AtRecord r \<Rightarrow> (Inr (Some (Some r)), st2)
         | _ \<Rightarrow> and_then (newer_segment_exists st2) (\<lambda>newer st.
               if \<not> newer then (Inr (Some None), st)
               else and_then (read_at crc st) (\<lambda>a (rd, w).
                 case a of
                   AtRecord r \<Rightarrow> (Inr (Some (Some r)), (rd, w))
                 | AtEnd \<Rightarrow> (Inr None, (next_segment rd, w))
                 | AtBad \<Rightarrow> (Inr None,
                     (next_segment (rd\<lparr>corrupt_segments := corrupt_segments rd + 1\<rparr>), w))))) =
       (Inr (Some (Some d)), (rd', w'))"
    by (cases en) (auto simp: and_then_eq_Inr)
  show ?thesis
  proof (cases a)
    case (AtRecord r)
    then show ?thesis using r1 k2 read_at_next_pos by auto
  next
    case AtEnd
    then obtain b st3 rd4 w4 where r2: "read_at crc st3 = (Inr b, (rd4, w4))"
      and "(case b of AtRecord r \<Rightarrow> (Inr (Some (Some r)), (rd4, w4))
         | AtEnd \<Rightarrow> (Inr None, (next_segment rd4, w4))
         | AtBad \<Rightarrow> (Inr None, (next_segment (rd4\<lparr>corrupt_segments := corrupt_segments rd4 + 1\<rparr>), w4))) =
       ((Inr (Some (Some d)), (rd', w')) :: delivered option option rres)"
      using k2 by (auto simp: and_then_eq_Inr split: if_splits)
    then show ?thesis using read_at_next_pos by (cases b) auto
  next
    case AtBad
    then obtain b st3 rd4 w4 where r2: "read_at crc st3 = (Inr b, (rd4, w4))"
      and "(case b of AtRecord r \<Rightarrow> (Inr (Some (Some r)), (rd4, w4))
         | AtEnd \<Rightarrow> (Inr None, (next_segment rd4, w4))
         | AtBad \<Rightarrow> (Inr None, (next_segment (rd4\<lparr>corrupt_segments := corrupt_segments rd4 + 1\<rparr>), w4))) =
       ((Inr (Some (Some d)), (rd', w')) :: delivered option option rres)"
      using k2 by (auto simp: and_then_eq_Inr split: if_splits)
    then show ?thesis using read_at_next_pos by (cases b) auto
  qed
qed

lemma next_record_next_pos:
  "next_record crc (rd, w) = (Inr (Some d), (rd', w')) \<Longrightarrow> next_pos d = rpos rd'"
proof (induction crc "(rd, w)" arbitrary: rd w rule: next_record.induct)
  case (1 crc rd w)
  obtain rr st where t: "record_turn crc (rd, w) = (rr, st)" by (rule prod.exhaust)
  show ?case
  proof (cases "\<exists>rd1 w1. rr = Inr None \<and> st = (rd1, w1)")
    case True
    then obtain rd1 w1 where e: "record_turn crc (rd, w) = (Inr None, (rd1, w1))" using t by blast
    from "1.hyps" [OF e [symmetric] refl refl] "1.prems" e show ?thesis
      by (simp add: next_record.simps [of crc rd w])
  next
    case False
    then have "record_turn crc (rd, w) = (Inr (Some (Some d)), (rd', w'))"
      using "1.prems" t by (cases st) (auto simp: next_record.simps [of crc rd w] split: sum.splits option.splits)
    then show ?thesis by (rule record_turn_next_pos)
  qed
qed

section \<open>The reader as a source\<close>

definition reader_step :: "(bytes \<Rightarrow> u32) \<Rightarrow> rstate \<Rightarrow> bytes option \<times> rstate" where
  "reader_step crc st = (case next_record crc st of
     (Inr (Some d), st) \<Rightarrow> (Some (payload d), st)
   | (_, st) \<Rightarrow> (None, st))"

interpretation log_reader: source "reader_step crc" "\<lambda>(rd, w). unread crc rd w"
  "\<lambda>(rd, w). at_rest w \<and> reader_ok w rd" for crc
proof
  fix s s' :: rstate and x
  assume ok: "case s of (rd, w) \<Rightarrow> at_rest w \<and> reader_ok w rd" and st: "reader_step crc s = (Some x, s')"
  obtain rd w where s: "s = (rd, w)" by fastforce
  from next_record_result [of w rd crc] ok s obtain r rd' where
    "next_record crc (rd, w) = (Inr r, (rd', w))" "reader_ok w rd'" "reached crc rd w r rd'" by auto
  then show "(case s of (rd, w) \<Rightarrow> unread crc rd w) = x # (case s' of (rd, w) \<Rightarrow> unread crc rd w) \<and>
      (case s' of (rd, w) \<Rightarrow> at_rest w \<and> reader_ok w rd)"
    using st ok s by (cases r) (auto simp: reader_step_def reached_def)
next
  fix s s' :: rstate
  assume ok: "case s of (rd, w) \<Rightarrow> at_rest w \<and> reader_ok w rd" and st: "reader_step crc s = (None, s')"
  obtain rd w where s: "s = (rd, w)" by fastforce
  from next_record_result [of w rd crc] ok s obtain r rd' where
    "next_record crc (rd, w) = (Inr r, (rd', w))" "reader_ok w rd'" "reached crc rd w r rd'" by auto
  then show "(case s of (rd, w) \<Rightarrow> unread crc rd w) = [] \<and> (case s' of (rd, w) \<Rightarrow> unread crc rd w) = [] \<and>
      (case s' of (rd, w) \<Rightarrow> at_rest w \<and> reader_ok w rd)"
    using st ok s by (cases r) (auto simp: reader_step_def reached_def)
qed

section \<open>Reading what the writer wrote\<close>

lemma filter_map_seq_log:
  assumes "\<forall>s \<in> set ss. len s = 0 \<longrightarrow> f s = []"
  shows "concat (map f (filter (\<lambda>s. 0 < len s) ss)) = concat (map f ss)"
  using assms by (induction ss) auto

lemma unread_from_start:
  assumes "fs_ok w"
  shows "unread crc (reader_open cursor_default) w =
    concat (map (\<lambda>n. seg_payloads crc (bytes_at w (segment_path n))) (listing w))"
proof -
  have e: "filter (\<lambda>s. 0 \<le> s) (listing w) = listing w" by simp
  from filter_ge_split [OF listing_sorted [OF assms], of 0]
  have "listing w = (if 0 \<in> set (listing w) then [0] else []) @ filter (\<lambda>s. 0 < s) (listing w)"
    unfolding e .
  from arg_cong [OF this, of "\<lambda>ns. concat (map (\<lambda>n. seg_payloads crc (bytes_at w (segment_path n))) ns)"]
  show ?thesis
    by (simp add: unread_open pending_from_def cursor_default_def later_def rest_of_0 split: if_splits)
qed

lemma whole_segment:
  assumes inv: "seg_inv crc wr w" and f: "active_file wr \<noteq> None" and s: "s \<in> set (segments wr)"
  shows "seg_payloads crc (bytes_at w (segment_path (seq s))) = seg_log crc w s"
proof -
  from inv obtain ss a where ss: "segments wr = ss @ [a]" "\<forall>s \<in> set ss. sealed_ok w s"
    "active_ok crc w (active_file wr) a" by (rule seg_inv_split)
  have "sealed_ok w s" using s ss f by (auto simp: active_ok_def sealed_ok_def)
  then obtain b where b: "node_of w (segment_path (seq s)) = Some (Regular b)" "length b = len s"
    by (auto simp: sealed_ok_def)
  then show ?thesis using seg_log_whole [OF b] by (simp add: bytes_at_def)
qed

section \<open>Properties\<close>

text \<open>C2: reading. Whatever bytes the segments of a directory at rest hold, \<open>next_record\<close> never fails:
  it returns the first of the records a scan of the remaining segments finds, and leaves exactly
  the others (corrupt sealed segments and torn tails skipped, nothing twice, nothing out of order);
  it returns \<open>None\<close> exactly when none is left. The position it reports is where a reader opened
  anew, after a restart or from the acknowledged cursor, goes on with exactly the others.\<close>

theorem next_record_outcome:
  assumes "at_rest w" and "reader_ok w rd"
  shows "\<exists>r rd'. next_record crc (rd, w) = (Inr r, (rd', w)) \<and> reader_ok w rd' \<and>
    (case r of
       None \<Rightarrow> unread crc rd w = [] \<and> unread crc rd' w = []
     | Some d \<Rightarrow> unread crc rd w = payload d # unread crc rd' w \<and> next_pos d = rpos rd' \<and>
         (segment (next_pos d) \<in> set (listing w) \<longrightarrow>
            unread crc (reader_open (next_pos d)) w = unread crc rd' w))"
proof -
  from next_record_result [OF assms] obtain r rd' where n: "next_record crc (rd, w) = (Inr r, (rd', w))"
    "reader_ok w rd'" "reached crc rd w r rd'" by blast
  show ?thesis
  proof (cases r)
    case None
    then show ?thesis using n by (auto simp: reached_def)
  next
    case (Some d)
    then have "next_pos d = rpos rd'" using n(1) next_record_next_pos by simp
    then show ?thesis using n Some unread_reopened [OF assms(1) n(2)] by (auto simp: reached_def)
  qed
qed


text \<open>A directory whose first segment has a corrupt second record, read from the start.\<close>

definition corrupt_world :: world where
  "corrupt_world = demo_world\<lparr>files :=
     [(segment_path 2, Regular (SEGMENT_MAGIC @ frames demo_crc [[5]])),
      (segment_path 1, Regular (SEGMENT_MAGIC @ frames demo_crc [[9]] @ [1, 0, 0, 0, 1, 1, 1, 1, 4] @ frames demo_crc [[6]]))]\<rparr>"

lemma corrupt_at_rest: "at_rest corrupt_world"
  by (auto simp: at_rest_def fault_free_def fs_ok_def corrupt_world_def demo_world_def node_of_def)

theorem next_record_outcome_witness:
  "unread demo_crc (reader_open cursor_default) corrupt_world = [[9], [5]] \<and>
   (\<exists>d rd'. next_record demo_crc (reader_open cursor_default, corrupt_world) = (Inr (Some d), (rd', corrupt_world)) \<and>
      payload d = [9] \<and> unread demo_crc rd' corrupt_world = [[5]])"
proof -
  have u: "unread demo_crc (reader_open cursor_default) corrupt_world = [[9], [5]]" by code_simp
  from next_record_outcome [OF corrupt_at_rest reader_ok_open, of demo_crc cursor_default] u
  show ?thesis by (fastforce split: option.splits)
qed

text \<open>C6: a reader gets what the writer wrote. With the file system at rest (no call fails, no segment
  name is anything but a regular file), while the writer holds its handle and every segment file in
  the directory is one of its segments, a reader that starts at the oldest record and reads until
  nothing comes (one step more than there are records is enough) receives exactly the records of the
  writer's segments, in order: the writer's whole log but for the records still queued in memory.\<close>

theorem reader_gets_log:
  assumes "writer_inv crc wr w" and "at_rest w" and "active_file wr \<noteq> None"
    and "listing w = map seq (segments wr)"
    and "out = fst (log_reader.consume crc (Suc (length (disk_log crc wr w))) (reader_open cursor_default, w))"
  shows "out = disk_log crc wr w \<and> total_log crc wr w = out @ queue crc wr"
proof -
  from assms(1) have inv: "seg_inv crc wr w" by (simp add: writer_inv_def)
  have "map (\<lambda>n. seg_payloads crc (bytes_at w (segment_path n))) (listing w) = map (seg_log crc w) (segments wr)"
    using whole_segment [OF inv assms(3)] by (simp add: assms(4))
  then have u: "unread crc (reader_open cursor_default) w = disk_log crc wr w"
    using assms(2) by (simp add: unread_from_start at_rest_def disk_log_def)
  show ?thesis
    using log_reader.consume_all [of "(reader_open cursor_default, w)" crc "Suc (length (disk_log crc wr w))"]
      assms(2) u by (simp add: assms(5) total_log_def)
qed

theorem reader_gets_log_witness:
  "fst (log_reader.consume demo_crc 2 (reader_open cursor_default, snd demo_written)) = [[1, 2, 3]]"
proof -
  have n: "files (snd demo_written) = [(segment_path 1, Regular (SEGMENT_MAGIC @ frames demo_crc [[1, 2, 3]]))]"
    "fates (snd demo_written) = []" "disk_log demo_crc (fst demo_written) (snd demo_written) = [[1, 2, 3]]"
    "listing (snd demo_written) = map seq (segments (fst demo_written))" "active_file (fst demo_written) \<noteq> None"
    by code_simp+
  have "at_rest (snd demo_written)"
    by (auto simp: at_rest_def fault_free_def fs_ok_def node_of_def n)
  from reader_gets_log [OF demo_inv(3) this n(5,4) refl]
  show ?thesis unfolding n(3) by (simp add: numeral_2_eq_2 del: source.consume.simps)
qed

end
