(* ===== verification/Ag_Time.thy ===== *)
theory Ag_Time
  imports Prelude "HOL-Library.Signed_Division"
begin

text \<open>
  The agent's clock and settings (\<open>crates/atlas-agent/src/time.rs\<close> and \<open>config.rs\<close>): QPC ticks
  against nanoseconds, the anchor that turns a QPC reading into Unix time, the FILETIME
  conversion, and the pipeline's and the services' defaults. A duration is its number of
  nanoseconds, an \<open>i64\<close> or \<open>i128\<close> value an \<open>int\<close> with the range written out. Facts: conversions
  never leave \<open>i64\<close>, keep order, are exact inside the range, and round down.
\<close>

section \<open>Ticks\<close>

record ticks =
  frequency :: int

text \<open>\<open>Ticks::new\<close> asserts a positive frequency: \<open>None\<close> is the panic.\<close>

definition ticks_new :: "int \<Rightarrow> ticks option" where
  "ticks_new f = (if f > 0 then Some \<lparr>frequency = f\<rparr> else None)"

definition U128_MAX :: int where
  "U128_MAX = 2 ^ 128 - 1"

definition ticks_of :: "ticks \<Rightarrow> nat \<Rightarrow> int" where
  "ticks_of t d =
     (let n = min U128_MAX (int d * frequency t) div 1000000000
      in if n \<le> I64_MAX then n else I64_MAX)"

text \<open>\<open>i64::try_from\<close> of an \<open>i128\<close>, saturating by sign.\<close>

definition saturate :: "int \<Rightarrow> int" where
  "saturate ns = (if in_i64 ns then ns else if ns < 0 then I64_MIN else I64_MAX)"

definition to_nanos :: "ticks \<Rightarrow> int \<Rightarrow> int" where
  "to_nanos t n = saturate ((n * 1000000000) sdiv frequency t)"

lemma saturate_clamp: "saturate x = clamp_i64 x"
  by (auto simp: saturate_def clamp_i64_def in_i64_def)

section \<open>The clock\<close>

record anchor =
  anchor_qpc :: int
  anchor_ns :: int

record clock =
  clock_ticks :: ticks
  clock_anchor :: anchor

definition clock_new :: "ticks \<Rightarrow> anchor \<Rightarrow> clock" where
  "clock_new t a = \<lparr>clock_ticks = t, clock_anchor = a\<rparr>"

definition set_anchor :: "anchor \<Rightarrow> clock \<Rightarrow> clock" where
  "set_anchor a c = c\<lparr>clock_anchor := a\<rparr>"

definition unix_ns :: "clock \<Rightarrow> int \<Rightarrow> int" where
  "unix_ns c qpc = sat_add (anchor_ns (clock_anchor c))
     (to_nanos (clock_ticks c) (sat_sub qpc (anchor_qpc (clock_anchor c))))"

definition EPOCH_DIFF_100NS :: int where
  "EPOCH_DIFF_100NS = 116444736000000000"

definition filetime_to_unix_ns :: "nat \<Rightarrow> int" where
  "filetime_to_unix_ns ft = saturate ((int ft - EPOCH_DIFF_100NS) * 100)"

section \<open>Order and exactness\<close>

lemma sdiv_nonneg: "0 \<le> (a :: int) \<Longrightarrow> 0 < c \<Longrightarrow> a sdiv c = a div c"
  by (auto simp: signed_divide_int_def sgn_if)

lemma sdiv_mono: "0 < (c :: int) \<Longrightarrow> a \<le> b \<Longrightarrow> a sdiv c \<le> b sdiv c"
proof -
  assume c: "0 < c" and ab: "a \<le> b"
  consider "0 \<le> a" | "a < 0" "0 \<le> b" | "b < 0" using ab by linarith
  then show ?thesis
  proof cases
    case 1
    then show ?thesis using c ab by (simp add: sdiv_nonneg zdiv_mono1)
  next
    case 2
    have "0 \<le> (- a) div c" using 2 c by (simp add: pos_imp_zdiv_nonneg_iff)
    moreover have "0 \<le> b div c" using 2 c by (simp add: pos_imp_zdiv_nonneg_iff)
    ultimately show ?thesis using 2 c by (auto simp: signed_divide_int_def sgn_if)
  next
    case 3
    have "(- b) div c \<le> (- a) div c" using c ab by (intro zdiv_mono1) auto
    then show ?thesis using 3 ab c by (simp add: signed_divide_int_def sgn_if)
  qed
qed

lemma to_nanos_mono: "0 < frequency t \<Longrightarrow> m \<le> n \<Longrightarrow> to_nanos t m \<le> to_nanos t n"
  by (simp add: to_nanos_def saturate_clamp clamp_i64_mono sdiv_mono)

lemma to_nanos_range [simp]: "in_i64 (to_nanos t n)"
  by (simp add: to_nanos_def saturate_clamp)

lemma ticks_of_range: "0 < frequency t \<Longrightarrow> 0 \<le> ticks_of t d \<and> ticks_of t d \<le> I64_MAX"
  by (auto simp: ticks_of_def Let_def U128_MAX_def pos_imp_zdiv_nonneg_iff)

text \<open>A duration in ticks, back in nanoseconds, has lost less than a tick's length.\<close>

lemma ticks_round_trip:
  assumes f: "0 < frequency t" and fits: "int d * frequency t < 2 ^ 63 * 1000000000" and d: "int d \<le> I64_MAX"
  shows "to_nanos t (ticks_of t d) \<le> int d \<and>
    (int d - to_nanos t (ticks_of t d)) * frequency t < 1000000000 + frequency t"
proof -
  let ?f = "frequency t" and ?B = "1000000000 :: int"
  let ?n = "int d * ?f div ?B"
  have small: "min U128_MAX (int d * ?f) = int d * ?f" using fits by (simp add: U128_MAX_def)
  have n0: "0 \<le> ?n" using f by (simp add: pos_imp_zdiv_nonneg_iff)
  have "?n < 2 ^ 63" using fits by (simp add: div_less_iff_less_mult)
  then have n: "ticks_of t d = ?n" by (simp add: ticks_of_def small Let_def)
  have le: "?n * ?B \<le> int d * ?f" by (simp add: minus_mod_eq_div_mult [symmetric])
  then have q: "?n * ?B div ?f \<le> int d"
    using zdiv_mono1 [OF le f] f by simp
  have q0: "0 \<le> ?n * ?B div ?f" using n0 f by (simp add: pos_imp_zdiv_nonneg_iff)
  have "to_nanos t (ticks_of t d) = ?n * ?B div ?f"
    using q q0 d n0 f by (simp add: to_nanos_def n sdiv_nonneg saturate_def in_i64_def)
  moreover have "int d * ?f < ?n * ?B + ?B"
    using div_mult_mod_eq [of "int d * ?f" ?B] pos_mod_bound [of ?B "int d * ?f"] by linarith
  moreover have "?n * ?B < (?n * ?B div ?f) * ?f + ?f"
    using div_mult_mod_eq [of "?n * ?B" ?f] pos_mod_bound [OF f, of "?n * ?B"] by linarith
  ultimately show ?thesis using q by (simp add: left_diff_distrib)
qed

section \<open>Settings\<close>

text \<open>The pipeline's settings; durations in nanoseconds.\<close>

record agent_config =
  hold :: nat
  confirm_window :: nat
  enrich_deadline :: nat
  join_deadline :: nat
  value_read_deadline :: nat
  expand_deadline :: nat
  seeder_deadline :: nat
  seeder_startup_deadline :: nat
  startup_period :: nat
  join_window :: nat
  process_retention :: nat
  process_cap :: nat
  file_map_cap :: nat
  key_map_cap :: nat
  early_key_map_cap :: nat
  network_udp :: bool
  udp_idle :: nat
  flow_cap :: nat
  dns_rate_per_pid :: nat
  watchlist :: "string list option"
  watchlist_extend :: "string list"
  watchlist_coalesce :: nat
  pending_cap :: nat
  registry_value_reads :: bool
  file_op_end :: bool
  seed_on_start :: bool
  seed_on_miss :: bool

definition millis :: "nat \<Rightarrow> nat" where "millis n = n * 1000000"
definition secs :: "nat \<Rightarrow> nat" where "secs n = n * 1000000000"

definition agent_config_default :: agent_config where
  "agent_config_default = \<lparr>hold = millis 750, confirm_window = millis 250, enrich_deadline = secs 1,
     join_deadline = secs 1, value_read_deadline = secs 1, expand_deadline = secs 1,
     seeder_deadline = secs 2, seeder_startup_deadline = secs 5, startup_period = secs 30,
     join_window = millis 200, process_retention = secs 30, process_cap = 65536,
     file_map_cap = 262144, key_map_cap = 262144, early_key_map_cap = 200000,
     network_udp = True, udp_idle = secs 60, flow_cap = 65536, dns_rate_per_pid = 100,
     watchlist = None, watchlist_extend = [], watchlist_coalesce = secs 60, pending_cap = 100000,
     registry_value_reads = True, file_op_end = True, seed_on_start = True, seed_on_miss = False\<rparr>"

record service_config =
  hash_workers :: nat
  hash_size_cap :: nat
  hash_cache_cap :: nat
  seeder_cpu :: nat
  seeder_cpu_window :: nat
  name_timeout :: nat
  max_stuck_helpers :: nat
  lane_cap :: nat

definition service_config_default :: service_config where
  "service_config_default = \<lparr>hash_workers = 2, hash_size_cap = 100 * 2 ^ 20, hash_cache_cap = 65536,
     seeder_cpu = millis 600, seeder_cpu_window = secs 60, name_timeout = millis 200,
     max_stuck_helpers = 2, lane_cap = 8192\<rparr>"

text \<open>\<open>ServiceConfig::check\<close>: the name of the first setting that is zero.\<close>

definition service_check :: "service_config \<Rightarrow> string + unit" where
  "service_check c =
     (let zero = [
        (''hash_workers'', hash_workers c = 0),
        (''hash_cache_cap'', hash_cache_cap c = 0),
        (''lane_cap'', lane_cap c = 0),
        (''seeder_cpu'', seeder_cpu c = 0),
        (''seeder_cpu_window'', seeder_cpu_window c = 0),
        (''name_timeout'', name_timeout c = 0),
        (''max_stuck_helpers'', max_stuck_helpers c = 0)]
      in case find (\<lambda>(_, z). z) zero of
           Some (name, _) \<Rightarrow> Inl (name @ '' must be greater than zero'')
         | None \<Rightarrow> Inr ())"

lemma service_check_ok:
  "service_check c = Inr () \<longleftrightarrow> 0 < hash_workers c \<and> 0 < hash_cache_cap c \<and> 0 < lane_cap c \<and>
     0 < seeder_cpu c \<and> 0 < seeder_cpu_window c \<and> 0 < name_timeout c \<and> 0 < max_stuck_helpers c"
  by (auto simp: service_check_def)

lemma service_check_default: "service_check service_config_default = Inr ()"
  by (simp add: service_check_ok service_config_default_def millis_def secs_def)

section \<open>Properties\<close>

text \<open>the clock. Under any anchor a later QPC reading never gets an earlier Unix time, the result
  is an \<open>i64\<close>, and where nothing saturates it is the anchor's time plus the elapsed ticks in
  nanoseconds, rounded towards the anchor.\<close>

lemma clock_monotone:
  assumes "0 < frequency (clock_ticks c)"
  shows "(q \<le> q' \<longrightarrow> unix_ns c q \<le> unix_ns c q') \<and> in_i64 (unix_ns c q) \<and>
    (let e = q - anchor_qpc (clock_anchor c); ns = (e * 1000000000) sdiv frequency (clock_ticks c) in
     in_i64 e \<and> in_i64 ns \<and> in_i64 (anchor_ns (clock_anchor c) + ns) \<longrightarrow>
       unix_ns c q = anchor_ns (clock_anchor c) + ns)"
  using assms
  by (auto simp: unix_ns_def Let_def sat_add_mono to_nanos_mono sat_sub_mono)
    (simp add: sat_sub_def sat_add_def clamp_i64_id to_nanos_def saturate_clamp)

lemma clock_monotone_witness:
  "unix_ns (clock_new \<lparr>frequency = 10000000\<rparr> \<lparr>anchor_qpc = 1000, anchor_ns = 1700000000000000000\<rparr>) 11000 =
     1700000000001000000"
proof -
  let ?c = "clock_new \<lparr>frequency = 10000000\<rparr> \<lparr>anchor_qpc = 1000, anchor_ns = 1700000000000000000\<rparr>"
  have "0 < frequency (clock_ticks ?c)" by (simp add: clock_new_def)
  from clock_monotone [OF this, of 11000 11000] show ?thesis
    by (simp add: clock_new_def Let_def in_i64_def signed_divide_int_def)
qed

end
