(* ===== verification/Ag_Recent.thy ===== *)
theory Ag_Recent
  imports Prelude
begin

text \<open>
  Keys with the time they were last seen, forgotten oldest first
  (\<open>crates/atlas-agent/src/recent.rs\<close>, and \<open>evict.rs\<close> for the maps that evict in batches).
  A hash map is an association list with distinct keys, the deque a list. \<open>Recent\<close> and
  \<open>RecentMap\<close> share one contract, the locale \<open>forgetting\<close>: a map of times, a queue of sightings
  and a pop that forgets a key only when the sighting popped is its latest. Its lemmas give both
  the closed form of what any number of pops leaves, hence of expiry and of the cap.
\<close>

section \<open>The shared contract\<close>

locale forgetting =
  fixes tm :: "'s \<Rightarrow> 'k \<Rightarrow> int option"
    and ord :: "'s \<Rightarrow> (int \<times> 'k) list"
    and pop :: "'s \<Rightarrow> 's"
  assumes ord_pop: "ord (pop s) = tl (ord s)"
    and tm_pop_Nil: "ord s = [] \<Longrightarrow> tm (pop s) = tm s"
    and tm_pop_Cons: "ord s = (t, k) # xs \<Longrightarrow>
      tm (pop s) = (if tm s k = Some t then (tm s)(k := None) else tm s)"
begin

text \<open>Every key in the map has its latest sighting in the queue.\<close>

definition covered :: "'s \<Rightarrow> bool" where
  "covered s \<longleftrightarrow> (\<forall>k t. tm s k = Some t \<longrightarrow> (t, k) \<in> set (ord s))"

primrec pops :: "nat \<Rightarrow> 's \<Rightarrow> 's" where
  "pops 0 s = s"
| "pops (Suc n) s = pops n (pop s)"

lemma ord_pops: "ord (pops n s) = drop n (ord s)"
  by (induction n arbitrary: s) (simp_all add: ord_pop drop_Suc)

text \<open>After any number of pops a key is left with its time, or forgotten with its sighting.\<close>

lemma tm_pops:
  "tm (pops n s) k = (case tm s k of None \<Rightarrow> None
     | Some t \<Rightarrow> if (t, k) \<in> set (take n (ord s)) then None else Some t)"
proof (induction n arbitrary: s)
  case 0
  show ?case by (simp split: option.splits)
next
  case (Suc n)
  show ?case
  proof (cases "ord s")
    case Nil
    moreover from this have "ord (pop s) = []" by (simp add: ord_pop)
    ultimately show ?thesis using Suc.IH [of "pop s"] by (simp add: tm_pop_Nil cong: option.case_cong)
  next
    case (Cons x xs)
    obtain t0 k0 where x: "x = (t0, k0)" by fastforce
    have p: "tm (pop s) = (if tm s k0 = Some t0 then (tm s)(k0 := None) else tm s)"
      using tm_pop_Cons [of s t0 k0 xs] Cons x by simp
    show ?thesis
      using Suc.IH [of "pop s"] Cons x by (auto simp: p ord_pop split: option.splits)
  qed
qed

lemma covered_pops: "covered s \<Longrightarrow> covered (pops n s)"
  unfolding covered_def
proof (intro allI impI)
  fix k t
  assume c: "\<forall>k t. tm s k = Some t \<longrightarrow> (t, k) \<in> set (ord s)" and "tm (pops n s) k = Some t"
  then have "tm s k = Some t" "(t, k) \<notin> set (take n (ord s))"
    by (auto simp: tm_pops split: option.splits if_splits)
  with c have "(t, k) \<in> set (take n (ord s) @ drop n (ord s))" by simp
  then show "(t, k) \<in> set (ord (pops n s))"
    using \<open>(t, k) \<notin> set (take n (ord s))\<close> unfolding ord_pops by (simp only: set_append Un_iff) simp
qed

text \<open>Expiry pops while the oldest sighting is too old.\<close>

definition outdated :: "int \<Rightarrow> 's \<Rightarrow> nat" where
  "outdated before s = length (takeWhile (\<lambda>(t, k). t < before) (ord s))"

lemma expire_sorted:
  assumes "covered s" "sorted (map fst (ord s))"
  shows "tm (pops (outdated before s) s) k =
    (case tm s k of None \<Rightarrow> None | Some t \<Rightarrow> if t < before then None else Some t)"
proof -
  have tk: "take (outdated before s) (ord s) = takeWhile (\<lambda>(t, k). t < before) (ord s)"
    unfolding outdated_def by (metis takeWhile_eq_take)
  have mem: "(t, k) \<in> set (takeWhile (\<lambda>(t, k). t < before) xs) \<longleftrightarrow> t < before"
    if "(t, k) \<in> set xs" "sorted (map fst xs)" for xs :: "(int \<times> 'k) list" and t k
    using that by (induction xs) (auto dest: set_takeWhileD)
  show ?thesis
  proof (cases "tm s k")
    case None
    then show ?thesis by (simp add: tm_pops)
  next
    case (Some t)
    then have "(t, k) \<in> set (ord s)" using assms(1) by (simp add: covered_def)
    then show ?thesis using mem [of t k "ord s"] assms(2) Some by (simp add: tm_pops tk)
  qed
qed

text \<open>A sighting newly queued keeps every key covered, the old time of its key included.\<close>

lemma covered_push:
  assumes "covered s" "ord s' = ord s @ [(t, k)]" "tm s' = (tm s)(k \<mapsto> t)"
  shows "covered s'"
  using assms by (auto simp: covered_def)

end

section \<open>Recent\<close>

record 'k recent =
  rmap :: "('k \<times> int) list"
  rorder :: "(int \<times> 'k) list"
  rcap :: nat
  revictions :: nat

definition recent_new :: "nat \<Rightarrow> 'k recent" where
  "recent_new cap = \<lparr>rmap = [], rorder = [], rcap = max cap 1, revictions = 0\<rparr>"

definition recent_get :: "'k \<Rightarrow> 'k recent \<Rightarrow> int option" where
  "recent_get k r = map_of (rmap r) k"

definition recent_pop :: "bool \<Rightarrow> 'k recent \<Rightarrow> 'k recent" where
  "recent_pop evicting r = (case rorder r of
     [] \<Rightarrow> r
   | (ts, k) # rest \<Rightarrow>
       (let r = r\<lparr>rorder := rest\<rparr> in
        if map_of (rmap r) k = Some ts then
          (let r = r\<lparr>rmap := AList.delete k (rmap r)\<rparr>
           in if evicting then r\<lparr>revictions := revictions r + 1\<rparr> else r)
        else r))"

lemma length_recent_pop: "length (rorder (recent_pop e r)) = length (rorder r) - 1"
  by (auto simp: recent_pop_def Let_def split: list.splits)

text \<open>The two loops: past the cap, and by time.\<close>

function recent_trim :: "'k recent \<Rightarrow> 'k recent" where
  "recent_trim r = (if length (rorder r) > rcap r then recent_trim (recent_pop True r) else r)"
  by pat_completeness auto
termination
  by (relation "measure (\<lambda>r. length (rorder r))") (auto simp: length_recent_pop)

declare recent_trim.simps [simp del]

definition recent_insert :: "'k \<Rightarrow> int \<Rightarrow> 'k recent \<Rightarrow> 'k recent" where
  "recent_insert k ts r =
     (if is_some_and (map_of (rmap r) k) (\<lambda>t. t \<ge> ts) then r
      else recent_trim (r\<lparr>rmap := AList.update k ts (rmap r), rorder := rorder r @ [(ts, k)]\<rparr>))"

definition recent_remove :: "'k \<Rightarrow> 'k recent \<Rightarrow> int option \<times> 'k recent" where
  "recent_remove k r = (map_of (rmap r) k, r\<lparr>rmap := AList.delete k (rmap r)\<rparr>)"

function recent_expire :: "int \<Rightarrow> 'k recent \<Rightarrow> 'k recent" where
  "recent_expire before r = (case rorder r of
     [] \<Rightarrow> r
   | (ts, k) # rest \<Rightarrow> if ts < before then recent_expire before (recent_pop False r) else r)"
  by pat_completeness auto
termination
  by (relation "measure (\<lambda>(b, r). length (rorder r))") (auto simp: length_recent_pop)

declare recent_expire.simps [simp del]

definition recent_len :: "'k recent \<Rightarrow> nat" where
  "recent_len r = length (rmap r)"

definition recent_is_empty :: "'k recent \<Rightarrow> bool" where
  "recent_is_empty r = (rmap r = [])"

interpretation recent_pops: forgetting "\<lambda>r k. recent_get k r" rorder "recent_pop e" for e
  by unfold_locales
    (auto simp: recent_pop_def recent_get_def Let_def fun_eq_iff delete_conv' split: list.splits)

lemma recent_pop_simps [simp]: "rcap (recent_pop e r) = rcap r"
  by (auto simp: recent_pop_def Let_def split: list.splits)

lemma recent_trim_pops:
  "recent_trim r = recent_pops.pops True (length (rorder r) - rcap r) r"
proof (induction r rule: recent_trim.induct)
  case (1 r)
  show ?case
  proof (cases "length (rorder r) > rcap r")
    case True
    then have "length (rorder r) - rcap r = Suc (length (rorder (recent_pop True r)) - rcap (recent_pop True r))"
      by (simp add: length_recent_pop)
    with 1 True show ?thesis by (simp add: recent_trim.simps [of r])
  qed (simp add: recent_trim.simps [of r])
qed

lemma recent_expire_pops:
  "recent_expire before r = recent_pops.pops False (recent_pops.outdated before r) r"
proof (induction before r rule: recent_expire.induct)
  case (1 before r)
  show ?case
  proof (cases "rorder r")
    case Nil
    then show ?thesis by (simp add: recent_expire.simps [of before r] recent_pops.outdated_def)
  next
    case (Cons x xs)
    obtain ts k where x: "x = (ts, k)" by fastforce
    show ?thesis
    proof (cases "ts < before")
      case True
      have "rorder (recent_pop False r) = xs" using recent_pops.ord_pop [of False r] Cons by simp
      then have "recent_pops.outdated before r = Suc (recent_pops.outdated before (recent_pop False r))"
        using Cons x True by (simp add: recent_pops.outdated_def)
      then show ?thesis using 1 Cons x True by (simp add: recent_expire.simps [of before r])
    next
      case False
      then show ?thesis using Cons x
        by (simp add: recent_expire.simps [of before r] recent_pops.outdated_def)
    qed
  qed
qed

text \<open>The invariant: distinct keys, covered by a queue within the cap.\<close>

definition recent_inv :: "'k recent \<Rightarrow> bool" where
  "recent_inv r \<longleftrightarrow> distinct (map fst (rmap r)) \<and> recent_pops.covered r \<and>
     length (rorder r) \<le> rcap r \<and> 1 \<le> rcap r"

lemma distinct_delete_keys: "distinct (map fst xs) \<Longrightarrow> distinct (map fst (AList.delete k xs))"
  by (rule distinct_delete)

lemma recent_pop_distinct: "distinct (map fst (rmap r)) \<Longrightarrow> distinct (map fst (rmap (recent_pop e r)))"
  by (auto simp: recent_pop_def Let_def distinct_delete split: list.splits)

lemma recent_pops_distinct:
  "distinct (map fst (rmap r)) \<Longrightarrow> distinct (map fst (rmap (recent_pops.pops e n r))) \<and>
     rcap (recent_pops.pops e n r) = rcap r"
  by (induction n arbitrary: r) (simp_all add: recent_pop_distinct)

lemma recent_inv_new: "recent_inv (recent_new cap)"
  unfolding recent_inv_def recent_pops.covered_def by (simp add: recent_new_def recent_get_def)

lemma recent_inv_expire:
  assumes "recent_inv r"
  shows "recent_inv (recent_expire before r)"
proof -
  obtain n where n: "recent_expire before r = recent_pops.pops False n r" using recent_expire_pops by blast
  show ?thesis
    using assms recent_pops.covered_pops [of r False n] recent_pops_distinct [of r False n]
    by (auto simp: recent_inv_def n recent_pops.ord_pops)
qed

lemma recent_inv_remove: "recent_inv r \<Longrightarrow> recent_inv (snd (recent_remove k r))"
  unfolding recent_inv_def recent_pops.covered_def
  by (auto simp: recent_remove_def recent_get_def distinct_delete delete_conv' split: if_splits)

lemma recent_inv_insert:
  assumes "recent_inv r"
  shows "recent_inv (recent_insert k ts r)"
proof (cases "is_some_and (map_of (rmap r) k) (\<lambda>t. t \<ge> ts)")
  case True
  then show ?thesis using assms by (simp add: recent_insert_def)
next
  case False
  let ?r = "r\<lparr>rmap := AList.update k ts (rmap r), rorder := rorder r @ [(ts, k)]\<rparr>"
  have c: "recent_pops.covered r" using assms by (simp add: recent_inv_def)
  have "recent_pops.covered ?r"
    by (rule recent_pops.covered_push [OF c, of _ ts k]) (auto simp: recent_get_def update_conv' fun_eq_iff)
  then have "recent_pops.covered (recent_pops.pops True n ?r)" for n by (rule recent_pops.covered_pops)
  moreover have "distinct (map fst (rmap ?r))"
    using assms by (simp add: recent_inv_def distinct_update)
  then have "distinct (map fst (rmap (recent_pops.pops True n ?r))) \<and> rcap (recent_pops.pops True n ?r) = rcap ?r" for n
    by (rule recent_pops_distinct)
  ultimately show ?thesis
    using False assms by (auto simp: recent_insert_def recent_inv_def recent_trim_pops recent_pops.ord_pops)
qed

text \<open>The map never holds more keys than the queue has places.\<close>

lemma recent_len_le:
  assumes "recent_inv r"
  shows "recent_len r \<le> rcap r"
proof -
  have d: "distinct (map fst (rmap r))" and c: "\<forall>k t. map_of (rmap r) k = Some t \<longrightarrow> (t, k) \<in> set (rorder r)"
    using assms unfolding recent_inv_def recent_pops.covered_def by (simp_all add: recent_get_def)
  have "set (map fst (rmap r)) \<subseteq> set (map snd (rorder r))"
    using c d by (force simp: map_of_eq_Some_iff)
  then have "card (set (map fst (rmap r))) \<le> length (map snd (rorder r))"
    by (meson card_length card_mono finite_set le_trans)
  then show ?thesis using assms distinct_card [OF d] by (simp add: recent_len_def recent_inv_def)
qed

section \<open>RecentMap\<close>

record ('k, 'v) recent_map =
  mmap :: "('k \<times> int \<times> 'v) list"
  morder :: "(int \<times> 'k) list"
  mcap :: nat

definition recent_map_new :: "nat \<Rightarrow> ('k, 'v) recent_map" where
  "recent_map_new cap = \<lparr>mmap = [], morder = [], mcap = max cap 1\<rparr>"

definition recent_map_get :: "'k \<Rightarrow> ('k, 'v) recent_map \<Rightarrow> 'v option" where
  "recent_map_get k r = map_option snd (map_of (mmap r) k)"

definition recent_map_pop :: "('k, 'v) recent_map \<Rightarrow> ('k, 'v) recent_map" where
  "recent_map_pop r = (case morder r of
     [] \<Rightarrow> r
   | (ts, k) # rest \<Rightarrow>
       (let r = r\<lparr>morder := rest\<rparr> in
        if is_some_and (map_of (mmap r) k) (\<lambda>(t, _). t = ts)
        then r\<lparr>mmap := AList.delete k (mmap r)\<rparr> else r))"

lemma length_recent_map_pop: "length (morder (recent_map_pop r)) = length (morder r) - 1"
  by (auto simp: recent_map_pop_def Let_def split: list.splits)

function recent_map_trim :: "('k, 'v) recent_map \<Rightarrow> ('k, 'v) recent_map" where
  "recent_map_trim r = (if length (morder r) > mcap r then recent_map_trim (recent_map_pop r) else r)"
  by pat_completeness auto
termination
  by (relation "measure (\<lambda>r. length (morder r))") (auto simp: length_recent_map_pop)

declare recent_map_trim.simps [simp del]

definition recent_map_insert :: "'k \<Rightarrow> int \<Rightarrow> 'v \<Rightarrow> ('k, 'v) recent_map \<Rightarrow> ('k, 'v) recent_map" where
  "recent_map_insert k ts v r =
     recent_map_trim (r\<lparr>mmap := AList.update k (ts, v) (mmap r), morder := morder r @ [(ts, k)]\<rparr>)"

definition recent_map_remove :: "'k \<Rightarrow> ('k, 'v) recent_map \<Rightarrow> (int \<times> 'v) option \<times> ('k, 'v) recent_map" where
  "recent_map_remove k r = (map_of (mmap r) k, r\<lparr>mmap := AList.delete k (mmap r)\<rparr>)"

function recent_map_expire :: "int \<Rightarrow> ('k, 'v) recent_map \<Rightarrow> ('k, 'v) recent_map" where
  "recent_map_expire before r = (case morder r of
     [] \<Rightarrow> r
   | (ts, k) # rest \<Rightarrow> if ts < before then recent_map_expire before (recent_map_pop r) else r)"
  by pat_completeness auto
termination
  by (relation "measure (\<lambda>(b, r). length (morder r))") (auto simp: length_recent_map_pop)

declare recent_map_expire.simps [simp del]

definition recent_map_len :: "('k, 'v) recent_map \<Rightarrow> nat" where
  "recent_map_len r = length (mmap r)"

definition recent_map_time :: "'k \<Rightarrow> ('k, 'v) recent_map \<Rightarrow> int option" where
  "recent_map_time k r = map_option fst (map_of (mmap r) k)"

interpretation map_pops: forgetting "\<lambda>r k. recent_map_time k r" morder recent_map_pop
  by unfold_locales
    (auto simp: recent_map_pop_def recent_map_time_def Let_def fun_eq_iff delete_conv' is_some_and_iff
      split: list.splits)

lemma recent_map_pop_cap [simp]: "mcap (recent_map_pop r) = mcap r"
  by (auto simp: recent_map_pop_def Let_def split: list.splits)

lemma recent_map_trim_pops: "recent_map_trim r = map_pops.pops (length (morder r) - mcap r) r"
proof (induction r rule: recent_map_trim.induct)
  case (1 r)
  show ?case
  proof (cases "length (morder r) > mcap r")
    case True
    then have "length (morder r) - mcap r = Suc (length (morder (recent_map_pop r)) - mcap (recent_map_pop r))"
      by (simp add: length_recent_map_pop)
    with 1 True show ?thesis by (simp add: recent_map_trim.simps [of r])
  qed (simp add: recent_map_trim.simps [of r])
qed

text \<open>A value popped or trimmed is gone with its time; the others keep theirs.\<close>

lemma recent_map_pops_value:
  "map_of (mmap (map_pops.pops n r)) k =
     (if recent_map_time k (map_pops.pops n r) = None then None else map_of (mmap r) k)"
proof (induction n arbitrary: r)
  case 0
  show ?case by (simp add: recent_map_time_def)
next
  case (Suc n)
  have "map_of (mmap (recent_map_pop r)) k = map_of (mmap r) k \<or> map_of (mmap (recent_map_pop r)) k = None"
    by (auto simp: recent_map_pop_def Let_def delete_conv' split: list.splits)
  moreover have "map_of (mmap (recent_map_pop r)) k = None \<Longrightarrow> recent_map_time k (map_pops.pops n (recent_map_pop r)) = None"
    by (simp add: map_pops.tm_pops) (simp add: recent_map_time_def)
  ultimately show ?case using Suc.IH [of "recent_map_pop r"] by auto
qed

definition recent_map_inv :: "('k, 'v) recent_map \<Rightarrow> bool" where
  "recent_map_inv r \<longleftrightarrow> distinct (map fst (mmap r)) \<and> map_pops.covered r \<and>
     length (morder r) \<le> mcap r \<and> 1 \<le> mcap r"

section \<open>Batch eviction\<close>

text \<open>
  \<open>oldest\<close> selects by the \<open>n\<close>th smallest age: the set it returns is that of the first \<open>n\<close> of the
  entries sorted by age, ties broken in any way; here in the order they came.
\<close>

definition oldest :: "('k \<times> 'a :: linorder) list \<Rightarrow> nat \<Rightarrow> 'k list" where
  "oldest entries len =
     (let n = min (max (len div 8) 1) (length entries)
      in map fst (take n (sort_key snd entries)))"

lemma oldest_length: "length (oldest es len) = min (max (len div 8) 1) (length es)"
  by (simp add: oldest_def Let_def)

lemma oldest_ages:
  assumes "distinct (map fst es)" "(k, a) \<in> set es" "k \<in> set (oldest es len)"
    and "(k', a') \<in> set es" "k' \<notin> set (oldest es len)"
  shows "a \<le> a'"
proof -
  let ?s = "sort_key snd es" and ?n = "min (max (len div 8) 1) (length es)"
  from assms(3) obtain b where b: "(k, b) \<in> set (take ?n ?s)" by (auto simp: oldest_def Let_def)
  then have "(k, b) \<in> set es" by (metis in_set_takeD set_sort)
  with assms(1,2) have "b = a" by (metis eq_key_imp_eq_value)
  have "(k', a') \<in> set (take ?n ?s @ drop ?n ?s)" using assms(4) by simp
  moreover have "(k', a') \<notin> set (take ?n ?s)" using assms(5) by (force simp: oldest_def Let_def)
  ultimately have d: "(k', a') \<in> set (drop ?n ?s)" by (simp only: set_append Un_iff) simp
  have "sorted (map snd (take ?n ?s @ drop ?n ?s))" by simp
  then have "sorted (map snd (take ?n ?s) @ map snd (drop ?n ?s))" by (simp only: map_append)
  then show ?thesis using b d \<open>b = a\<close> by (force simp: sorted_append)
qed

lemma oldest_known: "set (oldest es len) \<subseteq> fst ` set es"
  by (auto simp: oldest_def Let_def dest!: in_set_takeD)

lemma oldest_distinct: "distinct (map fst es) \<Longrightarrow> distinct (oldest es len)"
proof -
  assume d: "distinct (map fst es)"
  then have "distinct (map fst (sort_key snd es))" by (simp add: distinct_map)
  then show ?thesis by (simp add: oldest_def Let_def take_map [symmetric] distinct_take)
qed

text \<open>What a map keeps when its oldest entries go, and that the newest is not among those.\<close>

lemma oldest_remaining:
  assumes d: "distinct (map fst m)"
  shows "length (filter (\<lambda>(k, e). k \<notin> set (oldest (map (\<lambda>(k, e). (k, f e)) m) (length m))) m) =
    length m - min (max (length m div 8) 1) (length m)"
proof -
  let ?es = "map (\<lambda>(k, e). (k, f e)) m"
  let ?v = "oldest ?es (length m)" and ?r = "\<lambda>v. filter (\<lambda>(k, e). k \<notin> set v) m"
  have f: "map fst ?es = map fst m" by (induction m) auto
  have v: "set ?v \<subseteq> set (map fst m)" using oldest_known [of ?es "length m"] f by (metis set_map)
  have "set (map fst (?r ?v)) = set (map fst m) - set ?v" by force
  moreover have "distinct (map fst (?r ?v))" using d by (rule distinct_map_filter)
  ultimately have "length (?r ?v) = card (set (map fst m) - set ?v)"
    using distinct_card [of "map fst (?r ?v)"] by simp
  also have "\<dots> = card (set (map fst m)) - card (set ?v)" using v by (simp add: card_Diff_subset)
  also have "card (set (map fst m)) = length m" using distinct_card [OF d] by simp
  also have "card (set ?v) = min (max (length m div 8) 1) (length m)"
    using distinct_card [OF oldest_distinct [of ?es "length m"]] d by (simp only: f oldest_length) simp
  finally show ?thesis .
qed

lemma oldest_not_newest:
  assumes d: "distinct (map fst es)" and m: "(k, a) \<in> set es" and two: "2 \<le> length es"
    and newest: "\<And>k' a'. (k', a') \<in> set es \<Longrightarrow> k' \<noteq> k \<Longrightarrow> a' < a"
  shows "k \<notin> set (oldest es (length es))"
proof
  assume k: "k \<in> set (oldest es (length es))"
  have "card (set (oldest es (length es))) = min (max (length es div 8) 1) (length es)"
    using distinct_card [OF oldest_distinct [OF d]] by (simp add: oldest_length)
  moreover have "min (max (length es div 8) 1) (length es) < length es" using two by auto
  moreover have "card (set (map fst es)) = length es" using distinct_card [OF d] by simp
  ultimately obtain k' where "k' \<in> set (map fst es)" "k' \<notin> set (oldest es (length es))"
    by (metis card_mono finite_set linorder_not_less subsetI)
  then obtain a' where a': "(k', a') \<in> set es" "k' \<notin> set (oldest es (length es))" by auto
  then have "a \<le> a'" using oldest_ages [OF d m k] by blast
  moreover have "k' \<noteq> k" using a'(2) k by blast
  ultimately show False using newest [OF a'(1)] by simp
qed

section \<open>Properties\<close>

text \<open>The key just inserted is kept, unless a stale sighting of it with the same time is still queued.\<close>

lemma recent_get_insert:
  assumes inv: "recent_inv r" and fresh: "(ts, k) \<in> set (rorder r) \<longrightarrow> is_some_and (recent_get k r) (\<lambda>t. t \<ge> ts)"
  shows "recent_get k (recent_insert k ts r) = Some (case recent_get k r of None \<Rightarrow> ts | Some t \<Rightarrow> max t ts)"
proof (cases "is_some_and (map_of (rmap r) k) (\<lambda>t. t \<ge> ts)")
  case True
  then show ?thesis by (auto simp: recent_insert_def recent_get_def is_some_and_iff max_def)
next
  case False
  let ?r = "r\<lparr>rmap := AList.update k ts (rmap r), rorder := rorder r @ [(ts, k)]\<rparr>"
  let ?n = "length (rorder ?r) - rcap ?r"
  have le: "length (rorder r) \<le> rcap r" "1 \<le> rcap r" using inv by (simp_all add: recent_inv_def)
  have "(ts, k) \<notin> set (take ?n (rorder ?r))"
  proof
    assume m: "(ts, k) \<in> set (take ?n (rorder ?r))"
    then have "?n = 1" using le by (cases "?n = 0") auto
    moreover from this have "rorder r \<noteq> []" using le by auto
    ultimately have "(ts, k) \<in> set (rorder r)" using m by (cases "rorder r") auto
    then show False using fresh False by (simp add: recent_get_def)
  qed
  then have "recent_get k (recent_pops.pops True ?n ?r) = Some ts"
    by (simp add: recent_pops.tm_pops) (simp add: recent_get_def update_conv')
  moreover have "(case recent_get k r of None \<Rightarrow> ts | Some t \<Rightarrow> max t ts) = ts"
    using False by (auto simp: recent_get_def max_def split: option.splits)
  ultimately show ?thesis using False by (simp add: recent_insert_def recent_trim_pops)
qed

text \<open>C18: \<open>Recent\<close>. Its invariant (each key kept has its latest sighting queued, the queue within the
  cap) survives every operation, so never more than \<open>cap\<close> keys are kept. A key inserted is kept
  with the latest of its times, unless a stale sighting of it at the very same time is still
  queued. Expiry never forgets a key last seen at or after the limit and, when sightings came in
  time order, forgets exactly the others.\<close>

theorem recent_outcome:
  assumes "recent_inv r"
  shows "recent_inv (recent_insert k ts r) \<and> recent_inv (recent_expire before r) \<and>
    recent_inv (snd (recent_remove k r)) \<and> recent_len r \<le> rcap r \<and>
    ((ts, k) \<notin> set (rorder r) \<longrightarrow> recent_get k (recent_insert k ts r) =
       Some (case recent_get k r of None \<Rightarrow> ts | Some t \<Rightarrow> max t ts)) \<and>
    (\<forall>t \<ge> before. recent_get j r = Some t \<longrightarrow> recent_get j (recent_expire before r) = Some t) \<and>
    (sorted (map fst (rorder r)) \<longrightarrow> recent_get j (recent_expire before r) =
       (case recent_get j r of None \<Rightarrow> None | Some t \<Rightarrow> if t < before then None else Some t))"
proof -
  have c: "recent_pops.covered r" using assms by (simp add: recent_inv_def)
  have "(t, j) \<notin> set (take (recent_pops.outdated before r) (rorder r))" if "t \<ge> before" for t :: int
  proof -
    have "take (recent_pops.outdated before r) (rorder r) = takeWhile (\<lambda>(t, k). t < before) (rorder r)"
      unfolding recent_pops.outdated_def by (metis takeWhile_eq_take)
    then show ?thesis using that by (auto dest: set_takeWhileD)
  qed
  then have "recent_get j (recent_expire before r) = Some t" if "t \<ge> before" "recent_get j r = Some t" for t
    using that by (simp add: recent_expire_pops recent_pops.tm_pops)
  then show ?thesis
    using recent_inv_insert [OF assms] recent_inv_expire [OF assms] recent_inv_remove [OF assms]
      recent_len_le [OF assms] recent_get_insert [OF assms, of ts k]
      recent_pops.expire_sorted [OF c, where before = before and k = j and e = False]
    by (auto simp: recent_expire_pops)
qed

theorem recent_outcome_witness:
  "recent_get (7 :: nat) (recent_insert 7 5 (recent_new 2)) = Some 5 \<and>
   recent_len (recent_insert (7 :: nat) 5 (recent_new 2)) \<le> 2"
proof -
  note w = recent_outcome [OF recent_inv_new [of 2], where k = "7 :: nat" and ts = 5]
  have i: "recent_inv (recent_insert (7 :: nat) 5 (recent_new 2))" using w by blast
  have "recent_len (recent_insert (7 :: nat) 5 (recent_new 2)) \<le> rcap (recent_insert (7 :: nat) 5 (recent_new 2))"
    using recent_outcome [OF i] by blast
  moreover have "rcap (recent_insert (7 :: nat) 5 (recent_new 2)) = 2" by code_simp
  moreover have "rorder (recent_new 2 :: nat recent) = []" "recent_get (7 :: nat) (recent_new 2) = None"
    by (simp_all add: recent_new_def recent_get_def)
  then have "recent_get (7 :: nat) (recent_insert 7 5 (recent_new 2)) = Some 5"
    using w by simp
  ultimately show ?thesis by simp
qed

text \<open>The exception is real: removed and seen again at the same time, a key can be forgotten at once.\<close>

lemma recent_insert_lost:
  "recent_get (1 :: nat) (recent_insert 1 5 (snd (recent_remove 1 (recent_insert 1 5 (recent_new 1))))) = None"
  by code_simp

text \<open>Batch eviction takes an eighth of the map, at least one entry, and only the oldest: every
  entry left is at least as young as every entry taken.\<close>

lemma oldest_outcome:
  assumes "distinct (map fst es)"
  shows "length (oldest es len) = min (max (len div 8) 1) (length es) \<and>
    (\<forall>(k, a) \<in> set es. \<forall>(k', a') \<in> set es.
       k \<in> set (oldest es len) \<and> k' \<notin> set (oldest es len) \<longrightarrow> a \<le> a')"
  using oldest_length [of es len] oldest_ages [OF assms] by blast

lemma oldest_outcome_witness:
  "length (oldest [(7 :: nat, 3 :: nat), (8, 1), (9, 2)] 16) = 2 \<and>
   oldest [(7 :: nat, 3 :: nat), (8, 1), (9, 2)] 16 = [8, 9]"
proof -
  have "distinct (map fst [(7 :: nat, 3 :: nat), (8, 1), (9, 2)])" by simp
  from oldest_outcome [OF this, of 16] show ?thesis by (simp add: oldest_def Let_def)
qed

end
