(* ===== verification/Ag_Ordering.thy ===== *)
theory Ag_Ordering
  imports Sources "HOL-Library.Product_Lexorder" "HOL-Library.Multiset"
begin

text \<open>
  The ordering stage (\<open>crates/atlas-agent/src/ordering.rs\<close>) and what it holds
  (\<open>input.rs\<close>). The binary heap of keys is a list of keys whose least element is its top, the
  slots a list of options, the free slots a stack; how far a vector's capacity grows is the
  parameter \<open>grow\<close>, on which nothing depends. Facts: under the invariant the stage implements a
  list of events sorted by time and, within one time, by arrival: a push inserts behind the equal
  times, a release takes the head, compaction changes nothing.
\<close>

section \<open>What the callbacks hand over\<close>

datatype session = Sensor | ProcessSession

record header =
  hsession :: session
  hpid :: nat
  htid :: nat
  hts :: int
  hstart_key :: "nat option"

record 'e incoming =
  inc_header :: header
  inc_event :: 'e

section \<open>The stage\<close>

definition SLOTS_FLOOR :: nat where
  "SLOTS_FLOOR = 8192"

text \<open>A key: timestamp, arrival order, slot.\<close>

type_synonym key = "int \<times> nat \<times> nat"

record 'e ordering =
  oheap :: "key list"
  oslots :: "'e incoming option list"
  ocapacity :: nat
  ofree :: "nat list"
  oseq :: nat
  ohold :: int
  olast :: int

datatype 'e pushed = Held | Late "'e incoming"

definition ordering_new :: "int \<Rightarrow> 'e ordering" where
  "ordering_new h = \<lparr>oheap = [], oslots = [], ocapacity = 0, ofree = [], oseq = 0, ohold = h, olast = I64_MIN\<rparr>"

text \<open>\<open>Vec::push\<close>: past the capacity the vector grows.\<close>

definition push_slot :: "(nat \<Rightarrow> nat) \<Rightarrow> 'e incoming option \<Rightarrow> 'e ordering \<Rightarrow> 'e ordering" where
  "push_slot grow x q =
     q\<lparr>oslots := oslots q @ [x],
       ocapacity := (if length (oslots q) = ocapacity q then grow (ocapacity q) else ocapacity q)\<rparr>"

text \<open>A slot number is a \<open>u32\<close>: the cast of the new slot's index wraps.\<close>

definition ordering_push :: "(nat \<Rightarrow> nat) \<Rightarrow> 'e incoming \<Rightarrow> 'e ordering \<Rightarrow> 'e pushed \<times> 'e ordering" where
  "ordering_push grow inc q =
     (if hts (inc_header inc) < olast q then (Late inc, q)
      else
        (let q = q\<lparr>oseq := oseq q + 1\<rparr>;
             ts = hts (inc_header inc);
             (slot, q) = (case ofree q of
                 s # rest \<Rightarrow> (s, q\<lparr>ofree := rest, oslots := (oslots q)[s := Some inc]\<rparr>)
               | [] \<Rightarrow> (let q = push_slot grow (Some inc) q in ((length (oslots q) - 1) mod 2 ^ 32, q)))
         in (Held, q\<lparr>oheap := oheap q @ [(ts, oseq q, slot)]\<rparr>)))"

definition heap_peek :: "key list \<Rightarrow> key option" where
  "heap_peek h = (if h = [] then None else Some (Min (set h)))"

text \<open>Moves the held events into slots of their own and rebuilds the keys.\<close>

definition ordering_compact :: "'e ordering \<Rightarrow> 'e ordering" where
  "ordering_compact q =
     q\<lparr>oheap := map (\<lambda>(i, (ts, sq, slot)). (ts, sq, i mod 2 ^ 32)) (enumerate 0 (oheap q)),
       oslots := map (\<lambda>(ts, sq, slot). oslots q ! slot) (oheap q),
       ocapacity := max (length (oheap q) * 2) SLOTS_FLOOR,
       ofree := []\<rparr>"

text \<open>\<open>None\<close> of the outer option is the panic of the \<open>expect\<close>: a key without its event.\<close>

definition next_until :: "int \<Rightarrow> 'e ordering \<Rightarrow> ('e incoming option \<times> 'e ordering) option" where
  "next_until limit q =
     (case heap_peek (oheap q) of
        None \<Rightarrow> Some (None, q)
      | Some (ts, sq, slot) \<Rightarrow>
          if \<not> ts \<le> limit then Some (None, q)
          else
            (let q = q\<lparr>oheap := remove1 (ts, sq, slot) (oheap q), olast := max (olast q) ts,
                       ofree := slot # ofree q\<rparr>
             in if slot < length (oslots q) then
                  (case oslots q ! slot of
                     None \<Rightarrow> None
                   | Some inc \<Rightarrow>
                       (let q = q\<lparr>oslots := (oslots q)[slot := None]\<rparr>
                        in Some (Some inc,
                             if ocapacity q > SLOTS_FLOOR \<and> length (oheap q) * 8 < ocapacity q
                             then ordering_compact q else q)))
                else None))"

definition next_due :: "int \<Rightarrow> 'e ordering \<Rightarrow> ('e incoming option \<times> 'e ordering) option" where
  "next_due now q = next_until (sat_sub now (ohold q)) q"

definition next_held :: "'e ordering \<Rightarrow> ('e incoming option \<times> 'e ordering) option" where
  "next_held q = next_until I64_MAX q"

definition watermark :: "int \<Rightarrow> 'e ordering \<Rightarrow> int" where
  "watermark now q = max (olast q) (sat_sub now (ohold q))"

definition ordering_len :: "'e ordering \<Rightarrow> nat" where
  "ordering_len q = length (oheap q)"

section \<open>The abstract stage\<close>

text \<open>A key with its event, ordered by time and arrival.\<close>

definition key_ord :: "int \<times> nat \<times> 'x \<Rightarrow> int \<times> nat" where
  "key_ord k = (fst k, fst (snd k))"

definition held_at :: "'e incoming option list \<Rightarrow> key \<Rightarrow> int \<times> nat \<times> 'e incoming" where
  "held_at sl k = (fst k, fst (snd k), the (sl ! snd (snd k)))"

definition held :: "'e ordering \<Rightarrow> (int \<times> nat \<times> 'e incoming) list" where
  "held q = sort_key key_ord (map (held_at (oslots q)) (oheap q))"

definition slot_of :: "key \<Rightarrow> nat" where
  "slot_of k = snd (snd k)"

lemma slot_of_simp [simp]: "slot_of (ts, sq, s) = s"
  by (simp add: slot_of_def)

text \<open>Each key has its own slot, which holds an event of the key's time; free slots are others.\<close>

definition ordering_inv :: "'e ordering \<Rightarrow> bool" where
  "ordering_inv q \<longleftrightarrow>
     distinct (map slot_of (oheap q) @ ofree q) \<and>
     (\<forall>k \<in> set (oheap q). slot_of k < length (oslots q) \<and>
        (\<exists>inc. oslots q ! slot_of k = Some inc \<and> hts (inc_header inc) = fst k)) \<and>
     (\<forall>s \<in> set (ofree q). s < length (oslots q)) \<and>
     distinct (map (fst \<circ> snd) (oheap q)) \<and> (\<forall>k \<in> set (oheap q). fst (snd k) \<le> oseq q) \<and>
     length (oslots q) \<le> 2 ^ 32"

lemma key_ord_held [simp]: "key_ord (held_at sl k) = key_ord k"
  by (simp add: key_ord_def held_at_def)

lemma ordering_inv_new: "ordering_inv (ordering_new h)"
  by (simp add: ordering_inv_def ordering_new_def)

lemma held_new: "held (ordering_new h) = []"
  by (simp add: held_def ordering_new_def)

lemma distinct_key_ord:
  "distinct (map (fst \<circ> snd) (h :: (int \<times> nat \<times> 'x) list)) \<Longrightarrow> distinct (map key_ord h)"
  by (induction h) (auto simp: key_ord_def)

lemma sort_key_unique:
  assumes "distinct (map f xs)" "sorted (map f zs)" "mset zs = mset xs"
  shows "sort_key f xs = zs"
proof -
  have s: "set zs = set xs" using assms(3) by (rule mset_eq_setD)
  have d: "distinct (map f zs)" using assms(1,3)
    by (metis mset_map mset_eq_imp_distinct_iff)
  have inj: "inj_on f (set (sort_key f xs) \<union> set zs)"
    using assms(1) s by (simp add: distinct_map)
  have "distinct (map f (sort_key f xs))"
    using assms(1) by (metis mset_map mset_eq_imp_distinct_iff mset_sort)
  then show ?thesis
    using map_sorted_distinct_set_unique [OF inj] assms(2) d s by simp
qed

lemma held_sorted: "sorted (map key_ord (held q))"
  by (simp add: held_def)

text \<open>The last arrival goes behind everything of its time or earlier.\<close>

lemma sort_key_last:
  fixes xs :: "(int \<times> nat \<times> 'x) list"
  assumes d: "distinct (map (fst \<circ> snd) xs)" and new: "\<forall>y \<in> set xs. fst (snd y) < sq"
  shows "sort_key key_ord (xs @ [(ts, sq, x)]) =
    takeWhile (\<lambda>y. fst y \<le> ts) (sort_key key_ord xs) @ (ts, sq, x) #
      dropWhile (\<lambda>y. fst y \<le> ts) (sort_key key_ord xs)"
proof (rule sort_key_unique)
  let ?s = "sort_key key_ord xs" and ?P = "\<lambda>y :: int \<times> nat \<times> 'x. fst y \<le> ts"
  have "distinct (map (fst \<circ> snd) (xs @ [(ts, sq, x)]))" using d new by fastforce
  then show "distinct (map key_ord (xs @ [(ts, sq, x)]))"
    by (rule distinct_key_ord)
next
  let ?s = "sort_key key_ord xs" and ?P = "\<lambda>y :: int \<times> nat \<times> 'x. fst y \<le> ts"
  have "mset (takeWhile ?P ?s @ dropWhile ?P ?s) = mset xs" by simp
  then show "mset (takeWhile ?P ?s @ (ts, sq, x) # dropWhile ?P ?s) = mset (xs @ [(ts, sq, x)])"
    by (simp only: mset_append mset.simps) simp
  have "sorted (map key_ord (takeWhile ?P ?s @ dropWhile ?P ?s))" by simp
  then have s: "sorted (map key_ord (takeWhile ?P ?s))" "sorted (map key_ord (dropWhile ?P ?s))"
    by (simp_all only: map_append sorted_append)
  have before: "key_ord y \<le> key_ord (ts, sq, x)" if "y \<in> set (takeWhile ?P ?s)" for y
    using set_takeWhileD [OF that] new by (fastforce simp: key_ord_def less_eq_prod_def)
  have after: "key_ord (ts, sq, x) \<le> key_ord y" if y: "y \<in> set (dropWhile ?P ?s)" for y
  proof -
    from y have ne: "dropWhile ?P ?s \<noteq> []" by (metis empty_iff list.set(1))
    then have "\<not> ?P (hd (dropWhile ?P ?s))" by (rule hd_dropWhile)
    moreover have "key_ord (hd (dropWhile ?P ?s)) \<le> key_ord y"
      using s(2) y ne by (cases "dropWhile ?P ?s") auto
    ultimately show ?thesis by (auto simp: key_ord_def less_eq_prod_def)
  qed
  show "sorted (map key_ord (takeWhile ?P ?s @ (ts, sq, x) # dropWhile ?P ?s))"
    using s before after by (fastforce simp: sorted_append intro: order_trans)
qed


section \<open>The operations on the abstract stage\<close>

lemma held_at_cong:
  assumes "\<forall>k \<in> set h. sl' ! slot_of k = sl ! slot_of k"
  shows "map (held_at sl') h = map (held_at sl) h"
  using assms by (auto simp: held_at_def slot_of_def)

lemma held_seqs: "map (fst \<circ> snd) (map (held_at sl) h) = map (fst \<circ> snd) h"
  by (simp add: held_at_def)

text \<open>A push of an event that is not late, with the slot it takes.\<close>

lemma push_placed:
  assumes inv: "ordering_inv q"
    and slot: "slot < length sl'" "sl' ! slot = Some inc" "slot \<notin> set (map slot_of (oheap q))" "slot \<notin> set fr'"
    and sl': "\<forall>k \<in> set (oheap q). sl' ! slot_of k = oslots q ! slot_of k" "length (oslots q) \<le> length sl'"
      "length sl' \<le> 2 ^ 32"
    and fr: "distinct fr'" "set fr' \<subseteq> set (ofree q)"
    and q': "oheap q' = oheap q @ [(hts (inc_header inc), oseq q + 1, slot)]" "oslots q' = sl'"
      "ofree q' = fr'" "oseq q' = oseq q + 1"
  shows "ordering_inv q' \<and> held q' =
    takeWhile (\<lambda>y. fst y \<le> hts (inc_header inc)) (held q) @
      (hts (inc_header inc), oseq q + 1, inc) #
      dropWhile (\<lambda>y. fst y \<le> hts (inc_header inc)) (held q)"
proof
  from inv have i: "distinct (map slot_of (oheap q))" "set (map slot_of (oheap q)) \<inter> set (ofree q) = {}"
    "\<And>k. k \<in> set (oheap q) \<Longrightarrow> slot_of k < length (oslots q)"
    "\<And>k. k \<in> set (oheap q) \<Longrightarrow> \<exists>inc. oslots q ! slot_of k = Some inc \<and> hts (inc_header inc) = fst k"
    "\<And>s. s \<in> set (ofree q) \<Longrightarrow> s < length (oslots q)"
    "distinct (map (fst \<circ> snd) (oheap q))" "\<And>k. k \<in> set (oheap q) \<Longrightarrow> fst (snd k) \<le> oseq q"
    by (simp_all add: ordering_inv_def)
  let ?k = "(hts (inc_header inc), oseq q + 1, slot)"
  have "slot_of ?k = slot" "fst ?k = hts (inc_header inc)" "(fst \<circ> snd) ?k = oseq q + 1"
    by (simp_all add: slot_of_def)
  note k = this
  have "distinct (map slot_of (oheap q @ [?k]) @ fr')"
    using i(1,2) slot(3,4) fr by (auto simp: k)
  moreover have "\<forall>k \<in> set (oheap q @ [?k]). slot_of k < length sl' \<and>
      (\<exists>inc. sl' ! slot_of k = Some inc \<and> hts (inc_header inc) = fst k)"
    using i(3,4) sl' slot(1,2) k by (auto intro: less_le_trans)
  moreover have "\<forall>s \<in> set fr'. s < length sl'" using i(5) fr sl' by (auto intro: less_le_trans)
  moreover have "oseq q + 1 \<notin> set (map (fst \<circ> snd) (oheap q))" using i(7) by fastforce
  then have "distinct (map (fst \<circ> snd) (oheap q @ [?k]))" using i(6) k by simp
  moreover have "\<forall>k \<in> set (oheap q @ [?k]). fst (snd k) \<le> oseq q + 1" using i(7) by fastforce
  ultimately show "ordering_inv q'" unfolding ordering_inv_def q' using sl'(3) by blast
  have m: "map (held_at sl') (oheap q) = map (held_at (oslots q)) (oheap q)"
    using sl' by (intro held_at_cong) simp
  have "held q' = sort_key key_ord (map (held_at (oslots q)) (oheap q) @ [(hts (inc_header inc), oseq q + 1, inc)])"
    unfolding held_def q' map_append m using slot by (simp add: held_at_def)
  moreover have "distinct (map (fst \<circ> snd) (map (held_at (oslots q)) (oheap q)))"
    using inv unfolding held_seqs by (simp add: ordering_inv_def)
  moreover have "\<forall>y \<in> set (map (held_at (oslots q)) (oheap q)). fst (snd y) < oseq q + 1"
    using inv by (auto simp: ordering_inv_def held_at_def less_Suc_eq_le)
  ultimately show "held q' =
    takeWhile (\<lambda>y. fst y \<le> hts (inc_header inc)) (held q) @
      (hts (inc_header inc), oseq q + 1, inc) #
      dropWhile (\<lambda>y. fst y \<le> hts (inc_header inc)) (held q)"
    by (simp only: sort_key_last held_def)
qed

lemma ordering_push_effect:
  assumes inv: "ordering_inv q" and room: "length (oslots q) < 2 ^ 32"
    and p: "ordering_push grow inc q = (r, q')"
  shows "ordering_inv q' \<and> olast q' = olast q \<and> ohold q' = ohold q \<and>
    (if hts (inc_header inc) < olast q then r = Late inc \<and> q' = q
     else r = Held \<and> held q' =
       takeWhile (\<lambda>y. fst y \<le> hts (inc_header inc)) (held q) @
         (hts (inc_header inc), oseq q + 1, inc) #
         dropWhile (\<lambda>y. fst y \<le> hts (inc_header inc)) (held q))"
proof (cases "hts (inc_header inc) < olast q")
  case True
  then show ?thesis using p inv by (simp add: ordering_push_def)
next
  case False
  show ?thesis
  proof (cases "ofree q")
    case (Cons s rest)
    then have q': "r = Held" "q' = q\<lparr>oseq := oseq q + 1, ofree := rest, oslots := (oslots q)[s := Some inc],
        oheap := oheap q @ [(hts (inc_header inc), oseq q + 1, s)]\<rparr>"
      using p False by (auto simp: ordering_push_def Let_def)
    have "s < length (oslots q)" "s \<notin> set (map slot_of (oheap q))" "s \<notin> set rest" "distinct rest"
      using inv Cons by (auto simp: ordering_inv_def)
    moreover have "\<forall>k \<in> set (oheap q). (oslots q)[s := Some inc] ! slot_of k = oslots q ! slot_of k"
      using calculation(2) by (metis image_eqI list.set_map nth_list_update_neq)
    ultimately show ?thesis
      using push_placed [OF inv, of s "(oslots q)[s := Some inc]" inc rest q'] room Cons False q' by auto
  next
    case Nil
    let ?sl = "oslots q @ [Some inc]" and ?s = "length (oslots q)"
    have q': "r = Held" "oslots q' = ?sl" "ofree q' = []" "oseq q' = oseq q + 1" "olast q' = olast q"
      "ohold q' = ohold q" "oheap q' = oheap q @ [(hts (inc_header inc), oseq q + 1, ?s)]"
      using p False Nil room by (auto simp: ordering_push_def Let_def push_slot_def)
    have "\<forall>k \<in> set (oheap q). slot_of k < ?s" using inv by (simp add: ordering_inv_def)
    then have "?s \<notin> set (map slot_of (oheap q))" "\<forall>k \<in> set (oheap q). ?sl ! slot_of k = oslots q ! slot_of k"
      by (auto simp: nth_append)
    then show ?thesis
      using push_placed [OF inv, of ?s ?sl inc "[]" q'] room q' False by auto
  qed
qed

subsection \<open>Releasing\<close>

lemma enumerate_nth:
  "enumerate 0 xs ! i = (i, xs ! i)" if "i < length xs"
  using that by (simp add: nth_enumerate_eq)

text \<open>Compaction gives key number \<open>i\<close> slot number \<open>i\<close>: the same times, arrivals and events.\<close>

lemma compact_heap:
  assumes "length (oheap q) \<le> 2 ^ 32"
  shows "length (oheap (ordering_compact q)) = length (oheap q)"
    and "i < length (oheap q) \<Longrightarrow> oheap (ordering_compact q) ! i =
      (fst (oheap q ! i), fst (snd (oheap q ! i)), i)"
    and "i < length (oheap q) \<Longrightarrow> oslots (ordering_compact q) ! i = oslots q ! slot_of (oheap q ! i)"
  using assms
  by (auto simp: ordering_compact_def nth_enumerate_eq slot_of_def split: prod.splits)

lemma inv_heap_small:
  assumes inv: "ordering_inv q"
  shows "length (oheap q) \<le> 2 ^ 32"
proof -
  have d: "distinct (map slot_of (oheap q))" and "set (map slot_of (oheap q)) \<subseteq> {..< length (oslots q)}"
    and l: "length (oslots q) \<le> 2 ^ 32"
    using inv by (auto simp: ordering_inv_def)
  then have "card (set (map slot_of (oheap q))) \<le> length (oslots q)"
    by (metis card_lessThan card_mono finite_lessThan)
  then show ?thesis using distinct_card [OF d] l by simp
qed

lemma compact_effect:
  assumes inv: "ordering_inv q"
  shows "ordering_inv (ordering_compact q) \<and> held (ordering_compact q) = held q \<and>
    olast (ordering_compact q) = olast q \<and> ohold (ordering_compact q) = ohold q"
proof -
  let ?h = "oheap q" and ?q = "ordering_compact q"
  note c = compact_heap [OF inv_heap_small [OF inv]]
  have sl: "length (oslots ?q) = length ?h" by (simp add: ordering_compact_def)
  have slots: "map slot_of (oheap ?q) = [0 ..< length ?h]"
    by (rule nth_equalityI) (simp_all add: c slot_of_def)
  have seqs: "map (fst \<circ> snd) (oheap ?q) = map (fst \<circ> snd) ?h"
    by (rule nth_equalityI) (simp_all add: c)
  have at: "held_at (oslots ?q) (oheap ?q ! i) = held_at (oslots q) (?h ! i)" if "i < length ?h" for i
    using that by (simp add: held_at_def c slot_of_def)
  have "map (held_at (oslots ?q)) (oheap ?q) = map (held_at (oslots q)) ?h"
    by (rule nth_equalityI) (simp_all add: c(1) at)
  then have "held ?q = held q" unfolding held_def by (rule arg_cong)
  moreover have "slot_of k < length (oslots ?q) \<and>
      (\<exists>inc. oslots ?q ! slot_of k = Some inc \<and> hts (inc_header inc) = fst k)"
    if k: "k \<in> set (oheap ?q)" for k
  proof -
    from k obtain i where i: "i < length ?h" "k = oheap ?q ! i" by (metis c(1) in_set_conv_nth)
    have "?h ! i \<in> set ?h" using i(1) by simp
    then have "\<exists>inc. oslots q ! slot_of (?h ! i) = Some inc \<and> hts (inc_header inc) = fst (?h ! i)"
      using inv by (simp add: ordering_inv_def)
    then show ?thesis using i sl by (simp add: c(2,3))
  qed
  moreover have "\<forall>k \<in> set (oheap ?q). fst (snd k) \<le> oseq q"
  proof -
    have "(fst \<circ> snd) ` set (oheap ?q) = (fst \<circ> snd) ` set ?h" using seqs by (metis list.set_map)
    moreover have "\<forall>x \<in> (fst \<circ> snd) ` set ?h. x \<le> oseq q" using inv by (simp add: ordering_inv_def)
    ultimately have "\<forall>x \<in> (fst \<circ> snd) ` set (oheap ?q). x \<le> oseq q" by simp
    then show ?thesis by simp
  qed
  moreover have "distinct (map slot_of (oheap ?q) @ ofree ?q)" unfolding slots by (simp add: ordering_compact_def)
  moreover have "oseq ?q = oseq q" "ofree ?q = []" "olast ?q = olast q" "ohold ?q = ohold q"
    by (simp_all add: ordering_compact_def)
  moreover have "distinct (map (fst \<circ> snd) (oheap ?q))" unfolding seqs using inv by (simp add: ordering_inv_def)
  ultimately show ?thesis
    using inv_heap_small [OF inv] sl by (simp add: ordering_inv_def)
qed

lemma held_min:
  assumes inv: "ordering_inv q" and m: "heap_peek (oheap q) = Some m"
  shows "m \<in> set (oheap q) \<and>
    held q = held_at (oslots q) m # sort_key key_ord (map (held_at (oslots q)) (remove1 m (oheap q)))"
proof -
  let ?h = "oheap q" and ?f = "held_at (oslots q)"
  from m have ne: "?h \<noteq> []" and mm: "m = Min (set ?h)" by (auto simp: heap_peek_def split: if_splits)
  then have mem: "m \<in> set ?h" by simp
  have "key_ord m \<le> key_ord k" if "k \<in> set ?h" for k
  proof -
    have "m \<le> k" using that mm by simp
    then show ?thesis by (auto simp: key_ord_def less_eq_prod_def)
  qed
  then have le: "\<forall>x \<in> set (map ?f (remove1 m ?h)). key_ord m \<le> key_ord x"
    using set_remove1_subset [of m ?h] by auto
  have "mset ?h = add_mset m (mset (remove1 m ?h))" using mem by simp
  then have ms: "mset (map ?f ?h) = add_mset (?f m) (mset (map ?f (remove1 m ?h)))"
    by (metis image_mset_add_mset mset_map)
  have "distinct (map (fst \<circ> snd) (map ?f ?h))" using inv unfolding held_seqs by (simp add: ordering_inv_def)
  then have "distinct (map key_ord (map ?f ?h))" by (rule distinct_key_ord)
  then have "held q = ?f m # sort_key key_ord (map ?f (remove1 m ?h))"
    unfolding held_def by (rule sort_key_unique) (use le ms in \<open>simp_all\<close>)
  then show ?thesis using mem by blast
qed


lemma next_until_effect:
  assumes inv: "ordering_inv q"
  shows "case held q of
      [] \<Rightarrow> next_until limit q = Some (None, q)
    | (ts, sq, inc) # rest \<Rightarrow>
        if ts \<le> limit
        then \<exists>q'. next_until limit q = Some (Some inc, q') \<and> held q' = rest \<and> ordering_inv q' \<and>
               olast q' = max (olast q) ts \<and> ohold q' = ohold q \<and> hts (inc_header inc) = ts
        else next_until limit q = Some (None, q)"
proof (cases "heap_peek (oheap q)")
  case None
  then have "oheap q = []" by (simp add: heap_peek_def split: if_splits)
  then show ?thesis using None by (simp add: held_def next_until_def)
next
  case (Some m)
  obtain ts sq slot where m: "m = (ts, sq, slot)" by (cases m) auto
  from held_min [OF inv Some] have mem: "m \<in> set (oheap q)" and
    h: "held q = held_at (oslots q) m # sort_key key_ord (map (held_at (oslots q)) (remove1 m (oheap q)))"
    by blast+
  from inv mem m obtain inc where inc: "slot < length (oslots q)" "oslots q ! slot = Some inc" "hts (inc_header inc) = ts"
    by (fastforce simp: ordering_inv_def)
  have hd: "held_at (oslots q) m = (ts, sq, inc)" by (simp add: held_at_def m inc)
  let ?r = "remove1 m (oheap q)" and ?sl = "(oslots q)[slot := None]"
  let ?q = "q\<lparr>oheap := ?r, olast := max (olast q) ts, ofree := slot # ofree q, oslots := ?sl\<rparr>"
  have d: "distinct (map slot_of (oheap q) @ ofree q)" using inv by (simp add: ordering_inv_def)
  have ms: "mset (map slot_of (oheap q)) = add_mset slot (mset (map slot_of ?r))"
  proof -
    have "mset (oheap q) = add_mset m (mset ?r)" using mem by simp
    then have "image_mset slot_of (mset (oheap q)) = image_mset slot_of (add_mset m (mset ?r))" by (rule arg_cong)
    then show ?thesis by (simp add: m del: mset_remove1)
  qed
  have sr: "slot \<notin> set (map slot_of ?r)" "distinct (map slot_of ?r @ slot # ofree q)"
  proof -
    have "mset (map slot_of (oheap q) @ ofree q) = mset (map slot_of ?r @ slot # ofree q)" using ms by simp
    then show "distinct (map slot_of ?r @ slot # ofree q)" using d mset_eq_imp_distinct_iff by blast
    then show "slot \<notin> set (map slot_of ?r)" by auto
  qed
  have sub: "set ?r \<subseteq> set (oheap q)" by (rule set_remove1_subset)
  have same: "\<forall>k \<in> set ?r. ?sl ! slot_of k = oslots q ! slot_of k"
    using sr(1) by (metis image_eqI list.set_map nth_list_update_neq)
  have "distinct (map (fst \<circ> snd) ?r)"
    using inv by (auto simp: ordering_inv_def distinct_map intro: inj_on_diff)
  then have iq: "ordering_inv ?q"
    using inv sr(2) sub same inc(1) by (auto simp: ordering_inv_def subset_iff)
  have hq: "held ?q = sort_key key_ord (map (held_at (oslots q)) ?r)"
  proof -
    have "held ?q = sort_key key_ord (map (held_at ?sl) ?r)" by (simp add: held_def)
    then show ?thesis by (simp only: held_at_cong [OF same])
  qed
  show ?thesis
  proof (cases "ts \<le> limit")
    case False
    then have "next_until limit q = Some (None, q)" using Some by (simp add: m next_until_def)
    then show ?thesis using False by (simp add: h hd)
  next
    case True
    obtain q' where q': "(if ocapacity ?q > SLOTS_FLOOR \<and> length (oheap ?q) * 8 < ocapacity ?q
        then ordering_compact ?q else ?q) = q'" by simp
    have "ordering_inv q' \<and> held q' = held ?q \<and> olast q' = olast ?q \<and> ohold q' = ohold ?q"
      using compact_effect [OF iq] iq by (auto simp flip: q')
    moreover have "next_until limit q = Some (Some inc, q')"
      using Some True inc unfolding q' [symmetric] by (simp add: next_until_def m Let_def)
    ultimately show ?thesis using True hq inc(3) by (simp add: h hd)
  qed
qed

section \<open>The stage as a source of everything it holds\<close>

definition held_events :: "'e ordering \<Rightarrow> 'e incoming list" where
  "held_events q = map (snd \<circ> snd) (held q)"

text \<open>A consumer that stops at nothing due, and treats a panic as nothing.\<close>

definition due_step :: "int \<Rightarrow> 'e ordering \<Rightarrow> 'e incoming option \<times> 'e ordering" where
  "due_step limit q = (case next_until limit q of None \<Rightarrow> (None, q) | Some r \<Rightarrow> r)"

definition due_left :: "int \<Rightarrow> 'e ordering \<Rightarrow> 'e incoming list" where
  "due_left limit q = map (snd \<circ> snd) (takeWhile (\<lambda>k. fst k \<le> limit) (held q))"

interpretation due: source "due_step limit" "due_left limit" ordering_inv for limit
proof
  fix q q' :: "'e ordering" and x
  assume inv: "ordering_inv q" and st: "due_step limit q = (Some x, q')"
  show "due_left limit q = x # due_left limit q' \<and> ordering_inv q'"
  proof (cases "held q")
    case Nil
    then show ?thesis using next_until_effect [OF inv, of limit] st by (simp add: due_step_def)
  next
    case (Cons k rest)
    obtain ts sq inc where k: "k = (ts, sq, inc)" by (cases k) auto
    show ?thesis
      using next_until_effect [OF inv, of limit] st Cons
      by (cases "ts \<le> limit") (auto simp: due_step_def due_left_def k)
  qed
next
  fix q q' :: "'e ordering"
  assume inv: "ordering_inv q" and st: "due_step limit q = (None, q')"
  show "due_left limit q = [] \<and> due_left limit q' = [] \<and> ordering_inv q'"
  proof (cases "held q")
    case Nil
    then show ?thesis using next_until_effect [OF inv, of limit] st inv by (simp add: due_step_def due_left_def)
  next
    case (Cons k rest)
    obtain ts sq inc where k: "k = (ts, sq, inc)" by (cases k) auto
    show ?thesis
      using next_until_effect [OF inv, of limit] st Cons inv
      by (cases "ts \<le> limit") (auto simp: due_step_def due_left_def k)
  qed
qed


section \<open>Runs\<close>

datatype 'e oevent = Kept "'e incoming" | Passed "'e incoming" | Released "'e incoming" | Idle

inductive ostep :: "(nat \<Rightarrow> nat) \<Rightarrow> 'e ordering \<Rightarrow> 'e oevent \<Rightarrow> 'e ordering \<Rightarrow> bool" for grow where
  kept: "length (oslots q) < 2 ^ 32 \<Longrightarrow> ordering_push grow inc q = (Held, q') \<Longrightarrow> ostep grow q (Kept inc) q'"
| passed: "ordering_push grow inc q = (Late inc', q') \<Longrightarrow> ostep grow q (Passed inc') q'"
| released: "next_until limit q = Some (Some inc, q') \<Longrightarrow> ostep grow q (Released inc) q'"
| idle: "next_until limit q = Some (None, q') \<Longrightarrow> ostep grow q Idle q'"

inductive orun :: "(nat \<Rightarrow> nat) \<Rightarrow> 'e ordering \<Rightarrow> 'e oevent list \<Rightarrow> 'e ordering \<Rightarrow> bool" for grow q where
  start: "orun grow q [] q"
| step: "orun grow q es q' \<Longrightarrow> ostep grow q' e q'' \<Longrightarrow> orun grow q (es @ [e]) q''"

definition kept_events :: "'e oevent list \<Rightarrow> 'e incoming list" where
  "kept_events es = concat (map (\<lambda>e. case e of Kept i \<Rightarrow> [i] | _ \<Rightarrow> []) es)"

definition released_events :: "'e oevent list \<Rightarrow> 'e incoming list" where
  "released_events es = concat (map (\<lambda>e. case e of Released i \<Rightarrow> [i] | _ \<Rightarrow> []) es)"

abbreviation inc_ts :: "'e incoming \<Rightarrow> int" where
  "inc_ts i \<equiv> hts (inc_header i)"

text \<open>What holds along a run: nothing held is older than the last release, and the release order.\<close>

definition run_inv :: "'e ordering \<Rightarrow> 'e oevent list \<Rightarrow> bool" where
  "run_inv q es \<longleftrightarrow> ordering_inv q \<and> (\<forall>k \<in> set (held q). olast q \<le> fst k \<and> inc_ts (snd (snd k)) = fst k) \<and>
     sorted (map inc_ts (released_events es)) \<and> (\<forall>i \<in> set (released_events es). inc_ts i \<le> olast q) \<and>
     mset (kept_events es) = mset (released_events es) + mset (held_events q)"

lemma event_lists [simp]:
  "kept_events (es @ [Kept i]) = kept_events es @ [i]" "released_events (es @ [Kept i]) = released_events es"
  "kept_events (es @ [Passed i]) = kept_events es" "released_events (es @ [Passed i]) = released_events es"
  "kept_events (es @ [Released i]) = kept_events es" "released_events (es @ [Released i]) = released_events es @ [i]"
  "kept_events (es @ [Idle]) = kept_events es" "released_events (es @ [Idle]) = released_events es"
  by (simp_all add: kept_events_def released_events_def)

lemma run_inv_step:
  assumes "run_inv q es" "ostep grow q e q'"
  shows "run_inv q' (es @ [e])"
  using assms(2)
proof (cases rule: ostep.cases)
  case (kept inc)
  note k = ordering_push_effect [OF _ kept(2,3)]
  have inv: "ordering_inv q" using assms(1) by (simp add: run_inv_def)
  let ?A = "takeWhile (\<lambda>y. fst y \<le> inc_ts inc) (held q)" and ?B = "dropWhile (\<lambda>y. fst y \<le> inc_ts inc) (held q)"
  from k [OF inv] have h: "ordering_inv q'" "olast q' = olast q" "olast q \<le> inc_ts inc"
    "held q' = ?A @ (inc_ts inc, oseq q + 1, inc) # ?B" by (auto split: if_splits)
  have set: "set (held q') = insert (inc_ts inc, oseq q + 1, inc) (set (held q))"
    unfolding h(4) by (metis (no_types, lifting) Un_insert_right list.simps(15) set_append takeWhile_dropWhile_id)
  have "mset (held_events q') = add_mset inc (mset (map (snd \<circ> snd) (?A @ ?B)))"
    unfolding held_events_def h(4) by (simp del: takeWhile_dropWhile_id)
  then have "mset (held_events q') = add_mset inc (mset (held_events q))"
    by (simp only: held_events_def takeWhile_dropWhile_id)
  then show ?thesis using assms(1) h set kept(1) by (auto simp: run_inv_def)
next
  case (passed inc inc')
  then have "q' = q" by (auto simp: ordering_push_def Let_def split: if_splits list.splits prod.splits)
  then show ?thesis using assms(1) passed(1) by (simp add: run_inv_def)
next
  case (released limit inc)
  have inv: "ordering_inv q" using assms(1) by (simp add: run_inv_def)
  note e = next_until_effect [OF inv, of limit]
  show ?thesis
  proof (cases "held q")
    case Nil
    then show ?thesis using e released(2) by simp
  next
    case (Cons k rest)
    obtain ts sq i where k: "k = (ts, sq, i)" by (cases k) auto
    then have q': "i = inc" "held q' = rest" "ordering_inv q'" "olast q' = max (olast q) ts" "inc_ts i = ts"
      using e released(2) Cons by (auto split: if_splits)
    have "olast q \<le> ts" using assms(1) Cons k by (auto simp: run_inv_def)
    moreover have "\<forall>k \<in> set rest. ts \<le> fst k"
      using held_sorted [of q] Cons k by (auto simp: key_ord_def less_eq_prod_def)
    ultimately show ?thesis
      using assms(1) q' released(1) Cons k
      by (auto simp: run_inv_def held_events_def sorted_append intro: order_trans)
  qed
next
  case (idle limit)
  have inv: "ordering_inv q" using assms(1) by (simp add: run_inv_def)
  have "q' = q" using next_until_effect [OF inv, of limit] idle(2)
    by (auto split: list.splits prod.splits if_splits)
  then show ?thesis using assms(1) idle(1) by (simp add: run_inv_def)
qed

lemma run_inv_run: "orun grow q es q' \<Longrightarrow> run_inv q [] \<Longrightarrow> run_inv q' es"
  by (induction rule: orun.induct) (auto intro: run_inv_step)

section \<open>Properties\<close>

text \<open>C14: the ordering stage implements its list. A push of an event older than the last release
  passes it through and holds nothing; any other goes in behind the events of its time or earlier
  and before the later ones, so equal times keep their arrival order. A release takes the head of
  the list exactly when its time is at most the limit; compaction of the slots is invisible; the
  code never meets a key without its event.\<close>

theorem ordering_outcome:
  assumes "ordering_inv q" and "length (oslots q) < 2 ^ 32"
  shows "(case ordering_push grow inc q of (r, q') \<Rightarrow> ordering_inv q' \<and>
      (if inc_ts inc < olast q then r = Late inc \<and> q' = q
       else r = Held \<and> held_events q' =
         map (snd \<circ> snd) (takeWhile (\<lambda>k. fst k \<le> inc_ts inc) (held q)) @ inc #
         map (snd \<circ> snd) (dropWhile (\<lambda>k. fst k \<le> inc_ts inc) (held q)))) \<and>
    (case held q of
       [] \<Rightarrow> next_until limit q = Some (None, q)
     | (ts, _, inc) # rest \<Rightarrow>
         if ts \<le> limit
         then \<exists>q'. next_until limit q = Some (Some inc, q') \<and> held q' = rest \<and> ordering_inv q'
         else next_until limit q = Some (None, q))"
proof -
  obtain r q' where p: "ordering_push grow inc q = (r, q')" by fastforce
  from ordering_push_effect [OF assms p] have "ordering_inv q' \<and>
      (if inc_ts inc < olast q then r = Late inc \<and> q' = q
       else r = Held \<and> held_events q' =
         map (snd \<circ> snd) (takeWhile (\<lambda>k. fst k \<le> inc_ts inc) (held q)) @ inc #
         map (snd \<circ> snd) (dropWhile (\<lambda>k. fst k \<le> inc_ts inc) (held q)))"
    by (auto simp: held_events_def)
  then show ?thesis
    using next_until_effect [OF assms(1), of limit] p by (auto split: list.splits prod.splits if_splits)
qed

definition demo_inc :: "int \<Rightarrow> nat \<Rightarrow> nat incoming" where
  "demo_inc ts n = \<lparr>inc_header = \<lparr>hsession = Sensor, hpid = 4, htid = 8, hts = ts, hstart_key = None\<rparr>, inc_event = n\<rparr>"

definition demo_ordering :: "nat ordering" where
  "demo_ordering = foldl (\<lambda>q i. snd (ordering_push (\<lambda>n. 2 * n + 4) i q)) (ordering_new 10)
     [demo_inc 30 1, demo_inc 20 2, demo_inc 30 3, demo_inc 25 4]"

lemma demo_ordering_run:
  "orun (\<lambda>n. 2 * n + 4) (ordering_new 10)
     [Kept (demo_inc 30 1), Kept (demo_inc 20 2), Kept (demo_inc 30 3), Kept (demo_inc 25 4)] demo_ordering"
proof -
  let ?g = "\<lambda>n :: nat. 2 * n + 4" and ?q0 = "ordering_new 10 :: nat ordering"
  let ?p = "\<lambda>i q. snd (ordering_push ?g i q)"
  let ?q1 = "?p (demo_inc 30 1) ?q0" let ?q2 = "?p (demo_inc 20 2) ?q1"
  let ?q3 = "?p (demo_inc 30 3) ?q2" let ?q4 = "?p (demo_inc 25 4) ?q3"
  have s: "ostep ?g q (Kept i) (?p i q)" if "length (oslots q) < 2 ^ 32" "fst (ordering_push ?g i q) = Held" for q i
    using that by (intro ostep.kept) (auto simp: prod_eq_iff)
  have "ostep ?g ?q0 (Kept (demo_inc 30 1)) ?q1" by (rule s) code_simp+
  moreover have "ostep ?g ?q1 (Kept (demo_inc 20 2)) ?q2" by (rule s) code_simp+
  moreover have "ostep ?g ?q2 (Kept (demo_inc 30 3)) ?q3" by (rule s) code_simp+
  moreover have "ostep ?g ?q3 (Kept (demo_inc 25 4)) ?q4" by (rule s) code_simp+
  ultimately have "orun ?g ?q0 ((((([] @ [Kept (demo_inc 30 1)]) @ [Kept (demo_inc 20 2)]) @
      [Kept (demo_inc 30 3)]) @ [Kept (demo_inc 25 4)])) ?q4"
    by (blast intro: orun.intros)
  then show ?thesis by (simp add: demo_ordering_def)
qed

lemma run_inv_new: "run_inv (ordering_new h) []"
  by (simp add: run_inv_def ordering_inv_new held_new held_events_def kept_events_def released_events_def)

theorem ordering_outcome_witness:
  "\<exists>q'. next_until 27 demo_ordering = Some (Some (demo_inc 20 2), q') \<and> map inc_event (held_events q') = [4, 1, 3]"
proof -
  have "ordering_inv demo_ordering"
    using run_inv_run [OF demo_ordering_run run_inv_new] by (simp add: run_inv_def)
  moreover have "length (oslots demo_ordering) < 2 ^ 32" by code_simp
  moreover have "held demo_ordering = [(20, 2, demo_inc 20 2), (25, 4, demo_inc 25 4), (30, 1, demo_inc 30 1), (30, 3, demo_inc 30 3)]"
    by code_simp
  ultimately show ?thesis
    using ordering_outcome [where q = demo_ordering and grow = id and inc = "demo_inc 0 0" and limit = 27] by (auto simp: held_events_def demo_inc_def)
qed

text \<open>C15: order and conservation along any run of pushes and releases at any limits. The events
  released in order come out in timestamp order; every event held was released once or is still
  held, none twice and none lost.\<close>

theorem ordering_run_outcome:
  assumes "orun grow (ordering_new h) es q"
  shows "sorted (map inc_ts (released_events es)) \<and>
    mset (kept_events es) = mset (released_events es) + mset (held_events q)"
  using run_inv_run [OF assms run_inv_new] by (simp add: run_inv_def)

theorem ordering_run_outcome_witness:
  "mset (held_events demo_ordering) = {#demo_inc 30 1, demo_inc 20 2, demo_inc 30 3, demo_inc 25 4#}"
  using ordering_run_outcome [OF demo_ordering_run]
  by (simp add: kept_events_def released_events_def)

end
