(* ===== verification/Ag_Completion.thy ===== *)
theory Ag_Completion
  imports Prelude "HOL-Library.Sublist"
begin

text \<open>
  The completion stage (\<open>crates/atlas-agent/src/completion.rs\<close>): a line of events in push order,
  some of which wait for reasons. The map of pending entries is an association list with distinct
  keys, the two deques are lists. The callback \<open>on_incomplete\<close> is a function on the caller's state
  and the event. Facts: under the invariant the stage implements a plain list of items; \<open>drain\<close>
  emits its longest prefix that nothing blocks.
\<close>

section \<open>The data\<close>

datatype reason = Enrich | Join | ValueRead | Expand | Seeder | Confirm

record wait =
  wreason :: reason
  wdeadline :: "int option"
  wdrop_at_deadline :: bool

record expired =
  xreason :: reason
  xdropped :: bool

type_synonym pending_id = nat

datatype 'e slot = Ready 'e | Pending pending_id

text \<open>Each wait with its \<open>done\<close> flag.\<close>

record 'e entry =
  eevent :: 'e
  ewaits :: "(wait \<times> bool) list"
  eforced :: bool

type_synonym 'e pending = "(pending_id \<times> 'e entry) list"

record 'e completion =
  cqueue :: "'e slot list"
  cpending :: "'e pending"
  cnext :: pending_id
  ccap :: nat
  coverflow :: nat
  cexited :: "pending_id list"
  corder :: "pending_id list"

definition completion_new :: "nat \<Rightarrow> 'e completion" where
  "completion_new cap = \<lparr>cqueue = [], cpending = [], cnext = 0, ccap = cap, coverflow = 0,
     cexited = [], corder = []\<rparr>"

section \<open>The operations\<close>

definition push :: "'e \<Rightarrow> 'e completion \<Rightarrow> 'e completion" where
  "push e c = c\<lparr>cqueue := cqueue c @ [Ready e]\<rparr>"

text \<open>\<open>get_mut\<close> followed by a change of the entry.\<close>

definition alter :: "pending_id \<Rightarrow> ('e entry \<Rightarrow> 'e entry) \<Rightarrow> 'e pending \<Rightarrow> 'e pending" where
  "alter pid f p = map (\<lambda>(i, en). (i, if i = pid then f en else en)) p"

text \<open>The loop that pops the oldest ids until one is still pending, and forces that one.\<close>

fun force_oldest :: "pending_id list \<Rightarrow> 'e pending \<Rightarrow> pending_id list \<times> 'e pending \<times> nat" where
  "force_oldest [] p = ([], p, 0)"
| "force_oldest (oldest # rest) p =
     (case map_of p oldest of
        Some _ \<Rightarrow> (rest, alter oldest (\<lambda>en. en\<lparr>eforced := True\<rparr>) p, 1)
      | None \<Rightarrow> force_oldest rest p)"

definition push_pending :: "'e \<Rightarrow> wait list \<Rightarrow> 'e completion \<Rightarrow> pending_id \<times> 'e completion" where
  "push_pending e ws c =
     (let pid = cnext c + 1;
          c = c\<lparr>cnext := pid,
                cpending := AList.update pid
                  \<lparr>eevent = e, ewaits = map (\<lambda>w. (w, False)) ws, eforced = False\<rparr> (cpending c),
                cqueue := cqueue c @ [Pending pid], corder := corder c @ [pid]\<rparr>;
          c = (if length (cpending c) > ccap c then
                 (case force_oldest (corder c) (cpending c) of (os, p, n) \<Rightarrow>
                    c\<lparr>corder := os, cpending := p, coverflow := coverflow c + n\<rparr>)
               else c)
      in (pid, c))"

definition update :: "pending_id \<Rightarrow> ('e \<Rightarrow> 'e) \<Rightarrow> 'e completion \<Rightarrow> bool \<times> 'e completion" where
  "update pid f c =
     (case map_of (cpending c) pid of
        Some _ \<Rightarrow> (True, c\<lparr>cpending := alter pid (\<lambda>en. en\<lparr>eevent := f (eevent en)\<rparr>) (cpending c)\<rparr>)
      | None \<Rightarrow> (False, c))"

definition add_wait :: "pending_id \<Rightarrow> wait \<Rightarrow> 'e completion \<Rightarrow> bool \<times> 'e completion" where
  "add_wait pid w c =
     (case map_of (cpending c) pid of
        Some _ \<Rightarrow> (True, c\<lparr>cpending := alter pid (\<lambda>en. en\<lparr>ewaits := ewaits en @ [(w, False)]\<rparr>) (cpending c)\<rparr>)
      | None \<Rightarrow> (False, c))"

definition resolve :: "pending_id \<Rightarrow> reason \<Rightarrow> 'e completion \<Rightarrow> 'e completion" where
  "resolve pid r c =
     (case map_of (cpending c) pid of
        Some _ \<Rightarrow> c\<lparr>cpending := alter pid
          (\<lambda>en. en\<lparr>ewaits := map (\<lambda>(w, d). (w, wreason w = r \<or> d)) (ewaits en)\<rparr>) (cpending c)\<rparr>
      | None \<Rightarrow> c)"

definition is_waiting :: "pending_id \<Rightarrow> reason \<Rightarrow> 'e completion \<Rightarrow> bool" where
  "is_waiting pid r c = is_some_and (map_of (cpending c) pid) (\<lambda>en. \<exists>(w, d) \<in> set (ewaits en). wreason w = r \<and> \<not> d)"

definition cancel :: "pending_id \<Rightarrow> 'e completion \<Rightarrow> bool \<times> 'e completion" where
  "cancel pid c =
     (let gone = map_of (cpending c) pid \<noteq> None; c = c\<lparr>cpending := AList.delete pid (cpending c)\<rparr>
      in (gone, if gone then c\<lparr>cexited := cexited c @ [pid]\<rparr> else c))"

definition take_exited :: "'e completion \<Rightarrow> pending_id list \<times> 'e completion" where
  "take_exited c = (cexited c, c\<lparr>cexited := []\<rparr>)"

definition open_waits :: "'e entry \<Rightarrow> wait list" where
  "open_waits en = map fst (filter (\<lambda>(w, d). \<not> d) (ewaits en))"

definition blocked :: "int \<Rightarrow> 'e entry \<Rightarrow> bool" where
  "blocked now en \<longleftrightarrow>
     \<not> eforced en \<and> (\<exists>w \<in> set (open_waits en). is_none_or (wdeadline w) (\<lambda>d. now < d))"

definition expired_of :: "'e entry \<Rightarrow> expired list" where
  "expired_of en = map (\<lambda>w. \<lparr>xreason = wreason w, xdropped = wdrop_at_deadline w \<and> \<not> eforced en\<rparr>) (open_waits en)"

type_synonym ('s, 'e) callback = "'s \<Rightarrow> 'e \<Rightarrow> expired list \<Rightarrow> 's \<times> 'e"

text \<open>What leaves the stage when an entry does: the callback if anything expired, then the event
  unless a reason drops it.\<close>

definition leave :: "('s, 'e) callback \<Rightarrow> 's \<Rightarrow> 'e entry \<Rightarrow> 's \<times> 'e list" where
  "leave cb s en =
     (let xs = expired_of en;
          (s, ev) = (if xs \<noteq> [] then cb s (eevent en) xs else (s, eevent en))
      in (s, if \<exists>x \<in> set xs. xdropped x then [] else [ev]))"

function drain_loop :: "('s, 'e) callback \<Rightarrow> int \<Rightarrow> 's \<Rightarrow> 'e completion \<Rightarrow> 'e list \<Rightarrow> 's \<times> 'e completion \<times> 'e list" where
  "drain_loop cb now s c out =
     (case cqueue c of
        [] \<Rightarrow> (s, c, out)
      | Ready e # q \<Rightarrow> drain_loop cb now s (c\<lparr>cqueue := q\<rparr>) (out @ [e])
      | Pending pid # q \<Rightarrow>
          (case map_of (cpending c) pid of
             None \<Rightarrow> drain_loop cb now s (c\<lparr>cqueue := q\<rparr>) out
           | Some en \<Rightarrow>
               if blocked now en then (s, c, out)
               else (case leave cb s en of (s, es) \<Rightarrow>
                 drain_loop cb now s
                   (c\<lparr>cqueue := q, cpending := AList.delete pid (cpending c), cexited := cexited c @ [pid]\<rparr>)
                   (out @ es))))"
  by pat_completeness auto
termination by (relation "measure (\<lambda>(_, _, _, c, _). length (cqueue c))") auto

definition drain :: "('s, 'e) callback \<Rightarrow> int \<Rightarrow> 's \<Rightarrow> 'e completion \<Rightarrow> 's \<times> 'e completion \<times> 'e list" where
  "drain cb now s c =
     (case drain_loop cb now s c [] of (s, c, out) \<Rightarrow>
        (s, c\<lparr>corder := dropWhile (\<lambda>p. map_of (cpending c) p = None) (corder c)\<rparr>, out))"

function flush_loop :: "('s, 'e) callback \<Rightarrow> 's \<Rightarrow> 'e completion \<Rightarrow> 'e list \<Rightarrow> 's \<times> 'e completion \<times> 'e list" where
  "flush_loop cb s c out =
     (case cqueue c of
        [] \<Rightarrow> (s, c, out)
      | Ready e # q \<Rightarrow> flush_loop cb s (c\<lparr>cqueue := q\<rparr>) (out @ [e])
      | Pending pid # q \<Rightarrow>
          (case map_of (cpending c) pid of
             None \<Rightarrow> flush_loop cb s (c\<lparr>cqueue := q\<rparr>) out
           | Some en \<Rightarrow>
               (case leave cb s en of (s, es) \<Rightarrow>
                 flush_loop cb s
                   (c\<lparr>cqueue := q, cpending := AList.delete pid (cpending c), cexited := cexited c @ [pid]\<rparr>)
                   (out @ es))))"
  by pat_completeness auto
termination by (relation "measure (\<lambda>(_, _, c, _). length (cqueue c))") auto

definition completion_flush :: "('s, 'e) callback \<Rightarrow> 's \<Rightarrow> 'e completion \<Rightarrow> 's \<times> 'e completion \<times> 'e list" where
  "completion_flush cb s c =
     (case flush_loop cb s c [] of (s, c, out) \<Rightarrow> (s, c\<lparr>corder := []\<rparr>, out))"

definition pending_len :: "'e completion \<Rightarrow> nat" where
  "pending_len c = length (cpending c)"

definition completion_is_empty :: "'e completion \<Rightarrow> bool" where
  "completion_is_empty c \<longleftrightarrow> cqueue c = []"

declare drain_loop.simps [simp del] flush_loop.simps [simp del]

section \<open>The line\<close>

text \<open>What the stage means: the items that have not left, in push order. A cancelled event is
  gone from it although its slot is still queued.\<close>

datatype 'e item = Go 'e | Hold pending_id "'e entry"

definition item_of :: "'e pending \<Rightarrow> 'e slot \<Rightarrow> 'e item list" where
  "item_of p sl = (case sl of
     Ready e \<Rightarrow> [Go e]
   | Pending pid \<Rightarrow> (case map_of p pid of None \<Rightarrow> [] | Some en \<Rightarrow> [Hold pid en]))"

definition line_of :: "'e pending \<Rightarrow> 'e slot list \<Rightarrow> 'e item list" where
  "line_of p q = concat (map (item_of p) q)"

definition line :: "'e completion \<Rightarrow> 'e item list" where
  "line c = line_of (cpending c) (cqueue c)"

fun on_hold :: "pending_id \<Rightarrow> ('e entry \<Rightarrow> 'e entry) \<Rightarrow> 'e item \<Rightarrow> 'e item" where
  "on_hold pid f (Go e) = Go e"
| "on_hold pid f (Hold i en) = Hold i (if i = pid then f en else en)"

fun is_hold :: "pending_id \<Rightarrow> 'e item \<Rightarrow> bool" where
  "is_hold pid (Go e) = False"
| "is_hold pid (Hold i en) = (i = pid)"

text \<open>The overflow rule on the line: the first item that waits is forced.\<close>

fun force_first :: "'e item list \<Rightarrow> 'e item list" where
  "force_first [] = []"
| "force_first (Go e # l) = Go e # force_first l"
| "force_first (Hold i en # l) =
     (if eforced en then Hold i en # force_first l else Hold i (en\<lparr>eforced := True\<rparr>) # l)"

fun item_blocked :: "int \<Rightarrow> 'e item \<Rightarrow> bool" where
  "item_blocked now (Go e) = False"
| "item_blocked now (Hold i en) = blocked now en"

text \<open>What leaves when a list of items does, in order.\<close>

fun leave_all :: "('s, 'e) callback \<Rightarrow> 's \<Rightarrow> 'e item list \<Rightarrow> 's \<times> 'e list" where
  "leave_all cb s [] = (s, [])"
| "leave_all cb s (Go e # l) = (case leave_all cb s l of (s, es) \<Rightarrow> (s, e # es))"
| "leave_all cb s (Hold i en # l) =
     (case leave cb s en of (s, es) \<Rightarrow> case leave_all cb s l of (s, es') \<Rightarrow> (s, es @ es'))"

section \<open>The invariant\<close>

definition ids_of :: "'e slot list \<Rightarrow> pending_id list" where
  "ids_of q = concat (map (\<lambda>sl. case sl of Ready _ \<Rightarrow> [] | Pending pid \<Rightarrow> [pid]) q)"

definition unforced :: "'e pending \<Rightarrow> 'e pending" where
  "unforced p = filter (\<lambda>(i, en). \<not> eforced en) p"

definition pending_inv :: "'e pending \<Rightarrow> pending_id list \<Rightarrow> bool" where
  "pending_inv p os \<longleftrightarrow> distinct (map fst p) \<and> sorted_wrt (<) os \<and>
     (\<forall>(i, en) \<in> set p. eforced en \<longleftrightarrow> i \<notin> set os)"

definition completion_inv :: "'e completion \<Rightarrow> bool" where
  "completion_inv c \<longleftrightarrow> pending_inv (cpending c) (corder c) \<and>
     sorted_wrt (<) (ids_of (cqueue c)) \<and> fst ` set (cpending c) \<subseteq> set (ids_of (cqueue c)) \<and>
     (\<forall>i \<in> set (ids_of (cqueue c)) \<union> set (corder c). i \<le> cnext c) \<and>
     length (unforced (cpending c)) \<le> ccap c"

lemma ids_of_simps [simp]:
  "ids_of [] = []" "ids_of (Ready e # q) = ids_of q" "ids_of (Pending i # q) = i # ids_of q"
  "ids_of (q @ q') = ids_of q @ ids_of q'"
  by (simp_all add: ids_of_def)

lemma line_of_simps [simp]:
  "line_of p [] = []" "line_of p (Ready e # q) = Go e # line_of p q"
  "line_of p (Pending i # q) = (case map_of p i of None \<Rightarrow> [] | Some en \<Rightarrow> [Hold i en]) @ line_of p q"
  "line_of p (q @ q') = line_of p q @ line_of p q'"
  by (simp_all add: line_of_def item_of_def)

lemma completion_inv_new: "completion_inv (completion_new cap)"
  by (simp add: completion_inv_def pending_inv_def completion_new_def unforced_def)

lemma line_new: "line (completion_new cap) = []"
  by (simp add: line_def completion_new_def)

section \<open>Changing and removing an entry\<close>

lemma update_fresh: "i \<notin> fst ` set p \<Longrightarrow> AList.update i e p = p @ [(i, e)]"
  by (induction p) auto

lemma alter_keys [simp]: "map fst (alter i f p) = map fst p"
  by (simp add: alter_def split_def comp_def)

lemma map_of_alter: "map_of (alter i f p) j = (if j = i then map_option f (map_of p j) else map_of p j)"
  by (induction p) (auto simp: alter_def)

lemma alter_none: "map_of p i = None \<Longrightarrow> alter i f p = p"
  by (induction p) (auto simp: alter_def split: if_splits)

lemma alter_set: "(j, en) \<in> set (alter i f p) \<longleftrightarrow> (\<exists>en'. (j, en') \<in> set p \<and> en = (if j = i then f en' else en'))"
  unfolding alter_def by (force split: if_splits)

lemma line_of_alter: "line_of (alter i f p) q = map (on_hold i f) (line_of p q)"
proof (induction q)
  case Nil
  show ?case by simp
next
  case (Cons sl q)
  then show ?case by (cases sl) (auto simp: map_of_alter split: option.splits)
qed

lemma unforced_alter:
  assumes "\<And>en. eforced (f en) = eforced en"
  shows "length (unforced (alter i f p)) = length (unforced p)"
  by (induction p) (simp_all add: alter_def unforced_def assms split_def)

lemma pending_inv_alter:
  assumes "\<And>en. eforced (f en) = eforced en"
  shows "pending_inv (alter i f p) os = pending_inv p os"
proof -
  have "(\<forall>(j, en) \<in> set (alter i f p). eforced en \<longleftrightarrow> j \<notin> set os) \<longleftrightarrow>
      (\<forall>(j, en) \<in> set p. eforced en \<longleftrightarrow> j \<notin> set os)"
    by (auto simp: alter_def assms split: if_splits)
  then show ?thesis by (simp add: pending_inv_def)
qed

lemma altered_effect:
  assumes "completion_inv c" "\<And>en. eforced (f en) = eforced en"
  shows "completion_inv (c\<lparr>cpending := alter i f (cpending c)\<rparr>) \<and>
    line (c\<lparr>cpending := alter i f (cpending c)\<rparr>) = map (on_hold i f) (line c)"
proof -
  have "fst ` set (alter i f (cpending c)) = fst ` set (cpending c)"
    by (metis alter_keys list.set_map)
  then show ?thesis
    using assms by (simp add: completion_inv_def pending_inv_alter unforced_alter line_def line_of_alter)
qed

lemma on_hold_absent: "map_of p i = None \<Longrightarrow> map (on_hold i f) (line_of p q) = line_of p q"
  by (metis alter_none line_of_alter)

lemma line_of_delete: "line_of (AList.delete i p) q = filter (\<lambda>x. \<not> is_hold i x) (line_of p q)"
proof (induction q)
  case Nil
  show ?case by simp
next
  case (Cons sl q)
  then show ?case by (cases sl) (auto simp: delete_conv' split: option.splits)
qed

lemma line_of_other: "i \<notin> set (ids_of q) \<Longrightarrow> filter (\<lambda>x. \<not> is_hold i x) (line_of p q) = line_of p q"
proof (induction q)
  case Nil
  show ?case by simp
next
  case (Cons sl q)
  then show ?case by (cases sl) (auto split: option.splits)
qed

lemma delete_subset: "set (AList.delete i p) \<subseteq> set p"
  by (auto simp: AList.delete_eq)

lemma pending_inv_delete: "pending_inv p os \<Longrightarrow> pending_inv (AList.delete i p) os"
  using delete_subset [of i p] by (auto simp: pending_inv_def distinct_delete subset_iff)

lemma unforced_delete: "length (unforced (AList.delete i p)) \<le> length (unforced p)"
proof -
  have "unforced (AList.delete i p) = filter (\<lambda>(k, _). i \<noteq> k) (unforced p)"
    unfolding unforced_def AList.delete_eq filter_filter by (rule filter_cong) auto
  then show ?thesis by (simp only: length_filter_le)
qed

section \<open>The operations on the line\<close>

lemma push_effect:
  assumes "completion_inv c"
  shows "completion_inv (push e c) \<and> line (push e c) = line c @ [Go e]"
  using assms by (simp add: push_def completion_inv_def line_def)

lemma force_oldest_effect:
  assumes "pending_inv p os" "force_oldest os p = (os', p', n)"
  shows "pending_inv p' os' \<and> set os' \<subseteq> set os \<and>
    (if unforced p = [] then p' = p \<and> n = 0
     else n = 1 \<and> (\<exists>i en. (i, en) \<in> set (unforced p) \<and> (\<forall>(j, _) \<in> set (unforced p). i \<le> j) \<and>
       p' = alter i (\<lambda>en. en\<lparr>eforced := True\<rparr>) p))"
  using assms
proof (induction os p rule: force_oldest.induct)
  case (1 p)
  then have "unforced p = []" by (auto simp: pending_inv_def unforced_def filter_empty_conv)
  then show ?case using 1 by simp
next
  case (2 oldest rest p)
  let ?f = "\<lambda>en. en\<lparr>eforced := True\<rparr>"
  show ?case
  proof (cases "map_of p oldest")
    case None
    then have "oldest \<notin> fst ` set p" by (simp add: map_of_eq_None_iff)
    then have "pending_inv p rest" using 2(2) by (force simp: pending_inv_def)
    then show ?thesis using 2(1,3) None by auto
  next
    case (Some en)
    then have r: "os' = rest" "p' = alter oldest ?f p" "n = 1" using 2(3) by auto
    have mem: "(oldest, en) \<in> set p" using Some by (rule map_of_SomeD)
    then have "\<not> eforced en" using 2(2) by (auto simp: pending_inv_def)
    with mem have un: "(oldest, en) \<in> set (unforced p)" by (simp add: unforced_def)
    have os: "oldest \<notin> set rest" "\<forall>j \<in> set rest. oldest < j" "sorted_wrt (<) rest"
      using 2(2) by (auto simp: pending_inv_def)
    have "eforced e \<longleftrightarrow> j \<notin> set rest" if "(j, e) \<in> set p'" for j e
      using that 2(2) os(1) unfolding r pending_inv_def by (cases "j = oldest") (auto simp: alter_set)
    then have "pending_inv p' rest"
      using 2(2) os(3) by (auto simp: pending_inv_def r(2))
    moreover have "\<forall>(j, _) \<in> set (unforced p). oldest \<le> j"
      using 2(2) os(2) by (auto simp: pending_inv_def unforced_def less_imp_le)
    moreover have "unforced p \<noteq> []" using un by auto
    ultimately show ?thesis using un r by auto
  qed
qed

lemma unforced_force:
  assumes "distinct (map fst p)" "(i, en) \<in> set (unforced p)"
  shows "Suc (length (unforced (alter i (\<lambda>en. en\<lparr>eforced := True\<rparr>) p))) = length (unforced p)"
  using assms
proof (induction p)
  case Nil
  then show ?case by (simp add: unforced_def)
next
  case (Cons x p)
  obtain j e where x: "x = (j, e)" by fastforce
  show ?case
  proof (cases "j = i")
    case True
    then have "map_of p i = None" using Cons.prems(1) x by (simp add: map_of_eq_None_iff)
    then have "alter i (\<lambda>en. en\<lparr>eforced := True\<rparr>) p = p" by (rule alter_none)
    moreover have "\<not> eforced e"
      using Cons.prems x True by (force simp: unforced_def)
    ultimately show ?thesis using True x by (simp add: alter_def unforced_def)
  next
    case False
    then have "(i, en) \<in> set (unforced p)" using Cons.prems(2) x by (auto simp: unforced_def split: if_splits)
    then show ?thesis using Cons x False by (auto simp: alter_def unforced_def)
  qed
qed

text \<open>The forced entry is the first of the line that is not forced already.\<close>

lemma force_first_line:
  assumes "distinct (map fst p)" "sorted_wrt (<) (ids_of q)" "i \<in> set (ids_of q)"
    "(i, en) \<in> set (unforced p)" "\<forall>(j, _) \<in> set (unforced p). i \<le> j"
  shows "map (on_hold i (\<lambda>en. en\<lparr>eforced := True\<rparr>)) (line_of p q) = force_first (line_of p q)"
  using assms(2,3)
proof (induction q)
  case Nil
  then show ?case by simp
next
  case (Cons sl q)
  have pi: "map_of p i = Some en" "\<not> eforced en" using assms(1,4) by (auto simp: unforced_def)
  show ?case
  proof (cases sl)
    case (Ready e)
    then show ?thesis using Cons by simp
  next
    case (Pending j)
    show ?thesis
    proof (cases "j = i")
      case True
      have "i \<notin> set (ids_of q)" using Cons.prems(1) Pending True by auto
      then have "map (on_hold i f) (line_of p q) = line_of p q" for f :: "'a entry \<Rightarrow> 'a entry"
      proof (induction q)
        case (Cons sl q)
        then show ?case by (cases sl) (auto split: option.splits)
      qed simp
      then show ?thesis using Pending True pi by simp
    next
      case False
      then have lt: "j < i" and "i \<in> set (ids_of q)" using Cons.prems Pending by auto
      moreover have "eforced e" if "map_of p j = Some e" for e
      proof (rule ccontr)
        assume "\<not> eforced e"
        then have "(j, e) \<in> set (unforced p)" using that by (simp add: unforced_def map_of_SomeD)
        then show False using assms(5) lt by auto
      qed
      ultimately show ?thesis using Cons Pending False by (auto split: option.splits)
    qed
  qed
qed

lemma push_pending_effect:
  assumes inv: "completion_inv c" and p: "push_pending e ws c = (pid, c')"
  shows "completion_inv c' \<and> pid = cnext c + 1 \<and>
    line c' = (let l = line c @ [Hold pid \<lparr>eevent = e, ewaits = map (\<lambda>w. (w, False)) ws, eforced = False\<rparr>]
      in if pending_len c + 1 > ccap c then force_first l else l)"
proof -
  let ?i = "Suc (cnext c)" and ?en = "\<lparr>eevent = e, ewaits = map (\<lambda>w. (w, False)) ws, eforced = False\<rparr>"
  let ?p = "AList.update ?i ?en (cpending c)" and ?q = "cqueue c @ [Pending ?i]" and ?os = "corder c @ [?i]"
  have le: "\<forall>i \<in> set (ids_of (cqueue c)). i \<le> cnext c" "\<forall>i \<in> set (corder c). i \<le> cnext c"
    and sub: "fst ` set (cpending c) \<subseteq> set (ids_of (cqueue c))"
    and pi: "pending_inv (cpending c) (corder c)" and sq: "sorted_wrt (<) (ids_of (cqueue c))"
    and un: "length (unforced (cpending c)) \<le> ccap c"
    using inv by (auto simp: completion_inv_def)
  have fresh: "?i \<notin> fst ` set (cpending c)" using le(1) sub by fastforce
  then have pe: "?p = cpending c @ [(?i, ?en)]" by (rule update_fresh)
  have lpe: "length ?p = Suc (length (cpending c))" unfolding pe by simp
  have ne: "j \<noteq> ?i" if "(j, en) \<in> set (cpending c)" for j en using fresh that by force
  have pinv: "pending_inv ?p ?os"
    using pi le(2) fresh ne unfolding pe pending_inv_def by (auto simp: sorted_wrt_append less_Suc_eq_le)
  have qs: "sorted_wrt (<) (ids_of ?q)" "fst ` set ?p \<subseteq> set (ids_of ?q)"
    using sq le(1) sub unfolding pe by (auto simp: sorted_wrt_append less_Suc_eq_le)
  have un': "unforced ?p = unforced (cpending c) @ [(?i, ?en)]" unfolding pe by (simp add: unforced_def)
  have ln: "line_of ?p ?q = line c @ [Hold ?i ?en]"
  proof -
    have "line_of ?p (cqueue c) = line_of (cpending c) (cqueue c)"
      unfolding pe line_of_def
    proof (intro arg_cong [where f = concat] map_cong refl)
      fix sl assume "sl \<in> set (cqueue c)"
      then have "sl = Pending i \<Longrightarrow> i \<noteq> ?i" for i
        using le(1) by (auto simp: ids_of_def)
      then show "item_of (cpending c @ [(?i, ?en)]) sl = item_of (cpending c) sl"
        by (auto simp: item_of_def map_add_def split: slot.splits option.splits)
    qed
    moreover have "map_of ?p ?i = Some ?en" by (simp add: update_conv)
    ultimately show ?thesis by (simp add: line_def)
  qed
  show ?thesis
  proof (cases "length ?p > ccap c")
    case False
    then have c': "c' = c\<lparr>cnext := ?i, cpending := ?p, cqueue := ?q, corder := ?os\<rparr>" "pid = ?i"
      using p by (auto simp: push_pending_def Let_def)
    have "length (unforced ?p) \<le> length ?p" by (simp add: unforced_def)
    then have "completion_inv c'"
      using pinv qs le False unfolding completion_inv_def c' by fastforce
    then show ?thesis using False ln by (simp add: c' line_def Let_def pending_len_def lpe)
  next
    case True
    obtain os' p' n where f: "force_oldest ?os ?p = (os', p', n)" by (cases "force_oldest ?os ?p") auto
    have c': "c' = c\<lparr>cnext := ?i, cpending := p', cqueue := ?q, corder := os', coverflow := coverflow c + n\<rparr>" "pid = ?i"
      using p True f by (auto simp: push_pending_def Let_def)
    have "unforced ?p \<noteq> []" by (simp add: un')
    then obtain i en where fo: "pending_inv p' os'" "set os' \<subseteq> set ?os" "(i, en) \<in> set (unforced ?p)"
      "\<forall>(j, _) \<in> set (unforced ?p). i \<le> j" "p' = alter i (\<lambda>en. en\<lparr>eforced := True\<rparr>) ?p"
      using force_oldest_effect [OF pinv f] by auto
    have dp: "distinct (map fst ?p)" using pinv by (simp add: pending_inv_def)
    have keys: "fst ` set p' = fst ` set ?p" unfolding fo(5) by (metis alter_keys list.set_map)
    have "length (unforced p') \<le> ccap c"
      using unforced_force [OF dp fo(3)] un unfolding fo(5) un' by simp
    moreover have "fst ` set p' \<subseteq> set (ids_of ?q)" unfolding keys by (rule qs(2))
    moreover have "\<forall>i \<in> set (ids_of ?q) \<union> set os'. i \<le> ?i" using fo(2) le by fastforce
    ultimately have ci: "completion_inv c'"
      using fo(1) qs(1) by (simp add: completion_inv_def c')
    have "i \<in> fst ` set ?p" using fo(3) by (force simp: unforced_def)
    then have "i \<in> set (ids_of ?q)" using qs(2) by blast
    from force_first_line [OF dp qs(1) this fo(3,4)]
    have "line_of p' ?q = force_first (line_of ?p ?q)" unfolding fo(5) line_of_alter .
    moreover have "line c' = line_of p' ?q" by (simp add: line_def c' del: line_of_simps)
    ultimately have "line c' = force_first (line_of ?p ?q)" by simp
    then show ?thesis using True ln ci by (simp add: c' Let_def pending_len_def lpe)
  qed
qed

section \<open>Leaving\<close>

definition held_ids :: "'e item list \<Rightarrow> pending_id list" where
  "held_ids l = concat (map (\<lambda>x. case x of Go _ \<Rightarrow> [] | Hold i _ \<Rightarrow> [i]) l)"

lemma held_ids_simps [simp]:
  "held_ids [] = []" "held_ids (Go e # l) = held_ids l" "held_ids (Hold i en # l) = i # held_ids l"
  by (simp_all add: held_ids_def)

lemma line_of_delete_head:
  "i \<notin> set (ids_of q) \<Longrightarrow> line_of (AList.delete i p) q = line_of p q"
  by (simp add: line_of_delete line_of_other)

text \<open>Taking a slot off the front keeps the invariant when its entry goes with it.\<close>

lemma inv_pop:
  assumes "completion_inv c" "cqueue c = Ready e # q"
  shows "completion_inv (c\<lparr>cqueue := q\<rparr>)"
  using assms by (simp add: completion_inv_def)

lemma inv_pop_gone:
  assumes "completion_inv c" "cqueue c = Pending i # q" "map_of (cpending c) i = None"
  shows "completion_inv (c\<lparr>cqueue := q\<rparr>)"
  using assms by (auto simp: completion_inv_def map_of_eq_None_iff)

lemma inv_pop_pending:
  assumes inv: "completion_inv c" and q: "cqueue c = Pending i # q"
  shows "completion_inv (c\<lparr>cqueue := q, cpending := AList.delete i (cpending c), cexited := ex\<rparr>)"
proof -
  have "fst ` set (AList.delete i (cpending c)) \<subseteq> fst ` set (cpending c) - {i}"
    using delete_notin_dom [of i "cpending c"] dom_delete_subset [of i "cpending c"] by blast
  then have "fst ` set (AList.delete i (cpending c)) \<subseteq> set (ids_of q)"
    using inv q by (auto simp: completion_inv_def)
  moreover have "length (unforced (AList.delete i (cpending c))) \<le> ccap c"
    using inv unforced_delete [of i "cpending c"] by (simp add: completion_inv_def)
  ultimately show ?thesis
    using inv q pending_inv_delete by (auto simp: completion_inv_def)
qed

lemma drain_loop_effect:
  assumes "completion_inv c" "drain_loop cb now s c out = (s', c', out')"
  shows "completion_inv c' \<and> line c' = dropWhile (\<lambda>x. \<not> item_blocked now x) (line c) \<and>
    (cqueue c' = [] \<longleftrightarrow> line c' = []) \<and> corder c' = corder c \<and> ccap c' = ccap c \<and>
    cexited c' = cexited c @ held_ids (takeWhile (\<lambda>x. \<not> item_blocked now x) (line c)) \<and>
    (\<exists>es. out' = out @ es \<and>
       leave_all cb s (takeWhile (\<lambda>x. \<not> item_blocked now x) (line c)) = (s', es))"
  using assms
proof (induction cb now s c out arbitrary: s' c' out' rule: drain_loop.induct)
  case (1 cb now s c out)
  show ?case
  proof (cases "cqueue c")
    case Nil
    then show ?thesis using 1(4,5) by (auto simp: drain_loop.simps line_def)
  next
    case (Cons sl q)
    show ?thesis
    proof (cases sl)
      case (Ready e)
      have l: "line c = Go e # line (c\<lparr>cqueue := q\<rparr>)" using Cons Ready by (simp add: line_def)
      have "drain_loop cb now s (c\<lparr>cqueue := q\<rparr>) (out @ [e]) = (s', c', out')"
        using 1(5) Cons Ready by (simp add: drain_loop.simps [of cb now s c])
      from 1(1) [OF Cons Ready inv_pop [OF 1(4)] this] Cons Ready
      show ?thesis unfolding l by auto
    next
      case (Pending i)
      show ?thesis
      proof (cases "map_of (cpending c) i")
        case None
        have l: "line c = line (c\<lparr>cqueue := q\<rparr>)" using Cons Pending None by (simp add: line_def)
        have "drain_loop cb now s (c\<lparr>cqueue := q\<rparr>) out = (s', c', out')"
          using 1(5) Cons Pending None by (simp add: drain_loop.simps [of cb now s c])
        from 1(2) [OF Cons Pending None inv_pop_gone [OF 1(4)] this] Cons Pending None
        show ?thesis unfolding l by auto
      next
        case (Some en)
        let ?c = "c\<lparr>cqueue := q, cpending := AList.delete i (cpending c), cexited := cexited c @ [i]\<rparr>"
        have "i \<notin> set (ids_of q)" using 1(4) Cons Pending by (auto simp: completion_inv_def)
        then have l: "line c = Hold i en # line ?c"
          using Cons Pending Some by (simp add: line_def line_of_delete_head)
        show ?thesis
        proof (cases "blocked now en")
          case True
          have "s' = s" "c' = c" "out' = out"
            using 1(5) Cons Pending Some True by (simp_all add: drain_loop.simps [of cb now s c])
          then show ?thesis using 1(4) Cons True by (simp add: l)
        next
          case False
          obtain s1 es where lv: "leave cb s en = (s1, es)" by fastforce
          have "drain_loop cb now s1 ?c (out @ es) = (s', c', out')"
            using 1(5) Cons Pending Some False lv by (simp add: drain_loop.simps [of cb now s c])
          from 1(3) [OF Cons Pending Some False lv [symmetric] inv_pop_pending [OF 1(4)] this] Cons Pending
          show ?thesis unfolding l using False lv by auto
        qed
      qed
    qed
  qed
qed

lemma flush_loop_effect:
  assumes "completion_inv c" "flush_loop cb s c out = (s', c', out')"
  shows "completion_inv c' \<and> cqueue c' = [] \<and> ccap c' = ccap c \<and>
    cexited c' = cexited c @ held_ids (line c) \<and> (\<exists>es. out' = out @ es \<and> leave_all cb s (line c) = (s', es))"
  using assms
proof (induction cb s c out arbitrary: s' c' out' rule: flush_loop.induct)
  case (1 cb s c out)
  show ?case
  proof (cases "cqueue c")
    case Nil
    then show ?thesis using 1(4,5) by (auto simp: flush_loop.simps line_def)
  next
    case (Cons sl q)
    show ?thesis
    proof (cases sl)
      case (Ready e)
      have l: "line c = Go e # line (c\<lparr>cqueue := q\<rparr>)" using Cons Ready by (simp add: line_def)
      have "flush_loop cb s (c\<lparr>cqueue := q\<rparr>) (out @ [e]) = (s', c', out')"
        using 1(5) Cons Ready by (simp add: flush_loop.simps [of cb s c])
      from 1(1) [OF Cons Ready inv_pop [OF 1(4)] this] Cons Ready
      show ?thesis unfolding l by auto
    next
      case (Pending i)
      show ?thesis
      proof (cases "map_of (cpending c) i")
        case None
        have l: "line c = line (c\<lparr>cqueue := q\<rparr>)" using Cons Pending None by (simp add: line_def)
        have "flush_loop cb s (c\<lparr>cqueue := q\<rparr>) out = (s', c', out')"
          using 1(5) Cons Pending None by (simp add: flush_loop.simps [of cb s c])
        from 1(2) [OF Cons Pending None inv_pop_gone [OF 1(4)] this] Cons Pending None
        show ?thesis unfolding l by auto
      next
        case (Some en)
        let ?c = "c\<lparr>cqueue := q, cpending := AList.delete i (cpending c), cexited := cexited c @ [i]\<rparr>"
        have "i \<notin> set (ids_of q)" using 1(4) Cons Pending by (auto simp: completion_inv_def)
        then have l: "line c = Hold i en # line ?c"
          using Cons Pending Some by (simp add: line_def line_of_delete_head)
        obtain s1 es where lv: "leave cb s en = (s1, es)" by fastforce
        have "flush_loop cb s1 ?c (out @ es) = (s', c', out')"
          using 1(5) Cons Pending Some lv by (simp add: flush_loop.simps [of cb s c])
        from 1(3) [OF Cons Pending Some lv [symmetric] inv_pop_pending [OF 1(4)] this] Cons Pending
        show ?thesis unfolding l using lv by auto
      qed
    qed
  qed
qed

text \<open>Forgetting the order of ids that have left changes nothing the invariant needs.\<close>

lemma inv_order_trim:
  assumes "completion_inv c"
  shows "completion_inv (c\<lparr>corder := dropWhile (\<lambda>p. map_of (cpending c) p = None) (corder c)\<rparr>)"
proof -
  let ?P = "\<lambda>p. map_of (cpending c) p = None" and ?os = "corder c"
  have split: "?os = takeWhile ?P ?os @ dropWhile ?P ?os" by simp
  have "i \<in> set ?os \<longleftrightarrow> i \<in> set (dropWhile ?P ?os)" if "(i, en) \<in> set (cpending c)" for i en
  proof -
    have "i \<in> fst ` set (cpending c)" using that by force
    then have "map_of (cpending c) i \<noteq> None" by (simp add: map_of_eq_None_iff)
    then have "i \<notin> set (takeWhile ?P ?os)" by (auto dest: set_takeWhileD)
    then show ?thesis by (metis Un_iff set_append split)
  qed
  moreover have "sorted_wrt (<) (dropWhile ?P ?os)"
    using assms by (metis completion_inv_def pending_inv_def sorted_wrt_append split)
  ultimately have "pending_inv (cpending c) (dropWhile ?P ?os)"
    using assms by (simp add: completion_inv_def pending_inv_def) blast
  moreover have "\<forall>i \<in> set (ids_of (cqueue c)) \<union> set (dropWhile ?P ?os). i \<le> cnext c"
    using assms by (auto simp: completion_inv_def dest: set_dropWhileD)
  ultimately show ?thesis using assms by (simp add: completion_inv_def)
qed

lemma drain_effect:
  assumes inv: "completion_inv c" and d: "drain cb now s c = (s', c', es)"
  shows "completion_inv c' \<and> ccap c' = ccap c \<and> line c' = dropWhile (\<lambda>x. \<not> item_blocked now x) (line c) \<and>
    (completion_is_empty c' \<longleftrightarrow> line c' = []) \<and>
    cexited c' = cexited c @ held_ids (takeWhile (\<lambda>x. \<not> item_blocked now x) (line c)) \<and>
    leave_all cb s (takeWhile (\<lambda>x. \<not> item_blocked now x) (line c)) = (s', es)"
proof -
  obtain c1 where l: "drain_loop cb now s c [] = (s', c1, es)"
    and c': "c' = c1\<lparr>corder := dropWhile (\<lambda>p. map_of (cpending c1) p = None) (corder c1)\<rparr>"
    using d by (auto simp: drain_def split: prod.splits)
  note e = drain_loop_effect [OF inv l]
  have "completion_inv c'" unfolding c' by (rule inv_order_trim) (use e in blast)
  moreover have "line c' = line c1" "cqueue c' = cqueue c1" "cexited c' = cexited c1" "ccap c' = ccap c1" by (simp_all add: c' line_def)
  ultimately show ?thesis using e by (simp add: completion_is_empty_def)
qed

lemma completion_flush_effect:
  assumes inv: "completion_inv c" and d: "completion_flush cb s c = (s', c', es)"
  shows "completion_inv c' \<and> ccap c' = ccap c \<and> line c' = [] \<and> completion_is_empty c' \<and> pending_len c' = 0 \<and>
    cexited c' = cexited c @ held_ids (line c) \<and> leave_all cb s (line c) = (s', es)"
proof -
  obtain c1 where l: "flush_loop cb s c [] = (s', c1, es)" and c': "c' = c1\<lparr>corder := []\<rparr>"
    using d by (auto simp: completion_flush_def split: prod.splits)
  note e = flush_loop_effect [OF inv l]
  then have p: "cpending c1 = []" by (auto simp: completion_inv_def)
  then have "completion_inv c'" using e by (simp add: c' completion_inv_def pending_inv_def)
  then show ?thesis using e p by (simp add: c' line_def completion_is_empty_def pending_len_def)
qed

section \<open>Runs\<close>

datatype 'e cop = Push_op 'e | Push_pending_op 'e "wait list" | Update_op pending_id "'e \<Rightarrow> 'e"
  | Add_wait_op pending_id wait | Resolve_op pending_id reason | Cancel_op pending_id | Take_exited_op
  | Drain_op int | Flush_op

fun cstep :: "('s, 'e) callback \<Rightarrow> 's \<times> 'e completion \<times> 'e list \<Rightarrow> 'e cop \<Rightarrow> 's \<times> 'e completion \<times> 'e list" where
  "cstep cb (s, c, out) (Push_op e) = (s, push e c, out)"
| "cstep cb (s, c, out) (Push_pending_op e ws) = (s, snd (push_pending e ws c), out)"
| "cstep cb (s, c, out) (Update_op i f) = (s, snd (update i f c), out)"
| "cstep cb (s, c, out) (Add_wait_op i w) = (s, snd (add_wait i w c), out)"
| "cstep cb (s, c, out) (Resolve_op i r) = (s, resolve i r c, out)"
| "cstep cb (s, c, out) (Cancel_op i) = (s, snd (cancel i c), out)"
| "cstep cb (s, c, out) Take_exited_op = (s, snd (take_exited c), out)"
| "cstep cb (s, c, out) (Drain_op now) = (case drain cb now s c of (s, c, es) \<Rightarrow> (s, c, out @ es))"
| "cstep cb (s, c, out) Flush_op = (case completion_flush cb s c of (s, c, es) \<Rightarrow> (s, c, out @ es))"

definition crun :: "('s, 'e) callback \<Rightarrow> 's \<Rightarrow> nat \<Rightarrow> 'e cop list \<Rightarrow> 's \<times> 'e completion \<times> 'e list" where
  "crun cb s cap ops = foldl (cstep cb) (s, completion_new cap, []) ops"

fun pushed_by :: "'e cop \<Rightarrow> 'e list" where
  "pushed_by (Push_op e) = [e]"
| "pushed_by (Push_pending_op e ws) = [e]"
| "pushed_by _ = []"

fun keeps_key :: "('e \<Rightarrow> 'k) \<Rightarrow> 'e cop \<Rightarrow> bool" where
  "keeps_key key (Update_op i f) = (\<forall>e. key (f e) = key e)"
| "keeps_key key _ = True"

text \<open>Operations after which nothing may be lost: no cancel, no reason that drops.\<close>

fun lossless :: "'e cop \<Rightarrow> bool" where
  "lossless (Push_pending_op e ws) = (\<forall>w \<in> set ws. \<not> wdrop_at_deadline w)"
| "lossless (Add_wait_op i w) = (\<not> wdrop_at_deadline w)"
| "lossless (Cancel_op i) = False"
| "lossless _ = True"

fun item_event :: "'e item \<Rightarrow> 'e" where
  "item_event (Go e) = e"
| "item_event (Hold i en) = eevent en"

fun item_lossless :: "'e item \<Rightarrow> bool" where
  "item_lossless (Go e) = True"
| "item_lossless (Hold i en) = (\<forall>(w, d) \<in> set (ewaits en). \<not> wdrop_at_deadline w)"

lemma force_first_events [simp]: "map (\<lambda>x. key (item_event x)) (force_first l) = map (\<lambda>x. key (item_event x)) l"
  by (induction l rule: force_first.induct) auto

lemma force_first_lossless [simp]: "list_all item_lossless (force_first l) = list_all item_lossless l"
  by (induction l rule: force_first.induct) auto

lemma on_hold_events:
  assumes "\<And>en. key (eevent (f en)) = key (eevent en)"
  shows "map (\<lambda>x. key (item_event x)) (map (on_hold i f) l) = map (\<lambda>x. key (item_event x)) l"
proof (induction l)
  case (Cons x l)
  then show ?case by (cases x) (auto simp: assms)
qed simp

lemma on_hold_lossless:
  assumes "\<And>en. \<forall>(w, d) \<in> set (ewaits en). \<not> wdrop_at_deadline w \<Longrightarrow> \<forall>(w, d) \<in> set (ewaits (f en)). \<not> wdrop_at_deadline w"
    and "list_all item_lossless l"
  shows "list_all item_lossless (map (on_hold i f) l)"
  using assms(2)
proof (induction l)
  case (Cons x l)
  then show ?case by (cases x) (auto dest: assms(1))
qed simp

lemma leave_keys:
  assumes "\<And>s e xs. key (snd (cb s e xs)) = key e" "leave cb s en = (s', es)"
  shows "subseq (map key es) [key (eevent en)] \<and>
    ((\<forall>(w, d) \<in> set (ewaits en). \<not> wdrop_at_deadline w) \<longrightarrow> map key es = [key (eevent en)])"
proof -
  have "\<exists>x \<in> set (expired_of en). xdropped x" if "es = []"
    using assms(2) that by (auto simp: leave_def Let_def split: prod.splits if_splits)
  moreover have "es = [] \<or> map key es = [key (eevent en)]"
    using assms(2) assms(1) [of s "eevent en" "expired_of en"]
    by (auto simp: leave_def Let_def split: prod.splits if_splits)
  moreover have "\<not> (\<exists>x \<in> set (expired_of en). xdropped x)" if "\<forall>(w, d) \<in> set (ewaits en). \<not> wdrop_at_deadline w"
    using that by (auto simp: expired_of_def open_waits_def)
  ultimately show ?thesis by auto
qed

lemma leave_all_keys:
  assumes cb: "\<And>s e xs. key (snd (cb s e xs)) = key e" and "leave_all cb s l = (s', es)"
  shows "subseq (map key es) (map (\<lambda>x. key (item_event x)) l) \<and>
    (list_all item_lossless l \<longrightarrow> map key es = map (\<lambda>x. key (item_event x)) l)"
  using assms(2)
proof (induction l arbitrary: s es)
  case Nil
  then show ?case by simp
next
  case (Cons x l)
  show ?case
  proof (cases x)
    case (Go e)
    then show ?thesis using Cons by (auto split: prod.splits)
  next
    case (Hold i en)
    obtain s1 es1 es2 where lv: "leave cb s en = (s1, es1)" "leave_all cb s1 l = (s', es2)" "es = es1 @ es2"
      using Cons.prems Hold by (auto split: prod.splits)
    from leave_keys [where key = key, OF cb lv(1)] Cons.IH [OF lv(2)] show ?thesis
      using list_emb_append_mono [of "(=)" "map key es1" "[key (eevent en)]" "map key es2"] Hold lv(3) by auto
  qed
qed

text \<open>The invariant of a run: what came out and what is still in line is what was pushed.\<close>

definition accounted :: "('e \<Rightarrow> 'k) \<Rightarrow> bool \<Rightarrow> 'e list \<Rightarrow> 'e completion \<Rightarrow> 'e list \<Rightarrow> bool" where
  "accounted key whole out c pushed \<longleftrightarrow> completion_inv c \<and>
     subseq (map key out @ map (\<lambda>x. key (item_event x)) (line c)) (map key pushed) \<and>
     (whole \<longrightarrow> list_all item_lossless (line c) \<and>
        map key out @ map (\<lambda>x. key (item_event x)) (line c) = map key pushed)"

lemma accounted_leave:
  assumes acc: "accounted key whole out c pushed" and cb: "\<And>s e xs. key (snd (cb s e xs)) = key e"
    and l: "line c = l1 @ line c'" "leave_all cb s l1 = (s', es)" and inv: "completion_inv c'"
  shows "accounted key whole (out @ es) c' pushed"
proof -
  note k = leave_all_keys [where key = key, OF cb l(2)]
  have "subseq (map key (out @ es) @ map (\<lambda>x. key (item_event x)) (line c'))
      (map key out @ map (\<lambda>x. key (item_event x)) (line c))"
    using k by (simp add: l(1) list_emb_append_mono)
  then show ?thesis using acc inv k l(1) unfolding accounted_def by (auto intro: subseq_order.trans)
qed

lemma accounted_hold:
  assumes acc: "accounted key whole out c pushed" and inv: "completion_inv c'"
    and l: "line c' = map (on_hold i f) (line c)" and key: "\<And>en. key (eevent (f en)) = key (eevent en)"
    and ll: "whole \<Longrightarrow> list_all item_lossless (line c')"
  shows "accounted key whole out c' pushed"
proof -
  have "map (\<lambda>x. key (item_event x)) (line c') = map (\<lambda>x. key (item_event x)) (line c)"
    unfolding l by (rule on_hold_events) (rule key)
  then show ?thesis using acc inv ll by (simp add: accounted_def del: map_eq_conv)
qed

lemma cancel_effect:
  assumes "completion_inv c"
  shows "completion_inv (snd (cancel i c)) \<and> line (snd (cancel i c)) = filter (\<lambda>x. \<not> is_hold i x) (line c)"
proof -
  have "fst ` set (AList.delete i (cpending c)) \<subseteq> fst ` set (cpending c)" by (rule dom_delete_subset)
  then have "completion_inv (c\<lparr>cpending := AList.delete i (cpending c)\<rparr>)"
    using assms unforced_delete [of i "cpending c"] pending_inv_delete [of "cpending c" "corder c" i]
    by (auto simp: completion_inv_def)
  then show ?thesis
    by (simp add: cancel_def Let_def line_def line_of_delete completion_inv_def)
qed

lemma hold_step:
  assumes acc: "accounted key whole out c pushed"
    and c': "c' = (case map_of (cpending c) i of Some _ \<Rightarrow> c\<lparr>cpending := alter i f (cpending c)\<rparr> | None \<Rightarrow> c)"
    and f: "\<And>en. eforced (f en) = eforced en" "\<And>en. key (eevent (f en)) = key (eevent en)"
    and ll: "\<And>en. whole \<Longrightarrow> \<forall>(w, d) \<in> set (ewaits en). \<not> wdrop_at_deadline w \<Longrightarrow>
      \<forall>(w, d) \<in> set (ewaits (f en)). \<not> wdrop_at_deadline w"
  shows "accounted key whole out c' pushed"
proof (cases "map_of (cpending c) i")
  case None
  then show ?thesis using acc c' by simp
next
  case (Some en)
  then have c'': "c' = c\<lparr>cpending := alter i f (cpending c)\<rparr>" using c' by simp
  have inv: "completion_inv c" using acc by (simp add: accounted_def)
  note e = altered_effect [where f = f, OF inv f(1), of i]
  have "list_all item_lossless (line c')" if whole
    using acc that on_hold_lossless [of f "line c" i] ll [OF that] e unfolding accounted_def c'' by metis
  then show ?thesis using accounted_hold [OF acc _ _ f(2)] e unfolding c'' by blast
qed

lemma subseq_snoc: "subseq (xs @ ys) zs \<Longrightarrow> subseq (xs @ ys @ [z]) (zs @ [z])"
  using list_emb_append_mono [of "(=)" "xs @ ys" zs "[z]" "[z]"] by simp

lemma cstep_accounted:
  assumes acc: "accounted key whole out c pushed" and cb: "\<And>s e xs. key (snd (cb s e xs)) = key e"
    and op: "keeps_key key op" "whole \<longrightarrow> lossless op"
    and st: "cstep cb (s, c, out) op = (s', c', out')"
  shows "accounted key whole out' c' (pushed @ pushed_by op)"
proof (cases op)
  case (Push_op e)
  then show ?thesis using acc st push_effect [of c e]
    by (auto simp: accounted_def subseq_snoc)
next
  case (Push_pending_op e ws)
  obtain i c1 where p: "push_pending e ws c = (i, c1)" by fastforce
  have c': "c' = c1" "out' = out" using st Push_pending_op p by auto
  have inv: "completion_inv c" using acc by (simp add: accounted_def)
  let ?l = "line c @ [Hold i \<lparr>eevent = e, ewaits = map (\<lambda>w. (w, False)) ws, eforced = False\<rparr>]"
  have "line c1 = ?l \<or> line c1 = force_first ?l" "completion_inv c1"
    using push_pending_effect [OF inv p] by (auto simp: Let_def)
  moreover have "map (\<lambda>x. key (item_event x)) (line c1) = map (\<lambda>x. key (item_event x)) ?l"
    "list_all item_lossless (line c1) = list_all item_lossless ?l"
    using calculation(1) force_first_events [of key ?l] force_first_lossless [of ?l] by auto
  ultimately show ?thesis
    using acc op Push_pending_op by (auto simp: accounted_def c' list_all_iff subseq_snoc simp del: map_eq_conv)
next
  case (Update_op i f)
  have "accounted key whole out c' pushed"
    by (rule hold_step [OF acc, of c' i "\<lambda>en. en\<lparr>eevent := f (eevent en)\<rparr>"])
      (use op st Update_op in \<open>auto simp: update_def split: option.splits\<close>)
  then show ?thesis using Update_op st by simp
next
  case (Add_wait_op i w)
  have "accounted key whole out c' pushed"
    by (rule hold_step [OF acc, of c' i "\<lambda>en. en\<lparr>ewaits := ewaits en @ [(w, False)]\<rparr>"])
      (use op st Add_wait_op in \<open>auto simp: add_wait_def split: option.splits\<close>)
  then show ?thesis using Add_wait_op st by simp
next
  case (Resolve_op i r)
  have "accounted key whole out c' pushed"
    by (rule hold_step [OF acc, of c' i "\<lambda>en. en\<lparr>ewaits := map (\<lambda>(w, d). (w, wreason w = r \<or> d)) (ewaits en)\<rparr>"])
      (use op st Resolve_op in \<open>auto simp: resolve_def split: option.splits\<close>)
  then show ?thesis using Resolve_op st by simp
next
  case (Cancel_op i)
  have e: "completion_inv c'" "line c' = filter (\<lambda>x. \<not> is_hold i x) (line c)" "out' = out"
    using acc st Cancel_op cancel_effect [of c i] by (auto simp: accounted_def)
  have "subseq (map key out @ map (\<lambda>x. key (item_event x)) (line c')) (map key out @ map (\<lambda>x. key (item_event x)) (line c))"
    unfolding e by (intro list_emb_append_mono subseq_map) auto
  then show ?thesis using acc e op Cancel_op by (auto simp: accounted_def intro: subseq_order.trans)
next
  case Take_exited_op
  have "completion_inv (c\<lparr>cexited := []\<rparr>) = completion_inv c" "line (c\<lparr>cexited := []\<rparr>) = line c"
    by (simp_all add: completion_inv_def line_def)
  then show ?thesis using acc st Take_exited_op
    by (auto simp: take_exited_def accounted_def)
next
  case (Drain_op now)
  obtain es where d: "drain cb now s c = (s', c', es)" and out': "out' = out @ es"
    using st Drain_op by (auto split: prod.splits)
  have "completion_inv c" using acc by (simp add: accounted_def)
  from drain_effect [OF this d]
  have "line c = takeWhile (\<lambda>x. \<not> item_blocked now x) (line c) @ line c'" "completion_inv c'"
    "leave_all cb s (takeWhile (\<lambda>x. \<not> item_blocked now x) (line c)) = (s', es)" by simp_all
  from accounted_leave [OF acc cb this(1,3,2)] show ?thesis using Drain_op out' by simp
next
  case Flush_op
  obtain es where d: "completion_flush cb s c = (s', c', es)" and out': "out' = out @ es"
    using st Flush_op by (auto split: prod.splits)
  have "completion_inv c" using acc by (simp add: accounted_def)
  from completion_flush_effect [OF this d]
  have "line c = line c @ line c'" "completion_inv c'" "leave_all cb s (line c) = (s', es)" by simp_all
  from accounted_leave [OF acc cb this(1,3,2)] show ?thesis using Flush_op out' by simp
qed

lemma ccap_cstep:
  assumes inv: "completion_inv c" and st: "cstep cb (s, c, out) op = (s', c', out')"
  shows "ccap c' = ccap c"
proof (cases op)
  case (Push_pending_op e ws)
  then show ?thesis using st by (auto simp: push_pending_def Let_def split: prod.splits)
next
  case (Drain_op now)
  then show ?thesis using st drain_effect [OF inv, of cb now s] by (auto split: prod.splits)
next
  case Flush_op
  then show ?thesis using st completion_flush_effect [OF inv, of cb s] by (auto split: prod.splits)
qed (use st in \<open>auto simp: push_def update_def add_wait_def resolve_def cancel_def take_exited_def Let_def
      split: option.splits\<close>)

lemma crun_accounted:
  assumes cb: "\<And>s e xs. key (snd (cb s e xs)) = key e"
    and "\<forall>op \<in> set ops. keeps_key key op" "whole \<longrightarrow> list_all lossless ops"
    and "crun cb s cap ops = (s', c, out)"
  shows "accounted key whole out c (concat (map pushed_by ops)) \<and> ccap c = cap"
  using assms(2-4)
proof (induction ops arbitrary: s' c out rule: rev_induct)
  case Nil
  then have "c = completion_new cap" "out = []" by (simp_all add: crun_def)
  moreover have "ccap (completion_new cap) = cap" by (simp add: completion_new_def)
  ultimately show ?case by (simp add: accounted_def completion_inv_new line_new)
next
  case (snoc op ops)
  obtain s1 c1 out1 where r: "crun cb s cap ops = (s1, c1, out1)" by (metis prod.exhaust)
  then have st: "cstep cb (s1, c1, out1) op = (s', c, out)" using snoc.prems(3) by (simp add: crun_def)
  have IH: "accounted key whole out1 c1 (concat (map pushed_by ops)) \<and> ccap c1 = cap"
    by (rule snoc.IH [OF _ _ r]) (use snoc.prems in auto)
  then have "ccap c = cap" using ccap_cstep [OF _ st] by (auto simp: accounted_def)
  then show ?case using cstep_accounted [OF conjunct1 [OF IH] cb _ _ st] snoc.prems by auto
qed

section \<open>Properties\<close>

text \<open>When an item may go and what goes, said from the entry's waits alone: an entry goes once it is
  forced or each of its reasons is done or past its deadline; its open reasons are told to the
  callback, each with whether it drops the event, which no reason of a forced entry does; and the
  event, as the callback leaves it, is emitted unless one of them drops it.\<close>

fun may_go :: "int \<Rightarrow> 'e item \<Rightarrow> bool" where
  "may_go now (Go e) = True"
| "may_go now (Hold i en) =
     (eforced en \<or> (\<forall>(w, resolved) \<in> set (ewaits en). resolved \<or> (\<exists>d. wdeadline w = Some d \<and> d \<le> now)))"

fun goes_out :: "('s, 'e) callback \<Rightarrow> 's \<Rightarrow> 'e item list \<Rightarrow> 's \<times> 'e list" where
  "goes_out cb s [] = (s, [])"
| "goes_out cb s (Go e # l) = (let (s, es) = goes_out cb s l in (s, e # es))"
| "goes_out cb s (Hold i en # l) =
     (let told = [\<lparr>xreason = wreason w, xdropped = (wdrop_at_deadline w \<and> \<not> eforced en)\<rparr>. (w, resolved) \<leftarrow> ewaits en, \<not> resolved];
          (s, e) = (if told = [] then (s, eevent en) else cb s (eevent en) told);
          (s, es) = goes_out cb s l
      in (s, if \<not> eforced en \<and> (\<exists>w. (w, False) \<in> set (ewaits en) \<and> wdrop_at_deadline w) then es else e # es))"

lemma may_go_iff: "may_go now x \<longleftrightarrow> \<not> item_blocked now x"
  by (cases x) (force simp: blocked_def open_waits_def is_none_or_def not_less split: option.splits)+

lemma expired_of_told:
  "expired_of en = [\<lparr>xreason = wreason w, xdropped = (wdrop_at_deadline w \<and> \<not> eforced en)\<rparr>. (w, resolved) \<leftarrow> ewaits en, \<not> resolved]"
proof -
  have "map (\<lambda>w. \<lparr>xreason = wreason w, xdropped = (wdrop_at_deadline w \<and> f)\<rparr>) (map fst (filter (\<lambda>(w, d). \<not> d) ws)) =
    [\<lparr>xreason = wreason w, xdropped = (wdrop_at_deadline w \<and> f)\<rparr>. (w, resolved) \<leftarrow> ws, \<not> resolved]" for ws f
    by (induction ws) auto
  then show ?thesis by (simp add: expired_of_def open_waits_def)
qed

lemma drops_iff:
  "(\<exists>x \<in> set (expired_of en). xdropped x) \<longleftrightarrow> \<not> eforced en \<and> (\<exists>w. (w, False) \<in> set (ewaits en) \<and> wdrop_at_deadline w)"
  by (force simp: expired_of_def open_waits_def)

lemma leave_all_goes_out: "leave_all cb s l = goes_out cb s l"
proof (induction l arbitrary: s)
  case (Cons x l)
  show ?case
  proof (cases x)
    case (Hold i en)
    then show ?thesis using Cons.IH
      by (simp add: leave_def drops_iff Let_def split_beta flip: expired_of_told)
  qed (use Cons.IH in \<open>simp add: Let_def split_beta\<close>)
qed simp

text \<open>C12: the completion stage is its line. A push appends; a pending push appends an entry and,
  past the cap, forces the first entry of the line that is not forced yet; the entries not forced
  are never more than the cap. A drain emits, in order, the longest prefix of the line whose items
  may go (each entry forced, or with every reason done or past its deadline), reports each entry's
  open reasons to the callback, drops an entry only for an open reason that drops and only if it was
  not forced, and leaves the rest of the line as it was; a flush does the same for the whole line,
  whatever the deadlines.\<close>

theorem completion_outcome:
  assumes "completion_inv c"
  shows "(completion_inv (push e c) \<and> line (push e c) = line c @ [Go e]) \<and>
    (case push_pending e ws c of (i, c') \<Rightarrow> completion_inv c' \<and> length (unforced (cpending c')) \<le> ccap c' \<and>
       (let l = line c @ [Hold i \<lparr>eevent = e, ewaits = map (\<lambda>w. (w, False)) ws, eforced = False\<rparr>]
        in line c' = (if pending_len c + 1 > ccap c then force_first l else l))) \<and>
    (case drain cb now s c of (s', c', es) \<Rightarrow> completion_inv c' \<and>
       goes_out cb s (takeWhile (may_go now) (line c)) = (s', es) \<and> line c' = dropWhile (may_go now) (line c)) \<and>
    (case completion_flush cb s c of (s', c', es) \<Rightarrow>
       completion_is_empty c' \<and> pending_len c' = 0 \<and> goes_out cb s (line c) = (s', es))"
proof -
  obtain i c1 where p: "push_pending e ws c = (i, c1)" by fastforce
  obtain s2 c2 es2 where d: "drain cb now s c = (s2, c2, es2)" by (metis prod.exhaust)
  obtain s3 c3 es3 where f: "completion_flush cb s c = (s3, c3, es3)" by (metis prod.exhaust)
  have "length (unforced (cpending c1)) \<le> ccap c1"
    using push_pending_effect [OF assms p] by (simp add: completion_inv_def)
  moreover have m: "may_go now = (\<lambda>x. \<not> item_blocked now x)" by (simp add: fun_eq_iff may_go_iff)
  ultimately show ?thesis
    unfolding m
    using push_effect [OF assms] push_pending_effect [OF assms p] drain_effect [OF assms d]
      completion_flush_effect [OF assms f] by (simp add: p d f leave_all_goes_out Let_def)
qed

definition demo_wait :: "reason \<Rightarrow> int \<Rightarrow> bool \<Rightarrow> wait" where
  "demo_wait r d dropping = \<lparr>wreason = r, wdeadline = Some d, wdrop_at_deadline = dropping\<rparr>"

definition demo_cb :: "(nat, nat) callback" where
  "demo_cb s e xs = (s + length xs, e)"

definition demo_ops :: "nat cop list" where
  "demo_ops = [Push_op 1, Push_pending_op 2 [demo_wait Seeder 100 True], Push_op 3,
     Push_pending_op 4 [demo_wait Seeder 10 True], Drain_op 5, Push_pending_op 5 [demo_wait Join 50 False]]"

definition demo_stage :: "nat completion" where
  "demo_stage = fst (snd (crun demo_cb 0 2 demo_ops))"

text \<open>The first entry would drop its event but is forced out by the cap; the second drops.\<close>

theorem completion_outcome_witness:
  "snd (snd (drain demo_cb 20 0 demo_stage)) = [2, 3] \<and>
   snd (snd (completion_flush demo_cb 0 demo_stage)) = [2, 3, 5]"
proof -
  have "completion_inv demo_stage" by code_simp
  from completion_outcome [OF this, where cb = demo_cb and now = 20 and s = 0 and e = 0 and ws = "[]"]
  have "goes_out demo_cb 0 (takeWhile (may_go 20) (line demo_stage)) =
      (fst (drain demo_cb 20 0 demo_stage), snd (snd (drain demo_cb 20 0 demo_stage)))"
    "goes_out demo_cb 0 (line demo_stage) =
      (fst (completion_flush demo_cb 0 demo_stage), snd (snd (completion_flush demo_cb 0 demo_stage)))"
    by (auto split: prod.splits)
  moreover have "line demo_stage = [Hold 1 \<lparr>eevent = 2, ewaits = [(demo_wait Seeder 100 True, False)], eforced = True\<rparr>, Go 3,
      Hold 2 \<lparr>eevent = 4, ewaits = [(demo_wait Seeder 10 True, False)], eforced = False\<rparr>,
      Hold 3 \<lparr>eevent = 5, ewaits = [(demo_wait Join 50 False, False)], eforced = False\<rparr>]" by code_simp
  ultimately show ?thesis by (simp add: demo_wait_def demo_cb_def)
qed

text \<open>C13: order and conservation over any sequence of operations. Read by a key that updates and
  the callback leave alone, what came out followed by what is still in line is a subsequence of what
  was pushed, in push order; it is all of it when nothing was cancelled and no reason drops, however
  resolutions, deadlines and the overflow rule interleave.\<close>

theorem completion_run_outcome:
  assumes "\<And>s e xs. key (snd (cb s e xs)) = key e" and "\<forall>op \<in> set ops. keeps_key key op"
    and "crun cb s cap ops = (s', c, out)"
  shows "subseq (map key out @ map (\<lambda>x. key (item_event x)) (line c)) (map key (concat (map pushed_by ops))) \<and>
    (list_all lossless ops \<longrightarrow>
       map key out @ map (\<lambda>x. key (item_event x)) (line c) = map key (concat (map pushed_by ops))) \<and>
    length (unforced (cpending c)) \<le> cap"
proof -
  have "accounted key (list_all lossless ops) out c (concat (map pushed_by ops)) \<and> ccap c = cap"
    by (rule crun_accounted [OF assms(1,2) _ assms(3)]) simp
  then show ?thesis by (simp add: accounted_def completion_inv_def)
qed

theorem completion_run_outcome_witness:
  "subseq [1, 2, 3, 5 :: nat] [1, 2, 3, 4, 5] \<and>
   map item_event (line (fst (snd (crun demo_cb 0 2 (demo_ops @ [Drain_op 20]))))) = [5] \<and>
   snd (snd (crun demo_cb 0 2 (demo_ops @ [Drain_op 20]))) = [1, 2, 3]"
proof -
  let ?ops = "demo_ops @ [Drain_op 20]"
  obtain s c out where r: "crun demo_cb 0 2 ?ops = (s, c, out)" by (metis prod.exhaust)
  have k: "\<forall>op \<in> set ?ops. keeps_key (\<lambda>e. e) op" by (simp add: demo_ops_def)
  have "map item_event (line (fst (snd (crun demo_cb 0 2 ?ops)))) = [5]"
    "snd (snd (crun demo_cb 0 2 ?ops)) = [1, 2, 3]" "concat (map pushed_by ?ops) = [1, 2, 3, 4, 5]"
    by code_simp+
  then show ?thesis
    using completion_run_outcome [where key = "\<lambda>e. e", OF _ k r] by (simp add: r demo_cb_def)
qed

end
