(* ===== verification/Ag_Queue.thy ===== *)
theory Ag_Queue
  imports Sources "HOL-Library.Sublist"
begin

text \<open>
  The bounded queues (\<open>crates/atlas-agent/src/queue.rs\<close>): an unbounded channel with a counter that
  any number of sender threads and one receiver change. Every atomic access is a step of its own,
  so the steps of different threads interleave freely; a label names the thread, the access and its
  message. Senders are numbered; each has the place its call has reached. Facts: what the counter
  counts under every interleaving, the bound, FIFO, and what a call that nothing interrupts does.
\<close>

section \<open>The queue and its steps\<close>

text \<open>Where a sender is: between calls, refused and about to give its count back, counted and about
  to send, or sent in vain and about to give its count back.\<close>

datatype 'm sending = At_rest | Refusing 'm | Passing 'm | Failing 'm

record 'm msg_queue =
  qchan :: "'m list"
  qlen :: nat
  qcap :: nat
  qopen :: bool
  qsenders :: "'m sending list"
  qtaking :: bool

definition bounded :: "nat \<Rightarrow> nat \<Rightarrow> 'm msg_queue" where
  "bounded cap n = \<lparr>qchan = [], qlen = 0, qcap = max cap 1, qopen = True,
     qsenders = replicate n At_rest, qtaking = False\<rparr>"

datatype 'm qlabel = Try_add nat 'm | Send_add nat 'm | Full_sub nat 'm | Channel_send nat 'm
  | Channel_closed nat 'm | Closed_sub nat 'm | Channel_recv 'm | Taken_sub | Drop_receiver

definition set_sender :: "nat \<Rightarrow> 'm sending \<Rightarrow> 'm msg_queue \<Rightarrow> 'm msg_queue" where
  "set_sender i x q = q\<lparr>qsenders := (qsenders q)[i := x]\<rparr>"

definition sender_is :: "'m msg_queue \<Rightarrow> nat \<Rightarrow> 'm sending \<Rightarrow> bool" where
  "sender_is q i x \<longleftrightarrow> i < length (qsenders q) \<and> qsenders q ! i = x"

text \<open>\<open>None\<close>: the thread is not there. A dropped receiver drops the channel's messages.\<close>

fun qstep :: "'m qlabel \<Rightarrow> 'm msg_queue \<Rightarrow> 'm msg_queue option" where
  "qstep (Try_add i m) q =
     (if sender_is q i At_rest
      then Some (set_sender i (if qlen q \<ge> qcap q then Refusing m else Passing m) (q\<lparr>qlen := qlen q + 1\<rparr>)) else None)"
| "qstep (Send_add i m) q =
     (if sender_is q i At_rest then Some (set_sender i (Passing m) (q\<lparr>qlen := qlen q + 1\<rparr>)) else None)"
| "qstep (Full_sub i m) q =
     (if sender_is q i (Refusing m) then Some (set_sender i At_rest (q\<lparr>qlen := qlen q - 1\<rparr>)) else None)"
| "qstep (Channel_send i m) q =
     (if sender_is q i (Passing m) \<and> qopen q
      then Some (set_sender i At_rest (q\<lparr>qchan := qchan q @ [m]\<rparr>)) else None)"
| "qstep (Channel_closed i m) q =
     (if sender_is q i (Passing m) \<and> \<not> qopen q then Some (set_sender i (Failing m) q) else None)"
| "qstep (Closed_sub i m) q =
     (if sender_is q i (Failing m) then Some (set_sender i At_rest (q\<lparr>qlen := qlen q - 1\<rparr>)) else None)"
| "qstep (Channel_recv m) q =
     (if qopen q \<and> \<not> qtaking q \<and> qchan q \<noteq> [] \<and> hd (qchan q) = m
      then Some (q\<lparr>qchan := tl (qchan q), qtaking := True\<rparr>) else None)"
| "qstep Taken_sub q = (if qtaking q then Some (q\<lparr>qlen := qlen q - 1, qtaking := False\<rparr>) else None)"
| "qstep Drop_receiver q =
     (if qopen q \<and> \<not> qtaking q then Some (q\<lparr>qopen := False, qchan := []\<rparr>) else None)"

fun qrun :: "'m qlabel list \<Rightarrow> 'm msg_queue \<Rightarrow> 'm msg_queue option" where
  "qrun [] q = Some q"
| "qrun (l # ls) q = (case qstep l q of None \<Rightarrow> None | Some q' \<Rightarrow> qrun ls q')"

section \<open>Calls that nothing interrupts\<close>

datatype 'm send_error = Full 'm | Disconnected 'm

definition try_send :: "'m \<Rightarrow> 'm msg_queue \<Rightarrow> ('m send_error + unit) \<times> 'm msg_queue" where
  "try_send m q =
     (let old = qlen q; q = q\<lparr>qlen := qlen q + 1\<rparr>
      in if old \<ge> qcap q then (Inl (Full m), q\<lparr>qlen := qlen q - 1\<rparr>)
         else if qopen q then (Inr (), q\<lparr>qchan := qchan q @ [m]\<rparr>)
         else (Inl (Disconnected m), q\<lparr>qlen := qlen q - 1\<rparr>))"

definition send :: "'m \<Rightarrow> 'm msg_queue \<Rightarrow> ('m send_error + unit) \<times> 'm msg_queue" where
  "send m q =
     (let q = q\<lparr>qlen := qlen q + 1\<rparr>
      in if qopen q then (Inr (), q\<lparr>qchan := qchan q @ [m]\<rparr>)
         else (Inl (Disconnected m), q\<lparr>qlen := qlen q - 1\<rparr>))"

text \<open>\<open>try_recv\<close>; that the channel has no sender left is \<open>None\<close> too.\<close>

definition try_recv :: "'m msg_queue \<Rightarrow> 'm option \<times> 'm msg_queue" where
  "try_recv q = (case qchan q of
     [] \<Rightarrow> (None, q)
   | m # rest \<Rightarrow> (Some m, q\<lparr>qchan := rest, qlen := qlen q - 1\<rparr>))"

definition gauge_read :: "'m msg_queue \<Rightarrow> nat \<times> nat" where
  "gauge_read q = (qlen q, qcap q)"

text \<open>\<open>try_iter\<close> is the generic consumer over \<open>try_recv\<close>.\<close>

interpretation received: source try_recv qchan "\<lambda>_. True"
  by unfold_locales (auto simp: try_recv_def split: list.splits)

section \<open>The invariant\<close>

definition busy :: "'m msg_queue \<Rightarrow> nat" where
  "busy q = length (filter (\<lambda>x. x \<noteq> At_rest) (qsenders q)) + of_bool (qtaking q)"

definition is_passing :: "'m sending \<Rightarrow> bool" where
  "is_passing x = (case x of Passing _ \<Rightarrow> True | _ \<Rightarrow> False)"

definition claimed :: "'m msg_queue \<Rightarrow> nat" where
  "claimed q = length (qchan q) + length (filter is_passing (qsenders q)) + of_bool (qtaking q)"

definition sent :: "'m qlabel list \<Rightarrow> 'm list" where
  "sent ls = concat (map (\<lambda>l. case l of Channel_send _ m \<Rightarrow> [m] | _ \<Rightarrow> []) ls)"

definition got :: "'m qlabel list \<Rightarrow> 'm list" where
  "got ls = concat (map (\<lambda>l. case l of Channel_recv m \<Rightarrow> [m] | _ \<Rightarrow> []) ls)"

definition past_cap :: "'m qlabel list \<Rightarrow> nat" where
  "past_cap ls = length (filter (\<lambda>l. case l of Send_add _ _ \<Rightarrow> True | _ \<Rightarrow> False) ls)"

definition queue_inv :: "'m msg_queue \<Rightarrow> 'm qlabel list \<Rightarrow> bool" where
  "queue_inv q ls \<longleftrightarrow>
     length (qchan q) + busy q \<le> qlen q \<and> (qopen q \<longrightarrow> qlen q = length (qchan q) + busy q) \<and>
     claimed q \<le> qcap q + past_cap ls \<and>
     prefix (got ls @ qchan q) (sent ls) \<and> (qopen q \<longrightarrow> got ls @ qchan q = sent ls)"

lemma count_update:
  assumes "i < length xs"
  shows "length (filter P (xs[i := x])) + of_bool (P (xs ! i)) = length (filter P xs) + of_bool (P x)"
  using assms
proof (induction xs arbitrary: i)
  case (Cons y xs)
  then show ?case by (cases i) auto
qed simp

lemma label_lists [simp]:
  "sent (ls @ [l]) = sent ls @ (case l of Channel_send _ m \<Rightarrow> [m] | _ \<Rightarrow> [])"
  "got (ls @ [l]) = got ls @ (case l of Channel_recv m \<Rightarrow> [m] | _ \<Rightarrow> [])"
  "past_cap (ls @ [l]) = past_cap ls + (case l of Send_add _ _ \<Rightarrow> 1 | _ \<Rightarrow> 0)"
  by (simp_all add: sent_def got_def past_cap_def split: qlabel.splits)

text \<open>How a sender's move changes the counts.\<close>

lemma sender_moves:
  assumes "sender_is q i x" "qsenders q' = (qsenders q)[i := y]" "qtaking q' = qtaking q"
  shows "busy q' + of_bool (x \<noteq> At_rest) = busy q + of_bool (y \<noteq> At_rest)"
    and "claimed q' + of_bool (is_passing x) + length (qchan q) =
      claimed q + of_bool (is_passing y) + length (qchan q')"
  using assms count_update [of i "qsenders q" "\<lambda>x. x \<noteq> At_rest" y] count_update [of i "qsenders q" is_passing y]
  by (auto simp: sender_is_def busy_def claimed_def)

lemma claimed_le: "claimed q \<le> length (qchan q) + busy q"
proof -
  have "length (filter is_passing xs) \<le> length (filter (\<lambda>x. x \<noteq> At_rest) xs)" for xs :: "'a sending list"
    by (induction xs) (auto simp: is_passing_def)
  then show ?thesis by (simp add: claimed_def busy_def)
qed

lemma queue_inv_step:
  assumes inv: "queue_inv q ls" and st: "qstep l q = Some q'"
  shows "queue_inv q' (ls @ [l]) \<and> qcap q' = qcap q"
proof (cases l)
  case (Try_add i m)
  let ?y = "if qlen q \<ge> qcap q then Refusing m else Passing m"
  have s: "sender_is q i At_rest" and q': "q' = set_sender i ?y (q\<lparr>qlen := qlen q + 1\<rparr>)"
    using st Try_add by (auto split: if_splits)
  note mv = sender_moves [OF s, of q' ?y]
  have "claimed q' \<le> qcap q + past_cap ls"
    using mv(2) inv claimed_le [of q] by (auto simp: queue_inv_def q' set_sender_def is_passing_def split: if_splits)
  then show ?thesis using mv(1) inv Try_add by (auto simp: queue_inv_def q' set_sender_def split: if_splits)
next
  case (Send_add i m)
  have s: "sender_is q i At_rest" and q': "q' = set_sender i (Passing m) (q\<lparr>qlen := qlen q + 1\<rparr>)"
    using st Send_add by (auto split: if_splits)
  note mv = sender_moves [OF s, of q' "Passing m"]
  then show ?thesis using inv Send_add
    by (auto simp: queue_inv_def q' set_sender_def is_passing_def split: if_splits)
next
  case (Full_sub i m)
  have s: "sender_is q i (Refusing m)" and q': "q' = set_sender i At_rest (q\<lparr>qlen := qlen q - 1\<rparr>)"
    using st Full_sub by (auto split: if_splits)
  note mv = sender_moves [OF s, of q' At_rest]
  then show ?thesis using inv Full_sub
    by (auto simp: queue_inv_def q' set_sender_def is_passing_def split: if_splits)
next
  case (Channel_send i m)
  have s: "sender_is q i (Passing m)" and q': "q' = set_sender i At_rest (q\<lparr>qchan := qchan q @ [m]\<rparr>)"
    and o: "qopen q" using st Channel_send by (auto split: if_splits)
  note mv = sender_moves [OF s, of q' At_rest]
  then show ?thesis using inv Channel_send o
    by (auto simp: queue_inv_def q' set_sender_def is_passing_def split: if_splits)
next
  case (Channel_closed i m)
  have s: "sender_is q i (Passing m)" and q': "q' = set_sender i (Failing m) q"
    using st Channel_closed by (auto split: if_splits)
  note mv = sender_moves [OF s, of q' "Failing m"]
  then show ?thesis using inv Channel_closed
    by (auto simp: queue_inv_def q' set_sender_def is_passing_def split: if_splits)
next
  case (Closed_sub i m)
  have s: "sender_is q i (Failing m)" and q': "q' = set_sender i At_rest (q\<lparr>qlen := qlen q - 1\<rparr>)"
    using st Closed_sub by (auto split: if_splits)
  note mv = sender_moves [OF s, of q' At_rest]
  then show ?thesis using inv Closed_sub
    by (auto simp: queue_inv_def q' set_sender_def is_passing_def split: if_splits)
next
  case (Channel_recv m)
  then obtain rest where c: "qchan q = m # rest" "\<not> qtaking q" "qopen q"
      "q' = q\<lparr>qchan := rest, qtaking := True\<rparr>"
    using st by (cases "qchan q") (auto split: if_splits)
  then show ?thesis using inv Channel_recv by (auto simp: queue_inv_def busy_def claimed_def)
next
  case Taken_sub
  then show ?thesis using inv st by (auto simp: queue_inv_def busy_def claimed_def split: if_splits)
next
  case Drop_receiver
  have "prefix (got ls) (sent ls)" using inv by (auto simp: queue_inv_def dest: append_prefixD)
  then show ?thesis using inv st Drop_receiver
    by (auto simp: queue_inv_def busy_def claimed_def split: if_splits)
qed

lemma qrun_snoc: "qrun (ls @ [l]) q = (case qrun ls q of None \<Rightarrow> None | Some q' \<Rightarrow> qstep l q')"
  by (induction ls arbitrary: q) (auto split: option.splits)

lemma queue_inv_run:
  "qrun ls (bounded cap n) = Some q \<Longrightarrow> queue_inv q ls \<and> qcap q = max cap 1"
proof (induction ls arbitrary: q rule: rev_induct)
  case Nil
  then show ?case
    by (auto simp: bounded_def queue_inv_def busy_def claimed_def is_passing_def past_cap_def sent_def got_def)
next
  case (snoc l ls)
  then obtain q0 where "qrun ls (bounded cap n) = Some q0" "qstep l q0 = Some q"
    by (auto simp: qrun_snoc split: option.splits)
  then show ?case using snoc.IH queue_inv_step by fastforce
qed

section \<open>Properties\<close>

text \<open>C16: the queue under every interleaving of its senders and its receiver. The counter is the
  messages queued plus the calls in flight, so it is exact whenever no call is; the channel never
  holds more than the cap plus one for each \<open>send\<close>, and never more than the cap with \<open>try_send\<close>
  alone; what was received followed by what is queued is what was sent, in the order of the channel
  sends, until the receiver is dropped.\<close>

theorem queue_outcome:
  assumes "qrun ls (bounded cap n) = Some q"
  shows "length (qchan q) + length (filter is_passing (qsenders q)) \<le> max cap 1 + past_cap ls \<and>
    (qopen q \<longrightarrow> qlen q = length (qchan q) + busy q \<and> got ls @ qchan q = sent ls) \<and>
    prefix (got ls) (sent ls)"
  using queue_inv_run [OF assms]
  by (auto simp: queue_inv_def claimed_def dest: append_prefixD)

definition demo_labels :: "nat qlabel list" where
  "demo_labels = [Try_add 0 7, Try_add 1 8, Channel_send 0 7, Channel_recv 7, Full_sub 1 8, Send_add 1 9]"

theorem queue_outcome_witness:
  "(case qrun demo_labels (bounded 1 2) of Some q \<Rightarrow> qlen q = 2 \<and> qchan q = [] \<and> busy q = 2 \<and> sent demo_labels = [7]
     | None \<Rightarrow> False)"
proof -
  have "qrun demo_labels (bounded 1 2) = Some \<lparr>qchan = [], qlen = 2, qcap = 1, qopen = True,
     qsenders = [At_rest, Passing 9], qtaking = True\<rparr>" by code_simp
  from queue_outcome [OF this] this show ?thesis by (auto simp: sent_def demo_labels_def)
qed

text \<open>C17: a call that nothing interrupts. With every other call finished, \<open>try_send\<close> queues its
  message at the end exactly when fewer than \<open>cap\<close> are queued and the receiver is there, and
  otherwise leaves the queue and its counter as they were; a receive takes the oldest message; and
  the uninterrupted calls are the steps of the interleaving model in sequence.\<close>

theorem try_send_outcome:
  assumes "qlen q = length (qchan q)" and "sender_is q i At_rest"
  shows "(case try_send m q of (r, q') \<Rightarrow>
      (if length (qchan q) \<ge> qcap q then r = Inl (Full m) \<and> q' = q
       else if qopen q then r = Inr () \<and> qchan q' = qchan q @ [m] \<and> qlen q' = length (qchan q')
       else r = Inl (Disconnected m) \<and> q' = q) \<and>
      qrun (if length (qchan q) \<ge> qcap q then [Try_add i m, Full_sub i m]
            else if qopen q then [Try_add i m, Channel_send i m]
            else [Try_add i m, Channel_closed i m, Closed_sub i m]) q = Some q') \<and>
    (case try_recv q of (r, q') \<Rightarrow> r = (case qchan q of [] \<Rightarrow> None | m # _ \<Rightarrow> Some m) \<and>
       qchan q' = tl (qchan q) \<and> qlen q' = length (qchan q'))"
proof -
  have i: "i < length (qsenders q)" "qsenders q ! i = At_rest" using assms(2) by (auto simp: sender_is_def)
  then have "(qsenders q)[i := At_rest] = qsenders q" by (metis list_update_id)
  then show ?thesis using assms(1) i
    by (cases q) (auto simp: try_send_def Let_def try_recv_def sender_is_def set_sender_def split: list.splits)
qed

theorem try_send_outcome_witness:
  "fst (try_send 9 (bounded 2 1 :: nat msg_queue)) = Inr () \<and> qchan (snd (try_send 9 (bounded 2 1 :: nat msg_queue))) = [9]"
proof -
  have "qlen (bounded 2 1 :: nat msg_queue) = length (qchan (bounded 2 1 :: nat msg_queue))"
    "sender_is (bounded 2 1 :: nat msg_queue) 0 At_rest" "qcap (bounded 2 1 :: nat msg_queue) = 2"
    "qchan (bounded 2 1 :: nat msg_queue) = []" "qopen (bounded 2 1 :: nat msg_queue)"
    by code_simp+
  with try_send_outcome [OF this(1,2), of 9] show ?thesis by (auto split: prod.splits)
qed

text \<open>The counter runs ahead of the channel. With two senders and a cap of one, an interleaving
  leads to a refused \<open>try_send\<close> although the queue holds no message: a message the receiver has
  already taken is still counted.\<close>

lemma refused_while_empty:
  "\<exists>ls q. qrun ls (bounded 1 2 :: nat msg_queue) = Some q \<and> qchan q = [] \<and> sender_is q 1 (Refusing 8)"
proof -
  let ?ls = "[Try_add 0 7, Channel_send 0 7, Channel_recv 7, Try_add 1 8] :: nat qlabel list"
  have "qrun ?ls (bounded 1 2) = Some \<lparr>qchan = [], qlen = 2, qcap = 1, qopen = True,
     qsenders = [At_rest, Refusing 8], qtaking = True\<rparr>" by code_simp
  then show ?thesis by (intro exI conjI) (assumption, simp_all add: sender_is_def)
qed

end
