(* ===== verification/Sch_Convert.thy ===== *)
theory Sch_Convert
  imports Prelude
begin

text \<open>
  The schema's conversion helpers (\<open>crates/atlas-schema/src/convert.rs\<close>, \<open>error.rs\<close>, \<open>limits.rs\<close>,
  \<open>ids.rs\<close>). A Rust string is its UTF-8 bytes, as its length is counted; a field path is a HOL
  string. A conversion from the wire returns an error or a domain value. Two locales state what a
  pair of conversions promises: \<open>codec\<close> (what is accepted is valid, and a valid value comes back)
  and \<open>exact_codec\<close> (moreover, accepted messages are exactly the encodings of valid values); both
  extend to optional fields.
\<close>

type_synonym rstr = bytes
type_synonym u16 = "16 word"
type_synonym u64 = "64 word"

section \<open>Errors\<close>

datatype error_kind = Missing | UnknownEnum | TooLarge | Malformed

record schema_error =
  field_path :: string
  kind :: error_kind

type_synonym 'a res = "schema_error + 'a"

definition schema_error_new :: "string \<Rightarrow> error_kind \<Rightarrow> schema_error" where
  "schema_error_new p k = \<lparr>field_path = p, kind = k\<rparr>"

text \<open>The code after a \<open>?\<close>.\<close>

definition bind :: "'a res \<Rightarrow> ('a \<Rightarrow> 'b res) \<Rightarrow> 'b res" where
  "bind r f = (case r of Inl e \<Rightarrow> Inl e | Inr x \<Rightarrow> f x)"

lemma bind_simps [simp]: "bind (Inl e) f = Inl e" "bind (Inr x) f = f x"
  by (simp_all add: bind_def)

lemma bind_ok [simp]: "bind r f = Inr y \<longleftrightarrow> (\<exists>x. r = Inr x \<and> f x = Inr y)"
  by (cases r) auto

text \<open>\<open>match w \{ Some(x) => Some(f(x)?), None => None \}\<close>.\<close>

definition opt_res :: "('a \<Rightarrow> 'b res) \<Rightarrow> 'a option \<Rightarrow> 'b option res" where
  "opt_res f w = (case w of None \<Rightarrow> Inr None | Some x \<Rightarrow> bind (f x) (\<lambda>y. Inr (Some y)))"

lemma opt_res_simps [simp]: "opt_res f None = Inr None" "opt_res f (Some x) = bind (f x) (\<lambda>y. Inr (Some y))"
  by (simp_all add: opt_res_def)

lemma opt_res_ok:
  assumes "\<And>x y. f x = Inr y \<longleftrightarrow> P y \<and> x = g y"
  shows "opt_res f w = Inr d \<longleftrightarrow> pred_option P d \<and> w = map_option g d"
  by (cases w; cases d) (auto simp: assms)

section \<open>The helpers\<close>

definition field_join :: "string \<Rightarrow> string \<Rightarrow> string" where
  "field_join parent field = (if parent = [] then field else parent @ ''.'' @ field)"

definition err :: "string \<Rightarrow> string \<Rightarrow> error_kind \<Rightarrow> 'a res" where
  "err parent field k = Inl (schema_error_new (field_join parent field) k)"

definition require :: "'a option \<Rightarrow> string \<Rightarrow> string \<Rightarrow> 'a res" where
  "require value parent field = (case value of Some v \<Rightarrow> Inr v | None \<Rightarrow> err parent field Missing)"

definition at_most :: "rstr \<Rightarrow> nat \<Rightarrow> string \<Rightarrow> string \<Rightarrow> rstr res" where
  "at_most value mx parent field = (if length value > mx then err parent field TooLarge else Inr value)"

definition fixed :: "nat \<Rightarrow> bytes \<Rightarrow> string \<Rightarrow> string \<Rightarrow> bytes res" where
  "fixed n value parent field = (if length value = n then Inr value else err parent field Malformed)"

definition u16_field :: "u32 \<Rightarrow> string \<Rightarrow> string \<Rightarrow> u16 res" where
  "u16_field value parent field = (if unat value < 2 ^ 16 then Inr (ucast value) else err parent field Malformed)"

text \<open>\<open>try_from\<close> is the generated conversion of the wire enum, \<open>None\<close> for a number it lacks.\<close>

definition wire_enum :: "(int \<Rightarrow> 'w option) \<Rightarrow> int \<Rightarrow> ('w \<Rightarrow> 'd option) \<Rightarrow> string \<Rightarrow> string \<Rightarrow> 'd res" where
  "wire_enum try_from raw m parent field =
     (case try_from raw of
        Some w \<Rightarrow> (case m w of Some d \<Rightarrow> Inr d | None \<Rightarrow> err parent field Missing)
      | None \<Rightarrow> err parent field UnknownEnum)"

lemma err_ok [simp]: "err p f k \<noteq> Inr y" "Inr y \<noteq> err p f k"
  by (simp_all add: err_def)

lemma require_ok [simp]: "require w p f = Inr y \<longleftrightarrow> w = Some y"
  by (cases w) (auto simp: require_def)

lemma at_most_ok [simp]: "at_most w n p f = Inr y \<longleftrightarrow> length y \<le> n \<and> w = y"
  by (auto simp: at_most_def)

lemma fixed_ok [simp]: "fixed n w p f = Inr y \<longleftrightarrow> length y = n \<and> w = y"
  by (auto simp: fixed_def)

lemma ucast_u16_u32: "ucast (ucast (v :: u32) :: u16) = v" if "unat v < 2 ^ 16"
  by (rule unsigned_word_eqI [where ?'a = nat])
    (use that in \<open>simp add: unsigned_ucast_eq unsigned_take_bit_eq take_bit_nat_eq_self\<close>)

lemma ucast_u32_u16 [simp]: "ucast (ucast (v :: u16) :: u32) = v" "unat (ucast (v :: u16) :: u32) < 65536"
proof -
  have v: "unat v < 65536" using unsigned_less [of v, where ?'a = nat] by simp
  then show "unat (ucast v :: u32) < 65536" by (simp add: unsigned_ucast_eq unsigned_take_bit_eq take_bit_nat_eq_self)
  show "ucast (ucast v :: u32) = v"
    by (rule unsigned_word_eqI [where ?'a = nat]) (use v in \<open>simp add: unsigned_ucast_eq unsigned_take_bit_eq take_bit_nat_eq_self\<close>)
qed

lemma u16_field_ok [simp]: "u16_field w p f = Inr y \<longleftrightarrow> w = ucast y"
  using ucast_u16_u32 [of w] by (auto simp: u16_field_def)

lemma wire_enum_ok [simp]:
  "wire_enum t raw m p f = Inr y \<longleftrightarrow> (\<exists>w. t raw = Some w \<and> m w = Some y)"
  by (auto simp: wire_enum_def split: option.splits)

section \<open>Size limits\<close>

definition CMD_LINE_MAX :: nat where "CMD_LINE_MAX = 64 * 1024"
definition PATH_MAX :: nat where "PATH_MAX = 32 * 1024"
definition REG_DATA_MAX :: nat where "REG_DATA_MAX = 4 * 1024"
definition DNS_HOSTNAME_MAX :: nat where "DNS_HOSTNAME_MAX = 1024"
definition DNS_ANSWER_DATA_MAX :: nat where "DNS_ANSWER_DATA_MAX = 1024"
definition DNS_ANSWERS_MAX :: nat where "DNS_ANSWERS_MAX = 64"
definition USER_UID_MAX :: nat where "USER_UID_MAX = 256"
definition USER_NAME_MAX :: nat where "USER_NAME_MAX = 1024"
definition SIGNER_MAX :: nat where "SIGNER_MAX = 1024"
definition EVENT_LOG_NAME_MAX :: nat where "EVENT_LOG_NAME_MAX = 256"
definition CLASS_COUNTS_MAX :: nat where "CLASS_COUNTS_MAX = 32"
definition EVENT_MAX :: nat where "EVENT_MAX = 256 * 1024"

text \<open>\<open>str::is_char_boundary\<close>: not inside a multi-byte character, whose further bytes are
  \<open>10xxxxxx\<close>.\<close>

definition char_boundary :: "rstr \<Rightarrow> nat \<Rightarrow> bool" where
  "char_boundary s i \<longleftrightarrow> i = 0 \<or> i = length s \<or> i < length s \<and> unat (s ! i) div 64 \<noteq> 2"

fun back_to_boundary :: "rstr \<Rightarrow> nat \<Rightarrow> nat" where
  "back_to_boundary s 0 = 0"
| "back_to_boundary s (Suc i) = (if char_boundary s (Suc i) then Suc i else back_to_boundary s i)"

definition truncate_utf8 :: "rstr \<Rightarrow> nat \<Rightarrow> rstr \<times> bool" where
  "truncate_utf8 s max_bytes =
     (if length s \<le> max_bytes then (s, False) else (take (back_to_boundary s max_bytes) s, True))"

lemma char_boundary_0 [simp]: "char_boundary s 0"
  unfolding char_boundary_def by blast

lemma back_to_boundary_le: "back_to_boundary s n \<le> n"
  by (induction n) simp_all

lemma back_to_boundary_greatest:
  "char_boundary s (back_to_boundary s n) \<and> (\<forall>i. char_boundary s i \<and> i \<le> n \<longrightarrow> i \<le> back_to_boundary s n)"
proof (induction n)
  case 0
  show ?case by simp
next
  case (Suc n)
  show ?case
  proof (cases "char_boundary s (Suc n)")
    case False
    then have "i \<le> n" if "char_boundary s i" "i \<le> Suc n" for i using that by (cases "i = Suc n") simp_all
    then show ?thesis using Suc False by simp
  qed simp
qed

section \<open>Identifiers\<close>

text \<open>A uid is 16 bytes. \<open>blake3\<close> is the hash of the crate of that name.\<close>

type_synonym uid16 = bytes

definition uid16_ok :: "uid16 \<Rightarrow> bool" where
  "uid16_ok u \<longleftrightarrow> length u = 16"

definition PROCESS_UID_TAG :: bytes where
  "PROCESS_UID_TAG = map (\<lambda>c. of_nat (of_char c)) ''atlas.process.v1''"

definition process_uid :: "(bytes \<Rightarrow> bytes) \<Rightarrow> uid16 \<Rightarrow> uid16 \<Rightarrow> nat \<Rightarrow> uid16" where
  "process_uid blake3 device boot start_key =
     take 16 (blake3 (PROCESS_UID_TAG @ device @ boot @ le_bytes 8 start_key))"

text \<open>\<open>EventId::from_uuid\<close>: version 7 and the RFC 9562 variant, read off the bytes.\<close>

definition uuid_version :: "bytes \<Rightarrow> nat" where
  "uuid_version u = unat (u ! 6) div 16"

definition uuid_rfc_variant :: "bytes \<Rightarrow> bool" where
  "uuid_rfc_variant u \<longleftrightarrow> unat (u ! 8) div 64 = 2"

definition event_id_from_uuid :: "bytes \<Rightarrow> bytes option" where
  "event_id_from_uuid u = (if uuid_version u = 7 \<and> uuid_rfc_variant u then Some u else None)"

text \<open>The hashed message determines its parts: the parts before the key have fixed lengths.\<close>

lemma process_uid_message:
  assumes "length d = 16" "length d' = 16" "length b = 16" "length b' = 16" "k < 2 ^ 64" "k' < 2 ^ 64"
    and "PROCESS_UID_TAG @ d @ b @ le_bytes 8 k = PROCESS_UID_TAG @ d' @ b' @ le_bytes 8 k'"
  shows "d = d' \<and> b = b' \<and> k = k'"
proof -
  have "d @ b @ le_bytes 8 k = d' @ b' @ le_bytes 8 k'" using assms(7) by (simp only: same_append_eq)
  then have "d = d' \<and> b @ le_bytes 8 k = b' @ le_bytes 8 k'" using assms(1,2) by (metis append_eq_append_conv)
  then have "d = d'" "b = b'" "le_bytes 8 k = le_bytes 8 k'" using assms(3,4) by (metis append_eq_append_conv)+
  moreover have "from_le (le_bytes 8 k) = k" "from_le (le_bytes 8 k') = k'"
    using assms(5,6) by (simp_all only: from_le_bytes_mod) simp_all
  ultimately show ?thesis by metis
qed

section \<open>What a pair of conversions promises\<close>

locale codec =
  fixes enc :: "'d \<Rightarrow> 'w"
    and dec :: "'w \<Rightarrow> 'd res"
    and valid :: "'d \<Rightarrow> bool"
  assumes dec_enc: "valid d \<Longrightarrow> dec (enc d) = Inr d"
    and dec_valid: "dec w = Inr d \<Longrightarrow> valid d"
begin

lemma round_trip_iff: "dec (enc d) = Inr d \<longleftrightarrow> valid d"
  using dec_enc dec_valid by blast

lemma enc_inj: "valid d \<Longrightarrow> valid d' \<Longrightarrow> enc d = enc d' \<Longrightarrow> d = d'"
  by (metis dec_enc sum.inject(2))

text \<open>Decoding again what was decoded and encoded gives the same.\<close>

lemma dec_again: "dec w = Inr d \<Longrightarrow> dec (enc d) = Inr d"
  using dec_valid dec_enc by blast

end

locale exact_codec =
  fixes enc :: "'d \<Rightarrow> 'w"
    and dec :: "'w \<Rightarrow> 'd res"
    and valid :: "'d \<Rightarrow> bool"
  assumes dec_iff: "dec w = Inr d \<longleftrightarrow> valid d \<and> w = enc d"
begin

lemma accepted: "(\<exists>d. dec w = Inr d) \<longleftrightarrow> w \<in> enc ` {d. valid d}"
  by (auto simp: dec_iff)

lemma opt_iff: "opt_res dec w = Inr d \<longleftrightarrow> pred_option valid d \<and> w = map_option enc d"
  by (rule opt_res_ok) (rule dec_iff)

lemma rejects_invalid: "\<not> valid d \<Longrightarrow> (\<And>d'. valid d' \<Longrightarrow> enc d' \<noteq> enc d) \<Longrightarrow> \<exists>e. dec (enc d) = Inl e"
  by (cases "dec (enc d)") (auto simp: dec_iff)

end

sublocale exact_codec \<subseteq> codec enc dec valid
  by unfold_locales (auto simp: dec_iff)


section \<open>Properties\<close>

text \<open>Truncation. \<open>truncate_utf8\<close> keeps a prefix of at most the limit that ends on a character
  boundary, the longest such prefix, and says it cut exactly when something is missing.\<close>

lemma truncate_utf8_outcome:
  "case truncate_utf8 s n of (t, was_cut) \<Rightarrow>
     (\<exists>r. s = t @ r \<and> was_cut = (r \<noteq> [])) \<and> length t \<le> n \<and> char_boundary s (length t) \<and>
     (\<forall>i. char_boundary s i \<and> i \<le> n \<and> i \<le> length s \<longrightarrow> i \<le> length t)"
proof (cases "length s \<le> n")
  case True
  then show ?thesis by (simp add: truncate_utf8_def char_boundary_def)
next
  case False
  let ?k = "back_to_boundary s n"
  have k: "?k \<le> n" "char_boundary s ?k" "\<forall>i. char_boundary s i \<and> i \<le> n \<longrightarrow> i \<le> ?k"
    using back_to_boundary_le back_to_boundary_greatest by blast+
  have "s = take ?k s @ drop ?k s \<and> drop ?k s \<noteq> []" using k(1) False by simp
  then have "\<exists>r. s = take ?k s @ r \<and> True = (r \<noteq> [])" by blast
  moreover have "length (take ?k s) = ?k" using k(1) False by simp
  moreover have "truncate_utf8 s n = (take ?k s, True)" using False by (simp add: truncate_utf8_def)
  ultimately show ?thesis using k by simp
qed

lemma truncate_utf8_outcome_witness:
  "truncate_utf8 [0x61, 0xc3, 0xa9] 2 = ([0x61], True) \<and> char_boundary [0x61, 0xc3, 0xa9] 1"
proof -
  have "truncate_utf8 [0x61, 0xc3, 0xa9] 2 = ([0x61], True)" by code_simp
  then show ?thesis using truncate_utf8_outcome [of "[0x61, 0xc3, 0xa9]" 2] by simp
qed

text \<open>Two processes with the same \<open>process.uid\<close> are the same device, boot and start key, or their two
  hashed messages are a collision of the truncated hash: the message leaves no other ambiguity.\<close>

lemma process_uid_unique:
  assumes "uid16_ok d" "uid16_ok d'" "uid16_ok b" "uid16_ok b'" "k < 2 ^ 64" "k' < 2 ^ 64"
    and "process_uid blake3 d b k = process_uid blake3 d' b' k'"
    and "m = PROCESS_UID_TAG @ d @ b @ le_bytes 8 k" "m' = PROCESS_UID_TAG @ d' @ b' @ le_bytes 8 k'"
  shows "(d, b, k) = (d', b', k') \<or> m \<noteq> m' \<and> take 16 (blake3 m) = take 16 (blake3 m')"
  using assms process_uid_message [of d d' b b' k k'] by (auto simp: process_uid_def uid16_ok_def)

end
