(* ===== verification/Sch_Objects.thy ===== *)
theory Sch_Objects
  imports Sch_Convert
begin

text \<open>
  The shared objects of the schema and their conversions (\<open>crates/atlas-schema/src/objects.rs\<close>).
  Wire messages are records with the fields the generated structs have (a sub-message and an
  optional field are options, an enum its \<open>i32\<close>). Each \<open>valid\<close> predicate collects what decoding
  checks and the sizes the Rust arrays have; the interpretations show each pair of conversions an
  exact codec: decoding accepts the encodings of valid values and nothing else.
\<close>

section \<open>Domain types\<close>

record user =
  user_uid :: rstr
  user_name :: rstr

record hashes =
  sha256 :: "bytes option"

datatype signature_status = SigValid | SigInvalid | SigUnsigned

record signature =
  signer :: "rstr option"
  status :: signature_status

record file_obj =
  file_path :: rstr
  file_name :: rstr
  file_hashes :: "hashes option"
  file_signature :: "signature option"

record process_ref =
  ref_uid :: uid16
  ref_pid :: u32
  ref_file :: file_obj
  ref_user :: "user option"

datatype integrity = Untrusted | Low | Medium | High | System | Protected

record process =
  proc_uid :: uid16
  proc_pid :: u32
  proc_file :: file_obj
  proc_user :: "user option"
  cmd_line :: rstr
  cmd_line_truncated :: bool
  created_time :: int
  proc_integrity :: "integrity option"
  parent_process :: "process_ref option"

datatype ip_addr = V4 bytes | V6 bytes

record network_endpoint =
  ip :: ip_addr
  port :: u16

section \<open>Wire messages\<close>

record w_user =
  w_user_uid :: rstr
  w_user_name :: rstr

record w_hashes =
  w_sha256 :: "bytes option"

datatype w_signature_status = WSigUnspecified | WSigValid | WSigInvalid | WSigUnsigned

record w_signature =
  w_signer :: "rstr option"
  w_status :: int

record w_file =
  w_file_path :: rstr
  w_file_name :: rstr
  w_file_hashes :: "w_hashes option"
  w_file_signature :: "w_signature option"

record w_process_ref =
  w_ref_uid :: bytes
  w_ref_pid :: u32
  w_ref_file :: "w_file option"
  w_ref_user :: "w_user option"

datatype w_integrity = WIntegrityUnspecified | WUntrusted | WLow | WMedium | WHigh | WSystem | WProtected

record w_process =
  w_proc_uid :: bytes
  w_proc_pid :: u32
  w_proc_file :: "w_file option"
  w_proc_user :: "w_user option"
  w_cmd_line :: rstr
  w_cmd_line_truncated :: bool
  w_created_time :: int
  w_proc_integrity :: "int option"
  w_parent_process :: "w_process_ref option"

record w_network_endpoint =
  w_ip :: bytes
  w_port :: u32

text \<open>The numbers of the wire enums, both ways.\<close>

primrec w_signature_status_num :: "w_signature_status \<Rightarrow> int" where
  "w_signature_status_num WSigUnspecified = 0"
| "w_signature_status_num WSigValid = 1"
| "w_signature_status_num WSigInvalid = 2"
| "w_signature_status_num WSigUnsigned = 3"

definition w_signature_status_try :: "int \<Rightarrow> w_signature_status option" where
  "w_signature_status_try i = find (\<lambda>w. w_signature_status_num w = i)
     [WSigUnspecified, WSigValid, WSigInvalid, WSigUnsigned]"

primrec w_integrity_num :: "w_integrity \<Rightarrow> int" where
  "w_integrity_num WIntegrityUnspecified = 0"
| "w_integrity_num WUntrusted = 1"
| "w_integrity_num WLow = 2"
| "w_integrity_num WMedium = 3"
| "w_integrity_num WHigh = 4"
| "w_integrity_num WSystem = 5"
| "w_integrity_num WProtected = 6"

definition w_integrity_try :: "int \<Rightarrow> w_integrity option" where
  "w_integrity_try i = find (\<lambda>w. w_integrity_num w = i)
     [WIntegrityUnspecified, WUntrusted, WLow, WMedium, WHigh, WSystem, WProtected]"

section \<open>Domain to wire\<close>

definition user_to_wire :: "user \<Rightarrow> w_user" where
  "user_to_wire v = \<lparr>w_user_uid = user_uid v, w_user_name = user_name v\<rparr>"

definition hashes_to_wire :: "hashes \<Rightarrow> w_hashes" where
  "hashes_to_wire v = \<lparr>w_sha256 = map_option (\<lambda>h. h) (sha256 v)\<rparr>"

primrec status_to_wire :: "signature_status \<Rightarrow> w_signature_status" where
  "status_to_wire SigValid = WSigValid"
| "status_to_wire SigInvalid = WSigInvalid"
| "status_to_wire SigUnsigned = WSigUnsigned"

definition signature_to_wire :: "signature \<Rightarrow> w_signature" where
  "signature_to_wire v = \<lparr>w_signer = signer v, w_status = w_signature_status_num (status_to_wire (status v))\<rparr>"

definition file_to_wire :: "file_obj \<Rightarrow> w_file" where
  "file_to_wire v = \<lparr>w_file_path = file_path v, w_file_name = file_name v,
     w_file_hashes = map_option hashes_to_wire (file_hashes v),
     w_file_signature = map_option signature_to_wire (file_signature v)\<rparr>"

definition process_ref_to_wire :: "process_ref \<Rightarrow> w_process_ref" where
  "process_ref_to_wire v = \<lparr>w_ref_uid = ref_uid v, w_ref_pid = ref_pid v,
     w_ref_file = Some (file_to_wire (ref_file v)), w_ref_user = map_option user_to_wire (ref_user v)\<rparr>"

primrec integrity_to_wire :: "integrity \<Rightarrow> w_integrity" where
  "integrity_to_wire Untrusted = WUntrusted"
| "integrity_to_wire Low = WLow"
| "integrity_to_wire Medium = WMedium"
| "integrity_to_wire High = WHigh"
| "integrity_to_wire System = WSystem"
| "integrity_to_wire Protected = WProtected"

definition process_to_wire :: "process \<Rightarrow> w_process" where
  "process_to_wire v = \<lparr>w_proc_uid = proc_uid v, w_proc_pid = proc_pid v,
     w_proc_file = Some (file_to_wire (proc_file v)), w_proc_user = map_option user_to_wire (proc_user v),
     w_cmd_line = cmd_line v, w_cmd_line_truncated = cmd_line_truncated v, w_created_time = created_time v,
     w_proc_integrity = map_option (\<lambda>i. w_integrity_num (integrity_to_wire i)) (proc_integrity v),
     w_parent_process = map_option process_ref_to_wire (parent_process v)\<rparr>"

definition endpoint_to_wire :: "network_endpoint \<Rightarrow> w_network_endpoint" where
  "endpoint_to_wire v = \<lparr>w_ip = (case ip v of V4 a \<Rightarrow> a | V6 a \<Rightarrow> a), w_port = ucast (port v)\<rparr>"

section \<open>Wire to domain\<close>

definition user_from_wire :: "w_user \<Rightarrow> string \<Rightarrow> user res" where
  "user_from_wire w path =
     bind (at_most (w_user_uid w) USER_UID_MAX path ''uid'') (\<lambda>u.
     bind (at_most (w_user_name w) USER_NAME_MAX path ''name'') (\<lambda>n.
     Inr \<lparr>user_uid = u, user_name = n\<rparr>))"

definition user_optional :: "w_user option \<Rightarrow> string \<Rightarrow> user option res" where
  "user_optional w parent = opt_res (\<lambda>u. user_from_wire u (field_join parent ''user'')) w"

definition hashes_from_wire :: "w_hashes \<Rightarrow> string \<Rightarrow> hashes res" where
  "hashes_from_wire w path =
     bind (opt_res (\<lambda>b. fixed 32 b path ''sha256'') (w_sha256 w)) (\<lambda>s. Inr \<lparr>sha256 = s\<rparr>)"

primrec status_of_wire :: "w_signature_status \<Rightarrow> signature_status option" where
  "status_of_wire WSigUnspecified = None"
| "status_of_wire WSigValid = Some SigValid"
| "status_of_wire WSigInvalid = Some SigInvalid"
| "status_of_wire WSigUnsigned = Some SigUnsigned"

definition signature_from_wire :: "w_signature \<Rightarrow> string \<Rightarrow> signature res" where
  "signature_from_wire w path =
     bind (wire_enum w_signature_status_try (w_status w) status_of_wire path ''status'') (\<lambda>st.
     bind (opt_res (\<lambda>s. at_most s SIGNER_MAX path ''signer'') (w_signer w)) (\<lambda>sg.
     Inr \<lparr>signer = sg, status = st\<rparr>))"

definition file_from_wire :: "w_file \<Rightarrow> string \<Rightarrow> file_obj res" where
  "file_from_wire w path =
     bind (at_most (w_file_path w) PATH_MAX path ''path'') (\<lambda>p.
     bind (at_most (w_file_name w) PATH_MAX path ''name'') (\<lambda>n.
     bind (opt_res (\<lambda>h. hashes_from_wire h (field_join path ''hashes'')) (w_file_hashes w)) (\<lambda>h.
     bind (opt_res (\<lambda>s. signature_from_wire s (field_join path ''signature'')) (w_file_signature w)) (\<lambda>s.
     Inr \<lparr>file_path = p, file_name = n, file_hashes = h, file_signature = s\<rparr>))))"

definition file_required :: "w_file option \<Rightarrow> string \<Rightarrow> string \<Rightarrow> file_obj res" where
  "file_required w parent field = bind (require w parent field) (\<lambda>w. file_from_wire w (field_join parent field))"

definition process_ref_from_wire :: "w_process_ref \<Rightarrow> string \<Rightarrow> process_ref res" where
  "process_ref_from_wire w path =
     bind (fixed 16 (w_ref_uid w) path ''uid'') (\<lambda>u.
     bind (file_required (w_ref_file w) path ''file'') (\<lambda>f.
     bind (user_optional (w_ref_user w) path) (\<lambda>us.
     Inr \<lparr>ref_uid = u, ref_pid = w_ref_pid w, ref_file = f, ref_user = us\<rparr>)))"

definition process_ref_required :: "w_process_ref option \<Rightarrow> string \<Rightarrow> string \<Rightarrow> process_ref res" where
  "process_ref_required w parent field =
     bind (require w parent field) (\<lambda>w. process_ref_from_wire w (field_join parent field))"

primrec integrity_of_wire :: "w_integrity \<Rightarrow> integrity option" where
  "integrity_of_wire WIntegrityUnspecified = None"
| "integrity_of_wire WUntrusted = Some Untrusted"
| "integrity_of_wire WLow = Some Low"
| "integrity_of_wire WMedium = Some Medium"
| "integrity_of_wire WHigh = Some High"
| "integrity_of_wire WSystem = Some System"
| "integrity_of_wire WProtected = Some Protected"

definition integrity_from_wire :: "int \<Rightarrow> string \<Rightarrow> integrity res" where
  "integrity_from_wire raw path = wire_enum w_integrity_try raw integrity_of_wire path ''integrity''"

definition process_from_wire :: "w_process \<Rightarrow> string \<Rightarrow> process res" where
  "process_from_wire w path =
     bind (fixed 16 (w_proc_uid w) path ''uid'') (\<lambda>u.
     bind (file_required (w_proc_file w) path ''file'') (\<lambda>f.
     bind (user_optional (w_proc_user w) path) (\<lambda>us.
     bind (at_most (w_cmd_line w) CMD_LINE_MAX path ''cmd_line'') (\<lambda>c.
     bind (opt_res (\<lambda>raw. integrity_from_wire raw path) (w_proc_integrity w)) (\<lambda>i.
     bind (opt_res (\<lambda>p. process_ref_from_wire p (field_join path ''parent_process'')) (w_parent_process w)) (\<lambda>pp.
     Inr \<lparr>proc_uid = u, proc_pid = w_proc_pid w, proc_file = f, proc_user = us, cmd_line = c,
          cmd_line_truncated = w_cmd_line_truncated w, created_time = w_created_time w,
          proc_integrity = i, parent_process = pp\<rparr>))))))"

definition endpoint_required :: "w_network_endpoint option \<Rightarrow> string \<Rightarrow> string \<Rightarrow> network_endpoint res" where
  "endpoint_required w parent field =
     bind (require w parent field) (\<lambda>w.
     let path = field_join parent field in
     bind (if length (w_ip w) = 4 then bind (fixed 4 (w_ip w) path ''ip'') (\<lambda>b. Inr (V4 b))
           else if length (w_ip w) = 16 then bind (fixed 16 (w_ip w) path ''ip'') (\<lambda>b. Inr (V6 b))
           else err path ''ip'' Malformed) (\<lambda>a.
     bind (u16_field (w_port w) path ''port'') (\<lambda>p. Inr \<lparr>ip = a, port = p\<rparr>)))"

section \<open>Valid values and the codecs\<close>

definition user_valid :: "user \<Rightarrow> bool" where
  "user_valid v \<longleftrightarrow> length (user_uid v) \<le> USER_UID_MAX \<and> length (user_name v) \<le> USER_NAME_MAX"

definition hashes_valid :: "hashes \<Rightarrow> bool" where
  "hashes_valid v \<longleftrightarrow> pred_option (\<lambda>h. length h = 32) (sha256 v)"

definition signature_valid :: "signature \<Rightarrow> bool" where
  "signature_valid v \<longleftrightarrow> pred_option (\<lambda>s. length s \<le> SIGNER_MAX) (signer v)"

definition file_valid :: "file_obj \<Rightarrow> bool" where
  "file_valid v \<longleftrightarrow> length (file_path v) \<le> PATH_MAX \<and> length (file_name v) \<le> PATH_MAX \<and>
     pred_option hashes_valid (file_hashes v) \<and> pred_option signature_valid (file_signature v)"

definition process_ref_valid :: "process_ref \<Rightarrow> bool" where
  "process_ref_valid v \<longleftrightarrow> uid16_ok (ref_uid v) \<and> file_valid (ref_file v) \<and> pred_option user_valid (ref_user v)"

definition process_valid :: "process \<Rightarrow> bool" where
  "process_valid v \<longleftrightarrow> uid16_ok (proc_uid v) \<and> file_valid (proc_file v) \<and> pred_option user_valid (proc_user v) \<and>
     length (cmd_line v) \<le> CMD_LINE_MAX \<and> pred_option process_ref_valid (parent_process v)"

definition endpoint_valid :: "network_endpoint \<Rightarrow> bool" where
  "endpoint_valid v \<longleftrightarrow> (case ip v of V4 a \<Rightarrow> length a = 4 | V6 a \<Rightarrow> length a = 16)"

named_theorems codec_iff \<open>what each conversion from the wire accepts\<close>

lemma status_iff [codec_iff]:
  "(\<exists>w. w_signature_status_try i = Some w \<and> status_of_wire w = Some d) \<longleftrightarrow>
     i = w_signature_status_num (status_to_wire d)"
  by (cases d) (auto simp: w_signature_status_try_def split: if_splits)

lemma integrity_iff [codec_iff]:
  "integrity_from_wire i p = Inr d \<longleftrightarrow> i = w_integrity_num (integrity_to_wire d)"
  by (cases d) (auto simp: integrity_from_wire_def w_integrity_try_def split: if_splits)

lemma user_iff [codec_iff]: "user_from_wire w p = Inr d \<longleftrightarrow> user_valid d \<and> w = user_to_wire d"
  by (cases w; cases d) (auto simp: user_from_wire_def user_valid_def user_to_wire_def)

lemma user_optional_iff [codec_iff]:
  "user_optional w p = Inr d \<longleftrightarrow> pred_option user_valid d \<and> w = map_option user_to_wire d"
  unfolding user_optional_def by (rule opt_res_ok) (rule user_iff)

lemma hashes_iff [codec_iff]: "hashes_from_wire w p = Inr d \<longleftrightarrow> hashes_valid d \<and> w = hashes_to_wire d"
proof -
  have "opt_res (\<lambda>b. fixed 32 b p ''sha256'') x = Inr y \<longleftrightarrow> pred_option (\<lambda>h. length h = 32) y \<and> x = map_option (\<lambda>h. h) y" for x y
    by (rule opt_res_ok) auto
  then show ?thesis by (cases w; cases d) (auto simp: hashes_from_wire_def hashes_valid_def hashes_to_wire_def)
qed

lemma signature_iff [codec_iff]:
  "signature_from_wire w p = Inr d \<longleftrightarrow> signature_valid d \<and> w = signature_to_wire d"
proof -
  have "opt_res (\<lambda>b. at_most b SIGNER_MAX p ''signer'') x = Inr y \<longleftrightarrow>
      pred_option (\<lambda>h. length h \<le> SIGNER_MAX) y \<and> x = y" for x y
    by (cases x; cases y) auto
  then show ?thesis
    by (cases w; cases d) (auto simp: signature_from_wire_def signature_valid_def signature_to_wire_def status_iff)
qed

lemma file_iff [codec_iff]: "file_from_wire w p = Inr d \<longleftrightarrow> file_valid d \<and> w = file_to_wire d"
  by (cases w; cases d)
    (auto simp: file_from_wire_def file_valid_def file_to_wire_def opt_res_ok [OF hashes_iff] opt_res_ok [OF signature_iff])

lemma file_required_iff [codec_iff]:
  "file_required w p f = Inr d \<longleftrightarrow> file_valid d \<and> w = Some (file_to_wire d)"
  by (auto simp: file_required_def file_iff)

lemma process_ref_iff [codec_iff]:
  "process_ref_from_wire w p = Inr d \<longleftrightarrow> process_ref_valid d \<and> w = process_ref_to_wire d"
  by (cases w; cases d)
    (auto simp: process_ref_from_wire_def process_ref_valid_def process_ref_to_wire_def file_required_iff
      user_optional_iff uid16_ok_def)

lemma process_ref_required_iff [codec_iff]:
  "process_ref_required w p f = Inr d \<longleftrightarrow> process_ref_valid d \<and> w = Some (process_ref_to_wire d)"
  by (auto simp: process_ref_required_def process_ref_iff)

lemma opt_integrity_iff [codec_iff]:
  "opt_res (\<lambda>raw. integrity_from_wire raw p) w = Inr d \<longleftrightarrow> w = map_option (\<lambda>i. w_integrity_num (integrity_to_wire i)) d"
  by (cases w; cases d) (auto simp: integrity_iff)

lemma process_iff [codec_iff]: "process_from_wire w p = Inr d \<longleftrightarrow> process_valid d \<and> w = process_to_wire d"
  by (cases w; cases d)
    (auto simp: process_from_wire_def process_valid_def process_to_wire_def file_required_iff user_optional_iff
      uid16_ok_def opt_integrity_iff opt_res_ok [OF process_ref_iff])

lemma endpoint_iff [codec_iff]:
  "endpoint_required w p f = Inr d \<longleftrightarrow> endpoint_valid d \<and> w = Some (endpoint_to_wire d)"
proof -
  have "(if length b = 4 then bind (fixed 4 b q g) (\<lambda>b. Inr (V4 b))
      else if length b = 16 then bind (fixed 16 b q g) (\<lambda>b. Inr (V6 b)) else err q g Malformed) = Inr a \<longleftrightarrow>
      (case a of V4 a \<Rightarrow> length a = 4 | V6 a \<Rightarrow> length a = 16) \<and> b = (case a of V4 a \<Rightarrow> a | V6 a \<Rightarrow> a)" for b q g a
    by (cases a) auto
  then show ?thesis
    by (cases d) (auto simp: endpoint_required_def endpoint_valid_def endpoint_to_wire_def Let_def
      intro: w_network_endpoint.equality)
qed

interpretation user_codec: exact_codec user_to_wire "\<lambda>w. user_from_wire w p" user_valid for p
  by unfold_locales (rule user_iff)

interpretation hashes_codec: exact_codec hashes_to_wire "\<lambda>w. hashes_from_wire w p" hashes_valid for p
  by unfold_locales (rule hashes_iff)

interpretation signature_codec: exact_codec signature_to_wire "\<lambda>w. signature_from_wire w p" signature_valid for p
  by unfold_locales (rule signature_iff)

interpretation file_codec: exact_codec file_to_wire "\<lambda>w. file_from_wire w p" file_valid for p
  by unfold_locales (rule file_iff)

interpretation process_ref_codec: exact_codec process_ref_to_wire "\<lambda>w. process_ref_from_wire w p" process_ref_valid for p
  by unfold_locales (rule process_ref_iff)

interpretation process_codec: exact_codec process_to_wire "\<lambda>w. process_from_wire w p" process_valid for p
  by unfold_locales (rule process_iff)

interpretation endpoint_codec: exact_codec "\<lambda>d. Some (endpoint_to_wire d)" "\<lambda>w. endpoint_required w p f" endpoint_valid for p f
  by unfold_locales (rule endpoint_iff)

end
