(* ===== verification/Ag_Process.thy ===== *)
theory Ag_Process
  imports Sch_Objects Ag_Recent "HOL-Library.Product_Lexorder"
begin

text \<open>
  The process cache (\<open>crates/atlas-agent/src/process.rs\<close>). Entries are keyed by start key; an
  index gives the keys of each PID in the order they were launched. The two hash maps are
  association lists, the \<open>Cell\<close>s fields of the state, so a lookup returns the cache it leaves.
  The lemmas keep the index exact (\<open>pc_idx\<close>) and give each operation as its effect on the map of
  entries and on the keys of a PID; the properties then speak of lookups alone.
\<close>

unbundle bit_operations_syntax

section \<open>Identity\<close>

definition start_key :: "u16 \<Rightarrow> u64 \<Rightarrow> u64" where
  "start_key boot_id sequence =
     (push_bit 48 (ucast boot_id)) OR (sequence AND (push_bit 48 1 - 1))"

definition integrity_of_rid :: "u32 \<Rightarrow> integrity option" where
  "integrity_of_rid rid =
     (if rid = 0 then Some Untrusted
      else if rid = 4096 then Some Low
      else if rid = 8192 \<or> rid = 8448 then Some Medium
      else if rid = 12288 then Some High
      else if rid = 16384 then Some System
      else if rid = 20480 \<or> rid = 28672 then Some Protected
      else None)"

text \<open>\<open>rsplit('\\').next()\<close>: what follows the last backslash.\<close>

definition path_file_name :: "rstr \<Rightarrow> rstr" where
  "path_file_name path = rev (takeWhile (\<lambda>b. b \<noteq> 92) (rev path))"

record identity =
  id_device :: uid16
  id_boot :: uid16
  kernel_boot_id :: u16

definition identity_uid :: "(bytes \<Rightarrow> bytes) \<Rightarrow> identity \<Rightarrow> u64 \<Rightarrow> uid16" where
  "identity_uid blake3 i key = process_uid blake3 (id_device i) (id_boot i) (unat key)"

definition empty_file :: file_obj where
  "empty_file = \<lparr>file_path = [], file_name = [], file_hashes = None, file_signature = None\<rparr>"

definition bare_ref :: "(bytes \<Rightarrow> bytes) \<Rightarrow> identity \<Rightarrow> u64 \<Rightarrow> u32 \<Rightarrow> process_ref" where
  "bare_ref blake3 i key pid =
     \<lparr>ref_uid = identity_uid blake3 i key, ref_pid = pid, ref_file = empty_file, ref_user = None\<rparr>"

record proc_info =
  pi_key :: u64
  pi_pid :: u32
  pi_path :: rstr
  pi_user :: "user option"
  pi_cmd_line :: "rstr option"
  pi_created_time :: "int option"
  pi_integrity :: "integrity option"
  pi_parent :: "process_ref option"

definition proc_info_new :: "u64 \<Rightarrow> u32 \<Rightarrow> proc_info" where
  "proc_info_new key pid =
     \<lparr>pi_key = key, pi_pid = pid, pi_path = [], pi_user = None, pi_cmd_line = None,
      pi_created_time = None, pi_integrity = None, pi_parent = None\<rparr>"

definition to_ref :: "(bytes \<Rightarrow> bytes) \<Rightarrow> identity \<Rightarrow> proc_info \<Rightarrow> process_ref" where
  "to_ref blake3 i p =
     \<lparr>ref_uid = identity_uid blake3 i (pi_key p), ref_pid = pi_pid p,
      ref_file = \<lparr>file_path = pi_path p, file_name = path_file_name (pi_path p),
                  file_hashes = None, file_signature = None\<rparr>,
      ref_user = pi_user p\<rparr>"

section \<open>The cache\<close>

record proc_entry =
  pe_info :: proc_info
  pe_start :: int
  pe_end :: "int option"
  pe_touched :: nat

record proc_cache =
  by_key :: "(u64 \<times> proc_entry) list"
  by_pid :: "(u32 \<times> u64 list) list"
  retention :: int
  pc_cap :: nat
  pc_evictions :: nat
  pc_clock :: nat

definition pc_new :: "int \<Rightarrow> nat \<Rightarrow> proc_cache" where
  "pc_new retention_ticks cap =
     \<lparr>by_key = [], by_pid = [], retention = retention_ticks, pc_cap = cap, pc_evictions = 0, pc_clock = 0\<rparr>"

definition pc_tick :: "proc_cache \<Rightarrow> nat \<times> proc_cache" where
  "pc_tick c = (let c = c\<lparr>pc_clock := pc_clock c + 1\<rparr> in (pc_clock c, c))"

definition pc_remove :: "u64 \<Rightarrow> proc_cache \<Rightarrow> proc_cache" where
  "pc_remove key c = (case map_of (by_key c) key of
     None \<Rightarrow> c
   | Some e \<Rightarrow>
       (let c = c\<lparr>by_key := AList.delete key (by_key c)\<rparr>; pid = pi_pid (pe_info e) in
        case map_of (by_pid c) pid of
          None \<Rightarrow> c
        | Some keys \<Rightarrow>
            (let keys = filter (\<lambda>k. k \<noteq> key) keys in
             if keys = [] then c\<lparr>by_pid := AList.delete pid (by_pid c)\<rparr>
             else c\<lparr>by_pid := AList.update pid keys (by_pid c)\<rparr>)))"

definition pc_age :: "proc_entry \<Rightarrow> bool \<times> int \<times> nat" where
  "pc_age e = (pe_end e = None, case pe_end e of None \<Rightarrow> 0 | Some t \<Rightarrow> t, pe_touched e)"

definition pc_evict_one :: "u64 \<Rightarrow> proc_cache \<Rightarrow> proc_cache" where
  "pc_evict_one k c = (let c = pc_remove k c in c\<lparr>pc_evictions := pc_evictions c + 1\<rparr>)"

definition pc_evict_batch :: "proc_cache \<Rightarrow> proc_cache" where
  "pc_evict_batch c =
     fold pc_evict_one
       (oldest (map (\<lambda>(k, e). (k, pc_age e)) (by_key c)) (length (by_key c))) c"

definition pc_insert :: "proc_info \<Rightarrow> int \<Rightarrow> proc_cache \<Rightarrow> proc_cache" where
  "pc_insert info start c =
     (let key = pi_key info; pid = pi_pid info in
      case map_of (by_key c) key of
        Some e \<Rightarrow>
          c\<lparr>by_key := AList.update key (e\<lparr>pe_info := info, pe_start := min (pe_start e) start\<rparr>) (by_key c)\<rparr>
      | None \<Rightarrow>
          (let (touched, c) = pc_tick c;
               c = c\<lparr>by_key := AList.update key
                      \<lparr>pe_info = info, pe_start = start, pe_end = None, pe_touched = touched\<rparr> (by_key c)\<rparr>;
               keys = (case map_of (by_pid c) pid of None \<Rightarrow> [] | Some ks \<Rightarrow> ks);
               c = c\<lparr>by_pid := AList.update pid (keys @ [key]) (by_pid c)\<rparr>
           in if length (by_key c) > pc_cap c then pc_evict_batch c else c))"

definition pc_get :: "u64 \<Rightarrow> proc_cache \<Rightarrow> proc_info option" where
  "pc_get key c = map_option pe_info (map_of (by_key c) key)"

text \<open>\<open>get_mut\<close> with what its caller does to the entry.\<close>

definition pc_get_mut :: "u64 \<Rightarrow> (proc_info \<Rightarrow> proc_info) \<Rightarrow> proc_cache \<Rightarrow> proc_cache" where
  "pc_get_mut key f c = (case map_of (by_key c) key of
     None \<Rightarrow> c
   | Some e \<Rightarrow> c\<lparr>by_key := AList.update key (e\<lparr>pe_info := f (pe_info e)\<rparr>) (by_key c)\<rparr>)"

definition pc_end :: "u64 \<Rightarrow> int \<Rightarrow> proc_cache \<Rightarrow> proc_cache" where
  "pc_end key ts c = (case map_of (by_key c) key of
     None \<Rightarrow> c
   | Some e \<Rightarrow> c\<lparr>by_key := AList.update key (e\<lparr>pe_end := Some ts\<rparr>) (by_key c)\<rparr>)"

text \<open>\<open>max_by_key\<close> gives the last of several maxima.\<close>

definition latest_start :: "(u64 \<times> proc_entry) list \<Rightarrow> (u64 \<times> proc_entry) option" where
  "latest_start es = foldl (\<lambda>m e. case m of
     None \<Rightarrow> Some e
   | Some m \<Rightarrow> if pe_start (snd m) \<le> pe_start (snd e) then Some e else Some m) None es"

definition pc_retained :: "proc_cache \<Rightarrow> int \<Rightarrow> proc_entry \<Rightarrow> bool" where
  "pc_retained c ts e \<longleftrightarrow> is_none_or (pe_end e) (\<lambda>t. ts \<le> sat_add t (retention c))"

definition pc_candidates :: "u64 list \<Rightarrow> int \<Rightarrow> proc_cache \<Rightarrow> (u64 \<times> proc_entry) list" where
  "pc_candidates keys ts c = filter (\<lambda>(k, e). pe_start e \<le> ts)
     (List.map_filter (\<lambda>k. map_option (Pair k) (map_of (by_key c) k)) keys)"

definition pc_lookup_at :: "u32 \<Rightarrow> int \<Rightarrow> proc_cache \<Rightarrow> proc_info option \<times> proc_cache" where
  "pc_lookup_at pid ts c = (case map_of (by_pid c) pid of
     None \<Rightarrow> (None, c)
   | Some keys \<Rightarrow>
       (case latest_start (pc_candidates keys ts c) of
          None \<Rightarrow> (None, c)
        | Some (k, e) \<Rightarrow>
            (let (touched, c) = pc_tick c;
                 c = c\<lparr>by_key := AList.update k (e\<lparr>pe_touched := touched\<rparr>) (by_key c)\<rparr>
             in (if pc_retained c ts e then Some (pe_info e) else None, c))))"

definition pc_expire :: "int \<Rightarrow> proc_cache \<Rightarrow> proc_cache" where
  "pc_expire now c =
     fold pc_remove
       (map fst (filter (\<lambda>(k, e). is_some_and (pe_end e) (\<lambda>t. sat_add t (retention c) < now)) (by_key c))) c"

definition pc_len :: "proc_cache \<Rightarrow> nat" where
  "pc_len c = length (by_key c)"

section \<open>The index\<close>

definition keys_of :: "proc_cache \<Rightarrow> u32 \<Rightarrow> u64 list" where
  "keys_of c pid = (case map_of (by_pid c) pid of None \<Rightarrow> [] | Some ks \<Rightarrow> ks)"

abbreviation entry_of :: "proc_cache \<Rightarrow> u64 \<Rightarrow> proc_entry option" where
  "entry_of c \<equiv> map_of (by_key c)"

abbreviation pid_of :: "proc_entry \<Rightarrow> u32" where
  "pid_of e \<equiv> pi_pid (pe_info e)"

definition pc_idx :: "proc_cache \<Rightarrow> bool" where
  "pc_idx c \<longleftrightarrow> distinct (map fst (by_key c)) \<and>
     (\<forall>k e. entry_of c k = Some e \<longrightarrow> pi_key (pe_info e) = k \<and> pe_touched e \<le> pc_clock c) \<and>
     (\<forall>p. map_of (by_pid c) p \<noteq> Some [] \<and> distinct (keys_of c p)) \<and>
     (\<forall>p k. k \<in> set (keys_of c p) \<longleftrightarrow> (\<exists>e. entry_of c k = Some e \<and> pid_of e = p))"

text \<open>The invariant of the cache between calls.\<close>

definition pc_inv :: "proc_cache \<Rightarrow> bool" where
  "pc_inv c \<longleftrightarrow> pc_idx c \<and> length (by_key c) \<le> pc_cap c"

lemma pc_idx_key: "pc_idx c \<Longrightarrow> entry_of c k = Some e \<Longrightarrow> pi_key (pe_info e) = k"
  and pc_idx_touched: "pc_idx c \<Longrightarrow> entry_of c k = Some e \<Longrightarrow> pe_touched e \<le> pc_clock c"
  and pc_idx_keys: "pc_idx c \<Longrightarrow> k \<in> set (keys_of c p) \<longleftrightarrow> (\<exists>e. entry_of c k = Some e \<and> pid_of e = p)"
  and pc_idx_distinct: "pc_idx c \<Longrightarrow> distinct (map fst (by_key c))"
  by (simp_all add: pc_idx_def)

lemma pc_remove_fields [simp]:
  "retention (pc_remove k c) = retention c" "pc_cap (pc_remove k c) = pc_cap c"
  "pc_clock (pc_remove k c) = pc_clock c" "pc_evictions (pc_remove k c) = pc_evictions c"
  by (auto simp: pc_remove_def Let_def split: option.splits)

lemma pc_remove_entries: "by_key (pc_remove k c) = AList.delete k (by_key c)"
proof (cases "entry_of c k")
  case None
  then have "AList.delete k (by_key c) = by_key c" by (simp add: delete_id map_of_eq_None_iff)
  with None show ?thesis by (simp add: pc_remove_def)
qed (auto simp: pc_remove_def Let_def split: option.splits)

lemma entry_of_remove: "entry_of (pc_remove k c) = (entry_of c)(k := None)"
  by (simp add: pc_remove_entries delete_conv')

lemma keys_of_remove:
  assumes "pc_idx c"
  shows "keys_of (pc_remove k c) p = filter (\<lambda>j. j \<noteq> k) (keys_of c p)"
proof (cases "entry_of c k")
  case None
  then have "k \<notin> set (keys_of c p)" using pc_idx_keys [OF assms] by simp
  then have "filter (\<lambda>j. j \<noteq> k) (keys_of c p) = keys_of c p" by (auto simp: filter_id_conv)
  then show ?thesis using None by (simp add: pc_remove_def)
next
  case (Some e)
  have i: "j \<in> set (keys_of c q) \<longleftrightarrow> (\<exists>e. entry_of c j = Some e \<and> pid_of e = q)" for j q
    using assms by (rule pc_idx_keys)
  show ?thesis
  proof (cases "p = pid_of e")
    case True
    then have "k \<in> set (keys_of c p)" using i Some by simp
    then obtain ks where ks: "map_of (by_pid c) p = Some ks" by (cases "map_of (by_pid c) p") (simp_all add: keys_of_def)
    show ?thesis using Some True ks
      by (simp add: pc_remove_def Let_def keys_of_def delete_conv' update_conv')
  next
    case False
    then have "k \<notin> set (keys_of c p)" using i Some by simp
    then have "filter (\<lambda>j. j \<noteq> k) (keys_of c p) = keys_of c p" by (auto simp: filter_id_conv)
    then show ?thesis using Some False
      by (auto simp: pc_remove_def Let_def keys_of_def delete_conv' update_conv' split: option.splits)
  qed
qed

lemma by_pid_remove:
  assumes "pc_idx c"
  shows "map_of (by_pid (pc_remove k c)) p \<noteq> Some []"
  using assms by (auto simp: pc_idx_def pc_remove_def Let_def delete_conv' update_conv' split: option.splits)

lemma pc_idx_remove: "pc_idx c \<Longrightarrow> pc_idx (pc_remove k c)"
  using keys_of_remove [of c k] by_pid_remove [of c k]
  by (auto simp: pc_idx_def pc_remove_entries distinct_delete delete_conv' split: if_splits)

lemma pc_evictions_idx [simp]: "pc_idx (c\<lparr>pc_evictions := n\<rparr>) = pc_idx c"
  by (simp add: pc_idx_def keys_of_def)

lemma keys_of_evictions [simp]: "keys_of (c\<lparr>pc_evictions := n\<rparr>) p = keys_of c p"
  by (simp add: keys_of_def)

text \<open>Any number of removals, counted or not.\<close>

lemma fold_remove:
  assumes "pc_idx c" and f: "\<And>k c. f k c = pc_remove k c \<or> (\<exists>n. f k c = (pc_remove k c)\<lparr>pc_evictions := n\<rparr>)"
  shows "pc_idx (fold f ks c) \<and> by_key (fold f ks c) = filter (\<lambda>(k, e). k \<notin> set ks) (by_key c) \<and>
    keys_of (fold f ks c) p = filter (\<lambda>k. k \<notin> set ks) (keys_of c p) \<and>
    retention (fold f ks c) = retention c \<and> pc_cap (fold f ks c) = pc_cap c \<and> pc_clock (fold f ks c) = pc_clock c"
  using assms(1)
proof (induction ks arbitrary: c)
  case Nil
  show ?case using Nil by (simp add: case_prod_unfold)
next
  case (Cons k ks)
  have r: "pc_idx (f k c)" "by_key (f k c) = AList.delete k (by_key c)"
    "keys_of (f k c) p = filter (\<lambda>j. j \<noteq> k) (keys_of c p)" "retention (f k c) = retention c"
    "pc_cap (f k c) = pc_cap c" "pc_clock (f k c) = pc_clock c"
    using f [of k c] Cons.prems by (auto simp: pc_idx_remove pc_remove_entries keys_of_remove)
  show ?case
    using Cons.IH [OF r(1)] r(2-6)
    by (auto simp: AList.delete_eq filter_filter conj_commute intro!: filter_cong)
qed

lemma entry_of_filter: "map_of (filter (\<lambda>(k, e). k \<notin> K) xs) = (map_of xs) |` (- K)"
proof
  fix x
  show "map_of (filter (\<lambda>(k, e). k \<notin> K) xs) x = ((map_of xs) |` (- K)) x"
    by (induction xs) (auto simp: restrict_map_def)
qed

section \<open>Lookups\<close>

lemma latest_start_snoc: "latest_start (es @ [e]) = (case latest_start es of None \<Rightarrow> Some e
    | Some m \<Rightarrow> if pe_start (snd m) \<le> pe_start (snd e) then Some e else Some m)"
  by (simp add: latest_start_def)

lemma latest_start_Nil [simp]: "latest_start [] = None"
  by (simp add: latest_start_def)

lemma latest_start_single [simp]: "latest_start [e] = Some e"
  by (simp add: latest_start_def)

lemma latest_start_None: "latest_start es = None \<longleftrightarrow> es = []"
  by (induction es rule: rev_induct) (auto simp: latest_start_snoc split: option.splits)

lemma latest_start_Some:
  "latest_start es = Some m \<Longrightarrow> m \<in> set es \<and> (\<forall>e \<in> set es. pe_start (snd e) \<le> pe_start (snd m))"
proof (induction es arbitrary: m rule: rev_induct)
  case (snoc e es)
  then show ?case
    by (cases "latest_start es") (fastforce simp: latest_start_snoc latest_start_None split: if_splits)+
qed simp

lemma latest_start_last:
  "(\<And>e. e \<in> set es \<Longrightarrow> pe_start (snd e) \<le> pe_start (snd m)) \<Longrightarrow> latest_start (es @ [m]) = Some m"
  using latest_start_Some [of es] by (auto simp: latest_start_snoc split: option.splits)

lemma latest_start_filter: "latest_start es = Some m \<Longrightarrow> P m \<Longrightarrow> latest_start (filter P es) = Some m"
proof (induction es arbitrary: m rule: rev_induct)
  case (snoc e es)
  show ?case
  proof (cases "latest_start es")
    case None
    then show ?thesis using snoc.prems by (simp add: latest_start_None latest_start_snoc)
  next
    case (Some n)
    show ?thesis
    proof (cases "pe_start (snd n) \<le> pe_start (snd e)")
      case True
      then have m: "m = e" using snoc.prems(1) Some by (simp add: latest_start_snoc)
      have "latest_start (filter P es @ [e]) = Some e"
        using latest_start_Some [OF Some] True by (intro latest_start_last) fastforce
      then show ?thesis using snoc.prems(2) m by simp
    next
      case False
      then have "m = n" using snoc.prems(1) Some by (simp add: latest_start_snoc)
      then show ?thesis using snoc.IH [OF Some] snoc.prems(2) False by (simp add: latest_start_snoc)
    qed
  qed
qed simp

lemma candidates_iff:
  assumes "pc_idx c"
  shows "(k, e) \<in> set (pc_candidates (keys_of c p) ts c) \<longleftrightarrow>
    entry_of c k = Some e \<and> pid_of e = p \<and> pe_start e \<le> ts"
  using pc_idx_keys [OF assms] by (fastforce simp: pc_candidates_def List.map_filter_def image_iff)

lemma lookup_keys_of:
  "pc_lookup_at pid ts c = (case latest_start (pc_candidates (keys_of c pid) ts c) of
     None \<Rightarrow> (None, c)
   | Some (k, e) \<Rightarrow>
       (if pc_retained c ts e then Some (pe_info e) else None,
        c\<lparr>pc_clock := pc_clock c + 1,
          by_key := AList.update k (e\<lparr>pe_touched := pc_clock c + 1\<rparr>) (by_key c)\<rparr>))"
  by (auto simp: pc_lookup_at_def keys_of_def pc_candidates_def List.map_filter_def pc_tick_def Let_def
      pc_retained_def split: option.splits)

text \<open>An entry replaced by one of the same key and PID leaves the index exact.\<close>

lemma pc_idx_replace:
  assumes "pc_idx c" "entry_of c k = Some e" "pi_key (pe_info e') = k" "pid_of e' = pid_of e"
    "pe_touched e' \<le> t" "pc_clock c \<le> t"
  shows "pc_idx (c\<lparr>pc_clock := t, by_key := AList.update k e' (by_key c)\<rparr>)"
proof -
  let ?c = "c\<lparr>pc_clock := t, by_key := AList.update k e' (by_key c)\<rparr>"
  have e: "entry_of ?c = (entry_of c)(k \<mapsto> e')" by (simp add: update_conv')
  have ks: "keys_of ?c p = keys_of c p" for p by (simp add: keys_of_def)
  have "k' \<in> set (keys_of ?c p) \<longleftrightarrow> (\<exists>e. entry_of ?c k' = Some e \<and> pid_of e = p)" for k' p
    using pc_idx_keys [OF assms(1), of k' p] assms(2,4) unfolding ks e by auto
  moreover have "pi_key (pe_info x) = j \<and> pe_touched x \<le> t" if "entry_of ?c j = Some x" for j x
    using that pc_idx_key [OF assms(1), of j x] pc_idx_touched [OF assms(1), of j x] assms(3,5,6)
    unfolding e by (auto split: if_splits)
  moreover have "distinct (map fst (by_key ?c))"
    using pc_idx_distinct [OF assms(1)] by (simp add: distinct_update)
  ultimately show ?thesis using assms(1) unfolding pc_idx_def ks by auto
qed

lemma length_update_known: "map_of xs k = Some v \<Longrightarrow> length (AList.update k w xs) = length xs"
  by (induction xs) auto

lemma length_update_new: "map_of xs k = None \<Longrightarrow> length (AList.update k w xs) = Suc (length xs)"
  by (induction xs) (auto split: if_splits)

lemma pc_inv_replace:
  assumes "pc_inv c" "entry_of c k = Some e" "pi_key (pe_info e') = k" "pid_of e' = pid_of e"
    "pe_touched e' \<le> t" "pc_clock c \<le> t"
  shows "pc_inv (c\<lparr>pc_clock := t, by_key := AList.update k e' (by_key c)\<rparr>)"
  using pc_idx_replace [OF _ assms(2-6)] assms(1) length_update_known [OF assms(2)] by (simp add: pc_inv_def)

section \<open>Insertion\<close>

definition pc_new_entry :: "proc_info \<Rightarrow> int \<Rightarrow> proc_cache \<Rightarrow> proc_entry" where
  "pc_new_entry info start c = \<lparr>pe_info = info, pe_start = start, pe_end = None, pe_touched = pc_clock c + 1\<rparr>"

definition pc_added :: "proc_info \<Rightarrow> int \<Rightarrow> proc_cache \<Rightarrow> proc_cache" where
  "pc_added info start c =
     c\<lparr>pc_clock := pc_clock c + 1,
       by_key := AList.update (pi_key info) (pc_new_entry info start c) (by_key c),
       by_pid := AList.update (pi_pid info) (keys_of c (pi_pid info) @ [pi_key info]) (by_pid c)\<rparr>"

definition victims :: "proc_cache \<Rightarrow> u64 list" where
  "victims c = oldest (map (\<lambda>(k, e). (k, pc_age e)) (by_key c)) (length (by_key c))"

lemma pc_insert_new:
  "entry_of c (pi_key info) = None \<Longrightarrow>
   pc_insert info start c = (if length (by_key c) + 1 > pc_cap c then pc_evict_batch (pc_added info start c)
     else pc_added info start c)"
  by (simp add: pc_insert_def pc_tick_def Let_def pc_added_def pc_new_entry_def keys_of_def
      length_update_new)

lemma pc_added_effect:
  assumes i: "pc_idx c" and new: "entry_of c (pi_key info) = None"
  shows "pc_idx (pc_added info start c)"
    "entry_of (pc_added info start c) = (entry_of c)(pi_key info \<mapsto> pc_new_entry info start c)"
    "keys_of (pc_added info start c) p =
       (if p = pi_pid info then keys_of c p @ [pi_key info] else keys_of c p)"
    "length (by_key (pc_added info start c)) = length (by_key c) + 1"
proof -
  let ?c = "pc_added info start c"
  show e: "entry_of ?c = (entry_of c)(pi_key info \<mapsto> pc_new_entry info start c)"
    by (simp add: pc_added_def update_conv')
  have ks: "keys_of ?c p = (if p = pi_pid info then keys_of c p @ [pi_key info] else keys_of c p)" for p
    by (simp add: pc_added_def keys_of_def update_conv')
  then show "keys_of ?c p = (if p = pi_pid info then keys_of c p @ [pi_key info] else keys_of c p)" .
  show "length (by_key ?c) = length (by_key c) + 1"
    using new by (simp add: pc_added_def length_update_new)
  have nk: "pi_key info \<notin> set (keys_of c p)" for p using pc_idx_keys [OF i] new by simp
  have "k \<in> set (keys_of ?c p) \<longleftrightarrow> (\<exists>e. entry_of ?c k = Some e \<and> pid_of e = p)" for k p
    using pc_idx_keys [OF i, of k p] new unfolding ks e by (auto simp: pc_new_entry_def)
  moreover have "map_of (by_pid ?c) p \<noteq> Some []" "distinct (keys_of ?c p)" for p
    using i nk [of p] unfolding ks by (auto simp: pc_added_def update_conv' pc_idx_def)
  moreover have "pi_key (pe_info x) = j \<and> pe_touched x \<le> pc_clock ?c" if "entry_of ?c j = Some x" for j x
    using that pc_idx_key [OF i, of j x] pc_idx_touched [OF i, of j x]
    unfolding e by (auto simp: pc_added_def pc_new_entry_def split: if_splits)
  moreover have "distinct (map fst (by_key ?c))"
    using pc_idx_distinct [OF i] by (simp add: pc_added_def distinct_update)
  ultimately show "pc_idx ?c" unfolding pc_idx_def by blast
qed

lemma pc_evict_one_remove:
  "pc_evict_one k c = pc_remove k c \<or> (\<exists>n. pc_evict_one k c = (pc_remove k c)\<lparr>pc_evictions := n\<rparr>)"
  by (auto simp: pc_evict_one_def Let_def)

lemma pc_evict_effect:
  assumes "pc_idx c"
  shows "pc_idx (pc_evict_batch c)"
    "entry_of (pc_evict_batch c) = entry_of c |` (- set (victims c))"
    "keys_of (pc_evict_batch c) p = filter (\<lambda>k. k \<notin> set (victims c)) (keys_of c p)"
    "pc_cap (pc_evict_batch c) = pc_cap c" "retention (pc_evict_batch c) = retention c"
    "by_key c \<noteq> [] \<Longrightarrow> length (by_key (pc_evict_batch c)) < length (by_key c)"
proof -
  note f = fold_remove [OF assms, of pc_evict_one "victims c" p, OF pc_evict_one_remove]
  have e: "by_key (pc_evict_batch c) = filter (\<lambda>(k, e). k \<notin> set (victims c)) (by_key c)"
    using f by (simp add: pc_evict_batch_def victims_def)
  then show "entry_of (pc_evict_batch c) = entry_of c |` (- set (victims c))"
    by (simp add: entry_of_filter)
  have "length (by_key (pc_evict_batch c)) = length (by_key c) - min (max (length (by_key c) div 8) 1) (length (by_key c))"
    unfolding e victims_def by (rule oldest_remaining [OF pc_idx_distinct [OF assms]])
  then show "by_key c \<noteq> [] \<Longrightarrow> length (by_key (pc_evict_batch c)) < length (by_key c)"
    by (cases "by_key c") (auto simp: max_def)
qed (use fold_remove [OF assms, of pc_evict_one "victims c" p, OF pc_evict_one_remove] in \<open>auto simp: pc_evict_batch_def victims_def\<close>)

lemma victims_older:
  assumes "pc_idx c" "k \<in> set (victims c)" "entry_of c k = Some e" "k' \<notin> set (victims c)" "entry_of c k' = Some e'"
  shows "pc_age e \<le> pc_age e'"
proof -
  have d: "distinct (map fst (map (\<lambda>(k, e). (k, pc_age e)) (by_key c)))"
    using pc_idx_distinct [OF assms(1)] by (simp add: case_prod_unfold comp_def)
  have "(k, pc_age e) \<in> set (map (\<lambda>(k, e). (k, pc_age e)) (by_key c))"
    "(k', pc_age e') \<in> set (map (\<lambda>(k, e). (k, pc_age e)) (by_key c))"
    using assms(3,5) by (force dest!: map_of_SomeD)+
  then show ?thesis using oldest_ages [OF d] assms(2,4) unfolding victims_def by blast
qed

text \<open>The entry just added is never evicted to make room for itself.\<close>

lemma added_survives:
  assumes i: "pc_idx c" and new: "entry_of c (pi_key info) = None" and c: "by_key c \<noteq> []"
  shows "pi_key info \<notin> set (victims (pc_added info start c))"
proof -
  let ?c = "pc_added info start c" and ?n = "pc_new_entry info start c"
  let ?es = "map (\<lambda>(k, e). (k, pc_age e)) (by_key ?c)"
  note a = pc_added_effect [OF i new, of start]
  have d: "distinct (map fst ?es)"
    using pc_idx_distinct [OF a(1)] by (simp add: case_prod_unfold comp_def)
  have m: "(pi_key info, pc_age ?n) \<in> set ?es"
    using map_of_SomeD [of "by_key ?c" "pi_key info" ?n] a(2) by force
  have l: "2 \<le> length ?es" using c a(4) by (cases "by_key c") auto
  have "b < pc_age ?n" if b: "(k', b) \<in> set ?es" "k' \<noteq> pi_key info" for k' b
  proof -
    obtain x where x: "(k', x) \<in> set (by_key ?c)" "b = pc_age x" using b(1) by auto
    then have "entry_of ?c k' = Some x" using pc_idx_distinct [OF a(1)] by simp
    then have "entry_of c k' = Some x" using a(2) b(2) by (simp split: if_splits)
    then have "pe_touched x \<le> pc_clock c" by (rule pc_idx_touched [OF i])
    then show ?thesis unfolding x(2) by (auto simp: pc_age_def pc_new_entry_def less_prod_def)
  qed
  then show ?thesis unfolding victims_def using oldest_not_newest [OF d m l] by simp
qed

text \<open>What an insertion of an unknown start key leaves, evicting or not.\<close>

lemma pc_insert_effect:
  assumes inv: "pc_inv c" and new: "entry_of c (pi_key info) = None" and cap: "1 \<le> pc_cap c"
  obtains V where "pi_key info \<notin> V" "V \<noteq> {} \<longrightarrow> length (by_key c) = pc_cap c"
    "entry_of (pc_insert info start c) = ((entry_of c)(pi_key info \<mapsto> pc_new_entry info start c)) |` (- V)"
    "\<And>p. keys_of (pc_insert info start c) p =
       filter (\<lambda>k. k \<notin> V) (if p = pi_pid info then keys_of c p @ [pi_key info] else keys_of c p)"
    "\<And>k e k' e'. k \<in> V \<Longrightarrow> entry_of c k = Some e \<Longrightarrow> k' \<notin> V \<Longrightarrow> entry_of c k' = Some e' \<Longrightarrow> pc_age e \<le> pc_age e'"
    "pc_inv (pc_insert info start c)" "retention (pc_insert info start c) = retention c"
proof -
  have i: "pc_idx c" and l: "length (by_key c) \<le> pc_cap c" using inv by (simp_all add: pc_inv_def)
  let ?c = "pc_added info start c"
  note a = pc_added_effect [OF i new, of start]
  have f: "pc_cap ?c = pc_cap c" "retention ?c = retention c" by (simp_all add: pc_added_def)
  show thesis
  proof (cases "length (by_key c) + 1 > pc_cap c")
    case False
    then have r: "pc_insert info start c = ?c" by (simp add: pc_insert_new [OF new])
    have u: "m |` (- {}) = m" for m :: "u64 \<Rightarrow> proc_entry option" by (auto simp: restrict_map_def)
    show thesis
      by (rule that [of "{}", unfolded u r]) (use a False f in \<open>auto simp: pc_inv_def\<close>)
  next
    case True
    then have r: "pc_insert info start c = pc_evict_batch ?c" by (simp add: pc_insert_new [OF new])
    have n: "by_key c \<noteq> []" "by_key ?c \<noteq> []" using True cap a(4) by auto
    note e = pc_evict_effect [OF a(1)]
    show thesis
    proof (rule that [of "set (victims ?c)", unfolded r])
      show "pi_key info \<notin> set (victims ?c)" by (rule added_survives [OF i new n(1)])
      show "pc_age x \<le> pc_age x'"
        if "k \<in> set (victims ?c)" "entry_of c k = Some x" "k' \<notin> set (victims ?c)" "entry_of c k' = Some x'" for k x k' x'
      proof (rule victims_older [OF a(1) that(1) _ that(3)])
        show "entry_of ?c k = Some x" "entry_of ?c k' = Some x'" using that(2,4) new a(2) by auto
      qed
      show "pc_inv (pc_evict_batch ?c)" using e(1,4) e(6) [OF n(2)] a(4) l f(1) by (simp add: pc_inv_def)
    qed (use e a f True l in auto)
  qed
qed

lemma pc_insert_known:
  "entry_of c (pi_key info) = Some e \<Longrightarrow> pc_insert info start c =
   c\<lparr>pc_clock := pc_clock c, by_key := AList.update (pi_key info)
      (e\<lparr>pe_info := info, pe_start := min (pe_start e) start\<rparr>) (by_key c)\<rparr>"
  by (simp add: pc_insert_def)

section \<open>Expiry\<close>

lemma pc_expire_effect:
  fixes c :: proc_cache and now :: int
  assumes i: "pc_idx c"
  defines "G \<equiv> {k. \<exists>e. entry_of c k = Some e \<and> is_some_and (pe_end e) (\<lambda>t. sat_add t (retention c) < now)}"
  shows "pc_idx (pc_expire now c)" "entry_of (pc_expire now c) = entry_of c |` (- G)"
    "keys_of (pc_expire now c) p = filter (\<lambda>k. k \<notin> G) (keys_of c p)"
    "pc_cap (pc_expire now c) = pc_cap c" "retention (pc_expire now c) = retention c"
    "length (by_key (pc_expire now c)) \<le> length (by_key c)"
proof -
  let ?ks = "map fst (filter (\<lambda>(k, e). is_some_and (pe_end e) (\<lambda>t. sat_add t (retention c) < now)) (by_key c))"
  have G: "set ?ks = G"
    unfolding G_def using pc_idx_distinct [OF i] by (force simp: map_of_eq_Some_iff)
  note f = fold_remove [OF i, of pc_remove ?ks p, folded pc_expire_def, unfolded G]
  show "pc_idx (pc_expire now c)" "pc_cap (pc_expire now c) = pc_cap c" "retention (pc_expire now c) = retention c"
    "keys_of (pc_expire now c) p = filter (\<lambda>k. k \<notin> G) (keys_of c p)"
    using f by auto
  have e: "by_key (pc_expire now c) = filter (\<lambda>(k, e). k \<notin> G) (by_key c)" using f by auto
  show "entry_of (pc_expire now c) = entry_of c |` (- G)" "length (by_key (pc_expire now c)) \<le> length (by_key c)"
    by (simp_all add: e entry_of_filter length_filter_le)
qed

lemma candidates_filter:
  assumes "\<And>k. k \<in> set ks \<Longrightarrow> entry_of c' k = (if Q k then entry_of c k else None)"
  shows "pc_candidates (filter Q ks) ts c' = filter (\<lambda>(k, e). Q k) (pc_candidates ks ts c)"
  using assms
proof (induction ks)
  case (Cons k ks)
  then show ?case by (cases "entry_of c k") (simp_all add: pc_candidates_def List.map_filter_def)
qed (simp add: pc_candidates_def List.map_filter_def)

section \<open>Properties\<close>

text \<open>The entries a lookup may choose from: of the PID, started by then, none started later.\<close>

definition is_latest :: "proc_cache \<Rightarrow> u32 \<Rightarrow> int \<Rightarrow> proc_entry \<Rightarrow> bool" where
  "is_latest c pid ts e \<longleftrightarrow> e \<in> ran (entry_of c) \<and> pid_of e = pid \<and> pe_start e \<le> ts \<and>
     (\<forall>e' \<in> ran (entry_of c). pid_of e' = pid \<and> pe_start e' \<le> ts \<longrightarrow> pe_start e' \<le> pe_start e)"

lemma pc_inv_new: "pc_inv (pc_new r n)"
  by (simp add: pc_inv_def pc_idx_def pc_new_def keys_of_def)

lemma pc_inv_insert:
  assumes inv: "pc_inv c" and same: "is_none_or (pc_get (pi_key info) c) (\<lambda>i. pi_pid i = pi_pid info)"
    and cap: "1 \<le> pc_cap c"
  shows "pc_inv (pc_insert info start c)"
proof (cases "entry_of c (pi_key info)")
  case None
  from pc_insert_effect [OF inv this cap] show ?thesis by blast
next
  case (Some e)
  have i: "pc_idx c" using inv by (simp add: pc_inv_def)
  show ?thesis unfolding pc_insert_known [OF Some]
    by (rule pc_inv_replace [OF inv Some])
      (use same Some pc_idx_touched [OF i Some] in \<open>simp_all add: pc_get_def\<close>)
qed

lemma pc_inv_end:
  assumes inv: "pc_inv c"
  shows "pc_inv (pc_end key ts c)"
proof (cases "entry_of c key")
  case (Some e)
  have i: "pc_idx c" using inv by (simp add: pc_inv_def)
  have "pc_end key ts c = c\<lparr>pc_clock := pc_clock c, by_key := AList.update key (e\<lparr>pe_end := Some ts\<rparr>) (by_key c)\<rparr>"
    using Some by (simp add: pc_end_def)
  then show ?thesis
    using pc_inv_replace [OF inv Some, of "e\<lparr>pe_end := Some ts\<rparr>" "pc_clock c"]
      pc_idx_key [OF i Some] pc_idx_touched [OF i Some] by simp
qed (use inv in \<open>simp add: pc_end_def\<close>)

lemma pc_inv_get_mut:
  assumes inv: "pc_inv c" and f: "\<And>i. pi_key (f i) = pi_key i \<and> pi_pid (f i) = pi_pid i"
  shows "pc_inv (pc_get_mut key f c)"
proof (cases "entry_of c key")
  case (Some e)
  have i: "pc_idx c" using inv by (simp add: pc_inv_def)
  have "pc_get_mut key f c = c\<lparr>pc_clock := pc_clock c, by_key := AList.update key (e\<lparr>pe_info := f (pe_info e)\<rparr>) (by_key c)\<rparr>"
    using Some by (simp add: pc_get_mut_def)
  then show ?thesis
    using pc_inv_replace [OF inv Some, of "e\<lparr>pe_info := f (pe_info e)\<rparr>" "pc_clock c"] f
      pc_idx_key [OF i Some] pc_idx_touched [OF i Some] by simp
qed (use inv in \<open>simp add: pc_get_mut_def\<close>)

lemma pc_inv_lookup:
  assumes inv: "pc_inv c"
  shows "pc_inv (snd (pc_lookup_at pid ts c))"
proof (cases "latest_start (pc_candidates (keys_of c pid) ts c)")
  case (Some m)
  obtain k e where m: "m = (k, e)" by fastforce
  have i: "pc_idx c" using inv by (simp add: pc_inv_def)
  then have e: "entry_of c k = Some e" using latest_start_Some [OF Some] candidates_iff m by blast
  show ?thesis
    using pc_inv_replace [OF inv e, of "e\<lparr>pe_touched := pc_clock c + 1\<rparr>" "pc_clock c + 1"] pc_idx_key [OF i e] Some m
    by (simp add: lookup_keys_of)
qed (use inv in \<open>simp add: lookup_keys_of\<close>)

lemma pc_inv_expire: "pc_inv c \<Longrightarrow> pc_inv (pc_expire now c)"
  using pc_expire_effect [of c now] by (auto simp: pc_inv_def)

text \<open>C21: the process cache keeps its invariant: entries under their own start keys, every PID indexed
  by exactly the keys of its processes, never more entries than the cap. Every operation keeps it;
  an insertion under a known start key needs the PID to be that of the entry, because an update
  does not move the key in the index, and a caller of \<open>get_mut\<close> must leave both alone.\<close>

theorem process_cache_invariant:
  assumes "pc_inv c" "1 \<le> pc_cap c"
  shows "pc_inv (pc_end key ts c) \<and> pc_inv (pc_expire ts c) \<and> pc_inv (snd (pc_lookup_at pid ts c)) \<and>
    (is_none_or (pc_get (pi_key info) c) (\<lambda>i. pi_pid i = pi_pid info) \<longrightarrow> pc_inv (pc_insert info start c)) \<and>
    ((\<forall>i. pi_key (f i) = pi_key i \<and> pi_pid (f i) = pi_pid i) \<longrightarrow> pc_inv (pc_get_mut key f c)) \<and>
    pc_len c \<le> pc_cap c"
  using pc_inv_end pc_inv_expire pc_inv_lookup pc_inv_insert pc_inv_get_mut assms
  by (auto simp: pc_len_def pc_inv_def)

theorem process_cache_invariant_witness:
  "pc_inv (pc_insert (proc_info_new 1 100) 5 (pc_new 30 2)) \<and>
   pc_len (pc_insert (proc_info_new 1 100) 5 (pc_new 30 2)) \<le> 2"
proof -
  have c: "1 \<le> pc_cap (pc_new 30 2)" "pc_get (pi_key (proc_info_new 1 100)) (pc_new 30 2) = None"
    by (simp_all add: pc_new_def pc_get_def)
  have i: "pc_inv (pc_insert (proc_info_new 1 100) 5 (pc_new 30 2))"
    using process_cache_invariant [OF pc_inv_new c(1), where info = "proc_info_new 1 100" and start = 5] c(2) by simp
  moreover have k: "pc_cap (pc_insert (proc_info_new 1 100) 5 (pc_new 30 2)) = 2" by code_simp
  ultimately show ?thesis
    using process_cache_invariant [OF i] by simp
qed

text \<open>C22: \<open>lookup_at\<close> answers with a process of the PID started by \<open>ts\<close>, none of them started later,
  and only while that one runs or is retained; it answers \<open>None\<close> only when no process of the PID
  had started, or the one started last had ended more than the retention before. Nothing of an
  entry changes but when it was last looked up.\<close>

theorem lookup_at_outcome:
  assumes "pc_inv c"
  shows "(case fst (pc_lookup_at pid ts c) of
      Some i \<Rightarrow> \<exists>e. is_latest c pid ts e \<and> pc_retained c ts e \<and> i = pe_info e
    | None \<Rightarrow> (\<nexists>e. is_latest c pid ts e) \<or> (\<exists>e. is_latest c pid ts e \<and> \<not> pc_retained c ts e)) \<and>
    ((\<nexists>e. is_latest c pid ts e) \<longleftrightarrow> (\<forall>e \<in> ran (entry_of c). pid_of e = pid \<longrightarrow> ts < pe_start e)) \<and>
    (\<forall>k. map_option (pe_touched_update (\<lambda>_. 0)) (entry_of (snd (pc_lookup_at pid ts c)) k) =
         map_option (pe_touched_update (\<lambda>_. 0)) (entry_of c k))"
proof -
  have i: "pc_idx c" using assms by (simp add: pc_inv_def)
  let ?cs = "pc_candidates (keys_of c pid) ts c"
  note ci = candidates_iff [OF i, of _ _ pid ts]
  show ?thesis
  proof (cases "latest_start ?cs")
    case None
    then have "\<not> (entry_of c k = Some e \<and> pid_of e = pid \<and> pe_start e \<le> ts)" for k e
      using ci [of k e] by (simp add: latest_start_None)
    then show ?thesis using None by (auto simp: lookup_keys_of is_latest_def ran_def not_le)
  next
    case (Some m)
    obtain k e where m: "m = (k, e)" by fastforce
    have e: "entry_of c k = Some e" "pid_of e = pid" "pe_start e \<le> ts"
      using latest_start_Some [OF Some] ci m by auto
    have "pe_start e' \<le> pe_start e" if "entry_of c j = Some e'" "pid_of e' = pid" "pe_start e' \<le> ts" for j e'
      using latest_start_Some [OF Some] ci [of j e'] that m by fastforce
    then have l: "is_latest c pid ts e" using e by (auto simp: is_latest_def ran_def)
    have "fst (pc_lookup_at pid ts c) = (if pc_retained c ts e then Some (pe_info e) else None)"
      using Some m by (simp add: lookup_keys_of)
    moreover have "entry_of (snd (pc_lookup_at pid ts c)) = (entry_of c)(k \<mapsto> e\<lparr>pe_touched := pc_clock c + 1\<rparr>)"
      using Some m by (simp add: lookup_keys_of update_conv')
    moreover have "\<exists>e \<in> ran (entry_of c). pid_of e = pid \<and> pe_start e \<le> ts" using e by (auto simp: ran_def)
    ultimately show ?thesis using l e(1) by (auto simp: not_le)
  qed
qed

theorem lookup_at_outcome_witness:
  "fst (pc_lookup_at 100 9 (pc_insert (proc_info_new 1 100) 5 (pc_new 30 2))) = Some (proc_info_new 1 100) \<and>
   (\<exists>e. is_latest (pc_insert (proc_info_new 1 100) 5 (pc_new 30 2)) 100 9 e \<and> pe_info e = proc_info_new 1 100)"
proof -
  have "pc_inv (pc_insert (proc_info_new 1 100) 5 (pc_new 30 2))"
    by (rule pc_inv_insert [OF pc_inv_new]) (simp_all add: pc_new_def pc_get_def)
  note w = lookup_at_outcome [OF this, of 100 9]
  have "fst (pc_lookup_at 100 9 (pc_insert (proc_info_new 1 100) 5 (pc_new 30 2))) = Some (proc_info_new 1 100)"
    by code_simp
  then show ?thesis using w by auto
qed

text \<open>an insertion. The entry inserted is in the cache afterwards, with the information given and
  the earlier of its starts. Others go only when an unknown key meets a full cache, and then every
  entry evicted is no younger than any kept: ended processes first, the ones that ended longest
  ago before the others, then those not looked up for longest.\<close>

lemma process_insert_outcome:
  assumes inv: "pc_inv c" and cap: "1 \<le> pc_cap c"
  shows "pc_get (pi_key info) (pc_insert info start c) = Some info \<and>
    (\<forall>k. k \<noteq> pi_key info \<longrightarrow> entry_of (pc_insert info start c) k \<in> {entry_of c k, None}) \<and>
    (pc_get (pi_key info) c \<noteq> None \<or> pc_len c < pc_cap c \<longrightarrow>
      (\<forall>k. k \<noteq> pi_key info \<longrightarrow> entry_of (pc_insert info start c) k = entry_of c k)) \<and>
    (\<forall>k e k' e'. entry_of c k = Some e \<and> entry_of (pc_insert info start c) k = None \<and>
      entry_of c k' = Some e' \<and> entry_of (pc_insert info start c) k' \<noteq> None \<longrightarrow> pc_age e \<le> pc_age e')"
proof (cases "entry_of c (pi_key info)")
  case (Some e)
  have "entry_of (pc_insert info start c) =
    (entry_of c)(pi_key info \<mapsto> e\<lparr>pe_info := info, pe_start := min (pe_start e) start\<rparr>)"
    by (simp add: pc_insert_known [OF Some] update_conv')
  then show ?thesis by (auto simp: pc_get_def)
next
  case None
  obtain V where V: "pi_key info \<notin> V" "V \<noteq> {} \<longrightarrow> length (by_key c) = pc_cap c"
    "entry_of (pc_insert info start c) = ((entry_of c)(pi_key info \<mapsto> pc_new_entry info start c)) |` (- V)"
    "\<And>k e k' e'. k \<in> V \<Longrightarrow> entry_of c k = Some e \<Longrightarrow> k' \<notin> V \<Longrightarrow> entry_of c k' = Some e' \<Longrightarrow> pc_age e \<le> pc_age e'"
    by (rule pc_insert_effect [OF inv None cap, of start]) blast
  have e: "entry_of (pc_insert info start c) k =
    (if k \<in> V then None else if k = pi_key info then Some (pc_new_entry info start c) else entry_of c k)" for k
    by (simp add: V(3) restrict_map_def)
  have "pc_age x \<le> pc_age x'"
    if "entry_of c k = Some x" "entry_of (pc_insert info start c) k = None"
      "entry_of c k' = Some x'" "entry_of (pc_insert info start c) k' \<noteq> None" for k x k' x'
    using V(4) [of k x k' x'] that e by (metis option.distinct(1))
  moreover have "pc_get (pi_key info) (pc_insert info start c) = Some info"
    by (simp add: pc_get_def e V(1) pc_new_entry_def)
  moreover have "V = {}" if "pc_get (pi_key info) c \<noteq> None \<or> pc_len c < pc_cap c"
    using that None V(2) by (auto simp: pc_get_def pc_len_def)
  ultimately show ?thesis by (auto simp: e)
qed

lemma process_insert_outcome_witness:
  "pc_get 2 (pc_insert (proc_info_new 2 200) 7 (pc_insert (proc_info_new 1 100) 5 (pc_new 30 1))) = Some (proc_info_new 2 200) \<and>
   pc_get 1 (pc_insert (proc_info_new 2 200) 7 (pc_insert (proc_info_new 1 100) 5 (pc_new 30 1))) = None"
proof -
  let ?c = "pc_insert (proc_info_new 1 100) 5 (pc_new 30 1)"
  have "pc_inv ?c" by (rule pc_inv_insert [OF pc_inv_new]) (simp_all add: pc_new_def pc_get_def)
  moreover have "pc_cap ?c = 1" by code_simp
  ultimately have "pc_get (pi_key (proc_info_new 2 200)) (pc_insert (proc_info_new 2 200) 7 ?c) = Some (proc_info_new 2 200)"
    using process_insert_outcome [of ?c "proc_info_new 2 200" 7] by simp
  moreover have "pc_get 1 (pc_insert (proc_info_new 2 200) 7 ?c) = None" by code_simp
  ultimately show ?thesis by (simp add: proc_info_new_def)
qed

text \<open>C23: the life of a process in the cache. Launched under a start key not seen before and no earlier
  than the others of its PID, it is the answer for its PID at every time from its launch on; once
  its Terminate is recorded, until the retention after it and no longer, whatever the PID named
  before.\<close>

theorem process_lifetime:
  assumes inv: "pc_inv c" and cap: "1 \<le> pc_cap c" and new: "pc_get (pi_key info) c = None"
    and last: "\<forall>e \<in> ran (entry_of c). pid_of e = pi_pid info \<longrightarrow> pe_start e \<le> start"
    and ts: "start \<le> ts"
  shows "fst (pc_lookup_at (pi_pid info) ts (pc_insert info start c)) = Some info \<and>
    fst (pc_lookup_at (pi_pid info) ts (pc_end (pi_key info) te (pc_insert info start c))) =
      (if ts \<le> sat_add te (retention c) then Some info else None)"
proof -
  let ?i = "pc_insert info start c" and ?k = "pi_key info" and ?n = "pc_new_entry info start c"
  have none: "entry_of c ?k = None" using new by (simp add: pc_get_def)
  obtain V where V: "?k \<notin> V"
    "entry_of ?i = ((entry_of c)(?k \<mapsto> ?n)) |` (- V)"
    "\<And>p. keys_of ?i p = filter (\<lambda>k. k \<notin> V) (if p = pi_pid info then keys_of c p @ [?k] else keys_of c p)"
    "pc_inv ?i" "retention ?i = retention c"
    by (rule pc_insert_effect [OF inv none cap, of start]) blast
  have n: "entry_of ?i ?k = Some ?n" using V(1,2) by (simp add: restrict_map_def)
  have latest: "latest_start (pc_candidates (keys_of c' (pi_pid info)) ts c') = Some (?k, x)"
    if c': "\<And>j. j \<noteq> ?k \<Longrightarrow> entry_of c' j = entry_of ?i j" "entry_of c' ?k = Some x" "pe_start x = start"
      "keys_of c' (pi_pid info) = keys_of ?i (pi_pid info)" for c' x
  proof -
    define ks where "ks = filter (\<lambda>k. k \<notin> V) (keys_of c (pi_pid info))"
    have ks: "keys_of c' (pi_pid info) = ks @ [?k]" by (simp add: c'(4) V(3) V(1) ks_def)
    have "pe_start (snd e) \<le> start" if "e \<in> set (pc_candidates ks ts c')" for e
    proof -
      obtain j y where e: "e = (j, y)" by fastforce
      have j: "j \<in> set ks" "entry_of c' j = Some y" using that e by (auto simp: pc_candidates_def List.map_filter_def)
      have i: "pc_idx c" using inv by (simp add: pc_inv_def)
      obtain z where z: "entry_of c j = Some z" "pid_of z = pi_pid info"
        using j(1) pc_idx_keys [OF i] by (auto simp: ks_def)
      then have "j \<noteq> ?k" using none by auto
      then have "y = z" using c'(1) j V(2) z by (auto simp: restrict_map_def split: if_splits)
      then show ?thesis using last z e by (auto simp: ran_def)
    qed
    moreover have "pc_candidates (ks @ [?k]) ts c' = pc_candidates ks ts c' @ [(?k, x)]"
      using c'(2,3) ts by (simp add: pc_candidates_def List.map_filter_def)
    ultimately show ?thesis unfolding ks using latest_start_last [of "pc_candidates ks ts c'" "(?k, x)"] c'(3) by simp
  qed
  have "fst (pc_lookup_at (pi_pid info) ts ?i) = Some info"
    using latest [of ?i ?n] n by (simp add: lookup_keys_of pc_new_entry_def pc_retained_def)
  moreover
  have e: "pc_end ?k te ?i = ?i\<lparr>by_key := AList.update ?k (?n\<lparr>pe_end := Some te\<rparr>) (by_key ?i)\<rparr>"
    using n by (simp add: pc_end_def)
  have "latest_start (pc_candidates (keys_of (pc_end ?k te ?i) (pi_pid info)) ts (pc_end ?k te ?i)) =
      Some (?k, ?n\<lparr>pe_end := Some te\<rparr>)"
    by (rule latest) (simp_all add: e update_conv' keys_of_def pc_new_entry_def)
  then have "fst (pc_lookup_at (pi_pid info) ts (pc_end ?k te ?i)) =
      (if ts \<le> sat_add te (retention c) then Some info else None)"
    using V(5) e by (simp add: lookup_keys_of pc_new_entry_def pc_retained_def)
  ultimately show ?thesis by blast
qed

theorem process_lifetime_witness:
  "fst (pc_lookup_at 100 35 (pc_end 1 10 (pc_insert (proc_info_new 1 100) 5 (pc_new 30 2)))) = Some (proc_info_new 1 100) \<and>
   fst (pc_lookup_at 100 41 (pc_end 1 10 (pc_insert (proc_info_new 1 100) 5 (pc_new 30 2)))) = None"
  using process_lifetime [OF pc_inv_new [of 30 2], where info = "proc_info_new 1 100" and start = 5 and ts = 35 and te = 10]
    process_lifetime [OF pc_inv_new [of 30 2], where info = "proc_info_new 1 100" and start = 5 and ts = 41 and te = 10]
  by (simp add: pc_new_def proc_info_new_def pc_get_def sat_add_def clamp_i64_def)

text \<open>C24: expiry removes exactly the processes that ended more than the retention before \<open>now\<close>, and
  what a lookup at \<open>now\<close> or later found before, it still finds.\<close>

theorem process_expire_outcome:
  assumes inv: "pc_inv c"
  shows "(\<forall>k. entry_of (pc_expire now c) k = (case entry_of c k of None \<Rightarrow> None
      | Some e \<Rightarrow> if is_some_and (pe_end e) (\<lambda>t. sat_add t (retention c) < now) then None else Some e)) \<and>
    (\<forall>i. now \<le> ts \<and> fst (pc_lookup_at pid ts c) = Some i \<longrightarrow>
      fst (pc_lookup_at pid ts (pc_expire now c)) = Some i)"
proof (intro conjI allI impI)
  have i: "pc_idx c" using inv by (simp add: pc_inv_def)
  define G where "G = {k. \<exists>e. entry_of c k = Some e \<and> is_some_and (pe_end e) (\<lambda>t. sat_add t (retention c) < now)}"
  note x = pc_expire_effect [OF i, of now, folded G_def]
  show "entry_of (pc_expire now c) k = (case entry_of c k of None \<Rightarrow> None
      | Some e \<Rightarrow> if is_some_and (pe_end e) (\<lambda>t. sat_add t (retention c) < now) then None else Some e)" for k
    by (auto simp: x(2) restrict_map_def G_def split: option.splits)
  fix info
  assume a: "now \<le> ts \<and> fst (pc_lookup_at pid ts c) = Some info"
  then obtain k e where l: "latest_start (pc_candidates (keys_of c pid) ts c) = Some (k, e)"
    and r: "pc_retained c ts e" "pe_info e = info"
    by (auto simp: lookup_keys_of split: option.splits if_splits)
  have e: "entry_of c k = Some e" using latest_start_Some [OF l] candidates_iff [OF i] by blast
  then have k: "k \<notin> G" using r(1) a by (auto simp: G_def pc_retained_def is_some_and_iff is_none_or_iff)
  have "pc_candidates (keys_of (pc_expire now c) pid) ts (pc_expire now c) =
      filter (\<lambda>(k, e). k \<notin> G) (pc_candidates (keys_of c pid) ts c)"
    unfolding x(3) by (rule candidates_filter) (simp add: x(2) restrict_map_def)
  then have "latest_start (pc_candidates (keys_of (pc_expire now c) pid) ts (pc_expire now c)) = Some (k, e)"
    using latest_start_filter [OF l, of "\<lambda>(k, e). k \<notin> G"] k by simp
  then show "fst (pc_lookup_at pid ts (pc_expire now c)) = Some info"
    using r x(5) by (simp add: lookup_keys_of pc_retained_def)
qed

theorem process_expire_outcome_witness:
  "fst (pc_lookup_at 100 40 (pc_expire 40 (pc_end 1 10 (pc_insert (proc_info_new 1 100) 5 (pc_new 30 2))))) =
   Some (proc_info_new 1 100)"
proof -
  let ?c = "pc_end 1 10 (pc_insert (proc_info_new 1 100) 5 (pc_new 30 2))"
  have "pc_inv ?c"
    by (rule pc_inv_end, rule pc_inv_insert [OF pc_inv_new]) (simp_all add: pc_new_def pc_get_def)
  moreover have "fst (pc_lookup_at 100 40 ?c) = Some (proc_info_new 1 100)" by code_simp
  ultimately show ?thesis using process_expire_outcome [of ?c 40 40 100] by simp
qed

text \<open>
  The other direction fails. When the Terminate of a process was lost and its PID was reused, the
  expiry of the second process uncovers the first: a lookup that answered \<open>None\<close> answers with a
  process that the reuse of its PID shows to be gone.
\<close>

lemma expire_revives:
  "let c = pc_end 2 30 (pc_insert (proc_info_new 2 100) 20 (pc_insert (proc_info_new 1 100) 10 (pc_new 5 8)))
   in fst (pc_lookup_at 100 50 c) = None \<and>
      fst (pc_lookup_at 100 50 (pc_expire 50 c)) = Some (proc_info_new 1 100)"
  by code_simp

text \<open>A start key is the boot's number above 48 bits of sequence: two keys are equal exactly when
  the boots are and the sequences agree modulo \<open>2 ^ 48\<close>.\<close>

theorem start_key_outcome:
  "unat (start_key b s) = unat b * 2 ^ 48 + unat s mod 2 ^ 48 \<and>
   (start_key b s = start_key b' s' \<longleftrightarrow> b = b' \<and> unat s mod 2 ^ 48 = unat s' mod 2 ^ 48)"
proof -
  have m: "(push_bit 48 1 - 1 :: u64) = mask 48" by (simp add: mask_eq_exp_minus_1)
  have k: "unat (start_key b s) = unat b * 2 ^ 48 + unat s mod 2 ^ 48" for b :: u16 and s :: u64
  proof -
    have d: "push_bit 48 (ucast b :: u64) AND (s AND mask 48) = 0"
      by (rule bit_eqI) (auto simp: bit_simps)
    have "start_key b s = push_bit 48 (ucast b) + (s AND mask 48)"
      unfolding start_key_def m using d by (simp add: disjunctive_add_eq_or)
    moreover have "unat (push_bit 48 (ucast b :: u64)) = unat b * 2 ^ 48"
    proof -
      have b: "unat b < 2 ^ 16" using unsigned_less [of b, where ?'a = nat] by simp
      then have "take_bit 64 (push_bit 48 (unat b)) = unat b * 2 ^ 48"
        by (simp add: push_bit_eq_mult take_bit_eq_mod)
      moreover have "unat (push_bit 48 (ucast b :: u64)) = take_bit 64 (push_bit 48 (unat (ucast b :: u64)))"
        by (simp add: unsigned_push_bit_eq)
      moreover have "unat (ucast b :: u64) = unat b" using b by (simp add: unsigned_ucast_eq take_bit_eq_mod)
      ultimately show ?thesis by simp
    qed
    moreover have "unat (s AND mask 48) = unat s mod 2 ^ 48"
      using unsigned_take_bit_eq [of 48 s, where ?'a = nat]
      by (simp only: take_bit_eq_mask [of 48 s] take_bit_eq_mod [of 48 "unat s"])
    moreover have "unat b * 2 ^ 48 + unat s mod 2 ^ 48 < 2 ^ 64"
    proof -
      have "unat b < 2 ^ 16" using unsigned_less [of b, where ?'a = nat] by simp
      then show ?thesis by simp
    qed
    ultimately show ?thesis by (simp add: unat_word_ariths)
  qed
  have "unat (start_key b s) = unat (start_key b' s') \<longleftrightarrow> unat b = unat b' \<and> unat s mod 2 ^ 48 = unat s' mod 2 ^ 48"
  proof -
    have "(x :: nat) * n + r = y * n + t \<longleftrightarrow> x = y \<and> r = t" if "r < n" "t < n" for x y r t n
    proof
      assume e: "x * n + r = y * n + t"
      then have "(x * n + r) div n = (y * n + t) div n" "(x * n + r) mod n = (y * n + t) mod n" by simp_all
      then show "x = y \<and> r = t" using that by simp
    qed simp
    then show ?thesis unfolding k by simp
  qed
  then show ?thesis using k by (simp add: word_unat_eq_iff)
qed

end
