(* ===== verification/Ag_KeyMap.thy ===== *)
theory Ag_KeyMap
  imports Sch_Objects Ag_Recent
begin

text \<open>
  The registry key map (\<open>crates/atlas-agent/src/keymap.rs\<close>): the names of key handles, the
  children that wait for a base to be named, and the tombstones kept for them. \<open>unlink\<close>,
  \<open>drop_if_dead\<close> and \<open>remove\<close> call each other, and not every chain of them ends, so \<open>km_unlink\<close> is
  a partial function and \<open>None\<close> is the overflow of the stack; everything that may call it returns
  an option. The proofs rest on one relation, which entry is below which: its acyclicity ends the
  recursion, and it determines the waiting sets.
\<close>

section \<open>Names\<close>

datatype key_name = Full rstr | Below u64 rstr | Orphan rstr

datatype resolved = RFull rstr | RPartial rstr u64

text \<open>The prefix \<open>\REGISTRY\\<close>.\<close>

definition REGISTRY_PREFIX :: rstr where
  "REGISTRY_PREFIX = [92, 82, 69, 71, 73, 83, 84, 82, 89, 92]"

definition ascii_lower :: "byte \<Rightarrow> byte" where
  "ascii_lower b = (if 65 \<le> b \<and> b \<le> 90 then b + 32 else b)"

definition starts_with_ci :: "rstr \<Rightarrow> rstr \<Rightarrow> bool" where
  "starts_with_ci s prefix \<longleftrightarrow>
     length prefix \<le> length s \<and> char_boundary s (length prefix) \<and>
     map ascii_lower (take (length prefix) s) = map ascii_lower prefix"

definition key_join :: "rstr \<Rightarrow> rstr \<Rightarrow> rstr" where
  "key_join base rel =
     (if rel = [] then base
      else if base \<noteq> [] \<and> List.last base = 92 then base @ rel
      else base @ [92] @ rel)"

text \<open>\<open>[_].join("\\")\<close>.\<close>

fun join_rels :: "rstr list \<Rightarrow> rstr" where
  "join_rels [] = []"
| "join_rels [r] = r"
| "join_rels (r # rs) = r @ [92] @ join_rels rs"

section \<open>The map\<close>

record key_entry =
  ke_name :: key_name
  ke_since :: int
  ke_closed :: "int option"
  ke_touched :: nat

record keymap =
  km_map :: "(u64 \<times> key_entry) list"
  km_waiting :: "(u64 \<times> u64 list) list"
  km_cap :: nat
  km_clock :: nat
  km_evictions :: nat

definition MAX_DEPTH :: nat where "MAX_DEPTH = 64"

definition km_new :: "nat \<Rightarrow> keymap" where
  "km_new cap = \<lparr>km_map = [], km_waiting = [], km_cap = cap, km_clock = 0, km_evictions = 0\<rparr>"

definition km_children :: "keymap \<Rightarrow> u64 \<Rightarrow> u64 list" where
  "km_children m base = (case map_of (km_waiting m) base of None \<Rightarrow> [] | Some c \<Rightarrow> c)"

definition km_wait :: "u64 \<Rightarrow> u64 \<Rightarrow> keymap \<Rightarrow> keymap" where
  "km_wait base key m =
     (let c = km_children m base
      in m\<lparr>km_waiting := AList.update base (if key \<in> set c then c else c @ [key]) (km_waiting m)\<rparr>)"

definition km_unwait :: "u64 \<Rightarrow> u64 \<Rightarrow> keymap \<Rightarrow> keymap" where
  "km_unwait base key m = (case map_of (km_waiting m) base of
     None \<Rightarrow> m
   | Some c \<Rightarrow>
       (let c = filter (\<lambda>k. k \<noteq> key) c in
        if c = [] then m\<lparr>km_waiting := AList.delete base (km_waiting m)\<rparr>
        else m\<lparr>km_waiting := AList.update base c (km_waiting m)\<rparr>))"

definition km_waited_on :: "u64 \<Rightarrow> keymap \<Rightarrow> bool" where
  "km_waited_on key m \<longleftrightarrow> is_some_and (map_of (km_waiting m) key) (\<lambda>c. c \<noteq> [])"

definition km_dead :: "u64 \<Rightarrow> keymap \<Rightarrow> bool" where
  "km_dead key m \<longleftrightarrow>
     \<not> km_waited_on key m \<and> is_some_and (map_of (km_map m) key) (\<lambda>e. ke_closed e \<noteq> None)"

definition km_erase :: "u64 \<Rightarrow> keymap \<Rightarrow> keymap" where
  "km_erase key m = m\<lparr>km_map := AList.delete key (km_map m)\<rparr>"

text \<open>\<open>unlink\<close>, with the calls of \<open>drop_if_dead\<close> and \<open>remove\<close> in place; \<open>km_unlink_drop\<close> restores them.\<close>

partial_function (option) km_unlink :: "u64 \<Rightarrow> keymap \<Rightarrow> keymap option" where
  "km_unlink key m = (case map_of (km_map m) key of
     None \<Rightarrow> Some m
   | Some e \<Rightarrow> (case ke_name e of
       Below base rel \<Rightarrow>
         (let m = km_unwait base key m in
          if km_dead base m then Option.bind (km_unlink base m) (\<lambda>m. Some (km_erase base m)) else Some m)
     | Full s \<Rightarrow> Some m
     | Orphan rel \<Rightarrow> Some m))"

definition km_remove :: "u64 \<Rightarrow> keymap \<Rightarrow> keymap option" where
  "km_remove key m = Option.bind (km_unlink key m) (\<lambda>m. Some (km_erase key m))"

definition km_drop_if_dead :: "u64 \<Rightarrow> keymap \<Rightarrow> keymap option" where
  "km_drop_if_dead key m = (if km_dead key m then km_remove key m else Some m)"

lemma km_unlink_drop:
  "km_unlink key m = (case map_of (km_map m) key of
     None \<Rightarrow> Some m
   | Some e \<Rightarrow> (case ke_name e of
       Below base rel \<Rightarrow> km_drop_if_dead base (km_unwait base key m)
     | Full s \<Rightarrow> Some m
     | Orphan rel \<Rightarrow> Some m))"
  by (subst km_unlink.simps)
    (auto simp: km_drop_if_dead_def km_remove_def Let_def split: option.splits key_name.splits)

definition km_orphan :: "u64 \<Rightarrow> keymap \<Rightarrow> keymap" where
  "km_orphan child m = (case map_of (km_map m) child of
     None \<Rightarrow> m
   | Some e \<Rightarrow> (case ke_name e of
       Below base rel \<Rightarrow> m\<lparr>km_map := AList.update child (e\<lparr>ke_name := Orphan rel\<rparr>) (km_map m)\<rparr>
     | Full s \<Rightarrow> m
     | Orphan rel \<Rightarrow> m))"

definition km_orphan_children :: "u64 \<Rightarrow> keymap \<Rightarrow> keymap" where
  "km_orphan_children key m =
     fold km_orphan (km_children m key) (m\<lparr>km_waiting := AList.delete key (km_waiting m)\<rparr>)"

text \<open>One child of a base named \<open>b\<close>: named too and pushed, if it waits for a base.\<close>

definition km_name_child :: "rstr \<Rightarrow> u64 \<Rightarrow> u64 list \<times> keymap \<Rightarrow> u64 list \<times> keymap" where
  "km_name_child b child = (\<lambda>(stack, m). case map_of (km_map m) child of
     None \<Rightarrow> (stack, m)
   | Some e \<Rightarrow> (case ke_name e of
       Below base rel \<Rightarrow>
         (child # stack, m\<lparr>km_map := AList.update child (e\<lparr>ke_name := Full (key_join b rel)\<rparr>) (km_map m)\<rparr>)
     | Full s \<Rightarrow> (stack, m)
     | Orphan rel \<Rightarrow> (stack, m)))"

definition km_full :: "keymap \<Rightarrow> u64 \<Rightarrow> rstr option" where
  "km_full m key = (case map_of (km_map m) key of
     None \<Rightarrow> None
   | Some e \<Rightarrow> (case ke_name e of Full s \<Rightarrow> Some s | Below base rel \<Rightarrow> None | Orphan rel \<Rightarrow> None))"

definition km_name_step :: "rstr \<Rightarrow> u64 \<Rightarrow> u64 list \<Rightarrow> keymap \<Rightarrow> u64 list \<times> keymap" where
  "km_name_step b base stack m =
     fold (km_name_child b) (km_children m base)
       (stack, m\<lparr>km_waiting := AList.delete base (km_waiting m)\<rparr>)"

text \<open>The loop ends because each push names an entry that was below another: their number.\<close>

definition is_below :: "key_name \<Rightarrow> bool" where
  "is_below n = (case n of Below base rel \<Rightarrow> True | Full s \<Rightarrow> False | Orphan rel \<Rightarrow> False)"

definition below_count :: "keymap \<Rightarrow> nat" where
  "below_count m = length (filter (\<lambda>(k, e). is_below (ke_name e)) (km_map m))"

lemma length_filter_delete: "length (filter P (AList.delete k xs)) \<le> length (filter P xs)"
  by (induction xs) auto

lemma below_count_erase: "below_count (km_erase k m) \<le> below_count m"
  by (simp add: below_count_def km_erase_def length_filter_delete)

lemma below_count_erase_le: "below_count m \<le> n \<Longrightarrow> below_count (km_erase k m) \<le> n"
  using below_count_erase le_trans by blast

lemma km_unwait_map [simp]: "km_map (km_unwait b k m) = km_map m"
  by (auto simp: km_unwait_def Let_def split: option.splits)

lemma km_unlink_below_count: "km_unlink key m = Some m' \<Longrightarrow> below_count m' \<le> below_count m"
proof (induction rule: km_unlink.raw_induct [rotated, consumes 1, case_names step])
  case (step unlink key m m')
  have w: "below_count (km_unwait b key m) = below_count m" for b by (simp add: below_count_def)
  show ?case
  proof (cases "\<exists>base y. unlink base (km_unwait base key m) = Some y \<and> m' = km_erase base y")
    case True
    then obtain base y where "unlink base (km_unwait base key m) = Some y" "m' = km_erase base y" by blast
    then show ?thesis using step.IH [of base "km_unwait base key m" y] w by (simp add: below_count_erase_le)
  next
    case False
    with step.hyps have "m' = m \<or> (\<exists>b. m' = km_unwait b key m)"
      by (auto simp: Let_def bind_eq_Some_conv split: option.splits key_name.splits if_splits)
    then show ?thesis using w by auto
  qed
qed

lemma km_drop_below_count: "km_drop_if_dead key m = Some m' \<Longrightarrow> below_count m' \<le> below_count m"
  by (auto simp: km_drop_if_dead_def km_remove_def bind_eq_Some_conv split: if_splits
      dest!: km_unlink_below_count intro!: below_count_erase_le)

lemma below_count_update:
  "map_of (km_map m) k = Some e \<Longrightarrow> is_below (ke_name e) \<Longrightarrow> \<not> is_below (ke_name e') \<Longrightarrow>
   Suc (below_count (m\<lparr>km_map := AList.update k e' (km_map m)\<rparr>)) = below_count m"
proof -
  have "map_of xs k = Some e \<Longrightarrow> is_below (ke_name e) \<Longrightarrow> \<not> is_below (ke_name e') \<Longrightarrow>
    Suc (length (filter (\<lambda>(k, e). is_below (ke_name e)) (AList.update k e' xs))) =
    length (filter (\<lambda>(k, e). is_below (ke_name e)) xs)" for xs
    by (induction xs) (auto split: if_splits)
  then show "map_of (km_map m) k = Some e \<Longrightarrow> is_below (ke_name e) \<Longrightarrow> \<not> is_below (ke_name e') \<Longrightarrow>
    Suc (below_count (m\<lparr>km_map := AList.update k e' (km_map m)\<rparr>)) = below_count m"
    by (simp add: below_count_def)
qed

lemma km_name_child_count:
  "length (fst (km_name_child b c (st, m))) + below_count (snd (km_name_child b c (st, m))) = length st + below_count m"
  using below_count_update [of m c]
  by (auto simp: km_name_child_def is_below_def split: option.splits key_name.splits)

lemma km_name_step_count:
  "length (fst (km_name_step b base st m)) + below_count (snd (km_name_step b base st m)) = length st + below_count m"
proof -
  have "length (fst (fold (km_name_child b) cs (st, m))) + below_count (snd (fold (km_name_child b) cs (st, m))) =
      length st + below_count m" for cs st m
    by (induction cs arbitrary: st m) (simp_all, metis km_name_child_count prod.collapse)
  then show ?thesis by (simp add: km_name_step_def) (simp add: below_count_def)
qed

function km_name_children :: "u64 list \<Rightarrow> keymap \<Rightarrow> keymap option" where
  "km_name_children [] m = Some m"
| "km_name_children (base # stack) m = (case km_full m base of
     None \<Rightarrow> km_name_children stack m
   | Some b \<Rightarrow>
       (case km_drop_if_dead base (snd (km_name_step b base stack m)) of
          None \<Rightarrow> None
        | Some m' \<Rightarrow> km_name_children (fst (km_name_step b base stack m)) m'))"
  by pat_completeness auto
termination
proof (relation "measure (\<lambda>(stack, m). length stack + below_count m)")
  fix base stack m b m'
  assume "km_drop_if_dead base (snd (km_name_step b base stack m)) = Some m'"
  then have "below_count m' \<le> below_count (snd (km_name_step b base stack m))" by (rule km_drop_below_count)
  then show "((fst (km_name_step b base stack m), m'), base # stack, m) \<in> measure (\<lambda>(stack, m). length stack + below_count m)"
    using km_name_step_count [of b base stack m] by simp
qed auto

fun km_evict_all :: "u64 list \<Rightarrow> keymap \<Rightarrow> keymap option" where
  "km_evict_all [] m = Some m"
| "km_evict_all (k # ks) m = Option.bind (km_unlink k m) (\<lambda>m.
     km_evict_all ks
       (if map_of (km_map m) k = None then m
        else (km_erase k m)\<lparr>km_evictions := km_evictions m + 1\<rparr>))"

definition km_evict_batch :: "keymap \<Rightarrow> keymap option" where
  "km_evict_batch m = km_evict_all
     (oldest (map (\<lambda>(k, e). (k, ke_touched e)) (km_map m)) (length (km_map m))) m"

definition km_put :: "u64 \<Rightarrow> key_name \<Rightarrow> int \<Rightarrow> keymap \<Rightarrow> keymap" where
  "km_put key name since m =
     (let m = (case name of Below base rel \<Rightarrow> km_wait base key m | Full s \<Rightarrow> m | Orphan rel \<Rightarrow> m);
          m = m\<lparr>km_clock := km_clock m + 1\<rparr>
      in m\<lparr>km_map := AList.update key
             \<lparr>ke_name = name, ke_since = since, ke_closed = None, ke_touched = km_clock m\<rparr> (km_map m)\<rparr>)"

definition km_set :: "u64 \<Rightarrow> key_name \<Rightarrow> int \<Rightarrow> keymap \<Rightarrow> keymap option" where
  "km_set key name since m =
     Option.bind (km_unlink key m) (\<lambda>m.
     Option.bind (case name of
         Full s \<Rightarrow> km_name_children [key] (km_put key name since m)
       | Below base rel \<Rightarrow> Some (km_put key name since m)
       | Orphan rel \<Rightarrow> Some (km_put key name since m)) (\<lambda>m.
     if length (km_map m) > km_cap m then km_evict_batch m else Some m))"

definition km_open_name :: "u64 \<Rightarrow> rstr \<Rightarrow> keymap \<Rightarrow> key_name" where
  "km_open_name base relative m =
     (if starts_with_ci relative REGISTRY_PREFIX then Full relative
      else (case km_full m base of Some b \<Rightarrow> Full (key_join b relative) | None \<Rightarrow> Below base relative))"

definition km_open :: "u64 \<Rightarrow> u64 \<Rightarrow> rstr \<Rightarrow> int \<Rightarrow> keymap \<Rightarrow> keymap option" where
  "km_open key base relative ts m =
     (let m = km_orphan_children key m in km_set key (km_open_name base relative m) ts m)"

definition km_seed :: "u64 \<Rightarrow> rstr \<Rightarrow> int \<Rightarrow> keymap \<Rightarrow> (bool \<times> keymap) option" where
  "km_seed key full taken m =
     (if is_some_and (map_of (km_map m) key) (\<lambda>e. ke_since e > taken) then Some (False, m)
      else
        (let m = (if is_some_and (map_of (km_map m) key) (\<lambda>e. is_some_and (ke_closed e) (\<lambda>c. c \<le> taken))
                  then km_orphan_children key m else m)
         in map_option (Pair True) (km_set key (Full full) taken m)))"

definition km_close :: "u64 \<Rightarrow> int \<Rightarrow> keymap \<Rightarrow> keymap option" where
  "km_close key ts m = (case map_of (km_map m) key of
     Some e \<Rightarrow>
       if km_waited_on key m then Some (m\<lparr>km_map := AList.update key (e\<lparr>ke_closed := Some ts\<rparr>) (km_map m)\<rparr>)
       else km_remove key m
   | None \<Rightarrow> Some (km_orphan_children key m))"

definition km_since :: "u64 \<Rightarrow> keymap \<Rightarrow> int option" where
  "km_since key m = map_option ke_since (map_of (km_map m) key)"

definition km_contains :: "u64 \<Rightarrow> keymap \<Rightarrow> bool" where
  "km_contains key m \<longleftrightarrow> map_of (km_map m) key \<noteq> None"

text \<open>The walk up the bases; \<open>rels\<close> holds the relative names met, the last one first.\<close>

primrec km_walk :: "nat \<Rightarrow> u64 \<Rightarrow> rstr list \<Rightarrow> keymap \<Rightarrow> resolved option" where
  "km_walk 0 at rels m = Some (RPartial (join_rels rels) at)"
| "km_walk (Suc n) at rels m = (case map_of (km_map m) at of
     None \<Rightarrow> None
   | Some e \<Rightarrow> (case ke_name e of
       Full s \<Rightarrow> Some (RFull (foldl key_join s rels))
     | Below base rel \<Rightarrow>
         if \<not> km_contains base m then Some (RPartial (join_rels (rel # rels)) base)
         else km_walk n base (rel # rels) m
     | Orphan rel \<Rightarrow> Some (RPartial (join_rels (rel # rels)) at)))"

definition km_resolve :: "u64 \<Rightarrow> keymap \<Rightarrow> resolved option \<times> keymap" where
  "km_resolve key m =
     (let m = m\<lparr>km_clock := km_clock m + 1\<rparr>;
          m = (case map_of (km_map m) key of
                 None \<Rightarrow> m
               | Some e \<Rightarrow> m\<lparr>km_map := AList.update key (e\<lparr>ke_touched := km_clock m\<rparr>) (km_map m)\<rparr>)
      in (km_walk MAX_DEPTH key [] m, m))"

definition km_len :: "keymap \<Rightarrow> nat" where
  "km_len m = length (km_map m)"

section \<open>Names, links and tombstones\<close>

definition kname :: "keymap \<Rightarrow> u64 \<Rightarrow> key_name option" where
  "kname m k = map_option ke_name (map_of (km_map m) k)"

definition km_ups :: "keymap \<Rightarrow> (u64 \<times> u64) set" where
  "km_ups m = {(b, k). \<exists>rel. kname m k = Some (Below b rel)}"

text \<open>
  The waiting sets are those of the names, but for the keys \<open>X\<close> being unlinked; a closed key outside
  \<open>Y\<close> has children waiting; a named key outside \<open>F\<close> has none.
\<close>

definition km_links :: "u64 set \<Rightarrow> keymap \<Rightarrow> bool" where
  "km_links X m \<longleftrightarrow> (\<forall>b k. k \<in> set (km_children m b) \<longleftrightarrow> k \<notin> X \<and> (b, k) \<in> km_ups m)"

definition km_tombs :: "u64 set \<Rightarrow> keymap \<Rightarrow> bool" where
  "km_tombs Y m \<longleftrightarrow> (\<forall>k e. map_of (km_map m) k = Some e \<and> ke_closed e \<noteq> None \<and> k \<notin> Y \<longrightarrow> km_children m k \<noteq> [])"

definition km_fulls :: "u64 set \<Rightarrow> keymap \<Rightarrow> bool" where
  "km_fulls F m \<longleftrightarrow> (\<forall>b s. kname m b = Some (Full s) \<and> b \<notin> F \<longrightarrow> km_children m b = [])"

lemmas km_rel_defs = km_links_def km_tombs_def km_fulls_def km_ups_def kname_def

lemma km_waited_on_children: "km_waited_on k m \<longleftrightarrow> km_children m k \<noteq> []"
  by (simp add: km_waited_on_def km_children_def split: option.splits)

lemma km_dead_iff:
  "km_dead k m \<longleftrightarrow> km_children m k = [] \<and> (\<exists>e. map_of (km_map m) k = Some e \<and> ke_closed e \<noteq> None)"
  by (auto simp: km_dead_def km_waited_on_children is_some_and_iff)

lemma km_children_unwait:
  "km_children (km_unwait b k m) j = (if j = b then filter (\<lambda>x. x \<noteq> k) (km_children m j) else km_children m j)"
  by (auto simp: km_unwait_def km_children_def Let_def delete_conv' update_conv' split: option.splits)

lemma km_unwait_fields [simp]:
  "km_cap (km_unwait b k m) = km_cap m" "km_clock (km_unwait b k m) = km_clock m"
  "km_evictions (km_unwait b k m) = km_evictions m"
  by (auto simp: km_unwait_def Let_def split: option.splits)

lemma km_erase_fields [simp]:
  "km_waiting (km_erase k m) = km_waiting m" "km_cap (km_erase k m) = km_cap m"
  "km_clock (km_erase k m) = km_clock m" "km_evictions (km_erase k m) = km_evictions m"
  "km_children (km_erase k m) = km_children m"
  by (simp_all add: km_erase_def km_children_def fun_eq_iff)

lemma map_of_erase: "map_of (km_map (km_erase k m)) = (map_of (km_map m))(k := None)"
  by (simp add: km_erase_def delete_conv')

lemma kname_unwait [simp]: "kname (km_unwait b k m) = kname m"
  by (simp add: kname_def fun_eq_iff)

lemma kname_erase: "kname (km_erase k m) = (kname m)(k := None)"
  by (simp add: kname_def map_of_erase fun_eq_iff)

lemma finite_ups: "finite (km_ups m)"
proof (rule finite_subset)
  show "km_ups m \<subseteq> (\<lambda>(k, e). case ke_name e of Below b rel \<Rightarrow> (b, k) | _ \<Rightarrow> (0, k)) ` set (km_map m)"
    by (force simp: km_ups_def kname_def dest: map_of_SomeD)
qed simp

text \<open>Erasing a key that is not waiting for a base keeps the waiting sets right.\<close>

lemma km_links_erase: "km_links (insert k X) m \<Longrightarrow> km_links (X - {k}) (km_erase k m)"
  by (auto simp: km_links_def km_ups_def kname_erase)

lemma km_tombs_erase: "km_tombs (insert k Y) m \<Longrightarrow> km_tombs Y (km_erase k m)"
  by (auto simp: km_tombs_def map_of_erase split: if_splits)

lemma km_fulls_erase: "km_fulls F m \<Longrightarrow> km_fulls F (km_erase k m)"
  by (auto simp: km_fulls_def kname_erase split: if_splits)

text \<open>What \<open>unlink\<close> and what follows it leaves of a map: entries \<open>D\<close> are gone, all of them closed.\<close>

definition km_less :: "u64 set \<Rightarrow> keymap \<Rightarrow> keymap \<Rightarrow> bool" where
  "km_less D m m' \<longleftrightarrow> km_map m' = filter (\<lambda>(k, e). k \<notin> D) (km_map m) \<and>
     (\<forall>b. set (km_children m' b) \<subseteq> set (km_children m b)) \<and> km_cap m' = km_cap m \<and> km_clock m' = km_clock m"

lemma map_of_filter_keys: "map_of (filter (\<lambda>(k, e). k \<notin> D) xs) k = (if k \<in> D then None else map_of xs k)"
  by (induction xs) auto

lemma km_less_map: "km_less D m m' \<Longrightarrow> map_of (km_map m') k = (if k \<in> D then None else map_of (km_map m) k)"
  by (simp add: km_less_def map_of_filter_keys)

lemma km_less_kname: "km_less D m m' \<Longrightarrow> kname m' k = (if k \<in> D then None else kname m k)"
  by (simp add: kname_def km_less_map)

lemma km_less_refl: "km_less {} m m"
  by (simp add: km_less_def case_prod_unfold)

lemma km_less_unwait: "km_less {} m (km_unwait b k m)"
  by (auto simp: km_less_def km_children_unwait case_prod_unfold)

lemma km_less_trans: "km_less D m m' \<Longrightarrow> km_less D' m' m'' \<Longrightarrow> km_less (D \<union> D') m m''"
  by (auto simp: km_less_def filter_filter case_prod_unfold intro!: filter_cong)

lemma km_less_erase: "km_less {k} m (km_erase k m)"
  by (auto simp: km_less_def km_erase_def km_children_def AList.delete_eq intro!: filter_cong)

lemma km_less_no_children: "km_less D m m' \<Longrightarrow> km_children m b = [] \<Longrightarrow> km_children m' b = []"
  unfolding km_less_def by (metis list.set(1) set_empty subset_empty)

lemma km_less_ups: "km_less D m m' \<Longrightarrow> km_ups m' \<subseteq> km_ups m"
  by (auto simp: km_ups_def km_less_kname split: if_splits)

lemma km_less_fulls: "km_less D m m' \<Longrightarrow> km_fulls F m \<Longrightarrow> km_fulls F m'"
  unfolding km_fulls_def
  by (metis (no_types, lifting) km_less_def km_less_kname option.distinct(1) set_empty subset_empty)

lemma km_unlink_ok:
  assumes "wf R" "km_ups m \<subseteq> R" "km_links X m" "km_tombs Y m" "\<forall>x \<in> X. (k, x) \<in> R\<^sup>+"
  shows "\<exists>m' D. km_unlink k m = Some m' \<and> km_less D m m' \<and> km_links (insert k X) m' \<and> km_tombs Y m' \<and>
    (\<forall>d \<in> D. (d, k) \<in> R\<^sup>+ \<and> km_children m' d = [] \<and> (\<exists>e. map_of (km_map m) d = Some e \<and> ke_closed e \<noteq> None))"
  using assms
proof (induction k arbitrary: m X Y rule: wf_induct_rule [OF \<open>wf R\<close>])
  case (1 k)
  show ?case
  proof (cases "\<exists>b rel. kname m k = Some (Below b rel)")
    case False
    then have "km_unlink k m = Some m"
      by (subst km_unlink.simps) (auto simp: kname_def split: option.splits key_name.splits)
    moreover have "km_links (insert k X) m" using 1(4) False by (auto simp: km_links_def km_ups_def)
    ultimately show ?thesis using 1(5) km_less_refl by blast
  next
    case True
    then obtain b rel where n: "kname m k = Some (Below b rel)" by blast
    then have up: "(b, k) \<in> R" using 1(3) by (auto simp: km_ups_def)
    let ?m = "km_unwait b k m"
    have l: "km_links (insert k X) ?m"
      using 1(4) n by (auto simp: km_links_def km_children_unwait km_ups_def)
    have t: "km_tombs (insert b Y) ?m" using 1(5) by (auto simp: km_tombs_def km_children_unwait)
    have u: "km_unlink k m = (if km_dead b ?m then Option.bind (km_unlink b ?m) (\<lambda>m. Some (km_erase b m)) else Some ?m)"
      using n by (subst km_unlink.simps) (auto simp: kname_def)
    show ?thesis
    proof (cases "km_dead b ?m")
      case False
      then have "km_tombs Y ?m" using t unfolding km_tombs_def km_dead_iff by (metis insert_iff)
      then show ?thesis using u False l km_less_unwait by auto
    next
      case True
      have "km_ups ?m \<subseteq> R" using 1(3) by (simp add: km_ups_def)
      moreover have "\<forall>x \<in> insert k X. (b, x) \<in> R\<^sup>+" using up 1(6) by (auto intro: trancl_into_trancl2)
      ultimately obtain m2 D where m2: "km_unlink b ?m = Some m2" "km_less D ?m m2"
        "km_links (insert b (insert k X)) m2" "km_tombs (insert b Y) m2"
        "\<forall>d \<in> D. (d, b) \<in> R\<^sup>+ \<and> km_children m2 d = [] \<and> (\<exists>e. map_of (km_map ?m) d = Some e \<and> ke_closed e \<noteq> None)"
        using 1(1) [OF up 1(2) _ l t] by blast
      let ?n = "km_erase b m2"
      have "km_less (D \<union> {b}) m ?n"
        using km_less_trans [OF km_less_trans [OF km_less_unwait m2(2)] km_less_erase] by (simp add: insert_commute)
      moreover have "km_links (insert k X) ?n"
        using km_links_erase [OF m2(3)] by (auto simp: km_links_def km_ups_def kname_erase)
      moreover have "km_tombs Y ?n" using m2(4) by (rule km_tombs_erase)
      moreover have "km_children m2 b = []"
        using True by (intro km_less_no_children [OF m2(2)]) (simp add: km_dead_iff)
      then have "\<forall>d \<in> D \<union> {b}. (d, k) \<in> R\<^sup>+ \<and> km_children ?n d = [] \<and>
          (\<exists>e. map_of (km_map m) d = Some e \<and> ke_closed e \<noteq> None)"
        using m2(5) True up by (auto simp: km_dead_iff intro: trancl_into_trancl)
      moreover have "km_unlink k m = Some ?n" using u True m2(1) by simp
      ultimately show ?thesis by (intro exI [of _ ?n] exI [of _ "D \<union> {b}"] conjI)
    qed
  qed
qed

section \<open>Effects of the operations\<close>

definition renamed :: "(key_name \<Rightarrow> key_name) \<Rightarrow> key_entry \<Rightarrow> key_entry" where
  "renamed f e = e\<lparr>ke_name := f (ke_name e)\<rparr>"

definition orphaned :: "key_name \<Rightarrow> key_name" where
  "orphaned n = (case n of Below base rel \<Rightarrow> Orphan rel | Full s \<Rightarrow> Full s | Orphan rel \<Rightarrow> Orphan rel)"

definition named_below :: "rstr \<Rightarrow> key_name \<Rightarrow> key_name" where
  "named_below b n = (case n of Below base rel \<Rightarrow> Full (key_join b rel) | Full s \<Rightarrow> Full s | Orphan rel \<Rightarrow> Orphan rel)"

lemma renamed_simps [simp]:
  "ke_name (renamed f e) = f (ke_name e)" "ke_closed (renamed f e) = ke_closed e"
  "ke_since (renamed f e) = ke_since e" "ke_touched (renamed f e) = ke_touched e"
  by (simp_all add: renamed_def)

lemma orphaned_idem [simp]: "orphaned (orphaned n) = orphaned n"
  and named_below_idem [simp]: "named_below b (named_below b n) = named_below b n"
  by (simp_all add: orphaned_def named_below_def split: key_name.splits)

text \<open>An entry but for its name.\<close>

definition unnamed :: "key_entry \<Rightarrow> key_entry" where
  "unnamed e = e\<lparr>ke_name := Orphan []\<rparr>"

lemma unnamed_renamed [simp]: "unnamed (renamed f e) = unnamed e"
  by (simp add: unnamed_def renamed_def)

lemma unnamed_eqD:
  "unnamed e = unnamed e' \<Longrightarrow> ke_closed e = ke_closed e' \<and> ke_touched e = ke_touched e' \<and> ke_since e = ke_since e'"
  by (cases e; cases e') (simp add: unnamed_def)

lemma update_known_keys: "map_of xs k = Some v \<Longrightarrow> map fst (AList.update k w xs) = map fst xs"
  by (induction xs) (auto split: if_splits)

lemma km_orphan_effect:
  "map_of (km_map (km_orphan c m)) = (map_of (km_map m))(c := map_option (renamed orphaned) (map_of (km_map m) c))"
  "map fst (km_map (km_orphan c m)) = map fst (km_map m)"
  "km_waiting (km_orphan c m) = km_waiting m" "km_cap (km_orphan c m) = km_cap m"
  "km_clock (km_orphan c m) = km_clock m"
proof -
  show "map_of (km_map (km_orphan c m)) = (map_of (km_map m))(c := map_option (renamed orphaned) (map_of (km_map m) c))"
  proof
    fix x
    show "map_of (km_map (km_orphan c m)) x = ((map_of (km_map m))(c := map_option (renamed orphaned) (map_of (km_map m) c))) x"
      by (cases "map_of (km_map m) c")
        (auto simp: km_orphan_def renamed_def orphaned_def update_conv' split: key_name.splits)
  qed
  show "map fst (km_map (km_orphan c m)) = map fst (km_map m)"
    by (auto simp: km_orphan_def update_known_keys split: option.splits key_name.splits)
qed (auto simp: km_orphan_def split: option.splits key_name.splits)

lemma fold_orphan_effect:
  "map_of (km_map (fold km_orphan cs m)) k =
     (if k \<in> set cs then map_option (renamed orphaned) (map_of (km_map m) k) else map_of (km_map m) k) \<and>
   map fst (km_map (fold km_orphan cs m)) = map fst (km_map m) \<and>
   km_waiting (fold km_orphan cs m) = km_waiting m \<and> km_cap (fold km_orphan cs m) = km_cap m \<and>
   km_clock (fold km_orphan cs m) = km_clock m"
proof (induction cs arbitrary: m)
  case (Cons c cs)
  have "renamed orphaned (renamed orphaned e) = renamed orphaned e" for e by (simp add: renamed_def)
  then show ?case
    by (cases "map_of (km_map m) c") (auto simp: Cons.IH km_orphan_effect comp_def)
qed simp

lemma km_orphan_children_effect:
  assumes "km_links {} m"
  shows "kname (km_orphan_children key m) k = (if (key, k) \<in> km_ups m then map_option orphaned (kname m k) else kname m k)"
    "map_option unnamed (map_of (km_map (km_orphan_children key m)) k) =
       map_option unnamed (map_of (km_map m) k)"
    "km_children (km_orphan_children key m) b = (if b = key then [] else km_children m b)"
    "map fst (km_map (km_orphan_children key m)) = map fst (km_map m)"
    "km_cap (km_orphan_children key m) = km_cap m" "km_clock (km_orphan_children key m) = km_clock m"
proof -
  let ?w = "m\<lparr>km_waiting := AList.delete key (km_waiting m)\<rparr>"
  note f = fold_orphan_effect [of "km_children m key" ?w, folded km_orphan_children_def]
  have c: "k \<in> set (km_children m key) \<longleftrightarrow> (key, k) \<in> km_ups m" using assms by (simp add: km_links_def)
  show "kname (km_orphan_children key m) k = (if (key, k) \<in> km_ups m then map_option orphaned (kname m k) else kname m k)"
    using f [of k] by (simp add: kname_def c option.map_comp comp_def)
  show "map_option unnamed (map_of (km_map (km_orphan_children key m)) k) =
       map_option unnamed (map_of (km_map m) k)"
    using f [of k] by (simp add: option.map_comp comp_def)
  show "km_children (km_orphan_children key m) b = (if b = key then [] else km_children m b)"
    using f by (simp add: km_children_def delete_conv')
qed (use fold_orphan_effect [of "km_children m key" "m\<lparr>km_waiting := AList.delete key (km_waiting m)\<rparr>", folded km_orphan_children_def]
     in simp_all)

lemma km_name_child_effect:
  "map_of (km_map (snd (km_name_child b c (st, m)))) =
     (map_of (km_map m))(c := map_option (renamed (named_below b)) (map_of (km_map m) c))"
  "map fst (km_map (snd (km_name_child b c (st, m)))) = map fst (km_map m)"
  "km_waiting (snd (km_name_child b c (st, m))) = km_waiting m"
  "km_cap (snd (km_name_child b c (st, m))) = km_cap m" "km_clock (snd (km_name_child b c (st, m))) = km_clock m"
  "set (fst (km_name_child b c (st, m))) = set st \<union> (if is_some_and (kname m c) is_below then {c} else {})"
proof -
  show "map_of (km_map (snd (km_name_child b c (st, m)))) =
     (map_of (km_map m))(c := map_option (renamed (named_below b)) (map_of (km_map m) c))"
  proof
    fix x
    show "map_of (km_map (snd (km_name_child b c (st, m)))) x =
       ((map_of (km_map m))(c := map_option (renamed (named_below b)) (map_of (km_map m) c))) x"
      by (cases "map_of (km_map m) c")
        (auto simp: km_name_child_def renamed_def named_below_def update_conv' split: key_name.splits)
  qed
  show "map fst (km_map (snd (km_name_child b c (st, m)))) = map fst (km_map m)"
    by (auto simp: km_name_child_def update_known_keys split: option.splits key_name.splits)
  show "set (fst (km_name_child b c (st, m))) = set st \<union> (if is_some_and (kname m c) is_below then {c} else {})"
    by (auto simp: km_name_child_def kname_def is_below_def split: option.splits key_name.splits)
qed (auto simp: km_name_child_def split: option.splits key_name.splits)

lemma is_below_named [simp]: "\<not> is_below (named_below b n)"
  by (simp add: is_below_def named_below_def split: key_name.splits)

lemma fold_name_child_effect:
  "map_of (km_map (snd (fold (km_name_child b) cs (st, m)))) k =
     (if k \<in> set cs then map_option (renamed (named_below b)) (map_of (km_map m) k) else map_of (km_map m) k) \<and>
   map fst (km_map (snd (fold (km_name_child b) cs (st, m)))) = map fst (km_map m) \<and>
   km_waiting (snd (fold (km_name_child b) cs (st, m))) = km_waiting m \<and>
   km_cap (snd (fold (km_name_child b) cs (st, m))) = km_cap m \<and>
   km_clock (snd (fold (km_name_child b) cs (st, m))) = km_clock m \<and>
   set (fst (fold (km_name_child b) cs (st, m))) =
     set st \<union> {c \<in> set cs. is_some_and (kname m c) is_below}"
proof (induction cs arbitrary: st m)
  case (Cons c cs)
  obtain st1 m1 where one: "km_name_child b c (st, m) = (st1, m1)" by fastforce
  have e: "map_of (km_map m1) = (map_of (km_map m))(c := map_option (renamed (named_below b)) (map_of (km_map m) c))"
    "map fst (km_map m1) = map fst (km_map m)" "km_waiting m1 = km_waiting m" "km_cap m1 = km_cap m" "km_clock m1 = km_clock m"
    "set st1 = set st \<union> (if is_some_and (kname m c) is_below then {c} else {})"
    using km_name_child_effect [of b c st m] unfolding one by simp_all
  have r: "renamed (named_below b) (renamed (named_below b) e) = renamed (named_below b) e" for e by (simp add: renamed_def)
  have k: "kname m1 x = (if x = c then map_option (named_below b) (kname m x) else kname m x)" for x
    by (simp add: kname_def e(1) option.map_comp comp_def)
  have "{x \<in> set cs. is_some_and (kname m1 x) is_below} \<union> set st1 =
      set st \<union> {x \<in> set (c # cs). is_some_and (kname m x) is_below}"
    by (cases "kname m c") (auto simp: k e(6) split: if_splits)
  then show ?case
    using Cons.IH [of st1 m1] by (auto simp: r one e(1-5) option.map_comp comp_def Un_commute)
qed simp

inductive key_named :: "keymap \<Rightarrow> u64 \<Rightarrow> rstr \<Rightarrow> bool" for m where
  direct: "kname m k = Some (Full s) \<Longrightarrow> key_named m k s"
| below: "kname m k = Some (Below b rel) \<Longrightarrow> key_named m b s \<Longrightarrow> key_named m k (key_join s rel)"

inductive_cases key_named_fullE: "key_named m k s"

lemma key_named_full: "kname m k = Some (Full b) \<Longrightarrow> key_named m k s \<Longrightarrow> s = b"
  by (erule key_named_fullE) auto

definition km_kept :: "keymap \<Rightarrow> keymap \<Rightarrow> bool" where
  "km_kept m m' \<longleftrightarrow> (\<forall>k. case map_of (km_map m') k of
     None \<Rightarrow> is_none_or (map_of (km_map m) k) (\<lambda>e. ke_closed e \<noteq> None)
   | Some e' \<Rightarrow> map_option unnamed (map_of (km_map m) k) = Some (unnamed e'))"

definition km_same_names :: "keymap \<Rightarrow> keymap \<Rightarrow> bool" where
  "km_same_names m m' \<longleftrightarrow> (\<forall>k s. kname m' k \<noteq> None \<longrightarrow> (key_named m' k s \<longleftrightarrow> key_named m k s))"

lemma km_keptD: "km_kept m m' \<Longrightarrow> kname m' k \<noteq> None \<Longrightarrow> kname m k \<noteq> None"
  unfolding km_kept_def kname_def by (fastforce split: option.splits)

lemma km_kept_some:
  assumes "km_kept m m'" "map_of (km_map m') k = Some x"
  obtains y where "map_of (km_map m) k = Some y" "ke_closed y = ke_closed x" "ke_touched y = ke_touched x"
proof -
  have "map_option unnamed (map_of (km_map m) k) = Some (unnamed x)"
    using assms(1) [unfolded km_kept_def, THEN spec, of k] assms(2) by simp
  then obtain y where y: "map_of (km_map m) k = Some y" "unnamed y = unnamed x" by auto
  show thesis using that [OF y(1)] unnamed_eqD [OF y(2)] by simp
qed

lemma km_kept_open:
  assumes "km_kept m m'" "map_of (km_map m) k = Some y" "ke_closed y = None"
  obtains x where "map_of (km_map m') k = Some x" "ke_closed x = None" "ke_touched x = ke_touched y"
proof (cases "map_of (km_map m') k")
  case None
  then show thesis using assms(1) [unfolded km_kept_def, THEN spec, of k] assms(2,3) by simp
next
  case (Some x)
  from km_kept_some [OF assms(1) Some] obtain z where
    "map_of (km_map m) k = Some z" "ke_closed z = ke_closed x" "ke_touched z = ke_touched x" .
  then show thesis using that [OF Some] assms(2,3) by simp
qed

lemma km_kept_trans: "km_kept m m' \<Longrightarrow> km_kept m' m'' \<Longrightarrow> km_kept m m''"
  unfolding km_kept_def
proof
  fix k
  assume a: "\<forall>k. case map_of (km_map m') k of
     None \<Rightarrow> is_none_or (map_of (km_map m) k) (\<lambda>e. ke_closed e \<noteq> None)
   | Some e' \<Rightarrow> map_option unnamed (map_of (km_map m) k) = Some (unnamed e')"
    and b: "\<forall>k. case map_of (km_map m'') k of
     None \<Rightarrow> is_none_or (map_of (km_map m') k) (\<lambda>e. ke_closed e \<noteq> None)
   | Some e' \<Rightarrow> map_option unnamed (map_of (km_map m') k) = Some (unnamed e')"
  show "case map_of (km_map m'') k of
     None \<Rightarrow> is_none_or (map_of (km_map m) k) (\<lambda>e. ke_closed e \<noteq> None)
   | Some e' \<Rightarrow> map_option unnamed (map_of (km_map m) k) = Some (unnamed e')"
    using a [THEN spec, of k] b [THEN spec, of k]
    by (auto simp: is_none_or_iff split: option.splits dest!: unnamed_eqD)
qed

lemma km_same_names_trans:
  "km_same_names m m' \<Longrightarrow> km_same_names m' m'' \<Longrightarrow> km_kept m' m'' \<Longrightarrow> km_same_names m m''"
  using km_keptD unfolding km_same_names_def by meson

text \<open>Erasing closed entries nothing is below changes no name.\<close>

lemma km_less_kept:
  "km_less D m m' \<Longrightarrow> \<forall>d \<in> D. \<exists>e. map_of (km_map m) d = Some e \<and> ke_closed e \<noteq> None \<Longrightarrow> km_kept m m'"
  by (auto simp: km_kept_def km_less_map is_none_or_iff split: option.splits)

lemma km_less_names:
  assumes l: "km_less D m m'" and d: "\<And>d k. d \<in> D \<Longrightarrow> (d, k) \<notin> km_ups m'"
  shows "km_same_names m m'"
proof -
  have fwd: "key_named m' k s \<Longrightarrow> key_named m k s" for k s
    by (induction rule: key_named.induct)
      (auto simp: km_less_kname [OF l] split: if_splits intro: key_named.intros)
  have bwd: "key_named m k s \<Longrightarrow> k \<notin> D \<Longrightarrow> key_named m' k s" for k s
  proof (induction rule: key_named.induct)
    case (below k b rel s)
    have n: "kname m' k = Some (Below b rel)" using below by (simp add: km_less_kname [OF l])
    then have "b \<notin> D" using d [of b k] by (auto simp: km_ups_def)
    then show ?case using below n by (auto intro: key_named.intros)
  qed (auto simp: km_less_kname [OF l] intro: key_named.intros)
  show ?thesis using fwd bwd by (auto simp: km_same_names_def km_less_kname [OF l] split: if_splits)
qed

text \<open>One round of the loop: the children of a named base are named, and a base closed goes.\<close>

lemma km_name_step_effect:
  fixes b :: rstr and base :: u64 and st :: "u64 list"
  assumes "km_links {} m"
  defines "r \<equiv> km_name_step b base st m"
  shows "kname (snd r) k = (if (base, k) \<in> km_ups m then map_option (named_below b) (kname m k) else kname m k)"
    "map_option unnamed (map_of (km_map (snd r)) k) = map_option unnamed (map_of (km_map m) k)"
    "km_children (snd r) j = (if j = base then [] else km_children m j)"
    "map fst (km_map (snd r)) = map fst (km_map m)" "km_cap (snd r) = km_cap m" "km_clock (snd r) = km_clock m"
    "set (fst r) = set st \<union> {k. (base, k) \<in> km_ups m}"
proof -
  let ?w = "m\<lparr>km_waiting := AList.delete base (km_waiting m)\<rparr>"
  note f = fold_name_child_effect [of b "km_children m base" st ?w, folded km_name_step_def, folded r_def]
  have c: "k \<in> set (km_children m base) \<longleftrightarrow> (base, k) \<in> km_ups m" for k using assms(1) by (simp add: km_links_def)
  show "kname (snd r) k = (if (base, k) \<in> km_ups m then map_option (named_below b) (kname m k) else kname m k)"
    using f [of k] by (simp add: kname_def c option.map_comp comp_def)
  show "map_option unnamed (map_of (km_map (snd r)) k) = map_option unnamed (map_of (km_map m) k)"
    using f [of k] by (simp add: option.map_comp comp_def)
  show "km_children (snd r) j = (if j = base then [] else km_children m j)"
    using f by (simp add: km_children_def delete_conv')
  show "set (fst r) = set st \<union> {k. (base, k) \<in> km_ups m}"
    using f by (auto simp: c km_ups_def kname_def is_some_and_iff is_below_def)
  show "map fst (km_map (snd r)) = map fst (km_map m)" "km_cap (snd r) = km_cap m" "km_clock (snd r) = km_clock m"
    using f by simp_all
qed

lemma kept_of_unnamed:
  "(\<And>k. map_option unnamed (map_of (km_map m') k) = map_option unnamed (map_of (km_map m) k)) \<Longrightarrow> km_kept m m'"
  unfolding km_kept_def by (metis (mono_tags, lifting) option.case_eq_if option.collapse option.map_disc_iff
      option.simps(9) is_none_or_simps(1))

lemma named_step_same:
  assumes links: "km_links {} m" and full: "kname m base = Some (Full b)"
  shows "key_named (snd (km_name_step b base st m)) k s \<longleftrightarrow> key_named m k s"
proof -
  let ?m = "snd (km_name_step b base st m)"
  note e = km_name_step_effect(1) [OF links, of b base st]
  have base: "kname ?m base = Some (Full b)" using full by (simp add: e km_ups_def)
  have sub: "\<exists>rel. kname m j = Some (Below base rel) \<and> kname ?m j = Some (Full (key_join b rel))"
    if "(base, j) \<in> km_ups m" for j
    using that by (auto simp: e km_ups_def named_below_def)
  have other: "kname ?m j = kname m j" if "(base, j) \<notin> km_ups m" for j using that by (simp add: e)
  show ?thesis
  proof
    show "key_named ?m k s \<Longrightarrow> key_named m k s"
    proof (induction rule: key_named.induct)
      case (direct k s)
      then show ?case
        using sub [of k] other [of k] full
        by (cases "(base, k) \<in> km_ups m") (auto intro: key_named.intros)
    next
      case (below k b' rel s)
      then show ?case
        using sub [of k] other [of k] by (cases "(base, k) \<in> km_ups m") (auto intro: key_named.intros)
    qed
    show "key_named m k s \<Longrightarrow> key_named ?m k s"
    proof (induction rule: key_named.induct)
      case (direct k s)
      then have "(base, k) \<notin> km_ups m" by (auto simp: km_ups_def)
      then show ?case using direct other by (auto intro: key_named.intros)
    next
      case (below k b' rel s)
      show ?case
      proof (cases "(base, k) \<in> km_ups m")
        case True
        then have "b' = base" using below.hyps(1) by (auto simp: km_ups_def)
        then have "s = b" using key_named_full [OF base] below.IH by simp
        then show ?thesis using sub [OF True] below.hyps(1) by (auto intro: key_named.direct)
      qed (use below other in \<open>auto intro: key_named.intros\<close>)
    qed
  qed
qed

text \<open>What holds of every state the loop goes through, and what it leaves.\<close>

definition km_tidy :: "u64 set \<Rightarrow> keymap \<Rightarrow> bool" where
  "km_tidy F m \<longleftrightarrow> distinct (map fst (km_map m)) \<and> km_links {} m \<and> km_tombs {} m \<and> km_fulls F m"

definition km_after :: "keymap \<Rightarrow> keymap \<Rightarrow> bool" where
  "km_after m m' \<longleftrightarrow> km_kept m m' \<and> km_same_names m m' \<and> km_ups m' \<subseteq> km_ups m \<and>
     length (km_map m') \<le> length (km_map m) \<and> km_cap m' = km_cap m \<and> km_clock m' = km_clock m"

lemma km_after_refl: "km_after m m"
  by (auto simp: km_after_def km_kept_def km_same_names_def split: option.splits)

lemma km_after_trans: "km_after m m' \<Longrightarrow> km_after m' m'' \<Longrightarrow> km_after m m''"
  unfolding km_after_def
  by (elim conjE, intro conjI) (blast intro: km_kept_trans km_same_names_trans, blast intro: km_same_names_trans, auto)

lemma name_round:
  assumes t: "km_tidy (insert base (set st)) m" and full: "kname m base = Some (Full b)"
  shows "\<exists>m'. km_drop_if_dead base (snd (km_name_step b base st m)) = Some m' \<and>
    km_tidy (set (fst (km_name_step b base st m))) m' \<and> km_after m m'"
proof -
  let ?r = "km_name_step b base st m" and ?m = "snd (km_name_step b base st m)"
  have links: "km_links {} m" and dist: "distinct (map fst (km_map m))" and tombs: "km_tombs {} m"
    and fulls: "km_fulls (insert base (set st)) m"
    using t by (simp_all add: km_tidy_def)
  note e = km_name_step_effect [OF links, of b base st]
  have base: "kname ?m base = Some (Full b)" using full by (simp add: e km_ups_def)
  have ups: "(j, k) \<in> km_ups ?m \<longleftrightarrow> j \<noteq> base \<and> (j, k) \<in> km_ups m" for j k
    by (auto simp: km_ups_def e(1) named_below_def split: if_splits)
  have l: "km_links {} ?m" using links by (auto simp: km_links_def ups e(3))
  have closed: "map_option ke_closed (map_of (km_map ?m) k) = map_option ke_closed (map_of (km_map m) k)" for k
    using e(2) [of k] by (auto simp: map_option_case split: option.splits dest!: unnamed_eqD)
  have f: "km_fulls (set (fst ?r)) ?m"
    using fulls by (auto simp: km_fulls_def e(1,3,7) split: if_splits)
  have after: "km_after m ?m"
    using kept_of_unnamed [of ?m m] e(2,5,6) named_step_same [OF links full] ups
      arg_cong [OF e(4), of length] by (auto simp: km_after_def km_same_names_def)
  have t2: "km_children ?m k \<noteq> []" if k: "map_of (km_map ?m) k = Some x" "ke_closed x \<noteq> None" "k \<noteq> base" for k x
  proof -
    obtain y where "map_of (km_map m) k = Some y" "ke_closed y \<noteq> None" using closed [of k] k(1,2)
      by (cases "map_of (km_map m) k") auto
    then show ?thesis using tombs k(3) by (auto simp: km_tombs_def e(3))
  qed
  have unlink: "km_unlink base ?m = Some ?m"
    using base by (subst km_unlink.simps) (auto simp: kname_def)
  show ?thesis
  proof (cases "km_dead base ?m")
    case False
    then have "km_tombs {} ?m" using t2 unfolding km_tombs_def km_dead_iff by (metis e(3))
    then show ?thesis using False l f after dist e(4) by (simp add: km_drop_if_dead_def km_tidy_def)
  next
    case True
    let ?e = "km_erase base ?m"
    have r: "km_drop_if_dead base ?m = Some ?e" using True unlink by (simp add: km_drop_if_dead_def km_remove_def)
    have lu: "km_links {base} ?m" using l base by (auto simp: km_links_def km_ups_def)
    have "km_tombs {} ?e" using t2 by (intro km_tombs_erase) (auto simp: km_tombs_def)
    moreover have "km_links {} ?e" using km_links_erase [of base "{}" ?m] lu by simp
    moreover have "distinct (map fst (km_map ?e))" using dist by (simp add: km_erase_def distinct_delete e(4))
    ultimately have tidy: "km_tidy (set (fst ?r)) ?e" using km_fulls_erase [OF f] by (simp add: km_tidy_def)
    have less: "km_less {base} ?m ?e" by (rule km_less_erase)
    have "km_after ?m ?e"
      unfolding km_after_def
    proof (intro conjI)
      show "km_kept ?m ?e" using True by (intro km_less_kept [OF less]) (simp add: km_dead_iff)
      show "km_same_names ?m ?e"
        using ups km_less_ups [OF less] by (intro km_less_names [OF less]) blast
    qed (use km_less_ups [OF less] in \<open>auto simp: km_erase_def length_delete_le\<close>)
    then show ?thesis using r tidy km_after_trans [OF after] by blast
  qed
qed

lemma km_name_children_ok:
  "km_tidy (set st) m \<Longrightarrow> \<exists>m'. km_name_children st m = Some m' \<and> km_tidy {} m' \<and> km_after m m'"
proof (induction st m rule: km_name_children.induct)
  case (1 m)
  then show ?case by (simp add: km_after_refl)
next
  case (2 base st m)
  show ?case
  proof (cases "km_full m base")
    case None
    then have "kname m base \<noteq> Some (Full s)" for s by (auto simp: km_full_def kname_def split: option.splits)
    then have "km_tidy (set st) m" using "2.prems" unfolding km_tidy_def km_fulls_def by (metis insert_iff list.set(2))
    then show ?thesis using "2.IH"(1) [OF None] None by simp
  next
    case (Some b)
    then have "kname m base = Some (Full b)" by (auto simp: km_full_def kname_def split: option.splits key_name.splits)
    then obtain m1 where m1: "km_drop_if_dead base (snd (km_name_step b base st m)) = Some m1"
      "km_tidy (set (fst (km_name_step b base st m))) m1" "km_after m m1"
      using name_round [of base st m b] "2.prems" by auto
    then show ?thesis using "2.IH"(2) [OF Some m1(1) m1(2)] Some km_after_trans [OF m1(3)] by auto
  qed
qed

section \<open>The invariant\<close>

definition km_ok :: "u64 set \<Rightarrow> keymap \<Rightarrow> bool" where
  "km_ok Y m \<longleftrightarrow> distinct (map fst (km_map m)) \<and> km_links {} m \<and> km_tombs Y m \<and> km_fulls {} m \<and>
     acyclic (km_ups m) \<and> (\<forall>k e. map_of (km_map m) k = Some e \<longrightarrow> ke_touched e \<le> km_clock m)"

definition km_inv :: "keymap \<Rightarrow> bool" where
  "km_inv m \<longleftrightarrow> km_ok {} m \<and> length (km_map m) \<le> km_cap m"

lemma km_ok_tidy:
  "km_ok {} m \<longleftrightarrow> km_tidy {} m \<and> acyclic (km_ups m) \<and>
     (\<forall>k e. map_of (km_map m) k = Some e \<longrightarrow> ke_touched e \<le> km_clock m)"
  by (auto simp: km_ok_def km_tidy_def)

lemma km_ok_mono: "km_ok Y m \<Longrightarrow> Y \<subseteq> Z \<Longrightarrow> km_ok Z m"
  unfolding km_ok_def km_tombs_def by blast

text \<open>In a tidy map the names known are those written in the entries.\<close>

lemma tidy_named:
  assumes "km_tidy {} m"
  shows "key_named m k s \<longleftrightarrow> kname m k = Some (Full s)"
proof
  show "key_named m k s \<Longrightarrow> kname m k = Some (Full s)"
  proof (induction rule: key_named.induct)
    case (below k b rel s)
    then have "k \<in> set (km_children m b)" using assms by (auto simp: km_tidy_def km_links_def km_ups_def)
    moreover have "km_children m b = []" using assms below.IH by (auto simp: km_tidy_def km_fulls_def)
    ultimately show ?case by simp
  qed
qed (rule key_named.direct)

lemma unlink_top:
  assumes "km_ok Y m"
  obtains m1 D where "km_unlink k m = Some m1" "km_less D m m1" "km_links {k} m1" "km_tombs Y m1" "km_fulls {} m1"
    "\<And>d. d \<in> D \<Longrightarrow> (d, k) \<in> (km_ups m)\<^sup>+" "\<And>d. d \<in> D \<Longrightarrow> km_children m1 d = []"
    "\<And>d. d \<in> D \<Longrightarrow> \<exists>e. map_of (km_map m) d = Some e \<and> ke_closed e \<noteq> None" "k \<notin> D"
proof -
  have t: "km_links {} m" "km_tombs Y m" "km_fulls {} m" and a: "acyclic (km_ups m)"
    using assms by (simp_all add: km_ok_def)
  have "wf (km_ups m)" using finite_acyclic_wf [OF finite_ups a] .
  then obtain m1 D where u: "km_unlink k m = Some m1" "km_less D m m1" "km_links {k} m1" "km_tombs Y m1"
    "\<forall>d \<in> D. (d, k) \<in> (km_ups m)\<^sup>+ \<and> km_children m1 d = [] \<and> (\<exists>e. map_of (km_map m) d = Some e \<and> ke_closed e \<noteq> None)"
    using km_unlink_ok [of "km_ups m" m "{}" Y k] t by auto
  then have "k \<notin> D" using a by (auto simp: acyclic_def)
  then show thesis using that [of m1 D] u km_less_fulls [OF u(2) t(3)] by blast
qed

text \<open>Unlinking a key and erasing it, as \<open>remove\<close> and an eviction do.\<close>

lemma unlink_erase:
  assumes ok: "km_ok {} m"
  obtains m1 D where "km_unlink k m = Some m1" "km_less (insert k D) m (km_erase k m1)" "km_ok {} (km_erase k m1)"
    "\<And>d. d \<in> D \<Longrightarrow> \<exists>e. map_of (km_map m) d = Some e \<and> ke_closed e \<noteq> None"
proof -
  obtain m1 D where u: "km_unlink k m = Some m1" "km_less D m m1" "km_links {k} m1" "km_tombs {} m1" "km_fulls {} m1"
    "\<And>d. d \<in> D \<Longrightarrow> \<exists>e. map_of (km_map m) d = Some e \<and> ke_closed e \<noteq> None"
    by (rule unlink_top [OF ok, of k]) (rule that)
  let ?e = "km_erase k m1"
  have less: "km_less (insert k D) m ?e" using km_less_trans [OF u(2) km_less_erase] by simp
  have "distinct (map fst (km_map ?e))"
    using ok less by (auto simp: km_ok_def km_less_def intro: distinct_map_filter)
  moreover have "km_tombs {k} m1" using u(4) by (auto simp: km_tombs_def)
  ultimately have "km_tidy {} ?e"
    using km_links_erase [OF u(3)] km_tombs_erase [of k "{}" m1] km_fulls_erase [OF u(5)]
    by (simp add: km_tidy_def)
  moreover have "acyclic (km_ups ?e)"
    using ok km_less_ups [OF less] by (auto simp: km_ok_def intro: acyclic_subset)
  moreover have "ke_touched x \<le> km_clock ?e" if "map_of (km_map ?e) j = Some x" for j x
    using that ok less km_less_map [OF less, of j] by (auto simp: km_ok_def km_less_def split: if_splits)
  ultimately have "km_ok {} ?e" by (auto simp: km_ok_tidy)
  then show thesis using that u(1,6) less by blast
qed

lemma km_remove_ok:
  assumes "km_ok {} m"
  obtains m' D where "km_remove k m = Some m'" "km_less (insert k D) m m'" "km_ok {} m'"
    "\<And>d. d \<in> D \<Longrightarrow> \<exists>e. map_of (km_map m) d = Some e \<and> ke_closed e \<noteq> None"
proof -
  obtain m1 D where u: "km_unlink k m = Some m1" "km_less (insert k D) m (km_erase k m1)" "km_ok {} (km_erase k m1)"
    "\<And>d. d \<in> D \<Longrightarrow> \<exists>e. map_of (km_map m) d = Some e \<and> ke_closed e \<noteq> None"
    by (rule unlink_erase [OF assms, of k]) (rule that)
  show thesis by (rule that [OF _ u(2-4)]) (simp_all add: km_remove_def u(1))
qed

lemma km_less_congs [simp]:
  "km_less D m (m'\<lparr>km_evictions := n\<rparr>) = km_less D m m'" "km_ok {} (m'\<lparr>km_evictions := n\<rparr>) = km_ok {} m'"
  by (simp_all add: km_less_def km_children_def km_ok_def km_tidy_def km_rel_defs)

lemma km_evict_all_ok:
  "km_ok {} m \<Longrightarrow> \<exists>m' E. km_evict_all vs m = Some m' \<and> km_less E m m' \<and> km_ok {} m' \<and> set vs \<subseteq> E \<and>
    (\<forall>d \<in> E - set vs. \<exists>e. map_of (km_map m) d = Some e \<and> ke_closed e \<noteq> None)"
proof (induction vs arbitrary: m)
  case Nil
  then show ?case using km_less_refl by auto
next
  case (Cons v vs)
  obtain m1 D where u: "km_unlink v m = Some m1" "km_less (insert v D) m (km_erase v m1)" "km_ok {} (km_erase v m1)"
    "\<And>d. d \<in> D \<Longrightarrow> \<exists>e. map_of (km_map m) d = Some e \<and> ke_closed e \<noteq> None"
    by (rule unlink_erase [OF Cons.prems, of v]) (rule that)
  let ?n = "if map_of (km_map m1) v = None then m1 else (km_erase v m1)\<lparr>km_evictions := km_evictions m1 + 1\<rparr>"
  have "map_of (km_map m1) v = None \<Longrightarrow> m1 = km_erase v m1"
    by (simp add: km_erase_def delete_id map_of_eq_None_iff)
  then have n: "km_less (insert v D) m ?n" "km_ok {} ?n" using u by auto
  obtain m' E where r: "km_evict_all vs ?n = Some m'" "km_less E ?n m'" "km_ok {} m'" "set vs \<subseteq> E"
    "\<forall>d \<in> E - set vs. \<exists>e. map_of (km_map ?n) d = Some e \<and> ke_closed e \<noteq> None"
    using Cons.IH [OF n(2)] by blast
  have "km_less (insert v D \<union> E) m m'" by (rule km_less_trans [OF n(1) r(2)])
  moreover have "\<exists>e. map_of (km_map m) d = Some e \<and> ke_closed e \<noteq> None"
    if d: "d \<in> (insert v D \<union> E) - set (v # vs)" for d
  proof (cases "d \<in> D")
    case False
    then have "d \<in> E - set vs" using d by auto
    then obtain e where "map_of (km_map ?n) d = Some e" "ke_closed e \<noteq> None" using r(5) by blast
    then show ?thesis using km_less_map [OF n(1), of d] by (auto split: if_splits)
  qed (rule u(4))
  moreover have "km_evict_all (v # vs) m = Some m'" using u(1) r(1) by simp
  moreover have "set (v # vs) \<subseteq> insert v D \<union> E" using r(4) by auto
  ultimately show ?case using r(3) by blast
qed

lemma option_eqI_all: "(\<And>s. x = Some s \<longleftrightarrow> y = Some s) \<Longrightarrow> x = y"
  by (cases x; cases y) auto

lemma length_filter_imp: "(\<And>x. P x \<Longrightarrow> Q x) \<Longrightarrow> length (filter P xs) \<le> length (filter Q xs)"
  by (induction xs) (simp_all add: le_SucI)

lemma km_evict_batch_ok:
  assumes ok: "km_ok {} m"
  obtains m' E where "km_evict_batch m = Some m'" "km_less E m m'" "km_ok {} m'"
    "km_map m \<noteq> [] \<Longrightarrow> length (km_map m') < length (km_map m)"
    "\<And>k e. map_of (km_map m) k = Some e \<Longrightarrow> ke_closed e = None \<Longrightarrow> 2 \<le> length (km_map m) \<Longrightarrow>
      (\<And>j x. j \<noteq> k \<Longrightarrow> map_of (km_map m) j = Some x \<Longrightarrow> ke_touched x < ke_touched e) \<Longrightarrow> k \<notin> E"
proof -
  let ?es = "map (\<lambda>(k, e). (k, ke_touched e)) (km_map m)"
  let ?v = "oldest ?es (length (km_map m))"
  obtain m' E where r: "km_evict_all ?v m = Some m'" "km_less E m m'" "km_ok {} m'" "set ?v \<subseteq> E"
    "\<forall>d \<in> E - set ?v. \<exists>e. map_of (km_map m) d = Some e \<and> ke_closed e \<noteq> None"
    using km_evict_all_ok [OF ok, of ?v] by blast
  have d: "distinct (map fst (km_map m))" using ok by (simp add: km_ok_def)
  have de: "distinct (map fst ?es)" using d by (simp add: case_prod_unfold comp_def)
  have "length (km_map m') = length (filter (\<lambda>(k, e). k \<notin> E) (km_map m))" using r(2) by (simp add: km_less_def)
  also have "\<dots> \<le> length (filter (\<lambda>(k, e). k \<notin> set ?v) (km_map m))"
    using r(4) by (intro length_filter_imp) auto
  also have "\<dots> = length (km_map m) - min (max (length (km_map m) div 8) 1) (length (km_map m))"
    by (rule oldest_remaining [OF d])
  finally have len: "km_map m \<noteq> [] \<Longrightarrow> length (km_map m') < length (km_map m)"
    by (cases "km_map m") (auto simp: max_def split: if_splits)
  have new: "k \<notin> E"
    if k: "map_of (km_map m) k = Some e" "ke_closed e = None" "2 \<le> length (km_map m)"
      "\<And>j x. j \<noteq> k \<Longrightarrow> map_of (km_map m) j = Some x \<Longrightarrow> ke_touched x < ke_touched e" for k e
  proof
    assume "k \<in> E"
    then have "k \<in> set ?v" using r(5) [THEN bspec, of k] k(1,2) by (cases "k \<in> set ?v") simp_all
    moreover have "k \<notin> set ?v"
    proof -
      have "k \<notin> set (oldest ?es (length ?es))"
      proof (rule oldest_not_newest [OF de])
        show "(k, ke_touched e) \<in> set ?es" using map_of_SomeD [OF k(1)] by force
        show "a' < ke_touched e" if "(k', a') \<in> set ?es" "k' \<noteq> k" for k' a'
          using that k(4) d by (auto simp: map_of_eq_Some_iff)
      qed (use k(3) in simp)
      then show ?thesis by simp
    qed
    ultimately show False by blast
  qed
  show thesis using that [OF _ r(2,3) len new] r(1) by (simp add: km_evict_batch_def)
qed

section \<open>Setting a name\<close>

lemma km_put_effect:
  "map_of (km_map (km_put key name since m)) =
     (map_of (km_map m))(key \<mapsto> \<lparr>ke_name = name, ke_since = since, ke_closed = None, ke_touched = km_clock m + 1\<rparr>)"
  "kname (km_put key name since m) = (kname m)(key \<mapsto> name)"
  "set (km_children (km_put key name since m) b) =
     set (km_children m b) \<union> (if \<exists>rel. name = Below b rel then {key} else {})"
  "map fst (km_map (km_put key name since m)) =
     (if key \<in> set (map fst (km_map m)) then map fst (km_map m) else map fst (km_map m) @ [key])"
  "km_cap (km_put key name since m) = km_cap m" "km_clock (km_put key name since m) = km_clock m + 1"
proof -
  show e: "map_of (km_map (km_put key name since m)) =
     (map_of (km_map m))(key \<mapsto> \<lparr>ke_name = name, ke_since = since, ke_closed = None, ke_touched = km_clock m + 1\<rparr>)"
    by (simp add: km_put_def Let_def update_conv' km_wait_def split: key_name.split)
  then show "kname (km_put key name since m) = (kname m)(key \<mapsto> name)"
    by (simp add: kname_def fun_eq_iff)
  show "set (km_children (km_put key name since m) b) =
     set (km_children m b) \<union> (if \<exists>rel. name = Below b rel then {key} else {})"
    by (cases name) (auto simp: km_put_def Let_def km_wait_def km_children_def update_conv')
qed (simp_all add: km_put_def Let_def km_wait_def update_keys split: key_name.split)

text \<open>The names \<open>open\<close> and \<open>seed\<close> set: a full one, or one below a base without a name.\<close>

definition km_may_set :: "keymap \<Rightarrow> u64 \<Rightarrow> key_name \<Rightarrow> bool" where
  "km_may_set m key name \<longleftrightarrow> (case name of
     Full s \<Rightarrow> True
   | Below base rel \<Rightarrow> base \<noteq> key \<and> km_full m base = None \<and> (\<forall>x. (key, x) \<notin> km_ups m)
   | Orphan rel \<Rightarrow> False)"

lemma km_full_kname: "km_full m b = Some s \<longleftrightarrow> kname m b = Some (Full s)"
  by (auto simp: km_full_def kname_def split: option.splits key_name.splits)

lemma km_put_ok:
  fixes since :: int
  assumes ok: "km_ok {key} m" and u: "km_less D m m1" "km_links {key} m1" "km_tombs {key} m1" "km_fulls {} m1"
    and name: "km_may_set m key name"
  defines "m2 \<equiv> km_put key name since m1"
  shows "km_tidy (case name of Full s \<Rightarrow> {key} | _ \<Rightarrow> {}) m2" "acyclic (km_ups m2)"
proof -
  note p = km_put_effect [of key name since m1, folded m2_def]
  have ups: "(b, k) \<in> km_ups m2 \<longleftrightarrow> (if k = key then \<exists>rel. name = Below b rel else (b, k) \<in> km_ups m1)" for b k
    by (auto simp: km_ups_def p(2))
  have "distinct (map fst (km_map m1))"
    using ok u(1) by (auto simp: km_ok_def km_less_def intro: distinct_map_filter)
  then have d: "distinct (map fst (km_map m2))" using p(4) by auto
  have l: "km_links {} m2" using u(2) by (auto simp: km_links_def ups p(3) split: if_splits)
  have c: "km_children m1 k \<noteq> [] \<Longrightarrow> km_children m2 k \<noteq> []" for k
    using p(3) [of k] by (auto simp: set_empty [symmetric] simp del: set_empty split: if_splits)
  then have t: "km_tombs {} m2" using u(3) by (auto simp: km_tombs_def p(1) split: if_splits)
  have f: "km_fulls (case name of Full s \<Rightarrow> {key} | _ \<Rightarrow> {}) m2"
    unfolding km_fulls_def
  proof (intro allI impI, elim conjE)
    fix b s
    assume b: "kname m2 b = Some (Full s)" "b \<notin> (case name of Full s \<Rightarrow> {key} | _ \<Rightarrow> {})"
    then have "b \<noteq> key" by (auto simp: p(2) split: key_name.splits)
    then have k: "kname m1 b = Some (Full s)" using b(1) by (simp add: p(2))
    then have "km_full m b = Some s" by (simp add: km_full_kname km_less_kname [OF u(1)] split: if_splits)
    then have "\<nexists>rel. name = Below b rel" using name by (auto simp: km_may_set_def)
    moreover have "km_children m1 b = []" using k u(4) by (auto simp: km_fulls_def)
    ultimately show "km_children m2 b = []" using p(3) [of b] by (auto simp: set_empty [symmetric] simp del: set_empty)
  qed
  show "km_tidy (case name of Full s \<Rightarrow> {key} | _ \<Rightarrow> {}) m2" using d l t f by (simp add: km_tidy_def)
  have a: "acyclic (km_ups m1)" using ok km_less_ups [OF u(1)] by (auto simp: km_ok_def intro: acyclic_subset)
  show "acyclic (km_ups m2)"
  proof (cases "\<exists>b rel. name = Below b rel")
    case False
    then show ?thesis using ups by (intro acyclic_subset [OF a]) (auto split: if_splits)
  next
    case True
    then obtain b rel where n: "name = Below b rel" by blast
    then have b: "b \<noteq> key" "\<And>x. (key, x) \<notin> km_ups m1"
      using name km_less_ups [OF u(1)] by (auto simp: km_may_set_def)
    have "(key, b) \<notin> (km_ups m1)\<^sup>*" using b by (metis converse_rtranclE)
    then have "acyclic (insert (b, key) (km_ups m1))" using a by simp
    moreover have "km_ups m2 \<subseteq> insert (b, key) (km_ups m1)" using ups n by (auto split: if_splits)
    ultimately show ?thesis by (rule acyclic_subset)
  qed
qed

lemma km_set_ok:
  assumes ok: "km_ok {key} m" and len: "length (km_map m) \<le> km_cap m"
    and name: "km_may_set m key name" and cap: "1 \<le> km_cap m"
  obtains m1 D m3 m' E where "km_set key name since m = Some m'" "km_inv m'"
    "km_less D m m1" "km_links {key} m1"
    "\<And>d. d \<in> D \<Longrightarrow> (d, key) \<in> (km_ups m)\<^sup>+" "\<And>d. d \<in> D \<Longrightarrow> km_children m1 d = []" "key \<notin> D"
    "\<And>d. d \<in> D \<Longrightarrow> \<exists>e. map_of (km_map m) d = Some e \<and> ke_closed e \<noteq> None"
    "km_after (km_put key name since m1) m3" "km_tidy {} m3" "km_less E m3 m'" "key \<notin> E"
    "length (km_map m) < km_cap m \<or> kname m key \<noteq> None \<Longrightarrow> E = {}"
    "\<And>base rel. name = Below base rel \<Longrightarrow> m3 = km_put key name since m1"
proof -
  obtain m1 D where u: "km_unlink key m = Some m1" "km_less D m m1" "km_links {key} m1" "km_tombs {key} m1" "km_fulls {} m1"
    "\<And>d. d \<in> D \<Longrightarrow> (d, key) \<in> (km_ups m)\<^sup>+" "\<And>d. d \<in> D \<Longrightarrow> km_children m1 d = []"
    "\<And>d. d \<in> D \<Longrightarrow> \<exists>e. map_of (km_map m) d = Some e \<and> ke_closed e \<noteq> None" "key \<notin> D"
    by (rule unlink_top [OF ok, of key]) (rule that)
  let ?m2 = "km_put key name since m1"
  note p = km_put_effect [of key name since m1]
  have t2: "km_tidy (case name of Full s \<Rightarrow> {key} | _ \<Rightarrow> {}) ?m2" "acyclic (km_ups ?m2)"
    using km_put_ok [OF ok u(2-5) name] by auto
  define loop where "loop = (case name of
      Full s \<Rightarrow> km_name_children [key] ?m2 | Below base rel \<Rightarrow> Some ?m2 | Orphan rel \<Rightarrow> Some ?m2)"
  have "\<exists>m3. loop = Some m3 \<and> km_tidy {} m3 \<and> km_after ?m2 m3"
    using t2(1) km_name_children_ok [of "[key]" ?m2] km_after_refl by (auto simp: loop_def split: key_name.splits)
  then obtain m3 where m3: "loop = Some m3" "km_tidy {} m3" "km_after ?m2 m3" by blast
  have same: "m3 = ?m2" if "name = Below base rel" for base rel using m3(1) that by (simp add: loop_def)
  have kept: "km_kept ?m2 m3" using m3(3) by (simp add: km_after_def)
  have f: "km_cap m1 = km_cap m" "km_clock m1 = km_clock m" using u(2) by (simp_all add: km_less_def)
  have cl: "km_cap m3 = km_cap m" "km_clock m3 = km_clock m + 1" using m3(3) p(5,6) f by (simp_all add: km_after_def)
  have touched: "ke_touched x \<le> km_clock m \<or> k = key \<and> ke_touched x = km_clock m + 1"
    if k: "map_of (km_map m3) k = Some x" for k x
  proof -
    obtain y where y: "map_of (km_map ?m2) k = Some y" "ke_touched y = ke_touched x"
      by (rule km_kept_some [OF kept k])
    show ?thesis
    proof (cases "k = key")
      case True
      then show ?thesis using y f(2) by (auto simp: p(1))
    next
      case False
      then have "map_of (km_map m1) k = Some y" using y(1) by (simp add: p(1))
      then have "map_of (km_map m) k = Some y" using km_less_map [OF u(2), of k] by (simp split: if_splits)
      then have "ke_touched y \<le> km_clock m" using ok by (simp add: km_ok_def)
      then show ?thesis using y(2) by simp
    qed
  qed
  have "acyclic (km_ups m3)" using m3(3) t2(2) by (auto simp: km_after_def intro: acyclic_subset)
  then have ok3: "km_ok {} m3" using m3(2) touched cl(2) by (force simp: km_ok_tidy)
  have len1: "length (km_map m1) \<le> length (km_map m)" using u(2) by (simp add: km_less_def)
  have len2: "length (km_map m3) \<le> length (km_map m) + 1"
    "kname m key \<noteq> None \<Longrightarrow> length (km_map m3) \<le> length (km_map m)"
  proof -
    have l3: "length (km_map m3) \<le> length (km_map ?m2)" using m3(3) by (simp add: km_after_def)
    have l2: "length (km_map ?m2) = length (km_map m1) + (if key \<in> set (map fst (km_map m1)) then 0 else 1)"
      using arg_cong [OF p(4), of length] by (simp split: if_splits)
    show "length (km_map m3) \<le> length (km_map m) + 1" using l2 l3 len1 by (simp split: if_splits)
    show "length (km_map m3) \<le> length (km_map m)" if "kname m key \<noteq> None"
    proof -
      have "kname m1 key \<noteq> None" using that u(9) by (simp add: km_less_kname [OF u(2)])
      then have "key \<in> set (map fst (km_map m1))" by (auto simp: kname_def dest: map_of_SomeD) (metis fst_conv imageI map_of_SomeD)
      then show ?thesis using l2 l3 len1 by simp
    qed
  qed
  have res: "km_set key name since m = (if length (km_map m3) > km_cap m3 then km_evict_batch m3 else Some m3)"
    using u(1) m3(1) by (simp add: km_set_def loop_def)
  show thesis
  proof (cases "length (km_map m3) > km_cap m3")
    case False
    show thesis
      by (rule that [of m3 D m1 m3 "{}", OF _ _ u(2,3)])
        (use False res ok3 u(6-9) m3(2,3) same km_less_refl in \<open>auto simp: km_inv_def\<close>)
  next
    case True
    obtain x where x: "map_of (km_map m3) key = Some x" "ke_closed x = None" "ke_touched x = km_clock m + 1"
    proof (rule km_kept_open [OF kept])
      show "map_of (km_map ?m2) key =
          Some \<lparr>ke_name = name, ke_since = since, ke_closed = None, ke_touched = km_clock m + 1\<rparr>"
        by (simp add: p(1) f(2))
    qed (use that in auto)
    obtain m' E where e: "km_evict_batch m3 = Some m'" "km_less E m3 m'" "km_ok {} m'"
      "km_map m3 \<noteq> [] \<Longrightarrow> length (km_map m') < length (km_map m3)"
      "2 \<le> length (km_map m3) \<Longrightarrow>
        (\<And>j y. j \<noteq> key \<Longrightarrow> map_of (km_map m3) j = Some y \<Longrightarrow> ke_touched y < ke_touched x) \<Longrightarrow> key \<notin> E"
      using km_evict_batch_ok [OF ok3] x(1,2) by metis
    have big: "2 \<le> length (km_map m3)" "km_map m3 \<noteq> []" using True cl(1) cap by auto
    have "key \<notin> E"
    proof (rule e(5) [OF big(1)])
      show "ke_touched y < ke_touched x" if "j \<noteq> key" "map_of (km_map m3) j = Some y" for j y
        using touched [OF that(2)] that(1) x(3) by simp
    qed
    moreover have "length (km_map m') \<le> km_cap m'"
      using e(4) [OF big(2)] len2(1) len e(2) cl(1) by (simp add: km_less_def)
    moreover have "\<not> (length (km_map m) < km_cap m \<or> kname m key \<noteq> None)" using True cl(1) len2 len by linarith
    ultimately show thesis
      using that [of m' D m1 m3 E, OF _ _ u(2,3,6,7,9,8) m3(3,2) e(2)] e(1,3) res True same by (simp add: km_inv_def)
  qed
qed

section \<open>Operations keep the invariant\<close>

lemma km_orphan_children_ok:
  assumes ok: "km_ok {} m"
  shows "km_ok {key} (km_orphan_children key m)"
    "(b, k) \<in> km_ups (km_orphan_children key m) \<longleftrightarrow> b \<noteq> key \<and> (b, k) \<in> km_ups m"
    "km_full (km_orphan_children key m) = km_full m"
    "kname m key = None \<Longrightarrow> km_ok {} (km_orphan_children key m)"
proof -
  have l: "km_links {} m" using ok by (simp add: km_ok_def)
  note e = km_orphan_children_effect [OF l, of key]
  have ups: "(b, k) \<in> km_ups (km_orphan_children key m) \<longleftrightarrow> b \<noteq> key \<and> (b, k) \<in> km_ups m" for b k
    by (auto simp: km_ups_def e(1) orphaned_def split: if_splits)
  then show "(b, k) \<in> km_ups (km_orphan_children key m) \<longleftrightarrow> b \<noteq> key \<and> (b, k) \<in> km_ups m" .
  have full: "kname (km_orphan_children key m) k = Some (Full s) \<longleftrightarrow> kname m k = Some (Full s)" for k s
    by (auto simp: e(1) km_ups_def orphaned_def)
  show "km_full (km_orphan_children key m) = km_full m"
  proof
    fix k
    show "km_full (km_orphan_children key m) k = km_full m k"
      by (rule option_eqI_all) (simp add: km_full_kname full)
  qed
  have kept: "km_kept m (km_orphan_children key m)" using e(2) by (rule kept_of_unnamed)
  have t: "km_children (km_orphan_children key m) k \<noteq> []"
    if x: "map_of (km_map (km_orphan_children key m)) k = Some x" "ke_closed x \<noteq> None" "k \<noteq> key" for k x
  proof -
    obtain y where "map_of (km_map m) k = Some y" "ke_closed y = ke_closed x" by (rule km_kept_some [OF kept x(1)])
    then show ?thesis using ok x(2,3) by (auto simp: km_ok_def km_tombs_def e(3))
  qed
  have touched: "ke_touched x \<le> km_clock m" if x: "map_of (km_map (km_orphan_children key m)) k = Some x" for k x
  proof -
    obtain y where "map_of (km_map m) k = Some y" "ke_touched y = ke_touched x" by (rule km_kept_some [OF kept x])
    moreover from this(1) have "ke_touched y \<le> km_clock m" using ok unfolding km_ok_def by blast
    ultimately show ?thesis by simp
  qed
  have "km_ups (km_orphan_children key m) \<subseteq> km_ups m" by (auto simp: ups)
  moreover have "acyclic (km_ups m)" using ok by (simp add: km_ok_def)
  ultimately have "acyclic (km_ups (km_orphan_children key m))" by (rule acyclic_subset [rotated])
  then show x: "km_ok {key} (km_orphan_children key m)"
    using ok t touched unfolding km_ok_def
    by (auto simp: km_links_def ups e(3-6) km_tombs_def km_fulls_def full)
  show "km_ok {} (km_orphan_children key m)" if "kname m key = None"
  proof -
    have "map_of (km_map (km_orphan_children key m)) key = None"
      using e(2) [of key] that by (simp add: kname_def)
    then show ?thesis using x unfolding km_ok_def km_tombs_def by (metis empty_iff insert_iff option.distinct(1))
  qed
qed

definition km_self_based :: "u64 \<Rightarrow> u64 \<Rightarrow> rstr \<Rightarrow> bool" where
  "km_self_based key base relative \<longleftrightarrow> base = key \<and> \<not> starts_with_ci relative REGISTRY_PREFIX"

lemma km_open_may_set:
  assumes ok: "km_ok {} m" and self: "\<not> km_self_based key base relative"
  shows "km_may_set (km_orphan_children key m) key (km_open_name base relative (km_orphan_children key m))"
  using self km_orphan_children_ok(2) [OF ok]
  by (auto simp: km_may_set_def km_open_name_def km_self_based_def split: option.splits)

lemma km_inv_parts: "km_inv m \<Longrightarrow> km_ok {} m" "km_inv m \<Longrightarrow> length (km_map m) \<le> km_cap m"
  by (simp_all add: km_inv_def)

lemma length_orphaned:
  assumes "km_ok {} m"
  shows "length (km_map (km_orphan_children key m)) = length (km_map m)" "km_cap (km_orphan_children key m) = km_cap m"
proof -
  have l: "km_links {} m" using assms by (simp add: km_ok_def)
  show "length (km_map (km_orphan_children key m)) = length (km_map m)" "km_cap (km_orphan_children key m) = km_cap m"
    using km_orphan_children_effect(4,5) [OF l, of key] by (metis length_map)+
qed

lemma km_replace_ok:
  assumes inv: "km_inv m" and e: "map_of (km_map m) key = Some e"
    and e': "ke_name e' = ke_name e" "ke_closed e' \<noteq> None \<longrightarrow> km_children m key \<noteq> []"
      "ke_touched e' \<le> t" "km_clock m \<le> t"
  shows "km_inv (m\<lparr>km_clock := t, km_map := AList.update key e' (km_map m)\<rparr>)"
proof -
  let ?m = "m\<lparr>km_clock := t, km_map := AList.update key e' (km_map m)\<rparr>"
  have k: "kname ?m = kname m" using e e'(1) by (auto simp: kname_def update_conv' fun_eq_iff)
  have c: "km_children ?m = km_children m" by (simp add: km_children_def fun_eq_iff)
  have d: "map fst (km_map ?m) = map fst (km_map m)" using update_known_keys [OF e] by simp
  have l: "length (km_map ?m) = length (km_map m)" using arg_cong [OF d, of length] by simp
  have "ke_touched x \<le> t" if "map_of (km_map ?m) j = Some x" for j x
    using that inv e'(3,4) by (fastforce simp: update_conv' km_inv_def km_ok_def split: if_splits)
  moreover have "km_tombs {} ?m"
    using inv e'(2) by (auto simp: km_tombs_def km_inv_def km_ok_def update_conv' c)
  ultimately show ?thesis
    using inv d l unfolding km_inv_def km_ok_def km_links_def km_fulls_def km_ups_def k c by simp
qed

lemma km_open_total:
  assumes inv: "km_inv m" and cap: "1 \<le> km_cap m" and self: "\<not> km_self_based key base relative"
  shows "\<exists>m'. km_open key base relative ts m = Some m' \<and> km_inv m' \<and> km_cap m' = km_cap m"
proof -
  let ?m = "km_orphan_children key m" and ?n = "km_open_name base relative (km_orphan_children key m)"
  note ok = km_inv_parts [OF inv]
  note l = length_orphaned [OF ok(1), of key]
  show ?thesis
  proof (rule km_set_ok [OF km_orphan_children_ok(1) [OF ok(1)] _ km_open_may_set [OF ok(1) self], of ts])
    fix m1 D m3 m' E
    assume r: "km_set key ?n ts ?m = Some m'" "km_inv m'" "km_less D ?m m1" "km_after (km_put key ?n ts m1) m3" "km_less E m3 m'"
    then have "km_cap m' = km_cap m"
      using l km_put_effect(5) [of key ?n ts m1] by (simp add: km_less_def km_after_def)
    then show ?thesis using r(1,2) by (simp add: km_open_def Let_def)
  qed (use l ok cap in simp_all)
qed

lemma km_seed_total:
  assumes inv: "km_inv m" and cap: "1 \<le> km_cap m"
  shows "\<exists>r m'. km_seed key full taken m = Some (r, m') \<and> km_inv m' \<and> km_cap m' = km_cap m"
proof (cases "is_some_and (map_of (km_map m) key) (\<lambda>e. ke_since e > taken)")
  case True
  then show ?thesis using inv by (auto simp: km_seed_def)
next
  case False
  note ok = km_inv_parts [OF inv]
  note l = length_orphaned [OF ok(1), of key]
  let ?m = "if is_some_and (map_of (km_map m) key) (\<lambda>e. is_some_and (ke_closed e) (\<lambda>c. c \<le> taken))
    then km_orphan_children key m else m"
  have o: "km_ok {key} ?m" using km_orphan_children_ok(1) [OF ok(1)] km_ok_mono [OF ok(1)] by simp
  show ?thesis
  proof (rule km_set_ok [OF o, of "Full full" taken])
    fix m1 D m3 m' E
    assume r: "km_set key (Full full) taken ?m = Some m'" "km_inv m'" "km_less D ?m m1"
      "km_after (km_put key (Full full) taken m1) m3" "km_less E m3 m'"
    then have "km_cap m' = km_cap m"
      using l km_put_effect(5) [of key "Full full" taken m1] by (simp add: km_less_def km_after_def split: if_splits)
    then show ?thesis using r(1,2) False by (auto simp: km_seed_def Let_def)
  qed (use l ok cap in \<open>simp_all add: km_may_set_def\<close>)
qed

lemma km_close_total:
  assumes inv: "km_inv m"
  shows "\<exists>m'. km_close key ts m = Some m' \<and> km_inv m' \<and> km_cap m' = km_cap m"
proof (cases "map_of (km_map m) key")
  case None
  then show ?thesis
    using km_orphan_children_ok(4) [OF km_inv_parts(1) [OF inv], of key] length_orphaned [OF km_inv_parts(1) [OF inv], of key] inv
    by (simp add: km_close_def km_inv_def kname_def)
next
  case (Some e)
  have ok: "km_ok {} m" by (rule km_inv_parts(1) [OF inv])
  show ?thesis
  proof (cases "km_waited_on key m")
    case True
    have "m\<lparr>km_map := x\<rparr> = m\<lparr>km_clock := km_clock m, km_map := x\<rparr>" for x by simp
    then show ?thesis
      using km_replace_ok [OF inv Some, of "e\<lparr>ke_closed := Some ts\<rparr>" "km_clock m"] True Some ok
      by (simp add: km_close_def km_waited_on_children km_ok_def)
  next
    case False
    obtain m' D where r: "km_remove key m = Some m'" "km_less (insert key D) m m'" "km_ok {} m'"
      by (rule km_remove_ok [OF ok, of key]) (rule that)
    have "length (km_map m') \<le> length (km_map m)" "km_cap m' = km_cap m" using r(2) by (simp_all add: km_less_def)
    then show ?thesis using r(1,3) False Some km_inv_parts(2) [OF inv] by (simp add: km_close_def km_inv_def)
  qed
qed

lemma km_resolve_inv:
  assumes inv: "km_inv m"
  shows "km_inv (snd (km_resolve key m)) \<and> km_cap (snd (km_resolve key m)) = km_cap m"
proof (cases "map_of (km_map m) key")
  case None
  have "km_inv (m\<lparr>km_clock := km_clock m + 1\<rparr>)"
    using inv by (auto simp: km_inv_def km_ok_def km_rel_defs km_children_def le_SucI)
  then show ?thesis using None by (simp add: km_resolve_def Let_def)
next
  case (Some e)
  have "ke_closed e \<noteq> None \<longrightarrow> km_children m key \<noteq> []" using inv Some by (auto simp: km_inv_def km_ok_def km_tombs_def)
  then show ?thesis
    using km_replace_ok [OF inv Some, of "e\<lparr>ke_touched := km_clock m + 1\<rparr>" "km_clock m + 1"] Some
    by (simp add: km_resolve_def Let_def)
qed

section \<open>Properties\<close>

text \<open>The operations as the pipeline calls them, in any order.\<close>

datatype key_op = KOpen u64 u64 rstr int | KSeed u64 rstr int | KClose u64 int | KResolve u64

primrec km_step :: "key_op \<Rightarrow> keymap \<Rightarrow> keymap option" where
  "km_step (KOpen key base relative ts) m = km_open key base relative ts m"
| "km_step (KSeed key full taken) m = map_option snd (km_seed key full taken m)"
| "km_step (KClose key ts) m = km_close key ts m"
| "km_step (KResolve key) m = Some (snd (km_resolve key m))"

primrec km_run :: "key_op list \<Rightarrow> keymap \<Rightarrow> keymap option" where
  "km_run [] m = Some m"
| "km_run (op # ops) m = Option.bind (km_step op m) (km_run ops)"

lemma km_run_snoc: "km_run (ops @ [op]) m = Option.bind (km_run ops m) (km_step op)"
  by (induction ops arbitrary: m) (auto split: Option.bind_split)

primrec key_op_ok :: "key_op \<Rightarrow> bool" where
  "key_op_ok (KOpen key base relative ts) = (\<not> km_self_based key base relative)"
| "key_op_ok (KSeed key full taken) = True"
| "key_op_ok (KClose key ts) = True"
| "key_op_ok (KResolve key) = True"

lemma km_inv_new: "km_inv (km_new cap)"
  by (simp add: km_inv_def km_ok_def km_rel_defs km_new_def km_children_def acyclic_def)

lemma km_step_total:
  assumes "km_inv m" "1 \<le> km_cap m" "key_op_ok op"
  shows "\<exists>m'. km_step op m = Some m' \<and> km_inv m' \<and> km_cap m' = km_cap m"
proof (cases op)
  case (KSeed key full taken)
  then show ?thesis using km_seed_total [OF assms(1,2), of key full taken] by auto
qed (use assms km_open_total km_close_total km_resolve_inv in auto)

lemma km_run_total:
  "km_inv m \<Longrightarrow> 1 \<le> km_cap m \<Longrightarrow> \<forall>op \<in> set ops. key_op_ok op \<Longrightarrow>
    \<exists>m'. km_run ops m = Some m' \<and> km_inv m' \<and> km_cap m' = km_cap m"
proof (induction ops arbitrary: m)
  case (Cons op ops)
  obtain m1 where m1: "km_step op m = Some m1" "km_inv m1" "km_cap m1 = km_cap m"
    using km_step_total [of m op] Cons.prems by auto
  then show ?case using Cons.IH [of m1] Cons.prems by auto
qed simp

text \<open>C25: the key map never loops and never grows past its cap. Whatever opens, seeds, closes and
  lookups come, in whatever order, each returns and leaves the invariant: a key waits for a base
  exactly when its name is below it, no key is below itself through others, no named key has
  children waiting, and a closed key is kept only while children wait for it. The one exception is
  an open relative to the key's own handle.\<close>

theorem keymap_runs:
  assumes "\<forall>op \<in> set ops. key_op_ok op" "1 \<le> cap"
  shows "\<exists>m. km_run ops (km_new cap) = Some m \<and> km_inv m \<and> km_len m \<le> cap"
  using km_run_total [OF km_inv_new, of cap ops] assms by (auto simp: km_inv_def km_len_def km_new_def)

theorem keymap_runs_witness:
  "\<exists>m. km_run [KOpen 2 1 [97] 10, KOpen 3 2 [98] 11, KClose 2 13, KSeed 1 [104] 12] (km_new 8) = Some m \<and> km_len m \<le> 8"
  using keymap_runs [of "[KOpen 2 1 [97] 10, KOpen 3 2 [98] 11, KClose 2 13, KSeed 1 [104] 12]" 8]
  by (auto simp: km_self_based_def)

text \<open>The exception: a closed entry below itself sends \<open>unlink\<close> into a recursion without end.\<close>

lemma km_unlink_self:
  "km_unlink k m = Some m' \<Longrightarrow>
   \<not> (\<exists>e rel. map_of (km_map m) k = Some e \<and> ke_name e = Below k rel \<and> ke_closed e \<noteq> None \<and>
        set (km_children m k) \<subseteq> {k})"
proof (induction rule: km_unlink.raw_induct [rotated, consumes 1, case_names step])
  case (step unlink k m m')
  show ?case
  proof
    assume "\<exists>e rel. map_of (km_map m) k = Some e \<and> ke_name e = Below k rel \<and> ke_closed e \<noteq> None \<and>
      set (km_children m k) \<subseteq> {k}"
    then obtain e rel where e: "map_of (km_map m) k = Some e" "ke_name e = Below k rel" "ke_closed e \<noteq> None"
      "set (km_children m k) \<subseteq> {k}" by blast
    have c: "km_children (km_unwait k k m) k = []" using e(4) by (auto simp: km_children_unwait filter_empty_conv)
    then have "km_dead k (km_unwait k k m)" using e by (simp add: km_dead_iff)
    then obtain y where "unlink k (km_unwait k k m) = Some y"
      using step.hyps e by (auto simp: Let_def bind_eq_Some_conv)
    from step.IH [OF this] show False using e c by auto
  qed
qed

lemma self_based_overflow:
  "km_run [KOpen 5 5 [97] 1, KClose 5 2, KSeed 5 [92] 1] (km_new 8) = None"
proof -
  let ?e = "\<lparr>ke_name = Below 5 [97], ke_since = 1, ke_closed = Some 2, ke_touched = 1\<rparr>"
  let ?m = "\<lparr>km_map = [(5, ?e)], km_waiting = [(5, [5])], km_cap = 8, km_clock = 1, km_evictions = 0\<rparr>"
  have u: "km_unlink 5 (km_new 8) = Some (km_new 8)" by (subst km_unlink.simps) (simp add: km_new_def)
  have "km_open 5 5 [97] 1 (km_new 8) = Some (?m\<lparr>km_map := [(5, ?e\<lparr>ke_closed := None\<rparr>)]\<rparr>)"
    using u by (simp add: km_open_def km_open_name_def km_set_def km_put_def km_wait_def km_children_def
        km_orphan_children_def km_new_def km_full_def starts_with_ci_def REGISTRY_PREFIX_def Let_def)
  moreover have "km_close 5 2 (?m\<lparr>km_map := [(5, ?e\<lparr>ke_closed := None\<rparr>)]\<rparr>) = Some ?m"
    by (simp add: km_close_def km_waited_on_def)
  moreover have "km_unlink 5 ?m = None"
  proof (rule ccontr)
    assume "km_unlink 5 ?m \<noteq> None"
    then obtain y where "km_unlink 5 ?m = Some y" by blast
    from km_unlink_self [OF this] show False by (simp add: km_children_def)
  qed
  then have "km_seed 5 [92] 1 ?m = None" by (simp add: km_seed_def km_set_def)
  ultimately show ?thesis by simp
qed

text \<open>\<open>k\<close> is below \<open>b\<close>, by the relative names \<open>rels\<close> from \<open>b\<close> down.\<close>

inductive key_below :: "keymap \<Rightarrow> u64 \<Rightarrow> u64 \<Rightarrow> rstr list \<Rightarrow> bool" for m b where
  one: "kname m k = Some (Below b rel) \<Longrightarrow> key_below m b k [rel]"
| step: "kname m k = Some (Below c rel) \<Longrightarrow> key_below m b c rels \<Longrightarrow> key_below m b k (rels @ [rel])"

lemma key_below_ups: "key_below m b k rels \<Longrightarrow> (b, k) \<in> (km_ups m)\<^sup>+"
proof (induction rule: key_below.induct)
  case (one k rel)
  then have "(b, k) \<in> km_ups m" by (simp add: km_ups_def)
  then show ?case ..
next
  case (step k c rel rels)
  then have "(c, k) \<in> km_ups m" by (simp add: km_ups_def)
  with step.IH show ?case ..
qed

text \<open>Below a key about to be set, nothing is lost by unlinking the key.\<close>

lemma key_below_named:
  assumes ok: "km_ok Y m" and less: "km_less D m m1" and D: "\<And>d. d \<in> D \<Longrightarrow> (d, key) \<in> (km_ups m)\<^sup>+"
  shows "key_below m key k rels \<Longrightarrow>
    key_named (km_put key (Full full) since m1) k (foldl key_join full rels)"
proof (induction rule: key_below.induct)
  have a: "acyclic (km_ups m)" using ok by (simp add: km_ok_def)
  have name: "kname (km_put key (Full full) since m1) k = Some n"
    if "kname m k = Some n" "(key, k) \<in> (km_ups m)\<^sup>+" for k n
  proof -
    have "k \<noteq> key" using that(2) a by (auto simp: acyclic_def)
    moreover have "k \<notin> D" using D [of k] that(2) a by (meson acyclic_def trancl_trans)
    ultimately show ?thesis using that(1) by (simp add: km_put_effect(2) km_less_kname [OF less])
  qed
  {
    case (one k rel)
    have "key_below m key k [rel]" using one by (rule key_below.one)
    from name [OF one key_below_ups [OF this]] show ?case
      by (simp add: key_named.below [OF _ key_named.direct] km_put_effect(2))
  next
    case (step k c rel rels)
    have "key_below m key k (rels @ [rel])" using step.hyps by (rule key_below.step)
    from key_named.below [OF name [OF step.hyps(1) key_below_ups [OF this]] step.IH] show ?case by simp
  }
qed

text \<open>The handles below an object whose address gets a new one, at any depth: their chain ends in a
  handle without a base, so a name put at the address names none of them.\<close>

lemma key_below_orphaned:
  assumes ok: "km_ok {} m" and l: "km_less D (km_orphan_children key m) m1" and b: "key_below m key k rels"
  shows "\<not> key_named (km_put key n ts m1) k s"
  using b
proof (induction arbitrary: s rule: key_below.induct)
  have links: "km_links {} m" and ac: "acyclic (km_ups m)" using ok by (simp_all add: km_ok_def)
  let ?m2 = "km_put key n ts m1"
  {
    case (one k rel)
    have up: "(key, k) \<in> km_ups m" using one by (simp add: km_ups_def)
    then have "k \<noteq> key" using ac by (auto simp: acyclic_def)
    then have "kname ?m2 k \<in> {None, Some (Orphan rel)}"
      using km_orphan_children_effect(1) [OF links, of key k] up one
      by (simp add: km_put_effect(2) km_less_kname [OF l] orphaned_def)
    then show ?case by (auto elim: key_named_fullE)
  next
    case (step k c rel rels)
    have below: "key_below m key k (rels @ [rel])" using step.hyps by (rule key_below.step)
    then have up: "(key, k) \<in> (km_ups m)\<^sup>+" by (rule key_below_ups)
    then have k: "k \<noteq> key" using ac by (auto simp: acyclic_def)
    have "c \<noteq> key" using key_below_ups [OF step.hyps(2)] ac by (auto simp: acyclic_def)
    then have "(key, k) \<notin> km_ups m" using step.hyps(1) by (auto simp: km_ups_def)
    then have "kname ?m2 k \<in> {None, Some (Below c rel)}"
      using km_orphan_children_effect(1) [OF links, of key k] k step.hyps(1)
      by (simp add: km_put_effect(2) km_less_kname [OF l] orphaned_def)
    then show ?case using step.IH by (auto elim: key_named_fullE)
  }
qed

lemma km_orphaned_set:
  assumes inv: "km_inv m" and cap: "1 \<le> km_cap m" and name: "km_may_set (km_orphan_children key m) key n"
    and based: "\<And>rel. n \<noteq> Orphan rel"
  shows "\<exists>m'. km_set key n ts (km_orphan_children key m) = Some m' \<and> kname m' key = Some n \<and>
    (\<forall>k rels s. key_below m key k rels \<longrightarrow> kname m' k \<noteq> Some (Full s))"
proof -
  let ?m = "km_orphan_children key m"
  note ok = km_inv_parts [OF inv]
  show ?thesis
  proof (rule km_set_ok [OF km_orphan_children_ok(1) [OF ok(1)] _ name, of ts])
    fix m1 D m3 m' E
    let ?m2 = "km_put key n ts m1"
    assume r: "km_set key n ts ?m = Some m'" "km_less D ?m m1" "km_after ?m2 m3" "km_tidy {} m3" "km_less E m3 m'" "key \<notin> E"
      "\<And>base rel. n = Below base rel \<Longrightarrow> m3 = ?m2"
    have kept: "km_kept ?m2 m3" and same: "km_same_names ?m2 m3" using r(3) by (simp_all add: km_after_def)
    have key2: "kname ?m2 key = Some n" by (simp add: km_put_effect(2))
    have "kname m3 key = Some n"
    proof (cases n)
      case (Full s)
      obtain x where "map_of (km_map m3) key = Some x"
        by (rule km_kept_open [OF kept, of key]) (simp add: km_put_effect(1), simp)
      moreover have "key_named ?m2 key s" using key2 Full by (simp add: key_named.direct)
      ultimately have "key_named m3 key s" using same by (simp add: km_same_names_def kname_def)
      then show ?thesis using tidy_named [OF r(4)] Full by simp
    next
      case (Below b rel)
      then show ?thesis using r(7) key2 by simp
    qed (use based in simp)
    then have k: "kname m' key = Some n" using r(6) by (simp add: km_less_kname [OF r(5)])
    have "kname m' k \<noteq> Some (Full s)" if "key_below m key k rels" for k rels s
    proof
      assume "kname m' k = Some (Full s)"
      then have "kname m3 k = Some (Full s)" by (simp add: km_less_kname [OF r(5)] split: if_splits)
      then have "key_named ?m2 k s" using same by (auto simp: km_same_names_def intro: key_named.direct)
      then show False using key_below_orphaned [OF ok(1) r(2) that] by blast
    qed
    then show ?thesis using r(1) k by blast
  qed (use length_orphaned [OF ok(1), of key] ok(2) cap in simp_all)
qed

lemma km_set_names_below:
  assumes inv: "km_inv m" and cap: "1 \<le> km_cap m"
    and fresh: "is_none_or (map_of (km_map m) key) (\<lambda>e. ke_since e \<le> taken \<and> is_none_or (ke_closed e) (\<lambda>c. taken < c))"
  shows "\<exists>m'. km_seed key full taken m = Some (True, m') \<and> kname m' key = Some (Full full) \<and>
    (\<forall>k rels. key_below m key k rels \<and> km_contains k m' \<longrightarrow> kname m' k = Some (Full (foldl key_join full rels))) \<and>
    (km_len m < km_cap m \<or> km_contains key m \<longrightarrow>
      (\<forall>k e. map_of (km_map m) k = Some e \<and> ke_closed e = None \<longrightarrow> km_contains k m'))"
proof -
  have ok: "km_ok {key} m" and len: "length (km_map m) \<le> km_cap m"
    using km_ok_mono [OF km_inv_parts(1) [OF inv]] km_inv_parts(2) [OF inv] by auto
  have seed: "km_seed key full taken m = map_option (Pair True) (km_set key (Full full) taken m)"
    using fresh by (cases "map_of (km_map m) key")
      (auto simp: km_seed_def Let_def is_some_and_def is_none_or_def split: option.splits)
  have name: "km_may_set m key (Full full)" by (simp add: km_may_set_def)
  show ?thesis
  proof (rule km_set_ok [OF ok len name cap, of taken])
    fix m1 D m3 m' E
    let ?m2 = "km_put key (Full full) taken m1"
    assume r: "km_set key (Full full) taken m = Some m'" "km_less D m m1" "\<And>d. d \<in> D \<Longrightarrow> (d, key) \<in> (km_ups m)\<^sup>+"
      "\<And>d. d \<in> D \<Longrightarrow> \<exists>e. map_of (km_map m) d = Some e \<and> ke_closed e \<noteq> None"
      "km_after ?m2 m3" "km_tidy {} m3" "km_less E m3 m'" "key \<notin> E"
      "length (km_map m) < km_cap m \<or> kname m key \<noteq> None \<Longrightarrow> E = {}"
    have kept: "km_kept ?m2 m3" and same: "km_same_names ?m2 m3" using r(5) by (simp_all add: km_after_def)
    have named: "kname m' k = Some (Full s)" if "key_named ?m2 k s" "kname m' k \<noteq> None" for k s
    proof -
      have m3: "kname m3 k \<noteq> None" "kname m' k = kname m3 k"
        using that(2) by (auto simp: km_less_kname [OF r(7)] split: if_splits)
      then have "key_named m3 k s" using same that(1) by (simp add: km_same_names_def)
      then show ?thesis using tidy_named [OF r(6)] m3(2) by simp
    qed
    have has: "kname m' k \<noteq> None" if e: "map_of (km_map ?m2) k = Some e" "ke_closed e = None" "k \<notin> E" for k e
    proof -
      obtain x where "map_of (km_map m3) k = Some x" by (rule km_kept_open [OF kept e(1,2)])
      then show ?thesis using e(3) by (simp add: kname_def km_less_map [OF r(7)])
    qed
    have "key_named ?m2 key full" by (rule key_named.direct) (simp add: km_put_effect(2))
    moreover have "kname m' key \<noteq> None" by (rule has [OF _ _ r(8)], simp add: km_put_effect(1), simp)
    ultimately have k: "kname m' key = Some (Full full)" by (rule named)
    have below: "kname m' k = Some (Full (foldl key_join full rels))" if "key_below m key k rels" "km_contains k m'" for k rels
      using key_below_named [OF ok r(2,3) that(1)] that(2) by (intro named) (simp_all add: km_contains_def kname_def)
    have "km_contains k m'"
      if room: "km_len m < km_cap m \<or> km_contains key m" and e: "map_of (km_map m) k = Some e" "ke_closed e = None" for k e
    proof -
      have "E = {}" using r(9) room by (auto simp: km_len_def km_contains_def kname_def)
      moreover have "k \<notin> D" using r(4) [of k] e by auto
      ultimately have "kname m' k \<noteq> None"
        using has [of k] e by (cases "k = key") (simp_all add: km_put_effect(1) km_less_map [OF r(2)])
      then show ?thesis by (simp add: km_contains_def kname_def)
    qed
    then show ?thesis using seed r(1) k below by auto
  qed
qed



text \<open>C27: an open, other than of a handle relative to itself. The handle has the full name given, or the
  name of its base with the relative name when the base is named, or stays below its base. The open
  gives no name to the handles below an earlier object at the address, at any depth: none of them has
  a full name after it.\<close>

theorem key_open_outcome:
  assumes inv: "km_inv m" and cap: "1 \<le> km_cap m" and self: "\<not> km_self_based key base relative"
  shows "\<exists>m'. km_open key base relative ts m = Some m' \<and>
    kname m' key = Some (if starts_with_ci relative REGISTRY_PREFIX then Full relative
      else case km_full m base of Some b \<Rightarrow> Full (key_join b relative) | None \<Rightarrow> Below base relative) \<and>
    (\<forall>k rels s. key_below m key k rels \<longrightarrow> kname m' k \<noteq> Some (Full s))"
proof -
  let ?n = "km_open_name base relative (km_orphan_children key m)"
  note ok = km_inv_parts [OF inv]
  have n: "?n = (if starts_with_ci relative REGISTRY_PREFIX then Full relative
      else case km_full m base of Some b \<Rightarrow> Full (key_join b relative) | None \<Rightarrow> Below base relative)"
    by (simp add: km_open_name_def km_orphan_children_ok(3) [OF ok(1)])
  then have "?n \<noteq> Orphan rel" for rel by (simp split: option.split)
  from km_orphaned_set [OF inv cap km_open_may_set [OF ok(1) self] this, of ts]
  show ?thesis unfolding n by (simp add: km_open_def Let_def n)
qed

theorem key_open_outcome_witness:
  "\<exists>m m'. km_run [KOpen 2 1 [97] 10] (km_new 8) = Some m \<and> km_open 3 2 [98] 11 m = Some m' \<and>
     kname m' 3 = Some (case km_full m 2 of Some b \<Rightarrow> Full (key_join b [98]) | None \<Rightarrow> Below 2 [98])"
proof -
  obtain m where m: "km_run [KOpen 2 1 [97] 10] (km_new 8) = Some m" "km_inv m" "km_cap m = 8"
    using km_open_total [OF km_inv_new, of 8 2 1 "[97]" 10] by (auto simp: km_self_based_def km_new_def)
  have "\<not> km_self_based 3 2 [98]" by (simp add: km_self_based_def)
  from key_open_outcome [OF m(2) _ this, of 11] m show ?thesis by (auto simp: starts_with_ci_def REGISTRY_PREFIX_def)
qed

text \<open>
  The seeder may name a handle that is closed already, from a snapshot taken before it closed. Its
  children are named, but the entry set anew is not marked closed: the tombstone does not go, it
  stays as an open handle that no later close will remove.
\<close>

lemma seed_revives_closed:
  "\<exists>m. km_run [KOpen 2 1 [97] 10, KOpen 3 2 [98] 11, KClose 2 13, KSeed 2 [104] 12] (km_new 8) = Some m \<and>
     map_option ke_closed (map_of (km_map m) 2) = Some None \<and> km_children m 2 = []"
proof -
  have u: "km_unlink k m = Some m" if "map_of (km_map m) k = None" for k m
    using that by (subst km_unlink.simps) simp
  let ?e2 = "\<lparr>ke_name = Below 1 [97], ke_since = 10, ke_closed = Some 13, ke_touched = 1\<rparr>"
  let ?e3 = "\<lparr>ke_name = Below 2 [98], ke_since = 11, ke_closed = None, ke_touched = 2\<rparr>"
  let ?m = "\<lparr>km_map = [(2, ?e2), (3, ?e3)], km_waiting = [(1, [2]), (2, [3])], km_cap = 8, km_clock = 2, km_evictions = 0\<rparr>"
  have r: "km_run [KOpen 2 1 [97] 10, KOpen 3 2 [98] 11, KClose 2 13] (km_new 8) = Some ?m"
    by (simp add: km_open_def km_open_name_def km_set_def km_put_def km_wait_def km_children_def u
        km_orphan_children_def km_new_def km_full_def starts_with_ci_def REGISTRY_PREFIX_def Let_def
        km_close_def km_waited_on_def)
  have "km_unlink 2 ?m = Some (?m\<lparr>km_waiting := [(2, [3])]\<rparr>)"
    by (subst km_unlink.simps) (simp add: km_unwait_def km_dead_def Let_def)
  then have "\<exists>m'. km_seed 2 [104] 12 ?m = Some (True, m') \<and>
      map_option ke_closed (map_of (km_map m') 2) = Some None \<and> km_children m' 2 = []"
    by (simp add: km_seed_def km_set_def km_put_def km_full_def km_name_step_def km_children_def
        km_name_child_def km_drop_if_dead_def km_dead_def km_waited_on_def Let_def)
  moreover have "km_run ([KOpen 2 1 [97] 10, KOpen 3 2 [98] 11, KClose 2 13] @ [KSeed 2 [104] 12]) (km_new 8) =
      Option.bind (Some ?m) (km_step (KSeed 2 [104] 12))"
    by (simp only: km_run_snoc r)
  then have "km_run [KOpen 2 1 [97] 10, KOpen 3 2 [98] 11, KClose 2 13, KSeed 2 [104] 12] (km_new 8) =
      map_option snd (km_seed 2 [104] 12 ?m)"
    by (simp only: append.simps Option.bind.simps km_step.simps)
  ultimately show ?thesis by auto
qed

section \<open>Resolving\<close>

lemma km_contains_kname: "km_contains k m \<longleftrightarrow> kname m k \<noteq> None"
  by (simp add: km_contains_def kname_def)

lemma km_walk_Suc:
  "km_walk (Suc n) k rels m = (case kname m k of None \<Rightarrow> None
    | Some (Full s) \<Rightarrow> Some (RFull (foldl key_join s rels))
    | Some (Below b rel) \<Rightarrow> if \<not> km_contains b m then Some (RPartial (join_rels (rel # rels)) b) else km_walk n b (rel # rels) m
    | Some (Orphan rel) \<Rightarrow> Some (RPartial (join_rels (rel # rels)) k))"
  by (simp add: kname_def split: option.splits)

lemma km_walk_kname:
  "kname m = kname m' \<Longrightarrow> km_walk n k rels m = km_walk n k rels m'"
proof (induction n arbitrary: k rels)
  case (Suc n)
  have "km_contains b m = km_contains b m'" for b using Suc.prems by (simp add: km_contains_kname)
  then show ?case using Suc.IH Suc.prems unfolding km_walk_Suc by (simp split: option.splits key_name.splits)
qed simp

lemma resolve_kname: "fst (km_resolve k m) = km_walk MAX_DEPTH k [] m"
proof -
  have "kname (snd (km_resolve k m)) = kname m"
    by (auto simp: km_resolve_def Let_def kname_def update_conv' fun_eq_iff split: option.splits)
  then show ?thesis using km_walk_kname [of "snd (km_resolve k m)" m MAX_DEPTH k "[]"]
    by (simp add: km_resolve_def Let_def)
qed

lemma key_below_present: "key_below m b k rels \<Longrightarrow> km_contains k m"
  by (induction rule: key_below.cases) (auto simp: km_contains_def kname_def)

lemma km_walk_below:
  "key_below m b k rels \<Longrightarrow> km_contains b m \<Longrightarrow> km_walk (n + length rels) k acc m = km_walk n b (rels @ acc) m"
proof (induction arbitrary: acc rule: key_below.induct)
  case (one k rel)
  then show ?case by (auto simp: kname_def)
next
  case (step k c rel rels)
  then show ?case using key_below_present [OF step.hyps(2)] by (auto simp: kname_def)
qed

lemma km_walk_missing:
  "key_below m b k rels \<Longrightarrow> \<not> km_contains b m \<Longrightarrow>
   km_walk (n + length rels) k acc m = Some (RPartial (join_rels (rels @ acc)) b)"
proof (induction arbitrary: acc rule: key_below.induct)
  case (one k rel)
  then show ?case by (auto simp: kname_def)
next
  case (step k c rel rels)
  then show ?case using key_below_present [OF step.hyps(2)] by (auto simp: kname_def)
qed

lemma km_walk_partial:
  assumes "km_ok {} m" "\<And>s. kname m k \<noteq> Some (Full s)"
  shows "km_walk n k rels m \<noteq> Some (RFull s)"
  using assms(2)
proof (induction n arbitrary: k rels)
  case (Suc n)
  show ?case
  proof (cases "kname m k")
    case (Some x)
    show ?thesis
    proof (cases x)
      case (Below b rel)
      then have "k \<in> set (km_children m b)" using assms(1) Some by (auto simp: km_ok_def km_links_def km_ups_def)
      then have "kname m b \<noteq> Some (Full s)" for s using assms(1) by (force simp: km_ok_def km_fulls_def)
      then have "km_walk n b (rel # rels) m \<noteq> Some (RFull s)" by (rule Suc.IH)
      then show ?thesis unfolding km_walk_Suc using Some Below by simp
    next
      case (Full t)
      then show ?thesis using Suc.prems [of t] Some by simp
    next
      case (Orphan rel)
      then show ?thesis unfolding km_walk_Suc using Some by simp
    qed
  qed (simp add: km_walk_Suc del: km_walk.simps)
qed simp

text \<open>C28: resolving a handle. An unknown handle gives nothing, a named one its full name, and no other
  gives a full name; a handle below others gives the relative names from the first base that is
  missing or orphaned, up to 64 bases up, and then what is known.\<close>

theorem key_resolve_outcome:
  assumes "km_inv m"
  shows "(\<not> km_contains k m \<longrightarrow> fst (km_resolve k m) = None) \<and>
    (\<forall>s. fst (km_resolve k m) = Some (RFull s) \<longleftrightarrow> kname m k = Some (Full s)) \<and>
    (\<forall>b rels. key_below m b k rels \<and> length rels \<le> MAX_DEPTH \<and> (\<not> km_contains b m \<or> length rels = MAX_DEPTH) \<longrightarrow>
      fst (km_resolve k m) = Some (RPartial (join_rels rels) b)) \<and>
    (\<forall>b rel rels. key_below m b k rels \<and> length rels < MAX_DEPTH \<and> kname m b = Some (Orphan rel) \<longrightarrow>
      fst (km_resolve k m) = Some (RPartial (join_rels (rel # rels)) b)) \<and>
    (\<forall>rel. kname m k = Some (Orphan rel) \<longrightarrow> fst (km_resolve k m) = Some (RPartial rel k))"
  unfolding resolve_kname
proof (intro conjI allI impI)
  obtain N where suc: "MAX_DEPTH = Suc N" by (simp add: MAX_DEPTH_def)
  show "\<not> km_contains k m \<Longrightarrow> km_walk MAX_DEPTH k [] m = None"
    unfolding suc km_walk_Suc by (simp add: km_contains_kname)
  show "km_walk MAX_DEPTH k [] m = Some (RFull s) \<longleftrightarrow> kname m k = Some (Full s)" for s
  proof
    assume w: "km_walk MAX_DEPTH k [] m = Some (RFull s)"
    then obtain t where "kname m k = Some (Full t)"
      using km_walk_partial [OF km_inv_parts(1) [OF assms], of k MAX_DEPTH "[]" s] by blast
    then show "kname m k = Some (Full s)" using w unfolding suc by (auto simp: kname_def)
  qed (auto simp: suc kname_def)
  show "km_walk MAX_DEPTH k [] m = Some (RPartial rel k)" if "kname m k = Some (Orphan rel)" for rel
    using that unfolding suc by (auto simp: kname_def)
  fix b rels
  show "km_walk MAX_DEPTH k [] m = Some (RPartial (join_rels rels) b)"
    if a: "key_below m b k rels \<and> length rels \<le> MAX_DEPTH \<and> (\<not> km_contains b m \<or> length rels = MAX_DEPTH)"
  proof (cases "km_contains b m")
    case True
    then show ?thesis using a km_walk_below [of m b k rels 0 "[]"] by simp
  next
    case False
    then show ?thesis using a km_walk_missing [of m b k rels "MAX_DEPTH - length rels" "[]"] by simp
  qed
  show "km_walk MAX_DEPTH k [] m = Some (RPartial (join_rels (rel # rels)) b)"
    if a: "key_below m b k rels \<and> length rels < MAX_DEPTH \<and> kname m b = Some (Orphan rel)" for rel
  proof -
    have c: "km_contains b m" using a by (auto simp: km_contains_def kname_def)
    obtain n where n: "MAX_DEPTH = Suc n + length rels" using a less_imp_Suc_add by (metis add.commute add_Suc)
    show ?thesis
      unfolding n using a km_walk_below [OF _ c, of k rels "Suc n" "[]"] by (auto simp: kname_def)
  qed
qed

theorem key_resolve_outcome_witness:
  "\<exists>m. km_run [KSeed 7 [104] 5] (km_new 8) = Some m \<and> fst (km_resolve 7 m) = Some (RFull [104]) \<and>
     fst (km_resolve 8 m) = None"
proof -
  obtain m where m: "km_seed 7 [104] 5 (km_new 8) = Some (True, m)" "kname m 7 = Some (Full [104])"
    using km_set_names_below [OF km_inv_new, of 8 7 5 "[104]"] by (auto simp: km_new_def is_none_or_def)
  have r: "km_run [KSeed 7 [104] 5] (km_new 8) = Some m" using m(1) by simp
  moreover have inv: "km_inv m" using km_run_total [OF km_inv_new, of 8 "[KSeed 7 [104] 5]"] r by (auto simp: km_new_def)
  moreover have "km_unlink 7 (km_new 8) = Some (km_new 8)"
    by (subst km_unlink.simps) (simp add: km_new_def)
  then have "\<not> km_contains 8 m"
    using m(1) by (auto simp: km_seed_def km_set_def km_new_def km_put_def
        km_full_def km_name_step_def km_children_def km_drop_if_dead_def km_dead_def km_waited_on_def km_contains_def Let_def)
  ultimately show ?thesis using key_resolve_outcome [OF inv, of 7] key_resolve_outcome [OF inv, of 8] m(2) by blast
qed

end
