(* ===== verification/Ag_Buckets.thy ===== *)
theory Ag_Buckets
  imports Prelude
begin

text \<open>
  The token buckets that bound DNS-Client events per process (\<open>Buckets\<close> in
  \<open>crates/atlas-agent/src/intake.rs\<close>), refilled by event time and forgotten after ten idle seconds.
  The hash map is an association list with distinct keys. Facts: what one query does to its own
  bucket and to the others; in any window of a run the accepted queries of a process stay within the
  burst and the rate, forgotten buckets included; a query after a quiet spell passes.
\<close>

section \<open>The buckets\<close>

record buckets =
  bk_rate :: nat
  bk_freq :: int
  bk_by_pid :: "(nat \<times> nat \<times> int) list"

definition bk_new :: "nat \<Rightarrow> int \<Rightarrow> buckets" where
  "bk_new rate freq = \<lparr>bk_rate = rate * 1000, bk_freq = freq, bk_by_pid = []\<rparr>"

definition bk_forget :: "int \<Rightarrow> buckets \<Rightarrow> buckets" where
  "bk_forget ts b =
     (if length (bk_by_pid b) > 8192
      then (let horizon = sat_sub ts (clamp_i64 (bk_freq b * 10))
            in b\<lparr>bk_by_pid := filter (\<lambda>(_, _, seen). seen \<ge> horizon) (bk_by_pid b)\<rparr>)
      else b)"

text \<open>What a bucket holds at \<open>ts\<close>: its tokens refilled, and its new time.\<close>

definition bk_refill :: "nat \<Rightarrow> int \<Rightarrow> int \<Rightarrow> nat \<times> int \<Rightarrow> nat \<times> int" where
  "bk_refill rate freq ts x =
     (case x of (tokens, seen) \<Rightarrow>
        (let elapsed = nat (sat_sub ts seen);
             refill = elapsed * rate div nat (max freq 1)
         in (min (tokens + refill) rate, max seen ts)))"

definition bk_take :: "nat \<Rightarrow> int \<Rightarrow> buckets \<Rightarrow> bool \<times> buckets" where
  "bk_take pid ts b =
     (if bk_rate b = 0 then (True, b)
      else
        (let b = bk_forget ts b;
             (tokens, seen) = bk_refill (bk_rate b) (bk_freq b) ts
               (case map_of (bk_by_pid b) pid of Some x \<Rightarrow> x | None \<Rightarrow> (bk_rate b, ts))
         in if tokens \<ge> 1000 then (True, b\<lparr>bk_by_pid := AList.update pid (tokens - 1000, seen) (bk_by_pid b)\<rparr>)
            else (False, b\<lparr>bk_by_pid := AList.update pid (tokens, seen) (bk_by_pid b)\<rparr>)))"

text \<open>A run of queries, with the verdict of each.\<close>

fun bk_run :: "(nat \<times> int) list \<Rightarrow> buckets \<Rightarrow> bool list \<times> buckets" where
  "bk_run [] b = ([], b)"
| "bk_run ((pid, ts) # qs) b =
     (let (ok, b) = bk_take pid ts b; (oks, b) = bk_run qs b in (ok # oks, b))"

definition accepted :: "nat \<Rightarrow> (nat \<times> int) list \<Rightarrow> bool list \<Rightarrow> nat" where
  "accepted pid qs oks = length (filter (\<lambda>((p, _), ok). p = pid \<and> ok) (zip qs oks))"

text \<open>The times of a run may be out of order, by nine seconds at most.\<close>

fun nearly_ordered :: "int \<Rightarrow> (nat \<times> int) list \<Rightarrow> bool" where
  "nearly_ordered d [] = True"
| "nearly_ordered d ((p, t) # qs) \<longleftrightarrow> (\<forall>(p', t') \<in> set qs. t - d \<le> t') \<and> nearly_ordered d qs"

section \<open>The invariant\<close>

definition bk_inv :: "nat \<Rightarrow> int \<Rightarrow> buckets \<Rightarrow> bool" where
  "bk_inv r f b \<longleftrightarrow> bk_rate b = r \<and> bk_freq b = f \<and> distinct (map fst (bk_by_pid b)) \<and>
     (\<forall>p tok seen. map_of (bk_by_pid b) p = Some (tok, seen) \<longrightarrow> tok \<le> r \<and> in_i64 seen)"

lemma bk_inv_new: "bk_inv (rate * 1000) freq (bk_new rate freq)"
  by (simp add: bk_inv_def bk_new_def)

text \<open>What is left of a bucket after some are forgotten.\<close>

lemma kept_bucket:
  assumes "distinct (map fst bs)"
  shows "map_of (filter keep bs) p = (if is_some_and (map_of bs p) (\<lambda>x. keep (p, x)) then map_of bs p else None)"
  using assms
proof (induction bs)
  case (Cons b bs)
  obtain k x where b: "b = (k, x)" by fastforce
  have "map_of bs k = None" using Cons.prems b by (simp add: map_of_eq_None_iff)
  then show ?case using Cons b by (cases "map_of bs p") (auto simp: is_some_and_def simp del: map_of_eq_Some_iff)
qed (simp add: is_some_and_def)

lemma bk_forget_inv:
  assumes "bk_inv r f b"
  shows "bk_inv r f (bk_forget ts b)"
  using assms by (auto simp: bk_inv_def bk_forget_def Let_def kept_bucket is_some_and_def distinct_map_filter
      split: option.splits if_splits)

text \<open>A bucket is forgotten only when idle for ten seconds, and is otherwise as it was.\<close>

lemma bk_forget_lookup:
  assumes inv: "bk_inv r f b" and f: "0 < f" "f * 10 \<le> I64_MAX" and ts: "in_i64 ts"
  shows "map_of (bk_by_pid (bk_forget ts b)) p = map_of (bk_by_pid b) p \<or>
    (\<exists>tok seen. map_of (bk_by_pid b) p = Some (tok, seen) \<and> seen < ts - f * 10 \<and>
       map_of (bk_by_pid (bk_forget ts b)) p = None)"
proof -
  have d: "distinct (map fst (bk_by_pid b))" and fr: "bk_freq b = f" using inv by (simp_all add: bk_inv_def)
  have "seen < ts - f * 10" if "seen < sat_sub ts (clamp_i64 (f * 10))" "in_i64 seen" for seen
    using that f ts by (auto simp: sat_sub_def clamp_i64_def in_i64_def split: if_splits)
  then show ?thesis
    using inv d
    by (cases "map_of (bk_by_pid b) p")
      (auto simp: bk_forget_def Let_def kept_bucket is_some_and_def fr bk_inv_def not_le simp del: map_of_eq_Some_iff)
qed

lemma bk_refill_bounds:
  assumes "0 < f" "in_i64 ts" "in_i64 seen" "bk_refill r f ts (tok, seen) = (tok', seen')"
  shows "tok' \<le> r" "seen' = max seen ts" "in_i64 seen'"
    "int tok' * f \<le> int tok * f + max 0 (ts - seen) * int r"
proof -
  let ?e = "nat (sat_sub ts seen)"
  have e: "int ?e \<le> max 0 (ts - seen)" by (auto simp: sat_sub_def clamp_i64_def)
  have t: "tok' = min (tok + ?e * r div nat f) r" and s: "seen' = max seen ts"
    using assms by (simp_all add: bk_refill_def Let_def)
  then show "tok' \<le> r" "seen' = max seen ts" "in_i64 seen'" using assms by (auto simp: max_def)
  have "?e * r div nat f * nat f \<le> ?e * r" by simp
  then have "int (?e * r div nat f) * f \<le> int ?e * int r"
    using \<open>0 < f\<close> by (metis int_nat_eq less_le_not_le of_nat_le_iff of_nat_mult)
  also have "\<dots> \<le> max 0 (ts - seen) * int r" using e by (intro mult_right_mono) auto
  finally have "(int tok + int (?e * r div nat f)) * f \<le> int tok * f + max 0 (ts - seen) * int r"
    by (simp add: distrib_right)
  moreover have "int tok' \<le> int tok + int (?e * r div nat f)"
    unfolding t by (simp add: min_le_iff_disj flip: of_nat_add)
  then have "int tok' * f \<le> (int tok + int (?e * r div nat f)) * f"
    using \<open>0 < f\<close> by (intro mult_right_mono) auto
  ultimately show "int tok' * f \<le> int tok * f + max 0 (ts - seen) * int r" by linarith
qed

section \<open>One query\<close>

lemma bk_take_rate0: "bk_rate b = 0 \<Longrightarrow> bk_take pid ts b = (True, b)"
  by (simp add: bk_take_def)

text \<open>A bucket's contents as a query finds them, after the idle ones are forgotten.\<close>

definition bk_start :: "nat \<Rightarrow> int \<Rightarrow> buckets \<Rightarrow> nat \<times> int" where
  "bk_start pid ts b = (case map_of (bk_by_pid (bk_forget ts b)) pid of Some x \<Rightarrow> x | None \<Rightarrow> (bk_rate b, ts))"

lemma bk_forget_sel [simp]: "bk_rate (bk_forget ts b) = bk_rate b" "bk_freq (bk_forget ts b) = bk_freq b"
  by (simp_all add: bk_forget_def Let_def)

lemma bk_take_eq:
  assumes "bk_rate b \<noteq> 0" "bk_refill (bk_rate b) (bk_freq b) ts (bk_start pid ts b) = (tok, seen)"
  shows "bk_take pid ts b = (tok \<ge> 1000, (bk_forget ts b)\<lparr>bk_by_pid :=
     AList.update pid (if tok \<ge> 1000 then tok - 1000 else tok, seen) (bk_by_pid (bk_forget ts b))\<rparr>)"
  using assms by (simp add: bk_take_def bk_start_def Let_def cong: option.case_cong)

lemma bk_start_inv:
  assumes "bk_inv r f b" "in_i64 ts"
  shows "fst (bk_start pid ts b) \<le> r" "in_i64 (snd (bk_start pid ts b))"
  using bk_forget_inv [OF assms(1), of ts] assms(2)
  by (auto simp: bk_start_def bk_inv_def split: option.splits)

lemma bk_take_inv:
  assumes inv: "bk_inv r f b" and f: "0 < f" and ts: "in_i64 ts"
  shows "bk_inv r f (snd (bk_take pid ts b))"
proof (cases "bk_rate b = 0")
  case True
  then show ?thesis using inv by (simp add: bk_take_def)
next
  case False
  obtain t s where st: "bk_start pid ts b = (t, s)" by fastforce
  obtain tok seen where rf: "bk_refill r f ts (t, s) = (tok, seen)" by fastforce
  have b: "bk_rate b = r" "bk_freq b = f" using inv by (simp_all add: bk_inv_def)
  have i1: "bk_inv r f (bk_forget ts b)" by (rule bk_forget_inv [OF inv])
  have "in_i64 s" using bk_start_inv [OF inv ts, of pid] st by simp
  then have n: "tok \<le> r" "in_i64 seen" using bk_refill_bounds [OF f ts _ rf] by simp_all
  then show ?thesis
    using i1 bk_take_eq [OF False, of ts pid tok seen]
    by (auto simp: b st rf bk_inv_def distinct_update update_conv' simp del: map_of_eq_Some_iff
        split: if_splits)
qed

section \<open>A window of a run\<close>

text \<open>With \<open>A\<close> accepted (scaled by the cost of a query) since \<open>t0\<close>: what its bucket may still hold.
  \<open>mx\<close> is the latest time seen.\<close>

definition window_inv :: "nat \<Rightarrow> int \<Rightarrow> int \<Rightarrow> nat \<Rightarrow> int \<Rightarrow> int \<Rightarrow> buckets \<Rightarrow> bool" where
  "window_inv r f t0 pid A mx b \<longleftrightarrow>
     (case map_of (bk_by_pid b) pid of
        Some (tok, seen) \<Rightarrow> A + int tok * f \<le> int r * f + max 0 (seen - t0) * int r \<and> (seen < t0 \<longrightarrow> A = 0)
      | None \<Rightarrow> A \<le> max 0 (mx - f * 9 - t0) * int r)"

lemma window_forget:
  assumes w: "window_inv r f t0 pid A mx b" and inv: "bk_inv r f b"
    and f: "0 < f" "f * 10 \<le> I64_MAX" and ts: "in_i64 ts"
  shows "window_inv r f t0 pid A (max mx ts) (bk_forget ts b)"
proof -
  have mono: "max 0 (mx - f * 9 - t0) * int r \<le> max 0 (max mx ts - f * 9 - t0) * int r"
    by (intro mult_right_mono) auto
  consider (same) "map_of (bk_by_pid (bk_forget ts b)) pid = map_of (bk_by_pid b) pid"
    | (gone) tok seen where "map_of (bk_by_pid b) pid = Some (tok, seen)" "seen < ts - f * 10"
       "map_of (bk_by_pid (bk_forget ts b)) pid = None"
    using bk_forget_lookup [OF inv f ts, of pid] by blast
  then show ?thesis
  proof cases
    case same
    then show ?thesis using w mono by (auto simp: window_inv_def split: option.splits)
  next
    case gone
    show ?thesis
    proof (cases "seen < t0")
      case True
      then show ?thesis using w gone by (simp add: window_inv_def)
    next
      case False
      have p: "0 \<le> int tok * f" using f by simp
      have "A + int tok * f \<le> int r * f + (seen - t0) * int r"
        using w gone(1) False by (simp add: window_inv_def)
      then have "A \<le> int r * f + (seen - t0) * int r" using p by linarith
      also have "\<dots> = (f + seen - t0) * int r" by (simp add: algebra_simps)
      also have "\<dots> \<le> max 0 (max mx ts - f * 9 - t0) * int r"
        using gone(2) by (intro mult_right_mono) auto
      finally show ?thesis using gone(3) by (simp add: window_inv_def)
    qed
  qed
qed

lemma window_refill:
  assumes A: "A + int tok * f \<le> int r * f + max 0 (seen - t0) * int r" and z: "seen < t0 \<Longrightarrow> A = 0"
    and f: "0 < f" and i: "in_i64 ts" "in_i64 seen" and t0: "t0 \<le> ts"
    and rf: "bk_refill r f ts (tok, seen) = (tok', seen')"
  shows "A + int tok' * f \<le> int r * f + max 0 (seen' - t0) * int r \<and> t0 \<le> seen'"
proof -
  note n = bk_refill_bounds [OF f i rf]
  show ?thesis
  proof (cases "seen < t0")
    case True
    have "int tok' * f \<le> int r * f" using n(1) f by (intro mult_right_mono) auto
    moreover have "0 \<le> max 0 (seen' - t0) * int r" by simp
    ultimately have "int tok' * f \<le> int r * f + max 0 (seen' - t0) * int r" by linarith
    then show ?thesis using z [OF True] n(2) t0 by simp
  next
    case False
    then have "max 0 (seen' - t0) = max 0 (seen - t0) + max 0 (ts - seen)" using n(2) t0 by (auto simp: max_def)
    then show ?thesis using A n(2,4) t0 by (auto simp: distrib_right)
  qed
qed

lemma window_take:
  assumes w: "window_inv r f t0 pid A mx b" and inv: "bk_inv r f b"
    and f: "0 < f" "f * 10 \<le> I64_MAX" and ts: "in_i64 ts" and r: "0 < r"
    and t0: "t0 \<le> ts" and mx: "mx - f * 9 \<le> ts"
    and tk: "bk_take p ts b = (ok, b')"
  shows "window_inv r f t0 pid (A + (if p = pid \<and> ok then 1000 * f else 0)) (max mx ts) b'"
proof -
  have w1: "window_inv r f t0 pid A (max mx ts) (bk_forget ts b)" by (rule window_forget [OF w inv f ts])
  obtain t s where st: "bk_start p ts b = (t, s)" by fastforce
  obtain tok seen where rf: "bk_refill r f ts (t, s) = (tok, seen)" by fastforce
  have b: "bk_rate b = r" "bk_freq b = f" using inv by (simp_all add: bk_inv_def)
  have e: "ok = (1000 \<le> tok)" "b' = (bk_forget ts b)\<lparr>bk_by_pid :=
      AList.update p (if tok \<ge> 1000 then tok - 1000 else tok, seen) (bk_by_pid (bk_forget ts b))\<rparr>"
    using bk_take_eq [of b ts p tok seen] r tk by (simp_all add: b st rf)
  show ?thesis
  proof (cases "p = pid")
    case False
    then show ?thesis using w1 e by (simp add: window_inv_def update_conv')
  next
    case True
    have i: "in_i64 s" using bk_start_inv [OF inv ts, of p] st by simp
    have "A + int t * f \<le> int r * f + max 0 (s - t0) * int r \<and> (s < t0 \<longrightarrow> A = 0)"
    proof (cases "map_of (bk_by_pid (bk_forget ts b)) pid")
      case None
      then have "t = r" "s = ts" using st True by (simp_all add: bk_start_def b)
      moreover have "A \<le> max 0 (max mx ts - f * 9 - t0) * int r" using w1 None by (simp add: window_inv_def)
      moreover have "max 0 (max mx ts - f * 9 - t0) * int r \<le> max 0 (ts - t0) * int r"
        using mx f by (intro mult_right_mono) (auto simp: max_def)
      ultimately show ?thesis using t0 by auto
    next
      case (Some x)
      then show ?thesis using w1 st True by (auto simp: bk_start_def window_inv_def)
    qed
    then have "A + int tok * f \<le> int r * f + max 0 (seen - t0) * int r \<and> t0 \<le> seen"
      using window_refill [OF _ _ f(1) ts i t0 rf] by blast
    then show ?thesis using True e by (auto simp: window_inv_def update_conv' of_nat_diff left_diff_distrib)
  qed
qed

lemma window_run:
  assumes "bk_run qs b = (oks, b')" "window_inv r f t0 pid A mx b" "bk_inv r f b"
    "0 < f" "f * 10 \<le> I64_MAX" "0 < r"
    "\<forall>(p, t) \<in> set qs. in_i64 t \<and> t0 \<le> t \<and> t \<le> t1 \<and> mx - f * 9 \<le> t" "nearly_ordered (f * 9) qs" "mx \<le> t1"
  shows "\<exists>mx' \<le> t1. window_inv r f t0 pid (A + int (accepted pid qs oks) * (1000 * f)) mx' b'"
  using assms
proof (induction qs arbitrary: b oks A mx)
  case Nil
  then show ?case by (auto simp: accepted_def)
next
  case (Cons q qs)
  obtain p ts where q: "q = (p, ts)" by fastforce
  obtain ok b1 where tk: "bk_take p ts b = (ok, b1)" by fastforce
  obtain oks1 where rn: "bk_run qs b1 = (oks1, b')" and oks: "oks = ok # oks1"
    using Cons.prems(1) by (auto simp: q tk Let_def split: prod.splits)
  let ?A = "A + (if p = pid \<and> ok then 1000 * f else 0)"
  have ts: "in_i64 ts" "t0 \<le> ts" "ts \<le> t1" "mx - f * 9 \<le> ts" using Cons.prems(7) by (auto simp: q)
  have w: "window_inv r f t0 pid ?A (max mx ts) b1"
    by (rule window_take [OF Cons.prems(2,3,4,5) ts(1) Cons.prems(6) ts(2,4) tk])
  have i: "bk_inv r f b1" using bk_take_inv [OF Cons.prems(3,4) ts(1), of p] tk by simp
  have "\<forall>(p, t) \<in> set qs. in_i64 t \<and> t0 \<le> t \<and> t \<le> t1 \<and> max mx ts - f * 9 \<le> t" "nearly_ordered (f * 9) qs"
    using Cons.prems(7,8) by (auto simp: q max_def)
  then obtain mx' where "mx' \<le> t1" "window_inv r f t0 pid (?A + int (accepted pid qs oks1) * (1000 * f)) mx' b'"
    using Cons.IH [OF rn w i Cons.prems(4,5,6)] ts(3) Cons.prems(9) by auto
  moreover have "?A + int (accepted pid qs oks1) * (1000 * f) = A + int (accepted pid (q # qs) oks) * (1000 * f)"
    by (simp add: accepted_def q oks algebra_simps)
  ultimately show ?case by auto
qed

definition bk_upto :: "int \<Rightarrow> buckets \<Rightarrow> bool" where
  "bk_upto t1 b \<longleftrightarrow> (\<forall>p tok seen. map_of (bk_by_pid b) p = Some (tok, seen) \<longrightarrow> seen \<le> t1)"

lemma bk_take_upto:
  assumes inv: "bk_inv r f b" and u: "bk_upto t1 b" and ts: "ts \<le> t1"
  shows "bk_upto t1 (snd (bk_take p ts b))"
proof (cases "bk_rate b = 0")
  case True
  then show ?thesis using u by (simp add: bk_take_def)
next
  case False
  obtain t s where st: "bk_start p ts b = (t, s)" by fastforce
  obtain tok seen where rf: "bk_refill (bk_rate b) (bk_freq b) ts (t, s) = (tok, seen)" by fastforce
  have d: "distinct (map fst (bk_by_pid b))" using inv by (simp add: bk_inv_def)
  have f1: "bk_upto t1 (bk_forget ts b)"
    using u d by (auto simp: bk_upto_def bk_forget_def Let_def kept_bucket is_some_and_def simp del: map_of_eq_Some_iff
        split: option.splits if_splits)
  then have "s \<le> t1" using st ts by (auto simp: bk_start_def bk_upto_def split: option.splits)
  then have "seen \<le> t1" using rf ts by (auto simp: bk_refill_def Let_def)
  then show ?thesis using f1 bk_take_eq [OF False, of ts p tok seen] rf
    by (auto simp: st bk_upto_def update_conv')
qed

lemma bk_run_inv:
  assumes "bk_inv r f b" "bk_upto t1 b" "0 < f" "\<forall>(p, t) \<in> set qs. in_i64 t \<and> t \<le> t1"
  shows "bk_inv r f (snd (bk_run qs b)) \<and> bk_upto t1 (snd (bk_run qs b))"
  using assms
proof (induction qs arbitrary: b)
  case (Cons q qs)
  obtain p ts where q: "q = (p, ts)" by fastforce
  have "bk_inv r f (snd (bk_take p ts b))" "bk_upto t1 (snd (bk_take p ts b))"
    using Cons.prems bk_take_inv [of r f b ts p] bk_take_upto [of r f b t1 ts p] by (auto simp: q)
  then show ?case using Cons.IH [of "snd (bk_take p ts b)"] Cons.prems(3,4)
    by (auto simp: q Let_def split: prod.splits)
qed simp

text \<open>A query after a quiet spell: \<open>f / rate\<close> ticks since its process was last seen.\<close>

definition quiet :: "nat \<Rightarrow> int \<Rightarrow> nat \<Rightarrow> int \<Rightarrow> buckets \<Rightarrow> bool" where
  "quiet rate f pid ts b \<longleftrightarrow> (case map_of (bk_by_pid b) pid of
     None \<Rightarrow> True | Some (tok, seen) \<Rightarrow> f \<le> (ts - seen) * int rate)"

lemma refill_after_quiet:
  assumes f: "0 < f" "f \<le> I64_MAX" and r: "0 < rate" and q: "f \<le> (ts - seen) * int rate"
  shows "1000 \<le> fst (bk_refill (rate * 1000) f ts (tok, seen))"
proof -
  let ?e = "nat (sat_sub ts seen)"
  have pos: "0 < ts - seen" using f(1) q r by (smt (verit) mult_nonpos_nonneg of_nat_0_le_iff)
  have "f \<le> sat_sub ts seen * int rate"
  proof (cases "ts - seen \<le> I64_MAX")
    case True
    then show ?thesis using q pos by (simp add: sat_sub_def clamp_i64_def)
  next
    case False
    then have s: "sat_sub ts seen = I64_MAX" by (simp add: sat_sub_def clamp_i64_def)
    have "I64_MAX * 1 \<le> I64_MAX * int rate" using r by (intro mult_left_mono) auto
    then show ?thesis using f(2) unfolding s by linarith
  qed
  then have "nat f \<le> ?e * rate" using pos f by (simp add: nat_le_iff sat_sub_def clamp_i64_def)
  then have "nat f * 1000 \<le> ?e * (rate * 1000)" by simp
  then have "1000 \<le> ?e * (rate * 1000) div nat f"
    using f(1) div_le_mono [of "nat f * 1000" "?e * (rate * 1000)" "nat f"] by simp
  then show ?thesis using f(1) r by (simp add: bk_refill_def Let_def)
qed

lemma bk_quiet_passes:
  assumes inv: "bk_inv (rate * 1000) f b" and f: "0 < f" "f * 10 \<le> I64_MAX" and r: "0 < rate"
    and i: "in_i64 ts" and q: "quiet rate f pid ts b"
  shows "fst (bk_take pid ts b)"
proof -
  obtain t s where st: "bk_start pid ts b = (t, s)" by fastforce
  obtain tok seen where rf: "bk_refill (bk_rate b) (bk_freq b) ts (t, s) = (tok, seen)" by fastforce
  have b: "bk_rate b = rate * 1000" "bk_freq b = f" using inv by (simp_all add: bk_inv_def)
  have "t = rate * 1000 \<and> s = ts \<or> f \<le> (ts - s) * int rate"
    using st q bk_forget_lookup [OF inv f i, of pid]
    by (auto simp: bk_start_def quiet_def b split: option.splits)
  then have "1000 \<le> tok"
  proof
    assume "t = rate * 1000 \<and> s = ts"
    then show ?thesis using rf r by (auto simp: bk_refill_def Let_def b sat_sub_def clamp_i64_def)
  next
    assume "f \<le> (ts - s) * int rate"
    then show ?thesis using refill_after_quiet [of f rate ts s t] f r rf by (simp add: b)
  qed
  moreover have "bk_rate b \<noteq> 0" using r by (simp add: b)
  ultimately show ?thesis using bk_take_eq [of b ts pid tok seen] rf by (simp add: st)
qed

section \<open>Properties\<close>

text \<open>C34: the DNS rate limit. In any stretch \<open>qs\<close> of a run between two times, the queries accepted
  of a process are at most its burst of one second's rate plus the rate times the stretch, though
  idle buckets are forgotten and the times may be out of order by up to nine seconds; and then a
  query of a process not seen for \<open>f / rate\<close> ticks, or not known, always passes.\<close>

theorem dns_rate_bounded:
  assumes "0 < f" "f * 10 \<le> I64_MAX" "0 < rate"
    and "\<forall>(p, t) \<in> set (before @ qs). in_i64 t \<and> t \<le> t1" and "\<forall>(p, t) \<in> set qs. t0 \<le> t"
    and "nearly_ordered (f * 9) qs" and "t0 \<le> t1"
    and "bk_run qs (snd (bk_run before (bk_new rate f))) = (oks, b')"
  shows "int (accepted pid qs oks) * f \<le> int rate * f + (t1 - t0) * int rate \<and>
    (in_i64 ts \<and> quiet rate f pid ts b' \<longrightarrow> fst (bk_take pid ts b'))"
proof -
  let ?r = "rate * 1000" and ?b = "snd (bk_run before (bk_new rate f))"
  have u: "bk_upto t1 (bk_new rate f)" by (simp add: bk_upto_def bk_new_def)
  have b: "bk_inv ?r f ?b" "bk_upto t1 ?b"
    using bk_run_inv [OF bk_inv_new u assms(1), of before] assms(4) by auto
  then have b': "bk_inv ?r f b'" "bk_upto t1 b'"
    using bk_run_inv [OF b assms(1), of qs] assms(4,8) by auto
  have w: "window_inv ?r f t0 pid 0 t0 ?b"
  proof (cases "map_of (bk_by_pid ?b) pid")
    case (Some x)
    obtain tok seen where x: "x = (tok, seen)" by fastforce
    have "tok \<le> ?r" using b(1) Some x by (auto simp: bk_inv_def)
    then have "int tok * f \<le> int ?r * f" using assms(1) by (intro mult_right_mono) auto
    moreover have "0 \<le> max 0 (seen - t0) * int ?r" by (intro mult_nonneg_nonneg) auto
    ultimately have "int tok * f \<le> int ?r * f + max 0 (seen - t0) * int ?r" by linarith
    then show ?thesis using Some x by (simp add: window_inv_def)
  qed (simp add: window_inv_def)
  obtain mx where mx: "mx \<le> t1" "window_inv ?r f t0 pid (0 + int (accepted pid qs oks) * (1000 * f)) mx b'"
  proof -
    have "\<forall>(p, t) \<in> set qs. in_i64 t \<and> t0 \<le> t \<and> t \<le> t1 \<and> t0 - f * 9 \<le> t"
      using assms(1,4,5) by fastforce
    moreover have "0 < ?r" using assms(3) by simp
    ultimately show ?thesis using window_run [OF assms(8) w b(1) assms(1,2) _ _ assms(6,7)] that by blast
  qed
  have "int (accepted pid qs oks) * (1000 * f) \<le> int ?r * f + (t1 - t0) * int ?r"
  proof (cases "map_of (bk_by_pid b') pid")
    case None
    have "max 0 (mx - f * 9 - t0) * int ?r \<le> (t1 - t0) * int ?r"
      using mx(1) assms(1,7) by (intro mult_right_mono) auto
    moreover have "0 \<le> int ?r * f" using assms(1) by simp
    moreover have "int (accepted pid qs oks) * (1000 * f) \<le> max 0 (mx - f * 9 - t0) * int ?r"
      using mx(2) None unfolding window_inv_def by simp
    ultimately show ?thesis by linarith
  next
    case (Some x)
    obtain tok seen where x: "x = (tok, seen)" by fastforce
    have "seen \<le> t1" using b'(2) Some x by (auto simp: bk_upto_def)
    then have "max 0 (seen - t0) * int ?r \<le> (t1 - t0) * int ?r" using assms(7) by (intro mult_right_mono) auto
    moreover have "0 \<le> int tok * f" using assms(1) by simp
    moreover have "int (accepted pid qs oks) * (1000 * f) + int tok * f \<le> int ?r * f + max 0 (seen - t0) * int ?r"
      using mx(2) Some x by (simp add: window_inv_def)
    ultimately show ?thesis by linarith
  qed
  then have "(int (accepted pid qs oks) * f) * 1000 \<le> (int rate * f + (t1 - t0) * int rate) * 1000"
    by (simp add: algebra_simps)
  then show ?thesis using bk_quiet_passes [OF b'(1) assms(1-3)] by simp
qed

text \<open>One query a second at ten ticks a second: the burst is spent, and ten ticks later one passes.\<close>

theorem dns_rate_bounded_witness:
  "bk_run [(7, 100), (7, 101), (8, 101), (7, 109)] (snd (bk_run [(7, 5)] (bk_new 1 10))) =
     ([True, False, True, False], \<lparr>bk_rate = 1000, bk_freq = 10, bk_by_pid = [(7, (900, 109)), (8, (0, 101))]\<rparr>) \<and>
   int (accepted 7 [(7, 100), (7, 101), (8, 101), (7, 109)] [True, False, True, False]) * 10 \<le> 1 * 10 + (109 - 100) * 1"
proof -
  have r: "bk_run [(7, 100), (7, 101), (8, 101), (7, 109)] (snd (bk_run [(7, 5)] (bk_new 1 10))) =
     ([True, False, True, False], \<lparr>bk_rate = 1000, bk_freq = 10, bk_by_pid = [(7, (900, 109)), (8, (0, 101))]\<rparr>)"
    by code_simp
  show ?thesis
    using dns_rate_bounded [OF _ _ _ _ _ _ _ r, of 109 100 7 0] r
    by (simp add: in_i64_def)
qed

end
