(* ===== verification/Ag_Early.thy ===== *)
theory Ag_Early
  imports Ag_KeyMap
begin

text \<open>
  The early key map (\<open>EarlyKeys\<close> in \<open>crates/atlas-agent/src/intake.rs\<close>): full key names in arrival
  order, for the value reads of the fast path. The hash map is an association list with distinct
  keys, the deque a list; how many entries the map has room for is the parameter \<open>room\<close>, on which
  nothing depends. Facts: the invariant of names and order, both bounded, and what an open does to
  every name: it evicts at most one, the one opened the longest ago.
\<close>

section \<open>The map\<close>

record early_keys =
  ek_names :: "(u64 \<times> rstr \<times> nat) list"
  ek_order :: "(u64 \<times> nat) list"
  ek_generation :: nat
  ek_cap :: nat

definition ek_new :: "nat \<Rightarrow> early_keys" where
  "ek_new cap = \<lparr>ek_names = [], ek_order = [], ek_generation = 0, ek_cap = cap\<rparr>"

definition ek_current :: "early_keys \<Rightarrow> u64 \<times> nat \<Rightarrow> bool" where
  "ek_current m kg = (case kg of (k, g) \<Rightarrow> is_some_and (map_of (ek_names m) k) (\<lambda>(_, g'). g' = g))"

text \<open>The eviction loop, then the stale order entries.\<close>

function ek_evict :: "nat \<Rightarrow> early_keys \<Rightarrow> nat \<times> early_keys" where
  "ek_evict n m =
     (if length (ek_names m) > ek_cap m then
        (case ek_order m of
           [] \<Rightarrow> (n, m)
         | (k, g) # rest \<Rightarrow>
             (let m = m\<lparr>ek_order := rest\<rparr>
              in if ek_current m (k, g) then ek_evict (n + 1) (m\<lparr>ek_names := AList.delete k (ek_names m)\<rparr>)
                 else ek_evict n m))
      else (n, m))"
  by pat_completeness auto
termination
  by (relation "measure (\<lambda>(n, m). length (ek_order m))") auto

declare ek_evict.simps [simp del]

definition ek_trim :: "early_keys \<Rightarrow> nat \<times> early_keys" where
  "ek_trim m =
     (let (evicted, m) = ek_evict 0 m
      in (evicted, if length (ek_order m) > sat_mul_u64 (ek_cap m) 2
                   then m\<lparr>ek_order := filter (ek_current m) (ek_order m)\<rparr> else m))"

definition ek_full :: "u64 \<Rightarrow> rstr \<Rightarrow> early_keys \<Rightarrow> rstr option" where
  "ek_full base relative m =
     (if starts_with_ci relative REGISTRY_PREFIX then Some relative
      else map_option (\<lambda>(b, _). if relative = [] then b else b @ [92] @ relative) (map_of (ek_names m) base))"

definition ek_open :: "u64 \<Rightarrow> u64 \<Rightarrow> rstr \<Rightarrow> early_keys \<Rightarrow> nat \<times> early_keys" where
  "ek_open key base relative m =
     (case ek_full base relative m of
        Some name \<Rightarrow>
          (let m = m\<lparr>ek_generation := ek_generation m + 1\<rparr>;
               m = m\<lparr>ek_names := AList.update key (name, ek_generation m) (ek_names m)\<rparr>;
               m = m\<lparr>ek_order := ek_order m @ [(key, ek_generation m)]\<rparr>
           in ek_trim m)
      | None \<Rightarrow> (0, m\<lparr>ek_names := AList.delete key (ek_names m)\<rparr>))"

definition ek_close :: "u64 \<Rightarrow> early_keys \<Rightarrow> early_keys" where
  "ek_close key m = m\<lparr>ek_names := AList.delete key (ek_names m)\<rparr>"

definition ek_sizes :: "(early_keys \<Rightarrow> nat) \<Rightarrow> early_keys \<Rightarrow> nat \<times> nat" where
  "ek_sizes room m = (length (ek_names m), room m)"

definition ek_name :: "u64 \<Rightarrow> early_keys \<Rightarrow> rstr option" where
  "ek_name key m = map_option fst (map_of (ek_names m) key)"

definition ek_len :: "early_keys \<Rightarrow> nat" where
  "ek_len m = length (ek_names m)"

definition ek_is_empty :: "early_keys \<Rightarrow> bool" where
  "ek_is_empty m = (ek_names m = [])"

section \<open>The invariant\<close>

text \<open>Every name has its latest opening in the order, whose generations grow.\<close>

definition ek_linked :: "early_keys \<Rightarrow> bool" where
  "ek_linked m \<longleftrightarrow> distinct (map fst (ek_names m)) \<and>
     (\<forall>k s g. map_of (ek_names m) k = Some (s, g) \<longrightarrow> (k, g) \<in> set (ek_order m)) \<and>
     sorted_wrt (<) (map snd (ek_order m)) \<and> (\<forall>(k, g) \<in> set (ek_order m). g \<le> ek_generation m)"

definition ek_inv :: "early_keys \<Rightarrow> bool" where
  "ek_inv m \<longleftrightarrow> ek_linked m \<and> length (ek_names m) \<le> ek_cap m \<and> ek_cap m \<le> U64_MAX \<and>
     length (ek_order m) \<le> sat_mul_u64 (ek_cap m) 2"

lemma ek_inv_new: "cap \<le> U64_MAX \<Longrightarrow> ek_inv (ek_new cap)"
  by (simp add: ek_inv_def ek_linked_def ek_new_def)

text \<open>The names are current openings, so the current openings are at most the names.\<close>

lemma length_current:
  assumes "ek_linked m"
  shows "length (filter (ek_current m) (ek_order m)) \<le> length (ek_names m)"
proof -
  let ?xs = "filter (ek_current m) (ek_order m)"
  have s: "sorted_wrt (<) (map snd (ek_order m))" and d: "distinct (map fst (ek_names m))"
    using assms by (simp_all add: ek_linked_def)
  have "distinct (map snd (ek_order m))" using s by (simp add: strict_sorted_iff)
  then have "distinct (ek_order m)" by (simp add: distinct_map)
  then have dx: "distinct ?xs" by simp
  have inj: "inj_on fst (set ?xs)"
    by (auto simp: inj_on_def ek_current_def is_some_and_def split: option.splits)
  have "length ?xs = card (set ?xs)" by (rule distinct_card [OF dx, symmetric])
  also have "\<dots> = card (fst ` set ?xs)" by (rule card_image [OF inj, symmetric])
  also have "\<dots> \<le> card (fst ` set (ek_names m))"
  proof (rule card_mono)
    show "fst ` set ?xs \<subseteq> fst ` set (ek_names m)"
      by (auto simp: ek_current_def is_some_and_def rev_image_eqI dest!: map_of_SomeD split: option.splits)
  qed simp
  also have "\<dots> = length (ek_names m)" using distinct_card [OF d] by simp
  finally show ?thesis .
qed

lemma ek_linked_delete:
  "ek_linked m \<Longrightarrow> ek_linked (m\<lparr>ek_names := AList.delete k (ek_names m)\<rparr>)"
  by (auto simp: ek_linked_def distinct_delete delete_conv' split: if_splits)

lemma ek_linked_filter: "ek_linked m \<Longrightarrow> ek_linked (m\<lparr>ek_order := filter (ek_current m) (ek_order m)\<rparr>)"
  by (auto simp: ek_linked_def ek_current_def sorted_wrt_map sorted_wrt_filter)

text \<open>One name too many: the loop drops stale openings and evicts the oldest current one.\<close>

lemma ek_linked_pop:
  assumes "ek_linked m" "ek_order m = (k, g) # rest" "distinct (map fst names)"
    and "\<And>k' s' g'. map_of names k' = Some (s', g') \<Longrightarrow> map_of (ek_names m) k' = Some (s', g') \<and> (k', g') \<noteq> (k, g)"
  shows "ek_linked (m\<lparr>ek_names := names, ek_order := rest\<rparr>)"
proof -
  have "(k', g') \<in> set rest" if "map_of names k' = Some (s', g')" for k' s' g'
    using assms(4) [OF that] assms(1,2) by (auto simp: ek_linked_def simp del: map_of_eq_Some_iff)
  then show ?thesis using assms(1-3) by (auto simp: ek_linked_def simp del: map_of_eq_Some_iff)
qed

lemma ek_evict_done: "length (ek_names m) \<le> ek_cap m \<Longrightarrow> ek_evict n m = (n, m)"
  by (simp add: ek_evict.simps [of n m])

lemma ek_evict_one:
  assumes "ek_linked m" "length (ek_names m) = Suc (ek_cap m)"
  shows "\<exists>k s g pre. map_of (ek_names m) k = Some (s, g) \<and>
    (\<forall>k' s' g'. map_of (ek_names m) k' = Some (s', g') \<longrightarrow> g \<le> g') \<and>
    ek_evict n m = (n + 1, m\<lparr>ek_names := AList.delete k (ek_names m), ek_order := pre\<rparr>) \<and>
    ek_linked (m\<lparr>ek_names := AList.delete k (ek_names m), ek_order := pre\<rparr>)"
  using assms
proof (induction n m rule: ek_evict.induct)
  case (1 n m)
  show ?case
  proof (cases "ek_order m")
    case Nil
    then have "\<forall>k s g. map_of (ek_names m) k \<noteq> Some (s, g)" using 1(3) by (simp add: ek_linked_def)
    then have "map_of (ek_names m) k = None" for k by (metis option.exhaust surj_pair)
    then have "ek_names m = []" by (metis map_of_eq_empty_iff)
    then show ?thesis using 1(4) by simp
  next
    case (Cons x rest)
    obtain k g where x: "x = (k, g)" by fastforce
    have old: "\<forall>k' s' g'. map_of (ek_names m) k' = Some (s', g') \<longrightarrow> g \<le> g'"
      using 1(3) Cons x by (fastforce simp: ek_linked_def)
    show ?thesis
    proof (cases "ek_current (m\<lparr>ek_order := rest\<rparr>) (k, g)")
      case True
      then obtain s where s: "map_of (ek_names m) k = Some (s, g)"
        by (auto simp: ek_current_def is_some_and_def split: option.splits)
      have d: "distinct (map fst (ek_names m))" using 1(3) by (simp add: ek_linked_def)
      have len: "length (AList.delete k (ek_names m)) = ek_cap m"
        using length_delete_key [OF d s] 1(4) by simp
      have l: "ek_linked (m\<lparr>ek_names := AList.delete k (ek_names m), ek_order := rest\<rparr>)"
        by (rule ek_linked_pop [OF 1(3)]) (use Cons x s in \<open>auto simp: delete_conv' distinct_delete d split: if_splits\<close>)
      have "ek_evict n m = (n + 1, m\<lparr>ek_names := AList.delete k (ek_names m), ek_order := rest\<rparr>)"
        using True Cons x len 1(4) by (simp add: ek_evict.simps [of n m] ek_evict_done)
      then show ?thesis using s old l by blast
    next
      case False
      then have "map_of (ek_names m) k \<noteq> Some (s, g)" for s
        by (auto simp: ek_current_def is_some_and_def)
      then have "ek_linked (m\<lparr>ek_names := ek_names m, ek_order := rest\<rparr>)"
        by (intro ek_linked_pop [OF 1(3), of k g rest]) (use 1(3) Cons x in \<open>auto simp: ek_linked_def simp del: map_of_eq_Some_iff\<close>)
      then have l: "ek_linked (m\<lparr>ek_order := rest\<rparr>)" by simp
      have "ek_evict n m = ek_evict n (m\<lparr>ek_order := rest\<rparr>)"
        using False Cons x 1(4) by (simp add: ek_evict.simps [of n m])
      have "ek_cap m < length (ek_names m)" "length (ek_names (m\<lparr>ek_order := rest\<rparr>)) = Suc (ek_cap (m\<lparr>ek_order := rest\<rparr>))"
        using 1(4) by simp_all
      note ih = 1(2) [OF this(1) Cons x [symmetric] refl False l this(2)]
      show ?thesis using ih \<open>ek_evict n m = _\<close> by simp
    qed
  qed
qed

section \<open>What an open does\<close>

lemma ek_trim_within:
  assumes "ek_linked m" "length (ek_names m) \<le> ek_cap m" "ek_cap m \<le> U64_MAX"
  shows "fst (ek_trim m) = 0 \<and> ek_names (snd (ek_trim m)) = ek_names m \<and> ek_inv (snd (ek_trim m))"
proof -
  have "length (filter (ek_current m) (ek_order m)) \<le> sat_mul_u64 (ek_cap m) 2"
    using length_current [OF assms(1)] assms(2,3) by (simp add: sat_mul_u64_def)
  then show ?thesis using assms ek_linked_filter [OF assms(1)]
    by (simp add: ek_trim_def ek_evict_done ek_inv_def)
qed

lemma ek_trim_eq:
  "ek_evict 0 m = (n, m1) \<Longrightarrow> length (ek_names m1) \<le> ek_cap m1 \<Longrightarrow>
    ek_trim m = (n, snd (ek_trim m1))"
  by (simp add: ek_trim_def ek_evict_done Let_def)

text \<open>The name's own opening is the newest, so it goes only when there is room for none.\<close>

lemma ek_open_outcome:
  assumes inv: "ek_inv m" and op: "ek_open key base relative m = (evicted, m')"
  shows "ek_inv m' \<and>
    (case ek_full base relative m of
       None \<Rightarrow> evicted = 0 \<and> (\<forall>k. ek_name k m' = (if k = key then None else ek_name k m))
     | Some name \<Rightarrow>
         if ek_name key m \<noteq> None \<or> ek_len m < ek_cap m
         then evicted = 0 \<and> (\<forall>k. ek_name k m' = (if k = key then Some name else ek_name k m))
         else evicted = 1 \<and>
           (\<exists>old. (ek_cap m = 0 \<longleftrightarrow> old = key) \<and>
              (\<forall>k. ek_name k m' = (if k = old then None else if k = key then Some name else ek_name k m)) \<and>
              (\<forall>k s g s' g'. map_of (ek_names m) old = Some (s, g) \<and> map_of (ek_names m) k = Some (s', g') \<longrightarrow> g \<le> g')))"
proof (cases "ek_full base relative m")
  case None
  then have m': "evicted = 0" "m' = ek_close key m" using op by (simp_all add: ek_open_def ek_close_def)
  have "ek_inv m'" using inv ek_linked_delete [of m key] length_delete_le [of key "ek_names m"]
    by (simp add: m' ek_inv_def ek_close_def)
  then show ?thesis using None m' by (simp add: ek_name_def ek_close_def delete_conv')
next
  case (Some name)
  let ?g = "ek_generation m + 1"
  define m1 where "m1 = m\<lparr>ek_generation := ?g, ek_names := AList.update key (name, ?g) (ek_names m),
    ek_order := ek_order m @ [(key, ?g)]\<rparr>"
  have op1: "ek_trim m1 = (evicted, m')" using op Some by (simp add: ek_open_def m1_def Let_def)
  have d: "distinct (map fst (ek_names m))" and cap: "ek_cap m \<le> U64_MAX" and le: "length (ek_names m) \<le> ek_cap m"
    using inv by (simp_all add: ek_inv_def ek_linked_def)
  have l1: "ek_linked m1" using inv
    by (fastforce simp: m1_def ek_inv_def ek_linked_def distinct_update update_conv' sorted_wrt_append
        simp del: map_of_eq_Some_iff split: if_splits)
  have names: "map_of (ek_names m1) = (map_of (ek_names m))(key \<mapsto> (name, ?g))" by (simp add: m1_def update_conv')
  have len: "length (ek_names m1) = (if map_of (ek_names m) key = None then Suc (length (ek_names m)) else length (ek_names m))"
    using length_update_key [of key "(name, ?g)" "ek_names m"] by (simp add: m1_def)
  show ?thesis
  proof (cases "map_of (ek_names m) key \<noteq> None \<or> length (ek_names m) < ek_cap m")
    case True
    then have "length (ek_names m1) \<le> ek_cap m1" using len le by (auto simp: m1_def split: if_splits)
    then show ?thesis
      using ek_trim_within [OF l1] op1 Some True cap names
      by (auto simp: m1_def ek_name_def ek_len_def)
  next
    case False
    then have full: "length (ek_names m1) = Suc (ek_cap m1)" using len le by (simp add: m1_def)
    obtain old s g pre where ev: "map_of (ek_names m1) old = Some (s, g)"
      "\<forall>k' s' g'. map_of (ek_names m1) k' = Some (s', g') \<longrightarrow> g \<le> g'"
      "ek_evict 0 m1 = (1, m1\<lparr>ek_names := AList.delete old (ek_names m1), ek_order := pre\<rparr>)"
      "ek_linked (m1\<lparr>ek_names := AList.delete old (ek_names m1), ek_order := pre\<rparr>)"
      using ek_evict_one [OF l1 full, of 0] by auto
    define m2 where "m2 = m1\<lparr>ek_names := AList.delete old (ek_names m1), ek_order := pre\<rparr>"
    have len2: "length (ek_names m2) = ek_cap m2"
      using length_delete_key [of "ek_names m1" old "(s, g)"] l1 ev(1) full by (simp add: m2_def ek_linked_def)
    have cap2: "ek_cap m2 \<le> U64_MAX" using cap by (simp add: m2_def m1_def)
    have m': "evicted = 1" "ek_inv m'" "ek_names m' = ek_names m2"
      using ek_trim_eq [of m1 1 m2] ek_trim_within [of m2] ev(3,4) len2 cap2 op1 by (auto simp: m2_def)
    have gens: "g' \<le> ek_generation m" if "map_of (ek_names m) k' = Some (s', g')" for k' s' g'
      using inv that by (fastforce simp: ek_inv_def ek_linked_def simp del: map_of_eq_Some_iff)
    have own: "ek_cap m = 0 \<longleftrightarrow> old = key"
    proof (cases "ek_names m")
      case Nil
      then show ?thesis using False ev(1) names by (auto split: if_splits)
    next
      case (Cons x xs)
      then obtain k' s' g' where k': "map_of (ek_names m) k' = Some (s', g')" by (cases x) fastforce
      then have "k' \<noteq> key" using False by auto
      then have "map_of (ek_names m1) k' = Some (s', g')" using k' names by simp
      then have "g \<le> g'" using ev(2) by blast
      then have "old \<noteq> key" using gens [OF k'] ev(1) names by auto
      then show ?thesis using Cons le by auto
    qed
    have nm: "ek_name k m' = (if k = old then None else if k = key then Some name else ek_name k m)" for k
      using m'(3) names by (simp add: ek_name_def m2_def delete_conv')
    have "g1 \<le> g2" if "map_of (ek_names m) old = Some (s1, g1)" "map_of (ek_names m) k = Some (s2, g2)" for k s1 g1 s2 g2
    proof -
      have "old \<noteq> key" "k \<noteq> key" using that False by auto
      then have "map_of (ek_names m1) old = Some (s1, g1)" "map_of (ek_names m1) k = Some (s2, g2)"
        using that names by simp_all
      then show ?thesis using ev(1,2) by auto
    qed
    then show ?thesis using False Some m' own nm by (simp add: ek_name_def ek_len_def) blast
  qed
qed

end
