(* ===== verification/Ew_Layout.thy ===== *)
theory Ew_Layout
  imports Sch_Convert
begin

text \<open>
  The providers consumed (\<open>crates/atlas-etw/src/providers.rs\<close>) and the payload layout of every event
  version parsed (\<open>crates/atlas-etw/src/layout.rs\<close>): the field names and TDH in-types of the manifests,
  in order. The tables are the code's; the hand-written parsers are compared with them in Ew_Follows.
\<close>

unbundle bit_operations_syntax

section \<open>Providers\<close>

datatype provider =
    KernelProcess | KernelFile | KernelRegistry | KernelNetwork | DnsClient | ClassicProcess

definition PROVIDERS :: "provider list" where
  "PROVIDERS = [KernelProcess, KernelFile, KernelRegistry, KernelNetwork, DnsClient, ClassicProcess]"

primrec provider_guid :: "provider \<Rightarrow> nat" where
  "provider_guid KernelProcess = 0x22fb2cd60e7b422ba0c72fad1fd0e716"
| "provider_guid KernelFile = 0xedd089279cc44e65b970c2560fb5c289"
| "provider_guid KernelRegistry = 0x70eb4f03c1de4f73a05133d13d5413bd"
| "provider_guid KernelNetwork = 0x7dd42a49532948328dfd43d979153a88"
| "provider_guid DnsClient = 0x1c95126e7eea49a9a3fea378b03ddb4d"
| "provider_guid ClassicProcess = 0x3d6fa8d0fe0511d09dda00c04fd7ba7c"

definition provider_from_guid :: "nat \<Rightarrow> provider option" where
  "provider_from_guid g = find (\<lambda>p. provider_guid p = g) PROVIDERS"

primrec provider_name :: "provider \<Rightarrow> string" where
  "provider_name KernelProcess = ''Microsoft-Windows-Kernel-Process''"
| "provider_name KernelFile = ''Microsoft-Windows-Kernel-File''"
| "provider_name KernelRegistry = ''Microsoft-Windows-Kernel-Registry''"
| "provider_name KernelNetwork = ''Microsoft-Windows-Kernel-Network''"
| "provider_name DnsClient = ''Microsoft-Windows-DNS-Client''"
| "provider_name ClassicProcess = ''Windows Kernel Trace (Process)''"

definition provider_is_user_mode :: "provider \<Rightarrow> bool" where
  "provider_is_user_mode p \<longleftrightarrow> p = DnsClient"

record enable =
  en_provider :: provider
  en_keywords :: u64
  en_event_ids :: "nat list"

definition TRACE_LEVEL :: nat where "TRACE_LEVEL = 5"

definition session_a :: "bool \<Rightarrow> bool \<Rightarrow> enable list" where
  "session_a udp op_end =
     (let net = [12, 13, 15, 28, 29, 31];
          net = (if udp then net @ [42, 43, 58, 59] else net);
          file_ids = [12, 13, 14, 16, 17, 18, 24, 26, 27, 30];
          file_keywords = 0x1EE0;
          (file_ids, file_keywords) =
            (if \<not> op_end then (filter (\<lambda>i. i \<noteq> 24) file_ids, file_keywords AND NOT 0x40)
             else (file_ids, file_keywords))
      in [\<lparr>en_provider = KernelProcess, en_keywords = 0x50, en_event_ids = [1, 2, 5]\<rparr>,
          \<lparr>en_provider = KernelFile, en_keywords = file_keywords, en_event_ids = file_ids\<rparr>,
          \<lparr>en_provider = KernelRegistry, en_keywords = 0x7301, en_event_ids = [1, 2, 3, 5, 6, 13]\<rparr>,
          \<lparr>en_provider = KernelNetwork, en_keywords = 0x30, en_event_ids = net\<rparr>,
          \<lparr>en_provider = DnsClient, en_keywords = 0x8000000000000000, en_event_ids = [3008]\<rparr>])"

section \<open>Layouts\<close>

datatype in_type =
    UnicodeString | AnsiString | UInt16 | Int32 | UInt32 | UInt64 | Binary | Pointer | FileTime
  | SidField | HexInt32 | HexInt64 | WbemSid

primrec in_type_raw :: "in_type \<Rightarrow> nat" where
  "in_type_raw UnicodeString = 1"
| "in_type_raw AnsiString = 2"
| "in_type_raw UInt16 = 6"
| "in_type_raw Int32 = 7"
| "in_type_raw UInt32 = 8"
| "in_type_raw UInt64 = 10"
| "in_type_raw Binary = 14"
| "in_type_raw Pointer = 16"
| "in_type_raw FileTime = 17"
| "in_type_raw SidField = 19"
| "in_type_raw HexInt32 = 20"
| "in_type_raw HexInt64 = 21"
| "in_type_raw WbemSid = 310"

definition in_type_from_raw :: "nat \<Rightarrow> in_type option" where
  "in_type_from_raw v = find (\<lambda>t. in_type_raw t = v)
     [UnicodeString, AnsiString, UInt16, Int32, UInt32, UInt64, Binary, Pointer, FileTime,
      SidField, HexInt32, HexInt64, WbemSid]"

type_synonym field = "string \<times> in_type"

datatype layout =
  Layout (lay_provider: provider) (lay_id: nat) (lay_version: nat) (lay_fields: "field list")

definition PROCESS_START_V3 :: "field list" where
  "PROCESS_START_V3 =
    [(''ProcessID'', UInt32),
     (''ProcessSequenceNumber'', UInt64),
     (''CreateTime'', FileTime),
     (''ParentProcessID'', UInt32),
     (''ParentProcessSequenceNumber'', UInt64),
     (''SessionID'', UInt32),
     (''Flags'', UInt32),
     (''ProcessTokenElevationType'', UInt32),
     (''ProcessTokenIsElevated'', UInt32),
     (''MandatoryLabel'', SidField),
     (''ImageName'', UnicodeString),
     (''ImageChecksum'', UInt32),
     (''TimeDateStamp'', UInt32),
     (''PackageFullName'', UnicodeString),
     (''PackageRelativeAppId'', UnicodeString)]"

definition PROCESS_START_V4 :: "field list" where
  "PROCESS_START_V4 =
    [(''ProcessID'', UInt32),
     (''ProcessSequenceNumber'', UInt64),
     (''CreateTime'', FileTime),
     (''ParentProcessID'', UInt32),
     (''ParentProcessSequenceNumber'', UInt64),
     (''SessionID'', UInt32),
     (''Flags'', UInt32),
     (''ProcessTokenElevationType'', UInt32),
     (''ProcessTokenIsElevated'', UInt32),
     (''MandatoryLabel'', SidField),
     (''ImageName'', UnicodeString),
     (''ImageChecksum'', UInt32),
     (''TimeDateStamp'', UInt32),
     (''PackageFullName'', UnicodeString),
     (''PackageRelativeAppId'', UnicodeString),
     (''SecurityMitigations'', UInt32)]"

definition PROCESS_STOP_V2 :: "field list" where
  "PROCESS_STOP_V2 =
    [(''ProcessID'', UInt32),
     (''ProcessSequenceNumber'', UInt64),
     (''CreateTime'', FileTime),
     (''ExitTime'', FileTime),
     (''ExitCode'', UInt32),
     (''TokenElevationType'', UInt32),
     (''HandleCount'', UInt32),
     (''CommitCharge'', UInt64),
     (''CommitPeak'', UInt64),
     (''CPUCycleCount'', UInt64),
     (''ReadOperationCount'', UInt32),
     (''WriteOperationCount'', UInt32),
     (''ReadTransferKiloBytes'', UInt32),
     (''WriteTransferKiloBytes'', UInt32),
     (''HardFaultCount'', UInt32),
     (''ImageName'', AnsiString)]"

definition IMAGE_LOAD_V0 :: "field list" where
  "IMAGE_LOAD_V0 =
    [(''ImageBase'', Pointer),
     (''ImageSize'', Pointer),
     (''ProcessID'', UInt32),
     (''ImageCheckSum'', UInt32),
     (''TimeDateStamp'', UInt32),
     (''DefaultBase'', Pointer),
     (''ImageName'', UnicodeString)]"

definition FILE_CREATE_V1 :: "field list" where
  "FILE_CREATE_V1 =
    [(''Irp'', Pointer),
     (''FileObject'', Pointer),
     (''IssuingThreadId'', UInt32),
     (''CreateOptions'', UInt32),
     (''CreateAttributes'', UInt32),
     (''ShareAccess'', UInt32),
     (''FileName'', UnicodeString)]"

definition FILE_HANDLE_V1 :: "field list" where
  "FILE_HANDLE_V1 =
    [(''Irp'', Pointer),
     (''FileObject'', Pointer),
     (''FileKey'', Pointer),
     (''IssuingThreadId'', UInt32)]"

definition FILE_WRITE_V1 :: "field list" where
  "FILE_WRITE_V1 =
    [(''ByteOffset'', UInt64),
     (''Irp'', Pointer),
     (''FileObject'', Pointer),
     (''FileKey'', Pointer),
     (''IssuingThreadId'', UInt32),
     (''IOSize'', UInt32),
     (''IOFlags'', UInt32),
     (''ExtraFlags'', UInt32)]"

definition FILE_SET_INFO_V1 :: "field list" where
  "FILE_SET_INFO_V1 =
    [(''Irp'', Pointer),
     (''FileObject'', Pointer),
     (''FileKey'', Pointer),
     (''ExtraInformation'', Pointer),
     (''IssuingThreadId'', UInt32),
     (''InfoClass'', UInt32)]"

definition FILE_OP_END_V0 :: "field list" where
  "FILE_OP_END_V0 =
    [(''Irp'', Pointer),
     (''ExtraInformation'', Pointer),
     (''Status'', UInt32)]"

definition FILE_PATH_V1 :: "field list" where
  "FILE_PATH_V1 =
    [(''Irp'', Pointer),
     (''FileObject'', Pointer),
     (''FileKey'', Pointer),
     (''ExtraInformation'', Pointer),
     (''IssuingThreadId'', UInt32),
     (''InfoClass'', UInt32),
     (''FilePath'', UnicodeString)]"

definition REG_OPEN_V0 :: "field list" where
  "REG_OPEN_V0 =
    [(''BaseObject'', Pointer),
     (''KeyObject'', Pointer),
     (''Status'', UInt32),
     (''Disposition'', UInt32),
     (''BaseName'', UnicodeString),
     (''RelativeName'', UnicodeString)]"

definition REG_KEY_V0 :: "field list" where
  "REG_KEY_V0 =
    [(''KeyObject'', Pointer),
     (''Status'', UInt32),
     (''KeyName'', UnicodeString)]"

definition REG_SET_VALUE_V0 :: "field list" where
  "REG_SET_VALUE_V0 =
    [(''KeyObject'', Pointer),
     (''Status'', UInt32),
     (''Type'', UInt32),
     (''DataSize'', UInt32),
     (''KeyName'', UnicodeString),
     (''ValueName'', UnicodeString),
     (''CapturedDataSize'', UInt16),
     (''CapturedData'', Binary),
     (''PreviousDataType'', UInt32),
     (''PreviousDataSize'', UInt32),
     (''PreviousDataCapturedSize'', UInt16),
     (''PreviousData'', Binary)]"

definition REG_DELETE_VALUE_V0 :: "field list" where
  "REG_DELETE_VALUE_V0 =
    [(''KeyObject'', Pointer),
     (''Status'', UInt32),
     (''KeyName'', UnicodeString),
     (''ValueName'', UnicodeString)]"

definition TCP4_OPEN :: "field list" where
  "TCP4_OPEN =
    [(''PID'', UInt32),
     (''size'', UInt32),
     (''daddr'', UInt32),
     (''saddr'', UInt32),
     (''dport'', UInt16),
     (''sport'', UInt16),
     (''mss'', UInt16),
     (''sackopt'', UInt16),
     (''tsopt'', UInt16),
     (''wsopt'', UInt16),
     (''rcvwin'', UInt32),
     (''rcvwinscale'', UInt16),
     (''sndwinscale'', UInt16),
     (''seqnum'', UInt32),
     (''connid'', UInt32)]"

definition TCP6_OPEN :: "field list" where
  "TCP6_OPEN =
    [(''PID'', UInt32),
     (''size'', UInt32),
     (''daddr'', Binary),
     (''saddr'', Binary),
     (''dport'', UInt16),
     (''sport'', UInt16),
     (''mss'', UInt16),
     (''sackopt'', UInt16),
     (''tsopt'', UInt16),
     (''wsopt'', UInt16),
     (''rcvwin'', UInt32),
     (''rcvwinscale'', UInt16),
     (''sndwinscale'', UInt16),
     (''seqnum'', UInt32),
     (''connid'', UInt32)]"

definition NET4_SIMPLE :: "field list" where
  "NET4_SIMPLE =
    [(''PID'', UInt32),
     (''size'', UInt32),
     (''daddr'', UInt32),
     (''saddr'', UInt32),
     (''dport'', UInt16),
     (''sport'', UInt16),
     (''seqnum'', UInt32),
     (''connid'', UInt32)]"

definition NET6_SIMPLE :: "field list" where
  "NET6_SIMPLE =
    [(''PID'', UInt32),
     (''size'', UInt32),
     (''daddr'', Binary),
     (''saddr'', Binary),
     (''dport'', UInt16),
     (''sport'', UInt16),
     (''seqnum'', UInt32),
     (''connid'', UInt32)]"

definition DNS_QUERY_V0 :: "field list" where
  "DNS_QUERY_V0 =
    [(''QueryName'', UnicodeString),
     (''QueryType'', UInt32),
     (''QueryOptions'', UInt64),
     (''QueryStatus'', UInt32),
     (''QueryResults'', UnicodeString)]"

definition CLASSIC_PROCESS_V4 :: "field list" where
  "CLASSIC_PROCESS_V4 =
    [(''UniqueProcessKey'', Pointer),
     (''ProcessId'', UInt32),
     (''ParentId'', UInt32),
     (''SessionId'', UInt32),
     (''ExitStatus'', Int32),
     (''DirectoryTableBase'', Pointer),
     (''Flags'', UInt32),
     (''UserSID'', WbemSid),
     (''ImageFileName'', AnsiString),
     (''CommandLine'', UnicodeString),
     (''PackageFullName'', UnicodeString),
     (''ApplicationId'', UnicodeString)]"

text \<open>Every layout parsed, ordered by provider, id and version.\<close>

definition LAYOUTS :: "layout list" where
  "LAYOUTS =
    [Layout KernelProcess 1 3 PROCESS_START_V3,
     Layout KernelProcess 1 4 PROCESS_START_V4,
     Layout KernelProcess 2 2 PROCESS_STOP_V2,
     Layout KernelProcess 5 0 IMAGE_LOAD_V0,
     Layout KernelFile 12 1 FILE_CREATE_V1,
     Layout KernelFile 13 1 FILE_HANDLE_V1,
     Layout KernelFile 14 1 FILE_HANDLE_V1,
     Layout KernelFile 16 1 FILE_WRITE_V1,
     Layout KernelFile 17 1 FILE_SET_INFO_V1,
     Layout KernelFile 18 1 FILE_SET_INFO_V1,
     Layout KernelFile 24 0 FILE_OP_END_V0,
     Layout KernelFile 26 1 FILE_PATH_V1,
     Layout KernelFile 27 1 FILE_PATH_V1,
     Layout KernelFile 30 1 FILE_CREATE_V1,
     Layout KernelRegistry 1 0 REG_OPEN_V0,
     Layout KernelRegistry 2 0 REG_OPEN_V0,
     Layout KernelRegistry 3 0 REG_KEY_V0,
     Layout KernelRegistry 5 0 REG_SET_VALUE_V0,
     Layout KernelRegistry 6 0 REG_DELETE_VALUE_V0,
     Layout KernelRegistry 13 0 REG_KEY_V0,
     Layout KernelNetwork 12 0 TCP4_OPEN,
     Layout KernelNetwork 13 0 NET4_SIMPLE,
     Layout KernelNetwork 15 0 TCP4_OPEN,
     Layout KernelNetwork 28 0 TCP6_OPEN,
     Layout KernelNetwork 29 0 NET6_SIMPLE,
     Layout KernelNetwork 31 0 TCP6_OPEN,
     Layout KernelNetwork 42 0 NET4_SIMPLE,
     Layout KernelNetwork 43 0 NET4_SIMPLE,
     Layout KernelNetwork 58 0 NET6_SIMPLE,
     Layout KernelNetwork 59 0 NET6_SIMPLE,
     Layout DnsClient 3008 0 DNS_QUERY_V0,
     Layout ClassicProcess 1 4 CLASSIC_PROCESS_V4,
     Layout ClassicProcess 2 4 CLASSIC_PROCESS_V4,
     Layout ClassicProcess 3 4 CLASSIC_PROCESS_V4,
     Layout ClassicProcess 4 4 CLASSIC_PROCESS_V4]"

definition layout_find :: "provider \<Rightarrow> nat \<Rightarrow> nat \<Rightarrow> layout option" where
  "layout_find p i v = find (\<lambda>l. lay_provider l = p \<and> lay_id l = i \<and> lay_version l = v) LAYOUTS"

text \<open>\<open>max_by_key\<close>: of several maxima the last.\<close>

definition layout_newest :: "provider \<Rightarrow> nat \<Rightarrow> layout option" where
  "layout_newest p i =
     foldl (\<lambda>m l. case m of None \<Rightarrow> Some l | Some m \<Rightarrow> if lay_version m \<le> lay_version l then Some l else Some m)
       None (filter (\<lambda>l. lay_provider l = p \<and> lay_id l = i) LAYOUTS)"

definition is_prefix :: "field list \<Rightarrow> (string \<times> nat) list \<Rightarrow> bool" where
  "is_prefix known newer \<longleftrightarrow>
     length known \<le> length newer \<and>
     list_all (\<lambda>((n, t), (m, u)). n = m \<and> in_type_raw t = u) (zip known newer)"

end
