(* ===== verification/Ew_Reader.thy ===== *)
theory Ew_Reader
  imports Ew_Layout
begin

text \<open>
  The bounds-checked cursor over an event payload (\<open>crates/atlas-etw/src/parse/reader.rs\<close>). A parser
  maps the reader to a result and the reader it leaves; where the code slices, an index out of range
  is the value \<open>SlicePanic\<close>, which is no error of the code's. \<open>denotes p f\<close> says what a parser does to
  the bytes left, \<open>f\<close>, and with it that the parser never panics, stays inside the payload and reports
  positions inside it; its rules follow the parsers' structure.
\<close>

section \<open>Errors and the reader\<close>

datatype parse_error =
    UnknownEvent
  | UnsupportedVersion nat
  | NewerVersion nat nat
  | Truncated string nat
  | Unterminated string nat
  | FieldMalformed string nat
  | SlicePanic

record payload_reader =
  rd_data :: bytes
  rd_pos :: nat
  rd_field :: string

type_synonym 'a parser = "payload_reader \<Rightarrow> (parse_error + 'a) \<times> payload_reader"

definition p_return :: "'a \<Rightarrow> 'a parser" where
  "p_return v r = (Inr v, r)"

definition p_fail :: "parse_error \<Rightarrow> 'a parser" where
  "p_fail e r = (Inl e, r)"

definition p_bind :: "'a parser \<Rightarrow> ('a \<Rightarrow> 'b parser) \<Rightarrow> 'b parser" where
  "p_bind p g r = and_then (p r) g"

definition p_map :: "('a \<Rightarrow> 'b) \<Rightarrow> 'a parser \<Rightarrow> 'b parser" where
  "p_map f p = p_bind p (\<lambda>v. p_return (f v))"

definition rd_new :: "bytes \<Rightarrow> payload_reader" where
  "rd_new data = \<lparr>rd_data = data, rd_pos = 0, rd_field = []\<rparr>"

definition at_field :: "string \<Rightarrow> 'a parser \<Rightarrow> 'a parser" where
  "at_field name p r = p (r\<lparr>rd_field := name\<rparr>)"

definition rd_rest :: "bytes parser" where
  "rd_rest r =
     (if rd_pos r \<le> length (rd_data r) then (Inr (drop (rd_pos r) (rd_data r)), r) else (Inl SlicePanic, r))"

definition rd_slice_from :: "nat \<Rightarrow> bytes parser" where
  "rd_slice_from start r =
     (if start \<le> rd_pos r \<and> rd_pos r \<le> length (rd_data r)
      then (Inr (slice_of (rd_data r) start (rd_pos r)), r) else (Inl SlicePanic, r))"

definition rd_take :: "nat \<Rightarrow> bytes parser" where
  "rd_take n r =
     (if rd_pos r + n \<le> length (rd_data r)
      then (Inr (slice_of (rd_data r) (rd_pos r) (rd_pos r + n)), r\<lparr>rd_pos := rd_pos r + n\<rparr>)
      else (Inl (Truncated (rd_field r) (rd_pos r)), r))"

definition rd_skip :: "nat \<Rightarrow> unit parser" where
  "rd_skip n = p_map (\<lambda>_. ()) (rd_take n)"

definition rd_advance :: "nat \<Rightarrow> unit parser" where
  "rd_advance n r = (Inr (), r\<lparr>rd_pos := rd_pos r + n\<rparr>)"

definition word_of_le :: "bytes \<Rightarrow> 'a :: len word" where
  "word_of_le bs = of_nat (from_le bs)"

definition rd_u16 :: "u16 parser" where
  "rd_u16 = p_map word_of_le (rd_take 2)"

definition rd_u16_be :: "u16 parser" where
  "rd_u16_be = p_map (\<lambda>b. word_of_le (rev b)) (rd_take 2)"

definition rd_u32 :: "u32 parser" where
  "rd_u32 = p_map word_of_le (rd_take 4)"

definition rd_u64 :: "u64 parser" where
  "rd_u64 = p_map word_of_le (rd_take 8)"

text \<open>The size of pointers in the process that logged the event.\<close>

datatype pointer_size = P32 | P64

definition rd_ptr :: "pointer_size \<Rightarrow> u64 parser" where
  "rd_ptr ps = (case ps of P32 \<Rightarrow> p_map ucast rd_u32 | P64 \<Rightarrow> rd_u64)"

section \<open>Strings\<close>

type_synonym wstr = "u16 list"

text \<open>\<open>chunks_exact(2)\<close> of little-endian units.\<close>

fun units_of :: "bytes \<Rightarrow> wstr" where
  "units_of (a # b # bs) = word_of_le [a, b] # units_of bs"
| "units_of [b] = []"
| "units_of [] = []"

definition nul_at :: "bytes \<Rightarrow> nat \<Rightarrow> bool" where
  "nul_at rest i \<longleftrightarrow> rest ! (2 * i) = 0 \<and> rest ! (2 * i + 1) = 0"

definition rd_unterminated :: "'a parser" where
  "rd_unterminated r = (Inl (Unterminated (rd_field r) (rd_pos r)), r)"

definition rd_wstr :: "wstr parser" where
  "rd_wstr = p_bind rd_rest (\<lambda>rest.
     case find (nul_at rest) [0 ..< length rest div 2] of
       Some n \<Rightarrow> p_map (\<lambda>_. units_of (take (2 * n) rest)) (rd_advance (2 * n + 2))
     | None \<Rightarrow> rd_unterminated)"

definition rd_fits :: "(bytes \<Rightarrow> nat option) \<Rightarrow> bytes \<Rightarrow> nat list" where
  "rd_fits trailer_len rest =
     filter (\<lambda>i. trailer_len (drop (2 * i + 2) rest) = Some (length rest - 2 * i - 2))
       (filter (nul_at rest) (rev [0 ..< length rest div 2]))"

definition rd_counted_wstr :: "(bytes \<Rightarrow> nat option) \<Rightarrow> (wstr \<times> bool) parser" where
  "rd_counted_wstr trailer_len = p_bind rd_rest (\<lambda>rest.
     case rd_fits trailer_len rest of
       n # others \<Rightarrow>
         p_map (\<lambda>_. (units_of (take (2 * n) rest), others \<noteq> [])) (rd_advance (2 * n + 2))
     | [] \<Rightarrow> p_map (\<lambda>s. (s, False)) rd_wstr)"

definition rd_astr :: "bytes parser" where
  "rd_astr = p_bind rd_rest (\<lambda>rest.
     case find (\<lambda>i. rest ! i = 0) [0 ..< length rest] of
       Some n \<Rightarrow> p_map (\<lambda>_. take n rest) (rd_advance (n + 1))
     | None \<Rightarrow> rd_unterminated)"

section \<open>Security identifiers\<close>

definition MAX_SUB_AUTHORITIES :: nat where "MAX_SUB_AUTHORITIES = 15"

type_synonym sid = bytes

definition rd_sid :: "sid parser" where
  "rd_sid r =
     (let start = rd_pos r in
      p_bind (rd_take 8) (\<lambda>head.
        let count = unat (head ! 1) in
        if head ! 0 \<noteq> 1 \<or> count > MAX_SUB_AUTHORITIES
        then (\<lambda>r. (Inl (FieldMalformed (rd_field r) start), r))
        else p_bind (rd_skip (4 * count)) (\<lambda>_. rd_slice_from start)) r)"

definition sid_from_bytes :: "bytes \<Rightarrow> sid option" where
  "sid_from_bytes b = (case rd_sid (rd_new b) of
     (Inr s, r) \<Rightarrow> if drop (rd_pos r) b = [] then Some s else None
   | (Inl e, r) \<Rightarrow> None)"

definition sid_authority :: "sid \<Rightarrow> nat" where
  "sid_authority s = foldl (\<lambda>acc b. acc * 256 + unat b) 0 (slice_of s 2 8)"

fun chunks4 :: "bytes \<Rightarrow> u32 list" where
  "chunks4 (a # b # c # d # bs) = word_of_le [a, b, c, d] # chunks4 bs"
| "chunks4 bs = []"

definition sid_sub_authorities :: "sid \<Rightarrow> u32 list" where
  "sid_sub_authorities s = chunks4 (drop 8 s)"

definition sid_rid :: "sid \<Rightarrow> u32 option" where
  "sid_rid s = (let a = sid_sub_authorities s in if a = [] then None else Some (List.last a))"

definition sid_is_mandatory_label :: "sid \<Rightarrow> bool" where
  "sid_is_mandatory_label s \<longleftrightarrow> sid_authority s = 16 \<and> s ! 1 = 1"

text \<open>\<open>Display\<close>: decimal, but an authority of more than 32 bits in hexadecimal.\<close>

definition hex_digit :: "nat \<Rightarrow> char" where
  "hex_digit d = (if d < 10 then char_of (48 + d) else char_of (55 + d))"

primrec hex_string :: "nat \<Rightarrow> nat \<Rightarrow> string" where
  "hex_string 0 n = []"
| "hex_string (Suc k) n = hex_string k (n div 16) @ [hex_digit (n mod 16)]"

definition sid_display :: "sid \<Rightarrow> string" where
  "sid_display s =
     ''S-'' @ dec_string (unat (s ! 0)) @
     (let a = sid_authority s in
      if a < 2 ^ 32 then ''-'' @ dec_string a else ''-0x'' @ hex_string 12 a) @
     concat (map (\<lambda>x. ''-'' @ dec_string (unat x)) (sid_sub_authorities s))"

section \<open>What a parser does to the bytes left\<close>

definition rd_left :: "payload_reader \<Rightarrow> bytes" where
  "rd_left r = drop (rd_pos r) (rd_data r)"

text \<open>The errors a read may report: at a position inside the payload, never a panic.\<close>

primrec error_within :: "nat \<Rightarrow> parse_error \<Rightarrow> bool" where
  "error_within n UnknownEvent = False"
| "error_within n (UnsupportedVersion v) = False"
| "error_within n (NewerVersion v w) = False"
| "error_within n (Truncated f i) = (i \<le> n)"
| "error_within n (Unterminated f i) = (i \<le> n)"
| "error_within n (FieldMalformed f i) = (i \<le> n)"
| "error_within n SlicePanic = False"

definition agrees :: "payload_reader \<Rightarrow> ('a \<times> bytes) option \<Rightarrow> (parse_error + 'a) \<times> payload_reader \<Rightarrow> bool" where
  "agrees r out res = (case fst res of
      Inr v \<Rightarrow> rd_data (snd res) = rd_data r \<and> rd_pos r \<le> rd_pos (snd res) \<and>
        rd_pos (snd res) \<le> length (rd_data r) \<and> out = Some (v, rd_left (snd res))
    | Inl e \<Rightarrow> error_within (length (rd_data r)) e \<and> out = None)"

definition denotes :: "'a parser \<Rightarrow> (bytes \<Rightarrow> ('a \<times> bytes) option) \<Rightarrow> bool" where
  "denotes p f \<longleftrightarrow> (\<forall>r. rd_pos r \<le> length (rd_data r) \<longrightarrow> agrees r (f (rd_left r)) (p r))"

lemma agrees_simps [simp]:
  "agrees r out (Inr v, r') \<longleftrightarrow> rd_data r' = rd_data r \<and> rd_pos r \<le> rd_pos r' \<and>
     rd_pos r' \<le> length (rd_data r) \<and> out = Some (v, rd_left r')"
  "agrees r out (Inl e, r') \<longleftrightarrow> error_within (length (rd_data r)) e \<and> out = None"
  by (simp_all add: agrees_def)

lemma agrees_field: "agrees (r\<lparr>rd_field := n\<rparr>) out res = agrees r out res"
  by (simp add: agrees_def split: sum.split)

definition obind :: "(bytes \<Rightarrow> ('a \<times> bytes) option) \<Rightarrow> ('a \<Rightarrow> bytes \<Rightarrow> ('b \<times> bytes) option) \<Rightarrow>
    bytes \<Rightarrow> ('b \<times> bytes) option" where
  "obind f g bs = (case f bs of None \<Rightarrow> None | Some (v, bs) \<Rightarrow> g v bs)"

definition omap :: "('a \<Rightarrow> 'b) \<Rightarrow> (bytes \<Rightarrow> ('a \<times> bytes) option) \<Rightarrow> bytes \<Rightarrow> ('b \<times> bytes) option" where
  "omap h f bs = map_option (\<lambda>(v, bs). (h v, bs)) (f bs)"

definition oret :: "'a \<Rightarrow> bytes \<Rightarrow> ('a \<times> bytes) option" where
  "oret v bs = Some (v, bs)"

definition osplit :: "nat \<Rightarrow> bytes \<Rightarrow> (bytes \<times> bytes) option" where
  "osplit n bs = (if n \<le> length bs then Some (take n bs, drop n bs) else None)"

named_theorems denotes \<open>what each parser does to the bytes left\<close>

lemma denotesD: "denotes p f \<Longrightarrow> rd_pos r \<le> length (rd_data r) \<Longrightarrow> agrees r (f (rd_left r)) (p r)"
  by (simp add: denotes_def)

lemma denotes_cong: "denotes p f \<Longrightarrow> (\<And>bs. f bs = g bs) \<Longrightarrow> denotes p g"
  unfolding denotes_def by metis

lemma denotes_return [denotes]: "denotes (p_return v) (oret v)"
  by (simp add: denotes_def p_return_def oret_def)

text \<open>The reader after a read that took \<open>c\<close> and made \<open>d c\<close> of it.\<close>

lemma denotes_bind_omap:
  assumes p: "denotes p (omap d e)" and g: "\<And>c. denotes (g (d c)) (h c)"
  shows "denotes (p_bind p g) (obind e h)"
  unfolding denotes_def
proof (intro allI impI)
  fix r :: payload_reader
  assume r: "rd_pos r \<le> length (rd_data r)"
  obtain x r1 where x: "p r = (x, r1)" by fastforce
  note one = denotesD [OF p r, unfolded x]
  show "agrees r (obind e h (rd_left r)) (p_bind p g r)"
  proof (cases x)
    case (Inl _)
    then show ?thesis using one x by (simp add: p_bind_def obind_def omap_def)
  next
    case (Inr v)
    then have at: "rd_data r1 = rd_data r" "rd_pos r \<le> rd_pos r1" "rd_pos r1 \<le> length (rd_data r)"
      using one by simp_all
    obtain c where c: "e (rd_left r) = Some (c, rd_left r1)" "v = d c"
      using one Inr by (auto simp: omap_def)
    obtain y r2 where y: "g v r1 = (y, r2)" by fastforce
    have "agrees r1 (h c (rd_left r1)) (y, r2)"
      using denotesD [OF g, of r1 c] at y c by simp
    then show ?thesis
      using x Inr y at c by (cases y) (simp_all add: p_bind_def obind_def)
  qed
qed

lemma omap_ident [simp]: "omap (\<lambda>c. c) f = f"
  by (auto simp: omap_def fun_eq_iff option.map_ident_strong)

lemma denotes_bind [denotes]:
  "denotes p f \<Longrightarrow> (\<And>v. denotes (g v) (h v)) \<Longrightarrow> denotes (p_bind p g) (obind f h)"
  by (rule denotes_bind_omap [where d = "\<lambda>c. c"]) simp_all

lemma omap_obind: "omap h f = obind f (\<lambda>v. oret (h v))"
  by (auto simp: omap_def obind_def oret_def fun_eq_iff split: option.splits)

lemma denotes_map [denotes]: "denotes p f \<Longrightarrow> denotes (p_map h p) (omap h f)"
  unfolding p_map_def omap_obind by (intro denotes)

lemma denotes_at_field [denotes]: "denotes p f \<Longrightarrow> denotes (at_field n p) f"
  unfolding denotes_def at_field_def
proof (intro allI impI)
  fix r :: payload_reader
  assume d: "\<forall>r. rd_pos r \<le> length (rd_data r) \<longrightarrow> agrees r (f (rd_left r)) (p r)"
    and r: "rd_pos r \<le> length (rd_data r)"
  show "agrees r (f (rd_left r)) (p (r\<lparr>rd_field := n\<rparr>))"
    using d [THEN spec, of "r\<lparr>rd_field := n\<rparr>"] r by (simp add: agrees_field rd_left_def)
qed

lemma denotes_take [denotes]: "denotes (rd_take n) (osplit n)"
  by (auto simp: denotes_def rd_take_def osplit_def rd_left_def slice_of_def add.commute)

text \<open>The extents the reads take: what is left must hold them whole.\<close>

definition ext_wstr :: "bytes \<Rightarrow> (bytes \<times> bytes) option" where
  "ext_wstr bs = (case find (nul_at bs) [0 ..< length bs div 2] of
     Some n \<Rightarrow> Some (take (2 * n) bs, drop (2 * n + 2) bs)
   | None \<Rightarrow> None)"

definition ext_astr :: "bytes \<Rightarrow> (bytes \<times> bytes) option" where
  "ext_astr bs = (case find (\<lambda>i. bs ! i = 0) [0 ..< length bs] of
     Some n \<Rightarrow> Some (take n bs, drop (n + 1) bs)
   | None \<Rightarrow> None)"

definition ext_sid :: "bytes \<Rightarrow> (bytes \<times> bytes) option" where
  "ext_sid bs =
     (if length bs < 8 \<or> bs ! 0 \<noteq> 1 \<or> unat (bs ! 1) > MAX_SUB_AUTHORITIES then None
      else osplit (8 + 4 * unat (bs ! 1)) bs)"

definition ext_counted :: "(bytes \<Rightarrow> nat option) \<Rightarrow> bytes \<Rightarrow> ((bytes \<times> bool) \<times> bytes) option" where
  "ext_counted trailer_len bs = (case rd_fits trailer_len bs of
     n # others \<Rightarrow> Some ((take (2 * n) bs, others \<noteq> []), drop (2 * n + 2) bs)
   | [] \<Rightarrow> omap (\<lambda>c. (c, False)) ext_wstr bs)"

lemma find_upt_less: "find P [0 ..< n] = Some i \<Longrightarrow> i < n \<and> P i"
  by (auto simp: find_Some_iff)

lemma rd_rest_ok: "rd_pos r \<le> length (rd_data r) \<Longrightarrow> rd_rest r = (Inr (rd_left r), r)"
  by (simp add: rd_rest_def rd_left_def)

lemma length_rd_left [simp]: "length (rd_left r) = length (rd_data r) - rd_pos r"
  by (simp add: rd_left_def)

lemma denotes_skip [denotes]: "denotes (rd_skip n) (omap (\<lambda>_. ()) (osplit n))"
  unfolding rd_skip_def by (intro denotes)

lemma denotes_u16 [denotes]: "denotes rd_u16 (omap word_of_le (osplit 2))"
  unfolding rd_u16_def by (intro denotes)

lemma denotes_u16_be [denotes]: "denotes rd_u16_be (omap (\<lambda>b. word_of_le (rev b)) (osplit 2))"
  unfolding rd_u16_be_def by (intro denotes)

lemma denotes_u32 [denotes]: "denotes rd_u32 (omap word_of_le (osplit 4))"
  unfolding rd_u32_def by (intro denotes)

lemma denotes_u64 [denotes]: "denotes rd_u64 (omap word_of_le (osplit 8))"
  unfolding rd_u64_def by (intro denotes)

definition pointer_len :: "pointer_size \<Rightarrow> nat" where
  "pointer_len p = (case p of P32 \<Rightarrow> 4 | P64 \<Rightarrow> 8)"

lemma omap_omap: "omap g (omap f e) = omap (\<lambda>v. g (f v)) e"
  by (auto simp: omap_def fun_eq_iff option.map_comp comp_def split_beta intro: option.map_cong)

lemma ucast_word_of_le:
  assumes "length bs = 4"
  shows "ucast (word_of_le bs :: u32) = (word_of_le bs :: u64)"
proof -
  have "from_le bs < 2 ^ 32"
    using from_le_bound [of bs] assms by simp
  then show ?thesis
    by (simp add: word_of_le_def word_eq_iff_unsigned unsigned_ucast_eq unsigned_of_nat take_bit_nat_eq_self)
qed

lemma denotes_ptr [denotes]: "denotes (rd_ptr p) (omap word_of_le (osplit (pointer_len p)))"
proof (cases p)
  case P32
  have "denotes (p_map ucast rd_u32) (omap ucast (omap (word_of_le :: bytes \<Rightarrow> u32) (osplit 4)))"
    by (intro denotes)
  then have "denotes (p_map ucast rd_u32) (omap (word_of_le :: bytes \<Rightarrow> u64) (osplit 4))"
    by (rule denotes_cong) (simp add: omap_def osplit_def ucast_word_of_le)
  then show ?thesis by (simp add: P32 rd_ptr_def pointer_len_def)
next
  case P64
  then show ?thesis by (simp add: rd_ptr_def pointer_len_def denotes)
qed

lemma denotes_wstr [denotes]: "denotes rd_wstr (omap units_of ext_wstr)"
  by (auto simp: denotes_def rd_wstr_def p_bind_def rd_rest_ok ext_wstr_def omap_def p_map_def p_return_def
      rd_advance_def rd_unterminated_def rd_left_def algebra_simps split: option.splits dest!: find_upt_less)

lemma denotes_astr [denotes]: "denotes rd_astr ext_astr"
  by (auto simp: denotes_def rd_astr_def p_bind_def rd_rest_ok ext_astr_def omap_def p_map_def p_return_def
      rd_advance_def rd_unterminated_def rd_left_def algebra_simps split: option.splits dest!: find_upt_less)

lemma rd_fits_mem: "n \<in> set (rd_fits t bs) \<Longrightarrow> 2 * n + 2 \<le> length bs \<and> nul_at bs n"
  by (auto simp: rd_fits_def)

lemma denotes_counted_wstr [denotes]:
  "denotes (rd_counted_wstr t) (omap (\<lambda>(c, b). (units_of c, b)) (ext_counted t))"
  unfolding denotes_def
proof (intro allI impI)
  fix r :: payload_reader
  assume r: "rd_pos r \<le> length (rd_data r)"
  show "agrees r (omap (\<lambda>(c, b). (units_of c, b)) (ext_counted t) (rd_left r)) (rd_counted_wstr t r)"
  proof (cases "rd_fits t (rd_left r)")
    case Nil
    have eq: "rd_counted_wstr t r = p_map (\<lambda>s. (s, False)) rd_wstr r"
      by (simp add: rd_counted_wstr_def p_bind_def rd_rest_ok [OF r] Nil)
    have "denotes (p_map (\<lambda>s. (s, False)) rd_wstr) (omap (\<lambda>s. (s, False)) (omap units_of ext_wstr))"
      by (intro denotes)
    from denotesD [OF this r] show ?thesis
      unfolding eq by (simp add: ext_counted_def Nil omap_def option.map_comp comp_def split_beta)
  next
    case (Cons n ns)
    then have "2 * n + 2 \<le> length (rd_left r)"
      using rd_fits_mem [of n t "rd_left r"] by simp
    then show ?thesis using Cons r
      by (simp add: rd_counted_wstr_def p_bind_def rd_rest_ok [OF r] ext_counted_def omap_def p_map_def
          p_return_def rd_advance_def) (simp add: rd_left_def algebra_simps)
  qed
qed

lemma rd_take_left:
  assumes "rd_pos r \<le> length (rd_data r)"
  shows "rd_take n r =
    (if n \<le> length (rd_left r) then (Inr (take n (rd_left r)), r\<lparr>rd_pos := rd_pos r + n\<rparr>)
     else (Inl (Truncated (rd_field r) (rd_pos r)), r))"
  using assms by (auto simp: rd_take_def slice_of_def) (simp_all add: rd_left_def)

lemma rd_left_advance [simp]: "rd_left (r\<lparr>rd_pos := rd_pos r + n\<rparr>) = drop n (rd_left r)"
  by (simp add: rd_left_def add.commute)

lemma rd_slice_from_left:
  "rd_pos r + n \<le> length (rd_data r) \<Longrightarrow>
    rd_slice_from (rd_pos r) (r\<lparr>rd_pos := rd_pos r + n\<rparr>) = (Inr (take n (rd_left r)), r\<lparr>rd_pos := rd_pos r + n\<rparr>)"
  by (simp add: rd_slice_from_def slice_of_def rd_left_def)

lemma denotes_sid [denotes]: "denotes rd_sid ext_sid"
  unfolding denotes_def
proof (intro allI impI)
  fix r :: payload_reader
  assume r: "rd_pos r \<le> length (rd_data r)"
  let ?bs = "rd_left r"
  let ?n = "unat (?bs ! Suc 0)"
  show "agrees r (ext_sid ?bs) (rd_sid r)"
  proof (cases "8 \<le> length ?bs \<and> ?bs ! 0 = 1 \<and> ?n \<le> MAX_SUB_AUTHORITIES")
    case False
    then show ?thesis using r
      by (auto simp: rd_sid_def Let_def p_bind_def rd_take_left ext_sid_def)
  next
    case True
    let ?r = "r\<lparr>rd_pos := rd_pos r + 8\<rparr>"
    have one: "rd_sid r = p_bind (rd_skip (4 * ?n)) (\<lambda>_. rd_slice_from (rd_pos r)) ?r"
      using True by (simp add: rd_sid_def p_bind_def rd_take_left [OF r])
    have r': "rd_pos ?r \<le> length (rd_data ?r)" using True by auto
    have two: "rd_skip (4 * ?n) ?r =
        (if 8 + 4 * ?n \<le> length ?bs then (Inr (), r\<lparr>rd_pos := rd_pos r + (8 + 4 * ?n)\<rparr>)
         else (Inl (Truncated (rd_field r) (rd_pos r + 8)), ?r))"
      using True by (auto simp: rd_skip_def p_map_def p_bind_def p_return_def rd_take_left [OF r'] add.assoc)
    show ?thesis
      using True r r' unfolding one
      by (cases "8 + 4 * ?n \<le> length ?bs")
         (simp_all add: p_bind_def two ext_sid_def osplit_def rd_slice_from_left)
  qed
qed

end
