(* ===== verification/Ew_Parse.thy ===== *)
theory Ew_Parse
  imports Ew_Reader
begin

text \<open>
  The event parsers (\<open>crates/atlas-etw/src/parse/mod.rs\<close>): the record of each event, the parser that
  reads it, the table that picks the parser for a provider and event, and the entry points \<open>parse\<close>
  and \<open>parse_as\<close>. The records' fields carry a prefix for their event; the tables of Ew_Layout are
  not used by the parsers, as in the code, and Ew_Follows proves that the two agree.
\<close>

section \<open>Events\<close>

record raw_meta =
  em_provider :: provider
  em_id :: nat
  em_version :: nat
  em_pointer_size :: pointer_size

datatype ip_address = IpV4 bytes | IpV6 bytes

datatype classic_kind = ClassicStart | ClassicEnd | ClassicDcStart | ClassicDcEnd

record process_start_ev =
  ps_pid :: u32
  ps_sequence_number :: u64
  ps_create_time :: u64
  ps_parent_pid :: u32
  ps_parent_sequence_number :: u64
  ps_session_id :: u32
  ps_flags :: u32
  ps_token_elevation_type :: u32
  ps_token_is_elevated :: u32
  ps_mandatory_label :: sid
  ps_image_name :: wstr
  ps_image_checksum :: u32
  ps_time_date_stamp :: u32
  ps_package_full_name :: wstr
  ps_package_relative_app_id :: wstr
  ps_security_mitigations :: "u32 option"

record process_stop_ev =
  pst_pid :: u32
  pst_sequence_number :: u64
  pst_create_time :: u64
  pst_exit_time :: u64
  pst_exit_code :: u32
  pst_image_name :: bytes

record image_load_ev =
  il_image_base :: u64
  il_image_size :: u64
  il_pid :: u32
  il_image_checksum :: u32
  il_time_date_stamp :: u32
  il_default_base :: u64
  il_image_name :: wstr

record file_create_ev =
  fc_irp :: u64
  fc_file_object :: u64
  fc_issuing_tid :: u32
  fc_create_options :: u32
  fc_create_attributes :: u32
  fc_share_access :: u32
  fc_file_name :: wstr

record file_handle_ev =
  fh_irp :: u64
  fh_file_object :: u64
  fh_file_key :: u64
  fh_issuing_tid :: u32

record file_write_ev =
  fw_byte_offset :: u64
  fw_irp :: u64
  fw_file_object :: u64
  fw_file_key :: u64
  fw_issuing_tid :: u32
  fw_io_size :: u32
  fw_io_flags :: u32
  fw_extra_flags :: u32

record file_set_info_ev =
  fs_irp :: u64
  fs_file_object :: u64
  fs_file_key :: u64
  fs_extra_information :: u64
  fs_issuing_tid :: u32
  fs_info_class :: u32

record file_op_end_ev =
  fo_irp :: u64
  fo_extra_information :: u64
  fo_status :: u32

record file_path_ev =
  fp_irp :: u64
  fp_file_object :: u64
  fp_file_key :: u64
  fp_extra_information :: u64
  fp_issuing_tid :: u32
  fp_info_class :: u32
  fp_file_path :: wstr

record reg_open_ev =
  ro_base_object :: u64
  ro_key_object :: u64
  ro_status :: u32
  ro_disposition :: u32
  ro_base_name :: wstr
  ro_relative_name :: wstr

record reg_key_ev =
  rk_key_object :: u64
  rk_status :: u32
  rk_key_name :: wstr

record reg_set_value_ev =
  rsv_key_object :: u64
  rsv_status :: u32
  rsv_value_type :: u32
  rsv_data_size :: u32
  rsv_key_name :: wstr
  rsv_value_name :: wstr
  rsv_value_name_ambiguous :: bool
  rsv_captured_data :: bytes
  rsv_previous_data_type :: u32
  rsv_previous_data_size :: u32
  rsv_previous_data :: bytes

record reg_delete_value_ev =
  rdv_key_object :: u64
  rdv_status :: u32
  rdv_key_name :: wstr
  rdv_value_name :: wstr

record net_ev =
  ne_pid :: u32
  ne_size :: u32
  ne_daddr :: ip_address
  ne_saddr :: ip_address
  ne_dport :: u16
  ne_sport :: u16
  ne_seqnum :: u32
  ne_connid :: u32

record dns_query_ev =
  dq_query_name :: wstr
  dq_query_type :: u32
  dq_query_options :: u64
  dq_query_status :: u32
  dq_query_results :: wstr

record classic_process_ev =
  cp_kind :: classic_kind
  cp_unique_process_key :: u64
  cp_pid :: u32
  cp_parent_pid :: u32
  cp_session_id :: u32
  cp_exit_status :: int
  cp_directory_table_base :: u64
  cp_flags :: u32
  cp_user_sid :: "sid option"
  cp_image_file_name :: bytes
  cp_command_line :: wstr
  cp_package_full_name :: wstr
  cp_application_id :: wstr

datatype raw_event =
    ProcessStart process_start_ev
  | ProcessStop process_stop_ev
  | ImageLoad image_load_ev
  | FileCreate file_create_ev
  | FileCreateNew file_create_ev
  | FileCleanup file_handle_ev
  | FileClose file_handle_ev
  | FileWrite file_write_ev
  | FileSetInfo file_set_info_ev
  | FileSetDelete file_set_info_ev
  | FileOpEnd file_op_end_ev
  | FileDeletePath file_path_ev
  | FileRenamePath file_path_ev
  | RegCreateKey reg_open_ev
  | RegOpenKey reg_open_ev
  | RegDeleteKey reg_key_ev
  | RegSetValue reg_set_value_ev
  | RegDeleteValue reg_delete_value_ev
  | RegCloseKey reg_key_ev
  | TcpConnect net_ev
  | TcpAccept net_ev
  | TcpDisconnect net_ev
  | UdpSend net_ev
  | UdpRecv net_ev
  | DnsQuery dns_query_ev
  | EvClassicProcess classic_process_ev

definition fc_delete_on_close :: "file_create_ev \<Rightarrow> bool" where
  "fc_delete_on_close e \<longleftrightarrow> fc_create_options e AND 0x1000 \<noteq> 0"

definition fo_failed :: "file_op_end_ev \<Rightarrow> bool" where
  "fo_failed e \<longleftrightarrow> drop_bit 30 (fo_status e) = 3"

section \<open>One parser per event\<close>

definition process_start :: "nat \<Rightarrow> process_start_ev parser" where
  "process_start version =
     p_bind (at_field ''ProcessID'' rd_u32) (\<lambda>pid.
     p_bind (at_field ''ProcessSequenceNumber'' rd_u64) (\<lambda>sequence_number.
     p_bind (at_field ''CreateTime'' rd_u64) (\<lambda>create_time.
     p_bind (at_field ''ParentProcessID'' rd_u32) (\<lambda>parent_pid.
     p_bind (at_field ''ParentProcessSequenceNumber'' rd_u64) (\<lambda>parent_sequence_number.
     p_bind (at_field ''SessionID'' rd_u32) (\<lambda>session_id.
     p_bind (at_field ''Flags'' rd_u32) (\<lambda>flags'.
     p_bind (at_field ''ProcessTokenElevationType'' rd_u32) (\<lambda>token_elevation_type.
     p_bind (at_field ''ProcessTokenIsElevated'' rd_u32) (\<lambda>token_is_elevated.
     p_bind (at_field ''MandatoryLabel'' rd_sid) (\<lambda>mandatory_label.
     p_bind (at_field ''ImageName'' rd_wstr) (\<lambda>image_name.
     p_bind (at_field ''ImageChecksum'' rd_u32) (\<lambda>image_checksum.
     p_bind (at_field ''TimeDateStamp'' rd_u32) (\<lambda>time_date_stamp.
     p_bind (at_field ''PackageFullName'' rd_wstr) (\<lambda>package_full_name.
     p_bind (at_field ''PackageRelativeAppId'' rd_wstr) (\<lambda>package_relative_app_id.
     p_bind (if version \<ge> 4 then p_map Some (at_field ''SecurityMitigations'' rd_u32) else p_return None) (\<lambda>security_mitigations.
     p_return \<lparr>ps_pid = pid, ps_sequence_number = sequence_number, ps_create_time = create_time,
       ps_parent_pid = parent_pid, ps_parent_sequence_number = parent_sequence_number, ps_session_id = session_id,
       ps_flags = flags', ps_token_elevation_type = token_elevation_type, ps_token_is_elevated = token_is_elevated,
       ps_mandatory_label = mandatory_label, ps_image_name = image_name, ps_image_checksum = image_checksum,
       ps_time_date_stamp = time_date_stamp, ps_package_full_name = package_full_name, ps_package_relative_app_id = package_relative_app_id,
       ps_security_mitigations = security_mitigations\<rparr>))))))))))))))))"

definition process_stop :: "process_stop_ev parser" where
  "process_stop =
     p_bind (at_field ''ProcessID'' rd_u32) (\<lambda>pid.
     p_bind (at_field ''ProcessSequenceNumber'' rd_u64) (\<lambda>sequence_number.
     p_bind (at_field ''CreateTime'' rd_u64) (\<lambda>create_time.
     p_bind (at_field ''ExitTime'' rd_u64) (\<lambda>exit_time.
     p_bind (at_field ''ExitCode'' rd_u32) (\<lambda>exit_code.
     p_bind (at_field ''TokenElevationType..HardFaultCount'' (rd_skip (4 * 2 + 8 * 3 + 4 * 5))) (\<lambda>_.
     p_bind (at_field ''ImageName'' rd_astr) (\<lambda>image_name.
     p_return \<lparr>pst_pid = pid, pst_sequence_number = sequence_number, pst_create_time = create_time,
       pst_exit_time = exit_time, pst_exit_code = exit_code, pst_image_name = image_name\<rparr>)))))))"

definition image_load :: "pointer_size \<Rightarrow> image_load_ev parser" where
  "image_load p =
     p_bind (at_field ''ImageBase'' (rd_ptr p)) (\<lambda>image_base.
     p_bind (at_field ''ImageSize'' (rd_ptr p)) (\<lambda>image_size.
     p_bind (at_field ''ProcessID'' rd_u32) (\<lambda>pid.
     p_bind (at_field ''ImageCheckSum'' rd_u32) (\<lambda>image_checksum.
     p_bind (at_field ''TimeDateStamp'' rd_u32) (\<lambda>time_date_stamp.
     p_bind (at_field ''DefaultBase'' (rd_ptr p)) (\<lambda>default_base.
     p_bind (at_field ''ImageName'' rd_wstr) (\<lambda>image_name.
     p_return \<lparr>il_image_base = image_base, il_image_size = image_size, il_pid = pid,
       il_image_checksum = image_checksum, il_time_date_stamp = time_date_stamp, il_default_base = default_base,
       il_image_name = image_name\<rparr>)))))))"

definition file_create :: "pointer_size \<Rightarrow> file_create_ev parser" where
  "file_create p =
     p_bind (at_field ''Irp'' (rd_ptr p)) (\<lambda>irp.
     p_bind (at_field ''FileObject'' (rd_ptr p)) (\<lambda>file_object.
     p_bind (at_field ''IssuingThreadId'' rd_u32) (\<lambda>issuing_tid.
     p_bind (at_field ''CreateOptions'' rd_u32) (\<lambda>create_options.
     p_bind (at_field ''CreateAttributes'' rd_u32) (\<lambda>create_attributes.
     p_bind (at_field ''ShareAccess'' rd_u32) (\<lambda>share_access.
     p_bind (at_field ''FileName'' rd_wstr) (\<lambda>file_name.
     p_return \<lparr>fc_irp = irp, fc_file_object = file_object, fc_issuing_tid = issuing_tid,
       fc_create_options = create_options, fc_create_attributes = create_attributes, fc_share_access = share_access,
       fc_file_name = file_name\<rparr>)))))))"

definition file_handle :: "pointer_size \<Rightarrow> file_handle_ev parser" where
  "file_handle p =
     p_bind (at_field ''Irp'' (rd_ptr p)) (\<lambda>irp.
     p_bind (at_field ''FileObject'' (rd_ptr p)) (\<lambda>file_object.
     p_bind (at_field ''FileKey'' (rd_ptr p)) (\<lambda>file_key.
     p_bind (at_field ''IssuingThreadId'' rd_u32) (\<lambda>issuing_tid.
     p_return \<lparr>fh_irp = irp, fh_file_object = file_object, fh_file_key = file_key,
       fh_issuing_tid = issuing_tid\<rparr>))))"

definition file_write :: "pointer_size \<Rightarrow> file_write_ev parser" where
  "file_write p =
     p_bind (at_field ''ByteOffset'' rd_u64) (\<lambda>byte_offset.
     p_bind (at_field ''Irp'' (rd_ptr p)) (\<lambda>irp.
     p_bind (at_field ''FileObject'' (rd_ptr p)) (\<lambda>file_object.
     p_bind (at_field ''FileKey'' (rd_ptr p)) (\<lambda>file_key.
     p_bind (at_field ''IssuingThreadId'' rd_u32) (\<lambda>issuing_tid.
     p_bind (at_field ''IOSize'' rd_u32) (\<lambda>io_size.
     p_bind (at_field ''IOFlags'' rd_u32) (\<lambda>io_flags.
     p_bind (at_field ''ExtraFlags'' rd_u32) (\<lambda>extra_flags.
     p_return \<lparr>fw_byte_offset = byte_offset, fw_irp = irp, fw_file_object = file_object,
       fw_file_key = file_key, fw_issuing_tid = issuing_tid, fw_io_size = io_size,
       fw_io_flags = io_flags, fw_extra_flags = extra_flags\<rparr>))))))))"

definition file_set_info :: "pointer_size \<Rightarrow> file_set_info_ev parser" where
  "file_set_info p =
     p_bind (at_field ''Irp'' (rd_ptr p)) (\<lambda>irp.
     p_bind (at_field ''FileObject'' (rd_ptr p)) (\<lambda>file_object.
     p_bind (at_field ''FileKey'' (rd_ptr p)) (\<lambda>file_key.
     p_bind (at_field ''ExtraInformation'' (rd_ptr p)) (\<lambda>extra_information.
     p_bind (at_field ''IssuingThreadId'' rd_u32) (\<lambda>issuing_tid.
     p_bind (at_field ''InfoClass'' rd_u32) (\<lambda>info_class.
     p_return \<lparr>fs_irp = irp, fs_file_object = file_object, fs_file_key = file_key,
       fs_extra_information = extra_information, fs_issuing_tid = issuing_tid, fs_info_class = info_class\<rparr>))))))"

definition file_op_end :: "pointer_size \<Rightarrow> file_op_end_ev parser" where
  "file_op_end p =
     p_bind (at_field ''Irp'' (rd_ptr p)) (\<lambda>irp.
     p_bind (at_field ''ExtraInformation'' (rd_ptr p)) (\<lambda>extra_information.
     p_bind (at_field ''Status'' rd_u32) (\<lambda>status'.
     p_return \<lparr>fo_irp = irp, fo_extra_information = extra_information, fo_status = status'\<rparr>)))"

definition file_path :: "pointer_size \<Rightarrow> file_path_ev parser" where
  "file_path p =
     p_bind (at_field ''Irp'' (rd_ptr p)) (\<lambda>irp.
     p_bind (at_field ''FileObject'' (rd_ptr p)) (\<lambda>file_object.
     p_bind (at_field ''FileKey'' (rd_ptr p)) (\<lambda>file_key.
     p_bind (at_field ''ExtraInformation'' (rd_ptr p)) (\<lambda>extra_information.
     p_bind (at_field ''IssuingThreadId'' rd_u32) (\<lambda>issuing_tid.
     p_bind (at_field ''InfoClass'' rd_u32) (\<lambda>info_class.
     p_bind (at_field ''FilePath'' rd_wstr) (\<lambda>file_path.
     p_return \<lparr>fp_irp = irp, fp_file_object = file_object, fp_file_key = file_key,
       fp_extra_information = extra_information, fp_issuing_tid = issuing_tid, fp_info_class = info_class,
       fp_file_path = file_path\<rparr>)))))))"

text \<open>A registry name that ends the event; for the exact version it runs to the final terminator.\<close>

definition last_name :: "string \<Rightarrow> bool \<Rightarrow> wstr parser" where
  "last_name field exact =
     (if exact
      then p_map fst (at_field field (rd_counted_wstr (\<lambda>t. if t = [] then Some 0 else None)))
      else at_field field rd_wstr)"

definition reg_open :: "pointer_size \<Rightarrow> bool \<Rightarrow> reg_open_ev parser" where
  "reg_open p exact =
     p_bind (at_field ''BaseObject'' (rd_ptr p)) (\<lambda>base_object.
     p_bind (at_field ''KeyObject'' (rd_ptr p)) (\<lambda>key_object.
     p_bind (at_field ''Status'' rd_u32) (\<lambda>status'.
     p_bind (at_field ''Disposition'' rd_u32) (\<lambda>disposition.
     p_bind (at_field ''BaseName'' rd_wstr) (\<lambda>base_name.
     p_bind (last_name ''RelativeName'' exact) (\<lambda>relative_name.
     p_return \<lparr>ro_base_object = base_object, ro_key_object = key_object, ro_status = status',
       ro_disposition = disposition, ro_base_name = base_name, ro_relative_name = relative_name\<rparr>))))))"

definition reg_key :: "pointer_size \<Rightarrow> reg_key_ev parser" where
  "reg_key p =
     p_bind (at_field ''KeyObject'' (rd_ptr p)) (\<lambda>key_object.
     p_bind (at_field ''Status'' rd_u32) (\<lambda>status'.
     p_bind (at_field ''KeyName'' rd_wstr) (\<lambda>key_name.
     p_return \<lparr>rk_key_object = key_object, rk_status = status', rk_key_name = key_name\<rparr>)))"

definition size_at :: "bytes \<Rightarrow> nat \<Rightarrow> nat option" where
  "size_at b i = map_option from_le (slice_get b i (i + 2))"

definition set_value_trailer_len :: "bytes \<Rightarrow> nat option" where
  "set_value_trailer_len b =
     Option.bind (size_at b 0) (\<lambda>n.
       let previous_at = 2 + n + 8 in
       Option.bind (size_at b previous_at) (\<lambda>m.
         let total = previous_at + 2 + m in
         if total \<le> length b then Some total else None))"

text \<open>A byte count followed by that many bytes.\<close>

definition captured :: "string \<Rightarrow> string \<Rightarrow> bytes parser" where
  "captured size_field data_field =
     p_bind (at_field size_field rd_u16) (\<lambda>n r.
       let start = rd_pos r in
       p_bind (at_field data_field (rd_skip (unat n))) (\<lambda>_. rd_slice_from start) r)"

definition reg_set_value :: "pointer_size \<Rightarrow> bool \<Rightarrow> reg_set_value_ev parser" where
  "reg_set_value p exact =
     p_bind (at_field ''KeyObject'' (rd_ptr p)) (\<lambda>key_object.
     p_bind (at_field ''Status'' rd_u32) (\<lambda>status'.
     p_bind (at_field ''Type'' rd_u32) (\<lambda>value_type.
     p_bind (at_field ''DataSize'' rd_u32) (\<lambda>data_size.
     p_bind (at_field ''KeyName'' rd_wstr) (\<lambda>key_name.
     p_bind (if exact then at_field ''ValueName'' (rd_counted_wstr set_value_trailer_len)
       else p_map (\<lambda>s. (s, False)) (at_field ''ValueName'' rd_wstr)) (\<lambda>(value_name, value_name_ambiguous).
     p_bind (captured ''CapturedDataSize'' ''CapturedData'') (\<lambda>captured_data.
     p_bind (at_field ''PreviousDataType'' rd_u32) (\<lambda>previous_data_type.
     p_bind (at_field ''PreviousDataSize'' rd_u32) (\<lambda>previous_data_size.
     p_bind (captured ''PreviousDataCapturedSize'' ''PreviousData'') (\<lambda>previous_data.
     p_return \<lparr>rsv_key_object = key_object, rsv_status = status', rsv_value_type = value_type,
       rsv_data_size = data_size, rsv_key_name = key_name, rsv_value_name = value_name,
       rsv_value_name_ambiguous = value_name_ambiguous, rsv_captured_data = captured_data, rsv_previous_data_type = previous_data_type,
       rsv_previous_data_size = previous_data_size, rsv_previous_data = previous_data\<rparr>))))))))))"

definition reg_delete_value :: "pointer_size \<Rightarrow> bool \<Rightarrow> reg_delete_value_ev parser" where
  "reg_delete_value p exact =
     p_bind (at_field ''KeyObject'' (rd_ptr p)) (\<lambda>key_object.
     p_bind (at_field ''Status'' rd_u32) (\<lambda>status'.
     p_bind (at_field ''KeyName'' rd_wstr) (\<lambda>key_name.
     p_bind (last_name ''ValueName'' exact) (\<lambda>value_name.
     p_return \<lparr>rdv_key_object = key_object, rdv_status = status', rdv_key_name = key_name,
       rdv_value_name = value_name\<rparr>))))"

definition rd_addr :: "bool \<Rightarrow> string \<Rightarrow> ip_address parser" where
  "rd_addr v6 name = at_field name (if v6 then p_map IpV6 (rd_take 16) else p_map IpV4 (rd_take 4))"

definition rd_net :: "bool \<Rightarrow> bool \<Rightarrow> net_ev parser" where
  "rd_net v6 with_tcp_options =
     p_bind (at_field ''PID'' rd_u32) (\<lambda>pid.
     p_bind (at_field ''size'' rd_u32) (\<lambda>size'.
     p_bind (rd_addr v6 ''daddr'') (\<lambda>daddr.
     p_bind (rd_addr v6 ''saddr'') (\<lambda>saddr.
     p_bind (at_field ''dport'' rd_u16_be) (\<lambda>dport.
     p_bind (at_field ''sport'' rd_u16_be) (\<lambda>sport.
     p_bind (if with_tcp_options then at_field ''mss..sndwinscale'' (rd_skip 16) else p_return ()) (\<lambda>_.
     p_bind (at_field ''seqnum'' rd_u32) (\<lambda>seqnum.
     p_bind (at_field ''connid'' rd_u32) (\<lambda>connid.
     p_return \<lparr>ne_pid = pid, ne_size = size', ne_daddr = daddr,
       ne_saddr = saddr, ne_dport = dport, ne_sport = sport,
       ne_seqnum = seqnum, ne_connid = connid\<rparr>)))))))))"

definition dns_query :: "dns_query_ev parser" where
  "dns_query =
     p_bind (at_field ''QueryName'' rd_wstr) (\<lambda>query_name.
     p_bind (at_field ''QueryType'' rd_u32) (\<lambda>query_type.
     p_bind (at_field ''QueryOptions'' rd_u64) (\<lambda>query_options.
     p_bind (at_field ''QueryStatus'' rd_u32) (\<lambda>query_status.
     p_bind (at_field ''QueryResults'' rd_wstr) (\<lambda>query_results.
     p_return \<lparr>dq_query_name = query_name, dq_query_type = query_type, dq_query_options = query_options,
       dq_query_status = query_status, dq_query_results = query_results\<rparr>)))))"

text \<open>A null SID is 4 zero bytes; otherwise a \<open>TOKEN_USER\<close>, two pointers long, then the SID.\<close>

definition wbem_sid :: "pointer_size \<Rightarrow> sid option parser" where
  "wbem_sid p = at_field ''UserSID'' (p_bind rd_rest (\<lambda>rest.
     if length rest < 4 then (\<lambda>r. (Inl (Truncated ''UserSID'' (rd_pos r)), r))
     else if take 4 rest = [0, 0, 0, 0] then p_bind (rd_skip 4) (\<lambda>_. p_return None)
     else p_bind (rd_skip (case p of P32 \<Rightarrow> 8 | P64 \<Rightarrow> 16)) (\<lambda>_. p_map Some rd_sid)))"

definition classic_kind_of :: "nat \<Rightarrow> classic_kind" where
  "classic_kind_of opcode =
     (if opcode = 1 then ClassicStart else if opcode = 2 then ClassicEnd
      else if opcode = 3 then ClassicDcStart else ClassicDcEnd)"

definition classic_process :: "pointer_size \<Rightarrow> nat \<Rightarrow> classic_process_ev parser" where
  "classic_process p opcode =
     p_bind (at_field ''UniqueProcessKey'' (rd_ptr p)) (\<lambda>unique_process_key.
     p_bind (at_field ''ProcessId'' rd_u32) (\<lambda>pid.
     p_bind (at_field ''ParentId'' rd_u32) (\<lambda>parent_pid.
     p_bind (at_field ''SessionId'' rd_u32) (\<lambda>session_id.
     p_bind (at_field ''ExitStatus'' rd_u32) (\<lambda>exit_status.
     p_bind (at_field ''DirectoryTableBase'' (rd_ptr p)) (\<lambda>directory_table_base.
     p_bind (at_field ''Flags'' rd_u32) (\<lambda>flags'.
     p_bind (wbem_sid p) (\<lambda>user_sid.
     p_bind (at_field ''ImageFileName'' rd_astr) (\<lambda>image_file_name.
     p_bind (at_field ''CommandLine'' rd_wstr) (\<lambda>command_line.
     p_bind (at_field ''PackageFullName'' rd_wstr) (\<lambda>package_full_name.
     p_bind (at_field ''ApplicationId'' rd_wstr) (\<lambda>application_id.
     p_return \<lparr>cp_kind = classic_kind_of opcode, cp_unique_process_key = unique_process_key, cp_pid = pid,
       cp_parent_pid = parent_pid, cp_session_id = session_id, cp_exit_status = sint exit_status,
       cp_directory_table_base = directory_table_base, cp_flags = flags', cp_user_sid = user_sid,
       cp_image_file_name = image_file_name, cp_command_line = command_line, cp_package_full_name = package_full_name,
       cp_application_id = application_id\<rparr>))))))))))))"

section \<open>Picking the parser\<close>

definition event_parser :: "raw_meta \<Rightarrow> bool \<Rightarrow> raw_event parser" where
  "event_parser m exact =
     (let p = em_pointer_size m; i = em_id m in
      case em_provider m of
        KernelProcess \<Rightarrow>
          if i = 1 then p_map ProcessStart (process_start (em_version m))
          else if i = 2 then p_map ProcessStop process_stop
          else if i = 5 then p_map ImageLoad (image_load p)
          else p_fail UnknownEvent
      | KernelFile \<Rightarrow>
          if i = 12 then p_map FileCreate (file_create p)
          else if i = 30 then p_map FileCreateNew (file_create p)
          else if i = 13 then p_map FileCleanup (file_handle p)
          else if i = 14 then p_map FileClose (file_handle p)
          else if i = 16 then p_map FileWrite (file_write p)
          else if i = 17 then p_map FileSetInfo (file_set_info p)
          else if i = 18 then p_map FileSetDelete (file_set_info p)
          else if i = 24 then p_map FileOpEnd (file_op_end p)
          else if i = 26 then p_map FileDeletePath (file_path p)
          else if i = 27 then p_map FileRenamePath (file_path p)
          else p_fail UnknownEvent
      | KernelRegistry \<Rightarrow>
          if i = 1 then p_map RegCreateKey (reg_open p exact)
          else if i = 2 then p_map RegOpenKey (reg_open p exact)
          else if i = 3 then p_map RegDeleteKey (reg_key p)
          else if i = 5 then p_map RegSetValue (reg_set_value p exact)
          else if i = 6 then p_map RegDeleteValue (reg_delete_value p exact)
          else if i = 13 then p_map RegCloseKey (reg_key p)
          else p_fail UnknownEvent
      | KernelNetwork \<Rightarrow>
          if i = 12 then p_map TcpConnect (rd_net False True)
          else if i = 28 then p_map TcpConnect (rd_net True True)
          else if i = 15 then p_map TcpAccept (rd_net False True)
          else if i = 31 then p_map TcpAccept (rd_net True True)
          else if i = 13 then p_map TcpDisconnect (rd_net False False)
          else if i = 29 then p_map TcpDisconnect (rd_net True False)
          else if i = 42 then p_map UdpSend (rd_net False False)
          else if i = 58 then p_map UdpSend (rd_net True False)
          else if i = 43 then p_map UdpRecv (rd_net False False)
          else if i = 59 then p_map UdpRecv (rd_net True False)
          else p_fail UnknownEvent
      | DnsClient \<Rightarrow>
          if i = 3008 then p_map DnsQuery dns_query
          else p_fail UnknownEvent
      | ClassicProcess \<Rightarrow>
          if 1 \<le> i \<and> i \<le> 4 then p_map EvClassicProcess (classic_process p i)
          else p_fail UnknownEvent)"

definition parse_known :: "raw_meta \<Rightarrow> bytes \<Rightarrow> bool \<Rightarrow> parse_error + raw_event" where
  "parse_known m payload exact = fst (event_parser m exact (rd_new payload))"

definition parse_event :: "raw_meta \<Rightarrow> bytes \<Rightarrow> parse_error + raw_event" where
  "parse_event m payload =
     (if layout_find (em_provider m) (em_id m) (em_version m) \<noteq> None then parse_known m payload True
      else case layout_newest (em_provider m) (em_id m) of
        None \<Rightarrow> Inl UnknownEvent
      | Some n \<Rightarrow>
          if em_version m > lay_version n then Inl (NewerVersion (em_version m) (lay_version n))
          else Inl (UnsupportedVersion (em_version m)))"

definition parse_as :: "raw_meta \<Rightarrow> nat \<Rightarrow> bytes \<Rightarrow> bool \<Rightarrow> parse_error + raw_event" where
  "parse_as m as_version payload exact =
     (if layout_find (em_provider m) (em_id m) as_version = None then Inl (UnsupportedVersion as_version)
      else parse_known (m\<lparr>em_version := as_version\<rparr>) payload exact)"

end
