(* ===== verification/Ag_Cleanups.thy ===== *)
theory Ag_Cleanups
  imports Ag_Time Ag_Recent Ag_Ordering Ew_Parse
begin

text \<open>
  What the callback keeps to pass on the outcomes of Cleanups (\<open>Cleanups\<close> in
  \<open>crates/atlas-agent/src/intake.rs\<close> and \<open>cleanup.rs\<close>), and the counters it shares with the intake
  (\<open>IntakeCounters\<close> in \<open>counters.rs\<close>; each counter is a \<open>nat\<close>). Hash maps are association lists
  with distinct keys. \<open>cl_event\<close> is the part of \<open>Intake::on_event\<close> that deals with Cleanups. Facts,
  over every history of events: a Cleanup kept, a request kept and an outcome kept are the last
  events of the history on their Irps, so an outcome is only ever paired with its own Cleanup; and
  everything kept stays within its cap.
\<close>

section \<open>The counters\<close>

record intake_counters =
  kernel_queue_drops :: nat
  user_queue_drops :: nat
  dns_rate_limit_drops :: nat
  parse_errors :: nat
  unknown_version :: nat
  early_key_map_evictions :: nat
  op_end_discarded :: nat
  fast_reads :: nat
  cleanup_unpaired :: nat
  cleanup_outcome_late :: nat
  early_keys_gauge :: nat
  early_keys_capacity :: nat

definition intake_counters_zero :: intake_counters where
  "intake_counters_zero = \<lparr>kernel_queue_drops = 0, user_queue_drops = 0, dns_rate_limit_drops = 0,
     parse_errors = 0, unknown_version = 0, early_key_map_evictions = 0, op_end_discarded = 0, fast_reads = 0,
     cleanup_unpaired = 0, cleanup_outcome_late = 0, early_keys_gauge = 0, early_keys_capacity = 0\<rparr>"

definition set_early_keys :: "nat \<times> nat \<Rightarrow> intake_counters \<Rightarrow> intake_counters" where
  "set_early_keys s n = (case s of (len, cap) \<Rightarrow> n\<lparr>early_keys_gauge := len, early_keys_capacity := cap\<rparr>)"

section \<open>Outcomes\<close>

definition OUTCOME_WINDOW :: nat where
  "OUTCOME_WINDOW = secs 1"

definition FILE_UNKNOWN :: u64 where "FILE_UNKNOWN = 0"
definition FILE_REMAINS :: u64 where "FILE_REMAINS = 0x2"
definition FILE_DELETED :: u64 where "FILE_DELETED = 0x4"
definition LINK_DELETED :: u64 where "LINK_DELETED = 0x8"
definition STREAM_DELETED :: u64 where "STREAM_DELETED = 0x10"
definition POSIX_STYLE_DELETE :: u64 where "POSIX_STYLE_DELETE = 0x20"

definition removed :: "u64 \<Rightarrow> bool" where
  "removed info \<longleftrightarrow> info AND NOT POSIX_STYLE_DELETE \<in> {FILE_DELETED, LINK_DELETED, STREAM_DELETED}"

definition op_irp :: "raw_event \<Rightarrow> u64 option" where
  "op_irp e = (case e of
     FileCreate c \<Rightarrow> Some (fc_irp c)
   | FileCreateNew c \<Rightarrow> Some (fc_irp c)
   | FileClose h \<Rightarrow> Some (fh_irp h)
   | FileWrite w \<Rightarrow> Some (fw_irp w)
   | FileSetInfo i \<Rightarrow> Some (fs_irp i)
   | FileSetDelete i \<Rightarrow> Some (fs_irp i)
   | FileDeletePath p \<Rightarrow> Some (fp_irp p)
   | FileRenamePath p \<Rightarrow> Some (fp_irp p)
   | _ \<Rightarrow> None)"

text \<open>An \<open>i64\<close> difference: a release build wraps.\<close>

definition wrap_i64 :: "int \<Rightarrow> int" where
  "wrap_i64 x = (x + 2 ^ 63) mod 2 ^ 64 - 2 ^ 63"

section \<open>The state\<close>

record cleanups =
  cl_irps :: "(u64 \<times> u64 \<times> u64 \<times> int) list"
  cl_early :: "(u64 \<times> header \<times> u64) list"
  cl_requested :: "u64 recent"
  cl_request_irps :: "(u64 \<times> u64) list"
  cl_on_close :: "u64 recent"
  cl_window :: int

datatype end_verdict = Pass | Discard

definition CLEANUP_IRPS_CAP :: nat where "CLEANUP_IRPS_CAP = 4096"
definition DELETE_REQUESTS_CAP :: nat where "DELETE_REQUESTS_CAP = 4096"

definition cl_new :: "ticks \<Rightarrow> cleanups" where
  "cl_new t = \<lparr>cl_irps = [], cl_early = [], cl_requested = recent_new DELETE_REQUESTS_CAP,
     cl_request_irps = [], cl_on_close = recent_new DELETE_REQUESTS_CAP,
     cl_window = max (ticks_of t OUTCOME_WINDOW) 1\<rparr>"

text \<open>A map clears at its cap before it takes another entry.\<close>

definition capped_insert :: "'k \<Rightarrow> 'v \<Rightarrow> ('k \<times> 'v) list \<Rightarrow> ('k \<times> 'v) list" where
  "capped_insert k v xs = AList.update k v (if length xs \<ge> CLEANUP_IRPS_CAP then [] else xs)"

section \<open>The operations\<close>

definition cl_next_op :: "u64 \<Rightarrow> cleanups \<Rightarrow> intake_counters \<Rightarrow> cleanups \<times> intake_counters" where
  "cl_next_op irp c n =
     (let c = c\<lparr>cl_early := AList.delete irp (cl_early c)\<rparr>;
          c = c\<lparr>cl_request_irps := AList.delete irp (cl_request_irps c)\<rparr>
      in (c\<lparr>cl_irps := AList.delete irp (cl_irps c)\<rparr>,
          if map_of (cl_irps c) irp \<noteq> None then n\<lparr>cleanup_unpaired := cleanup_unpaired n + 1\<rparr> else n))"

definition cl_decide :: "u64 \<Rightarrow> u64 \<Rightarrow> u64 \<Rightarrow> cleanups \<Rightarrow> bool \<times> cleanups" where
  "cl_decide fo key info c =
     (let requested = recent_get key (cl_requested c) \<noteq> None \<or> recent_get fo (cl_on_close c) \<noteq> None;
          pass = removed info \<or> (info = FILE_UNKNOWN \<and> requested)
      in (pass, if pass then c\<lparr>cl_requested := snd (recent_remove key (cl_requested c))\<rparr> else c))"

text \<open>The outcome \<open>h\<close> comes within the window of a Cleanup at \<open>ts\<close>.\<close>

definition cl_within :: "header \<Rightarrow> int \<Rightarrow> cleanups \<Rightarrow> bool" where
  "cl_within h ts c \<longleftrightarrow> hts h \<ge> ts \<and> wrap_i64 (hts h - ts) \<le> cl_window c"

definition cl_cleanup :: "u64 \<Rightarrow> u64 \<Rightarrow> u64 \<Rightarrow> int \<Rightarrow> cleanups \<Rightarrow> intake_counters
    \<Rightarrow> (header \<times> u64) option \<times> cleanups \<times> intake_counters" where
  "cl_cleanup irp fo key ts c n =
     (let early = map_of (cl_early c) irp;
          c = c\<lparr>cl_early := AList.delete irp (cl_early c)\<rparr>;
          (c, n) = cl_next_op irp c n;
          c = (if recent_get fo (cl_on_close c) \<noteq> None
               then c\<lparr>cl_requested := recent_insert key ts (cl_requested c)\<rparr> else c)
      in if is_some_and early (\<lambda>(h, _). cl_within h ts c) then
           (let (h, info) = the early; (pass, c) = cl_decide fo key info c
            in (if pass then Some (h, info) else None, c, n))
         else (None, c\<lparr>cl_irps := capped_insert irp (fo, key, ts) (cl_irps c)\<rparr>, n))"

definition cl_end :: "header \<Rightarrow> u64 \<Rightarrow> u64 \<Rightarrow> cleanups \<Rightarrow> intake_counters
    \<Rightarrow> end_verdict \<times> cleanups \<times> intake_counters" where
  "cl_end h irp info c n =
     (let request = map_of (cl_request_irps c) irp \<noteq> None;
          c = c\<lparr>cl_request_irps := AList.delete irp (cl_request_irps c)\<rparr>;
          found = map_of (cl_irps c) irp;
          c = c\<lparr>cl_irps := AList.delete irp (cl_irps c)\<rparr>;
          (pass, c, n) = (case found of
             Some (fo, key, ts) \<Rightarrow>
               if cl_within h ts c then (let (pass, c) = cl_decide fo key info c in (pass, c, n))
               else (False, c, n\<lparr>cleanup_outcome_late := cleanup_outcome_late n + 1\<rparr>)
           | None \<Rightarrow>
               (False, if removed info then c\<lparr>cl_early := capped_insert irp (h, info) (cl_early c)\<rparr> else c, n))
      in (if pass \<or> request then Pass else Discard, c, n))"

definition cl_failed :: "u64 \<Rightarrow> cleanups \<Rightarrow> cleanups" where
  "cl_failed irp c =
     (let c = c\<lparr>cl_irps := AList.delete irp (cl_irps c)\<rparr>;
          c = c\<lparr>cl_early := AList.delete irp (cl_early c)\<rparr>;
          request = map_of (cl_request_irps c) irp;
          c = c\<lparr>cl_request_irps := AList.delete irp (cl_request_irps c)\<rparr>
      in case request of
           Some key \<Rightarrow> c\<lparr>cl_requested := snd (recent_remove key (cl_requested c))\<rparr>
         | None \<Rightarrow> c)"

definition cl_close :: "u64 \<Rightarrow> cleanups \<Rightarrow> cleanups" where
  "cl_close fo c =
     (if \<not> recent_is_empty (cl_on_close c)
      then c\<lparr>cl_on_close := snd (recent_remove fo (cl_on_close c))\<rparr> else c)"

definition cl_delete_on_close :: "u64 \<Rightarrow> int \<Rightarrow> cleanups \<Rightarrow> cleanups" where
  "cl_delete_on_close fo ts c = c\<lparr>cl_on_close := recent_insert fo ts (cl_on_close c)\<rparr>"

definition cl_request :: "u64 \<Rightarrow> u64 \<Rightarrow> int \<Rightarrow> cleanups \<Rightarrow> cleanups" where
  "cl_request key irp ts c =
     (let c = c\<lparr>cl_request_irps := capped_insert irp key (cl_request_irps c)\<rparr>
      in c\<lparr>cl_requested := recent_insert key ts (cl_requested c)\<rparr>)"

definition cl_clear :: "u64 \<Rightarrow> u64 \<Rightarrow> cleanups \<Rightarrow> cleanups" where
  "cl_clear key fo c =
     (let (was, oc) = recent_remove fo (cl_on_close c); c = c\<lparr>cl_on_close := oc\<rparr>
      in if was = None then c\<lparr>cl_requested := snd (recent_remove key (cl_requested c))\<rparr> else c)"

text \<open>What an event does: whether it is discarded, and an outcome to send after it.\<close>

definition cl_event :: "header \<Rightarrow> raw_event \<Rightarrow> cleanups \<Rightarrow> intake_counters
    \<Rightarrow> end_verdict \<times> (header \<times> file_op_end_ev) option \<times> cleanups \<times> intake_counters" where
  "cl_event h e c n =
     (let (c, n) = (case op_irp e of Some irp \<Rightarrow> cl_next_op irp c n | None \<Rightarrow> (c, n))
      in case e of
           FileOpEnd op \<Rightarrow>
             if \<not> fo_failed op
             then (let (v, c, n) = cl_end h (fo_irp op) (fo_extra_information op) c n in (v, None, c, n))
             else (Pass, None, cl_failed (fo_irp op) c, n)
         | FileCleanup x \<Rightarrow>
             (let (early, c, n) = cl_cleanup (fh_irp x) (fh_file_object x) (fh_file_key x) (hts h) c n
              in (Pass, map_option (\<lambda>(h', info).
                    (h', \<lparr>fo_irp = fh_irp x, fo_extra_information = info, fo_status = 0\<rparr>)) early, c, n))
         | FileClose x \<Rightarrow> (Pass, None, cl_close (fh_file_object x) c, n)
         | FileCreate cr \<Rightarrow>
             (Pass, None, if fc_delete_on_close cr then cl_delete_on_close (fc_file_object cr) (hts h) c else c, n)
         | FileDeletePath p \<Rightarrow> (Pass, None, cl_request (fp_file_key p) (fp_irp p) (hts h) c, n)
         | FileSetDelete i \<Rightarrow>
             (Pass, None,
              if fs_extra_information i \<noteq> 0 then cl_request (fs_file_key i) (fs_irp i) (hts h) c
              else cl_clear (fs_file_key i) (fs_file_object i) c, n)
         | _ \<Rightarrow> (Pass, None, c, n))"

section \<open>What each operation leaves of the Irp maps\<close>

lemma lookup_capped [simp]:
  "map_of (capped_insert k v xs) k' = (if k' = k then Some v
     else if length xs \<ge> CLEANUP_IRPS_CAP then None else map_of xs k')"
  by (simp add: capped_insert_def update_conv')

lemma lookup_delete [simp]: "map_of (AList.delete k xs) k' = (if k' = k then None else map_of xs k')"
  by (simp add: delete_conv')

lemma cl_next_op_sel [simp]:
  "cl_irps (fst (cl_next_op irp c n)) = AList.delete irp (cl_irps c)"
  "cl_early (fst (cl_next_op irp c n)) = AList.delete irp (cl_early c)"
  "cl_request_irps (fst (cl_next_op irp c n)) = AList.delete irp (cl_request_irps c)"
  "cl_requested (fst (cl_next_op irp c n)) = cl_requested c"
  "cl_on_close (fst (cl_next_op irp c n)) = cl_on_close c"
  "cl_window (fst (cl_next_op irp c n)) = cl_window c"
  by (simp_all add: cl_next_op_def Let_def)

lemma cl_next_op_maps:
  assumes "cl_next_op irp c n = (c', n')"
  shows "cl_irps c' = AList.delete irp (cl_irps c)" "cl_early c' = AList.delete irp (cl_early c)"
    "cl_request_irps c' = AList.delete irp (cl_request_irps c)" "cl_requested c' = cl_requested c"
    "cl_on_close c' = cl_on_close c" "cl_window c' = cl_window c"
  using cl_next_op_sel [of irp c n] assms by simp_all

lemma cl_decide_sel [simp]:
  "cl_irps (snd (cl_decide fo key info c)) = cl_irps c"
  "cl_early (snd (cl_decide fo key info c)) = cl_early c"
  "cl_request_irps (snd (cl_decide fo key info c)) = cl_request_irps c"
  "cl_on_close (snd (cl_decide fo key info c)) = cl_on_close c"
  "cl_window (snd (cl_decide fo key info c)) = cl_window c"
  by (simp_all add: cl_decide_def Let_def)

lemma cl_failed_sel [simp]:
  "cl_irps (cl_failed irp c) = AList.delete irp (cl_irps c)"
  "cl_early (cl_failed irp c) = AList.delete irp (cl_early c)"
  "cl_request_irps (cl_failed irp c) = AList.delete irp (cl_request_irps c)"
  "cl_on_close (cl_failed irp c) = cl_on_close c"
  "cl_window (cl_failed irp c) = cl_window c"
  by (simp_all add: cl_failed_def Let_def split: option.splits)

lemma cl_close_sel [simp]:
  "cl_irps (cl_close fo c) = cl_irps c" "cl_early (cl_close fo c) = cl_early c"
  "cl_request_irps (cl_close fo c) = cl_request_irps c" "cl_requested (cl_close fo c) = cl_requested c"
  "cl_window (cl_close fo c) = cl_window c"
  by (simp_all add: cl_close_def)

lemma cl_delete_on_close_sel [simp]:
  "cl_irps (cl_delete_on_close fo ts c) = cl_irps c" "cl_early (cl_delete_on_close fo ts c) = cl_early c"
  "cl_request_irps (cl_delete_on_close fo ts c) = cl_request_irps c"
  "cl_requested (cl_delete_on_close fo ts c) = cl_requested c"
  "cl_window (cl_delete_on_close fo ts c) = cl_window c"
  by (simp_all add: cl_delete_on_close_def)

lemma cl_request_sel [simp]:
  "cl_irps (cl_request key irp ts c) = cl_irps c" "cl_early (cl_request key irp ts c) = cl_early c"
  "cl_request_irps (cl_request key irp ts c) = capped_insert irp key (cl_request_irps c)"
  "cl_requested (cl_request key irp ts c) = recent_insert key ts (cl_requested c)"
  "cl_on_close (cl_request key irp ts c) = cl_on_close c" "cl_window (cl_request key irp ts c) = cl_window c"
  by (simp_all add: cl_request_def Let_def)

lemma cl_clear_sel [simp]:
  "cl_irps (cl_clear key fo c) = cl_irps c" "cl_early (cl_clear key fo c) = cl_early c"
  "cl_request_irps (cl_clear key fo c) = cl_request_irps c" "cl_window (cl_clear key fo c) = cl_window c"
  by (simp_all add: cl_clear_def recent_remove_def Let_def)

text \<open>The two that branch, in closed form. \<open>cl_noted\<close> is the Cleanup's handle seen to.\<close>

definition cl_noted :: "u64 \<Rightarrow> u64 \<Rightarrow> u64 \<Rightarrow> int \<Rightarrow> cleanups \<Rightarrow> intake_counters \<Rightarrow> cleanups" where
  "cl_noted irp fo key ts c n =
     (let c = fst (cl_next_op irp c n)
      in if recent_get fo (cl_on_close c) \<noteq> None
         then c\<lparr>cl_requested := recent_insert key ts (cl_requested c)\<rparr> else c)"

lemma cl_noted_sel [simp]:
  "cl_irps (cl_noted irp fo key ts c n) = AList.delete irp (cl_irps c)"
  "cl_early (cl_noted irp fo key ts c n) = AList.delete irp (cl_early c)"
  "cl_request_irps (cl_noted irp fo key ts c n) = AList.delete irp (cl_request_irps c)"
  "cl_on_close (cl_noted irp fo key ts c n) = cl_on_close c"
  "cl_window (cl_noted irp fo key ts c n) = cl_window c"
  by (simp_all add: cl_noted_def Let_def)

lemma cl_next_op_early: "cl_next_op irp (c\<lparr>cl_early := AList.delete irp (cl_early c)\<rparr>) n = cl_next_op irp c n"
  by (simp add: cl_next_op_def Let_def delete_idem)

lemma cl_cleanup_eq:
  "cl_cleanup irp fo key ts c n =
     (let c1 = cl_noted irp fo key ts c n; n1 = snd (cl_next_op irp c n) in
      case map_of (cl_early c) irp of
        Some (h, info) \<Rightarrow>
          if cl_within h ts c
          then (if fst (cl_decide fo key info c1) then Some (h, info) else None, snd (cl_decide fo key info c1), n1)
          else (None, c1\<lparr>cl_irps := capped_insert irp (fo, key, ts) (cl_irps c1)\<rparr>, n1)
      | None \<Rightarrow> (None, c1\<lparr>cl_irps := capped_insert irp (fo, key, ts) (cl_irps c1)\<rparr>, n1))"
proof -
  define c1 where "c1 = cl_noted irp fo key ts c n"
  define n1 where "n1 = snd (cl_next_op irp c n)"
  have w: "cl_within h ts c1 = cl_within h ts c" for h by (simp add: cl_within_def c1_def)
  have "cl_cleanup irp fo key ts c n =
     (if is_some_and (map_of (cl_early c) irp) (\<lambda>(h, _). cl_within h ts c1) then
        (let (h, info) = the (map_of (cl_early c) irp); (pass, c) = cl_decide fo key info c1
         in (if pass then Some (h, info) else None, c, n1))
      else (None, c1\<lparr>cl_irps := capped_insert irp (fo, key, ts) (cl_irps c1)\<rparr>, n1))"
    unfolding cl_cleanup_def Let_def cl_next_op_early
    by (simp add: c1_def n1_def cl_noted_def Let_def split_beta)
  then show ?thesis
    unfolding Let_def w c1_def [symmetric] n1_def [symmetric]
    by (cases "map_of (cl_early c) irp") (simp_all add: is_some_and_def split_beta)
qed

lemma cl_end_eq:
  "cl_end h irp info c n =
     (let request = map_of (cl_request_irps c) irp \<noteq> None;
          c1 = c\<lparr>cl_request_irps := AList.delete irp (cl_request_irps c), cl_irps := AList.delete irp (cl_irps c)\<rparr> in
      case map_of (cl_irps c) irp of
        Some (fo, key, ts) \<Rightarrow>
          if cl_within h ts c
          then (if fst (cl_decide fo key info c1) \<or> request then Pass else Discard, snd (cl_decide fo key info c1), n)
          else (if request then Pass else Discard, c1, n\<lparr>cleanup_outcome_late := cleanup_outcome_late n + 1\<rparr>)
      | None \<Rightarrow> (if request then Pass else Discard,
          if removed info then c1\<lparr>cl_early := capped_insert irp (h, info) (cl_early c1)\<rparr> else c1, n))"
  by (simp add: cl_end_def cl_within_def Let_def split: option.splits prod.splits)

lemma cl_cleanup_maps:
  assumes "cl_cleanup irp fo key ts c n = (early, c', n')"
  shows "map_of (cl_irps c') i = Some v \<Longrightarrow> (i \<noteq> irp \<and> map_of (cl_irps c) i = Some v) \<or> (i = irp \<and> v = (fo, key, ts))"
    and "cl_early c' = AList.delete irp (cl_early c)"
    and "cl_request_irps c' = AList.delete irp (cl_request_irps c)"
    and "cl_on_close c' = cl_on_close c" and "cl_window c' = cl_window c"
  using assms by (auto simp: cl_cleanup_eq Let_def split: option.splits if_splits prod.splits)

lemma cl_end_maps:
  assumes "cl_end h irp info c n = (v, c', n')"
  shows "cl_irps c' = AList.delete irp (cl_irps c)"
    and "cl_early c' = (if map_of (cl_irps c) irp = None \<and> removed info
      then capped_insert irp (h, info) (cl_early c) else cl_early c)"
    and "cl_request_irps c' = AList.delete irp (cl_request_irps c)"
    and "cl_on_close c' = cl_on_close c" and "cl_window c' = cl_window c"
  using assms by (auto simp: cl_end_eq Let_def split: option.splits if_splits prod.splits)

section \<open>Histories\<close>

type_synonym history = "(header \<times> raw_event) list"

definition irp_of :: "raw_event \<Rightarrow> u64 option" where
  "irp_of e = (case e of FileCleanup x \<Rightarrow> Some (fh_irp x) | FileOpEnd op \<Rightarrow> Some (fo_irp op) | _ \<Rightarrow> op_irp e)"

text \<open>The last event of a history on an Irp, among those that matter.\<close>

definition last_on :: "(raw_event \<Rightarrow> bool) \<Rightarrow> u64 \<Rightarrow> history \<Rightarrow> (header \<times> raw_event) option" where
  "last_on P irp evs = List.find (\<lambda>(h, e). irp_of e = Some irp \<and> P e) (rev evs)"

lemma last_on_Nil [simp]: "last_on P irp [] = None"
  by (simp add: last_on_def)

lemma last_on_snoc [simp]:
  "last_on P irp (evs @ [(h, e)]) = (if irp_of e = Some irp \<and> P e then Some (h, e) else last_on P irp evs)"
  by (simp add: last_on_def)

definition asks_delete :: "u64 \<Rightarrow> raw_event \<Rightarrow> bool" where
  "asks_delete key e = (case e of
     FileDeletePath p \<Rightarrow> fp_file_key p = key
   | FileSetDelete i \<Rightarrow> fs_file_key i = key \<and> fs_extra_information i \<noteq> 0
   | _ \<Rightarrow> False)"

text \<open>A successful OperationEnd that removed nothing.\<close>

definition says_nothing :: "raw_event \<Rightarrow> bool" where
  "says_nothing e = (case e of
     FileOpEnd op \<Rightarrow> \<not> fo_failed op \<and> \<not> removed (fo_extra_information op) | _ \<Rightarrow> False)"

definition cl_after :: "header \<Rightarrow> raw_event \<Rightarrow> cleanups \<Rightarrow> intake_counters \<Rightarrow> cleanups \<times> intake_counters" where
  "cl_after h e c n = snd (snd (cl_event h e c n))"

primrec cl_run :: "history \<Rightarrow> cleanups \<times> intake_counters \<Rightarrow> cleanups \<times> intake_counters" where
  "cl_run [] s = s"
| "cl_run (x # evs) s = cl_run evs (cl_after (fst x) (snd x) (fst s) (snd s))"

lemma cl_run_snoc: "cl_run (evs @ [(h, e)]) s = (case cl_run evs s of (c, n) \<Rightarrow> cl_after h e c n)"
  by (induction evs arbitrary: s) (simp_all add: split_beta)

text \<open>What an event leaves in the Irp maps comes from itself or was there, on an Irp it does not touch.\<close>

lemma cl_event_irps:
  assumes "cl_after h e c n = (c', n')" "map_of (cl_irps c') irp = Some (fo, key, ts)"
  shows "(irp_of e \<noteq> Some irp \<and> map_of (cl_irps c) irp = Some (fo, key, ts)) \<or>
    (\<exists>x. e = FileCleanup x \<and> fh_irp x = irp \<and> fo = fh_file_object x \<and> key = fh_file_key x \<and> ts = hts h)"
proof (cases e)
  case (FileCleanup x)
  then show ?thesis using assms
    by (auto simp: cl_after_def cl_event_def op_irp_def irp_of_def split: prod.splits dest!: cl_cleanup_maps(1))
next
  case (FileOpEnd op)
  then show ?thesis using assms
    by (auto simp: cl_after_def cl_event_def op_irp_def irp_of_def cl_end_maps(1) split: prod.splits if_splits)
qed (use assms in \<open>auto simp: cl_after_def cl_event_def op_irp_def irp_of_def split_beta cl_next_op_maps split: if_splits\<close>)

lemma cl_event_requests:
  assumes "cl_after h e c n = (c', n')" "map_of (cl_request_irps c') irp = Some key"
  shows "(irp_of e \<noteq> Some irp \<and> map_of (cl_request_irps c) irp = Some key) \<or>
    (irp_of e = Some irp \<and> asks_delete key e)"
proof (cases e)
  case (FileCleanup x)
  then show ?thesis using assms
    by (auto simp: cl_after_def cl_event_def op_irp_def irp_of_def cl_cleanup_maps(3) split: prod.splits if_splits)
next
  case (FileOpEnd op)
  then show ?thesis using assms
    by (auto simp: cl_after_def cl_event_def op_irp_def irp_of_def cl_end_maps(3) split: prod.splits if_splits)
qed (use assms in \<open>auto simp: cl_after_def cl_event_def op_irp_def irp_of_def asks_delete_def split_beta cl_next_op_maps split: if_splits\<close>)

lemma cl_event_early:
  assumes "cl_after h e c n = (c', n')" "map_of (cl_early c') irp = Some (h', info)"
  shows "((irp_of e \<noteq> Some irp \<or> says_nothing e) \<and> map_of (cl_early c) irp = Some (h', info)) \<or>
    (\<exists>op. e = FileOpEnd op \<and> fo_irp op = irp \<and> \<not> fo_failed op \<and> removed info \<and> info = fo_extra_information op \<and> h' = h) \<or>
    (\<exists>op fo key ts. e = FileOpEnd op \<and> fo_irp op = irp \<and> map_of (cl_irps c) irp = Some (fo, key, ts) \<and>
       map_of (cl_early c) irp = Some (h', info))"
proof (cases e)
  case (FileCleanup x)
  then show ?thesis using assms
    by (auto simp: cl_after_def cl_event_def op_irp_def irp_of_def cl_cleanup_maps(2) split: prod.splits if_splits)
next
  case (FileOpEnd op)
  then show ?thesis using assms
    by (auto simp: cl_after_def cl_event_def op_irp_def irp_of_def says_nothing_def cl_end_maps(2)
        split: prod.splits if_splits)
qed (use assms in \<open>auto simp: cl_after_def cl_event_def op_irp_def irp_of_def says_nothing_def split_beta cl_next_op_maps split: if_splits\<close>)

section \<open>Where the delete requests come from\<close>

lemma recent_get_pops: "recent_get k (recent_pops.pops e n r) = Some t \<Longrightarrow> recent_get k r = Some t"
  using recent_pops.tm_pops [where e = e and n = n and s = r and k = k] by (simp split: option.splits if_splits)

lemma recent_get_insertD:
  assumes "recent_get k' (recent_insert k ts r) = Some y"
  shows "k' = k \<or> (\<exists>y. recent_get k' r = Some y)"
proof (cases "is_some_and (map_of (rmap r) k) (\<lambda>t. t \<ge> ts)")
  case True
  then show ?thesis using assms by (simp add: recent_insert_def)
next
  case False
  then obtain t where "recent_get k' (r\<lparr>rmap := AList.update k ts (rmap r), rorder := rorder r @ [(ts, k)]\<rparr>) = Some t"
    using assms by (auto simp: recent_insert_def recent_trim_pops dest!: recent_get_pops)
  then show ?thesis by (auto simp: recent_get_def update_conv' split: if_splits)
qed

lemma recent_get_remove: "recent_get k' (snd (recent_remove k r)) = (if k' = k then None else recent_get k' r)"
  by (simp add: recent_get_def recent_remove_def)

lemma cl_requested_shrinks:
  "recent_get k (cl_requested (snd (cl_decide fo key info c))) \<noteq> None \<Longrightarrow> recent_get k (cl_requested c) \<noteq> None"
  "recent_get k (cl_requested (cl_failed irp c)) \<noteq> None \<Longrightarrow> recent_get k (cl_requested c) \<noteq> None"
  "recent_get k (cl_requested (cl_clear key fo c)) \<noteq> None \<Longrightarrow> recent_get k (cl_requested c) \<noteq> None"
  "recent_get k (cl_on_close (cl_clear key fo c)) \<noteq> None \<Longrightarrow> recent_get k (cl_on_close c) \<noteq> None"
  "recent_get k (cl_on_close (cl_close fo c)) \<noteq> None \<Longrightarrow> recent_get k (cl_on_close c) \<noteq> None"
  by (auto simp: cl_decide_def cl_failed_def cl_clear_def cl_close_def Let_def split_beta recent_get_remove
      split: if_splits option.splits)

lemma cl_noted_requested:
  "recent_get k (cl_requested (cl_noted irp fo key ts c n)) \<noteq> None \<Longrightarrow>
    recent_get k (cl_requested c) \<noteq> None \<or> (k = key \<and> recent_get fo (cl_on_close c) \<noteq> None)"
  by (auto simp: cl_noted_def Let_def split: if_splits dest!: recent_get_insertD)

lemma cl_cleanup_requested:
  assumes "cl_cleanup irp fo key ts c n = (early, c', n')" "recent_get k (cl_requested c') \<noteq> None"
  shows "recent_get k (cl_requested c) \<noteq> None \<or> (k = key \<and> recent_get fo (cl_on_close c) \<noteq> None)"
proof -
  have "recent_get k (cl_requested (cl_noted irp fo key ts c n)) \<noteq> None"
    using assms cl_requested_shrinks(1) [of k fo key _ "cl_noted irp fo key ts c n"]
    by (auto simp: cl_cleanup_eq Let_def split: option.splits if_splits prod.splits)
  then show ?thesis by (rule cl_noted_requested)
qed

lemma cl_end_requested:
  assumes "cl_end h irp info c n = (v, c', n')" "recent_get k (cl_requested c') \<noteq> None"
  shows "recent_get k (cl_requested c) \<noteq> None"
  using assms cl_requested_shrinks(1) [of k _ _ info "c\<lparr>cl_request_irps := AList.delete irp (cl_request_irps c), cl_irps := AList.delete irp (cl_irps c)\<rparr>"]
  by (auto simp: cl_end_eq Let_def split: option.splits if_splits prod.splits)

lemma cl_event_requested:
  assumes "cl_after h e c n = (c', n')" "recent_get key (cl_requested c') \<noteq> None"
  shows "recent_get key (cl_requested c) \<noteq> None \<or> asks_delete key e \<or>
    (\<exists>x. e = FileCleanup x \<and> key = fh_file_key x \<and> recent_get (fh_file_object x) (cl_on_close c) \<noteq> None)"
proof (cases e)
  case (FileCleanup x)
  obtain early where "cl_cleanup (fh_irp x) (fh_file_object x) (fh_file_key x) (hts h) c n = (early, c', n')"
    using assms(1) FileCleanup by (auto simp: cl_after_def cl_event_def op_irp_def split: prod.splits)
  then show ?thesis using cl_cleanup_requested assms(2) FileCleanup by blast
next
  case (FileOpEnd op)
  show ?thesis
  proof (cases "fo_failed op")
    case True
    then show ?thesis using assms FileOpEnd cl_requested_shrinks(2) [of key "fo_irp op" c]
      by (auto simp: cl_after_def cl_event_def op_irp_def)
  next
    case False
    then obtain v where "cl_end h (fo_irp op) (fo_extra_information op) c n = (v, c', n')"
      using assms(1) FileOpEnd by (auto simp: cl_after_def cl_event_def op_irp_def split: prod.splits)
    then show ?thesis using cl_end_requested assms(2) by blast
  qed
next
  case (FileSetDelete i)
  obtain c1 n1 where n: "cl_next_op (fs_irp i) c n = (c1, n1)" by fastforce
  then show ?thesis using assms FileSetDelete cl_requested_shrinks(3) [of key "fs_file_key i" "fs_file_object i" c1]
    by (auto simp: cl_after_def cl_event_def op_irp_def asks_delete_def cl_next_op_maps dest!: recent_get_insertD
        split: if_splits)
qed (use assms in \<open>auto simp: cl_after_def cl_event_def op_irp_def asks_delete_def cl_next_op_maps split_beta
       dest!: recent_get_insertD split: if_splits\<close>)

lemma cl_event_on_close:
  assumes "cl_after h e c n = (c', n')" "recent_get fo (cl_on_close c') \<noteq> None"
  shows "recent_get fo (cl_on_close c) \<noteq> None \<or>
    (\<exists>cr. e = FileCreate cr \<and> fc_delete_on_close cr \<and> fc_file_object cr = fo)"
proof (cases e)
  case (FileClose x)
  obtain c1 n1 where n: "cl_next_op (fh_irp x) c n = (c1, n1)" by fastforce
  then show ?thesis using assms FileClose cl_requested_shrinks(5) [of fo "fh_file_object x" c1]
    by (auto simp: cl_after_def cl_event_def op_irp_def cl_next_op_maps)
next
  case (FileSetDelete i)
  obtain c1 n1 where n: "cl_next_op (fs_irp i) c n = (c1, n1)" by fastforce
  then show ?thesis using assms FileSetDelete cl_requested_shrinks(4) [of fo "fs_file_key i" "fs_file_object i" c1]
    by (auto simp: cl_after_def cl_event_def op_irp_def cl_next_op_maps split: if_splits)
next
  case (FileCleanup x)
  then show ?thesis using assms
    by (auto simp: cl_after_def cl_event_def op_irp_def cl_cleanup_maps(4) split: prod.splits)
next
  case (FileOpEnd op)
  then show ?thesis using assms
    by (auto simp: cl_after_def cl_event_def op_irp_def cl_end_maps(4) split: prod.splits if_splits)
qed (use assms in \<open>auto simp: cl_after_def cl_event_def op_irp_def cl_next_op_maps split_beta
       cl_delete_on_close_def dest!: recent_get_insertD split: if_splits\<close>)

section \<open>Bounds\<close>

definition bounded_map :: "('k \<times> 'v) list \<Rightarrow> bool" where
  "bounded_map xs \<longleftrightarrow> distinct (map fst xs) \<and> length xs \<le> CLEANUP_IRPS_CAP"

definition bounded_recent :: "u64 recent \<Rightarrow> bool" where
  "bounded_recent r \<longleftrightarrow> recent_inv r \<and> rcap r = DELETE_REQUESTS_CAP"

lemma bounded_maps [simp]:
  "bounded_map xs \<Longrightarrow> bounded_map (AList.delete k xs)"
  "bounded_map xs \<Longrightarrow> bounded_map (capped_insert k v xs)"
  "bounded_map []"
  using length_delete_le [of k xs]
  by (auto simp: bounded_map_def capped_insert_def distinct_delete distinct_update CLEANUP_IRPS_CAP_def length_update_key)

lemma rcap_pops [simp]: "rcap (recent_pops.pops e n r) = rcap r"
  by (induction n arbitrary: r) simp_all

lemma rcap_ops [simp]: "rcap (recent_insert k ts r) = rcap r" "rcap (snd (recent_remove k r)) = rcap r"
    "rcap (recent_new cap) = max cap 1"
  by (simp_all add: recent_insert_def recent_trim_pops recent_remove_def recent_new_def)

lemma bounded_recents [simp]:
  "bounded_recent r \<Longrightarrow> bounded_recent (recent_insert k ts r)"
  "bounded_recent r \<Longrightarrow> bounded_recent (snd (recent_remove k r))"
  "bounded_recent (recent_new DELETE_REQUESTS_CAP)"
  by (simp_all add: bounded_recent_def recent_inv_insert recent_inv_remove recent_inv_new DELETE_REQUESTS_CAP_def)

definition cl_bounded :: "int \<Rightarrow> cleanups \<Rightarrow> bool" where
  "cl_bounded w c \<longleftrightarrow> bounded_map (cl_irps c) \<and> bounded_map (cl_early c) \<and> bounded_map (cl_request_irps c) \<and>
     bounded_recent (cl_requested c) \<and> bounded_recent (cl_on_close c) \<and> cl_window c = w"

lemma cl_bounded_ops:
  assumes "cl_bounded w c"
  shows "cl_bounded w (fst (cl_next_op irp c n))" "cl_bounded w (snd (cl_decide fo key info c))"
    "cl_bounded w (cl_failed irp c)" "cl_bounded w (cl_close fo c)" "cl_bounded w (cl_delete_on_close fo ts c)"
    "cl_bounded w (cl_request key irp ts c)" "cl_bounded w (cl_clear key fo c)"
    "cl_bounded w (cl_noted irp fo key ts c n)"
    "cl_bounded w (c\<lparr>cl_irps := capped_insert irp v (cl_irps c)\<rparr>)"
    "cl_bounded w (c\<lparr>cl_early := capped_insert irp hv (cl_early c)\<rparr>)"
    "cl_bounded w (c\<lparr>cl_request_irps := AList.delete irp (cl_request_irps c), cl_irps := AList.delete irp (cl_irps c)\<rparr>)"
  using assms
  by (auto simp: cl_bounded_def cl_decide_def cl_failed_def cl_close_def cl_delete_on_close_def cl_clear_def
      cl_noted_def Let_def split_beta split: option.splits)

lemma cl_bounded_next: "cl_next_op irp c n = (c', n') \<Longrightarrow> cl_bounded w c \<Longrightarrow> cl_bounded w c'"
  using cl_bounded_ops(1) [of w c irp n] by simp

lemma cl_bounded_event:
  assumes "cl_after h e c n = (c', n')" "cl_bounded w c"
  shows "cl_bounded w c'"
proof (cases e)
  case (FileCleanup x)
  obtain early where "cl_cleanup (fh_irp x) (fh_file_object x) (fh_file_key x) (hts h) c n = (early, c', n')"
    using assms(1) FileCleanup by (auto simp: cl_after_def cl_event_def op_irp_def split: prod.splits)
  then show ?thesis using cl_bounded_ops [OF cl_bounded_ops(8) [OF assms(2)]]
    by (auto simp: cl_cleanup_eq Let_def split: option.splits if_splits prod.splits)
next
  case (FileOpEnd op)
  show ?thesis
  proof (cases "fo_failed op")
    case True
    then show ?thesis using assms FileOpEnd cl_bounded_ops(3) [OF assms(2)]
      by (auto simp: cl_after_def cl_event_def op_irp_def)
  next
    case False
    then obtain v where "cl_end h (fo_irp op) (fo_extra_information op) c n = (v, c', n')"
      using assms(1) FileOpEnd by (auto simp: cl_after_def cl_event_def op_irp_def split: prod.splits)
    then show ?thesis
      using cl_bounded_ops [OF cl_bounded_ops(11) [OF assms(2), of "fo_irp op"]] cl_bounded_ops(11) [OF assms(2), of "fo_irp op"]
      by (auto simp: cl_end_eq Let_def split: option.splits if_splits prod.splits)
  qed
qed (use assms in \<open>auto simp: cl_after_def cl_event_def op_irp_def cl_bounded_ops split_beta split: if_splits
       dest: cl_bounded_next\<close>)

lemma cl_bounded_new: "cl_bounded (cl_window (cl_new t)) (cl_new t)"
  by (simp add: cl_bounded_def cl_new_def)

section \<open>What the maps say of the history\<close>

definition opened_on_close :: "u64 \<Rightarrow> history \<Rightarrow> bool" where
  "opened_on_close fo evs \<longleftrightarrow>
     (\<exists>h cr. (h, FileCreate cr) \<in> set evs \<and> fc_delete_on_close cr \<and> fc_file_object cr = fo)"

definition delete_asked :: "u64 \<Rightarrow> history \<Rightarrow> bool" where
  "delete_asked key evs \<longleftrightarrow> (\<exists>(h, e) \<in> set evs. asks_delete key e) \<or>
     (\<exists>h x. (h, FileCleanup x) \<in> set evs \<and> fh_file_key x = key \<and> opened_on_close (fh_file_object x) evs)"

definition cl_history :: "history \<Rightarrow> cleanups \<Rightarrow> bool" where
  "cl_history evs c \<longleftrightarrow>
     (\<forall>irp fo key ts. map_of (cl_irps c) irp = Some (fo, key, ts) \<longrightarrow>
        (\<exists>h x. last_on (\<lambda>_. True) irp evs = Some (h, FileCleanup x) \<and>
           fo = fh_file_object x \<and> key = fh_file_key x \<and> ts = hts h)) \<and>
     (\<forall>irp key. map_of (cl_request_irps c) irp = Some key \<longrightarrow>
        (\<exists>h e. last_on (\<lambda>_. True) irp evs = Some (h, e) \<and> asks_delete key e)) \<and>
     (\<forall>irp h info. map_of (cl_early c) irp = Some (h, info) \<longrightarrow> map_of (cl_irps c) irp = None \<and>
        (\<exists>op. last_on (\<lambda>e. \<not> says_nothing e) irp evs = Some (h, FileOpEnd op) \<and>
           \<not> fo_failed op \<and> removed info \<and> info = fo_extra_information op)) \<and>
     (\<forall>key. recent_get key (cl_requested c) \<noteq> None \<longrightarrow> delete_asked key evs) \<and>
     (\<forall>fo. recent_get fo (cl_on_close c) \<noteq> None \<longrightarrow> opened_on_close fo evs)"

lemma cl_historyI:
  assumes "\<And>irp fo key ts. map_of (cl_irps c) irp = Some (fo, key, ts) \<Longrightarrow>
        \<exists>h x. last_on (\<lambda>_. True) irp evs = Some (h, FileCleanup x) \<and>
           fo = fh_file_object x \<and> key = fh_file_key x \<and> ts = hts h"
    and "\<And>irp key. map_of (cl_request_irps c) irp = Some key \<Longrightarrow>
        \<exists>h e. last_on (\<lambda>_. True) irp evs = Some (h, e) \<and> asks_delete key e"
    and "\<And>irp h info. map_of (cl_early c) irp = Some (h, info) \<Longrightarrow> map_of (cl_irps c) irp = None \<and>
        (\<exists>op. last_on (\<lambda>e. \<not> says_nothing e) irp evs = Some (h, FileOpEnd op) \<and>
           \<not> fo_failed op \<and> removed info \<and> info = fo_extra_information op)"
    and "\<And>key. recent_get key (cl_requested c) \<noteq> None \<Longrightarrow> delete_asked key evs"
    and "\<And>fo. recent_get fo (cl_on_close c) \<noteq> None \<Longrightarrow> opened_on_close fo evs"
  shows "cl_history evs c"
  using assms unfolding cl_history_def by blast

lemma cl_historyD:
  assumes "cl_history evs c"
  shows "map_of (cl_irps c) irp = Some (fo, key, ts) \<Longrightarrow>
        \<exists>h x. last_on (\<lambda>_. True) irp evs = Some (h, FileCleanup x) \<and>
           fo = fh_file_object x \<and> key = fh_file_key x \<and> ts = hts h"
    and "map_of (cl_request_irps c) irp = Some key' \<Longrightarrow>
        \<exists>h e. last_on (\<lambda>_. True) irp evs = Some (h, e) \<and> asks_delete key' e"
    and "map_of (cl_early c) irp = Some (h, info) \<Longrightarrow> map_of (cl_irps c) irp = None \<and>
        (\<exists>op. last_on (\<lambda>e. \<not> says_nothing e) irp evs = Some (h, FileOpEnd op) \<and>
           \<not> fo_failed op \<and> removed info \<and> info = fo_extra_information op)"
    and "recent_get key (cl_requested c) \<noteq> None \<Longrightarrow> delete_asked key evs"
    and "recent_get fo (cl_on_close c) \<noteq> None \<Longrightarrow> opened_on_close fo evs"
  using assms unfolding cl_history_def by blast+

lemma opened_append: "opened_on_close fo evs \<Longrightarrow> opened_on_close fo (evs @ xs)"
  by (auto simp: opened_on_close_def)

lemma asked_append: "delete_asked key evs \<Longrightarrow> delete_asked key (evs @ xs)"
  unfolding delete_asked_def set_append using opened_append by blast

lemma cl_history_step:
  assumes I: "cl_history evs c" and st: "cl_after h e c n = (c', n')"
  shows "cl_history (evs @ [(h, e)]) c'"
proof (rule cl_historyI)
  fix irp fo key ts
  assume "map_of (cl_irps c') irp = Some (fo, key, ts)"
  from cl_event_irps [OF st this]
  show "\<exists>h' x. last_on (\<lambda>_. True) irp (evs @ [(h, e)]) = Some (h', FileCleanup x) \<and>
      fo = fh_file_object x \<and> key = fh_file_key x \<and> ts = hts h'"
    using cl_historyD(1) [OF I] by (auto simp: irp_of_def)
next
  fix irp key
  assume "map_of (cl_request_irps c') irp = Some key"
  from cl_event_requests [OF st this]
  show "\<exists>h' e'. last_on (\<lambda>_. True) irp (evs @ [(h, e)]) = Some (h', e') \<and> asks_delete key e'"
    using cl_historyD(2) [OF I] by auto
next
  fix irp h' info
  assume a: "map_of (cl_early c') irp = Some (h', info)"
  have x: "\<not> (map_of (cl_early c) irp = Some (h', info) \<and> map_of (cl_irps c) irp = Some (fo, key, ts))" for fo key ts
    using cl_historyD(3) [OF I, of irp h' info] by auto
  have "map_of (cl_irps c') irp = None"
  proof (rule ccontr)
    assume "map_of (cl_irps c') irp \<noteq> None"
    then obtain fo key ts where m: "map_of (cl_irps c') irp = Some (fo, key, ts)" by auto
    from cl_event_irps [OF st m] cl_event_early [OF st a] x show False
      by (auto simp: irp_of_def says_nothing_def)
  qed
  moreover have "\<exists>op. last_on (\<lambda>e. \<not> says_nothing e) irp (evs @ [(h, e)]) = Some (h', FileOpEnd op) \<and>
      \<not> fo_failed op \<and> removed info \<and> info = fo_extra_information op"
    using cl_event_early [OF st a] cl_historyD(3) [OF I, of irp h' info] x
    by (auto simp: irp_of_def says_nothing_def)
  ultimately show "map_of (cl_irps c') irp = None \<and>
      (\<exists>op. last_on (\<lambda>e. \<not> says_nothing e) irp (evs @ [(h, e)]) = Some (h', FileOpEnd op) \<and>
      \<not> fo_failed op \<and> removed info \<and> info = fo_extra_information op)" by blast
next
  fix key
  assume "recent_get key (cl_requested c') \<noteq> None"
  from cl_event_requested [OF st this]
  consider "recent_get key (cl_requested c) \<noteq> None" | "asks_delete key e"
    | x where "e = FileCleanup x" "key = fh_file_key x" "recent_get (fh_file_object x) (cl_on_close c) \<noteq> None"
    by blast
  then show "delete_asked key (evs @ [(h, e)])"
  proof cases
    case 1
    then show ?thesis by (rule asked_append [OF cl_historyD(4) [OF I]])
  next
    case 2
    then show ?thesis by (simp add: delete_asked_def)
  next
    case 3
    have "opened_on_close (fh_file_object x) (evs @ [(h, e)])" by (rule opened_append [OF cl_historyD(5) [OF I 3(3)]])
    then show ?thesis using 3(1,2) unfolding delete_asked_def by auto
  qed
next
  fix fo
  assume "recent_get fo (cl_on_close c') \<noteq> None"
  from cl_event_on_close [OF st this] show "opened_on_close fo (evs @ [(h, e)])"
  proof
    assume "recent_get fo (cl_on_close c) \<noteq> None"
    then show ?thesis by (rule opened_append [OF cl_historyD(5) [OF I]])
  qed (auto simp: opened_on_close_def)
qed

lemma cl_history_run:
  "cl_run evs (cl_new t, n0) = (c, n) \<Longrightarrow> cl_history evs c \<and> cl_bounded (cl_window (cl_new t)) c"
proof (induction evs arbitrary: c n rule: rev_induct)
  case Nil
  then show ?case
    by (auto simp: cl_bounded_new cl_history_def) (simp_all add: cl_new_def recent_new_def recent_get_def)
next
  case (snoc x evs)
  obtain h e where x: "x = (h, e)" by fastforce
  obtain c0 n1 where r: "cl_run evs (cl_new t, n0) = (c0, n1)" by fastforce
  then have "cl_after h e c0 n1 = (c, n)" using snoc.prems by (simp add: x cl_run_snoc)
  then show ?case using snoc.IH [OF r] cl_history_step cl_bounded_event x by blast
qed

section \<open>A Cleanup waits for its outcome\<close>

text \<open>Until an event on its Irp comes, or the map is full.\<close>

definition is_cleanup :: "header \<times> raw_event \<Rightarrow> bool" where
  "is_cleanup x = (case snd x of FileCleanup _ \<Rightarrow> True | _ \<Rightarrow> False)"

lemma cl_event_kept:
  assumes "cl_after h e c n = (c', n')" "irp_of e \<noteq> Some irp" "is_cleanup (h, e) \<Longrightarrow> length (cl_irps c) < CLEANUP_IRPS_CAP"
  shows "map_of (cl_irps c') irp = map_of (cl_irps c) irp"
proof (cases e)
  case (FileCleanup x)
  have l: "length (AList.delete (fh_irp x) (cl_irps c)) < CLEANUP_IRPS_CAP"
    using length_delete_le [of "fh_irp x" "cl_irps c"] assms(3) FileCleanup by (simp add: is_cleanup_def)
  then show ?thesis using assms FileCleanup
    by (auto simp: cl_after_def cl_event_def op_irp_def irp_of_def cl_cleanup_eq Let_def
        split: prod.splits option.splits if_splits)
next
  case (FileOpEnd op)
  then show ?thesis using assms
    by (auto simp: cl_after_def cl_event_def op_irp_def irp_of_def cl_end_maps(1) split: prod.splits if_splits)
qed (use assms in \<open>auto simp: cl_after_def cl_event_def op_irp_def irp_of_def split_beta cl_next_op_maps split: if_splits\<close>)

lemma cl_run_kept:
  assumes "cl_run evs (c, n) = (c', n')" "\<forall>(h, e) \<in> set evs. irp_of e \<noteq> Some irp"
    "\<forall>k < length evs. is_cleanup (evs ! k) \<longrightarrow> length (cl_irps (fst (cl_run (take k evs) (c, n)))) < CLEANUP_IRPS_CAP"
  shows "map_of (cl_irps c') irp = map_of (cl_irps c) irp"
  using assms
proof (induction evs arbitrary: c n)
  case (Cons x evs)
  obtain h e where x: "x = (h, e)" by fastforce
  obtain c1 n1 where s: "cl_after h e c n = (c1, n1)" by fastforce
  have "is_cleanup (h, e) \<Longrightarrow> length (cl_irps c) < CLEANUP_IRPS_CAP" using Cons.prems(3) x by force
  then have "map_of (cl_irps c1) irp = map_of (cl_irps c) irp"
    using cl_event_kept [OF s] Cons.prems(2) x by auto
  moreover have "\<forall>k < length evs. is_cleanup (evs ! k) \<longrightarrow> length (cl_irps (fst (cl_run (take k evs) (c1, n1)))) < CLEANUP_IRPS_CAP"
  proof (intro allI impI)
    fix k assume "k < length evs" "is_cleanup (evs ! k)"
    then show "length (cl_irps (fst (cl_run (take k evs) (c1, n1)))) < CLEANUP_IRPS_CAP"
      using Cons.prems(3) [rule_format, of "Suc k"] x s by simp
  qed
  ultimately show ?case using Cons.IH [of c1 n1] Cons.prems(1,2) x s by simp
qed simp

lemma cl_run_append: "cl_run (xs @ ys) s = cl_run ys (cl_run xs s)"
  by (induction xs arbitrary: s) simp_all

lemma cl_cleanup_waits:
  assumes I: "cl_history evs c" and e: "cl_event h (FileCleanup x) c n = (v, None, c', n')"
  shows "map_of (cl_irps c') (fh_irp x) = Some (fh_file_object x, fh_file_key x, hts h)"
proof -
  have en: "cl_cleanup (fh_irp x) (fh_file_object x) (fh_file_key x) (hts h) c n = (None, c', n')"
    using e by (auto simp: cl_event_def op_irp_def split: prod.splits)
  have "removed info" if "map_of (cl_early c) (fh_irp x) = Some (h', info)" for h' info
    using cl_historyD(3) [OF I that] by blast
  then show ?thesis using en
    by (auto simp: cl_cleanup_eq cl_decide_def Let_def split: option.splits if_splits prod.splits)
qed

lemma cl_waiting_passes:
  assumes "cl_run before (cl_new t, n0) = (c, n)" and "cl_event h (FileCleanup x) c n = (Pass, None, c1, n1)"
    and "cl_run since (c1, n1) = (c2, n2)"
    and "\<forall>(h, e) \<in> set since. irp_of e \<noteq> Some (fh_irp x)"
    and "\<forall>k < length since. is_cleanup (since ! k) \<longrightarrow>
      length (cl_irps (fst (cl_run (take k since) (c1, n1)))) < CLEANUP_IRPS_CAP"
    and "fo_irp op = fh_irp x" "\<not> fo_failed op" "removed (fo_extra_information op)"
    and "hts h \<le> hts h'" "wrap_i64 (hts h' - hts h) \<le> cl_window (cl_new t)"
  shows "fst (cl_event h' (FileOpEnd op) c2 n2) = Pass"
proof -
  have I: "cl_history before c" and B: "cl_bounded (cl_window (cl_new t)) c" using cl_history_run [OF assms(1)] by simp_all
  have a: "cl_after h (FileCleanup x) c n = (c1, n1)" using assms(2) by (simp add: cl_after_def)
  have w: "cl_window c2 = cl_window (cl_new t)"
    using cl_history_run [of "before @ (h, FileCleanup x) # since" t n0 c2 n2] assms(1,3) a
    by (simp add: cl_run_append cl_bounded_def)
  have "map_of (cl_irps c2) (fh_irp x) = Some (fh_file_object x, fh_file_key x, hts h)"
    using cl_run_kept [OF assms(3,4,5)] cl_cleanup_waits [OF I assms(2)] by simp
  then show ?thesis using assms(6-10) w
    by (simp add: cl_event_def op_irp_def cl_end_eq cl_within_def cl_decide_def Let_def)
qed

text \<open>A file asked to be deleted by path, then cleaned up; the outcome comes five ticks later.\<close>

definition demo_at :: "int \<Rightarrow> header" where
  "demo_at ts = \<lparr>hsession = Sensor, hpid = 4, htid = 8, hts = ts, hstart_key = None\<rparr>"

definition demo_cleanup :: raw_event where
  "demo_cleanup = FileCleanup \<lparr>fh_irp = 7, fh_file_object = 20, fh_file_key = 30, fh_issuing_tid = 8\<rparr>"

definition demo_outcome :: file_op_end_ev where
  "demo_outcome = \<lparr>fo_irp = 7, fo_extra_information = FILE_DELETED, fo_status = 0\<rparr>"

lemma demo_window: "cl_window (cl_new \<lparr>frequency = 10\<rparr>) = 10"
  by (simp add: cl_new_def ticks_of_def OUTCOME_WINDOW_def secs_def U128_MAX_def)

lemma demo_facts:
  "removed FILE_DELETED" "\<not> fo_failed demo_outcome" "\<not> removed FILE_REMAINS"
  by (simp_all add: removed_def FILE_DELETED_def FILE_REMAINS_def POSIX_STYLE_DELETE_def LINK_DELETED_def
      STREAM_DELETED_def fo_failed_def demo_outcome_def)

lemma demo_waits:
  "\<exists>c n. cl_event (demo_at 100) demo_cleanup (cl_new \<lparr>frequency = 10\<rparr>) intake_counters_zero = (Pass, None, c, n)"
  by (simp add: cl_event_def op_irp_def demo_cleanup_def cl_cleanup_eq Let_def cl_new_def)

lemma demo_passes:
  assumes "cl_event (demo_at 100) demo_cleanup (cl_new \<lparr>frequency = 10\<rparr>) intake_counters_zero = (Pass, None, c, n)"
  shows "fst (cl_event (demo_at 105) (FileOpEnd demo_outcome) c n) = Pass"
proof -
  have "cl_run [] (c, n) = (c, n)" by simp
  from cl_waiting_passes [where before = "[]" and n0 = intake_counters_zero and op = demo_outcome and h' = "demo_at 105",
    OF _ assms [unfolded demo_cleanup_def] this]
  show ?thesis using demo_facts demo_window
    by (simp add: CLEANUP_IRPS_CAP_def demo_at_def wrap_i64_def) (simp add: demo_outcome_def)
qed

section \<open>Properties\<close>

lemma cl_end_pass:
  assumes I: "cl_history evs c" and B: "cl_bounded w c"
    and e: "cl_event h (FileOpEnd op) c n = (Pass, out, c', n')" "\<not> fo_failed op"
  shows "out = None \<and> (\<exists>h' e'. last_on (\<lambda>_. True) (fo_irp op) evs = Some (h', e') \<and>
    ((\<exists>key. asks_delete key e') \<or>
     (\<exists>x. e' = FileCleanup x \<and> hts h' \<le> hts h \<and> wrap_i64 (hts h - hts h') \<le> w \<and>
        (removed (fo_extra_information op) \<or> fo_extra_information op = FILE_UNKNOWN \<and>
          (delete_asked (fh_file_key x) evs \<or> opened_on_close (fh_file_object x) evs)))))"
proof -
  obtain c1 n1 where en: "cl_end h (fo_irp op) (fo_extra_information op) c n = (Pass, c1, n1)" and o: "out = None"
    using e by (auto simp: cl_event_def op_irp_def split: prod.splits)
  show ?thesis
  proof (cases "map_of (cl_request_irps c) (fo_irp op)")
    case (Some key)
    then show ?thesis using cl_historyD(2) [OF I Some] o by blast
  next
    case None
    let ?c = "c\<lparr>cl_request_irps := AList.delete (fo_irp op) (cl_request_irps c), cl_irps := AList.delete (fo_irp op) (cl_irps c)\<rparr>"
    obtain fo key ts where m: "map_of (cl_irps c) (fo_irp op) = Some (fo, key, ts)" and wi: "cl_within h ts c"
      and d: "fst (cl_decide fo key (fo_extra_information op) ?c)"
      using en None by (auto simp: cl_end_eq Let_def split: option.splits if_splits prod.splits)
    obtain h' x where x: "last_on (\<lambda>_. True) (fo_irp op) evs = Some (h', FileCleanup x)"
      "fo = fh_file_object x" "key = fh_file_key x" "ts = hts h'" using cl_historyD(1) [OF I m] by blast
    have "removed (fo_extra_information op) \<or> fo_extra_information op = FILE_UNKNOWN \<and>
        (delete_asked (fh_file_key x) evs \<or> opened_on_close (fh_file_object x) evs)"
      using d cl_historyD(4) [OF I, of key] cl_historyD(5) [OF I, of fo] x by (auto simp: cl_decide_def Let_def)
    then show ?thesis using x wi B o by (simp add: cl_within_def cl_bounded_def)
  qed
qed

lemma cl_cleanup_out:
  assumes I: "cl_history evs c" and B: "cl_bounded w c"
    and e: "cl_event h (FileCleanup x) c n = (v, Some (h', op), c', n')"
  shows "v = Pass \<and> fo_irp op = fh_irp x \<and> fo_status op = 0 \<and> hts h \<le> hts h' \<and> wrap_i64 (hts h' - hts h) \<le> w \<and>
    (\<exists>op'. last_on (\<lambda>e. \<not> says_nothing e) (fh_irp x) evs = Some (h', FileOpEnd op') \<and> \<not> fo_failed op' \<and>
       removed (fo_extra_information op') \<and> fo_extra_information op = fo_extra_information op')"
proof -
  obtain info where en: "cl_cleanup (fh_irp x) (fh_file_object x) (fh_file_key x) (hts h) c n = (Some (h', info), c', n')"
    and op: "op = \<lparr>fo_irp = fh_irp x, fo_extra_information = info, fo_status = 0\<rparr>" and v: "v = Pass"
    using e by (auto simp: cl_event_def op_irp_def split: prod.splits)
  then have m: "map_of (cl_early c) (fh_irp x) = Some (h', info)" and wi: "cl_within h' (hts h) c"
    by (auto simp: cl_cleanup_eq Let_def split: option.splits if_splits prod.splits)
  show ?thesis using cl_historyD(3) [OF I m] wi B op v by (auto simp: cl_within_def cl_bounded_def)
qed

text \<open>C35: an outcome is only ever paired with its own Cleanup. Over every history of events: a
  successful OperationEnd is passed on only if the last event on its Irp was a delete request, or
  was a Cleanup no later than it and within the window, and then it reports a removed name, or
  reports nothing for a file whose delete was asked for; an outcome that came before its Cleanup is
  passed on with it only if it reported a removed name and nothing but OperationEnds that say
  nothing came on the Irp since; and all that is kept stays within its caps.\<close>

theorem cleanup_outcome_paired:
  assumes "cl_run evs (cl_new t, n0) = (c, n)" and "cl_event h e c n = (v, out, c', n')"
  shows "cl_bounded (cl_window (cl_new t)) c' \<and>
    (case e of
       FileOpEnd op \<Rightarrow> out = None \<and> (\<not> fo_failed op \<and> v = Pass \<longrightarrow>
         (\<exists>h' e'. last_on (\<lambda>_. True) (fo_irp op) evs = Some (h', e') \<and>
           ((\<exists>key. asks_delete key e') \<or>
            (\<exists>x. e' = FileCleanup x \<and> hts h' \<le> hts h \<and> wrap_i64 (hts h - hts h') \<le> cl_window (cl_new t) \<and>
               (removed (fo_extra_information op) \<or> fo_extra_information op = FILE_UNKNOWN \<and>
                 (delete_asked (fh_file_key x) evs \<or> opened_on_close (fh_file_object x) evs))))))
     | FileCleanup x \<Rightarrow> v = Pass \<and> (\<forall>h' op. out = Some (h', op) \<longrightarrow>
         fo_irp op = fh_irp x \<and> fo_status op = 0 \<and>
         hts h \<le> hts h' \<and> wrap_i64 (hts h' - hts h) \<le> cl_window (cl_new t) \<and>
         (\<exists>op'. last_on (\<lambda>e. \<not> says_nothing e) (fh_irp x) evs = Some (h', FileOpEnd op') \<and> \<not> fo_failed op' \<and>
            removed (fo_extra_information op') \<and> fo_extra_information op = fo_extra_information op'))
     | _ \<Rightarrow> v = Pass \<and> out = None)"
proof -
  have I: "cl_history evs c" and B: "cl_bounded (cl_window (cl_new t)) c" using cl_history_run [OF assms(1)] by simp_all
  have "cl_after h e c n = (c', n')" using assms(2) by (simp add: cl_after_def)
  then have B': "cl_bounded (cl_window (cl_new t)) c'" using cl_bounded_event B by blast
  show ?thesis
  proof (cases e)
    case (FileOpEnd op)
    have "out = None" using assms(2) FileOpEnd by (auto simp: cl_event_def op_irp_def split: prod.splits if_splits)
    then show ?thesis using B' cl_end_pass [OF I B] assms(2) unfolding FileOpEnd by auto
  next
    case (FileCleanup x)
    have "v = Pass" using assms(2) FileCleanup by (auto simp: cl_event_def op_irp_def split: prod.splits)
    then show ?thesis using B' cl_cleanup_out [OF I B] assms(2) unfolding FileCleanup by fastforce
  qed (use assms(2) B' in \<open>auto simp: cl_event_def op_irp_def split: prod.splits\<close>)
qed

text \<open>A Cleanup at 100, its outcome at 105 and a window of ten ticks.\<close>

theorem cleanup_outcome_paired_witness:
  "\<exists>c n out c' n'. cl_run [(demo_at 100, demo_cleanup)] (cl_new \<lparr>frequency = 10\<rparr>, intake_counters_zero) = (c, n) \<and>
     cl_event (demo_at 105) (FileOpEnd demo_outcome) c n = (Pass, out, c', n') \<and> out = None \<and>
     last_on (\<lambda>_. True) 7 [(demo_at 100, demo_cleanup)] = Some (demo_at 100, demo_cleanup) \<and>
     cl_bounded (cl_window (cl_new \<lparr>frequency = 10\<rparr>)) c'"
proof -
  obtain c n where w: "cl_event (demo_at 100) demo_cleanup (cl_new \<lparr>frequency = 10\<rparr>) intake_counters_zero = (Pass, None, c, n)"
    using demo_waits by blast
  then have r: "cl_run [(demo_at 100, demo_cleanup)] (cl_new \<lparr>frequency = 10\<rparr>, intake_counters_zero) = (c, n)"
    by (simp add: cl_after_def)
  obtain out c' n' where e: "cl_event (demo_at 105) (FileOpEnd demo_outcome) c n = (Pass, out, c', n')"
    using demo_passes [OF w] by (metis prod.collapse)
  have "out = None \<and> cl_bounded (cl_window (cl_new \<lparr>frequency = 10\<rparr>)) c'"
    using cleanup_outcome_paired [OF r e] by simp
  then show ?thesis using r e by (simp add: last_on_def irp_of_def demo_cleanup_def)
qed

definition demo_other :: "u64 \<Rightarrow> raw_event" where
  "demo_other irp = FileCleanup \<lparr>fh_irp = irp, fh_file_object = 21, fh_file_key = 31, fh_issuing_tid = 8\<rparr>"

lemma demo_others_wait:
  "\<exists>c n c1 n1. cl_run [(demo_at 90, demo_other 5)] (cl_new \<lparr>frequency = 10\<rparr>, intake_counters_zero) = (c, n) \<and>
     cl_event (demo_at 100) demo_cleanup c n = (Pass, None, c1, n1) \<and> length (cl_irps c1) = 2"
  by (simp add: cl_after_def cl_event_def op_irp_def demo_cleanup_def demo_other_def cl_cleanup_eq Let_def cl_new_def
      capped_insert_def CLEANUP_IRPS_CAP_def cl_next_op_def)

text \<open>C36: and it is paired. Whatever came before it, a Cleanup whose outcome had not come first waits for
  it: whatever other events come on other Irps, a successful OperationEnd on its Irp within the window
  that reports a removed name is passed on, unless another Cleanup came while \<open>CLEANUP_IRPS_CAP\<close> were
  waiting (which clears the table).\<close>

theorem cleanup_outcome_passed:
  assumes "cl_run before (cl_new t, n0) = (c, n)" and "cl_event h (FileCleanup x) c n = (Pass, None, c1, n1)"
    and "cl_run since (c1, n1) = (c2, n2)"
    and "\<forall>(h, e) \<in> set since. irp_of e \<noteq> Some (fh_irp x)"
    and "\<forall>k < length since. is_cleanup (since ! k) \<longrightarrow>
      length (cl_irps (fst (cl_run (take k since) (c1, n1)))) < CLEANUP_IRPS_CAP"
    and "fo_irp op = fh_irp x" "\<not> fo_failed op" "removed (fo_extra_information op)"
    and "hts h \<le> hts h'" "wrap_i64 (hts h' - hts h) \<le> cl_window (cl_new t)"
  shows "fst (cl_event h' (FileOpEnd op) c2 n2) = Pass"
  using cl_waiting_passes [OF assms(1-6)] assms(7-10) by blast

text \<open>One Cleanup waits before it, and another comes while it waits.\<close>

theorem cleanup_outcome_passed_witness:
  "\<exists>c n c1 n1 c2 n2. cl_run [(demo_at 90, demo_other 5)] (cl_new \<lparr>frequency = 10\<rparr>, intake_counters_zero) = (c, n) \<and>
     cl_event (demo_at 100) demo_cleanup c n = (Pass, None, c1, n1) \<and>
     cl_run [(demo_at 101, demo_other 6)] (c1, n1) = (c2, n2) \<and>
     fst (cl_event (demo_at 105) (FileOpEnd demo_outcome) c2 n2) = Pass"
proof -
  obtain c n c1 n1 where w: "cl_run [(demo_at 90, demo_other 5)] (cl_new \<lparr>frequency = 10\<rparr>, intake_counters_zero) = (c, n)"
    "cl_event (demo_at 100) demo_cleanup c n = (Pass, None, c1, n1)" "length (cl_irps c1) = 2"
    using demo_others_wait by blast
  obtain c2 n2 where s: "cl_run [(demo_at 101, demo_other 6)] (c1, n1) = (c2, n2)" by fastforce
  from cleanup_outcome_passed [where op = demo_outcome and h' = "demo_at 105", OF w(1) w(2) [unfolded demo_cleanup_def] s]
  have "fst (cl_event (demo_at 105) (FileOpEnd demo_outcome) c2 n2) = Pass" using demo_facts demo_window w(3)
    by (simp add: CLEANUP_IRPS_CAP_def demo_at_def wrap_i64_def demo_other_def irp_of_def) (simp add: demo_outcome_def)
  then show ?thesis using w s by blast
qed

end
