(* ===== verification/Ew_Text.thy ===== *)
theory Ew_Text
  imports Ew_Reader Ew_Parse
begin

text \<open>
  Text of the events: \<open>WStr::to_string_lossy\<close> (\<open>crates/atlas-etw/src/parse/mod.rs\<close>) and the answers of a
  DNS query (\<open>parse/dns.rs\<close>), with what they use of the standard library: UTF-16 decoding, UTF-8
  encoding, trimming, and the parsers of integers and IP addresses. A decoded text is a list of
  Unicode scalar values.
\<close>

section \<open>UTF-16 to UTF-8\<close>

type_synonym scalar = nat

definition REPLACEMENT :: scalar where "REPLACEMENT = 0xFFFD"

text \<open>\<open>char::decode_utf16\<close>; \<open>None\<close> is an unpaired surrogate.\<close>

fun decode_utf16 :: "nat list \<Rightarrow> scalar option list" where
  "decode_utf16 [] = []"
| "decode_utf16 (u # us) =
     (if u < 0xD800 \<or> 0xDFFF < u then Some u # decode_utf16 us
      else if 0xDC00 \<le> u then None # decode_utf16 us
      else case us of
        [] \<Rightarrow> [None]
      | u2 # rest \<Rightarrow>
          if u2 < 0xDC00 \<or> 0xDFFF < u2 then None # decode_utf16 us
          else Some ((u - 0xD800) * 0x400 + (u2 - 0xDC00) + 0x10000) # decode_utf16 rest)"

definition lossy_scalars :: "wstr \<Rightarrow> scalar list" where
  "lossy_scalars s = map (\<lambda>c. case c of Some c \<Rightarrow> c | None \<Rightarrow> REPLACEMENT) (decode_utf16 (map unat s))"

definition utf8_encode :: "scalar \<Rightarrow> rstr" where
  "utf8_encode c =
     (if c < 0x80 then [of_nat c]
      else if c < 0x800 then [of_nat (0xC0 + c div 64), of_nat (0x80 + c mod 64)]
      else if c < 0x10000 then
        [of_nat (0xE0 + c div 4096), of_nat (0x80 + c div 64 mod 64), of_nat (0x80 + c mod 64)]
      else [of_nat (0xF0 + c div 262144), of_nat (0x80 + c div 4096 mod 64),
        of_nat (0x80 + c div 64 mod 64), of_nat (0x80 + c mod 64)])"

definition utf8 :: "scalar list \<Rightarrow> rstr" where
  "utf8 cs = concat (map utf8_encode cs)"

definition to_string_lossy :: "wstr \<Rightarrow> rstr" where
  "to_string_lossy s =
     (if list_all (\<lambda>u. u < 0x80) s then map ucast s else utf8 (lossy_scalars s))"

text \<open>The fast path for ASCII is the general one.\<close>

lemma decode_ascii: "list_all (\<lambda>u. u < 0x80) us \<Longrightarrow> decode_utf16 us = map Some us"
  by (induction us) auto

lemma to_string_lossy_utf8: "to_string_lossy s = utf8 (lossy_scalars s)"
proof (cases "list_all (\<lambda>u. u < 0x80) s")
  case True
  then have "list_all (\<lambda>u. u < 0x80) (map unat s)"
    by (auto simp: list_all_iff word_less_nat_alt)
  moreover have "map ucast s = utf8 (map unat s)"
    using True
  proof (induction s)
    case (Cons u s)
    then have "unat u < 128" by (simp add: word_less_nat_alt)
    moreover have "(ucast u :: byte) = of_nat (unat u)"
      by simp
    ultimately show ?case using Cons by (simp add: utf8_def utf8_encode_def)
  qed (simp add: utf8_def)
  ultimately show ?thesis
    using True by (simp add: to_string_lossy_def lossy_scalars_def decode_ascii comp_def)
qed (simp add: to_string_lossy_def)

text \<open>\<open>From<&str>\<close>: a string written as UTF-16 comes back unchanged.\<close>

definition is_scalar :: "scalar \<Rightarrow> bool" where
  "is_scalar c \<longleftrightarrow> c < 0xD800 \<or> (0xDFFF < c \<and> c < 0x110000)"

definition encode_utf16 :: "scalar \<Rightarrow> wstr" where
  "encode_utf16 c =
     (if c < 0x10000 then [of_nat c]
      else [of_nat (0xD800 + (c - 0x10000) div 0x400), of_nat (0xDC00 + (c - 0x10000) mod 0x400)])"

definition wstr_of :: "scalar list \<Rightarrow> wstr" where
  "wstr_of cs = concat (map encode_utf16 cs)"

lemma decode_encode:
  assumes "is_scalar c"
  shows "decode_utf16 (map unat (encode_utf16 c) @ us) = Some c # decode_utf16 us"
proof (cases "c < 0x10000")
  case True
  then have "unat (of_nat c :: u16) = c" by (simp add: unat_of_nat)
  then show ?thesis using True assms by (auto simp: encode_utf16_def is_scalar_def)
next
  case False
  let ?d = "c - 0x10000"
  have d: "?d div 0x400 < 0x400" using assms False by (auto simp: is_scalar_def)
  have h: "unat (of_nat (0xD800 + ?d div 0x400) :: u16) = 0xD800 + ?d div 0x400"
    using d by (simp only: unat_of_nat) simp
  have l: "unat (of_nat (0xDC00 + ?d mod 0x400) :: u16) = 0xDC00 + ?d mod 0x400"
    by (simp only: unat_of_nat) simp
  have "?d div 0x400 * 0x400 + ?d mod 0x400 + 0x10000 = c"
    using False by simp
  then show ?thesis
    using False d by (simp add: encode_utf16_def h l del: of_nat_add)
qed

lemma lossy_wstr_of: "list_all is_scalar cs \<Longrightarrow> lossy_scalars (wstr_of cs) = cs"
proof (induction cs)
  case (Cons c cs)
  then show ?case
    by (simp add: lossy_scalars_def wstr_of_def decode_encode)
qed (simp add: lossy_scalars_def wstr_of_def)

end
