(* ===== verification/Ag_Intake.thy ===== *)
theory Ag_Intake
  imports Ag_Buckets Ag_Early Ag_Cleanups Ag_Queue Ew_Text
begin

text \<open>
  What each ETW callback does before an event reaches the pipeline
  (\<open>crates/atlas-agent/src/intake.rs\<close>). The Cleanup bookkeeping, the early key map and the token
  buckets are theories of their own; here they are put together with the two bounded queues and the
  counters. The fast-path reader is a parameter of the code, a closure that must not block: the model
  keeps the list of the reads handed to it. Its calls on the queues are uninterrupted ones. A payload
  whose parsing would panic (\<open>SlicePanic\<close>, shown elsewhere not to arise) counts as a parse error.
  Facts: where every event goes, that none is lost uncounted, and that everything the callback keeps
  is bounded.
\<close>

section \<open>The state\<close>

type_synonym event = "raw_event incoming"

record early_key =
  ekey_ts :: int
  ekey_tid :: nat
  ekey_object :: u64

record value_read =
  vr_key_path :: rstr
  vr_value_name :: wstr

record queues =
  q_kernel :: "event msg_queue"
  q_user :: "event msg_queue"

record intake =
  in_kernel :: "event msg_queue"
  in_user :: "event msg_queue"
  in_counters :: intake_counters
  in_dns :: buckets
  in_early :: "early_keys option"
  in_fast_read :: "(early_key \<times> value_read) list option"
  in_self_keys :: "nat list"
  in_cleanups :: "cleanups option"

definition intake_new :: "session \<Rightarrow> agent_config \<Rightarrow> ticks \<Rightarrow> queues \<Rightarrow> intake_counters
    \<Rightarrow> (early_key \<times> value_read) list option \<Rightarrow> nat list \<Rightarrow> intake" where
  "intake_new s cfg t qs n fast self_keys =
     \<lparr>in_kernel = q_kernel qs, in_user = q_user qs, in_counters = n,
      in_dns = bk_new (dns_rate_per_pid cfg) (frequency t),
      in_early = (if s = Sensor \<and> fast \<noteq> None \<and> registry_value_reads cfg
                  then Some (ek_new (early_key_map_cap cfg)) else None),
      in_fast_read = fast, in_self_keys = remdups self_keys,
      in_cleanups = (if agent_config.file_op_end cfg then Some (cl_new t) else None)\<rparr>"

section \<open>Sending\<close>

definition is_full :: "('m send_error + unit) \<Rightarrow> bool" where
  "is_full r = (case r of Inl (Full _) \<Rightarrow> True | _ \<Rightarrow> False)"

definition intake_send :: "event \<Rightarrow> intake \<Rightarrow> intake" where
  "intake_send inc s =
     (case inc_event inc of
        DnsQuery _ \<Rightarrow>
          (let (ok, b) = bk_take (hpid (inc_header inc)) (hts (inc_header inc)) (in_dns s);
               s = s\<lparr>in_dns := b\<rparr>; n = in_counters s
           in if \<not> ok then s\<lparr>in_counters := n\<lparr>dns_rate_limit_drops := dns_rate_limit_drops n + 1\<rparr>\<rparr>
              else
                (let (r, q) = try_send inc (in_user s); s = s\<lparr>in_user := q\<rparr>
                 in if is_full r then s\<lparr>in_counters := n\<lparr>user_queue_drops := user_queue_drops n + 1\<rparr>\<rparr> else s))
      | _ \<Rightarrow>
          (let (r, q) = try_send inc (in_kernel s); s = s\<lparr>in_kernel := q\<rparr>; n = in_counters s
           in if is_full r then s\<lparr>in_counters := n\<lparr>kernel_queue_drops := kernel_queue_drops n + 1\<rparr>\<rparr> else s))"

section \<open>The registry part\<close>

text \<open>\<open>open_early\<close> is shared by the two events that open a key.\<close>

definition open_early :: "(early_keys \<Rightarrow> nat) \<Rightarrow> reg_open_ev \<Rightarrow> intake \<Rightarrow> intake" where
  "open_early room op s =
     (case in_early s of
        None \<Rightarrow> s
      | Some m \<Rightarrow>
          (let (evicted, m) = ek_open (ro_key_object op) (ro_base_object op) (to_string_lossy (ro_relative_name op)) m;
               n = in_counters s;
               n = (if evicted > 0 then n\<lparr>early_key_map_evictions := early_key_map_evictions n + evicted\<rparr> else n)
           in s\<lparr>in_early := Some m, in_counters := set_early_keys (ek_sizes room m) n\<rparr>))"

definition intake_registry :: "(early_keys \<Rightarrow> nat) \<Rightarrow> header \<Rightarrow> raw_event \<Rightarrow> intake \<Rightarrow> intake" where
  "intake_registry room h e s =
     (case e of
        RegCreateKey op \<Rightarrow> if ro_status op = 0 then open_early room op s else s
      | RegOpenKey op \<Rightarrow> if ro_status op = 0 then open_early room op s else s
      | RegCloseKey k \<Rightarrow>
          (case in_early s of
             Some m \<Rightarrow>
               if \<not> is_some_and (hstart_key h) (\<lambda>sk. sk \<in> set (in_self_keys s))
               then (let m = ek_close (rk_key_object k) m
                     in s\<lparr>in_early := Some m, in_counters := set_early_keys (ek_sizes room m) (in_counters s)\<rparr>)
               else s
           | None \<Rightarrow> s)
      | RegSetValue v \<Rightarrow>
          if rsv_status v = 0 then
            (case (in_early s, in_fast_read s) of
               (Some m, Some reads) \<Rightarrow>
                 (case ek_name (rsv_key_object v) m of
                    Some path \<Rightarrow>
                      s\<lparr>in_counters := (in_counters s)\<lparr>fast_reads := fast_reads (in_counters s) + 1\<rparr>,
                        in_fast_read := Some (reads @
                          [(\<lparr>ekey_ts = hts h, ekey_tid = htid h, ekey_object = rsv_key_object v\<rparr>,
                            \<lparr>vr_key_path = path, vr_value_name = rsv_value_name v\<rparr>)])\<rparr>
                  | None \<Rightarrow> s)
             | _ \<Rightarrow> s)
          else s
      | _ \<Rightarrow> s)"

section \<open>The callback\<close>

text \<open>The Cleanup part: whether the event ends here, and an outcome to send after it. With
  \<open>file.op_end\<close> off a successful OperationEnd is not needed.\<close>

definition intake_cleanups :: "header \<Rightarrow> raw_event \<Rightarrow> intake
    \<Rightarrow> end_verdict \<times> (header \<times> file_op_end_ev) option \<times> intake" where
  "intake_cleanups h e s =
     (case in_cleanups s of
        Some c \<Rightarrow>
          (let (v, out, c, n) = cl_event h e c (in_counters s)
           in (v, out, s\<lparr>in_cleanups := Some c, in_counters := n\<rparr>))
      | None \<Rightarrow>
          (case e of FileOpEnd op \<Rightarrow> (if \<not> fo_failed op then Discard else Pass, None, s)
           | _ \<Rightarrow> (Pass, None, s)))"

definition on_event :: "(early_keys \<Rightarrow> nat) \<Rightarrow> header \<Rightarrow> parse_error + raw_event \<Rightarrow> intake \<Rightarrow> intake" where
  "on_event room h parsed s =
     (case parsed of
        Inl x \<Rightarrow>
          (let n = in_counters s in
           case x of
             parse_error.UnknownEvent \<Rightarrow> s
           | parse_error.UnsupportedVersion _ \<Rightarrow> s\<lparr>in_counters := n\<lparr>unknown_version := unknown_version n + 1\<rparr>\<rparr>
           | parse_error.NewerVersion _ _ \<Rightarrow> s\<lparr>in_counters := n\<lparr>unknown_version := unknown_version n + 1\<rparr>\<rparr>
           | _ \<Rightarrow> s\<lparr>in_counters := n\<lparr>parse_errors := parse_errors n + 1\<rparr>\<rparr>)
      | Inr e \<Rightarrow>
          (let (v, out, s) = intake_cleanups h e s in
           if v = Discard
           then s\<lparr>in_counters := (in_counters s)\<lparr>op_end_discarded := op_end_discarded (in_counters s) + 1\<rparr>\<rparr>
           else
             (let s = intake_registry room h e s;
                  s = intake_send \<lparr>inc_header = h, inc_event = e\<rparr> s
              in case out of
                   Some (h', op) \<Rightarrow> intake_send \<lparr>inc_header = h', inc_event = FileOpEnd op\<rparr> s
                 | None \<Rightarrow> s)))"

section \<open>Runs\<close>

text \<open>Events are delivered, and the pipeline takes from either queue at any time between. A trace
  keeps what was taken, what was offered to the queues and how many outcomes were sent again.\<close>

datatype intake_label = Delivered header "parse_error + raw_event" | Kernel_taken | User_taken

record intake_trace =
  tr_intake :: intake
  tr_kernel :: "event list"
  tr_user :: "event list"
  tr_offered :: "event list"
  tr_resent :: nat

definition trace_new :: "intake \<Rightarrow> intake_trace" where
  "trace_new s = \<lparr>tr_intake = s, tr_kernel = [], tr_user = [], tr_offered = [], tr_resent = 0\<rparr>"

definition resent :: "(header \<times> file_op_end_ev) option \<Rightarrow> event list" where
  "resent out = (case out of Some (h', op) \<Rightarrow> [\<lparr>inc_header = h', inc_event = FileOpEnd op\<rparr>] | None \<Rightarrow> [])"

definition offers :: "header \<Rightarrow> parse_error + raw_event \<Rightarrow> intake \<Rightarrow> event list" where
  "offers h parsed s = (case parsed of
     Inl _ \<Rightarrow> []
   | Inr e \<Rightarrow> (case intake_cleanups h e s of (v, out, _) \<Rightarrow>
       if v = Discard then [] else \<lparr>inc_header = h, inc_event = e\<rparr> # resent out))"

fun trace_step :: "(early_keys \<Rightarrow> nat) \<Rightarrow> intake_label \<Rightarrow> intake_trace \<Rightarrow> intake_trace" where
  "trace_step room (Delivered h p) tr =
     tr\<lparr>tr_intake := on_event room h p (tr_intake tr),
        tr_offered := tr_offered tr @ offers h p (tr_intake tr),
        tr_resent := tr_resent tr + (length (offers h p (tr_intake tr)) - 1)\<rparr>"
| "trace_step room Kernel_taken tr =
     (let (m, q) = try_recv (in_kernel (tr_intake tr))
      in tr\<lparr>tr_intake := (tr_intake tr)\<lparr>in_kernel := q\<rparr>, tr_kernel := tr_kernel tr @ (case m of Some x \<Rightarrow> [x] | None \<Rightarrow> [])\<rparr>)"
| "trace_step room User_taken tr =
     (let (m, q) = try_recv (in_user (tr_intake tr))
      in tr\<lparr>tr_intake := (tr_intake tr)\<lparr>in_user := q\<rparr>, tr_user := tr_user tr @ (case m of Some x \<Rightarrow> [x] | None \<Rightarrow> [])\<rparr>)"

definition trace_run :: "(early_keys \<Rightarrow> nat) \<Rightarrow> intake_label list \<Rightarrow> intake_trace \<Rightarrow> intake_trace" where
  "trace_run room ls tr = foldl (\<lambda>tr l. trace_step room l tr) tr ls"

text \<open>The delivered events that are the intake's to account for.\<close>

definition to_account :: "intake_label \<Rightarrow> bool" where
  "to_account l = (case l of Delivered _ p \<Rightarrow> p \<noteq> Inl parse_error.UnknownEvent | _ \<Rightarrow> False)"

definition is_dns :: "event \<Rightarrow> bool" where
  "is_dns x = (case inc_event x of DnsQuery _ \<Rightarrow> True | _ \<Rightarrow> False)"

section \<open>The queues' accounts\<close>

definition queue_ok :: "nat \<Rightarrow> 'm msg_queue \<Rightarrow> bool" where
  "queue_ok cap q \<longleftrightarrow> qlen q = length (qchan q) \<and> qopen q \<and> qcap q = cap \<and> length (qchan q) \<le> cap"

lemma try_send_ok:
  assumes "queue_ok cap q"
  shows "try_send m q = (if length (qchan q) \<ge> cap then (Inl (Full m), q)
     else (Inr (), q\<lparr>qlen := qlen q + 1, qchan := qchan q @ [m]\<rparr>))"
  using assms by (cases q) (simp add: try_send_def queue_ok_def Let_def)

text \<open>A queue's account: taken, then queued, is what was offered less what was dropped.\<close>

definition account :: "nat \<Rightarrow> 'm msg_queue \<Rightarrow> 'm list \<Rightarrow> 'm list \<Rightarrow> nat \<Rightarrow> bool" where
  "account cap q tk off drops \<longleftrightarrow> queue_ok cap q \<and> subseq (tk @ qchan q) off \<and>
     length (tk @ qchan q) + drops = length off"

lemma account_dropped: "account cap q tk off d \<Longrightarrow> account cap q tk (off @ [x]) (Suc d)"
  by (auto simp: account_def)

lemma account_queued:
  "account cap q tk off d \<Longrightarrow> length (qchan q) < cap \<Longrightarrow>
    account cap (q\<lparr>qlen := qlen q + 1, qchan := qchan q @ [x]\<rparr>) tk (off @ [x]) d"
  by (auto simp: account_def queue_ok_def list_emb_append_mono simp flip: append_assoc)

lemma account_taken:
  assumes "account cap q tk off d" "try_recv q = (m, q')"
  shows "account cap q' (tk @ (case m of Some x \<Rightarrow> [x] | None \<Rightarrow> [])) off d"
  using assms by (auto simp: account_def queue_ok_def try_recv_def split: list.splits)

section \<open>What is not a queue\<close>

text \<open>The counters that account for an event, and those that do not.\<close>

definition same_accounts :: "intake_counters \<Rightarrow> intake_counters \<Rightarrow> bool" where
  "same_accounts n n' \<longleftrightarrow> kernel_queue_drops n' = kernel_queue_drops n \<and> user_queue_drops n' = user_queue_drops n \<and>
     dns_rate_limit_drops n' = dns_rate_limit_drops n \<and> parse_errors n' = parse_errors n \<and>
     unknown_version n' = unknown_version n \<and> op_end_discarded n' = op_end_discarded n"

lemma same_accounts_trans: "same_accounts n n' \<Longrightarrow> same_accounts n' n'' \<Longrightarrow> same_accounts n n''"
  by (simp add: same_accounts_def)

lemma same_accounts_next: "same_accounts n (snd (cl_next_op irp c n)) \<and> fast_reads (snd (cl_next_op irp c n)) = fast_reads n"
  by (simp add: cl_next_op_def same_accounts_def Let_def)

lemma same_accounts_nextD:
  "cl_next_op irp c n = (c', n') \<Longrightarrow> same_accounts n n' \<and> fast_reads n' = fast_reads n"
  using same_accounts_next [of n irp c] by simp

lemma same_accounts_refl [simp]: "same_accounts n n"
  by (simp add: same_accounts_def)

lemma same_accounts_cleanup:
  "cl_cleanup irp fo key ts c n = (out, c', n') \<Longrightarrow> same_accounts n n' \<and> fast_reads n' = fast_reads n"
  using same_accounts_next [of n irp c]
  by (auto simp: cl_cleanup_eq Let_def split: option.splits if_splits prod.splits)

lemma same_accounts_end:
  "cl_end h irp info c n = (v, c', n') \<Longrightarrow> same_accounts n n' \<and> fast_reads n' = fast_reads n"
  by (auto simp: cl_end_eq same_accounts_def Let_def split: option.splits if_splits prod.splits)

lemma same_accounts_event:
  assumes "cl_event h e c n = (v, out, c', n')"
  shows "same_accounts n n' \<and> fast_reads n' = fast_reads n"
proof (cases e)
  case (FileCleanup x)
  then show ?thesis using assms same_accounts_cleanup
    by (auto simp: cl_event_def op_irp_def split: prod.splits) 
next
  case (FileOpEnd op)
  then show ?thesis using assms same_accounts_end [of h "fo_irp op" "fo_extra_information op" c n v c' n']
    by (auto simp: cl_event_def op_irp_def split: prod.splits if_splits)
qed (use assms in \<open>auto simp: cl_event_def op_irp_def split: prod.splits dest: same_accounts_nextD\<close>)

definition fast_logged :: "intake \<Rightarrow> bool" where
  "fast_logged s \<longleftrightarrow> (\<forall>reads. in_fast_read s = Some reads \<longrightarrow> fast_reads (in_counters s) = length reads)"

definition kept_bounded :: "nat \<Rightarrow> int \<Rightarrow> intake \<Rightarrow> bool" where
  "kept_bounded cap w s \<longleftrightarrow> (\<forall>m. in_early s = Some m \<longrightarrow> ek_inv m \<and> ek_cap m = cap) \<and>
     (\<forall>c. in_cleanups s = Some c \<longrightarrow> cl_bounded w c) \<and> fast_logged s"

lemma ek_cap_evict: "ek_cap (snd (ek_evict n m)) = ek_cap m"
  by (induction n m rule: ek_evict.induct) (auto simp: ek_evict.simps Let_def split: list.splits prod.splits)

lemma ek_cap_open [simp]: "ek_open key base rel m = (ev, m') \<Longrightarrow> ek_cap m' = ek_cap m"
  using ek_cap_evict [of 0] by (fastforce simp: ek_open_def ek_trim_def Let_def split_beta split: option.splits if_splits)

lemma ek_inv_close: "ek_inv m \<Longrightarrow> ek_inv (ek_close k m)"
  using ek_linked_delete [of m k] length_delete_le [of k "ek_names m"] by (simp add: ek_inv_def ek_close_def)

lemma intake_cleanups_facts:
  assumes "intake_cleanups h e s = (v, out, s')"
  shows "in_kernel s' = in_kernel s \<and> in_user s' = in_user s \<and> same_accounts (in_counters s) (in_counters s')"
    and "kept_bounded cap w s \<Longrightarrow> kept_bounded cap w s'"
proof -
  show "in_kernel s' = in_kernel s \<and> in_user s' = in_user s \<and> same_accounts (in_counters s) (in_counters s')"
  proof (cases "in_cleanups s")
    case None
    then show ?thesis using assms by (auto simp: intake_cleanups_def same_accounts_def split: raw_event.splits)
  next
    case (Some c)
    then show ?thesis using assms same_accounts_event [of h e c "in_counters s"]
      by (auto simp: intake_cleanups_def split: prod.splits)
  qed
  show "kept_bounded cap w s'" if "kept_bounded cap w s"
  proof (cases "in_cleanups s")
    case None
    then show ?thesis using assms that by (auto simp: intake_cleanups_def split: raw_event.splits)
  next
    case (Some c)
    obtain c' n' where e: "cl_event h e c (in_counters s) = (v, out, c', n')"
      and s': "s' = s\<lparr>in_cleanups := Some c', in_counters := n'\<rparr>"
      using assms Some by (auto simp: intake_cleanups_def split: prod.splits)
    have "cl_after h e c (in_counters s) = (c', n')" by (simp add: cl_after_def e)
    then have "cl_bounded w c'" using cl_bounded_event that Some by (auto simp: kept_bounded_def)
    then show ?thesis using that same_accounts_event [OF e] by (simp add: kept_bounded_def s' fast_logged_def)
  qed
qed

lemma open_early_facts:
  "in_kernel (open_early room op s) = in_kernel s \<and> in_user (open_early room op s) = in_user s \<and>
    same_accounts (in_counters s) (in_counters (open_early room op s))"
  "kept_bounded cap w s \<Longrightarrow> kept_bounded cap w (open_early room op s)"
proof -
  show "in_kernel (open_early room op s) = in_kernel s \<and> in_user (open_early room op s) = in_user s \<and>
    same_accounts (in_counters s) (in_counters (open_early room op s))"
    by (auto simp: open_early_def same_accounts_def set_early_keys_def ek_sizes_def Let_def split: option.splits prod.splits)
  assume k: "kept_bounded cap w s"
  show "kept_bounded cap w (open_early room op s)"
  proof (cases "in_early s")
    case (Some m)
    obtain ev m' where "ek_open (ro_key_object op) (ro_base_object op) (to_string_lossy (ro_relative_name op)) m = (ev, m')"
      by fastforce
    moreover from this have "ek_inv m'" "ek_cap m' = ek_cap m"
      using ek_open_outcome [of m] k Some by (auto simp: kept_bounded_def)
    ultimately show ?thesis using k Some
      by (simp add: open_early_def kept_bounded_def fast_logged_def set_early_keys_def ek_sizes_def Let_def)
  qed (use k in \<open>simp add: open_early_def\<close>)
qed

text \<open>The other two registry events, each as the state it leaves.\<close>

lemma registry_close:
  "intake_registry room h (RegCloseKey k) s = s \<or>
   (\<exists>m. in_early s = Some m \<and> intake_registry room h (RegCloseKey k) s =
      s\<lparr>in_early := Some (ek_close (rk_key_object k) m),
        in_counters := set_early_keys (ek_sizes room (ek_close (rk_key_object k) m)) (in_counters s)\<rparr>)"
  by (auto simp: intake_registry_def Let_def split: option.splits)

lemma registry_set_value:
  "intake_registry room h (RegSetValue v) s = s \<or>
   (\<exists>reads r. in_fast_read s = Some reads \<and> intake_registry room h (RegSetValue v) s =
      s\<lparr>in_counters := (in_counters s)\<lparr>fast_reads := fast_reads (in_counters s) + 1\<rparr>, in_fast_read := Some (reads @ [r])\<rparr>)"
  by (auto simp: intake_registry_def split: option.splits)

lemma intake_registry_facts:
  "in_kernel (intake_registry room h e s) = in_kernel s \<and> in_user (intake_registry room h e s) = in_user s \<and>
    same_accounts (in_counters s) (in_counters (intake_registry room h e s)) \<and>
    (kept_bounded cap w s \<longrightarrow> kept_bounded cap w (intake_registry room h e s))"
proof (cases e)
  case (RegCreateKey op)
  then show ?thesis using open_early_facts(1) [of room op s] open_early_facts(2) [of cap w s room op] by (simp add: intake_registry_def)
next
  case (RegOpenKey op)
  then show ?thesis using open_early_facts(1) [of room op s] open_early_facts(2) [of cap w s room op] by (simp add: intake_registry_def)
next
  case (RegCloseKey k)
  then show ?thesis using registry_close [of room h k s]
    by (auto simp: same_accounts_def set_early_keys_def ek_sizes_def kept_bounded_def fast_logged_def ek_inv_close)
      (simp_all add: ek_close_def)
next
  case (RegSetValue v)
  then show ?thesis using registry_set_value [of room h v s]
    by (auto simp: same_accounts_def kept_bounded_def fast_logged_def)
qed (simp_all add: intake_registry_def)

section \<open>Sending and the callback\<close>

text \<open>Both queues' accounts, for what was offered so far.\<close>

definition accounts :: "nat \<Rightarrow> nat \<Rightarrow> intake \<Rightarrow> event list \<Rightarrow> event list \<Rightarrow> event list \<Rightarrow> bool" where
  "accounts kc uc s gk gu off \<longleftrightarrow>
     account kc (in_kernel s) gk (filter (\<lambda>x. \<not> is_dns x) off) (kernel_queue_drops (in_counters s)) \<and>
     account uc (in_user s) gu (filter is_dns off)
       (dns_rate_limit_drops (in_counters s) + user_queue_drops (in_counters s))"

lemma accounts_same:
  "accounts kc uc s gk gu off \<Longrightarrow> in_kernel s' = in_kernel s \<Longrightarrow> in_user s' = in_user s \<Longrightarrow>
    same_accounts (in_counters s) (in_counters s') \<Longrightarrow> accounts kc uc s' gk gu off"
  by (simp add: accounts_def same_accounts_def)

text \<open>What a send does not touch.\<close>

definition sent_fields :: "intake \<Rightarrow> intake \<Rightarrow> bool" where
  "sent_fields s s' \<longleftrightarrow> in_early s' = in_early s \<and> in_cleanups s' = in_cleanups s \<and> in_fast_read s' = in_fast_read s \<and>
     fast_reads (in_counters s') = fast_reads (in_counters s) \<and> parse_errors (in_counters s') = parse_errors (in_counters s) \<and>
     unknown_version (in_counters s') = unknown_version (in_counters s) \<and>
     op_end_discarded (in_counters s') = op_end_discarded (in_counters s)"

lemma kept_sent: "sent_fields s s' \<Longrightarrow> kept_bounded cap w s \<Longrightarrow> kept_bounded cap w s'"
  by (simp add: sent_fields_def kept_bounded_def fast_logged_def)

lemma intake_send_kernel:
  assumes "\<not> is_dns x"
  shows "intake_send x s =
    (let (r, q) = try_send x (in_kernel s); n = in_counters s in
     if is_full r then s\<lparr>in_kernel := q, in_counters := n\<lparr>kernel_queue_drops := kernel_queue_drops n + 1\<rparr>\<rparr>
     else s\<lparr>in_kernel := q\<rparr>)"
  using assms by (cases "inc_event x") (simp_all add: intake_send_def is_dns_def Let_def split_beta)

lemma intake_send_user:
  assumes "is_dns x"
  shows "intake_send x s =
    (let (ok, b) = bk_take (hpid (inc_header x)) (hts (inc_header x)) (in_dns s);
         (r, q) = try_send x (in_user s); n = in_counters s in
     if \<not> ok then s\<lparr>in_dns := b, in_counters := n\<lparr>dns_rate_limit_drops := dns_rate_limit_drops n + 1\<rparr>\<rparr>
     else if is_full r then s\<lparr>in_dns := b, in_user := q, in_counters := n\<lparr>user_queue_drops := user_queue_drops n + 1\<rparr>\<rparr>
     else s\<lparr>in_dns := b, in_user := q\<rparr>)"
  using assms by (cases "inc_event x") (simp_all add: intake_send_def is_dns_def Let_def split_beta)

lemma intake_send_facts:
  assumes "accounts kc uc s gk gu off"
  shows "accounts kc uc (intake_send x s) gk gu (off @ [x]) \<and> sent_fields s (intake_send x s)"
proof (cases "is_dns x")
  case False
  have a: "account kc (in_kernel s) gk (filter (\<lambda>x. \<not> is_dns x) off) (kernel_queue_drops (in_counters s))"
    using assms by (simp add: accounts_def)
  then have q: "queue_ok kc (in_kernel s)" by (simp add: account_def)
  show ?thesis
  proof (cases "length (qchan (in_kernel s)) \<ge> kc")
    case True
    then show ?thesis using account_dropped [OF a, of x] assms False
      by (simp add: intake_send_kernel try_send_ok [OF q] is_full_def accounts_def sent_fields_def Let_def)
  next
    case f: False
    then show ?thesis using account_queued [OF a, of x] assms False
      by (simp add: intake_send_kernel try_send_ok [OF q] is_full_def accounts_def sent_fields_def Let_def)
  qed
next
  case True
  have a: "account uc (in_user s) gu (filter is_dns off) (dns_rate_limit_drops (in_counters s) + user_queue_drops (in_counters s))"
    using assms by (simp add: accounts_def)
  then have q: "queue_ok uc (in_user s)" by (simp add: account_def)
  obtain ok b where tk: "bk_take (hpid (inc_header x)) (hts (inc_header x)) (in_dns s) = (ok, b)" by fastforce
  show ?thesis
  proof (cases "ok \<and> length (qchan (in_user s)) < uc")
    case t: True
    then show ?thesis using account_queued [OF a, of x] assms True
      by (simp add: intake_send_user try_send_ok [OF q] is_full_def accounts_def sent_fields_def Let_def tk)
  next
    case f: False
    then show ?thesis using account_dropped [OF a, of x] assms True
      by (cases ok) (simp_all add: intake_send_user try_send_ok [OF q] is_full_def accounts_def sent_fields_def Let_def tk)
  qed
qed

text \<open>Where a delivered event goes.\<close>

definition uncounted :: "intake_counters \<Rightarrow> nat" where
  "uncounted n = parse_errors n + unknown_version n + op_end_discarded n"

lemma on_event_facts:
  assumes a: "accounts kc uc s gk gu off" and k: "kept_bounded cap w s"
  shows "accounts kc uc (on_event room h p s) gk gu (off @ offers h p s)"
    and "kept_bounded cap w (on_event room h p s)"
    and "length (offers h p s) + uncounted (in_counters (on_event room h p s)) =
      uncounted (in_counters s) + of_bool (p \<noteq> Inl parse_error.UnknownEvent) + (length (offers h p s) - 1)"
proof -
  let ?s' = "on_event room h p s"
  have "accounts kc uc ?s' gk gu (off @ offers h p s) \<and> kept_bounded cap w ?s' \<and>
    length (offers h p s) + uncounted (in_counters ?s') =
      uncounted (in_counters s) + of_bool (p \<noteq> Inl parse_error.UnknownEvent) + (length (offers h p s) - 1)"
  proof (cases p)
    case (Inl x)
    then show ?thesis using a k
      by (cases x) (simp_all add: on_event_def offers_def accounts_def kept_bounded_def fast_logged_def uncounted_def Let_def)
  next
    case (Inr e)
    obtain v out s1 where c: "intake_cleanups h e s = (v, out, s1)" by (metis prod_cases3)
    note f = intake_cleanups_facts [OF c]
    have a1: "accounts kc uc s1 gk gu off" using accounts_same [OF a] f(1) by blast
    have k1: "kept_bounded cap w s1" by (rule f(2) [OF k])
    have u1: "uncounted (in_counters s1) = uncounted (in_counters s)"
      using f(1) by (simp add: uncounted_def same_accounts_def)
    show ?thesis
    proof (cases "v = Discard")
      case True
      then show ?thesis using a1 k1 u1 Inr c
        by (simp add: on_event_def offers_def accounts_def kept_bounded_def fast_logged_def uncounted_def)
    next
      case False
      define s2 where "s2 = intake_registry room h e s1"
      note g = intake_registry_facts [of room h e s1 cap w, folded s2_def]
      have a2: "accounts kc uc s2 gk gu off" using accounts_same [OF a1] g by blast
      have k2: "kept_bounded cap w s2" using g k1 by blast
      have u2: "uncounted (in_counters s2) = uncounted (in_counters s)"
        using g u1 by (simp add: uncounted_def same_accounts_def)
      define s3 where "s3 = intake_send \<lparr>inc_header = h, inc_event = e\<rparr> s2"
      note a3 = intake_send_facts [OF a2, of "\<lparr>inc_header = h, inc_event = e\<rparr>", folded s3_def]
      then have k3: "kept_bounded cap w s3" and u3: "uncounted (in_counters s3) = uncounted (in_counters s)"
        using kept_sent [OF _ k2] u2 by (auto simp: sent_fields_def uncounted_def)
      show ?thesis
      proof (cases out)
        case None
        then show ?thesis using False Inr c a3 k3 u3
          by (simp add: on_event_def offers_def resent_def s2_def [symmetric] s3_def [symmetric])
      next
        case (Some hop)
        obtain h' op where hop: "hop = (h', op)" by fastforce
        define s4 where "s4 = intake_send \<lparr>inc_header = h', inc_event = FileOpEnd op\<rparr> s3"
        note a4 = intake_send_facts [OF conjunct1 [OF a3], of "\<lparr>inc_header = h', inc_event = FileOpEnd op\<rparr>", folded s4_def]
        then have "kept_bounded cap w s4" and "uncounted (in_counters s4) = uncounted (in_counters s)"
          using kept_sent [OF _ k3] u3 by (auto simp: sent_fields_def uncounted_def)
        then show ?thesis using False Inr c a4 Some hop
          by (simp add: on_event_def offers_def resent_def s2_def [symmetric] s3_def [symmetric] s4_def [symmetric])
      qed
    qed
  qed
  then show "accounts kc uc ?s' gk gu (off @ offers h p s)" "kept_bounded cap w ?s'"
    "length (offers h p s) + uncounted (in_counters ?s') =
      uncounted (in_counters s) + of_bool (p \<noteq> Inl parse_error.UnknownEvent) + (length (offers h p s) - 1)"
    by blast+
qed

section \<open>Properties\<close>

definition trace_inv :: "nat \<Rightarrow> nat \<Rightarrow> nat \<Rightarrow> int \<Rightarrow> nat \<Rightarrow> intake_trace \<Rightarrow> bool" where
  "trace_inv kc uc cap w delivered tr \<longleftrightarrow>
     accounts kc uc (tr_intake tr) (tr_kernel tr) (tr_user tr) (tr_offered tr) \<and> kept_bounded cap w (tr_intake tr) \<and>
     length (tr_offered tr) + uncounted (in_counters (tr_intake tr)) = delivered + tr_resent tr"

lemma trace_inv_step:
  assumes "trace_inv kc uc cap w d tr"
  shows "trace_inv kc uc cap w (d + of_bool (to_account l)) (trace_step room l tr)"
proof (cases l)
  case (Delivered h p)
  have a: "accounts kc uc (tr_intake tr) (tr_kernel tr) (tr_user tr) (tr_offered tr)"
    and k: "kept_bounded cap w (tr_intake tr)" using assms by (simp_all add: trace_inv_def)
  show ?thesis using assms on_event_facts [OF a k, where room = room and h = h and p = p]
    by (simp add: Delivered trace_inv_def to_account_def)
next
  case Kernel_taken
  obtain m q where t: "try_recv (in_kernel (tr_intake tr)) = (m, q)" by fastforce
  show ?thesis using assms account_taken [OF _ t]
    by (simp add: Kernel_taken t trace_inv_def accounts_def kept_bounded_def fast_logged_def to_account_def)
next
  case User_taken
  obtain m q where t: "try_recv (in_user (tr_intake tr)) = (m, q)" by fastforce
  show ?thesis using assms account_taken [OF _ t]
    by (simp add: User_taken t trace_inv_def accounts_def kept_bounded_def fast_logged_def to_account_def)
qed

lemma trace_inv_run:
  "trace_inv kc uc cap w d tr \<Longrightarrow> trace_inv kc uc cap w (d + length (filter to_account ls)) (trace_run room ls tr)"
proof (induction ls arbitrary: d tr)
  case (Cons l ls)
  show ?case using Cons.IH [OF trace_inv_step [OF Cons.prems, of l room]]
    by (cases "to_account l") (simp_all add: trace_run_def)
qed (simp add: trace_run_def)

definition intake_start :: "session \<Rightarrow> agent_config \<Rightarrow> ticks \<Rightarrow> nat \<Rightarrow> nat \<Rightarrow> bool \<Rightarrow> nat list \<Rightarrow> intake_trace" where
  "intake_start session cfg t kc uc fast self_keys =
     trace_new (intake_new session cfg t \<lparr>q_kernel = bounded kc 0, q_user = bounded uc 0\<rparr> intake_counters_zero
       (if fast then Some [] else None) self_keys)"

lemma trace_inv_start:
  assumes "early_key_map_cap cfg \<le> U64_MAX"
  shows "trace_inv (max kc 1) (max uc 1) (early_key_map_cap cfg) (cl_window (cl_new t)) 0
    (intake_start session cfg t kc uc fast self_keys)"
  using assms ek_inv_new [of "early_key_map_cap cfg"] cl_bounded_new [of t]
  by (auto simp: trace_inv_def intake_start_def trace_new_def intake_new_def accounts_def account_def queue_ok_def
      bounded_def kept_bounded_def fast_logged_def uncounted_def intake_counters_zero_def ek_new_def)

text \<open>The delivered events, and those of them that no parser knows.\<close>

definition is_delivered :: "intake_label \<Rightarrow> bool" where
  "is_delivered l = (case l of Delivered _ _ \<Rightarrow> True | _ \<Rightarrow> False)"

definition is_unknown :: "intake_label \<Rightarrow> bool" where
  "is_unknown l = (case l of Delivered _ p \<Rightarrow> p = Inl parse_error.UnknownEvent | _ \<Rightarrow> False)"

lemma to_account_unknown:
  "length (filter to_account ls) + length (filter is_unknown ls) = length (filter is_delivered ls)"
  by (induction ls) (auto simp: to_account_def is_delivered_def is_unknown_def split: intake_label.splits)

text \<open>C37: where the delivered events go. While both queues have their receivers, whatever is delivered
  to the callback, and whenever the pipeline takes from the queues: what the pipeline took from a
  queue and what still waits there are, in order, what was offered to it less the drops counted for
  it. What was offered, the parse failures, the unknown versions, the OperationEnds discarded and the
  events of no known kind, which the callback ignores without a counter, add up to the events
  delivered and the outcomes sent again: no event of a known kind is lost uncounted. The queues, the
  early key map, the Cleanups and the count of fast reads are within their bounds.\<close>

theorem intake_accounts:
  assumes "early_key_map_cap cfg \<le> U64_MAX"
    and "tr = trace_run room ls (intake_start session cfg t kc uc fast self_keys)"
    and "i = tr_intake tr" and "n = in_counters i"
  shows "subseq (tr_kernel tr @ qchan (in_kernel i)) (filter (\<lambda>x. \<not> is_dns x) (tr_offered tr)) \<and>
    length (tr_kernel tr @ qchan (in_kernel i)) + kernel_queue_drops n =
      length (filter (\<lambda>x. \<not> is_dns x) (tr_offered tr)) \<and>
    subseq (tr_user tr @ qchan (in_user i)) (filter is_dns (tr_offered tr)) \<and>
    length (tr_user tr @ qchan (in_user i)) + dns_rate_limit_drops n + user_queue_drops n =
      length (filter is_dns (tr_offered tr)) \<and>
    length (tr_offered tr) + parse_errors n + unknown_version n + op_end_discarded n + length (filter is_unknown ls) =
      length (filter is_delivered ls) + tr_resent tr \<and>
    length (qchan (in_kernel i)) \<le> max kc 1 \<and> length (qchan (in_user i)) \<le> max uc 1 \<and>
    (\<forall>m. in_early i = Some m \<longrightarrow> ek_len m \<le> early_key_map_cap cfg) \<and>
    (\<forall>c. in_cleanups i = Some c \<longrightarrow> cl_bounded (cl_window (cl_new t)) c) \<and>
    (\<forall>reads. in_fast_read i = Some reads \<longrightarrow> fast_reads n = length reads)"
proof -
  have "trace_inv (max kc 1) (max uc 1) (early_key_map_cap cfg) (cl_window (cl_new t)) (length (filter to_account ls)) tr"
    using trace_inv_run [OF trace_inv_start [OF assms(1)], where room = room and ls = ls] assms(2) by simp
  then have a: "accounts (max kc 1) (max uc 1) i (tr_kernel tr) (tr_user tr) (tr_offered tr)"
    and k: "kept_bounded (early_key_map_cap cfg) (cl_window (cl_new t)) i"
    and u: "length (tr_offered tr) + uncounted n = length (filter to_account ls) + tr_resent tr"
    using assms(3,4) by (simp_all add: trace_inv_def)
  show ?thesis using a k u assms(4) to_account_unknown [of ls]
    by (auto simp: accounts_def account_def queue_ok_def kept_bounded_def ek_inv_def ek_len_def fast_logged_def uncounted_def)
qed

text \<open>With one place in the kernel queue: a truncated payload, an event of no known kind, a key close
  that is taken, another that waits and a third that is dropped.\<close>

definition demo_close :: raw_event where
  "demo_close = RegCloseKey \<lparr>rk_key_object = 1, rk_status = 0, rk_key_name = []\<rparr>"

definition demo_labels_intake :: "intake_label list" where
  "demo_labels_intake =
     [Delivered (demo_at 1) (Inl (Truncated ''PID'' 2)), Delivered (demo_at 2) (Inl parse_error.UnknownEvent),
      Delivered (demo_at 3) (Inr demo_close), Kernel_taken,
      Delivered (demo_at 4) (Inr demo_close), Delivered (demo_at 5) (Inr demo_close)]"

definition demo_trace :: intake_trace where
  "demo_trace = trace_run ek_len demo_labels_intake
     (intake_start ProcessSession (agent_config_default\<lparr>agent_config.file_op_end := False\<rparr>) \<lparr>frequency = 10\<rparr> 1 1 False [])"

lemma demo_trace_eval:
  "length (tr_kernel demo_trace) = 1 \<and> length (qchan (in_kernel (tr_intake demo_trace))) = 1 \<and>
   kernel_queue_drops (in_counters (tr_intake demo_trace)) = 1 \<and> parse_errors (in_counters (tr_intake demo_trace)) = 1 \<and>
   length (tr_offered demo_trace) = 3"
  by (simp add: demo_trace_def trace_run_def demo_labels_intake_def intake_start_def trace_new_def intake_new_def
      on_event_def offers_def intake_cleanups_def intake_registry_def intake_send_def demo_close_def resent_def
      bounded_def try_send_def try_recv_def is_full_def intake_counters_zero_def Let_def)

theorem intake_accounts_witness:
  "length (tr_kernel demo_trace) = 1 \<and> kernel_queue_drops (in_counters (tr_intake demo_trace)) = 1 \<and>
   parse_errors (in_counters (tr_intake demo_trace)) = 1 \<and>
   subseq (tr_kernel demo_trace @ qchan (in_kernel (tr_intake demo_trace)))
     (filter (\<lambda>x. \<not> is_dns x) (tr_offered demo_trace))"
proof -
  have cap: "early_key_map_cap (agent_config_default\<lparr>agent_config.file_op_end := False\<rparr>) \<le> U64_MAX"
    by (simp add: agent_config_default_def)
  from intake_accounts [OF cap demo_trace_def refl refl] demo_trace_eval show ?thesis by blast
qed

end
