(* ===== verification/Ew_Dns.thy ===== *)
theory Ew_Dns
  imports Ew_Text Buf_Fs
begin

text \<open>
  The answers of a DNS query (\<open>crates/atlas-etw/src/parse/dns.rs\<close>): entries separated by semicolons, an
  address or a record of a type each. The standard library's parsers of integers and IP addresses
  are modelled as far as \<open>parse::<u16>\<close> and \<open>parse::<IpAddr>\<close> use them.
\<close>

section \<open>Strings\<close>

abbreviation chars :: "string \<Rightarrow> scalar list" where
  "chars s \<equiv> map of_char s"

definition is_white :: "scalar \<Rightarrow> bool" where
  "is_white c \<longleftrightarrow> (9 \<le> c \<and> c \<le> 13) \<or> (0x2000 \<le> c \<and> c \<le> 0x200A) \<or>
     c \<in> {0x20, 0x85, 0xA0, 0x1680, 0x2028, 0x2029, 0x202F, 0x205F, 0x3000}"

definition trim_start :: "scalar list \<Rightarrow> scalar list" where
  "trim_start = dropWhile is_white"

definition trim :: "scalar list \<Rightarrow> scalar list" where
  "trim s = rev (dropWhile is_white (rev (trim_start s)))"

fun split_on :: "'a \<Rightarrow> 'a list \<Rightarrow> 'a list list" where
  "split_on sep [] = [[]]"
| "split_on sep (c # cs) =
     (if c = sep then [] # split_on sep cs
      else case split_on sep cs of p # ps \<Rightarrow> (c # p) # ps | [] \<Rightarrow> [[c]])"

definition split_once :: "'a \<Rightarrow> 'a list \<Rightarrow> ('a list \<times> 'a list) option" where
  "split_once sep cs = (case dropWhile (\<lambda>c. c \<noteq> sep) cs of
     [] \<Rightarrow> None
   | _ # rest \<Rightarrow> Some (takeWhile (\<lambda>c. c \<noteq> sep) cs, rest))"

definition strip_prefix :: "'a list \<Rightarrow> 'a list \<Rightarrow> 'a list option" where
  "strip_prefix p s = (if take (length p) s = p then Some (drop (length p) s) else None)"

section \<open>Integers\<close>

fun to_digit :: "nat \<Rightarrow> scalar \<Rightarrow> nat option" where
  "to_digit radix c =
     (let d = (if 48 \<le> c \<and> c \<le> 57 then c - 48
               else if 97 \<le> c \<and> c \<le> 122 then c - 87
               else if 65 \<le> c \<and> c \<le> 90 then c - 55 else 36)
      in if d < radix then Some d else None)"

declare to_digit.simps [simp del]

fun u16_digits :: "nat \<Rightarrow> scalar list \<Rightarrow> nat option" where
  "u16_digits acc [] = Some acc"
| "u16_digits acc (c # cs) = (case to_digit 10 c of
     None \<Rightarrow> None
   | Some d \<Rightarrow> if acc * 10 + d \<le> 65535 then u16_digits (acc * 10 + d) cs else None)"

definition parse_u16 :: "scalar list \<Rightarrow> nat option" where
  "parse_u16 s =
     (let ds = (case s of c # rest \<Rightarrow> if c = 43 then rest else s | [] \<Rightarrow> s)
      in if ds = [] then None else u16_digits 0 ds)"

section \<open>IP addresses\<close>

text \<open>The parser's state is what is left of the text; a failed read leaves it as it was.\<close>

definition given_char :: "scalar \<Rightarrow> scalar list \<Rightarrow> scalar list option" where
  "given_char c s = (case s of x # r \<Rightarrow> if x = c then Some r else None | [] \<Rightarrow> None)"

fun number_loop :: "nat \<Rightarrow> nat \<Rightarrow> nat \<Rightarrow> nat \<Rightarrow> nat \<Rightarrow> scalar list \<Rightarrow> (nat \<times> nat \<times> scalar list) option" where
  "number_loop radix bound max_digits acc count [] = Some (acc, count, [])"
| "number_loop radix bound max_digits acc count (c # cs) = (case to_digit radix c of
     None \<Rightarrow> Some (acc, count, c # cs)
   | Some d \<Rightarrow>
       if acc * radix + d > bound \<or> count + 1 > max_digits then None
       else number_loop radix bound max_digits (acc * radix + d) (count + 1) cs)"

definition read_number :: "nat \<Rightarrow> nat \<Rightarrow> nat \<Rightarrow> bool \<Rightarrow> scalar list \<Rightarrow> (nat \<times> scalar list) option" where
  "read_number radix bound max_digits zero_prefix s =
     (let leading_zero = (case s of c # _ \<Rightarrow> c = 48 | [] \<Rightarrow> False)
      in case number_loop radix bound max_digits 0 0 s of
        None \<Rightarrow> None
      | Some (v, count, rest) \<Rightarrow>
          if count = 0 \<or> (\<not> zero_prefix \<and> leading_zero \<and> count > 1) then None else Some (v, rest))"

definition separated :: "scalar \<Rightarrow> nat \<Rightarrow> (scalar list \<Rightarrow> ('a \<times> scalar list) option) \<Rightarrow> scalar list \<Rightarrow>
    ('a \<times> scalar list) option" where
  "separated sep i p s = (if i > 0 then Option.bind (given_char sep s) p else p s)"

definition read_ipv4 :: "scalar list \<Rightarrow> (nat list \<times> scalar list) option" where
  "read_ipv4 s =
     (let octet = read_number 10 255 3 False in
      Option.bind (separated 46 0 octet s) (\<lambda>(a, s).
      Option.bind (separated 46 1 octet s) (\<lambda>(b, s).
      Option.bind (separated 46 2 octet s) (\<lambda>(c, s).
      Option.bind (separated 46 3 octet s) (\<lambda>(d, s). Some ([a, b, c, d], s))))))"

text \<open>\<open>read_groups\<close>: \<open>k\<close> groups are still to read, the first of them at index \<open>i\<close>.\<close>

primrec read_groups :: "nat \<Rightarrow> nat \<Rightarrow> scalar list \<Rightarrow> nat list \<times> bool \<times> scalar list" where
  "read_groups 0 i s = ([], False, s)"
| "read_groups (Suc k) i s =
     (case (if k > 0 then separated 58 i read_ipv4 s else None) of
        Some (o4, rest) \<Rightarrow> ([o4 ! 0 * 256 + o4 ! 1, o4 ! 2 * 256 + o4 ! 3], True, rest)
      | None \<Rightarrow>
          (case separated 58 i (read_number 16 65535 4 True) s of
             Some (g, rest) \<Rightarrow> (case read_groups k (Suc i) rest of (gs, v4, rest) \<Rightarrow> (g # gs, v4, rest))
           | None \<Rightarrow> ([], False, s)))"

definition read_ipv6 :: "scalar list \<Rightarrow> (nat list \<times> scalar list) option" where
  "read_ipv6 s = (case read_groups 8 0 s of (head, head_v4, rest) \<Rightarrow>
     if length head = 8 then Some (head, rest)
     else if head_v4 then None
     else Option.bind (given_char 58 rest) (\<lambda>rest. Option.bind (given_char 58 rest) (\<lambda>rest.
       case read_groups (8 - (length head + 1)) 0 rest of (tail, _, rest) \<Rightarrow>
         Some (head @ replicate (8 - length head - length tail) 0 @ tail, rest))))"

definition parse_ip :: "scalar list \<Rightarrow> ip_address option" where
  "parse_ip s =
     (case (case read_ipv4 s of
        Some (os, rest) \<Rightarrow> Some (IpV4 (map of_nat os), rest)
      | None \<Rightarrow> (case read_ipv6 s of
          Some (gs, rest) \<Rightarrow> Some (IpV6 (concat (map (\<lambda>g. [of_nat (g div 256), of_nat (g mod 256)]) gs)), rest)
        | None \<Rightarrow> None)) of
      Some (ip, []) \<Rightarrow> Some ip
    | _ \<Rightarrow> None)"

section \<open>Answers\<close>

datatype query_answer = DnsAddress ip_address | DnsRecord nat rstr | DnsUnrecognized rstr

record query_answers =
  da_answers :: "query_answer list"
  da_truncated :: bool

definition DNS_MAX :: nat where "DNS_MAX = 64"

definition parse_entry :: "scalar list \<Rightarrow> query_answer" where
  "parse_entry entry = (case strip_prefix (chars ''type:'') entry of
     Some rest \<Rightarrow>
       (let rest = trim_start rest;
            (num, data) = (case split_once 32 rest of Some p \<Rightarrow> p | None \<Rightarrow> (rest, []))
        in case parse_u16 num of
          Some rtype \<Rightarrow> DnsRecord rtype (utf8 data)
        | None \<Rightarrow> DnsUnrecognized (utf8 entry))
   | None \<Rightarrow> (case parse_ip entry of
       Some ip \<Rightarrow> DnsAddress ip
     | None \<Rightarrow> DnsUnrecognized (utf8 entry)))"

fun collect_answers :: "scalar list list \<Rightarrow> query_answer list \<Rightarrow> query_answers" where
  "collect_answers [] out = \<lparr>da_answers = out, da_truncated = False\<rparr>"
| "collect_answers (e # es) out =
     (if length out = DNS_MAX then \<lparr>da_answers = out, da_truncated = True\<rparr>
      else collect_answers es (out @ [parse_entry e]))"

definition dns_entries :: "scalar list \<Rightarrow> scalar list list" where
  "dns_entries text = filter (\<lambda>e. e \<noteq> []) (map trim (split_on 59 text))"

definition parse_query_results :: "wstr \<Rightarrow> query_answers" where
  "parse_query_results units = collect_answers (dns_entries (lossy_scalars units)) []"

section \<open>At most 64 answers, one per entry\<close>

lemma collect_answers_eq:
  "length out \<le> DNS_MAX \<Longrightarrow> collect_answers es out =
    \<lparr>da_answers = out @ map parse_entry (take (DNS_MAX - length out) es), da_truncated = DNS_MAX - length out < length es\<rparr>"
proof (induction es arbitrary: out)
  case (Cons e es)
  show ?case
  proof (cases "length out = DNS_MAX")
    case False
    then have "DNS_MAX - length out = Suc (DNS_MAX - Suc (length out))" using Cons.prems by simp
    then show ?thesis using Cons False by simp
  qed simp
qed simp

lemma parse_query_results_eq:
  "parse_query_results units =
    (let es = dns_entries (lossy_scalars units) in
     \<lparr>da_answers = map parse_entry (take 64 es), da_truncated = 64 < length es\<rparr>)"
  by (simp add: parse_query_results_def collect_answers_eq DNS_MAX_def Let_def)

section \<open>Numbers are read back\<close>

lemma digit_char_value: "d < 10 \<Longrightarrow> to_digit 10 (of_char (digit_char d)) = Some d"
  by (simp add: digit_char_def to_digit.simps)

definition digits_value :: "nat \<Rightarrow> scalar list \<Rightarrow> nat" where
  "digits_value = foldl (\<lambda>a c. a * 10 + the (to_digit 10 c))"

definition all_digits :: "scalar list \<Rightarrow> bool" where
  "all_digits = list_all (\<lambda>c. to_digit 10 c \<noteq> None)"

lemma digits_value_ge: "acc \<le> digits_value acc cs"
proof (induction cs arbitrary: acc)
  case (Cons c cs)
  have "acc \<le> acc * 10 + the (to_digit 10 c)" by simp
  also have "\<dots> \<le> digits_value (acc * 10 + the (to_digit 10 c)) cs" by (rule Cons)
  finally show ?case by (simp add: digits_value_def)
qed (simp add: digits_value_def)

lemma u16_digits_value:
  "all_digits cs \<Longrightarrow> digits_value acc cs \<le> 65535 \<Longrightarrow> u16_digits acc cs = Some (digits_value acc cs)"
proof (induction cs arbitrary: acc)
  case (Cons c cs)
  then obtain d where d: "to_digit 10 c = Some d" by (auto simp: all_digits_def)
  have "acc * 10 + d \<le> digits_value (acc * 10 + d) cs" by (rule digits_value_ge)
  then show ?case using Cons d by (simp add: all_digits_def digits_value_def)
qed (simp add: digits_value_def)

lemma number_loop_value:
  assumes "all_digits cs" "digits_value acc cs \<le> bound" "count + length cs \<le> max_digits"
    "rest = [] \<or> to_digit 10 (hd rest) = None"
  shows "number_loop 10 bound max_digits acc count (cs @ rest) = Some (digits_value acc cs, count + length cs, rest)"
  using assms(1-3)
proof (induction cs arbitrary: acc count)
  case Nil
  then show ?case using assms(4) by (cases rest) (auto simp: digits_value_def)
next
  case (Cons c cs)
  then obtain d where d: "to_digit 10 c = Some d" by (auto simp: all_digits_def)
  have "acc * 10 + d \<le> digits_value (acc * 10 + d) cs" by (rule digits_value_ge)
  then show ?case using Cons d by (simp add: all_digits_def digits_value_def)
qed

lemma dec_digits: "all_digits (chars (dec_string n)) \<and> digits_value 0 (chars (dec_string n)) = n"
proof (induction n rule: dec_string.induct)
  case (1 n)
  show ?case
  proof (cases "n < 10")
    case True
    then show ?thesis
      by (subst (1 2) dec_string.simps) (simp add: all_digits_def digits_value_def digit_char_value)
  next
    case False
    have "dec_string n = dec_string (n div 10) @ [digit_char (n mod 10)]"
      using False by (subst dec_string.simps) simp
    then show ?thesis
      using 1 False by (simp add: all_digits_def digits_value_def digit_char_value)
  qed
qed

lemma dec_nonempty [simp]: "dec_string n \<noteq> []"
  by (subst dec_string.simps) simp

lemma dec_no_leading_zero: "1 < length (dec_string n) \<Longrightarrow> hd (dec_string n) \<noteq> CHR ''0''"
proof (induction n rule: dec_string.induct)
  case (1 n)
  have big: "\<not> n < 10" using 1(2) by (subst (asm) dec_string.simps) (auto split: if_splits)
  then have eq: "dec_string n = dec_string (n div 10) @ [digit_char (n mod 10)]"
    by (subst dec_string.simps) simp
  show ?case
  proof (cases "n div 10 < 10")
    case True
    then have one: "dec_string (n div 10) = [digit_char (n div 10)]" by (subst dec_string.simps) simp
    have "of_char (digit_char (n div 10)) \<noteq> (48 :: nat)" using big True by (simp add: digit_char_def)
    then have "digit_char (n div 10) \<noteq> CHR ''0''" by auto
    then show ?thesis by (simp add: eq one)
  next
    case False
    then have "dec_string (n div 10) = dec_string (n div 10 div 10) @ [digit_char (n div 10 mod 10)]"
      by (subst dec_string.simps) simp
    then have "1 < length (dec_string (n div 10))" by simp
    then show ?thesis using 1(1) [OF big] by (simp add: eq)
  qed
qed

lemma parse_u16_dec: "n \<le> 65535 \<Longrightarrow> parse_u16 (chars (dec_string n)) = Some n"
proof -
  assume n: "n \<le> 65535"
  obtain c cs where c: "dec_string n = c # cs" by (meson dec_nonempty neq_Nil_conv)
  have "to_digit 10 (of_char c) \<noteq> None" using dec_digits [of n] by (simp add: c all_digits_def)
  then have "of_char c \<noteq> (43 :: nat)" by (auto simp: to_digit.simps)
  then show ?thesis
    using u16_digits_value [of "chars (dec_string n)" 0] dec_digits [of n] n
    by (simp add: parse_u16_def c)
qed

lemma dec_length: "n < 10 ^ Suc k \<Longrightarrow> length (dec_string n) \<le> Suc k"
  using dec_string_fixed [of n k] by blast

lemma read_octet:
  assumes "a \<le> 255" "rest = [] \<or> to_digit 10 (hd rest) = None"
  shows "read_number 10 255 3 False (chars (dec_string a) @ rest) = Some (a, rest)"
proof -
  let ?s = "dec_string a"
  have len: "length ?s \<le> 3" using dec_length [of a 2] assms(1) by simp
  have "number_loop 10 255 3 0 0 (chars ?s @ rest) = Some (a, length ?s, rest)"
    using number_loop_value [of "chars ?s" 0 255 0 3 rest] dec_digits [of a] assms len by simp
  moreover obtain c cs where c: "?s = c # cs" by (meson dec_nonempty neq_Nil_conv)
  moreover have "of_char c = (48 :: nat) \<longrightarrow> cs = []"
  proof
    assume "of_char c = (48 :: nat)"
    then have "of_char c = (of_char (CHR ''0'') :: nat)" by simp
    then have "c = CHR ''0''" by (simp only: of_char_eq_iff)
    then show "cs = []" using dec_no_leading_zero [of a] c by (cases cs) auto
  qed
  ultimately show ?thesis by (auto simp: read_number_def)
qed

definition ipv4_text :: "nat list \<Rightarrow> scalar list" where
  "ipv4_text os = concat (map (\<lambda>i. (if i = 0 then [] else [46]) @ chars (dec_string (os ! i))) [0, 1, 2, 3])"

lemma dot_no_digit: "to_digit 10 46 = None"
  by (simp add: to_digit.simps)

lemma parse_ipv4:
  assumes "length os = 4" "list_all (\<lambda>n. n \<le> 255) os"
  shows "parse_ip (ipv4_text os) = Some (IpV4 (map of_nat os))"
proof -
  obtain a b c d where os: "os = [a, b, c, d]"
    using assms(1) by (auto simp: numeral_eq_Suc length_Suc_conv)
  note octets = read_octet [of a] read_octet [of b] read_octet [of c] read_octet [of d]
  have "read_ipv4 (ipv4_text os) = Some ([a, b, c, d], [])"
    using octets (4) [of "[]"] assms(2)
    by (simp add: read_ipv4_def ipv4_text_def os separated_def given_char_def octets(1-3) dot_no_digit)
  then show ?thesis by (simp add: parse_ip_def os)
qed

section \<open>Answers are read back\<close>

lemma split_on_entries:
  "list_all (\<lambda>e. sep \<notin> set e) es \<Longrightarrow> split_on sep (concat (map (\<lambda>e. e @ [sep]) es)) = es @ [[]]"
proof (induction es)
  case (Cons e es)
  have "split_on sep (e @ sep # r) = e # split_on sep r" if "sep \<notin> set e" for r
    using that by (induction e) auto
  then show ?case using Cons by simp
qed simp

lemma trim_id: "e \<noteq> [] \<Longrightarrow> \<not> is_white (hd e) \<Longrightarrow> \<not> is_white (List.last e) \<Longrightarrow> trim e = e"
  using dropWhile_eq_self_iff [of is_white e] dropWhile_eq_self_iff [of is_white "rev e"]
  by (simp add: trim_def trim_start_def hd_rev)

text \<open>What DNS-Client logs: IPv4 addresses, and records with their type and data.\<close>

datatype logged = Logged_address "nat list" | Logged_record nat "scalar list"

primrec logged_text :: "logged \<Rightarrow> scalar list" where
  "logged_text (Logged_address os) = ipv4_text os"
| "logged_text (Logged_record t data) = chars ''type: '' @ chars (dec_string t) @ 32 # data"

primrec logged_ok :: "logged \<Rightarrow> bool" where
  "logged_ok (Logged_address os) \<longleftrightarrow> length os = 4 \<and> list_all (\<lambda>n. n \<le> 255) os"
| "logged_ok (Logged_record t data) \<longleftrightarrow> t \<le> 65535 \<and> data \<noteq> [] \<and> 59 \<notin> set data \<and>
     list_all is_scalar data \<and> \<not> is_white (List.last data)"

primrec logged_answer :: "logged \<Rightarrow> query_answer" where
  "logged_answer (Logged_address os) = DnsAddress (IpV4 (map of_nat os))"
| "logged_answer (Logged_record t data) = DnsRecord t (utf8 data)"

lemma digit_range: "to_digit 10 c \<noteq> None \<Longrightarrow> 48 \<le> c \<and> c \<le> 57"
  by (auto simp: to_digit.simps Let_def split: if_splits)

lemma dec_chars: "c \<in> set (chars (dec_string n)) \<Longrightarrow> 48 \<le> c \<and> c \<le> 57"
  using dec_digits [of n] by (intro digit_range) (auto simp: all_digits_def list_all_iff)

lemma dec_char_range: "x \<in> set (dec_string n) \<Longrightarrow> 46 \<le> (of_char x :: nat) \<and> of_char x \<le> (57 :: nat)"
  using dec_chars [of "of_char x" n] by simp

lemma ipv4_chars: "c \<in> set (ipv4_text os) \<Longrightarrow> 46 \<le> c \<and> c \<le> 57"
  using dec_char_range by (auto simp: ipv4_text_def intro: le_trans)

lemma split_once_eq: "sep \<notin> set xs \<Longrightarrow> split_once sep (xs @ sep # ys) = Some (xs, ys)"
  by (induction xs) (auto simp: split_once_def split: list.splits if_splits)

lemma ipv4_hd: "ipv4_text os \<noteq> [] \<and> 46 \<le> hd (ipv4_text os) \<and> hd (ipv4_text os) \<le> 57 \<and>
    46 \<le> List.last (ipv4_text os) \<and> List.last (ipv4_text os) \<le> 57"
proof -
  have "ipv4_text os \<noteq> []" by (simp add: ipv4_text_def)
  then show ?thesis
    using ipv4_chars [of "hd (ipv4_text os)" os] ipv4_chars [of "List.last (ipv4_text os)" os] by simp
qed

lemma parse_entry_logged: "logged_ok a \<Longrightarrow> parse_entry (logged_text a) = logged_answer a"
proof (cases a)
  case (Logged_address os)
  assume ok: "logged_ok a"
  have "strip_prefix (chars ''type:'') (ipv4_text os) = None"
    using ipv4_hd [of os] by (cases "ipv4_text os") (auto simp: strip_prefix_def)
  then show ?thesis
    using ok parse_ipv4 [of os] by (simp add: Logged_address parse_entry_def)
next
  case (Logged_record t data)
  assume ok: "logged_ok a"
  have strip: "strip_prefix (chars ''type:'') (logged_text a) = Some (32 # chars (dec_string t) @ 32 # data)"
    by (simp add: Logged_record strip_prefix_def)
  obtain c cs where c: "chars (dec_string t) = c # cs" by (cases "chars (dec_string t)") auto
  have "48 \<le> c \<and> c \<le> 57" using dec_chars [of c t] by (simp add: c)
  then have "trim_start (32 # chars (dec_string t) @ 32 # data) = chars (dec_string t) @ 32 # data"
    by (simp add: c trim_start_def is_white_def)
  moreover have "32 \<notin> set (chars (dec_string t))" using dec_chars [of 32 t] by auto
  ultimately show ?thesis
    using ok parse_u16_dec [of t]
    unfolding parse_entry_def strip option.case Let_def by (simp add: split_once_eq ok Logged_record)
qed

lemma logged_text_trim:
  assumes "logged_ok a"
  shows "trim (logged_text a) = logged_text a \<and> logged_text a \<noteq> [] \<and> 59 \<notin> set (logged_text a) \<and>
    list_all is_scalar (logged_text a)"
proof (cases a)
  case (Logged_address os)
  have "trim (ipv4_text os) = ipv4_text os"
    using ipv4_hd [of os] by (intro trim_id) (auto simp: is_white_def)
  then show ?thesis
    using ipv4_hd [of os] ipv4_chars [of _ os] by (fastforce simp: Logged_address list_all_iff is_scalar_def)
next
  case (Logged_record t data)
  have "59 \<notin> set (chars (dec_string t))" using dec_chars [of 59 t] by auto
  moreover have "list_all is_scalar (chars (dec_string t))"
    using dec_chars [of _ t] by (fastforce simp: list_all_iff is_scalar_def)
  moreover have "trim (logged_text a) = logged_text a"
    using assms by (intro trim_id) (auto simp: Logged_record is_white_def)
  ultimately show ?thesis
    using assms by (simp add: Logged_record is_scalar_def)
qed

definition results_text :: "logged list \<Rightarrow> scalar list" where
  "results_text ls = concat (map (\<lambda>a. logged_text a @ [59]) ls)"

text \<open>C29: the answers of a DNS query are read as they were logged. For addresses in dotted form and
  records of any type with any data that is not blank at its end and has no semicolon, the result
  holds an address or a record for each of the first 64, in order, and says truncated exactly when
  there were more.\<close>

theorem dns_answers_read_back:
  assumes "list_all logged_ok ls"
  shows "parse_query_results (wstr_of (results_text ls)) =
    \<lparr>da_answers = map logged_answer (take 64 ls), da_truncated = 64 < length ls\<rparr>"
proof -
  have ok: "logged_ok a" if "a \<in> set ls" for a using assms that by (simp add: list_all_iff)
  have "list_all is_scalar (results_text ls)"
    using logged_text_trim ok by (auto simp: results_text_def list_all_iff is_scalar_def)
  then have decoded: "lossy_scalars (wstr_of (results_text ls)) = results_text ls"
    by (rule lossy_wstr_of)
  have "split_on 59 (results_text ls) = map logged_text ls @ [[]]"
    using split_on_entries [of 59 "map logged_text ls"] logged_text_trim ok
    by (simp add: results_text_def list_all_iff comp_def)
  moreover have "trim [] = []" by (simp add: trim_def trim_start_def)
  moreover have "map trim (map logged_text ls) = map logged_text ls"
    using logged_text_trim ok by (simp add: map_idI)
  ultimately have "dns_entries (results_text ls) = map logged_text ls"
    using logged_text_trim ok by (auto simp: dns_entries_def)
  then show ?thesis
    using parse_entry_logged ok
    by (auto simp: parse_query_results_eq decoded Let_def take_map dest!: in_set_takeD)
qed

theorem dns_answers_read_back_witness:
  "parse_query_results (wstr_of (results_text [Logged_record 5 (chars ''e1.net''), Logged_address [23, 62, 177, 155]])) =
    \<lparr>da_answers = [DnsRecord 5 (utf8 (chars ''e1.net'')), DnsAddress (IpV4 [23, 62, 177, 155])], da_truncated = False\<rparr>"
  using dns_answers_read_back [of "[Logged_record 5 (chars ''e1.net''), Logged_address [23, 62, 177, 155]]"]
  by (simp add: is_scalar_def is_white_def)

text \<open>Addresses as logged, and what is not one.\<close>

lemma ipv6_as_logged:
  "parse_ip (chars ''2606:4700::6810:179a'') =
     Some (IpV6 [0x26, 0x06, 0x47, 0, 0, 0, 0, 0, 0, 0, 0, 0, 0x68, 0x10, 0x17, 0x9a])"
  "parse_ip (chars ''::ffff:172.66.157.237'') =
     Some (IpV6 [0, 0, 0, 0, 0, 0, 0, 0, 0, 0, 0xff, 0xff, 172, 66, 157, 237])"
  "parse_ip (chars ''1.2.3.04'') = None" "parse_ip (chars ''not-an-address'') = None"
  by code_simp+

end
