(* ===== verification/Ag_Paths.thy ===== *)
theory Ag_Paths
  imports Ag_KeyMap Ag_Process Ew_Dns "HOL-Library.Sublist"
begin

text \<open>
  Path normalisation (\<open>crates/atlas-agent/src/paths.rs\<close>). A \<open>str\<close> is the list of its UTF-8 bytes, so
  the splits at \<open>'.'\<close>, \<open>'~'\<close>, \<open>':'\<close> and \<open>'\'\<close> are splits at those bytes; \<open>chars().count()\<close> counts the
  bytes that start a character. Facts: \<open>is_short_name\<close> is the pattern its comment gives, but for an
  extension measured in bytes; every spelling of a key of the current control set has one name, and
  normalising is idempotent; the parts cut off a path are the volume in front and the stream behind.
\<close>

section \<open>The functions\<close>

definition path_fit :: "rstr \<Rightarrow> nat \<Rightarrow> rstr" where
  "path_fit s max_bytes = (case truncate_utf8 s max_bytes of (_, False) \<Rightarrow> s | (t, True) \<Rightarrow> t)"

definition strip_prefix_ci :: "rstr \<Rightarrow> rstr \<Rightarrow> rstr option" where
  "strip_prefix_ci s pre = (if starts_with_ci s pre then Some (drop (length pre) s) else None)"

text \<open>\<open>{n:03}\<close>: decimal, at least three digits.\<close>

definition decimal3 :: "nat \<Rightarrow> rstr" where
  "decimal3 n = (let s = map of_char (dec_string n) in replicate (3 - length s) 48 @ s)"

definition REGISTRY_MACHINE :: rstr where
  "REGISTRY_MACHINE = [92, 82, 69, 71, 73, 83, 84, 82, 89, 92, 77, 65, 67, 72, 73, 78, 69]"

definition REGISTRY_USER :: rstr where
  "REGISTRY_USER = [92, 82, 69, 71, 73, 83, 84, 82, 89, 92, 85, 83, 69, 82]"

definition CONTROL_SET :: rstr where
  "CONTROL_SET = [92, 83, 89, 83, 84, 69, 77, 92, 67, 111, 110, 116, 114, 111, 108, 83, 101, 116]"

definition CURRENT_CONTROL_SET :: rstr where
  "CURRENT_CONTROL_SET = [92, 83, 89, 83, 84, 69, 77, 92, 67, 117, 114, 114, 101, 110, 116,
     67, 111, 110, 116, 114, 111, 108, 83, 101, 116]"

definition HKLM :: rstr where "HKLM = [72, 75, 76, 77]"
definition HKU :: rstr where "HKU = [72, 75, 85]"
definition DEVICE_PREFIX :: rstr where "DEVICE_PREFIX = [92, 68, 101, 118, 105, 99, 101, 92]"

text \<open>Empty, or at the start of a component.\<close>

definition at_component :: "rstr \<Rightarrow> bool" where
  "at_component s = (s = [] \<or> hd s = 92)"

definition registry_path :: "rstr \<Rightarrow> nat \<Rightarrow> rstr" where
  "registry_path nt current_control_set =
     (case (case strip_prefix_ci nt REGISTRY_MACHINE of
              Some r \<Rightarrow> Some (HKLM, r)
            | None \<Rightarrow> (case strip_prefix_ci nt REGISTRY_USER of Some r \<Rightarrow> Some (HKU, r) | None \<Rightarrow> None)) of
        None \<Rightarrow> nt
      | Some (root, rest) \<Rightarrow>
          if \<not> at_component rest then nt
          else
            (let current = CONTROL_SET @ decimal3 current_control_set
             in case strip_prefix_ci rest current of
                  Some tail' \<Rightarrow>
                    if root = HKLM \<and> at_component tail' then root @ CURRENT_CONTROL_SET @ tail' else root @ rest
                | None \<Rightarrow> root @ rest))"

definition volume_relative :: "rstr \<Rightarrow> rstr" where
  "volume_relative nt = (case strip_prefix_ci nt DEVICE_PREFIX of
     None \<Rightarrow> nt | Some rest \<Rightarrow> dropWhile (\<lambda>b. b \<noteq> 92) rest)"

definition strip_stream :: "rstr \<Rightarrow> rstr" where
  "strip_stream path =
     (let component = path_file_name path
      in take (length path - length component) path @ takeWhile (\<lambda>b. b \<noteq> 58) component)"

definition chars_count :: "rstr \<Rightarrow> nat" where
  "chars_count s = length (filter (\<lambda>b. unat b div 64 \<noteq> 2) s)"

definition is_short_name :: "rstr \<Rightarrow> bool" where
  "is_short_name component =
     (let (base, ext) = (case split_once 46 component of Some (b, e) \<Rightarrow> (b, Some e) | None \<Rightarrow> (component, None))
      in if is_some_and ext (\<lambda>e. length e > 3 \<or> 46 \<in> set e) then False
         else (case split_once 126 base of
                 None \<Rightarrow> False
               | Some (stem, digits) \<Rightarrow>
                   1 \<le> chars_count stem \<and> chars_count stem \<le> 6 \<and> 46 \<notin> set stem \<and> 126 \<notin> set stem \<and>
                   digits \<noteq> [] \<and> list_all (\<lambda>b. 48 \<le> b \<and> b \<le> 57) digits))"

definition has_short_name :: "rstr \<Rightarrow> bool" where
  "has_short_name path = list_ex is_short_name (split_on 92 path)"

section \<open>ASCII in UTF-8\<close>

text \<open>An ASCII byte of a string is that character; every other character has bytes above.\<close>

lemma scalar_bound: "is_scalar c \<Longrightarrow> c < 0x110000"
  by (auto simp: is_scalar_def)

lemma utf8_ascii: "c < 128 \<Longrightarrow> utf8_encode c = [of_nat c]"
  by (simp add: utf8_encode_def)

lemma high_byte: "128 \<le> n \<Longrightarrow> n < 256 \<Longrightarrow> 128 \<le> unat (of_nat n :: byte)"
  by (simp add: unat_of_nat)

lemma continuation: "k < 64 \<Longrightarrow> unat (of_nat (0x80 + k) :: byte) = 128 + k"
  by (simp add: unat_of_nat del: of_nat_add)

lemma utf8_wide:
  assumes "is_scalar c" "128 \<le> c"
  shows "\<exists>b bs. utf8_encode c = b # bs \<and> 192 \<le> unat b \<and> (\<forall>x \<in> set bs. unat x div 64 = 2)"
proof -
  have cont: "unat (of_nat (0x80 + k mod 64) :: byte) div 64 = 2" for k
    using continuation [of "k mod 64"] by simp
  have lead: "192 \<le> unat (of_nat n :: byte)" if "192 \<le> n" "n < 256" for n
    using that by (simp add: unat_of_nat)
  show ?thesis
    using assms scalar_bound [OF assms(1)] unfolding utf8_encode_def
    by (auto intro!: lead simp: cont simp del: of_nat_add)
qed

lemma utf8_wide_bytes: "is_scalar c \<Longrightarrow> 128 \<le> c \<Longrightarrow> x \<in> set (utf8_encode c) \<Longrightarrow> 128 \<le> unat x"
  using utf8_wide [of c] by fastforce

lemma utf8_Nil [simp]: "utf8 [] = []"
  by (simp add: utf8_def)

lemma utf8_Cons: "utf8 (c # cs) = utf8_encode c @ utf8 cs"
  by (simp add: utf8_def)

lemma utf8_append: "utf8 (cs @ ds) = utf8 cs @ utf8 ds"
  by (simp add: utf8_def)

lemma ascii_unat: "a < 128 \<Longrightarrow> unat (of_nat a :: byte) = a"
  by (simp add: unat_of_nat)

lemma ascii_byte_eq: "a < 128 \<Longrightarrow> c < 128 \<Longrightarrow> (of_nat c :: byte) = of_nat a \<longleftrightarrow> c = a"
  using ascii_unat by metis

lemma utf8_encode_has:
  assumes "a < 128" "is_scalar c"
  shows "of_nat a \<in> set (utf8_encode c) \<longleftrightarrow> c = a"
proof (cases "c < 128")
  case True
  then show ?thesis using assms by (auto simp: utf8_ascii ascii_byte_eq)
next
  case False
  then have "of_nat a \<notin> set (utf8_encode c)" using utf8_wide_bytes [of c "of_nat a"] assms ascii_unat [of a] by auto
  then show ?thesis using False assms by auto
qed

lemma utf8_has: "a < 128 \<Longrightarrow> list_all is_scalar cs \<Longrightarrow> of_nat a \<in> set (utf8 cs) \<longleftrightarrow> a \<in> set cs"
  by (induction cs) (auto simp: utf8_Cons utf8_encode_has)

lemma split_once_simps [simp]:
  "split_once a [] = None"
  "split_once a (c # cs) = (if c = a then Some ([], cs) else map_option (\<lambda>(x, y). (c # x, y)) (split_once a cs))"
  by (simp_all add: split_once_def del: dropWhile_eq_Nil_conv split: list.split)

lemma split_once_after: "a \<notin> set xs \<Longrightarrow> split_once a (xs @ cs) = map_option (\<lambda>(x, y). (xs @ x, y)) (split_once a cs)"
  by (induction xs; cases "split_once a cs") auto

lemma split_once_utf8:
  assumes "a < 128" "list_all is_scalar cs"
  shows "split_once (of_nat a) (utf8 cs) = map_option (\<lambda>(x, y). (utf8 x, utf8 y)) (split_once a cs)"
  using assms(2)
proof (induction cs)
  case (Cons c cs)
  have c: "is_scalar c" using Cons.prems by simp
  show ?case
  proof (cases "c = a")
    case True
    then show ?thesis using assms(1) by (simp add: utf8_Cons utf8_ascii)
  next
    case False
    then have "of_nat a \<notin> set (utf8_encode c)" using utf8_encode_has [OF assms(1) c] by simp
    then show ?thesis using Cons False
      by (simp add: utf8_Cons split_once_after option.map_comp comp_def split_beta)
  qed
qed simp

lemma chars_count_utf8: "list_all is_scalar cs \<Longrightarrow> chars_count (utf8 cs) = length cs"
proof (induction cs)
  case (Cons c cs)
  have "length (filter (\<lambda>b. unat b div 64 \<noteq> 2) (utf8_encode c)) = 1"
  proof (cases "c < 128")
    case True
    then have "unat (of_nat c :: byte) div 64 < 2" by (simp add: ascii_unat)
    then show ?thesis using True by (simp add: utf8_ascii)
  next
    case False
    then obtain b bs where b: "utf8_encode c = b # bs" "192 \<le> unat b" "\<forall>x \<in> set bs. unat x div 64 = 2"
      using utf8_wide Cons.prems by fastforce
    have "unat b div 64 \<noteq> 2" using b(2) by linarith
    then show ?thesis using b by (simp add: filter_empty_conv)
  qed
  then show ?case using Cons by (simp add: chars_count_def utf8_Cons)
qed (simp add: chars_count_def)

definition all_ascii_digits :: "scalar list \<Rightarrow> bool" where
  "all_ascii_digits cs \<longleftrightarrow> list_all (\<lambda>c. 48 \<le> c \<and> c \<le> 57) cs"

lemma digits_utf8:
  assumes "list_all is_scalar cs"
  shows "list_all (\<lambda>b. 48 \<le> b \<and> b \<le> 57) (utf8 cs) \<longleftrightarrow> all_ascii_digits cs"
  using assms
proof (induction cs)
  case (Cons c cs)
  have "list_all (\<lambda>b. 48 \<le> b \<and> b \<le> 57) (utf8_encode c) \<longleftrightarrow> 48 \<le> c \<and> c \<le> 57"
  proof (cases "c < 128")
    case True
    then show ?thesis by (simp add: utf8_ascii word_le_nat_alt ascii_unat)
  next
    case False
    then obtain b bs where "utf8_encode c = b # bs" "192 \<le> unat b" using utf8_wide Cons.prems by fastforce
    then show ?thesis using False by (auto simp: word_le_nat_alt)
  qed
  then show ?case using Cons by (auto simp: utf8_Cons all_ascii_digits_def)
qed (simp add: all_ascii_digits_def)

section \<open>Short names\<close>

text \<open>The pattern \<open>[^.~]{1,6}~[0-9]+(\.[^.]{0,3})?\<close> of the comment, with the extension in bytes.\<close>

definition short_name_pattern :: "scalar list \<Rightarrow> bool" where
  "short_name_pattern cs \<longleftrightarrow> (\<exists>stem digits ext. cs = stem @ 126 # digits @ ext \<and>
     1 \<le> length stem \<and> length stem \<le> 6 \<and> 46 \<notin> set stem \<and> 126 \<notin> set stem \<and>
     digits \<noteq> [] \<and> all_ascii_digits digits \<and>
     (ext = [] \<or> (\<exists>e. ext = 46 # e \<and> length (utf8 e) \<le> 3 \<and> 46 \<notin> set e)))"

lemma split_once_Some: "split_once a cs = Some (x, y) \<longleftrightarrow> cs = x @ a # y \<and> a \<notin> set x"
proof (induction cs arbitrary: x)
  case (Cons c cs)
  show ?case
  proof (cases "c = a")
    case True
    then show ?thesis by (cases x) auto
  next
    case False
    then have "split_once a (c # cs) = Some (x, y) \<longleftrightarrow> (\<exists>x'. x = c # x' \<and> split_once a cs = Some (x', y))" by auto
    also have "\<dots> \<longleftrightarrow> c # cs = x @ a # y \<and> a \<notin> set x" using False Cons.IH by (cases x) auto
    finally show ?thesis .
  qed
qed simp

lemma split_once_None: "split_once a cs = None \<longleftrightarrow> a \<notin> set cs"
  by (induction cs) auto

text \<open>The test on characters.\<close>

definition short_base :: "scalar list \<Rightarrow> bool" where
  "short_base b \<longleftrightarrow> (\<exists>stem digits. b = stem @ 126 # digits \<and> 1 \<le> length stem \<and> length stem \<le> 6 \<and>
     46 \<notin> set stem \<and> 126 \<notin> set stem \<and> digits \<noteq> [] \<and> all_ascii_digits digits)"

lemma short_base_utf8:
  assumes s: "list_all is_scalar b"
  shows "(case split_once 126 (utf8 b) of
      None \<Rightarrow> False
    | Some (stem, digits) \<Rightarrow>
        1 \<le> chars_count stem \<and> chars_count stem \<le> 6 \<and> 46 \<notin> set stem \<and> 126 \<notin> set stem \<and>
        digits \<noteq> [] \<and> list_all (\<lambda>b. 48 \<le> b \<and> b \<le> 57) digits) \<longleftrightarrow> short_base b"
proof (cases "split_once 126 b")
  case None
  then have n: "split_once 126 (utf8 b) = None" using split_once_utf8 [of 126 b] s by simp
  have "126 \<notin> set b" using None by (simp add: split_once_None)
  then have "\<not> short_base b" by (auto simp: short_base_def)
  then show ?thesis unfolding n by simp
next
  case (Some p)
  obtain x y where p: "p = (x, y)" by fastforce
  then have b: "b = x @ 126 # y" "126 \<notin> set x" using Some by (simp_all add: split_once_Some)
  have sx: "list_all is_scalar x" "list_all is_scalar y" using s b by simp_all
  have n: "utf8 y = [] \<longleftrightarrow> y = []"
    by (cases y) (auto simp: utf8_Cons utf8_encode_def)
  have h: "46 \<in> set (utf8 x) \<longleftrightarrow> 46 \<in> set x" "126 \<in> set (utf8 x) \<longleftrightarrow> 126 \<in> set x"
    using utf8_has [of 46 x] utf8_has [of 126 x] sx by simp_all
  have "split_once 126 (utf8 b) = Some (utf8 x, utf8 y)" using split_once_utf8 [of 126 b] s Some p by simp
  moreover have "short_base b \<longleftrightarrow> 1 \<le> length x \<and> length x \<le> 6 \<and> 46 \<notin> set x \<and> y \<noteq> [] \<and> all_ascii_digits y"
  proof
    assume "short_base b"
    then obtain x' y' where "b = x' @ 126 # y'" "126 \<notin> set x'" and r: "1 \<le> length x'" "length x' \<le> 6" "46 \<notin> set x'"
      "y' \<noteq> []" "all_ascii_digits y'" by (auto simp: short_base_def)
    then have "split_once 126 b = Some (x', y')" by (simp add: split_once_Some)
    then show "1 \<le> length x \<and> length x \<le> 6 \<and> 46 \<notin> set x \<and> y \<noteq> [] \<and> all_ascii_digits y" using Some p r by simp
  qed (use b in \<open>auto simp: short_base_def\<close>)
  ultimately show ?thesis using b h n chars_count_utf8 [OF sx(1)] digits_utf8 [OF sx(2)] by simp
qed

lemma short_name_utf8:
  assumes s: "list_all is_scalar cs"
  shows "is_short_name (utf8 cs) \<longleftrightarrow> short_name_pattern cs"
proof (cases "split_once 46 cs")
  case None
  then have n: "46 \<notin> set cs" and "split_once 46 (utf8 cs) = None"
    using split_once_utf8 [of 46 cs] s by (simp_all add: split_once_None)
  then have "is_short_name (utf8 cs) \<longleftrightarrow> short_base cs"
    using short_base_utf8 [OF s] by (simp add: is_short_name_def is_some_and_def Let_def)
  also have "\<dots> \<longleftrightarrow> short_name_pattern cs"
  proof
    assume "short_base cs"
    then obtain stem digits where "cs = stem @ 126 # digits @ []" "1 \<le> length stem" "length stem \<le> 6"
      "46 \<notin> set stem" "126 \<notin> set stem" "digits \<noteq> []" "all_ascii_digits digits" by (auto simp: short_base_def)
    then show "short_name_pattern cs" unfolding short_name_pattern_def by blast
  next
    assume "short_name_pattern cs"
    then obtain stem digits ext where d: "cs = stem @ 126 # digits @ ext" "1 \<le> length stem" "length stem \<le> 6"
      "46 \<notin> set stem" "126 \<notin> set stem" "digits \<noteq> []" "all_ascii_digits digits"
      "ext = [] \<or> (\<exists>e. ext = 46 # e)" unfolding short_name_pattern_def by blast
    then have "ext = []" using n by auto
    then show "short_base cs" using d(1-7) unfolding short_base_def by auto
  qed
  finally show ?thesis .
next
  case (Some p)
  obtain b e where p: "p = (b, e)" by fastforce
  then have cs: "cs = b @ 46 # e" "46 \<notin> set b" using Some by (simp_all add: split_once_Some)
  have sb: "list_all is_scalar b" "list_all is_scalar e" using s cs by simp_all
  have "split_once 46 (utf8 cs) = Some (utf8 b, utf8 e)" using split_once_utf8 [of 46 cs] s Some p by simp
  then have "is_short_name (utf8 cs) \<longleftrightarrow> short_base b \<and> length (utf8 e) \<le> 3 \<and> 46 \<notin> set e"
    using short_base_utf8 [OF sb(1)] utf8_has [of 46 e] sb(2)
    by (auto simp: is_short_name_def is_some_and_def Let_def)
  also have "\<dots> \<longleftrightarrow> short_name_pattern cs"
  proof
    assume "short_base b \<and> length (utf8 e) \<le> 3 \<and> 46 \<notin> set e"
    moreover from this obtain stem digits where "b = stem @ 126 # digits" "1 \<le> length stem" "length stem \<le> 6"
      "46 \<notin> set stem" "126 \<notin> set stem" "digits \<noteq> []" "all_ascii_digits digits" by (auto simp: short_base_def)
    moreover from this(1) have "cs = stem @ 126 # digits @ (46 # e)" using cs(1) by simp
    ultimately show "short_name_pattern cs" unfolding short_name_pattern_def by blast
  next
    assume "short_name_pattern cs"
    then obtain stem digits ext where d: "cs = stem @ 126 # digits @ ext" "1 \<le> length stem" "length stem \<le> 6"
      "46 \<notin> set stem" "126 \<notin> set stem" "digits \<noteq> []" "all_ascii_digits digits"
      "ext = [] \<or> (\<exists>e. ext = 46 # e \<and> length (utf8 e) \<le> 3 \<and> 46 \<notin> set e)"
      unfolding short_name_pattern_def by blast
    have nd: "46 \<notin> set digits" using d(7) by (auto simp: all_ascii_digits_def list_all_iff)
    have "46 \<in> set cs" using cs by simp
    then have "ext \<noteq> []" using d(1,4) nd by auto
        then obtain e' where e': "ext = 46 # e'" "length (utf8 e') \<le> 3" "46 \<notin> set e'" using d(8) by blast
    have "split_once 46 cs = Some (stem @ 126 # digits, e')"
      using d(1,4) nd e'(1) by (simp add: split_once_Some)
    then have "b = stem @ 126 # digits" "e = e'" using Some p by simp_all
    then show "short_base b \<and> length (utf8 e) \<le> 3 \<and> 46 \<notin> set e" using d e' by (auto simp: short_base_def)
  qed
  finally show ?thesis .
qed

section \<open>Registry names and volumes\<close>

lemma ascii_lower_inj92: "ascii_lower b = ascii_lower 92 \<Longrightarrow> b = 92"
  by (auto simp: ascii_lower_def word_le_nat_alt unat_arith_simps split: if_splits)

lemma starts_with_ci_append:
  assumes "map ascii_lower p = map ascii_lower pre" "at_component rest"
  shows "strip_prefix_ci (p @ rest) pre = Some rest"
proof -
  have l: "length p = length pre" using assms(1) by (metis length_map)
  have "char_boundary (p @ rest) (length pre)"
    using assms(2) l by (cases rest) (auto simp: at_component_def char_boundary_def nth_append)
  then show ?thesis using assms(1) l by (simp add: strip_prefix_ci_def starts_with_ci_def)
qed

text \<open>A name that does not start with a backslash has no such prefix.\<close>

lemma no_backslash_prefix: "hd s \<noteq> 92 \<Longrightarrow> strip_prefix_ci s (92 # p) = None"
  by (cases s) (auto simp: strip_prefix_ci_def starts_with_ci_def dest: ascii_lower_inj92)

lemma registry_path_cases:
  "registry_path nt n = nt \<or> (\<exists>r. registry_path nt n = 72 # r)"
  by (auto simp: registry_path_def HKLM_def HKU_def Let_def split: option.splits)

lemma registry_path_kept: "hd s \<noteq> 92 \<Longrightarrow> registry_path s n = s"
  by (simp add: registry_path_def REGISTRY_MACHINE_def REGISTRY_USER_def no_backslash_prefix)

lemma registry_path_machine:
  assumes "map ascii_lower p = map ascii_lower REGISTRY_MACHINE" "at_component rest"
  shows "registry_path (p @ rest) n =
    (case strip_prefix_ci rest (CONTROL_SET @ decimal3 n) of
       Some tail' \<Rightarrow> if at_component tail' then HKLM @ CURRENT_CONTROL_SET @ tail' else HKLM @ rest
     | None \<Rightarrow> HKLM @ rest)"
  using assms by (simp add: registry_path_def starts_with_ci_append Let_def split: option.splits)

text \<open>What is cut off a path.\<close>

lemma volume_relative_suffix: "suffix (volume_relative nt) nt"
proof (cases "strip_prefix_ci nt DEVICE_PREFIX")
  case (Some rest)
  then have "suffix rest nt" by (auto simp: strip_prefix_ci_def suffix_drop split: if_splits)
  then show ?thesis using Some suffix_dropWhile suffix_order.trans by (fastforce simp: volume_relative_def)
qed (simp add: volume_relative_def)

text \<open>A path is what ends at its last backslash, then its last component.\<close>

lemma last_component:
  "\<exists>pre. path = pre @ path_file_name path \<and> (pre = [] \<or> List.last pre = 92) \<and> 92 \<notin> set (path_file_name path)"
proof -
  let ?r = "rev path"
  have "path = rev (dropWhile (\<lambda>b. b \<noteq> 92) ?r) @ path_file_name path"
    unfolding path_file_name_def by (metis rev_append rev_rev_ident takeWhile_dropWhile_id)
  moreover have "rev (dropWhile (\<lambda>b. b \<noteq> 92) ?r) = [] \<or> List.last (rev (dropWhile (\<lambda>b. b \<noteq> 92) ?r)) = 92"
    using hd_dropWhile [of "\<lambda>b. b \<noteq> 92" ?r] by (cases "dropWhile (\<lambda>b. b \<noteq> 92) ?r = []") (simp_all add: last_rev)
  moreover have "92 \<notin> set (path_file_name path)" by (auto simp: path_file_name_def dest: set_takeWhileD)
  ultimately show ?thesis by blast
qed

lemma path_file_name_append:
  assumes "pre = [] \<or> List.last pre = 92" "92 \<notin> set c"
  shows "path_file_name (pre @ c) = c"
proof -
  have c: "takeWhile (\<lambda>b. b \<noteq> 92) (rev c) = rev c" using assms(2) by (auto simp: takeWhile_eq_all_conv)
  show ?thesis
  proof (cases pre rule: rev_cases)
    case (snoc xs x)
    then have "x = 92" using assms(1) by simp
    then show ?thesis using assms(2) snoc by (simp add: path_file_name_def takeWhile_append)
  qed (simp add: path_file_name_def c)
qed

lemma strip_stream_prefix:
  "prefix (strip_stream path) path \<and> 58 \<notin> set (path_file_name (strip_stream path))"
proof -
  obtain pre where p: "path = pre @ path_file_name path" "pre = [] \<or> List.last pre = 92" "92 \<notin> set (path_file_name path)"
    using last_component by blast
  let ?c = "takeWhile (\<lambda>b. b \<noteq> 58) (path_file_name path)"
  have s: "strip_stream path = pre @ ?c" using p(1) unfolding strip_stream_def Let_def
    by (metis add_diff_cancel_right' append_eq_conv_conj length_append)
  have "92 \<notin> set ?c" using p(3) by (meson set_takeWhileD)
  then have "path_file_name (strip_stream path) = ?c" unfolding s by (rule path_file_name_append [OF p(2)])
  moreover have "prefix (pre @ ?c) (pre @ path_file_name path)" by (simp add: takeWhile_is_prefix)
  ultimately show ?thesis using p(1) s by (auto dest: set_takeWhileD)
qed

section \<open>Properties\<close>

text \<open>The code counts an extension's bytes (\<open>short_name_utf8\<close>), the comment's pattern its characters: a
  name with an extension of two of them is refused.\<close>

lemma short_extension_bytes: "\<not> is_short_name (utf8 [65, 126, 49, 46, 233, 233])"
  by code_simp

text \<open>C38: registry names. Normalising a name twice changes nothing; and however the kernel spells the
  hive and the control set in use, a key has the name it has under \<open>CurrentControlSet\<close>.\<close>

theorem registry_one_name:
  assumes "map ascii_lower p = map ascii_lower REGISTRY_MACHINE" "map ascii_lower q = map ascii_lower REGISTRY_MACHINE"
    and "map ascii_lower c = map ascii_lower (CONTROL_SET @ decimal3 n)" "at_component rest"
  shows "registry_path (registry_path nt n) n = registry_path nt n \<and>
    registry_path (p @ c @ rest) n = registry_path (q @ CURRENT_CONTROL_SET @ rest) n"
proof -
  have "registry_path (registry_path nt n) n = registry_path nt n"
    using registry_path_cases [of nt n] registry_path_kept by auto
  moreover have c: "at_component (c @ rest)"
    using assms(3) by (cases c) (auto simp: at_component_def CONTROL_SET_def dest: ascii_lower_inj92)
  have "strip_prefix_ci (CURRENT_CONTROL_SET @ rest) (CONTROL_SET @ decimal3 n) = None"
    by (auto simp: strip_prefix_ci_def starts_with_ci_def CURRENT_CONTROL_SET_def CONTROL_SET_def ascii_lower_def)
  then have "registry_path (q @ CURRENT_CONTROL_SET @ rest) n = HKLM @ CURRENT_CONTROL_SET @ rest"
    using registry_path_machine [OF assms(2), of "CURRENT_CONTROL_SET @ rest" n]
    by (simp add: at_component_def CURRENT_CONTROL_SET_def)
  moreover have "registry_path (p @ c @ rest) n = HKLM @ CURRENT_CONTROL_SET @ rest"
    using registry_path_machine [OF assms(1) c, of n] starts_with_ci_append [OF assms(3,4)] assms(4) by simp
  ultimately show ?thesis by simp
qed

theorem registry_one_name_witness:
  "registry_path (REGISTRY_MACHINE @ CONTROL_SET @ [48, 48, 49] @ [92, 115]) 1 =
   registry_path (map ascii_lower REGISTRY_MACHINE @ CURRENT_CONTROL_SET @ [92, 115]) 1"
proof -
  have "decimal3 1 = [48, 48, 49]" by code_simp
  moreover have "map ascii_lower (map ascii_lower REGISTRY_MACHINE) = map ascii_lower REGISTRY_MACHINE" by code_simp
  ultimately show ?thesis
    using registry_one_name [of REGISTRY_MACHINE "map ascii_lower REGISTRY_MACHINE" "CONTROL_SET @ [48, 48, 49]" 1 "[92, 115]"]
    by (simp add: at_component_def)
qed

end
