(* ===== verification/Ag_Watch.thy ===== *)
theory Ag_Watch
  imports Ag_Paths Ag_Time
begin

text \<open>
  The sensitive-path watchlist (\<open>crates/atlas-agent/src/watchlist.rs\<close>). The globs, their set and the
  substring automaton are other packages: a built set and a built automaton are what they answer, and
  building them are parameters. A pattern is read byte by byte: every character it gives a meaning is
  ASCII, and the bytes of another character are all literal or all wild.
\<close>

section \<open>The list\<close>

definition slashes :: "rstr \<Rightarrow> rstr" where
  "slashes s = map (\<lambda>b. if b = 92 then 47 else b) s"

definition backslashes :: "rstr \<Rightarrow> rstr" where
  "backslashes s = map (\<lambda>b. if b = 47 then 92 else b) s"

text \<open>The built-in patterns, written with slashes.\<close>

definition WATCH_DEFAULT :: "rstr list" where
  "WATCH_DEFAULT = map (\<lambda>p. backslashes (map of_char p))
    [''/Users/*/AppData/Local/**/User Data/*/Login Data'',
     ''/Users/*/AppData/Local/**/User Data/*/Cookies'',
     ''/Users/*/AppData/Local/**/User Data/*/Network/Cookies'',
     ''/Users/*/AppData/Local/**/User Data/Local State'',
     ''/Users/*/AppData/Roaming/Mozilla/Firefox/Profiles/*/logins.json'',
     ''/Users/*/AppData/Roaming/Mozilla/Firefox/Profiles/*/key4.db'',
     ''/Windows/System32/config/SAM'',
     ''/Windows/System32/config/SECURITY'',
     ''/Windows/System32/config/SYSTEM'',
     ''/Windows/System32/config/*.sav'',
     ''/Windows/System32/config/*.bak'',
     ''/Windows/NTDS/ntds.dit'',
     ''/Users/*/.ssh/*'',
     ''/Users/*/.aws/credentials'',
     ''/Users/*/.azure/**'',
     ''/Users/*/AppData/Roaming/gcloud/**'',
     ''**/*.kdbx'']"

record run_scan =
  rs_best :: rstr
  rs_start :: "nat option"
  rs_braces :: nat
  rs_class :: "nat option"

definition run_start :: run_scan where
  "run_start = \<lparr>rs_best = [], rs_start = None, rs_braces = 0, rs_class = None\<rparr>"

text \<open>Whether the byte at \<open>i\<close> is wild, and the scan's state after it. The bytes are those of
  \<open>! ^ ] [ { } * ?\<close>.\<close>

definition run_wild :: "nat \<Rightarrow> byte \<Rightarrow> run_scan \<Rightarrow> bool \<times> run_scan" where
  "run_wild i b s =
     (case rs_class s of
        Some m \<Rightarrow>
          if (b = 33 \<or> b = 94) \<and> i = m then (True, s\<lparr>rs_class := Some (i + 1)\<rparr>)
          else if b = 93 \<and> i > m then (True, s\<lparr>rs_class := None\<rparr>)
          else (True, s)
      | None \<Rightarrow>
          if b = 91 then (True, s\<lparr>rs_class := Some (i + 1)\<rparr>)
          else if b = 123 then (True, s\<lparr>rs_braces := rs_braces s + 1\<rparr>)
          else if b = 125 then (True, s\<lparr>rs_braces := rs_braces s - 1\<rparr>)
          else if b = 93 \<or> b = 42 \<or> b = 63 then (True, s)
          else (rs_braces s > 0, s))"

definition run_step :: "rstr \<Rightarrow> nat \<times> byte \<Rightarrow> run_scan \<Rightarrow> run_scan" where
  "run_step pat = (\<lambda>(i, b) s.
     case run_wild i b s of (wild, s) \<Rightarrow>
       (case (wild, rs_start s) of
          (True, Some k) \<Rightarrow> s\<lparr>rs_best := slice_of pat k i, rs_start := None\<rparr>
        | (False, None) \<Rightarrow> s\<lparr>rs_start := Some i\<rparr>
        | _ \<Rightarrow> s))"

definition last_literal_run :: "rstr \<Rightarrow> rstr" where
  "last_literal_run pat =
     (let s = fold (run_step pat) (enumerate 0 pat) run_start
      in case rs_start s of None \<Rightarrow> rs_best s | Some k \<Rightarrow> drop k pat)"

record watchlist =
  wl_set :: "rstr \<Rightarrow> bool"
  wl_must_contain :: "(rstr \<Rightarrow> bool) option"

record bad_pattern =
  bad_pattern :: rstr
  bad_error :: rstr

text \<open>The first pattern that does not compile ends the loop.\<close>

fun build_globs :: "(rstr \<Rightarrow> rstr + 'glob) \<Rightarrow> rstr list \<Rightarrow> bad_pattern + 'glob list" where
  "build_globs glob [] = Inr []"
| "build_globs glob (p # ps) = (case glob (slashes p) of
     Inl e \<Rightarrow> Inl \<lparr>bad_pattern = p, bad_error = e\<rparr>
   | Inr g \<Rightarrow> (case build_globs glob ps of Inl b \<Rightarrow> Inl b | Inr gs \<Rightarrow> Inr (g # gs)))"

definition watchlist_new :: "(rstr \<Rightarrow> rstr + 'glob) \<Rightarrow> ('glob list \<Rightarrow> rstr + (rstr \<Rightarrow> bool))
    \<Rightarrow> (rstr list \<Rightarrow> (rstr \<Rightarrow> bool) option) \<Rightarrow> rstr list option \<Rightarrow> rstr list \<Rightarrow> bad_pattern + watchlist" where
  "watchlist_new glob set_build automaton replace extra =
     (let base = (case replace of Some r \<Rightarrow> r | None \<Rightarrow> WATCH_DEFAULT);
          runs = map (\<lambda>p. last_literal_run (backslashes p)) (base @ extra);
          must_contain = (if list_all (\<lambda>r. r \<noteq> []) runs then automaton runs else None)
      in case build_globs glob (base @ extra) of
           Inl b \<Rightarrow> Inl b
         | Inr gs \<Rightarrow> (case set_build gs of
             Inl e \<Rightarrow> Inl \<lparr>bad_pattern = [], bad_error = e\<rparr>
           | Inr m \<Rightarrow> Inr \<lparr>wl_set = m, wl_must_contain = must_contain\<rparr>))"

definition watch_matches :: "watchlist \<Rightarrow> rstr \<Rightarrow> bool" where
  "watch_matches w nt_path =
     (let p = strip_stream (volume_relative nt_path)
      in if p = [] then False
         else if is_some_and (wl_must_contain w) (\<lambda>runs. \<not> runs p) then False
         else wl_set w (slashes p))"

end
