(* ===== verification/Sch_Classes.thy ===== *)
theory Sch_Classes
  imports Sch_Objects
begin

text \<open>
  The event classes and their conversions (\<open>crates/atlas-schema/src/classes/\<close>): process, file,
  module, network, DNS, event log, registry key and value. Each class has its domain and wire
  types, the two conversions in the order the code checks the fields, what a valid value is, and
  the interpretation that makes the pair an exact codec. In every class but Process and Event Log
  the activity is required before anything else, so a newer activity reads as missing.
\<close>

section \<open>Process activity\<close>

datatype process_activity = Launch process_ref process | Terminate process_ref "int option"

record w_process_launch =
  w_launch_actor :: "w_process_ref option"
  w_launch_process :: "w_process option"

record w_process_terminate =
  w_term_process :: "w_process_ref option"
  w_exit_code :: "int option"

datatype w_process_kind = WLaunch w_process_launch | WTerminate w_process_terminate

record w_process_activity =
  w_process_act :: "w_process_kind option"

definition process_activity_to_wire :: "process_activity \<Rightarrow> w_process_activity" where
  "process_activity_to_wire v = \<lparr>w_process_act = Some (case v of
     Launch a p \<Rightarrow> WLaunch \<lparr>w_launch_actor = Some (process_ref_to_wire a), w_launch_process = Some (process_to_wire p)\<rparr>
   | Terminate p e \<Rightarrow> WTerminate \<lparr>w_term_process = Some (process_ref_to_wire p), w_exit_code = e\<rparr>)\<rparr>"

definition process_activity_from_wire :: "w_process_activity \<Rightarrow> process_activity res" where
  "process_activity_from_wire w =
     bind (require (w_process_act w) [] ''activity'') (\<lambda>a. case a of
       WLaunch l \<Rightarrow>
         bind (process_ref_required (w_launch_actor l) [] ''actor.process'') (\<lambda>actor.
         bind (bind (require (w_launch_process l) [] ''process'') (\<lambda>p. process_from_wire p ''process'')) (\<lambda>p.
         Inr (Launch actor p)))
     | WTerminate t \<Rightarrow>
         bind (process_ref_required (w_term_process t) [] ''process'') (\<lambda>p. Inr (Terminate p (w_exit_code t))))"

definition process_activity_valid :: "process_activity \<Rightarrow> bool" where
  "process_activity_valid v = (case v of
     Launch a p \<Rightarrow> process_ref_valid a \<and> process_valid p | Terminate p e \<Rightarrow> process_ref_valid p)"

lemma process_activity_iff [codec_iff]:
  "process_activity_from_wire w = Inr d \<longleftrightarrow> process_activity_valid d \<and> w = process_activity_to_wire d"
proof -
  obtain a where w: "w = \<lparr>w_process_act = a\<rparr>" by (cases w) auto
  show ?thesis
    by (cases d; cases a)
      (auto simp: w process_activity_from_wire_def process_activity_valid_def process_activity_to_wire_def codec_iff
        split: w_process_kind.splits intro: w_process_launch.equality w_process_terminate.equality)
qed

interpretation process_activity_codec: exact_codec process_activity_to_wire process_activity_from_wire process_activity_valid
  by unfold_locales (rule process_activity_iff)

section \<open>File system activity\<close>

datatype file_action = FCreate | FRead | FUpdate | FDelete | FRename file_obj | FSetAttributes | FOpen

record file_activity =
  file_actor :: process_ref
  file_file :: file_obj
  file_act :: file_action

record w_file_rename =
  w_file_result :: "w_file option"

datatype w_file_kind = WFCreate | WFRead | WFUpdate | WFDelete | WFRename w_file_rename | WFSetAttributes | WFOpen

record w_file_activity =
  w_file_actor :: "w_process_ref option"
  w_file_file :: "w_file option"
  w_file_act :: "w_file_kind option"

definition file_activity_to_wire :: "file_activity \<Rightarrow> w_file_activity" where
  "file_activity_to_wire v = \<lparr>w_file_actor = Some (process_ref_to_wire (file_actor v)),
     w_file_file = Some (file_to_wire (file_file v)),
     w_file_act = Some (case file_act v of
       FCreate \<Rightarrow> WFCreate | FRead \<Rightarrow> WFRead | FUpdate \<Rightarrow> WFUpdate | FDelete \<Rightarrow> WFDelete
     | FRename r \<Rightarrow> WFRename \<lparr>w_file_result = Some (file_to_wire r)\<rparr>
     | FSetAttributes \<Rightarrow> WFSetAttributes | FOpen \<Rightarrow> WFOpen)\<rparr>"

definition file_activity_from_wire :: "w_file_activity \<Rightarrow> file_activity res" where
  "file_activity_from_wire w =
     bind (require (w_file_act w) [] ''activity'') (\<lambda>activity.
     bind (process_ref_required (w_file_actor w) [] ''actor.process'') (\<lambda>actor.
     bind (file_required (w_file_file w) [] ''file'') (\<lambda>f.
     bind (case activity of
         WFCreate \<Rightarrow> Inr FCreate | WFRead \<Rightarrow> Inr FRead | WFUpdate \<Rightarrow> Inr FUpdate | WFDelete \<Rightarrow> Inr FDelete
       | WFRename r \<Rightarrow> bind (file_required (w_file_result r) [] ''file_result'') (\<lambda>f. Inr (FRename f))
       | WFSetAttributes \<Rightarrow> Inr FSetAttributes | WFOpen \<Rightarrow> Inr FOpen) (\<lambda>act.
     Inr \<lparr>file_actor = actor, file_file = f, file_act = act\<rparr>))))"

definition file_activity_valid :: "file_activity \<Rightarrow> bool" where
  "file_activity_valid v \<longleftrightarrow> process_ref_valid (file_actor v) \<and> file_valid (file_file v) \<and>
     (case file_act v of FRename r \<Rightarrow> file_valid r | _ \<Rightarrow> True)"

lemma file_activity_iff [codec_iff]:
  "file_activity_from_wire w = Inr d \<longleftrightarrow> file_activity_valid d \<and> w = file_activity_to_wire d"
proof -
  obtain a f k where w: "w = \<lparr>w_file_actor = a, w_file_file = f, w_file_act = k\<rparr>" by (cases w) auto
  obtain a' f' k' where d: "d = \<lparr>file_actor = a', file_file = f', file_act = k'\<rparr>" by (cases d) auto
  show ?thesis
    by (cases k; cases k')
      (auto simp: w d file_activity_from_wire_def file_activity_valid_def file_activity_to_wire_def codec_iff
        split: w_file_kind.splits intro: w_file_rename.equality)
qed

interpretation file_activity_codec: exact_codec file_activity_to_wire file_activity_from_wire file_activity_valid
  by unfold_locales (rule file_activity_iff)

section \<open>Module activity\<close>

datatype module_action = Load file_obj u64

record module_activity =
  module_actor :: process_ref
  module_act :: module_action

record w_module_load =
  w_load_file :: "w_file option"
  w_base_address :: u64

datatype w_module_kind = WLoad w_module_load

record w_module_activity =
  w_module_actor :: "w_process_ref option"
  w_module_act :: "w_module_kind option"

definition module_activity_to_wire :: "module_activity \<Rightarrow> w_module_activity" where
  "module_activity_to_wire v = \<lparr>w_module_actor = Some (process_ref_to_wire (module_actor v)),
     w_module_act = Some (case module_act v of
       Load f b \<Rightarrow> WLoad \<lparr>w_load_file = Some (file_to_wire f), w_base_address = b\<rparr>)\<rparr>"

definition module_activity_from_wire :: "w_module_activity \<Rightarrow> module_activity res" where
  "module_activity_from_wire w =
     bind (require (w_module_act w) [] ''activity'') (\<lambda>activity.
     bind (process_ref_required (w_module_actor w) [] ''actor.process'') (\<lambda>actor.
     bind (case activity of WLoad l \<Rightarrow>
         bind (file_required (w_load_file l) [] ''module.file'') (\<lambda>f. Inr (Load f (w_base_address l)))) (\<lambda>act.
     Inr \<lparr>module_actor = actor, module_act = act\<rparr>)))"

definition module_activity_valid :: "module_activity \<Rightarrow> bool" where
  "module_activity_valid v \<longleftrightarrow> process_ref_valid (module_actor v) \<and> (case module_act v of Load f b \<Rightarrow> file_valid f)"

lemma module_activity_iff [codec_iff]:
  "module_activity_from_wire w = Inr d \<longleftrightarrow> module_activity_valid d \<and> w = module_activity_to_wire d"
proof -
  obtain a k where w: "w = \<lparr>w_module_actor = a, w_module_act = k\<rparr>" by (cases w) auto
  obtain a' k' where d: "d = \<lparr>module_actor = a', module_act = k'\<rparr>" by (cases d) auto
  show ?thesis
    by (cases k; cases k')
      (auto simp: w d module_activity_from_wire_def module_activity_valid_def module_activity_to_wire_def codec_iff
        split: w_module_kind.splits intro: w_module_load.equality)
qed

interpretation module_activity_codec: exact_codec module_activity_to_wire module_activity_from_wire module_activity_valid
  by unfold_locales (rule module_activity_iff)

section \<open>Network activity\<close>

datatype network_protocol = Tcp | Udp
datatype network_direction = Inbound | Outbound
datatype network_action = NOpen | NClose "u64 option" "u64 option"

record network_activity =
  net_actor :: process_ref
  src_endpoint :: network_endpoint
  dst_endpoint :: network_endpoint
  protocol :: network_protocol
  direction :: network_direction
  net_act :: network_action

datatype w_network_protocol = WProtocolUnspecified | WTcp | WUdp
datatype w_network_direction = WDirectionUnspecified | WInbound | WOutbound

record w_network_close =
  w_bytes_in :: "u64 option"
  w_bytes_out :: "u64 option"

datatype w_network_kind = WNOpen | WNClose w_network_close

record w_network_activity =
  w_net_actor :: "w_process_ref option"
  w_src_endpoint :: "w_network_endpoint option"
  w_dst_endpoint :: "w_network_endpoint option"
  w_protocol :: int
  w_direction :: int
  w_net_act :: "w_network_kind option"

primrec w_protocol_num :: "w_network_protocol \<Rightarrow> int" where
  "w_protocol_num WProtocolUnspecified = 0" | "w_protocol_num WTcp = 1" | "w_protocol_num WUdp = 2"

definition w_protocol_try :: "int \<Rightarrow> w_network_protocol option" where
  "w_protocol_try i = find (\<lambda>w. w_protocol_num w = i) [WProtocolUnspecified, WTcp, WUdp]"

primrec w_direction_num :: "w_network_direction \<Rightarrow> int" where
  "w_direction_num WDirectionUnspecified = 0" | "w_direction_num WInbound = 1" | "w_direction_num WOutbound = 2"

definition w_direction_try :: "int \<Rightarrow> w_network_direction option" where
  "w_direction_try i = find (\<lambda>w. w_direction_num w = i) [WDirectionUnspecified, WInbound, WOutbound]"

primrec protocol_of_wire :: "w_network_protocol \<Rightarrow> network_protocol option" where
  "protocol_of_wire WProtocolUnspecified = None" | "protocol_of_wire WTcp = Some Tcp" | "protocol_of_wire WUdp = Some Udp"

primrec direction_of_wire :: "w_network_direction \<Rightarrow> network_direction option" where
  "direction_of_wire WDirectionUnspecified = None" | "direction_of_wire WInbound = Some Inbound"
| "direction_of_wire WOutbound = Some Outbound"

definition network_activity_to_wire :: "network_activity \<Rightarrow> w_network_activity" where
  "network_activity_to_wire v = \<lparr>w_net_actor = Some (process_ref_to_wire (net_actor v)),
     w_src_endpoint = Some (endpoint_to_wire (src_endpoint v)), w_dst_endpoint = Some (endpoint_to_wire (dst_endpoint v)),
     w_protocol = w_protocol_num (case protocol v of Tcp \<Rightarrow> WTcp | Udp \<Rightarrow> WUdp),
     w_direction = w_direction_num (case direction v of Inbound \<Rightarrow> WInbound | Outbound \<Rightarrow> WOutbound),
     w_net_act = Some (case net_act v of NOpen \<Rightarrow> WNOpen
       | NClose i out \<Rightarrow> WNClose \<lparr>w_bytes_in = i, w_bytes_out = out\<rparr>)\<rparr>"

definition network_activity_from_wire :: "w_network_activity \<Rightarrow> network_activity res" where
  "network_activity_from_wire w =
     bind (require (w_net_act w) [] ''activity'') (\<lambda>activity.
     bind (process_ref_required (w_net_actor w) [] ''actor.process'') (\<lambda>actor.
     bind (endpoint_required (w_src_endpoint w) [] ''src_endpoint'') (\<lambda>src.
     bind (endpoint_required (w_dst_endpoint w) [] ''dst_endpoint'') (\<lambda>dst.
     bind (wire_enum w_protocol_try (w_protocol w) protocol_of_wire [] ''protocol'') (\<lambda>p.
     bind (wire_enum w_direction_try (w_direction w) direction_of_wire [] ''direction'') (\<lambda>d.
     Inr \<lparr>net_actor = actor, src_endpoint = src, dst_endpoint = dst, protocol = p, direction = d,
          net_act = (case activity of WNOpen \<Rightarrow> NOpen | WNClose c \<Rightarrow> NClose (w_bytes_in c) (w_bytes_out c))\<rparr>))))))"

definition network_activity_valid :: "network_activity \<Rightarrow> bool" where
  "network_activity_valid v \<longleftrightarrow> process_ref_valid (net_actor v) \<and>
     endpoint_valid (src_endpoint v) \<and> endpoint_valid (dst_endpoint v)"

lemma protocol_iff [codec_iff]:
  "(\<exists>w. w_protocol_try i = Some w \<and> protocol_of_wire w = Some d) \<longleftrightarrow>
     i = w_protocol_num (case d of Tcp \<Rightarrow> WTcp | Udp \<Rightarrow> WUdp)"
  by (cases d) (auto simp: w_protocol_try_def split: if_splits)

lemma direction_iff [codec_iff]:
  "(\<exists>w. w_direction_try i = Some w \<and> direction_of_wire w = Some d) \<longleftrightarrow>
     i = w_direction_num (case d of Inbound \<Rightarrow> WInbound | Outbound \<Rightarrow> WOutbound)"
  by (cases d) (auto simp: w_direction_try_def split: if_splits)

lemma network_kind_iff:
  "(case k of WNOpen \<Rightarrow> NOpen | WNClose c \<Rightarrow> NClose (w_bytes_in c) (w_bytes_out c)) = a \<longleftrightarrow>
     k = (case a of NOpen \<Rightarrow> WNOpen | NClose i out \<Rightarrow> WNClose \<lparr>w_bytes_in = i, w_bytes_out = out\<rparr>)"
  by (cases a; cases k) (auto intro: w_network_close.equality)

lemma network_activity_iff [codec_iff]:
  "network_activity_from_wire w = Inr d \<longleftrightarrow> network_activity_valid d \<and> w = network_activity_to_wire d"
proof -
  obtain a s t p r k where w: "w = \<lparr>w_net_actor = a, w_src_endpoint = s, w_dst_endpoint = t, w_protocol = p,
    w_direction = r, w_net_act = k\<rparr>" by (cases w) auto
  obtain a' s' t' p' r' k' where d: "d = \<lparr>net_actor = a', src_endpoint = s', dst_endpoint = t', protocol = p',
    direction = r', net_act = k'\<rparr>" by (cases d) auto
  show ?thesis
    by (auto simp: w d network_activity_from_wire_def network_activity_valid_def network_activity_to_wire_def
      codec_iff network_kind_iff)
qed

interpretation network_activity_codec: exact_codec network_activity_to_wire network_activity_from_wire network_activity_valid
  by unfold_locales (rule network_activity_iff)

end
