(* ===== verification/Sch_Records.thy ===== *)
theory Sch_Records
  imports Sch_Classes
begin

text \<open>
  The classes with list and byte payloads and their conversions: DNS (\<open>classes/dns.rs\<close>), event log
  (\<open>event_log.rs\<close>), registry key and value (\<open>registry.rs\<close>), again as exact codecs. An error in
  an answer carries its index.
\<close>

section \<open>DNS activity\<close>

record dns_answer =
  rr_type :: u16
  answer_data :: rstr

datatype dns_action = Response "u16 option" "u32 option" "dns_answer list"

record dns_activity =
  dns_actor :: process_ref
  hostname :: rstr
  query_type :: u16
  dns_act :: dns_action

record w_dns_answer =
  w_rr_type :: u32
  w_answer_data :: rstr

record w_dns_response =
  w_rcode :: "u32 option"
  w_platform_status :: "u32 option"
  w_answers :: "w_dns_answer list"

datatype w_dns_kind = WResponse w_dns_response

record w_dns_activity =
  w_dns_actor :: "w_process_ref option"
  w_hostname :: rstr
  w_query_type :: u32
  w_dns_act :: "w_dns_kind option"

definition answer_to_wire :: "dns_answer \<Rightarrow> w_dns_answer" where
  "answer_to_wire a = \<lparr>w_rr_type = ucast (rr_type a), w_answer_data = answer_data a\<rparr>"

definition dns_activity_to_wire :: "dns_activity \<Rightarrow> w_dns_activity" where
  "dns_activity_to_wire v = \<lparr>w_dns_actor = Some (process_ref_to_wire (dns_actor v)), w_hostname = hostname v,
     w_query_type = ucast (query_type v),
     w_dns_act = Some (case dns_act v of Response rcode ps answers \<Rightarrow>
       WResponse \<lparr>w_rcode = map_option ucast rcode, w_platform_status = ps,
         w_answers = map answer_to_wire answers\<rparr>)\<rparr>"

definition answer_path :: "nat \<Rightarrow> string" where
  "answer_path i = ''answers['' @ dec_string i @ '']''"

definition answer_from_wire :: "nat \<Rightarrow> w_dns_answer \<Rightarrow> dns_answer res" where
  "answer_from_wire i a =
     bind (u16_field (w_rr_type a) (answer_path i) ''type'') (\<lambda>t.
     bind (at_most (w_answer_data a) DNS_ANSWER_DATA_MAX (answer_path i) ''data'') (\<lambda>d.
     Inr \<lparr>rr_type = t, answer_data = d\<rparr>))"

text \<open>\<open>enumerate().map(..).collect::<Result<Vec<_>>>()\<close>: the first error, or all of them.\<close>

fun answers_from_wire :: "nat \<Rightarrow> w_dns_answer list \<Rightarrow> dns_answer list res" where
  "answers_from_wire i [] = Inr []"
| "answers_from_wire i (a # as) =
     bind (answer_from_wire i a) (\<lambda>x. bind (answers_from_wire (i + 1) as) (\<lambda>xs. Inr (x # xs)))"

definition dns_activity_from_wire :: "w_dns_activity \<Rightarrow> dns_activity res" where
  "dns_activity_from_wire w =
     bind (require (w_dns_act w) [] ''activity'') (\<lambda>activity.
     bind (process_ref_required (w_dns_actor w) [] ''actor.process'') (\<lambda>actor.
     bind (at_most (w_hostname w) DNS_HOSTNAME_MAX [] ''query.hostname'') (\<lambda>h.
     bind (u16_field (w_query_type w) [] ''query.type'') (\<lambda>q.
     bind (case activity of WResponse r \<Rightarrow>
         if length (w_answers r) > DNS_ANSWERS_MAX then err [] ''answers'' TooLarge
         else bind (opt_res (\<lambda>c. u16_field c [] ''rcode'') (w_rcode r)) (\<lambda>rcode.
              bind (answers_from_wire 0 (w_answers r)) (\<lambda>answers.
              Inr (Response rcode (w_platform_status r) answers)))) (\<lambda>act.
     Inr \<lparr>dns_actor = actor, hostname = h, query_type = q, dns_act = act\<rparr>)))))"

definition dns_activity_valid :: "dns_activity \<Rightarrow> bool" where
  "dns_activity_valid v \<longleftrightarrow> process_ref_valid (dns_actor v) \<and> length (hostname v) \<le> DNS_HOSTNAME_MAX \<and>
     (case dns_act v of Response rcode ps answers \<Rightarrow> length answers \<le> DNS_ANSWERS_MAX \<and>
        list_all (\<lambda>a. length (answer_data a) \<le> DNS_ANSWER_DATA_MAX) answers)"

lemma answer_iff: "answer_from_wire i a = Inr d \<longleftrightarrow>
    length (answer_data d) \<le> DNS_ANSWER_DATA_MAX \<and> a = answer_to_wire d"
  by (cases a; cases d) (auto simp: answer_from_wire_def answer_to_wire_def)

lemma answers_iff: "answers_from_wire i as = Inr ds \<longleftrightarrow>
    list_all (\<lambda>a. length (answer_data a) \<le> DNS_ANSWER_DATA_MAX) ds \<and> as = map answer_to_wire ds"
proof (induction i as arbitrary: ds rule: answers_from_wire.induct)
  case (1 i)
  then show ?case by auto
next
  case (2 i a as)
  then show ?case by (cases ds) (auto simp: answer_iff)
qed

lemma opt_u16_iff: "opt_res (\<lambda>c. u16_field c p f) w = Inr d \<longleftrightarrow> w = map_option ucast d"
  by (cases w; cases d) auto

lemma dns_activity_iff [codec_iff]:
  "dns_activity_from_wire w = Inr d \<longleftrightarrow> dns_activity_valid d \<and> w = dns_activity_to_wire d"
proof -
  obtain a h q k where w: "w = \<lparr>w_dns_actor = a, w_hostname = h, w_query_type = q, w_dns_act = k\<rparr>"
    by (cases w) auto
  obtain a' h' q' k' where d: "d = \<lparr>dns_actor = a', hostname = h', query_type = q', dns_act = k'\<rparr>"
    by (cases d) auto
  have "(case k of WResponse r \<Rightarrow>
         if length (w_answers r) > DNS_ANSWERS_MAX then err [] ''answers'' TooLarge
         else bind (opt_res (\<lambda>c. u16_field c [] ''rcode'') (w_rcode r)) (\<lambda>rcode.
              bind (answers_from_wire 0 (w_answers r)) (\<lambda>answers.
              Inr (Response rcode (w_platform_status r) answers)))) = Inr x \<longleftrightarrow>
     (case x of Response rcode ps answers \<Rightarrow> length answers \<le> DNS_ANSWERS_MAX \<and>
        list_all (\<lambda>a. length (answer_data a) \<le> DNS_ANSWER_DATA_MAX) answers \<and>
        k = WResponse \<lparr>w_rcode = map_option ucast rcode, w_platform_status = ps,
         w_answers = map answer_to_wire answers\<rparr>)" for k x
    by (cases x; cases k) (auto simp: opt_u16_iff answers_iff intro: w_dns_response.equality)
  then show ?thesis
    by (auto simp: w d dns_activity_from_wire_def dns_activity_valid_def dns_activity_to_wire_def codec_iff
      split: dns_action.splits)
qed

interpretation dns_activity_codec: exact_codec dns_activity_to_wire dns_activity_from_wire dns_activity_valid
  by unfold_locales (rule dns_activity_iff)

section \<open>Event log activity\<close>

datatype event_log_action = LogStop | LogRestart | LogDisable

record event_log_activity =
  log_actor :: "process_ref option"
  log_name :: rstr
  log_provider :: rstr
  status_code :: "u32 option"
  log_act :: event_log_action

datatype w_event_log_kind = WLogStop | WLogRestart | WLogDisable

record w_event_log_activity =
  w_log_actor :: "w_process_ref option"
  w_log_name :: rstr
  w_log_provider :: rstr
  w_status_code :: "u32 option"
  w_log_act :: "w_event_log_kind option"

definition event_log_activity_to_wire :: "event_log_activity \<Rightarrow> w_event_log_activity" where
  "event_log_activity_to_wire v = \<lparr>w_log_actor = map_option process_ref_to_wire (log_actor v),
     w_log_name = log_name v, w_log_provider = log_provider v, w_status_code = status_code v,
     w_log_act = Some (case log_act v of LogStop \<Rightarrow> WLogStop | LogRestart \<Rightarrow> WLogRestart | LogDisable \<Rightarrow> WLogDisable)\<rparr>"

definition event_log_activity_from_wire :: "w_event_log_activity \<Rightarrow> event_log_activity res" where
  "event_log_activity_from_wire w =
     bind (require (w_log_act w) [] ''activity'') (\<lambda>activity.
     bind (opt_res (\<lambda>a. process_ref_from_wire a ''actor.process'') (w_log_actor w)) (\<lambda>actor.
     bind (at_most (w_log_name w) EVENT_LOG_NAME_MAX [] ''log_name'') (\<lambda>name.
     if name = [] then err [] ''log_name'' Missing else
     bind (at_most (w_log_provider w) EVENT_LOG_NAME_MAX [] ''log_provider'') (\<lambda>provider.
     let action = (case activity of WLogStop \<Rightarrow> LogStop | WLogRestart \<Rightarrow> LogRestart | WLogDisable \<Rightarrow> LogDisable) in
     if action = LogDisable \<and> provider = [] then err [] ''log_provider'' Missing else
     Inr \<lparr>log_actor = actor, log_name = name, log_provider = provider, status_code = w_status_code w, log_act = action\<rparr>))))"

definition event_log_activity_valid :: "event_log_activity \<Rightarrow> bool" where
  "event_log_activity_valid v \<longleftrightarrow> pred_option process_ref_valid (log_actor v) \<and>
     log_name v \<noteq> [] \<and> length (log_name v) \<le> EVENT_LOG_NAME_MAX \<and>
     length (log_provider v) \<le> EVENT_LOG_NAME_MAX \<and> (log_act v = LogDisable \<longrightarrow> log_provider v \<noteq> [])"

lemma event_log_activity_iff [codec_iff]:
  "event_log_activity_from_wire w = Inr d \<longleftrightarrow> event_log_activity_valid d \<and> w = event_log_activity_to_wire d"
proof -
  obtain a n p c k where w: "w = \<lparr>w_log_actor = a, w_log_name = n, w_log_provider = p, w_status_code = c, w_log_act = k\<rparr>"
    by (cases w) auto
  obtain a' n' p' c' k' where d: "d = \<lparr>log_actor = a', log_name = n', log_provider = p', status_code = c', log_act = k'\<rparr>"
    by (cases d) auto
  show ?thesis
    by (cases k'; cases k)
      (auto simp: w d event_log_activity_from_wire_def event_log_activity_valid_def event_log_activity_to_wire_def
        opt_res_ok [OF process_ref_iff] Let_def split: w_event_log_kind.splits)
qed

interpretation event_log_activity_codec:
  exact_codec event_log_activity_to_wire event_log_activity_from_wire event_log_activity_valid
  by unfold_locales (rule event_log_activity_iff)

section \<open>Registry activity\<close>

datatype registry_key_action = RKCreate | RKDelete | RKRename rstr

record registry_key_activity =
  key_actor :: process_ref
  key_path :: rstr
  key_unresolved :: bool
  key_act :: registry_key_action

text \<open>The \<open>REG_*\<close> constants, numbered as Windows does.\<close>

datatype reg_value_type = RegNone | RegSz | RegExpandSz | RegBinary | RegDword | RegDwordBigEndian | RegLink
  | RegMultiSz | RegResourceList | RegFullResourceDescriptor | RegResourceRequirementsList | RegQword

primrec reg_value_num :: "reg_value_type \<Rightarrow> u32" where
  "reg_value_num RegNone = 0" | "reg_value_num RegSz = 1" | "reg_value_num RegExpandSz = 2"
| "reg_value_num RegBinary = 3" | "reg_value_num RegDword = 4" | "reg_value_num RegDwordBigEndian = 5"
| "reg_value_num RegLink = 6" | "reg_value_num RegMultiSz = 7" | "reg_value_num RegResourceList = 8"
| "reg_value_num RegFullResourceDescriptor = 9" | "reg_value_num RegResourceRequirementsList = 10"
| "reg_value_num RegQword = 11"

definition reg_value_from_raw :: "u32 \<Rightarrow> reg_value_type option" where
  "reg_value_from_raw raw =
     (if raw = 0 then Some RegNone else if raw = 1 then Some RegSz else if raw = 2 then Some RegExpandSz
      else if raw = 3 then Some RegBinary else if raw = 4 then Some RegDword else if raw = 5 then Some RegDwordBigEndian
      else if raw = 6 then Some RegLink else if raw = 7 then Some RegMultiSz else if raw = 8 then Some RegResourceList
      else if raw = 9 then Some RegFullResourceDescriptor else if raw = 10 then Some RegResourceRequirementsList
      else if raw = 11 then Some RegQword else None)"

datatype reg_type = Known reg_value_type | Raw u32

definition reg_type_from_raw :: "u32 \<Rightarrow> reg_type" where
  "reg_type_from_raw raw = (case reg_value_from_raw raw of Some t \<Rightarrow> Known t | None \<Rightarrow> Raw raw)"

record registry_set =
  value_type :: reg_type
  reg_data :: bytes
  data_truncated :: bool
  data_read_after :: bool
  data_unavailable :: bool

datatype registry_value_action = RVSet registry_set | RVDelete

record registry_value_activity =
  value_actor :: process_ref
  value_key_path :: rstr
  value_name :: rstr
  value_unresolved :: bool
  value_act :: registry_value_action

datatype w_registry_key_kind = WRKCreate | WRKDelete | WRKRename rstr

record w_registry_key_activity =
  w_key_actor :: "w_process_ref option"
  w_key_path :: rstr
  w_key_unresolved :: bool
  w_key_act :: "w_registry_key_kind option"

record w_registry_set =
  w_reg_type :: "u32 option"
  w_reg_data :: bytes
  w_data_truncated :: bool
  w_data_read_after :: bool
  w_data_unavailable :: bool
  w_raw_type :: "u32 option"

datatype w_registry_value_kind = WRVSet w_registry_set | WRVDelete

record w_registry_value_activity =
  w_value_actor :: "w_process_ref option"
  w_value_key_path :: rstr
  w_value_name :: rstr
  w_value_unresolved :: bool
  w_value_act :: "w_registry_value_kind option"

definition registry_key_activity_to_wire :: "registry_key_activity \<Rightarrow> w_registry_key_activity" where
  "registry_key_activity_to_wire v = \<lparr>w_key_actor = Some (process_ref_to_wire (key_actor v)),
     w_key_path = key_path v, w_key_unresolved = key_unresolved v,
     w_key_act = Some (case key_act v of RKCreate \<Rightarrow> WRKCreate | RKDelete \<Rightarrow> WRKDelete | RKRename p \<Rightarrow> WRKRename p)\<rparr>"

definition registry_value_activity_to_wire :: "registry_value_activity \<Rightarrow> w_registry_value_activity" where
  "registry_value_activity_to_wire v = \<lparr>w_value_actor = Some (process_ref_to_wire (value_actor v)),
     w_value_key_path = value_key_path v, w_value_name = value_name v, w_value_unresolved = value_unresolved v,
     w_value_act = Some (case value_act v of
       RVSet s \<Rightarrow> (case (case value_type s of Known t \<Rightarrow> (Some (reg_value_num t), None) | Raw raw \<Rightarrow> (None, Some raw)) of (t, raw) \<Rightarrow>
         WRVSet \<lparr>w_reg_type = t, w_reg_data = reg_data s, w_data_truncated = data_truncated s,
           w_data_read_after = data_read_after s, w_data_unavailable = data_unavailable s, w_raw_type = raw\<rparr>)
     | RVDelete \<Rightarrow> WRVDelete)\<rparr>"

definition registry_key_activity_from_wire :: "w_registry_key_activity \<Rightarrow> registry_key_activity res" where
  "registry_key_activity_from_wire w =
     bind (require (w_key_act w) [] ''activity'') (\<lambda>activity.
     bind (process_ref_required (w_key_actor w) [] ''actor.process'') (\<lambda>actor.
     bind (at_most (w_key_path w) PATH_MAX [] ''reg_key.path'') (\<lambda>path.
     bind (case activity of WRKCreate \<Rightarrow> Inr RKCreate | WRKDelete \<Rightarrow> Inr RKDelete
       | WRKRename p \<Rightarrow> bind (at_most p PATH_MAX [] ''prev_reg_key.path'') (\<lambda>p. Inr (RKRename p))) (\<lambda>act.
     Inr \<lparr>key_actor = actor, key_path = path, key_unresolved = w_key_unresolved w, key_act = act\<rparr>))))"

definition set_from_wire :: "w_registry_set \<Rightarrow> registry_value_action res" where
  "set_from_wire s =
     bind (case (w_reg_type s, w_raw_type s) of
         (Some raw, None) \<Rightarrow> (case reg_value_from_raw raw of
            Some t \<Rightarrow> Inr (Known t) | None \<Rightarrow> err [] ''reg_value.type'' UnknownEnum)
       | (None, Some raw) \<Rightarrow>
           if reg_value_from_raw raw = None then Inr (Raw raw) else err [] ''reg_value.raw_type'' Malformed
       | (None, None) \<Rightarrow> err [] ''reg_value.type'' Missing
       | (Some _, Some _) \<Rightarrow> err [] ''reg_value.raw_type'' Malformed) (\<lambda>t.
     if length (w_reg_data s) > REG_DATA_MAX then err [] ''reg_value.data'' TooLarge
     else if w_data_unavailable s \<and> (w_reg_data s \<noteq> [] \<or> w_data_truncated s)
     then err [] ''reg_value.data_unavailable'' Malformed
     else Inr (RVSet \<lparr>value_type = t, reg_data = w_reg_data s, data_truncated = w_data_truncated s,
       data_read_after = w_data_read_after s, data_unavailable = w_data_unavailable s\<rparr>))"

definition registry_value_activity_from_wire :: "w_registry_value_activity \<Rightarrow> registry_value_activity res" where
  "registry_value_activity_from_wire w =
     bind (require (w_value_act w) [] ''activity'') (\<lambda>activity.
     bind (process_ref_required (w_value_actor w) [] ''actor.process'') (\<lambda>actor.
     bind (at_most (w_value_key_path w) PATH_MAX [] ''reg_value.path'') (\<lambda>path.
     bind (at_most (w_value_name w) PATH_MAX [] ''reg_value.name'') (\<lambda>name.
     bind (case activity of WRVSet s \<Rightarrow> set_from_wire s | WRVDelete \<Rightarrow> Inr RVDelete) (\<lambda>act.
     Inr \<lparr>value_actor = actor, value_key_path = path, value_name = name,
          value_unresolved = w_value_unresolved w, value_act = act\<rparr>)))))"

definition registry_key_activity_valid :: "registry_key_activity \<Rightarrow> bool" where
  "registry_key_activity_valid v \<longleftrightarrow> process_ref_valid (key_actor v) \<and> length (key_path v) \<le> PATH_MAX \<and>
     (case key_act v of RKRename p \<Rightarrow> length p \<le> PATH_MAX | _ \<Rightarrow> True)"

definition registry_set_valid :: "registry_set \<Rightarrow> bool" where
  "registry_set_valid s \<longleftrightarrow> (case value_type s of Known _ \<Rightarrow> True | Raw raw \<Rightarrow> unat raw > 11) \<and>
     length (reg_data s) \<le> REG_DATA_MAX \<and>
     (data_unavailable s \<longrightarrow> reg_data s = [] \<and> \<not> data_truncated s)"

definition registry_value_activity_valid :: "registry_value_activity \<Rightarrow> bool" where
  "registry_value_activity_valid v \<longleftrightarrow> process_ref_valid (value_actor v) \<and>
     length (value_key_path v) \<le> PATH_MAX \<and> length (value_name v) \<le> PATH_MAX \<and>
     (case value_act v of RVSet s \<Rightarrow> registry_set_valid s | RVDelete \<Rightarrow> True)"

lemma reg_value_num_from_raw [simp]: "reg_value_from_raw (reg_value_num t) = Some t"
  by (cases t) (simp_all add: reg_value_from_raw_def)

lemma reg_value_num_inject [simp]: "reg_value_num t = reg_value_num t' \<longleftrightarrow> t = t'"
  by (metis option.inject reg_value_num_from_raw)

lemma reg_value_num_small [simp]: "\<not> 11 < unat (reg_value_num t)"
  by (cases t) simp_all

lemma reg_value_from_raw_iff: "reg_value_from_raw raw = Some t \<longleftrightarrow> raw = reg_value_num t"
proof
  assume "reg_value_from_raw raw = Some t"
  then show "raw = reg_value_num t" by (auto simp: reg_value_from_raw_def split: if_splits)
qed simp

lemma reg_value_from_raw_None: "reg_value_from_raw raw = None \<longleftrightarrow> unat raw > 11"
proof -
  have "unat raw > 11 \<longleftrightarrow> \<not> raw \<le> 11" by (simp add: word_le_nat_alt not_le)
  moreover have "raw \<le> 11 \<longleftrightarrow> raw \<in> set (map word_of_nat [0..<12])"
  proof
    assume "raw \<le> 11"
    then have "unat raw \<in> set [0..<12]" by (simp add: word_le_nat_alt)
    then have "(word_of_nat (unat raw) :: u32) \<in> word_of_nat ` set [0..<12]" by (rule imageI)
    then show "raw \<in> set (map word_of_nat [0..<12])" by simp
  next
    assume "raw \<in> set (map word_of_nat [0..<12])"
    then show "raw \<le> 11" by (auto simp: upt_rec)
  qed
  moreover have "set (map word_of_nat [0..<12]) = {0, 1, 2, 3, 4, 5, 6, 7, 8, 9, 10, 11 :: u32}"
    by (simp add: upt_rec)
  ultimately show ?thesis by (auto simp: reg_value_from_raw_def)
qed

lemma registry_key_activity_iff [codec_iff]:
  "registry_key_activity_from_wire w = Inr d \<longleftrightarrow>
     registry_key_activity_valid d \<and> w = registry_key_activity_to_wire d"
proof -
  obtain a p u k where w: "w = \<lparr>w_key_actor = a, w_key_path = p, w_key_unresolved = u, w_key_act = k\<rparr>"
    by (cases w) auto
  obtain a' p' u' k' where d: "d = \<lparr>key_actor = a', key_path = p', key_unresolved = u', key_act = k'\<rparr>"
    by (cases d) auto
  show ?thesis
    by (cases k'; cases k)
      (auto simp: w d registry_key_activity_from_wire_def registry_key_activity_valid_def
        registry_key_activity_to_wire_def codec_iff split: w_registry_key_kind.splits)
qed

lemma set_from_wire_iff:
  "set_from_wire s = Inr a \<longleftrightarrow> (\<exists>d. a = RVSet d \<and> registry_set_valid d \<and>
     s = (case (case value_type d of Known t \<Rightarrow> (Some (reg_value_num t), None) | Raw raw \<Rightarrow> (None, Some raw)) of (t, raw) \<Rightarrow>
       \<lparr>w_reg_type = t, w_reg_data = reg_data d, w_data_truncated = data_truncated d,
        w_data_read_after = data_read_after d, w_data_unavailable = data_unavailable d, w_raw_type = raw\<rparr>))"
  (is "?l \<longleftrightarrow> ?r")
proof -
  obtain t b dt dr du raw where s: "s = \<lparr>w_reg_type = t, w_reg_data = b, w_data_truncated = dt,
    w_data_read_after = dr, w_data_unavailable = du, w_raw_type = raw\<rparr>" by (cases s) auto
  let ?c = "length b \<le> REG_DATA_MAX \<and> (du \<longrightarrow> b = [] \<and> \<not> dt)"
  have ty: "(case (t, raw) of
         (Some raw, None) \<Rightarrow> (case reg_value_from_raw raw of
            Some t \<Rightarrow> Inr (Known t) | None \<Rightarrow> err [] ''reg_value.type'' UnknownEnum)
       | (None, Some raw) \<Rightarrow>
           if reg_value_from_raw raw = None then Inr (Raw raw) else err [] ''reg_value.raw_type'' Malformed
       | (None, None) \<Rightarrow> err [] ''reg_value.type'' Missing
       | (Some _, Some _) \<Rightarrow> err [] ''reg_value.raw_type'' Malformed) = Inr ty \<longleftrightarrow>
      (case ty of Known k \<Rightarrow> t = Some (reg_value_num k) \<and> raw = None
      | Raw n \<Rightarrow> t = None \<and> raw = Some n \<and> unat n > 11)" for ty
    by (cases t; cases raw; cases ty)
      (auto simp: reg_value_from_raw_iff reg_value_from_raw_None split: option.splits if_splits)
  have l: "?l \<longleftrightarrow> ?c \<and> (\<exists>ty. (case ty of Known k \<Rightarrow> t = Some (reg_value_num k) \<and> raw = None
      | Raw n \<Rightarrow> t = None \<and> raw = Some n \<and> unat n > 11) \<and>
      a = RVSet \<lparr>value_type = ty, reg_data = b, data_truncated = dt, data_read_after = dr, data_unavailable = du\<rparr>)"
    unfolding set_from_wire_def s by (auto simp: ty [unfolded prod.case] not_less split: if_splits)
  show ?thesis
  proof
    assume ?l
    then obtain ty where c: ?c "case ty of Known k \<Rightarrow> t = Some (reg_value_num k) \<and> raw = None
        | Raw n \<Rightarrow> t = None \<and> raw = Some n \<and> unat n > 11"
      "a = RVSet \<lparr>value_type = ty, reg_data = b, data_truncated = dt, data_read_after = dr, data_unavailable = du\<rparr>"
      unfolding l by blast
    then show ?r
      by (intro exI [of _ "\<lparr>value_type = ty, reg_data = b, data_truncated = dt, data_read_after = dr, data_unavailable = du\<rparr>"])
        (auto simp: s registry_set_valid_def split: reg_type.splits)
  next
    assume ?r
    then obtain d where "a = RVSet d" "registry_set_valid d"
      "s = (case (case value_type d of Known t \<Rightarrow> (Some (reg_value_num t), None) | Raw raw \<Rightarrow> (None, Some raw)) of (t, raw) \<Rightarrow>
       \<lparr>w_reg_type = t, w_reg_data = reg_data d, w_data_truncated = data_truncated d,
        w_data_read_after = data_read_after d, w_data_unavailable = data_unavailable d, w_raw_type = raw\<rparr>)"
      by blast
    then show ?l unfolding l
      by (cases d) (auto simp: s registry_set_valid_def split: reg_type.splits)
  qed
qed

lemma registry_value_activity_iff [codec_iff]:
  "registry_value_activity_from_wire w = Inr d \<longleftrightarrow>
     registry_value_activity_valid d \<and> w = registry_value_activity_to_wire d"
proof -
  obtain a p n u k where w: "w = \<lparr>w_value_actor = a, w_value_key_path = p, w_value_name = n,
    w_value_unresolved = u, w_value_act = k\<rparr>" by (cases w) auto
  obtain a' p' n' u' k' where d: "d = \<lparr>value_actor = a', value_key_path = p', value_name = n',
    value_unresolved = u', value_act = k'\<rparr>" by (cases d) auto
  have "(case x of WRVSet s \<Rightarrow> set_from_wire s | WRVDelete \<Rightarrow> Inr RVDelete) = Inr y \<longleftrightarrow>
      (case y of RVSet s \<Rightarrow> registry_set_valid s | RVDelete \<Rightarrow> True) \<and>
      x = (case y of
       RVSet s \<Rightarrow> (case (case value_type s of Known t \<Rightarrow> (Some (reg_value_num t), None) | Raw raw \<Rightarrow> (None, Some raw)) of (t, raw) \<Rightarrow>
         WRVSet \<lparr>w_reg_type = t, w_reg_data = reg_data s, w_data_truncated = data_truncated s,
           w_data_read_after = data_read_after s, w_data_unavailable = data_unavailable s, w_raw_type = raw\<rparr>)
     | RVDelete \<Rightarrow> WRVDelete)" for x y
    by (cases y; cases x) (auto simp: set_from_wire_iff split: reg_type.splits)
  then show ?thesis
    by (auto simp: w d registry_value_activity_from_wire_def registry_value_activity_valid_def
      registry_value_activity_to_wire_def codec_iff)
qed

interpretation registry_key_codec:
  exact_codec registry_key_activity_to_wire registry_key_activity_from_wire registry_key_activity_valid
  by unfold_locales (rule registry_key_activity_iff)

interpretation registry_value_codec:
  exact_codec registry_value_activity_to_wire registry_value_activity_from_wire registry_value_activity_valid
  by unfold_locales (rule registry_value_activity_iff)

end
