(* ===== verification/Sch_Health.thy ===== *)
theory Sch_Health
  imports Sch_Convert
begin

text \<open>
  The Sensor Health class (\<open>crates/atlas-schema/src/classes/sensor_health.rs\<close>): groups of counters,
  the loss gap, and the report. A group of the source's macro is a record with the macro's fields;
  the groups with counts per class are records over the type of a count, so that the domain and the
  generated wire struct, which have the same fields, are two instances of one record. An empty
  group is left out on the wire, so the pair is a codec that is not exact: what is accepted may
  differ from its encoding by an empty group that was sent.
\<close>

section \<open>Class counts and the gap\<close>

record class_count =
  class_uid :: u32
  count :: u64

record w_class_count =
  w_class_uid :: u32
  w_count :: u64

record sensor_gap =
  first_time :: "int option"
  last_time :: "int option"
  gap_events :: u64

definition counts_into_wire :: "class_count list \<Rightarrow> w_class_count list" where
  "counts_into_wire cs = map (\<lambda>c. \<lparr>w_class_uid = class_uid c, w_count = count c\<rparr>) cs"

definition counts_from_wire :: "w_class_count list \<Rightarrow> string \<Rightarrow> string \<Rightarrow> class_count list res" where
  "counts_from_wire w path field =
     (if length w > CLASS_COUNTS_MAX then err path field TooLarge
      else Inr (map (\<lambda>c. \<lparr>class_uid = w_class_uid c, count = w_count c\<rparr>) w))"

text \<open>The gap's wire struct has the same fields.\<close>

definition gap_from_wire :: "sensor_gap \<Rightarrow> sensor_gap res" where
  "gap_from_wire w =
     (case (first_time w, last_time w) of
        (Some f, Some l) \<Rightarrow> if f > l then err ''gap'' ''last_time'' Malformed else Inr w
      | (Some _, None) \<Rightarrow> err [] ''gap'' Malformed
      | (None, Some _) \<Rightarrow> err [] ''gap'' Malformed
      | (None, None) \<Rightarrow> Inr w)"

section \<open>The counter groups\<close>

record 'c sensor_loss =
  sensor_session_events_lost :: "u64 option"
  process_session_events_lost :: "u64 option"
  sensor_session_buffers_lost :: "u64 option"
  process_session_buffers_lost :: "u64 option"
  kernel_queue_drops :: "u64 option"
  user_queue_drops :: "u64 option"
  dns_rate_limit_drops :: "u64 option"
  actor_dropped :: "'c list"
  buffer_backlog_drops :: "u64 option"
  callback_panics :: "u64 option"

definition sensor_loss_default :: "'c sensor_loss" where
  "sensor_loss_default = \<lparr>sensor_session_events_lost = None, process_session_events_lost = None,
     sensor_session_buffers_lost = None, process_session_buffers_lost = None, kernel_queue_drops = None,
     user_queue_drops = None, dns_rate_limit_drops = None, actor_dropped = [], buffer_backlog_drops = None,
     callback_panics = None\<rparr>"

definition sensor_loss_into_wire :: "class_count sensor_loss \<Rightarrow> w_class_count sensor_loss option" where
  "sensor_loss_into_wire v = (if v \<noteq> sensor_loss_default then Some \<lparr>sensor_session_events_lost = sensor_session_events_lost v, process_session_events_lost = process_session_events_lost v, sensor_session_buffers_lost = sensor_session_buffers_lost v, process_session_buffers_lost = process_session_buffers_lost v, kernel_queue_drops = kernel_queue_drops v, user_queue_drops = user_queue_drops v, dns_rate_limit_drops = dns_rate_limit_drops v, actor_dropped = counts_into_wire (actor_dropped v), buffer_backlog_drops = buffer_backlog_drops v, callback_panics = callback_panics v\<rparr> else None)"

definition sensor_loss_from_wire :: "w_class_count sensor_loss option \<Rightarrow> class_count sensor_loss res" where
  "sensor_loss_from_wire w = (case w of None \<Rightarrow> Inr sensor_loss_default | Some w \<Rightarrow>
     bind (counts_from_wire (actor_dropped w) ''loss'' ''actor_dropped'') (\<lambda>cs. Inr \<lparr>sensor_session_events_lost = sensor_session_events_lost w, process_session_events_lost = process_session_events_lost w, sensor_session_buffers_lost = sensor_session_buffers_lost w, process_session_buffers_lost = process_session_buffers_lost w, kernel_queue_drops = kernel_queue_drops w, user_queue_drops = user_queue_drops w, dns_rate_limit_drops = dns_rate_limit_drops w, actor_dropped = cs, buffer_backlog_drops = buffer_backlog_drops w, callback_panics = callback_panics w\<rparr>))"

record 'c sensor_quality =
  late_arrivals :: "u64 option"
  parse_errors :: "u64 option"
  unknown_version :: "u64 option"
  launch_join_miss :: "u64 option"
  actor_unresolved :: "'c list"
  unknown_file_object :: "u64 option"
  registry_unresolved :: "u64 option"
  value_read_failed :: "u64 option"
  early_read_redone :: "u64 option"
  reg_type_unusual :: "u64 option"
  file_op_late_failure :: "u64 option"
  writes_after_cleanup :: "u64 option"
  file_object_replaced :: "u64 option"
  buffer_invalid_records :: "u64 option"
  enrichment_misses :: "u64 option"
  enrichment_errors :: "u64 option"
  reg_name_ambiguous :: "u64 option"
  file_delete_outcome_unknown :: "u64 option"
  file_cleanup_unpaired :: "u64 option"

definition sensor_quality_default :: "'c sensor_quality" where
  "sensor_quality_default = \<lparr>late_arrivals = None, parse_errors = None, unknown_version = None,
     launch_join_miss = None, actor_unresolved = [], unknown_file_object = None, registry_unresolved = None,
     value_read_failed = None, early_read_redone = None, reg_type_unusual = None, file_op_late_failure = None,
     writes_after_cleanup = None, file_object_replaced = None, buffer_invalid_records = None,
     enrichment_misses = None, enrichment_errors = None, reg_name_ambiguous = None,
     file_delete_outcome_unknown = None, file_cleanup_unpaired = None\<rparr>"

definition sensor_quality_into_wire :: "class_count sensor_quality \<Rightarrow> w_class_count sensor_quality option" where
  "sensor_quality_into_wire v = (if v \<noteq> sensor_quality_default then Some \<lparr>late_arrivals = late_arrivals v, parse_errors = parse_errors v, unknown_version = unknown_version v, launch_join_miss = launch_join_miss v, actor_unresolved = counts_into_wire (actor_unresolved v), unknown_file_object = unknown_file_object v, registry_unresolved = registry_unresolved v, value_read_failed = value_read_failed v, early_read_redone = early_read_redone v, reg_type_unusual = reg_type_unusual v, file_op_late_failure = file_op_late_failure v, writes_after_cleanup = writes_after_cleanup v, file_object_replaced = file_object_replaced v, buffer_invalid_records = buffer_invalid_records v, enrichment_misses = enrichment_misses v, enrichment_errors = enrichment_errors v, reg_name_ambiguous = reg_name_ambiguous v, file_delete_outcome_unknown = file_delete_outcome_unknown v, file_cleanup_unpaired = file_cleanup_unpaired v\<rparr> else None)"

definition sensor_quality_from_wire :: "w_class_count sensor_quality option \<Rightarrow> class_count sensor_quality res" where
  "sensor_quality_from_wire w = (case w of None \<Rightarrow> Inr sensor_quality_default | Some w \<Rightarrow>
     bind (counts_from_wire (actor_unresolved w) ''quality'' ''actor_unresolved'') (\<lambda>cs. Inr \<lparr>late_arrivals = late_arrivals w, parse_errors = parse_errors w, unknown_version = unknown_version w, launch_join_miss = launch_join_miss w, actor_unresolved = cs, unknown_file_object = unknown_file_object w, registry_unresolved = registry_unresolved w, value_read_failed = value_read_failed w, early_read_redone = early_read_redone w, reg_type_unusual = reg_type_unusual w, file_op_late_failure = file_op_late_failure w, writes_after_cleanup = writes_after_cleanup w, file_object_replaced = file_object_replaced w, buffer_invalid_records = buffer_invalid_records w, enrichment_misses = enrichment_misses w, enrichment_errors = enrichment_errors w, reg_name_ambiguous = reg_name_ambiguous w, file_delete_outcome_unknown = file_delete_outcome_unknown w, file_cleanup_unpaired = file_cleanup_unpaired w\<rparr>))"

record sensor_housekeeping =
  process_cache_evictions :: "u64 option"
  file_map_evictions :: "u64 option"
  key_map_evictions :: "u64 option"
  early_key_map_evictions :: "u64 option"
  flow_table_evictions :: "u64 option"
  hash_cache_evictions :: "u64 option"
  retention_evictions :: "u64 option"
  file_op_failed :: "u64 option"
  pending_overflow :: "u64 option"
  seeding_enabled :: "bool option"
  seeder_handles_named :: "u64 option"
  seeder_handles_failed :: "u64 option"
  seeder_handles_timed_out :: "u64 option"
  seeder_table_reads :: "u64 option"
  seeder_deferred_rereads :: "u64 option"
  seeder_stuck_helpers :: "u64 option"
  seeder_negative_cache_size :: "u64 option"
  service_queue_drops :: "u64 option"

definition sensor_housekeeping_default :: "sensor_housekeeping" where
  "sensor_housekeeping_default = \<lparr>process_cache_evictions = None, file_map_evictions = None,
     key_map_evictions = None, early_key_map_evictions = None, flow_table_evictions = None,
     hash_cache_evictions = None, retention_evictions = None, file_op_failed = None, pending_overflow = None,
     seeding_enabled = None, seeder_handles_named = None, seeder_handles_failed = None,
     seeder_handles_timed_out = None, seeder_table_reads = None, seeder_deferred_rereads = None,
     seeder_stuck_helpers = None, seeder_negative_cache_size = None, service_queue_drops = None\<rparr>"

definition sensor_housekeeping_into_wire :: "sensor_housekeeping \<Rightarrow> sensor_housekeeping option" where
  "sensor_housekeeping_into_wire v = (if v \<noteq> sensor_housekeeping_default then Some v else None)"

definition sensor_housekeeping_from_wire :: "sensor_housekeeping option \<Rightarrow> sensor_housekeeping res" where
  "sensor_housekeeping_from_wire w = (case w of None \<Rightarrow> Inr sensor_housekeeping_default | Some w \<Rightarrow> Inr w)"

record sensor_throughput =
  sensor_session_events_received :: "u64 option"
  process_session_events_received :: "u64 option"

definition sensor_throughput_default :: "sensor_throughput" where
  "sensor_throughput_default = \<lparr>sensor_session_events_received = None,
     process_session_events_received = None\<rparr>"

definition sensor_throughput_into_wire :: "sensor_throughput \<Rightarrow> sensor_throughput option" where
  "sensor_throughput_into_wire v = (if v \<noteq> sensor_throughput_default then Some v else None)"

definition sensor_throughput_from_wire :: "sensor_throughput option \<Rightarrow> sensor_throughput res" where
  "sensor_throughput_from_wire w = (case w of None \<Rightarrow> Inr sensor_throughput_default | Some w \<Rightarrow> Inr w)"

record sensor_resources =
  cpu_time :: "u64 option"
  working_set :: "u64 option"

definition sensor_resources_default :: "sensor_resources" where
  "sensor_resources_default = \<lparr>cpu_time = None, working_set = None\<rparr>"

definition sensor_resources_into_wire :: "sensor_resources \<Rightarrow> sensor_resources option" where
  "sensor_resources_into_wire v = (if v \<noteq> sensor_resources_default then Some v else None)"

definition sensor_resources_from_wire :: "sensor_resources option \<Rightarrow> sensor_resources res" where
  "sensor_resources_from_wire w = (case w of None \<Rightarrow> Inr sensor_resources_default | Some w \<Rightarrow> Inr w)"

record sensor_buffer =
  buf_write_errors :: "u64 option"
  buf_recoveries :: "u64 option"
  buf_failing :: "bool option"
  buf_rejected :: "u64 option"
  buf_delete_failures :: "u64 option"
  buf_truncated_bytes :: "u64 option"
  buf_cursor_reset :: "bool option"
  buf_foreign_segments :: "u64 option"
  buf_corrupt_segments :: "u64 option"
  buf_disk_bytes :: "u64 option"

definition sensor_buffer_default :: "sensor_buffer" where
  "sensor_buffer_default = \<lparr>buf_write_errors = None, buf_recoveries = None, buf_failing = None,
     buf_rejected = None, buf_delete_failures = None, buf_truncated_bytes = None, buf_cursor_reset = None,
     buf_foreign_segments = None, buf_corrupt_segments = None, buf_disk_bytes = None\<rparr>"

definition sensor_buffer_into_wire :: "sensor_buffer \<Rightarrow> sensor_buffer option" where
  "sensor_buffer_into_wire v = (if v \<noteq> sensor_buffer_default then Some v else None)"

definition sensor_buffer_from_wire :: "sensor_buffer option \<Rightarrow> sensor_buffer res" where
  "sensor_buffer_from_wire w = (case w of None \<Rightarrow> Inr sensor_buffer_default | Some w \<Rightarrow> Inr w)"

section \<open>The report\<close>

record health_report =
  loss :: "class_count sensor_loss"
  quality :: "class_count sensor_quality"
  housekeeping :: sensor_housekeeping
  resources :: sensor_resources
  report_gap :: "sensor_gap option"
  buffer :: sensor_buffer
  throughput :: sensor_throughput

record sensor_health_activity =
  interval_start :: int
  report :: health_report

record w_health_report =
  w_loss :: "w_class_count sensor_loss option"
  w_quality :: "w_class_count sensor_quality option"
  w_housekeeping :: "sensor_housekeeping option"
  w_resources :: "sensor_resources option"
  w_report_gap :: "sensor_gap option"
  w_buffer :: "sensor_buffer option"
  w_throughput :: "sensor_throughput option"

record w_sensor_health =
  w_interval_start :: int
  w_health_act :: "w_health_report option"

definition sensor_health_to_wire :: "sensor_health_activity \<Rightarrow> w_sensor_health" where
  "sensor_health_to_wire v = (let r = report v in
     \<lparr>w_interval_start = interval_start v,
      w_health_act = Some \<lparr>w_loss = sensor_loss_into_wire (loss r), w_quality = sensor_quality_into_wire (quality r),
        w_housekeeping = sensor_housekeeping_into_wire (housekeeping r),
        w_resources = sensor_resources_into_wire (resources r), w_report_gap = report_gap r,
        w_buffer = sensor_buffer_into_wire (buffer r), w_throughput = sensor_throughput_into_wire (throughput r)\<rparr>\<rparr>)"

definition sensor_health_from_wire :: "w_sensor_health \<Rightarrow> sensor_health_activity res" where
  "sensor_health_from_wire w =
     bind (require (w_health_act w) [] ''activity'') (\<lambda>r.
     bind (sensor_loss_from_wire (w_loss r)) (\<lambda>l.
     bind (sensor_quality_from_wire (w_quality r)) (\<lambda>q.
     bind (sensor_housekeeping_from_wire (w_housekeeping r)) (\<lambda>h.
     bind (sensor_resources_from_wire (w_resources r)) (\<lambda>re.
     bind (opt_res gap_from_wire (w_report_gap r)) (\<lambda>g.
     bind (sensor_buffer_from_wire (w_buffer r)) (\<lambda>b.
     bind (sensor_throughput_from_wire (w_throughput r)) (\<lambda>t.
     Inr \<lparr>interval_start = w_interval_start w, report = \<lparr>loss = l, quality = q, housekeeping = h,
       resources = re, report_gap = g, buffer = b, throughput = t\<rparr>\<rparr>))))))))"

section \<open>The codec\<close>

definition gap_valid :: "sensor_gap \<Rightarrow> bool" where
  "gap_valid g \<longleftrightarrow> (case (first_time g, last_time g) of
     (Some a, Some b) \<Rightarrow> a \<le> b | (None, None) \<Rightarrow> True | _ \<Rightarrow> False)"

definition report_valid :: "health_report \<Rightarrow> bool" where
  "report_valid r \<longleftrightarrow> length (actor_dropped (loss r)) \<le> CLASS_COUNTS_MAX \<and>
     length (actor_unresolved (quality r)) \<le> CLASS_COUNTS_MAX \<and> pred_option gap_valid (report_gap r)"

definition health_valid :: "sensor_health_activity \<Rightarrow> bool" where
  "health_valid v \<longleftrightarrow> report_valid (report v)"

lemma counts_iff: "counts_from_wire w p f = Inr cs \<longleftrightarrow> length cs \<le> CLASS_COUNTS_MAX \<and> w = counts_into_wire cs"
proof -
  have "map (\<lambda>c. \<lparr>class_uid = w_class_uid c, count = w_count c\<rparr>) w = cs \<longleftrightarrow> w = counts_into_wire cs"
    by (auto simp: counts_into_wire_def intro!: map_idI [symmetric] map_idI)
  then show ?thesis by (auto simp: counts_from_wire_def counts_into_wire_def)
qed

lemma gap_iff: "gap_from_wire w = Inr d \<longleftrightarrow> gap_valid d \<and> w = d"
  by (auto simp: gap_from_wire_def gap_valid_def split: option.splits if_splits)

lemma opt_gap_iff: "opt_res gap_from_wire w = Inr d \<longleftrightarrow> pred_option gap_valid d \<and> w = d"
  by (cases w; cases d) (auto simp: gap_iff)

text \<open>A group read back: what was written, also when it was left out.\<close>

lemma loss_back: "length (actor_dropped v) \<le> CLASS_COUNTS_MAX \<Longrightarrow>
    sensor_loss_from_wire (sensor_loss_into_wire v) = Inr v"
  by (cases v) (auto simp: sensor_loss_from_wire_def sensor_loss_into_wire_def counts_iff)

lemma loss_checked: "sensor_loss_from_wire w = Inr v \<Longrightarrow> length (actor_dropped v) \<le> CLASS_COUNTS_MAX"
  by (auto simp: sensor_loss_from_wire_def sensor_loss_default_def counts_iff split: option.splits)

lemma quality_back: "length (actor_unresolved v) \<le> CLASS_COUNTS_MAX \<Longrightarrow>
    sensor_quality_from_wire (sensor_quality_into_wire v) = Inr v"
  by (cases v) (auto simp: sensor_quality_from_wire_def sensor_quality_into_wire_def counts_iff)

lemma quality_checked: "sensor_quality_from_wire w = Inr v \<Longrightarrow> length (actor_unresolved v) \<le> CLASS_COUNTS_MAX"
  by (auto simp: sensor_quality_from_wire_def sensor_quality_default_def counts_iff split: option.splits)

lemma groups_back:
  "sensor_housekeeping_from_wire (sensor_housekeeping_into_wire h) = Inr h"
  "sensor_resources_from_wire (sensor_resources_into_wire r) = Inr r"
  "sensor_buffer_from_wire (sensor_buffer_into_wire b) = Inr b"
  "sensor_throughput_from_wire (sensor_throughput_into_wire t) = Inr t"
  by (simp_all add: sensor_housekeeping_from_wire_def sensor_housekeeping_into_wire_def
    sensor_resources_from_wire_def sensor_resources_into_wire_def sensor_buffer_from_wire_def
    sensor_buffer_into_wire_def sensor_throughput_from_wire_def sensor_throughput_into_wire_def)

interpretation health_codec: codec sensor_health_to_wire sensor_health_from_wire health_valid
proof
  fix d assume v: "health_valid d"
  have "opt_res gap_from_wire (report_gap (report d)) = Inr (report_gap (report d))"
    using v by (simp add: opt_gap_iff health_valid_def report_valid_def)
  then show "sensor_health_from_wire (sensor_health_to_wire d) = Inr d"
    using v by (simp add: sensor_health_from_wire_def sensor_health_to_wire_def Let_def groups_back loss_back
      quality_back health_valid_def report_valid_def)
next
  fix w d assume "sensor_health_from_wire w = Inr d"
  then show "health_valid d"
    by (auto simp: sensor_health_from_wire_def health_valid_def report_valid_def opt_gap_iff
      dest: loss_checked quality_checked)
qed

end
