(* ===== verification/Sch_Event.thy ===== *)
theory Sch_Event
  imports Sch_Records Sch_Health
begin

text \<open>
  The event envelope (\<open>crates/atlas-schema/src/event.rs\<close>), the byte-level entry points
  (\<open>codec.rs\<close>) and the OCSF numbers (\<open>ocsf.rs\<close>). The protobuf library is two parameters,
  \<open>pb_encode\<close> and \<open>pb_decode\<close>. The envelope is a codec built from the codecs of its classes.
\<close>

section \<open>The envelope\<close>

datatype sensor = Etw | Driver

record event_meta =
  event_id :: bytes
  event_time :: int
  sensor :: sensor

record device =
  device_uid :: uid16
  boot_id :: uid16

datatype event_kind = ProcessEvent process_activity | ModuleEvent module_activity | NetworkEvent network_activity
  | FileEvent file_activity | RegistryKeyEvent registry_key_activity | RegistryValueEvent registry_value_activity
  | DnsEvent dns_activity | EventLogEvent event_log_activity | SensorHealthEvent sensor_health_activity

record schema_event =
  meta :: event_meta
  device :: device
  event_kind :: event_kind

datatype w_sensor = WSensorUnspecified | WEtw | WDriver

record w_device =
  w_device_uid :: bytes
  w_boot_id :: bytes

datatype w_event_kind = WProcessEvent w_process_activity | WModuleEvent w_module_activity
  | WNetworkEvent w_network_activity | WFileEvent w_file_activity | WRegistryKeyEvent w_registry_key_activity
  | WRegistryValueEvent w_registry_value_activity | WDnsEvent w_dns_activity
  | WEventLogEvent w_event_log_activity | WSensorHealthEvent w_sensor_health

record w_event =
  w_event_id :: bytes
  w_event_time :: int
  w_sensor :: int
  w_device :: "w_device option"
  w_event_kind :: "w_event_kind option"

primrec w_sensor_num :: "w_sensor \<Rightarrow> int" where
  "w_sensor_num WSensorUnspecified = 0" | "w_sensor_num WEtw = 1" | "w_sensor_num WDriver = 2"

definition w_sensor_try :: "int \<Rightarrow> w_sensor option" where
  "w_sensor_try i = find (\<lambda>w. w_sensor_num w = i) [WSensorUnspecified, WEtw, WDriver]"

primrec sensor_of_wire :: "w_sensor \<Rightarrow> sensor option" where
  "sensor_of_wire WSensorUnspecified = None" | "sensor_of_wire WEtw = Some Etw" | "sensor_of_wire WDriver = Some Driver"

primrec kind_to_wire :: "event_kind \<Rightarrow> w_event_kind" where
  "kind_to_wire (ProcessEvent a) = WProcessEvent (process_activity_to_wire a)"
| "kind_to_wire (ModuleEvent a) = WModuleEvent (module_activity_to_wire a)"
| "kind_to_wire (NetworkEvent a) = WNetworkEvent (network_activity_to_wire a)"
| "kind_to_wire (FileEvent a) = WFileEvent (file_activity_to_wire a)"
| "kind_to_wire (RegistryKeyEvent a) = WRegistryKeyEvent (registry_key_activity_to_wire a)"
| "kind_to_wire (RegistryValueEvent a) = WRegistryValueEvent (registry_value_activity_to_wire a)"
| "kind_to_wire (DnsEvent a) = WDnsEvent (dns_activity_to_wire a)"
| "kind_to_wire (EventLogEvent a) = WEventLogEvent (event_log_activity_to_wire a)"
| "kind_to_wire (SensorHealthEvent a) = WSensorHealthEvent (sensor_health_to_wire a)"

definition event_to_wire :: "schema_event \<Rightarrow> w_event" where
  "event_to_wire v = \<lparr>w_event_id = event_id (meta v), w_event_time = event_time (meta v),
     w_sensor = w_sensor_num (case sensor (meta v) of Etw \<Rightarrow> WEtw | Driver \<Rightarrow> WDriver),
     w_device = Some \<lparr>w_device_uid = device_uid (device v), w_boot_id = boot_id (device v)\<rparr>,
     w_event_kind = Some (kind_to_wire (event_kind v))\<rparr>"

primrec kind_from_wire :: "w_event_kind \<Rightarrow> event_kind res" where
  "kind_from_wire (WProcessEvent a) = bind (process_activity_from_wire a) (\<lambda>a. Inr (ProcessEvent a))"
| "kind_from_wire (WModuleEvent a) = bind (module_activity_from_wire a) (\<lambda>a. Inr (ModuleEvent a))"
| "kind_from_wire (WNetworkEvent a) = bind (network_activity_from_wire a) (\<lambda>a. Inr (NetworkEvent a))"
| "kind_from_wire (WFileEvent a) = bind (file_activity_from_wire a) (\<lambda>a. Inr (FileEvent a))"
| "kind_from_wire (WRegistryKeyEvent a) = bind (registry_key_activity_from_wire a) (\<lambda>a. Inr (RegistryKeyEvent a))"
| "kind_from_wire (WRegistryValueEvent a) = bind (registry_value_activity_from_wire a) (\<lambda>a. Inr (RegistryValueEvent a))"
| "kind_from_wire (WDnsEvent a) = bind (dns_activity_from_wire a) (\<lambda>a. Inr (DnsEvent a))"
| "kind_from_wire (WEventLogEvent a) = bind (event_log_activity_from_wire a) (\<lambda>a. Inr (EventLogEvent a))"
| "kind_from_wire (WSensorHealthEvent a) = bind (sensor_health_from_wire a) (\<lambda>a. Inr (SensorHealthEvent a))"

definition event_from_wire :: "w_event \<Rightarrow> schema_event res" where
  "event_from_wire w =
     bind (fixed 16 (w_event_id w) [] ''event_id'') (\<lambda>u.
     case event_id_from_uuid u of None \<Rightarrow> err [] ''event_id'' Malformed | Some eid \<Rightarrow>
     bind (wire_enum w_sensor_try (w_sensor w) sensor_of_wire [] ''sensor'') (\<lambda>s.
     bind (require (w_device w) [] ''device'') (\<lambda>d.
     bind (fixed 16 (w_device_uid d) ''device'' ''uid'') (\<lambda>du.
     bind (fixed 16 (w_boot_id d) ''device'' ''boot_id'') (\<lambda>bi.
     bind (bind (require (w_event_kind w) [] ''kind'') kind_from_wire) (\<lambda>k.
     Inr \<lparr>meta = \<lparr>event_id = eid, event_time = w_event_time w, sensor = s\<rparr>,
          device = \<lparr>device_uid = du, boot_id = bi\<rparr>, event_kind = k\<rparr>))))))"

definition encode_event :: "(w_event \<Rightarrow> bytes) \<Rightarrow> schema_event \<Rightarrow> bytes" where
  "encode_event pb_encode e = pb_encode (event_to_wire e)"

definition decode_event :: "(bytes \<Rightarrow> w_event option) \<Rightarrow> bytes \<Rightarrow> schema_event res" where
  "decode_event pb_decode b =
     (if length b > EVENT_MAX then Inl (schema_error_new ''event'' TooLarge)
      else case pb_decode b of
        None \<Rightarrow> Inl (schema_error_new ''event'' Malformed)
      | Some w \<Rightarrow> event_from_wire w)"

section \<open>OCSF numbers\<close>

record ocsf_ids =
  category_uid :: nat
  ocsf_class_uid :: nat
  activity_id :: nat

definition type_uid :: "ocsf_ids \<Rightarrow> nat" where
  "type_uid i = ocsf_class_uid i * 100 + activity_id i"

definition OCSF_SYSTEM :: nat where "OCSF_SYSTEM = 1"
definition OCSF_NETWORK :: nat where "OCSF_NETWORK = 4"
definition OCSF_APPLICATION :: nat where "OCSF_APPLICATION = 6"
definition ATLAS_EXTENSION_UID :: nat where "ATLAS_EXTENSION_UID = 500"

definition SENSOR_HEALTH_CLASS_UID :: nat where
  "SENSOR_HEALTH_CLASS_UID = ATLAS_EXTENSION_UID * 100000 + OCSF_APPLICATION * 1000 + 1"

definition ocsf_triple :: "event_kind \<Rightarrow> nat \<times> nat \<times> nat" where
  "ocsf_triple k = (case k of
     ProcessEvent a \<Rightarrow> (OCSF_SYSTEM, 1007, case a of Launch _ _ \<Rightarrow> 1 | Terminate _ _ \<Rightarrow> 2)
   | ModuleEvent a \<Rightarrow> (OCSF_SYSTEM, 1005, case module_act a of Load _ _ \<Rightarrow> 1)
   | NetworkEvent a \<Rightarrow> (OCSF_NETWORK, 4001, case net_act a of NOpen \<Rightarrow> 1 | NClose _ _ \<Rightarrow> 2)
   | FileEvent a \<Rightarrow> (OCSF_SYSTEM, 1001, case file_act a of FCreate \<Rightarrow> 1 | FRead \<Rightarrow> 2 | FUpdate \<Rightarrow> 3
       | FDelete \<Rightarrow> 4 | FRename _ \<Rightarrow> 5 | FSetAttributes \<Rightarrow> 6 | FOpen \<Rightarrow> 14)
   | RegistryKeyEvent a \<Rightarrow> (OCSF_SYSTEM, 201001, case key_act a of RKCreate \<Rightarrow> 1 | RKDelete \<Rightarrow> 4 | RKRename _ \<Rightarrow> 5)
   | RegistryValueEvent a \<Rightarrow> (OCSF_SYSTEM, 201002, case value_act a of RVSet _ \<Rightarrow> 2 | RVDelete \<Rightarrow> 4)
   | DnsEvent a \<Rightarrow> (OCSF_NETWORK, 4003, case dns_act a of Response _ _ _ \<Rightarrow> 2)
   | EventLogEvent a \<Rightarrow> (OCSF_SYSTEM, 1008, case log_act a of LogStop \<Rightarrow> 7 | LogRestart \<Rightarrow> 8 | LogDisable \<Rightarrow> 10)
   | SensorHealthEvent a \<Rightarrow> (OCSF_APPLICATION, SENSOR_HEALTH_CLASS_UID, 1))"

definition ocsf_ids_of :: "event_kind \<Rightarrow> ocsf_ids" where
  "ocsf_ids_of k = (case ocsf_triple k of (c, u, a) \<Rightarrow> \<lparr>category_uid = c, ocsf_class_uid = u, activity_id = a\<rparr>)"

section \<open>The codec of the envelope\<close>

primrec kind_valid :: "event_kind \<Rightarrow> bool" where
  "kind_valid (ProcessEvent a) = process_activity_valid a"
| "kind_valid (ModuleEvent a) = module_activity_valid a"
| "kind_valid (NetworkEvent a) = network_activity_valid a"
| "kind_valid (FileEvent a) = file_activity_valid a"
| "kind_valid (RegistryKeyEvent a) = registry_key_activity_valid a"
| "kind_valid (RegistryValueEvent a) = registry_value_activity_valid a"
| "kind_valid (DnsEvent a) = dns_activity_valid a"
| "kind_valid (EventLogEvent a) = event_log_activity_valid a"
| "kind_valid (SensorHealthEvent a) = health_valid a"

definition is_health :: "event_kind \<Rightarrow> bool" where
  "is_health k = (case k of SensorHealthEvent _ \<Rightarrow> True | _ \<Rightarrow> False)"

definition event_valid :: "schema_event \<Rightarrow> bool" where
  "event_valid e \<longleftrightarrow> length (event_id (meta e)) = 16 \<and> event_id_from_uuid (event_id (meta e)) = Some (event_id (meta e)) \<and>
     uid16_ok (device_uid (device e)) \<and> uid16_ok (boot_id (device e)) \<and> kind_valid (event_kind e)"

lemma sensor_iff: "(\<exists>w. w_sensor_try i = Some w \<and> sensor_of_wire w = Some d) \<longleftrightarrow>
    i = w_sensor_num (case d of Etw \<Rightarrow> WEtw | Driver \<Rightarrow> WDriver)"
  by (cases d) (auto simp: w_sensor_try_def split: if_splits)

lemma event_id_ok: "event_id_from_uuid u = Some v \<Longrightarrow> v = u \<and> event_id_from_uuid v = Some v"
  by (auto simp: event_id_from_uuid_def split: if_splits)

lemma fixed_eq: "length b = n \<Longrightarrow> fixed n b p f = Inr b"
  by simp

lemma wire_enum_eq: "t raw = Some x \<Longrightarrow> m x = Some y \<Longrightarrow> wire_enum t raw m p f = Inr y"
  by simp

text \<open>What a kind's conversion accepts: an encoding of a valid value, or for Sensor Health whatever
  reads as one.\<close>

lemma kind_accepted:
  "kind_from_wire w = Inr k \<Longrightarrow> kind_valid k \<and> (\<not> is_health k \<longrightarrow> w = kind_to_wire k)"
  by (cases w) (auto simp: codec_iff is_health_def dest: health_codec.dec_valid)

lemma kind_back: "kind_valid k \<Longrightarrow> kind_from_wire (kind_to_wire k) = Inr k"
  by (cases k) (auto simp: codec_iff dest: health_codec.dec_enc)

interpretation event_codec: codec event_to_wire event_from_wire event_valid
proof
  fix d assume v: "event_valid d"
  have s: "wire_enum w_sensor_try (w_sensor_num (case sensor (meta d) of Etw \<Rightarrow> WEtw | Driver \<Rightarrow> WDriver))
      sensor_of_wire [] ''sensor'' = Inr (sensor (meta d))"
    by (simp add: sensor_iff)
  have f: "fixed 16 b p q = Inr b" if "length b = 16" for b p q using that by simp
  show "event_from_wire (event_to_wire d) = Inr d"
    using v kind_back [of "event_kind d"]
    by (simp add: event_from_wire_def event_to_wire_def event_valid_def s f uid16_ok_def require_def)
next
  fix w d assume "event_from_wire w = Inr d"
  then show "event_valid d"
    by (auto simp: event_from_wire_def event_valid_def uid16_ok_def
      dest: kind_accepted event_id_ok split: option.splits)
qed

text \<open>Apart from Sensor Health, an accepted message is the encoding of its event.\<close>

lemma event_exact:
  assumes "event_from_wire w = Inr d" and "\<not> is_health (event_kind d)"
  shows "w = event_to_wire d"
proof -
  obtain i t s dv k where w: "w = \<lparr>w_event_id = i, w_event_time = t, w_sensor = s, w_device = dv, w_event_kind = k\<rparr>"
    by (cases w) auto
  show ?thesis
    using assms
    by (auto simp: w event_from_wire_def event_to_wire_def sensor_iff intro!: w_device.equality
      dest: kind_accepted event_id_ok split: option.splits)
qed

section \<open>Properties\<close>

text \<open>C19: the validation gate. Decoding bytes checks the size before anything is parsed and accepts
  only valid events: an id of 16 bytes that has version 7 in its seventh byte and the RFC 9562 variant
  in its ninth, 16-byte device and boot ids, and a body within every limit; and the event accepted
  comes back from its own message. Bytes written for an event are accepted exactly when they fit and
  the event is valid, and give the event back. Two valid events are never written as the same message,
  nor as the same bytes. Assumed of the protobuf library: decoding what it encoded for an event gives
  that event's message.\<close>

theorem decode_gate:
  assumes pb: "pb_decode (encode_event pb_encode e) = Some (event_to_wire e)"
  shows "(decode_event pb_decode (encode_event pb_encode e) = Inr e \<longleftrightarrow>
      length (encode_event pb_encode e) \<le> EVENT_MAX \<and> event_valid e) \<and>
    (\<forall>b d. decode_event pb_decode b = Inr d \<longrightarrow> length b \<le> EVENT_MAX \<and> event_valid d \<and>
       length (event_id (meta d)) = 16 \<and> unat (event_id (meta d) ! 6) div 16 = 7 \<and>
       unat (event_id (meta d) ! 8) div 64 = 2 \<and> event_from_wire (event_to_wire d) = Inr d) \<and>
    (\<forall>b. EVENT_MAX < length b \<longrightarrow> decode_event pb_decode b = Inl (schema_error_new ''event'' TooLarge)) \<and>
    (\<forall>e'. event_valid e \<and> event_valid e' \<and> event_to_wire e' = event_to_wire e \<longrightarrow> e' = e) \<and>
    (\<forall>e'. event_valid e \<and> event_valid e' \<and> pb_decode (encode_event pb_encode e') = Some (event_to_wire e') \<and>
       encode_event pb_encode e' = encode_event pb_encode e \<longrightarrow> e' = e)"
proof -
  have a: "decode_event pb_decode (encode_event pb_encode e) = Inr e \<longleftrightarrow>
      length (encode_event pb_encode e) \<le> EVENT_MAX \<and> event_valid e"
    using pb event_codec.round_trip_iff [of e] by (auto simp: decode_event_def)
  have b: "length b \<le> EVENT_MAX \<and> event_valid d \<and> length (event_id (meta d)) = 16 \<and>
      unat (event_id (meta d) ! 6) div 16 = 7 \<and> unat (event_id (meta d) ! 8) div 64 = 2 \<and>
      event_from_wire (event_to_wire d) = Inr d"
    if "decode_event pb_decode b = Inr d" for b d
  proof -
    obtain w where "event_from_wire w = Inr d" "length b \<le> EVENT_MAX"
      using \<open>decode_event pb_decode b = Inr d\<close> by (auto simp: decode_event_def split: if_splits option.splits)
    moreover from this have v: "event_valid d" "event_from_wire (event_to_wire d) = Inr d"
      using event_codec.dec_valid event_codec.dec_again by blast+
    ultimately show ?thesis
      by (simp add: event_valid_def event_id_from_uuid_def uuid_version_def uuid_rfc_variant_def split: if_splits)
  qed
  have c: "e' = e" if "event_valid e" "event_valid e'" "event_to_wire e' = event_to_wire e" for e'
    using event_codec.enc_inj that by blast
  have d: "event_to_wire e' = event_to_wire e"
    if "pb_decode (encode_event pb_encode e') = Some (event_to_wire e')" "encode_event pb_encode e' = encode_event pb_encode e" for e'
    using that pb by simp
  have f: "decode_event pb_decode b = Inl (schema_error_new ''event'' TooLarge)" if "EVENT_MAX < length b" for b
    using that by (simp add: decode_event_def)
  show ?thesis using a b c d f by blast
qed

definition demo_event :: schema_event where
  "demo_event = \<lparr>meta = \<lparr>event_id = [1, 2, 3, 4, 5, 6, 0x70, 8, 0x80, 10, 11, 12, 13, 14, 15, 16], event_time = 5, sensor = Etw\<rparr>,
     device = \<lparr>device_uid = replicate 16 1, boot_id = replicate 16 2\<rparr>,
     event_kind = EventLogEvent \<lparr>log_actor = None, log_name = [65], log_provider = [66], status_code = Some 5, log_act = LogDisable\<rparr>\<rparr>"

theorem decode_gate_witness:
  "decode_event (\<lambda>b. Some (event_to_wire demo_event)) (encode_event (\<lambda>w. [7]) demo_event) = Inr demo_event"
proof -
  have "event_from_wire (event_to_wire demo_event) = Inr demo_event" by code_simp
  then have "event_valid demo_event" by (rule event_codec.dec_valid)
  then show ?thesis
    using decode_gate [of "\<lambda>b. Some (event_to_wire demo_event)" "\<lambda>w. [7]" demo_event]
    by (simp add: encode_event_def EVENT_MAX_def)
qed

text \<open>C20: a message is accepted only as its event's own encoding, except for Sensor Health reports,
  where an empty counter group may have been sent: no two different messages give the same event.\<close>

theorem accepted_is_encoding:
  assumes "event_from_wire w = Inr e" and "\<not> is_health (event_kind e)"
  shows "w = event_to_wire e \<and> event_valid e"
  using event_exact [OF assms] event_codec.dec_valid [OF assms(1)] by simp

theorem accepted_is_encoding_witness:
  "event_valid demo_event \<and> event_to_wire demo_event = event_to_wire demo_event"
proof -
  have "event_from_wire (event_to_wire demo_event) = Inr demo_event" "\<not> is_health (event_kind demo_event)"
    by code_simp+
  then show ?thesis using accepted_is_encoding by blast
qed

text \<open>Forward compatibility. A message of any class whose activity this build does not know (the
  oneof reads as absent) is refused as \<open>activity: Missing\<close>, whatever else is wrong with it, once the
  envelope's own fields are right.\<close>

lemma newer_activity_missing:
  assumes "wk = WProcessEvent \<lparr>w_process_act = None\<rparr> \<or>
      (\<exists>a. wk = WModuleEvent a \<and> w_module_act a = None) \<or> (\<exists>a. wk = WNetworkEvent a \<and> w_net_act a = None) \<or>
      (\<exists>a. wk = WFileEvent a \<and> w_file_act a = None) \<or> (\<exists>a. wk = WRegistryKeyEvent a \<and> w_key_act a = None) \<or>
      (\<exists>a. wk = WRegistryValueEvent a \<and> w_value_act a = None) \<or> (\<exists>a. wk = WDnsEvent a \<and> w_dns_act a = None) \<or>
      (\<exists>a. wk = WEventLogEvent a \<and> w_log_act a = None) \<or>
      (\<exists>a. wk = WSensorHealthEvent a \<and> w_health_act a = None)"
    and "event_from_wire w = Inr e"
  shows "event_from_wire (w\<lparr>w_event_kind := Some wk\<rparr>) = Inl \<lparr>field_path = ''activity'', kind = Missing\<rparr>"
proof -
  have "kind_from_wire wk = Inl \<lparr>field_path = ''activity'', kind = Missing\<rparr>"
    using assms(1)
    by (auto simp: process_activity_from_wire_def module_activity_from_wire_def network_activity_from_wire_def
      file_activity_from_wire_def registry_key_activity_from_wire_def registry_value_activity_from_wire_def
      dns_activity_from_wire_def event_log_activity_from_wire_def sensor_health_from_wire_def require_def
      err_def schema_error_new_def field_join_def)
  then show ?thesis
    using assms(2) by (auto simp: event_from_wire_def require_def fixed_eq wire_enum_eq split: option.splits)
qed

lemma newer_activity_missing_witness:
  "event_from_wire ((event_to_wire demo_event)\<lparr>w_event_kind := Some (WProcessEvent \<lparr>w_process_act = None\<rparr>)\<rparr>) =
     Inl \<lparr>field_path = ''activity'', kind = Missing\<rparr>"
proof -
  have "event_from_wire (event_to_wire demo_event) = Inr demo_event" by code_simp
  from newer_activity_missing [OF disjI1 [OF refl] this] show ?thesis .
qed

text \<open>The OCSF type number of an event determines its class and its activity, and with them its
  category: \<open>type_uid\<close> is \<open>class * 100 + activity\<close> with activities below 100, and no two classes
  share a number.\<close>

lemma type_uid_decodes:
  "ocsf_class_uid (ocsf_ids_of k) = type_uid (ocsf_ids_of k) div 100 \<and>
   activity_id (ocsf_ids_of k) = type_uid (ocsf_ids_of k) mod 100 \<and> 0 < activity_id (ocsf_ids_of k) \<and>
   (type_uid (ocsf_ids_of k) = type_uid (ocsf_ids_of k') \<longrightarrow> ocsf_ids_of k = ocsf_ids_of k')"
proof -
  have b: "0 < activity_id (ocsf_ids_of k) \<and> activity_id (ocsf_ids_of k) < 100" for k
    by (cases k)
      (auto simp: ocsf_ids_of_def ocsf_triple_def split: process_activity.splits module_action.splits
        network_action.splits file_action.splits registry_key_action.splits registry_value_action.splits
        dns_action.splits event_log_action.splits)
  have c: "category_uid (ocsf_ids_of k) = category_uid (ocsf_ids_of k')"
    if "ocsf_class_uid (ocsf_ids_of k) = ocsf_class_uid (ocsf_ids_of k')" for k k'
    using that by (cases k; cases k')
      (simp_all add: ocsf_ids_of_def ocsf_triple_def SENSOR_HEALTH_CLASS_UID_def ATLAS_EXTENSION_UID_def OCSF_APPLICATION_def)
  have d: "ocsf_class_uid (ocsf_ids_of k) = type_uid (ocsf_ids_of k) div 100"
    "activity_id (ocsf_ids_of k) = type_uid (ocsf_ids_of k) mod 100" for k
    using b [of k] by (simp_all add: type_uid_def)
  have "ocsf_ids_of k = ocsf_ids_of k'" if "type_uid (ocsf_ids_of k) = type_uid (ocsf_ids_of k')"
    using that d [of k] d [of k'] c [of k k'] by (intro ocsf_ids.equality) simp_all
  then show ?thesis using b [of k] d [of k] by blast
qed

lemma type_uid_decodes_example:
  "type_uid (ocsf_ids_of (event_kind demo_event)) = 100810 \<and> activity_id (ocsf_ids_of (event_kind demo_event)) = 10"
proof -
  have t: "type_uid (ocsf_ids_of (event_kind demo_event)) = 100810" by code_simp
  have "activity_id (ocsf_ids_of (event_kind demo_event)) = type_uid (ocsf_ids_of (event_kind demo_event)) mod 100"
    using type_uid_decodes [of "event_kind demo_event" "event_kind demo_event"] by blast
  then show ?thesis unfolding t by simp
qed

end
