(* ===== verification/Pl_Services.thy ===== *)
theory Pl_Services
  imports Ag_Intake Ag_Paths Ag_Completion Sch_Event
begin

text \<open>
  What the pipeline exchanges with the rest of the agent (\<open>crates/atlas-agent/src/services.rs\<close>), its
  counters (\<open>counters.rs\<close>), and the tables each of its parts keeps (\<open>pipeline/expand.rs\<close>, \<open>proc.rs\<close>,
  \<open>reg.rs\<close>, \<open>net.rs\<close>, \<open>seed.rs\<close>, \<open>file.rs\<close>) with the methods that need the table alone. A hash map is an
  association list, and an iteration over one takes its order.
\<close>

section \<open>Requests and replies\<close>

record live_process =
  lp_start_key :: u64
  lp_image_path :: rstr
  lp_command_line :: "rstr option"

datatype enrich_target = LaunchImage | ModuleImage

datatype handle_kind = KeyHandle | FileHandle

record value_data =
  vd_value_type :: u32
  vd_size :: u32
  vd_data :: bytes

datatype request =
    ReqEnrich pending_id enrich_target rstr
  | ReqInvalidateHash rstr
  | ReqReadValue pending_id value_read
  | ReqExpand pending_id nat rstr
  | ReqSeed handle_kind "u64 list"

record named_handle =
  nh_address :: u64
  nh_owner :: u32
  nh_name :: rstr

record snapshot =
  sn_kind :: handle_kind
  sn_taken :: int
  sn_asked :: "u64 list"
  sn_named :: "named_handle list"
  sn_unnamable :: "(u64 \<times> u32) list"

datatype reply =
    RepEnriched pending_id "hashes option" "signature option" bool
  | RepValueRead pending_id "value_data option"
  | RepEarlyRead early_key value_read "value_data option"
  | RepExpanded pending_id nat "rstr option"
  | RepSnapshot snapshot

text \<open>What stands for code outside the repository: the lookups' three queries and the id generator,
  each with a state of its own; BLAKE3; the Unicode tables of \<open>to_lowercase\<close>; the growth of a vector.\<close>

record ('l, 'g) outside =
  dos_path :: "'l \<Rightarrow> rstr \<Rightarrow> rstr option \<times> 'l"
  live_process_of :: "'l \<Rightarrow> u32 \<Rightarrow> live_process option \<times> 'l"
  account_name :: "'l \<Rightarrow> rstr \<Rightarrow> rstr option \<times> 'l"
  next_event_id :: "'g \<Rightarrow> int \<Rightarrow> bytes \<times> 'g"
  blake3_of :: "bytes \<Rightarrow> bytes"
  lowercase :: "rstr \<Rightarrow> rstr"
  growth :: "nat \<Rightarrow> nat"

section \<open>Counters\<close>

datatype event_class = FileClass | ModuleClass | ProcessClass | NetworkClass | DnsClass
  | RegistryKeyClass | RegistryValueClass

definition class_uid :: "event_class \<Rightarrow> nat" where
  "class_uid c = (case c of FileClass \<Rightarrow> 1001 | ModuleClass \<Rightarrow> 1005 | ProcessClass \<Rightarrow> 1007
     | NetworkClass \<Rightarrow> 4001 | DnsClass \<Rightarrow> 4003 | RegistryKeyClass \<Rightarrow> 201001 | RegistryValueClass \<Rightarrow> 201002)"

record counters =
  n_actor_dropped :: "(event_class \<times> nat) list"
  n_late_arrivals :: nat
  n_launch_join_miss :: nat
  n_actor_unresolved :: "(event_class \<times> nat) list"
  n_unknown_file_object :: nat
  n_registry_unresolved :: nat
  n_value_read_failed :: nat
  n_early_read_redone :: nat
  n_reg_type_unusual :: nat
  n_reg_name_ambiguous :: nat
  n_file_op_late_failure :: nat
  n_writes_after_cleanup :: nat
  n_file_object_replaced :: nat
  n_enrichment_misses :: nat
  n_enrichment_errors :: nat
  n_file_delete_outcome_unknown :: nat
  n_process_cache_evictions :: nat
  n_file_map_evictions :: nat
  n_key_map_evictions :: nat
  n_flow_table_evictions :: nat
  n_file_op_failed :: nat
  n_pending_overflow :: nat
  n_self_filtered :: nat

definition counters_default :: counters where
  "counters_default = \<lparr>n_actor_dropped = [], n_late_arrivals = 0, n_launch_join_miss = 0,
     n_actor_unresolved = [], n_unknown_file_object = 0, n_registry_unresolved = 0, n_value_read_failed = 0,
     n_early_read_redone = 0, n_reg_type_unusual = 0, n_reg_name_ambiguous = 0, n_file_op_late_failure = 0,
     n_writes_after_cleanup = 0, n_file_object_replaced = 0, n_enrichment_misses = 0,
     n_enrichment_errors = 0, n_file_delete_outcome_unknown = 0, n_process_cache_evictions = 0,
     n_file_map_evictions = 0, n_key_map_evictions = 0, n_flow_table_evictions = 0, n_file_op_failed = 0,
     n_pending_overflow = 0, n_self_filtered = 0\<rparr>"

definition add_class :: "event_class \<Rightarrow> (event_class \<times> nat) list \<Rightarrow> (event_class \<times> nat) list" where
  "add_class c m = AList.update c ((case map_of m c of None \<Rightarrow> 0 | Some n \<Rightarrow> n) + 1) m"

text \<open>\<open>Pending::take\<close>.\<close>

definition pending_take :: "pending_id \<Rightarrow> (pending_id \<times> 't) list \<Rightarrow> 't option \<times> (pending_id \<times> 't) list" where
  "pending_take i m = (map_of m i, AList.delete i m)"

section \<open>The tables\<close>

datatype path_slot = SlotFile | SlotRenameResult | SlotImage

record expansion =
  x_slot :: path_slot
  x_fo :: "u64 option"
  x_image_key :: "u64 option"
  x_open_logged :: "bool option"

definition expansion_file :: "u64 option \<Rightarrow> expansion" where
  "expansion_file fo = \<lparr>x_slot = SlotFile, x_fo = fo, x_image_key = None, x_open_logged = None\<rparr>"

record expands =
  xp_by_slot :: "((pending_id \<times> nat) \<times> (expansion \<times> rstr option)) list"
  xp_outstanding :: "(pending_id \<times> (nat \<times> nat)) list"

definition expands_default :: expands where
  "expands_default = \<lparr>xp_by_slot = [], xp_outstanding = []\<rparr>"

definition expands_forget :: "pending_id \<Rightarrow> expands \<Rightarrow> expands" where
  "expands_forget i x = (case map_of (xp_outstanding x) i of
     None \<Rightarrow> x
   | Some (_, n) \<Rightarrow>
       x\<lparr>xp_outstanding := AList.delete i (xp_outstanding x),
         xp_by_slot := fold (\<lambda>slot. AList.delete (i, slot)) [0..<n] (xp_by_slot x)\<rparr>)"

record launches =
  la_kernel :: "(u32 \<times> (int \<times> pending_id \<times> u64)) list"
  la_classic :: "(u32 \<times> (int \<times> classic_process_ev \<times> header)) list"
  la_enrich :: "(pending_id \<times> enrich_target) list"

definition launches_default :: launches where
  "launches_default = \<lparr>la_kernel = [], la_classic = [], la_enrich = []\<rparr>"

definition launches_forget :: "pending_id \<Rightarrow> launches \<Rightarrow> launches" where
  "launches_forget i l = l\<lparr>la_enrich := snd (pending_take i (la_enrich l))\<rparr>"

subsection \<open>Registry\<close>

record expected =
  ex_value_type :: u32
  ex_data_size :: u32

record key_waiter =
  kw_id :: pending_id
  kw_ts :: int
  kw_key :: u64
  kw_read :: "(wstr \<times> expected \<times> early_key) option"

record registry =
  rg_early :: "(early_key \<times> (value_read \<times> value_data option)) list"
  rg_reads :: "(pending_id \<times> expected) list"
  rg_waiting :: "(u64 \<times> key_waiter list) list"
  rg_waiter_root :: "(pending_id \<times> u64) list"

definition registry_default :: registry where
  "registry_default = \<lparr>rg_early = [], rg_reads = [], rg_waiting = [], rg_waiter_root = []\<rparr>"

definition registry_forget :: "pending_id \<Rightarrow> registry \<Rightarrow> registry" where
  "registry_forget i r =
     (let r = r\<lparr>rg_reads := snd (pending_take i (rg_reads r))\<rparr>;
          root = map_of (rg_waiter_root r) i;
          r = r\<lparr>rg_waiter_root := AList.delete i (rg_waiter_root r)\<rparr>
      in case root of
           None \<Rightarrow> r
         | Some root \<Rightarrow> (case map_of (rg_waiting r) root of
             None \<Rightarrow> r
           | Some ws \<Rightarrow>
               (let ws = filter (\<lambda>w. kw_id w \<noteq> i) ws
                in if ws = [] then r\<lparr>rg_waiting := AList.delete root (rg_waiting r)\<rparr>
                   else r\<lparr>rg_waiting := AList.update root ws (rg_waiting r)\<rparr>)))"

definition EARLY_CAP :: nat where "EARLY_CAP = 65536"

definition on_early_read :: "early_key \<Rightarrow> value_read \<Rightarrow> value_data option \<Rightarrow> registry \<Rightarrow> registry" where
  "on_early_read event read result r =
     (let early = (if length (rg_early r) \<ge> EARLY_CAP then [] else rg_early r)
      in r\<lparr>rg_early := AList.update event (read, result) early\<rparr>)"

definition prune_early :: "int \<Rightarrow> registry \<Rightarrow> registry" where
  "prune_early before r = r\<lparr>rg_early := filter (\<lambda>(k, _). ekey_ts k \<ge> before) (rg_early r)\<rparr>"

subsection \<open>Network\<close>

datatype tcp_kind = TcpConnecting | TcpAccepting | TcpDisconnecting

type_synonym ep = "ip_addr \<times> u16"

record flow =
  flow_actor :: process_ref
  flow_local :: ep
  flow_remote :: ep
  flow_direction :: network_direction
  flow_last :: int

type_synonym flow_key = "uid16 \<times> ep \<times> ep"

record network =
  nt_tcp :: "((u32 \<times> ep \<times> ep) \<times> network_direction) list"
  nt_flows :: "(flow_key \<times> flow) list"
  nt_cap :: nat
  nt_idle :: int
  nt_evictions :: nat

definition network_new :: "nat \<Rightarrow> int \<Rightarrow> network" where
  "network_new cap idle_ticks =
     \<lparr>nt_tcp = [], nt_flows = [], nt_cap = cap, nt_idle = idle_ticks, nt_evictions = 0\<rparr>"

subsection \<open>Seeding\<close>

definition CHANGES_CAP :: nat where "CHANGES_CAP = 2 ^ 19"
definition UNNAMABLE_CAP :: nat where "UNNAMABLE_CAP = 2 ^ 16"

record seeding =
  sd_asks :: "(handle_kind \<times> u64 list) list"
  sd_last_request :: "(handle_kind \<times> int) list"
  sd_latest :: "(handle_kind \<times> u64 list) list"
  sd_queued :: "snapshot list"
  sd_unnamable :: "((handle_kind \<times> u64) \<times> (u32 \<times> nat)) list"
  sd_unnamable_seq :: nat
  sd_changes :: "(handle_kind \<times> u64) recent"
  sd_startup :: "handle_kind list"
  sd_on_miss :: bool

definition seeding_new :: "bool \<Rightarrow> seeding" where
  "seeding_new on_miss = \<lparr>sd_asks = [], sd_last_request = [], sd_latest = [], sd_queued = [],
     sd_unnamable = [], sd_unnamable_seq = 0, sd_changes = recent_new CHANGES_CAP, sd_startup = [],
     sd_on_miss = on_miss\<rparr>"

definition seeding_start :: "seeding \<Rightarrow> request list \<Rightarrow> seeding \<times> request list" where
  "seeding_start s requests =
     fold (\<lambda>hk (s, requests). (s\<lparr>sd_startup := List.insert hk (sd_startup s)\<rparr>, requests @ [ReqSeed hk []]))
       [KeyHandle, FileHandle] (s, requests)"

definition startup_pending :: "handle_kind \<Rightarrow> seeding \<Rightarrow> bool" where
  "startup_pending hk s \<longleftrightarrow> hk \<in> set (sd_startup s)"

definition mark_unnamable :: "handle_kind \<Rightarrow> u64 \<Rightarrow> u32 \<Rightarrow> seeding \<Rightarrow> seeding" where
  "mark_unnamable hk address owner s =
     (let u = sd_unnamable s;
          u = (if length u \<ge> UNNAMABLE_CAP
               then fold AList.delete (oldest (map (\<lambda>(k, _, sq). (k, sq)) u) (length u)) u else u);
          sq = sd_unnamable_seq s + 1
      in s\<lparr>sd_unnamable_seq := sq, sd_unnamable := AList.update (hk, address) (owner, sq) u\<rparr>)"

definition seeding_expire :: "int \<Rightarrow> seeding \<Rightarrow> seeding" where
  "seeding_expire before s = s\<lparr>sd_changes := recent_expire before (sd_changes s)\<rparr>"

definition ask_set :: "handle_kind \<Rightarrow> (handle_kind \<times> u64 list) list \<Rightarrow> u64 list" where
  "ask_set hk m = (case map_of m hk of None \<Rightarrow> [] | Some xs \<Rightarrow> xs)"

definition ask :: "handle_kind \<Rightarrow> u64 \<Rightarrow> bool \<Rightarrow> seeding \<Rightarrow> seeding" where
  "ask hk address enabled s =
     (if \<not> enabled \<or> address \<in> set (ask_set hk (sd_latest s)) then s
      else s\<lparr>sd_asks := AList.update hk (List.insert address (ask_set hk (sd_asks s))) (sd_asks s)\<rparr>)"

definition flush_ask :: "int \<Rightarrow> ticks \<Rightarrow> handle_kind \<Rightarrow> seeding \<times> request list \<Rightarrow> seeding \<times> request list" where
  "flush_ask now t hk = (\<lambda>(s, requests).
     if \<not> is_none_or (map_of (sd_last_request s) hk) (\<lambda>at. ticks_of t (secs 1) \<le> sat_sub now at) then (s, requests)
     else
       (let asked = ask_set hk (sd_asks s); s = s\<lparr>sd_asks := AList.delete hk (sd_asks s)\<rparr>
        in if asked = [] then (s, requests)
           else (s\<lparr>sd_last_request := AList.update hk now (sd_last_request s)\<rparr>,
                 requests @ [ReqSeed hk (sort asked)])))"

definition flush_asks :: "int \<Rightarrow> ticks \<Rightarrow> seeding \<Rightarrow> request list \<Rightarrow> seeding \<times> request list" where
  "flush_asks now t s requests = fold (flush_ask now t) [KeyHandle, FileHandle] (s, requests)"

definition seeding_queue :: "snapshot \<Rightarrow> seeding \<Rightarrow> seeding" where
  "seeding_queue sn s = s\<lparr>sd_queued := sd_queued s @ [sn]\<rparr>"

definition history_needed :: "seeding \<Rightarrow> bool" where
  "history_needed s \<longleftrightarrow> sd_on_miss s \<or> sd_startup s \<noteq> [] \<or> sd_queued s \<noteq> []"

definition changed :: "handle_kind \<Rightarrow> u64 \<Rightarrow> int \<Rightarrow> seeding \<Rightarrow> seeding" where
  "changed hk address ts s =
     (let s = (if history_needed s then s\<lparr>sd_changes := recent_insert (hk, address) ts (sd_changes s)\<rparr> else s)
      in s\<lparr>sd_unnamable := AList.delete (hk, address) (sd_unnamable s)\<rparr>)"

definition last_change :: "handle_kind \<Rightarrow> u64 \<Rightarrow> seeding \<Rightarrow> int option" where
  "last_change hk address s = recent_get (hk, address) (sd_changes s)"

definition is_unnamable :: "handle_kind \<Rightarrow> u64 \<Rightarrow> seeding \<Rightarrow> bool" where
  "is_unnamable hk address s \<longleftrightarrow> map_of (sd_unnamable s) (hk, address) \<noteq> None"

definition owner_exited :: "u32 \<Rightarrow> seeding \<Rightarrow> seeding" where
  "owner_exited pid s = s\<lparr>sd_unnamable := filter (\<lambda>(_, owner, _). owner \<noteq> pid) (sd_unnamable s)\<rparr>"

end
