(* ===== verification/Pl_State.thy ===== *)
theory Pl_State
  imports Pl_Services Ag_Watch
begin

text \<open>
  The pipeline's state (\<open>crates/atlas-agent/src/pipeline/mod.rs\<close>), the file tables
  (\<open>pipeline/file.rs\<close>), and what every handler uses: new events, waits, and the actor of an event. A
  handler is a function of the state; the functions of \<open>outside\<close> come first.
\<close>

section \<open>The file tables\<close>

definition FAILED_CAP :: nat where "FAILED_CAP = 2 ^ 16"
definition CONFIRMED_CAP :: nat where "CONFIRMED_CAP = 2 ^ 18"
definition OPENED_CAP :: nat where "OPENED_CAP = 2 ^ 16"
definition CLEANUPS_CAP :: nat where "CLEANUPS_CAP = 2 ^ 16"
definition REQUESTS_CAP :: nat where "REQUESTS_CAP = 2 ^ 14"
definition CLEANED_CAP :: nat where "CLEANED_CAP = 2 ^ 16"
definition CLEANED_KEEP :: nat where "CLEANED_KEEP = secs 60"
definition FILE_BASIC_INFORMATION :: u32 where "FILE_BASIC_INFORMATION = 4"
definition FILE_END_OF_FILE_INFORMATION :: u32 where "FILE_END_OF_FILE_INFORMATION = 19"

type_synonym open_key = "uid16 \<times> rstr"

datatype fill = FillFile | FillOpened

record file_entry =
  fe_nt :: "rstr option"
  fe_expanded :: "rstr option"
  fe_opener :: "process_ref option"
  fe_written :: bool
  fe_delete_on_close :: bool
  fe_cleaned :: "int option"
  fe_since :: int
  fe_touched :: nat
  fe_waiting :: "(pending_id \<times> int \<times> fill) list"

datatype held_op =
    HeldCreate u64 "pending_id option" "(open_key \<times> int) option"
  | HeldRename "pending_id option" u64 rstr

datatype requester = AskedEvent header "rstr option" | AskedOpener process_ref

record files =
  fl_map :: "(u64 \<times> file_entry) list"
  fl_cap :: nat
  fl_clock :: nat
  fl_evictions :: nat
  fl_window :: int
  fl_outcome :: int
  fl_held :: "(int \<times> u64 \<times> held_op option) list"
  fl_held_base :: nat
  fl_held_by_irp :: "(u64 \<times> nat) list"
  fl_failed :: "u64 recent"
  fl_confirmed :: "u64 recent"
  fl_opened :: "open_key recent"
  fl_waiter_fo :: "(pending_id \<times> u64) list"
  fl_cleanups :: "(u64, u64 \<times> u64) recent_map"
  fl_early_outcomes :: "(u64, header \<times> u64) recent_map"
  fl_requests :: "(u64, requester) recent_map"
  fl_request_irps :: "(u64, u64) recent_map"
  fl_posix_deleted :: "(u64 \<times> u64, int) recent_map"
  fl_retiring :: "(int \<times> int \<times> u64) list"
  fl_cleaned :: "u64 recent"

definition files_new :: "nat \<Rightarrow> int \<Rightarrow> int \<Rightarrow> files" where
  "files_new cap window_ticks outcome_ticks =
     \<lparr>fl_map = [], fl_cap = cap, fl_clock = 0, fl_evictions = 0, fl_window = window_ticks,
      fl_outcome = outcome_ticks, fl_held = [], fl_held_base = 0, fl_held_by_irp = [],
      fl_failed = recent_new FAILED_CAP, fl_confirmed = recent_new CONFIRMED_CAP,
      fl_opened = recent_new OPENED_CAP, fl_waiter_fo = [], fl_cleanups = recent_map_new CLEANUPS_CAP,
      fl_early_outcomes = recent_map_new REQUESTS_CAP, fl_requests = recent_map_new REQUESTS_CAP,
      fl_request_irps = recent_map_new REQUESTS_CAP, fl_posix_deleted = recent_map_new REQUESTS_CAP,
      fl_retiring = [], fl_cleaned = recent_new CLEANED_CAP\<rparr>"

definition files_retire :: "u64 \<Rightarrow> int \<Rightarrow> files \<Rightarrow> bool \<times> files" where
  "files_retire fo at f = (case map_of (fl_map f) fo of
     None \<Rightarrow> (True, f)
   | Some e \<Rightarrow>
       if fe_cleaned e = Some at then
         if fe_waiting e \<noteq> [] then (False, f)
         else (True, f\<lparr>fl_map := AList.delete fo (fl_map f), fl_cleaned := recent_insert fo at (fl_cleaned f)\<rparr>)
       else (True, f))"

definition files_forget :: "pending_id \<Rightarrow> files \<Rightarrow> files" where
  "files_forget i f =
     (let fo = map_of (fl_waiter_fo f) i; f = f\<lparr>fl_waiter_fo := AList.delete i (fl_waiter_fo f)\<rparr>
      in case fo of
           None \<Rightarrow> f
         | Some fo \<Rightarrow>
             f\<lparr>fl_map := AList.map_entry fo
                 (\<lambda>e. e\<lparr>fe_waiting := filter (\<lambda>(w, _, _). w \<noteq> i) (fe_waiting e)\<rparr>) (fl_map f)\<rparr>)"

definition files_evict :: "u64 \<Rightarrow> files \<Rightarrow> files" where
  "files_evict k f = f\<lparr>fl_map := AList.delete k (fl_map f), fl_evictions := fl_evictions f + 1\<rparr>"

definition files_insert :: "u64 \<Rightarrow> file_entry \<Rightarrow> files \<Rightarrow> files" where
  "files_insert fo e f =
     (let f = f\<lparr>fl_clock := fl_clock f + 1\<rparr>;
          f = f\<lparr>fl_map := AList.update fo (e\<lparr>fe_touched := fl_clock f\<rparr>) (fl_map f)\<rparr>
      in if length (fl_map f) > fl_cap f
         then fold files_evict (oldest (map (\<lambda>(k, e). (k, fe_touched e)) (fl_map f)) (length (fl_map f))) f
         else f)"

definition files_touch :: "u64 \<Rightarrow> files \<Rightarrow> file_entry option \<times> files" where
  "files_touch fo f =
     (let f = f\<lparr>fl_clock := fl_clock f + 1\<rparr>
      in case map_of (fl_map f) fo of
           None \<Rightarrow> (None, f)
         | Some e \<Rightarrow>
             (let e = e\<lparr>fe_touched := fl_clock f\<rparr> in (Some e, f\<lparr>fl_map := AList.update fo e (fl_map f)\<rparr>)))"

definition files_mut :: "u64 \<Rightarrow> (file_entry \<Rightarrow> file_entry) \<Rightarrow> files \<Rightarrow> files" where
  "files_mut fo g f = f\<lparr>fl_map := AList.map_entry fo g (fl_map f)\<rparr>"

definition new_entry :: "rstr option \<Rightarrow> process_ref option \<Rightarrow> int \<Rightarrow> file_entry" where
  "new_entry nt opener since =
     \<lparr>fe_nt = nt, fe_expanded = None, fe_opener = opener, fe_written = False, fe_delete_on_close = False,
      fe_cleaned = None, fe_since = since, fe_touched = 0, fe_waiting = []\<rparr>"

definition seeded_entry :: "rstr \<Rightarrow> process_ref option \<Rightarrow> int \<Rightarrow> file_entry" where
  "seeded_entry nt opener taken = new_entry (Some nt) opener taken"

section \<open>The pipeline\<close>

record ('l, 'g) pipeline =
  pl_cfg :: agent_config
  pl_ticks :: ticks
  pl_clock :: clock
  pl_id :: identity
  pl_ccs :: nat
  pl_self_keys :: "u64 list"
  pl_self_uids :: "uid16 list"
  pl_started :: int
  pl_lookups :: 'l
  pl_ids :: 'g
  pl_ordering :: "raw_event ordering"
  pl_completion :: "schema_event completion"
  pl_procs :: proc_cache
  pl_launches :: launches
  pl_files :: files
  pl_keys :: keymap
  pl_reg :: registry
  pl_net :: network
  pl_watch :: watchlist
  pl_seeding :: seeding
  pl_expands :: expands
  pl_requests :: "request list"
  pl_counters :: counters
  pl_stream :: int
  pl_now :: int
  pl_next_sweep :: int

definition count :: "(counters \<Rightarrow> counters) \<Rightarrow> ('l, 'g) pipeline \<Rightarrow> ('l, 'g) pipeline" where
  "count f p = p\<lparr>pl_counters := f (pl_counters p)\<rparr>"

definition push_request :: "request \<Rightarrow> ('l, 'g) pipeline \<Rightarrow> ('l, 'g) pipeline" where
  "push_request r p = p\<lparr>pl_requests := pl_requests p @ [r]\<rparr>"

definition complete :: "(schema_event completion \<Rightarrow> schema_event completion) \<Rightarrow> ('l, 'g) pipeline \<Rightarrow> ('l, 'g) pipeline" where
  "complete f p = p\<lparr>pl_completion := f (pl_completion p)\<rparr>"

definition on_files :: "(files \<Rightarrow> files) \<Rightarrow> ('l, 'g) pipeline \<Rightarrow> ('l, 'g) pipeline" where
  "on_files f p = p\<lparr>pl_files := f (pl_files p)\<rparr>"

definition on_seeding :: "(seeding \<Rightarrow> seeding) \<Rightarrow> ('l, 'g) pipeline \<Rightarrow> ('l, 'g) pipeline" where
  "on_seeding f p = p\<lparr>pl_seeding := f (pl_seeding p)\<rparr>"

definition make_event :: "('l, 'g) outside \<Rightarrow> clock \<Rightarrow> 'g \<Rightarrow> identity \<Rightarrow> int \<Rightarrow> event_kind \<Rightarrow> schema_event \<times> 'g" where
  "make_event ext c ids i ts k =
     (let at = unix_ns c ts; (eid, ids) = next_event_id ext ids at
      in (\<lparr>meta = \<lparr>event_id = eid, event_time = at, sensor = Etw\<rparr>,
           device = \<lparr>device_uid = id_device i, boot_id = id_boot i\<rparr>, event_kind = k\<rparr>, ids))"

definition pl_event :: "('l, 'g) outside \<Rightarrow> int \<Rightarrow> event_kind \<Rightarrow> ('l, 'g) pipeline \<Rightarrow> schema_event \<times> ('l, 'g) pipeline" where
  "pl_event ext ts k p =
     (let (ev, ids) = make_event ext (pl_clock p) (pl_ids p) (pl_id p) ts k in (ev, p\<lparr>pl_ids := ids\<rparr>))"

definition pl_wait :: "('l, 'g) pipeline \<Rightarrow> reason \<Rightarrow> nat \<Rightarrow> wait" where
  "pl_wait p r deadline =
     \<lparr>wreason = r, wdeadline = Some (sat_add (pl_now p) (ticks_of (pl_ticks p) deadline)), wdrop_at_deadline = False\<rparr>"

definition seeder_wait :: "('l, 'g) pipeline \<Rightarrow> bool \<Rightarrow> wait" where
  "seeder_wait p drop_at =
     (let startup = sat_sub (pl_now p) (pl_started p) < ticks_of (pl_ticks p) (startup_period (pl_cfg p));
          d = (if startup then seeder_startup_deadline (pl_cfg p) else seeder_deadline (pl_cfg p))
      in (pl_wait p Seeder d)\<lparr>wdrop_at_deadline := drop_at\<rparr>)"

definition pl_dos :: "('l, 'g) outside \<Rightarrow> rstr \<Rightarrow> ('l, 'g) pipeline \<Rightarrow> rstr \<times> ('l, 'g) pipeline" where
  "pl_dos ext nt p =
     (let (r, l) = dos_path ext (pl_lookups p) nt
      in (path_fit (case r of None \<Rightarrow> nt | Some d \<Rightarrow> d) PATH_MAX, p\<lparr>pl_lookups := l\<rparr>))"

definition pl_live :: "('l, 'g) outside \<Rightarrow> u32 \<Rightarrow> ('l, 'g) pipeline \<Rightarrow> live_process option \<times> ('l, 'g) pipeline" where
  "pl_live ext pid p =
     (let (r, l) = live_process_of ext (pl_lookups p) pid in (r, p\<lparr>pl_lookups := l\<rparr>))"

definition pl_lookup_at :: "u32 \<Rightarrow> int \<Rightarrow> ('l, 'g) pipeline \<Rightarrow> proc_info option \<times> ('l, 'g) pipeline" where
  "pl_lookup_at pid ts p =
     (let (r, c) = pc_lookup_at pid ts (pl_procs p) in (r, p\<lparr>pl_procs := c\<rparr>))"

definition pl_insert :: "proc_info \<Rightarrow> int \<Rightarrow> ('l, 'g) pipeline \<Rightarrow> ('l, 'g) pipeline" where
  "pl_insert info start p = p\<lparr>pl_procs := pc_insert info start (pl_procs p)\<rparr>"

abbreviation ref_to :: "('l, 'g) outside \<Rightarrow> ('l, 'g) pipeline \<Rightarrow> proc_info \<Rightarrow> process_ref" where
  "ref_to ext p info \<equiv> to_ref (blake3_of ext) (pl_id p) info"

abbreviation bare_to :: "('l, 'g) outside \<Rightarrow> ('l, 'g) pipeline \<Rightarrow> u64 \<Rightarrow> u32 \<Rightarrow> process_ref" where
  "bare_to ext p k pid \<equiv> bare_ref (blake3_of ext) (pl_id p) k pid"

definition drop_actor :: "event_class \<Rightarrow> ('l, 'g) pipeline \<Rightarrow> ('l, 'g) pipeline" where
  "drop_actor c = count (\<lambda>n. n\<lparr>n_actor_dropped := add_class c (n_actor_dropped n)\<rparr>)"

text \<open>\<open>Idle\<close>.\<close>

definition IDLE :: rstr where "IDLE = [73, 100, 108, 101]"

definition builtin :: "('l, 'g) outside \<Rightarrow> ('l, 'g) pipeline \<Rightarrow> u32 \<Rightarrow> process_ref option" where
  "builtin ext p pid =
     (if pid = 0 then
        (let r = bare_to ext p (start_key (kernel_boot_id (pl_id p)) 0) 0
         in Some (r\<lparr>ref_file := (ref_file r)\<lparr>file_name := IDLE\<rparr>\<rparr>))
      else None)"

definition hdr_pid :: "header \<Rightarrow> u32" where "hdr_pid h = of_nat (hpid h)"

definition hdr_key :: "header \<Rightarrow> u64 option" where "hdr_key h = map_option of_nat (hstart_key h)"

text \<open>\<open>actor_sync\<close> after a miss in the cache.\<close>

definition actor_missed :: "('l, 'g) outside \<Rightarrow> header \<Rightarrow> event_class \<Rightarrow> ('l, 'g) pipeline
    \<Rightarrow> process_ref option \<times> ('l, 'g) pipeline" where
  "actor_missed ext h c p =
     (let pid = hdr_pid h in
      case hdr_key h of
        None \<Rightarrow>
          (case builtin ext p pid of
             Some r \<Rightarrow> (Some r, p)
           | None \<Rightarrow> (None, drop_actor c p))
      | Some k \<Rightarrow>
          (let (live, p) = pl_live ext pid p
           in if is_some_and live (\<lambda>l. lp_start_key l = k) then
                (let (path, p) = pl_dos ext (lp_image_path (the live)) p;
                     info = (proc_info_new k pid)\<lparr>pi_path := path, pi_cmd_line := lp_command_line (the live)\<rparr>
                 in (Some (ref_to ext p info), pl_insert info (hts h) p))
              else
                (Some (bare_to ext p k pid),
                 count (\<lambda>n. n\<lparr>n_actor_unresolved := add_class c (n_actor_unresolved n)\<rparr>) p)))"

definition actor_sync :: "('l, 'g) outside \<Rightarrow> header \<Rightarrow> event_class \<Rightarrow> ('l, 'g) pipeline
    \<Rightarrow> process_ref option \<times> ('l, 'g) pipeline" where
  "actor_sync ext h c p =
     (let (found, p) = pl_lookup_at (hdr_pid h) (hts h) p
      in if is_some_and found (\<lambda>info. is_none_or (hdr_key h) (\<lambda>k. k = pi_key info))
         then (Some (ref_to ext p (the found)), p)
         else actor_missed ext h c p)"

definition actor_payload :: "('l, 'g) outside \<Rightarrow> u32 \<Rightarrow> int \<Rightarrow> event_class \<Rightarrow> ('l, 'g) pipeline
    \<Rightarrow> process_ref option \<times> ('l, 'g) pipeline" where
  "actor_payload ext pid ts c p =
     (let (found, p) = pl_lookup_at pid ts p
      in case found of
           Some info \<Rightarrow> (Some (ref_to ext p info), p)
         | None \<Rightarrow>
             (case builtin ext p pid of
                Some r \<Rightarrow> (Some r, p)
              | None \<Rightarrow> (None, drop_actor c p)))"

definition is_self_key :: "('l, 'g) pipeline \<Rightarrow> u64 option \<Rightarrow> bool" where
  "is_self_key p k \<longleftrightarrow> is_some_and k (\<lambda>k. k \<in> set (pl_self_keys p))"

definition add_self_key :: "('l, 'g) outside \<Rightarrow> u64 \<Rightarrow> ('l, 'g) pipeline \<Rightarrow> ('l, 'g) pipeline" where
  "add_self_key ext k p = p\<lparr>pl_self_keys := List.insert k (pl_self_keys p),
     pl_self_uids := List.insert (identity_uid (blake3_of ext) (pl_id p) k) (pl_self_uids p)\<rparr>"

definition pl_set_anchor :: "anchor \<Rightarrow> ('l, 'g) pipeline \<Rightarrow> ('l, 'g) pipeline" where
  "pl_set_anchor a p = p\<lparr>pl_clock := set_anchor a (pl_clock p)\<rparr>"

section \<open>Paths in events\<close>

definition file_of_path :: "rstr \<Rightarrow> file_obj" where
  "file_of_path path = \<lparr>file_obj.file_path = path, file_name = path_file_name path, file_hashes = None, file_signature = None\<rparr>"

definition pl_file_obj :: "('l, 'g) outside \<Rightarrow> rstr \<Rightarrow> ('l, 'g) pipeline \<Rightarrow> file_obj \<times> ('l, 'g) pipeline" where
  "pl_file_obj ext nt p = (let (path, p) = pl_dos ext nt p in (file_of_path path, p))"

text \<open>A Value Set that expected a read and got none; the flag says whether it was one.\<close>

definition no_read :: "event_kind \<Rightarrow> bool \<times> event_kind" where
  "no_read k = (case k of
     RegistryValueEvent v \<Rightarrow>
       (case value_act v of
          RVSet s \<Rightarrow>
            if data_read_after s then (True, RegistryValueEvent (v\<lparr>value_act := RVSet (s\<lparr>data_read_after := False\<rparr>)\<rparr>))
            else (False, k)
        | RVDelete \<Rightarrow> (False, k))
   | _ \<Rightarrow> (False, k))"

end
