(* ===== verification/Pl_Network.thy ===== *)
theory Pl_Network
  imports Pl_State
begin

text \<open>
  Network and DNS events of the pipeline (\<open>crates/atlas-agent/src/pipeline/net.rs\<close>): TCP opens and
  closes, UDP flows, DNS responses. \<open>IpAddr\<close>'s display is written out.
\<close>

section \<open>Addresses\<close>

definition ip_of :: "ip_address \<Rightarrow> ip_addr" where
  "ip_of a = (case a of IpV4 b \<Rightarrow> V4 b | IpV6 b \<Rightarrow> V6 b)"

definition v4_string :: "bytes \<Rightarrow> string" where
  "v4_string b = dec_string (unat (b ! 0)) @ ''.'' @ dec_string (unat (b ! 1)) @ ''.'' @
     dec_string (unat (b ! 2)) @ ''.'' @ dec_string (unat (b ! 3))"

fun lower_hex :: "nat \<Rightarrow> string" where
  "lower_hex n = (let d = n mod 16; c = char_of (if d < 10 then 48 + d else 87 + d)
     in if n < 16 then [c] else lower_hex (n div 16) @ [c])"

declare lower_hex.simps [simp del]

definition v6_segments :: "bytes \<Rightarrow> nat list" where
  "v6_segments b = map (\<lambda>i. unat (b ! (2 * i)) * 256 + unat (b ! (2 * i + 1))) [0..<8]"

text \<open>The longest run of zero segments, the first of several: its start and length.\<close>

definition zero_run :: "nat list \<Rightarrow> nat \<Rightarrow> nat" where
  "zero_run segs i = length (takeWhile (\<lambda>s. s = 0) (drop i segs))"

definition longest_zeros :: "nat list \<Rightarrow> nat \<times> nat" where
  "longest_zeros segs =
     foldl (\<lambda>(i, n) j. if zero_run segs j > n then (j, zero_run segs j) else (i, n)) (0, 0) [0..<length segs]"

fun join_colons :: "nat list \<Rightarrow> string" where
  "join_colons [] = []"
| "join_colons [s] = lower_hex s"
| "join_colons (s # ss) = lower_hex s @ '':'' @ join_colons ss"

definition v6_string :: "bytes \<Rightarrow> string" where
  "v6_string b =
     (let segs = v6_segments b; (i, n) = longest_zeros segs
      in if take 6 segs = [0, 0, 0, 0, 0, 0xFFFF] then ''::ffff:'' @ v4_string (drop 12 b)
         else if n > 1 then join_colons (take i segs) @ ''::'' @ join_colons (drop (i + n) segs)
         else join_colons segs)"

definition ip_string :: "ip_address \<Rightarrow> rstr" where
  "ip_string a = map of_char (case a of IpV4 b \<Rightarrow> v4_string b | IpV6 b \<Rightarrow> v6_string b)"

section \<open>Events and flows\<close>

definition endpoint_of :: "ep \<Rightarrow> network_endpoint" where
  "endpoint_of e = \<lparr>ip = fst e, port = snd e\<rparr>"

definition net_activity :: "process_ref \<Rightarrow> ep \<Rightarrow> ep \<Rightarrow> network_protocol \<Rightarrow> network_direction
    \<Rightarrow> network_action \<Rightarrow> event_kind" where
  "net_activity actor local remote proto way act =
     (let (src, dst) = (case way of Outbound \<Rightarrow> (local, remote) | Inbound \<Rightarrow> (remote, local))
      in NetworkEvent \<lparr>net_actor = actor, src_endpoint = endpoint_of src, dst_endpoint = endpoint_of dst,
           protocol = proto, direction = way, net_act = act\<rparr>)"

definition CLOSE :: network_action where "CLOSE = NClose None None"

definition close_flow :: "('l, 'g) outside \<Rightarrow> flow \<Rightarrow> ('l, 'g) pipeline \<Rightarrow> ('l, 'g) pipeline" where
  "close_flow ext f p =
     (let k = net_activity (flow_actor f) (flow_local f) (flow_remote f) Udp (flow_direction f) CLOSE;
          (ev, p) = pl_event ext (flow_last f) k p
      in complete (push ev) p)"

definition flow_fresh :: "int \<Rightarrow> network \<Rightarrow> flow \<Rightarrow> bool" where
  "flow_fresh now n f \<longleftrightarrow> sat_add (flow_last f) (nt_idle n) \<ge> now"

definition net_expire :: "('l, 'g) outside \<Rightarrow> int \<Rightarrow> ('l, 'g) pipeline \<Rightarrow> ('l, 'g) pipeline" where
  "net_expire ext now p =
     (let n = pl_net p;
          gone = map snd (filter (\<lambda>(_, f). \<not> flow_fresh now n f) (nt_flows n));
          p = p\<lparr>pl_net := n\<lparr>nt_flows := filter (\<lambda>(_, f). flow_fresh now n f) (nt_flows n)\<rparr>\<rparr>
      in fold (close_flow ext) (sort_key flow_last gone) p)"

definition net_close_all :: "('l, 'g) outside \<Rightarrow> ('l, 'g) pipeline \<Rightarrow> ('l, 'g) pipeline" where
  "net_close_all ext p = net_expire ext I64_MAX p"

section \<open>TCP\<close>

definition tcp_insert :: "u32 \<times> ep \<times> ep \<Rightarrow> network_direction \<Rightarrow> network \<Rightarrow> network" where
  "tcp_insert k way n =
     (let n = (if length (nt_tcp n) \<ge> nt_cap n then n\<lparr>nt_tcp := [], nt_evictions := nt_evictions n + 1\<rparr> else n)
      in n\<lparr>nt_tcp := AList.update k way (nt_tcp n)\<rparr>)"

definition tcp_closed :: "u32 \<times> ep \<times> ep \<Rightarrow> network \<Rightarrow> network_direction" where
  "tcp_closed k n = (case map_of (nt_tcp n) k of
     Some d \<Rightarrow> d
   | None \<Rightarrow> if snd (fst (snd k)) < snd (snd (snd k)) then Inbound else Outbound)"

definition on_tcp :: "('l, 'g) outside \<Rightarrow> header \<Rightarrow> net_ev \<Rightarrow> tcp_kind \<Rightarrow> ('l, 'g) pipeline \<Rightarrow> ('l, 'g) pipeline" where
  "on_tcp ext h n what p =
     (let (actor, p) = actor_payload ext (ne_pid n) (hts h) NetworkClass p in
      case actor of
        None \<Rightarrow> p
      | Some actor \<Rightarrow>
          (let local = (ip_of (ne_saddr n), ne_sport n); remote = (ip_of (ne_daddr n), ne_dport n);
               k = (ne_pid n, local, remote);
               (way, act, net) = (case what of
                   TcpConnecting \<Rightarrow> (Outbound, NOpen, tcp_insert k Outbound (pl_net p))
                 | TcpAccepting \<Rightarrow> (Inbound, NOpen, tcp_insert k Inbound (pl_net p))
                 | TcpDisconnecting \<Rightarrow>
                     (tcp_closed k (pl_net p), CLOSE, (pl_net p)\<lparr>nt_tcp := AList.delete k (nt_tcp (pl_net p))\<rparr>));
               (ev, p) = pl_event ext (hts h) (net_activity actor local remote Tcp way act) (p\<lparr>pl_net := net\<rparr>)
           in complete (push ev) p))"

section \<open>UDP\<close>

definition evict_flow :: "('l, 'g) outside \<Rightarrow> flow \<Rightarrow> ('l, 'g) pipeline \<Rightarrow> ('l, 'g) pipeline" where
  "evict_flow ext f p =
     close_flow ext f (p\<lparr>pl_net := (pl_net p)\<lparr>nt_evictions := nt_evictions (pl_net p) + 1\<rparr>\<rparr>)"

text \<open>The batch taken out of a full table: the flows of the victims' keys, each once.\<close>

definition flow_victims :: "network \<Rightarrow> flow_key list" where
  "flow_victims n = oldest (map (\<lambda>(k, f). (k, flow_last f)) (nt_flows n)) (length (nt_flows n))"

fun take_flows :: "flow_key list \<Rightarrow> (flow_key \<times> flow) list \<Rightarrow> flow list \<times> (flow_key \<times> flow) list" where
  "take_flows [] fs = ([], fs)"
| "take_flows (k # ks) fs = (case map_of fs k of
     None \<Rightarrow> take_flows ks fs
   | Some f \<Rightarrow> (let (out, fs) = take_flows ks (AList.delete k fs) in (f # out, fs)))"

definition udp_make_room :: "('l, 'g) outside \<Rightarrow> ('l, 'g) pipeline \<Rightarrow> ('l, 'g) pipeline" where
  "udp_make_room ext p =
     (if length (nt_flows (pl_net p)) \<ge> nt_cap (pl_net p) then
        (let (out, fs) = take_flows (flow_victims (pl_net p)) (nt_flows (pl_net p));
             p = p\<lparr>pl_net := (pl_net p)\<lparr>nt_flows := fs\<rparr>\<rparr>
         in fold (evict_flow ext) (sort_key flow_last out) p)
      else p)"

definition put_flow :: "flow_key \<Rightarrow> flow \<Rightarrow> ('l, 'g) pipeline \<Rightarrow> ('l, 'g) pipeline" where
  "put_flow k f p = p\<lparr>pl_net := (pl_net p)\<lparr>nt_flows := AList.update k f (nt_flows (pl_net p))\<rparr>\<rparr>"

definition on_udp :: "('l, 'g) outside \<Rightarrow> header \<Rightarrow> net_ev \<Rightarrow> bool \<Rightarrow> ('l, 'g) pipeline \<Rightarrow> ('l, 'g) pipeline" where
  "on_udp ext h n sending p =
     (if \<not> network_udp (pl_cfg p) then p
      else
        (let (actor, p) = actor_payload ext (ne_pid n) (hts h) NetworkClass p in
         case actor of
           None \<Rightarrow> p
         | Some actor \<Rightarrow>
             (let s = (ip_of (ne_saddr n), ne_sport n); d = (ip_of (ne_daddr n), ne_dport n);
                  (local, remote) = (if sending then (s, d) else (d, s));
                  k = (ref_uid actor, local, remote)
              in case map_of (nt_flows (pl_net p)) k of
                   Some f \<Rightarrow> put_flow k (f\<lparr>flow_last := max (flow_last f) (hts h)\<rparr>) p
                 | None \<Rightarrow>
                     (let way = (if sending then Outbound else Inbound);
                          (ev, p) = pl_event ext (hts h) (net_activity actor local remote Udp way NOpen) p;
                          p = udp_make_room ext (complete (push ev) p)
                      in put_flow k \<lparr>flow_actor = actor, flow_local = local, flow_remote = remote,
                           flow_direction = way, flow_last = hts h\<rparr> p))))"

section \<open>DNS\<close>

definition rcode_of :: "u32 \<Rightarrow> u16 option" where
  "rcode_of st =
     (if st = 0 \<or> st = 9501 then Some 0
      else if st = 9001 then Some 1 else if st = 9002 then Some 2 else if st = 9003 then Some 3
      else if st = 9004 then Some 4 else if st = 9005 then Some 5 else None)"

definition dns_answer_of :: "query_answer \<Rightarrow> dns_answer" where
  "dns_answer_of a =
     (let (ty, d) = (case a of
          DnsAddress (IpV4 b) \<Rightarrow> (1, ip_string (IpV4 b))
        | DnsAddress (IpV6 b) \<Rightarrow> (28, ip_string (IpV6 b))
        | DnsRecord ty d \<Rightarrow> (of_nat ty, d)
        | DnsUnrecognized s \<Rightarrow> (0, s))
      in \<lparr>rr_type = ty, answer_data = fst (truncate_utf8 d DNS_ANSWER_DATA_MAX)\<rparr>)"

definition on_dns :: "('l, 'g) outside \<Rightarrow> header \<Rightarrow> dns_query_ev \<Rightarrow> ('l, 'g) pipeline \<Rightarrow> ('l, 'g) pipeline" where
  "on_dns ext h q p =
     (let (actor, p) = actor_sync ext h DnsClass p in
      case actor of
        None \<Rightarrow> p
      | Some actor \<Rightarrow>
          (let host = fst (truncate_utf8 (to_string_lossy (dq_query_name q)) DNS_HOSTNAME_MAX);
               answers = map dns_answer_of (da_answers (parse_query_results (dq_query_results q)));
               act = Response (rcode_of (dq_query_status q)) (Some (dq_query_status q)) answers;
               ty = (if unat (dq_query_type q) \<le> 65535 then ucast (dq_query_type q) else 65535);
               (ev, p) = pl_event ext (hts h)
                 (DnsEvent \<lparr>dns_actor = actor, hostname = host, query_type = ty, dns_act = act\<rparr>) p
           in complete (push ev) p))"

end
