(* ===== verification/Pl_Expand.thy ===== *)
theory Pl_Expand
  imports Pl_State
begin

text \<open>
  8.3 names in emitted paths (\<open>crates/atlas-agent/src/pipeline/expand.rs\<close>): an event whose path has a
  short component waits for its long form, and an answer fills in the paths that asked for it.
\<close>

section \<open>Emitting a file\<close>

definition known_long :: "u64 option \<Rightarrow> files \<Rightarrow> rstr option" where
  "known_long fo f = Option.bind fo (\<lambda>fo. Option.bind (map_of (fl_map f) fo) fe_expanded)"

definition emit_file :: "('l, 'g) outside \<Rightarrow> rstr \<Rightarrow> u64 option \<Rightarrow> ('l, 'g) pipeline
    \<Rightarrow> file_obj \<times> rstr option \<times> ('l, 'g) pipeline" where
  "emit_file ext nt fo p =
     (case known_long fo (pl_files p) of
        Some long \<Rightarrow> (let (f, p) = pl_file_obj ext long p in (f, None, p))
      | None \<Rightarrow> (let (f, p) = pl_file_obj ext nt p in (f, if has_short_name nt then Some nt else None, p)))"

text \<open>The expansion to ask for, if \<open>emit_file\<close> found one (\<open>file.rs\<close>).\<close>

definition to_expand :: "rstr option \<Rightarrow> expansion \<Rightarrow> (rstr \<times> expansion) list" where
  "to_expand nt x = (case nt of None \<Rightarrow> [] | Some n \<Rightarrow> [(n, x)])"

section \<open>Pushing an event that may wait\<close>

definition expand_drops :: "(rstr \<times> expansion) list \<Rightarrow> bool" where
  "expand_drops xs \<longleftrightarrow> list_ex (\<lambda>(_, x). x_open_logged x = Some False) xs"

definition ask_slot :: "pending_id \<Rightarrow> nat \<times> (rstr \<times> expansion) \<Rightarrow> ('l, 'g) pipeline \<Rightarrow> ('l, 'g) pipeline" where
  "ask_slot i = (\<lambda>(slot, nt, x) p.
     let slot = slot mod 256; asked = map_option (\<lambda>_. nt) (x_fo x); xp = pl_expands p
     in push_request (ReqExpand i slot nt)
          (p\<lparr>pl_expands := xp\<lparr>xp_by_slot := AList.update (i, slot) (x, asked) (xp_by_slot xp)\<rparr>\<rparr>))"

definition push_with :: "schema_event \<Rightarrow> wait list \<Rightarrow> (rstr \<times> expansion) list \<Rightarrow> ('l, 'g) pipeline
    \<Rightarrow> pending_id option \<times> ('l, 'g) pipeline" where
  "push_with ev waits expansions p =
     (if waits = [] \<and> expansions = [] then (None, complete (push ev) p)
      else
        (let waits = (if expansions \<noteq> [] then
               waits @ [(pl_wait p Expand (expand_deadline (pl_cfg p)))\<lparr>wdrop_at_deadline := expand_drops expansions\<rparr>]
               else waits);
             (i, c) = push_pending ev waits (pl_completion p);
             p = p\<lparr>pl_completion := c\<rparr>;
             xp = pl_expands p; n = length expansions mod 256;
             p = (if expansions \<noteq> []
                  then p\<lparr>pl_expands := xp\<lparr>xp_outstanding := AList.update i (n, n) (xp_outstanding xp)\<rparr>\<rparr> else p)
         in (Some i, fold (ask_slot i) (enumerate 0 expansions) p)))"

section \<open>The answer\<close>

text \<open>Which file of an event a slot names, as the function that changes it.\<close>

definition slot_file :: "path_slot \<Rightarrow> (file_obj \<Rightarrow> file_obj) \<Rightarrow> event_kind \<Rightarrow> event_kind" where
  "slot_file slot g k =
     (case (k, slot) of
        (FileEvent f, SlotFile) \<Rightarrow> FileEvent (f\<lparr>file_file := g (file_file f)\<rparr>)
      | (FileEvent f, SlotRenameResult) \<Rightarrow>
          (case file_act f of
             FRename r \<Rightarrow> FileEvent (f\<lparr>file_act := FRename (g r)\<rparr>)
           | _ \<Rightarrow> k)
      | (ProcessEvent (Launch actor pr), SlotImage) \<Rightarrow>
          ProcessEvent (Launch actor (pr\<lparr>proc_file := g (proc_file pr)\<rparr>))
      | (ModuleEvent m, SlotImage) \<Rightarrow>
          (case module_act m of Load f b \<Rightarrow> ModuleEvent (m\<lparr>module_act := Load (g f) b\<rparr>))
      | _ \<Rightarrow> k)"

text \<open>Writes a path and its name, and keeps hashes and signature.\<close>

definition with_path :: "rstr \<Rightarrow> file_obj \<Rightarrow> file_obj" where
  "with_path path f =
     \<lparr>file_obj.file_path = path, file_name = path_file_name path, file_hashes = file_hashes f,
      file_signature = file_signature f\<rparr>"

definition set_slot_path :: "path_slot \<Rightarrow> file_obj \<Rightarrow> schema_event \<Rightarrow> schema_event" where
  "set_slot_path slot f e = e\<lparr>event_kind := slot_file slot (with_path (file_obj.file_path f)) (event_kind e)\<rparr>"

definition answer_slot :: "pending_id \<Rightarrow> nat \<Rightarrow> expands \<Rightarrow> nat \<times> expands" where
  "answer_slot i slot xp =
     (let xp = xp\<lparr>xp_by_slot := AList.delete (i, slot) (xp_by_slot xp)\<rparr>;
          (left, xp) = (case map_of (xp_outstanding xp) i of
            Some (n, t) \<Rightarrow> (n - 1, xp\<lparr>xp_outstanding := AList.update i (n - 1, t) (xp_outstanding xp)\<rparr>)
          | None \<Rightarrow> (0, xp))
      in (left, if left = 0 then xp\<lparr>xp_outstanding := AList.delete i (xp_outstanding xp)\<rparr> else xp))"

definition fill_expanded :: "rstr \<Rightarrow> rstr option \<Rightarrow> file_entry \<Rightarrow> file_entry" where
  "fill_expanded long asked e = (if fe_nt e = asked then e\<lparr>fe_expanded := Some long\<rparr> else e)"

definition apply_long :: "('l, 'g) outside \<Rightarrow> pending_id \<Rightarrow> expansion \<Rightarrow> rstr option \<Rightarrow> rstr
    \<Rightarrow> ('l, 'g) pipeline \<Rightarrow> ('l, 'g) pipeline" where
  "apply_long ext i x asked long p =
     (let (f, p) = pl_file_obj ext long p;
          p = complete (\<lambda>c. snd (update i (set_slot_path (x_slot x) f) c)) p;
          p = (case x_fo x of None \<Rightarrow> p | Some fo \<Rightarrow> on_files (files_mut fo (fill_expanded long asked)) p)
      in case x_image_key x of
           None \<Rightarrow> p
         | Some k \<Rightarrow>
             (let (path, p) = pl_dos ext long p
              in p\<lparr>pl_procs := pc_get_mut k (\<lambda>i. i\<lparr>pi_path := path\<rparr>) (pl_procs p)\<rparr>))"

definition expand_unmatched :: "('l, 'g) pipeline \<Rightarrow> expansion \<Rightarrow> rstr option \<Rightarrow> bool" where
  "expand_unmatched p x long \<longleftrightarrow>
     is_some_and (x_open_logged x) (\<lambda>logged. \<not> logged \<and> \<not> is_some_and long (watch_matches (pl_watch p)))"

definition on_expanded :: "('l, 'g) outside \<Rightarrow> pending_id \<Rightarrow> nat \<Rightarrow> rstr option \<Rightarrow> ('l, 'g) pipeline
    \<Rightarrow> ('l, 'g) pipeline" where
  "on_expanded ext i slot long p =
     (case map_of (xp_by_slot (pl_expands p)) (i, slot) of
        None \<Rightarrow> p
      | Some (x, asked) \<Rightarrow>
          (let (left, xp) = answer_slot i slot (pl_expands p); p = p\<lparr>pl_expands := xp\<rparr>
           in if \<not> is_waiting i Expand (pl_completion p) then p
              else if expand_unmatched p x long then complete (\<lambda>c. snd (cancel i c)) p
              else
                (let p = (case long of None \<Rightarrow> p | Some l \<Rightarrow> apply_long ext i x asked l p)
                 in if left = 0 then complete (resolve i Expand) p else p)))"

end
