(* ===== verification/Pl_Process.thy ===== *)
theory Pl_Process
  imports Pl_Expand
begin

text \<open>
  Process and module events of the pipeline (\<open>crates/atlas-agent/src/pipeline/proc.rs\<close>): a Launch is
  joined from the Kernel-Process half and the classic half, whichever comes first; Terminate, Module
  Load, the rundown, and enrichment results. \<open>String::from_utf8_lossy\<close> is written out.
\<close>

section \<open>Lossy UTF-8\<close>

definition utf8_width :: "nat \<Rightarrow> nat" where
  "utf8_width b = (if b < 0x80 then 1 else if 0xC2 \<le> b \<and> b \<le> 0xDF then 2
     else if 0xE0 \<le> b \<and> b \<le> 0xEF then 3 else if 0xF0 \<le> b \<and> b \<le> 0xF4 then 4 else 0)"

text \<open>The byte at an index, zero past the end; a continuation; a second byte its lead allows.\<close>

definition byte_or_zero :: "bytes \<Rightarrow> nat \<Rightarrow> nat" where
  "byte_or_zero bs i = (if i < length bs then unat (bs ! i) else 0)"

definition is_cont :: "nat \<Rightarrow> bool" where
  "is_cont b \<longleftrightarrow> 0x80 \<le> b \<and> b \<le> 0xBF"

definition second_ok :: "nat \<Rightarrow> nat \<Rightarrow> bool" where
  "second_ok b c \<longleftrightarrow>
     (if b = 0xE0 then 0xA0 \<le> c \<and> c \<le> 0xBF
      else if b = 0xED then 0x80 \<le> c \<and> c \<le> 0x9F
      else if b = 0xF0 then 0x90 \<le> c \<and> c \<le> 0xBF
      else if b = 0xF4 then 0x80 \<le> c \<and> c \<le> 0x8F
      else is_cont c)"

text \<open>How many bytes the first character, or what of it is there, takes, and whether it is whole.\<close>

definition utf8_head :: "bytes \<Rightarrow> nat \<times> bool" where
  "utf8_head bs =
     (let b = byte_or_zero bs 0; w = utf8_width b
      in if w = 0 then (1, False)
         else if w = 1 then (1, True)
         else if \<not> second_ok b (byte_or_zero bs 1) then (1, False)
         else if w = 2 then (2, True)
         else if \<not> is_cont (byte_or_zero bs 2) then (2, False)
         else if w = 3 then (3, True)
         else if \<not> is_cont (byte_or_zero bs 3) then (3, False)
         else (4, True))"

lemma utf8_head_pos: "0 < fst (utf8_head bs)"
  by (simp add: utf8_head_def Let_def)

function from_utf8_lossy :: "bytes \<Rightarrow> rstr" where
  "from_utf8_lossy bs =
     (if bs = [] then []
      else (if snd (utf8_head bs) then take (fst (utf8_head bs)) bs else utf8_encode REPLACEMENT) @
           from_utf8_lossy (drop (fst (utf8_head bs)) bs))"
  by pat_completeness auto
termination
  by (relation "measure length") (auto simp: utf8_head_pos)

declare from_utf8_lossy.simps [simp del]

section \<open>A Launch\<close>

text \<open>The user a classic half names.\<close>

definition user_of_sid :: "('l, 'g) outside \<Rightarrow> sid \<Rightarrow> ('l, 'g) pipeline \<Rightarrow> user \<times> ('l, 'g) pipeline" where
  "user_of_sid ext s p =
     (let uid = map of_char (sid_display s); (name, l) = account_name ext (pl_lookups p) uid
      in (\<lparr>user_uid = path_fit uid USER_UID_MAX,
           user_name = path_fit (case name of None \<Rightarrow> [] | Some n \<Rightarrow> n) USER_NAME_MAX\<rparr>,
          p\<lparr>pl_lookups := l\<rparr>))"

definition apply_classic :: "('l, 'g) outside \<Rightarrow> classic_process_ev \<Rightarrow> proc_info \<Rightarrow> ('l, 'g) pipeline
    \<Rightarrow> proc_info \<times> ('l, 'g) pipeline" where
  "apply_classic ext c info p =
     (let info = info\<lparr>pi_cmd_line := Some (to_string_lossy (cp_command_line c))\<rparr> in
      case cp_user_sid c of
        None \<Rightarrow> (info\<lparr>pi_user := None\<rparr>, p)
      | Some s \<Rightarrow> (let (u, p) = user_of_sid ext s p in (info\<lparr>pi_user := Some u\<rparr>, p)))"

definition truncate_cmd :: "rstr option \<Rightarrow> rstr \<times> bool" where
  "truncate_cmd cmd = truncate_utf8 (case cmd of None \<Rightarrow> [] | Some s \<Rightarrow> s) CMD_LINE_MAX"

definition launch_process :: "('l, 'g) outside \<Rightarrow> ('l, 'g) pipeline \<Rightarrow> proc_info \<Rightarrow> process" where
  "launch_process ext p info =
     (let r = ref_to ext p info; (cmd, was_cut) = truncate_cmd (pi_cmd_line info)
      in \<lparr>proc_uid = ref_uid r, proc_pid = ref_pid r, proc_file = ref_file r, proc_user = ref_user r,
          cmd_line = cmd, cmd_line_truncated = was_cut,
          created_time = (case pi_created_time info of None \<Rightarrow> 0 | Some t \<Rightarrow> t),
          proc_integrity = pi_integrity info, parent_process = pi_parent info\<rparr>)"

definition image_expansion :: "rstr \<Rightarrow> u64 option \<Rightarrow> (rstr \<times> expansion) list" where
  "image_expansion nt k =
     (if \<not> has_short_name nt then []
      else [(nt, \<lparr>x_slot = SlotImage, x_fo = None, x_image_key = k, x_open_logged = None\<rparr>)])"

definition push_launch :: "('l, 'g) outside \<Rightarrow> int \<Rightarrow> process_ref \<Rightarrow> proc_info \<Rightarrow> rstr \<Rightarrow> bool
    \<Rightarrow> (u32 \<times> u64) option \<Rightarrow> ('l, 'g) pipeline \<Rightarrow> ('l, 'g) pipeline" where
  "push_launch ext ts actor info nt_path joined kernel_half p =
     (let (ev, p) = pl_event ext ts (ProcessEvent (Launch actor (launch_process ext p info))) p;
          enrich = (nt_path \<noteq> []);
          waits = (if enrich then [pl_wait p Enrich (enrich_deadline (pl_cfg p))] else []) @
                  (if \<not> joined then [pl_wait p Join (join_deadline (pl_cfg p))] else []);
          (i, p) = push_with ev waits (image_expansion nt_path (Some (pi_key info))) p
      in case i of
           None \<Rightarrow> p
         | Some i \<Rightarrow>
             (let l = pl_launches p;
                  p = (if enrich
                       then push_request (ReqEnrich i LaunchImage nt_path)
                              (p\<lparr>pl_launches := l\<lparr>la_enrich := AList.update i LaunchImage (la_enrich l)\<rparr>\<rparr>)
                       else p);
                  l = pl_launches p
              in case (joined, kernel_half) of
                   (False, Some (pid, k)) \<Rightarrow>
                     p\<lparr>pl_launches := l\<lparr>la_kernel := AList.update pid (ts, i, k) (la_kernel l)\<rparr>\<rparr>
                 | _ \<Rightarrow> p))"

definition join_window_ticks :: "('l, 'g) pipeline \<Rightarrow> int" where
  "join_window_ticks p = ticks_of (pl_ticks p) (join_window (pl_cfg p))"

text \<open>\<open>ts.abs_diff(h.ts) <= window.unsigned_abs()\<close>.\<close>

definition within :: "int \<Rightarrow> int \<Rightarrow> int \<Rightarrow> bool" where
  "within w a b \<longleftrightarrow> \<bar>a - b\<bar> \<le> \<bar>w\<bar>"

definition set_classic :: "(u32 \<times> (int \<times> classic_process_ev \<times> header)) list \<Rightarrow> ('l, 'g) pipeline \<Rightarrow> ('l, 'g) pipeline" where
  "set_classic m p = p\<lparr>pl_launches := (pl_launches p)\<lparr>la_classic := m\<rparr>\<rparr>"

definition set_kernel :: "(u32 \<times> (int \<times> pending_id \<times> u64)) list \<Rightarrow> ('l, 'g) pipeline \<Rightarrow> ('l, 'g) pipeline" where
  "set_kernel m p = p\<lparr>pl_launches := (pl_launches p)\<lparr>la_kernel := m\<rparr>\<rparr>"

text \<open>The classic half that came first, if it is close enough; one that is not stays.\<close>

definition take_classic :: "('l, 'g) outside \<Rightarrow> header \<Rightarrow> u32 \<Rightarrow> proc_info \<Rightarrow> ('l, 'g) pipeline
    \<Rightarrow> bool \<times> proc_info \<times> ('l, 'g) pipeline" where
  "take_classic ext h pid info p =
     (let cl = la_classic (pl_launches p) in
      case map_of cl pid of
        None \<Rightarrow> (False, info, p)
      | Some (ts, c, ch) \<Rightarrow>
          if within (join_window_ticks p) ts (hts h) then
            (let (info, p) = apply_classic ext c info (set_classic (AList.delete pid cl) p) in (True, info, p))
          else (False, info, set_classic (AList.update pid (ts, c, ch) (AList.delete pid cl)) p))"

definition on_process_start :: "('l, 'g) outside \<Rightarrow> header \<Rightarrow> process_start_ev \<Rightarrow> ('l, 'g) pipeline \<Rightarrow> ('l, 'g) pipeline" where
  "on_process_start ext h s p =
     (let k = start_key (kernel_boot_id (pl_id p)) (ps_sequence_number s);
          nt = to_string_lossy (ps_image_name s);
          parent_key = start_key (kernel_boot_id (pl_id p)) (ps_parent_sequence_number s);
          parent = (case pc_get parent_key (pl_procs p) of
            Some i \<Rightarrow> ref_to ext p i
          | None \<Rightarrow> bare_to ext p parent_key (ps_parent_pid s));
          (path, p) = pl_dos ext nt p;
          info = (proc_info_new k (ps_pid s))\<lparr>pi_path := path,
            pi_created_time := Some (filetime_to_unix_ns (unat (ps_create_time s))),
            pi_integrity := (if sid_is_mandatory_label (ps_mandatory_label s)
              then Option.bind (sid_rid (ps_mandatory_label s)) integrity_of_rid else None),
            pi_parent := Some parent\<rparr>;
          (joined, info, p) = take_classic ext h (ps_pid s) info p;
          (actor, p) = actor_sync ext h ProcessClass (pl_insert info (hts h) p)
      in case actor of
           None \<Rightarrow> p
         | Some actor \<Rightarrow> push_launch ext (hts h) actor info nt joined (Some (ps_pid s, k)) p)"

section \<open>The classic half\<close>

definition set_launch_details :: "rstr option \<Rightarrow> user option \<Rightarrow> schema_event \<Rightarrow> schema_event" where
  "set_launch_details cmd u e =
     (case event_kind e of
        ProcessEvent (Launch actor pr) \<Rightarrow>
          (let (c, was_cut) = truncate_cmd cmd
           in e\<lparr>event_kind := ProcessEvent (Launch actor
                (pr\<lparr>cmd_line := c, cmd_line_truncated := was_cut, proc_user := u\<rparr>))\<rparr>)
      | _ \<Rightarrow> e)"

definition seed_rundown :: "('l, 'g) outside \<Rightarrow> classic_process_ev \<Rightarrow> ('l, 'g) pipeline \<Rightarrow> ('l, 'g) pipeline" where
  "seed_rundown ext c p =
     (if cp_pid c = 0 then p
      else
        (let (live, p) = pl_live ext (cp_pid c) p in
         case live of
           None \<Rightarrow> p
         | Some live \<Rightarrow>
             (let (path, p) = pl_dos ext (lp_image_path live) p;
                  (info, p) = apply_classic ext c
                    ((proc_info_new (lp_start_key live) (cp_pid c))\<lparr>pi_path := path\<rparr>) p;
                  info = (if is_none_or (pi_cmd_line info) (\<lambda>s. s = [])
                          then info\<lparr>pi_cmd_line := lp_command_line live\<rparr> else info)
              in pl_insert info I64_MIN p)))"

definition join_classic :: "('l, 'g) outside \<Rightarrow> classic_process_ev \<Rightarrow> int \<times> pending_id \<times> u64 \<Rightarrow> ('l, 'g) pipeline
    \<Rightarrow> ('l, 'g) pipeline" where
  "join_classic ext c = (\<lambda>(ts, i, k) p.
     let info = (case pc_get k (pl_procs p) of Some x \<Rightarrow> x | None \<Rightarrow> proc_info_new k (cp_pid c));
         (info, p) = apply_classic ext c info p;
         p = pl_insert info ts p
     in complete (\<lambda>cs. resolve i Join
          (snd (update i (set_launch_details (pi_cmd_line info) (pi_user info)) cs))) p)"

definition on_classic :: "('l, 'g) outside \<Rightarrow> header \<Rightarrow> classic_process_ev \<Rightarrow> ('l, 'g) pipeline \<Rightarrow> ('l, 'g) pipeline" where
  "on_classic ext h c p =
     (case cp_kind c of
        ClassicStart \<Rightarrow>
          (let pid = cp_pid c; l = pl_launches p;
               keep = set_classic (AList.update pid (hts h, c, h) (la_classic l)) in
           case map_of (la_kernel l) pid of
             None \<Rightarrow> keep p
           | Some (ts, i, k) \<Rightarrow>
               (let rest = AList.delete pid (la_kernel l)
                in if within (join_window_ticks p) ts (hts h) then join_classic ext c (ts, i, k) (set_kernel rest p)
                   else keep (set_kernel (AList.update pid (ts, i, k) rest) p)))
      | ClassicDcStart \<Rightarrow> seed_rundown ext c p
      | _ \<Rightarrow> p)"

section \<open>Halves without a partner\<close>

definition gain_details :: "('l, 'g) outside \<Rightarrow> u64 \<Rightarrow> proc_info \<Rightarrow> classic_process_ev \<Rightarrow> ('l, 'g) pipeline
    \<Rightarrow> ('l, 'g) pipeline" where
  "gain_details ext k known c p =
     (let (u, p) = (case (pi_user known, cp_user_sid c) of
            (None, Some s) \<Rightarrow> (let (u, p) = user_of_sid ext s p in (Some u, p))
          | _ \<Rightarrow> (pi_user known, p))
      in p\<lparr>pl_procs := pc_get_mut k (\<lambda>i. i\<lparr>pi_cmd_line := (case pi_cmd_line i of
               None \<Rightarrow> Some (to_string_lossy (cp_command_line c)) | Some s \<Rightarrow> Some s),
             pi_user := u\<rparr>) (pl_procs p)\<rparr>)"

definition miss_join :: "('l, 'g) pipeline \<Rightarrow> ('l, 'g) pipeline" where
  "miss_join = count (\<lambda>n. n\<lparr>n_launch_join_miss := n_launch_join_miss n + 1\<rparr>)"

text \<open>Only the classic half came: the Launch is made from the live process.\<close>

definition launch_from_classic :: "('l, 'g) outside \<Rightarrow> live_process \<Rightarrow> u32 \<times> (int \<times> classic_process_ev \<times> header)
    \<Rightarrow> ('l, 'g) pipeline \<Rightarrow> ('l, 'g) pipeline" where
  "launch_from_classic ext live = (\<lambda>(pid, ts, c, h) p.
     let (path, p) = pl_dos ext (lp_image_path live) p;
         (info, p) = apply_classic ext c ((proc_info_new (lp_start_key live) pid)\<lparr>pi_path := path\<rparr>) p;
         (parent, p) = pl_lookup_at (cp_parent_pid c) ts p;
         info = info\<lparr>pi_parent := map_option (ref_to ext p) parent\<rparr>;
         (actor, p) = actor_sync ext h ProcessClass (pl_insert info ts p)
     in case actor of
          None \<Rightarrow> p
        | Some actor \<Rightarrow> push_launch ext ts actor info (lp_image_path live) True None p)"

definition expire_classic :: "('l, 'g) outside \<Rightarrow> u32 \<times> (int \<times> classic_process_ev \<times> header) \<Rightarrow> ('l, 'g) pipeline
    \<Rightarrow> ('l, 'g) pipeline" where
  "expire_classic ext x p =
     (let pid = fst x; c = fst (snd (snd x));
          p = set_classic (AList.delete pid (la_classic (pl_launches p))) p;
          (live, p) = pl_live ext pid p in
      case live of
        None \<Rightarrow> drop_actor ProcessClass (miss_join p)
      | Some live \<Rightarrow>
          (case pc_get (lp_start_key live) (pl_procs p) of
             Some known \<Rightarrow> gain_details ext (lp_start_key live) known c p
           | None \<Rightarrow> launch_from_classic ext live x (miss_join p)))"

definition launch_expiry :: "('l, 'g) outside \<Rightarrow> int \<Rightarrow> ('l, 'g) pipeline \<Rightarrow> ('l, 'g) pipeline" where
  "launch_expiry ext stream p =
     (let w = join_window_ticks p;
          p = set_kernel (filter (\<lambda>(_, ts, _). sat_add ts w \<ge> stream) (la_kernel (pl_launches p))) p;
          gone = filter (\<lambda>(_, ts, _). sat_add ts w < stream) (la_classic (pl_launches p))
      in fold (expire_classic ext) gone p)"

section \<open>Terminate, Module Load, enrichment\<close>

definition on_process_stop :: "('l, 'g) outside \<Rightarrow> header \<Rightarrow> process_stop_ev \<Rightarrow> ('l, 'g) pipeline \<Rightarrow> ('l, 'g) pipeline" where
  "on_process_stop ext h s p =
     (let k = start_key (kernel_boot_id (pl_id p)) (pst_sequence_number s);
          pr = (case pc_get k (pl_procs p) of
            Some i \<Rightarrow> ref_to ext p i
          | None \<Rightarrow>
              (let r = bare_to ext p k (pst_pid s)
               in r\<lparr>ref_file := (ref_file r)\<lparr>file_name := from_utf8_lossy (pst_image_name s)\<rparr>\<rparr>));
          (ev, p) = pl_event ext (hts h) (ProcessEvent (Terminate pr (Some (sint (pst_exit_code s))))) p;
          p = complete (push ev) p;
          p = p\<lparr>pl_procs := pc_end k (hts h) (pl_procs p)\<rparr>
      in on_seeding (owner_exited (pst_pid s)) p)"

definition on_image_load :: "('l, 'g) outside \<Rightarrow> header \<Rightarrow> image_load_ev \<Rightarrow> ('l, 'g) pipeline \<Rightarrow> ('l, 'g) pipeline" where
  "on_image_load ext h i p =
     (let (actor, p) = (if hdr_pid h = il_pid i then actor_sync ext h ModuleClass p
                        else actor_payload ext (il_pid i) (hts h) ModuleClass p) in
      case actor of
        None \<Rightarrow> p
      | Some actor \<Rightarrow>
          (let nt = to_string_lossy (il_image_name i);
               (f, p) = pl_file_obj ext nt p;
               (ev, p) = pl_event ext (hts h)
                 (ModuleEvent \<lparr>module_actor = actor, module_act = Load f (il_image_base i)\<rparr>) p
           in if nt = [] then complete (push ev) p
              else
                (let w = pl_wait p Enrich (enrich_deadline (pl_cfg p));
                     (pid, p) = push_with ev [w] (image_expansion nt None) p in
                 case pid of
                   None \<Rightarrow> p
                 | Some pid \<Rightarrow>
                     (let l = pl_launches p
                      in push_request (ReqEnrich pid ModuleImage nt)
                           (p\<lparr>pl_launches := l\<lparr>la_enrich := AList.update pid ModuleImage (la_enrich l)\<rparr>\<rparr>)))))"

definition set_enriched :: "enrich_target \<Rightarrow> hashes option \<Rightarrow> signature option \<Rightarrow> schema_event \<Rightarrow> schema_event" where
  "set_enriched target hs sig e =
     (case (event_kind e, target) of
        (ProcessEvent (Launch actor pr), LaunchImage) \<Rightarrow>
          e\<lparr>event_kind := ProcessEvent (Launch actor
             (pr\<lparr>proc_file := (proc_file pr)\<lparr>file_hashes := hs, file_signature := sig\<rparr>\<rparr>))\<rparr>
      | (ModuleEvent m, ModuleImage) \<Rightarrow>
          (case module_act m of Load f b \<Rightarrow>
             e\<lparr>event_kind := ModuleEvent (m\<lparr>module_act := Load (f\<lparr>file_hashes := hs, file_signature := sig\<rparr>) b\<rparr>)\<rparr>)
      | _ \<Rightarrow> e)"

definition on_enriched :: "pending_id \<Rightarrow> hashes option \<Rightarrow> signature option \<Rightarrow> bool \<Rightarrow> ('l, 'g) pipeline \<Rightarrow> ('l, 'g) pipeline" where
  "on_enriched i hs sig failed p =
     (let (target, m) = pending_take i (la_enrich (pl_launches p));
          p = p\<lparr>pl_launches := (pl_launches p)\<lparr>la_enrich := m\<rparr>\<rparr> in
      case target of
        None \<Rightarrow> p
      | Some target \<Rightarrow>
          (let p = (if failed then count (\<lambda>n. n\<lparr>n_enrichment_errors := n_enrichment_errors n + 1\<rparr>) p else p)
           in if \<not> is_waiting i Enrich (pl_completion p) then p
              else complete (\<lambda>c. resolve i Enrich (snd (update i (set_enriched target hs sig) c))) p))"

text \<open>The callback's part for a Launch whose other half never came: from the live process, if it is
  the same one.\<close>

definition join_fallback :: "('l, 'g) outside \<Rightarrow> identity \<Rightarrow> schema_event \<Rightarrow> 'l \<times> proc_cache
    \<Rightarrow> schema_event \<times> 'l \<times> proc_cache" where
  "join_fallback ext ident e s =
     (case event_kind e of
        ProcessEvent (Launch actor pr) \<Rightarrow>
          (let (live, l) = live_process_of ext (fst s) (proc_pid pr); procs = snd s in
           case live of
             None \<Rightarrow> (e, l, procs)
           | Some live \<Rightarrow>
               if identity_uid (blake3_of ext) ident (lp_start_key live) \<noteq> proc_uid pr then (e, l, procs)
               else (case lp_command_line live of
                   None \<Rightarrow> (e, l, procs)
                 | Some cmd \<Rightarrow>
                     (let (c, was_cut) = truncate_cmd (Some cmd)
                      in (e\<lparr>event_kind := ProcessEvent (Launch actor
                            (pr\<lparr>cmd_line := c, cmd_line_truncated := was_cut\<rparr>))\<rparr>, l,
                          pc_get_mut (lp_start_key live) (\<lambda>i. i\<lparr>pi_cmd_line := Some cmd\<rparr>) procs))))
      | _ \<Rightarrow> (e, s))"

end
