(* ===== verification/Pl_Registry.thy ===== *)
theory Pl_Registry
  imports Pl_State
begin

text \<open>
  Registry events of the pipeline (\<open>crates/atlas-agent/src/pipeline/reg.rs\<close>): paths from the key map,
  events that wait for the seeder, and the reads of values after a Value Set. An operation of the key
  map that does not return (theory Ag_KeyMap) makes the handler's result \<open>None\<close>.
\<close>

section \<open>Paths\<close>

datatype key_path_of = KeyKnown rstr | KeyWait rstr u64 | KeyUnresolved rstr

definition units_to_string :: "wstr \<Rightarrow> rstr" where
  "units_to_string w = path_fit (to_string_lossy w) PATH_MAX"

definition key_wait :: "rstr \<Rightarrow> u64 \<Rightarrow> ('l, 'g) pipeline \<Rightarrow> key_path_of \<times> ('l, 'g) pipeline" where
  "key_wait partial root p =
     (let can_wait = seed_on_miss (pl_cfg p) \<or> startup_pending KeyHandle (pl_seeding p)
      in if \<not> can_wait \<or> is_unnamable KeyHandle root (pl_seeding p) then (KeyUnresolved partial, p)
         else (KeyWait partial root, on_seeding (ask KeyHandle root (seed_on_miss (pl_cfg p))) p))"

definition resolve_key :: "u64 \<Rightarrow> ('l, 'g) pipeline \<Rightarrow> resolved option \<times> ('l, 'g) pipeline" where
  "resolve_key k p = (let (r, m) = km_resolve k (pl_keys p) in (r, p\<lparr>pl_keys := m\<rparr>))"

definition key_path_for :: "u64 \<Rightarrow> ('l, 'g) pipeline \<Rightarrow> key_path_of \<times> ('l, 'g) pipeline" where
  "key_path_for k p =
     (let (r, p) = resolve_key k p in
      case r of
        Some (RFull nt) \<Rightarrow> (KeyKnown nt, p)
      | Some (RPartial known root) \<Rightarrow> key_wait known root p
      | None \<Rightarrow> key_wait [] k p)"

definition set_key_path :: "rstr \<Rightarrow> bool \<Rightarrow> schema_event \<Rightarrow> schema_event" where
  "set_key_path path unresolved e =
     (let path = path_fit path PATH_MAX in
      case event_kind e of
        RegistryKeyEvent k \<Rightarrow> e\<lparr>event_kind := RegistryKeyEvent (k\<lparr>key_path := path, key_unresolved := unresolved\<rparr>)\<rparr>
      | RegistryValueEvent v \<Rightarrow>
          e\<lparr>event_kind := RegistryValueEvent (v\<lparr>value_key_path := path, value_unresolved := unresolved\<rparr>)\<rparr>
      | _ \<Rightarrow> e)"

section \<open>Value reads\<close>

definition read_accepted :: "expected \<Rightarrow> value_data option \<Rightarrow> value_data option" where
  "read_accepted x result = (case result of
     None \<Rightarrow> None
   | Some r \<Rightarrow> if vd_value_type r = ex_value_type x \<and> vd_size r = ex_data_size x then Some r else None)"

definition set_value_data :: "expected \<Rightarrow> value_data \<Rightarrow> schema_event \<Rightarrow> schema_event" where
  "set_value_data x r e =
     (case event_kind e of
        RegistryValueEvent v \<Rightarrow>
          (case value_act v of
             RVSet s \<Rightarrow>
               e\<lparr>event_kind := RegistryValueEvent (v\<lparr>value_act := RVSet
                   (s\<lparr>reg_data := take REG_DATA_MAX (vd_data r),
                      data_truncated := REG_DATA_MAX < unat (ex_data_size x),
                      data_unavailable := False\<rparr>)\<rparr>)\<rparr>
           | RVDelete \<Rightarrow> e)
      | _ \<Rightarrow> e)"

definition fail_read :: "('l, 'g) pipeline \<Rightarrow> ('l, 'g) pipeline" where
  "fail_read = count (\<lambda>n. n\<lparr>n_value_read_failed := n_value_read_failed n + 1\<rparr>)"

definition apply_read :: "pending_id \<Rightarrow> expected \<Rightarrow> value_data option \<Rightarrow> ('l, 'g) pipeline \<Rightarrow> ('l, 'g) pipeline" where
  "apply_read i x result p =
     (case read_accepted x result of
        None \<Rightarrow> fail_read p
      | Some r \<Rightarrow> complete (\<lambda>c. snd (update i (set_value_data x r) c)) p)"

definition start_read :: "pending_id \<Rightarrow> rstr \<Rightarrow> wstr \<Rightarrow> expected \<Rightarrow> early_key \<Rightarrow> ('l, 'g) pipeline \<Rightarrow> ('l, 'g) pipeline" where
  "start_read i nt name x early p =
     (let rg = pl_reg p; found = map_of (rg_early rg) early;
          p = p\<lparr>pl_reg := rg\<lparr>rg_early := AList.delete early (rg_early rg)\<rparr>\<rparr>
      in if is_some_and found (\<lambda>(read, _). vr_key_path read = nt \<and> vr_value_name read = name)
         then apply_read i x (snd (the found)) p
         else
           (let p = (if found \<noteq> None
                     then count (\<lambda>n. n\<lparr>n_early_read_redone := n_early_read_redone n + 1\<rparr>) p else p);
                w = pl_wait p ValueRead (value_read_deadline (pl_cfg p));
                p = complete (\<lambda>c. snd (add_wait i w c)) p;
                rg = pl_reg p;
                p = p\<lparr>pl_reg := rg\<lparr>rg_reads := AList.update i x (rg_reads rg)\<rparr>\<rparr>
            in push_request (ReqReadValue i \<lparr>vr_key_path = nt, vr_value_name = name\<rparr>) p))"

definition on_value_read :: "pending_id \<Rightarrow> value_data option \<Rightarrow> ('l, 'g) pipeline \<Rightarrow> ('l, 'g) pipeline" where
  "on_value_read i result p =
     (let (x, m) = pending_take i (rg_reads (pl_reg p));
          p = p\<lparr>pl_reg := (pl_reg p)\<lparr>rg_reads := m\<rparr>\<rparr> in
      case x of
        None \<Rightarrow> p
      | Some x \<Rightarrow>
          if \<not> is_waiting i ValueRead (pl_completion p) then p
          else complete (resolve i ValueRead) (apply_read i x result p))"

section \<open>Pushing an event\<close>

definition unresolve :: "('l, 'g) pipeline \<Rightarrow> ('l, 'g) pipeline" where
  "unresolve = count (\<lambda>n. n\<lparr>n_registry_unresolved := n_registry_unresolved n + 1\<rparr>)"

definition push_registry :: "int \<Rightarrow> u64 \<Rightarrow> schema_event \<Rightarrow> (wstr \<times> expected \<times> early_key) option
    \<Rightarrow> ('l, 'g) pipeline \<Rightarrow> ('l, 'g) pipeline" where
  "push_registry ts k ev read p =
     (let (path, p) = key_path_for k p in
      case path of
        KeyKnown nt \<Rightarrow>
          (let ev = set_key_path (registry_path nt (pl_ccs p)) False ev in
           case read of
             Some (name, x, early) \<Rightarrow>
               (let (i, c) = push_pending ev [] (pl_completion p)
                in start_read i nt name x early (p\<lparr>pl_completion := c\<rparr>))
           | None \<Rightarrow> complete (push ev) p)
      | KeyUnresolved partial \<Rightarrow>
          (let ev = set_key_path partial True ev;
               p = unresolve p;
               (no, kd) = no_read (event_kind ev);
               p = (if no then fail_read p else p)
           in complete (push (ev\<lparr>event_kind := kd\<rparr>)) p)
      | KeyWait partial root \<Rightarrow>
          (let ev = set_key_path partial True ev;
               (i, c) = push_pending ev [seeder_wait p False] (pl_completion p);
               p = p\<lparr>pl_completion := c\<rparr>;
               rg = pl_reg p;
               ws = (case map_of (rg_waiting rg) root of None \<Rightarrow> [] | Some ws \<Rightarrow> ws)
           in p\<lparr>pl_reg := rg\<lparr>
                rg_waiting := AList.update root (ws @ [\<lparr>kw_id = i, kw_ts = ts, kw_key = k, kw_read = read\<rparr>])
                  (rg_waiting rg),
                rg_waiter_root := AList.update i root (rg_waiter_root rg)\<rparr>\<rparr>))"

section \<open>The handlers\<close>

definition key_event :: "('l, 'g) outside \<Rightarrow> int \<Rightarrow> process_ref \<Rightarrow> registry_key_action \<Rightarrow> ('l, 'g) pipeline
    \<Rightarrow> schema_event \<times> ('l, 'g) pipeline" where
  "key_event ext ts actor act =
     pl_event ext ts (RegistryKeyEvent
       \<lparr>key_actor = actor, key_path = [], key_unresolved = True, key_act = act\<rparr>)"

definition value_event :: "('l, 'g) outside \<Rightarrow> int \<Rightarrow> process_ref \<Rightarrow> rstr \<Rightarrow> registry_value_action \<Rightarrow> ('l, 'g) pipeline
    \<Rightarrow> schema_event \<times> ('l, 'g) pipeline" where
  "value_event ext ts actor name act =
     pl_event ext ts (RegistryValueEvent
       \<lparr>value_actor = actor, value_key_path = [], value_name = name, value_unresolved = True, value_act = act\<rparr>)"

definition push_key_event :: "('l, 'g) outside \<Rightarrow> header \<Rightarrow> u64 \<Rightarrow> registry_key_action \<Rightarrow> ('l, 'g) pipeline
    \<Rightarrow> ('l, 'g) pipeline" where
  "push_key_event ext h k act p =
     (let (actor, p) = actor_sync ext h RegistryKeyClass p in
      case actor of
        None \<Rightarrow> p
      | Some actor \<Rightarrow>
          (let (ev, p) = key_event ext (hts h) actor act p in push_registry (hts h) k ev None p))"

definition on_reg_open :: "('l, 'g) outside \<Rightarrow> header \<Rightarrow> reg_open_ev \<Rightarrow> bool \<Rightarrow> ('l, 'g) pipeline
    \<Rightarrow> ('l, 'g) pipeline option" where
  "on_reg_open ext h op create p =
     (if ro_status op \<noteq> 0 then Some p
      else
        Option.bind (km_open (ro_key_object op) (ro_base_object op) (units_to_string (ro_relative_name op)) (hts h) (pl_keys p))
          (\<lambda>m. Some
            (let p = p\<lparr>pl_keys := m\<rparr>;
                 p = on_seeding (changed KeyHandle (ro_key_object op) (hts h)) p
             in if \<not> (create \<and> ro_disposition op = 1) then p
                else push_key_event ext h (ro_key_object op) RKCreate p)))"

definition on_reg_close :: "header \<Rightarrow> reg_key_ev \<Rightarrow> ('l, 'g) pipeline \<Rightarrow> ('l, 'g) pipeline option" where
  "on_reg_close h k p =
     (if is_self_key p (hdr_key h) then Some p
      else
        Option.bind (km_close (rk_key_object k) (hts h) (pl_keys p))
          (\<lambda>m. Some (on_seeding (changed KeyHandle (rk_key_object k) (hts h)) (p\<lparr>pl_keys := m\<rparr>))))"

definition on_reg_delete_key :: "('l, 'g) outside \<Rightarrow> header \<Rightarrow> reg_key_ev \<Rightarrow> ('l, 'g) pipeline \<Rightarrow> ('l, 'g) pipeline" where
  "on_reg_delete_key ext h k p =
     (if rk_status k \<noteq> 0 then p else push_key_event ext h (rk_key_object k) RKDelete p)"

definition is_raw_type :: "reg_type \<Rightarrow> bool" where
  "is_raw_type t = (case t of Raw _ \<Rightarrow> True | Known _ \<Rightarrow> False)"

definition on_reg_set_value :: "('l, 'g) outside \<Rightarrow> header \<Rightarrow> reg_set_value_ev \<Rightarrow> ('l, 'g) pipeline \<Rightarrow> ('l, 'g) pipeline" where
  "on_reg_set_value ext h v p =
     (if rsv_status v \<noteq> 0 then p
      else
        (let (actor, p) = actor_sync ext h RegistryValueClass p in
         case actor of
           None \<Rightarrow> p
         | Some actor \<Rightarrow>
             (let p = (if rsv_value_name_ambiguous v
                       then count (\<lambda>n. n\<lparr>n_reg_name_ambiguous := n_reg_name_ambiguous n + 1\<rparr>) p else p);
                  vt = reg_type_from_raw (rsv_value_type v);
                  unusual = is_raw_type vt;
                  p = (if unusual then count (\<lambda>n. n\<lparr>n_reg_type_unusual := n_reg_type_unusual n + 1\<rparr>) p else p);
                  read = (if registry_value_reads (pl_cfg p) \<and> \<not> unusual
                    then Some (rsv_value_name v,
                           \<lparr>ex_value_type = rsv_value_type v, ex_data_size = rsv_data_size v\<rparr>,
                           \<lparr>ekey_ts = hts h, ekey_tid = htid h, ekey_object = rsv_key_object v\<rparr>)
                    else None);
                  act = RVSet \<lparr>value_type = vt, reg_data = [], data_truncated = False,
                    data_read_after = (read \<noteq> None), data_unavailable = True\<rparr>;
                  (ev, p) = value_event ext (hts h) actor (units_to_string (rsv_value_name v)) act p
              in push_registry (hts h) (rsv_key_object v) ev read p)))"

definition on_reg_delete_value :: "('l, 'g) outside \<Rightarrow> header \<Rightarrow> reg_delete_value_ev \<Rightarrow> ('l, 'g) pipeline \<Rightarrow> ('l, 'g) pipeline" where
  "on_reg_delete_value ext h v p =
     (if rdv_status v \<noteq> 0 then p
      else
        (let (actor, p) = actor_sync ext h RegistryValueClass p in
         case actor of
           None \<Rightarrow> p
         | Some actor \<Rightarrow>
             (let (ev, p) = value_event ext (hts h) actor (units_to_string (rdv_value_name v)) RVDelete p
              in push_registry (hts h) (rdv_key_object v) ev None p)))"

section \<open>Answers of the seeder\<close>

text \<open>The change of a pending event by a function that also answers.\<close>

definition update_no_read :: "pending_id \<Rightarrow> ('l, 'g) pipeline \<Rightarrow> bool \<times> ('l, 'g) pipeline" where
  "update_no_read i p =
     (let no = (case map_of (cpending (pl_completion p)) i of
                  None \<Rightarrow> False | Some en \<Rightarrow> fst (no_read (event_kind (eevent en))))
      in (no, complete (\<lambda>c. snd (update i (\<lambda>e. e\<lparr>event_kind := snd (no_read (event_kind e))\<rparr>) c)) p))"

text \<open>The full name of a waiter's key, where the answer may be used.\<close>

definition full_name :: "bool \<Rightarrow> u64 \<Rightarrow> ('l, 'g) pipeline \<Rightarrow> rstr option \<times> ('l, 'g) pipeline" where
  "full_name usable k p =
     (if usable then
        (let (r, p) = resolve_key k p in
         case r of Some (RFull nt) \<Rightarrow> (Some nt, p) | _ \<Rightarrow> (None, p))
      else (None, p))"

definition answer_key_waiter :: "int option \<Rightarrow> int \<Rightarrow> bool \<Rightarrow> key_waiter \<Rightarrow> ('l, 'g) pipeline \<Rightarrow> ('l, 'g) pipeline" where
  "answer_key_waiter change taken named w p =
     (if \<not> is_waiting (kw_id w) Seeder (pl_completion p) then p
      else
        (let reused = is_some_and change (\<lambda>c. c > min (kw_ts w) taken);
             (full, p) = full_name (named \<and> \<not> reused) (kw_key w) p
         in case full of
              Some nt \<Rightarrow>
                (let path = registry_path nt (pl_ccs p);
                     p = complete (\<lambda>c. resolve (kw_id w) Seeder (snd (update (kw_id w) (set_key_path path False) c))) p
                 in case kw_read w of
                      None \<Rightarrow> p
                    | Some (name, x, early) \<Rightarrow> start_read (kw_id w) nt name x early p)
            | None \<Rightarrow>
                (let p = unresolve p;
                     (no, p) = update_no_read (kw_id w) p;
                     p = (if no then fail_read p else p)
                 in complete (resolve (kw_id w) Seeder) p)))"

definition answer_key_waiters :: "u64 \<Rightarrow> int \<Rightarrow> bool \<Rightarrow> ('l, 'g) pipeline \<Rightarrow> ('l, 'g) pipeline" where
  "answer_key_waiters root taken named p =
     (let rg = pl_reg p in
      case map_of (rg_waiting rg) root of
        None \<Rightarrow> p
      | Some ws \<Rightarrow>
          (let p = p\<lparr>pl_reg := rg\<lparr>rg_waiting := AList.delete root (rg_waiting rg)\<rparr>\<rparr>
           in fold (answer_key_waiter (last_change KeyHandle root (pl_seeding p)) taken named) ws p))"

end
