(* ===== verification/Pl_Files.thy ===== *)
theory Pl_Files
  imports Pl_Expand
begin

text \<open>
  File events of the pipeline (\<open>crates/atlas-agent/src/pipeline/file.rs\<close>): the FileObject map, the
  operations held until their failure can no longer come, Updates and Deletes at a Cleanup, renames
  and watchlist Opens.
\<close>

section \<open>Held operations\<close>

definition file_event :: "('l, 'g) outside \<Rightarrow> int \<Rightarrow> process_ref \<Rightarrow> file_obj \<Rightarrow> file_action \<Rightarrow> ('l, 'g) pipeline
    \<Rightarrow> schema_event \<times> ('l, 'g) pipeline" where
  "file_event ext ts actor f act =
     pl_event ext ts (FileEvent \<lparr>file_actor = actor, file_file = f, file_act = act\<rparr>)"

definition op_end_on :: "('l, 'g) pipeline \<Rightarrow> bool" where
  "op_end_on p = agent_config.file_op_end (pl_cfg p)"

definition confirm_waits :: "('l, 'g) pipeline \<Rightarrow> wait list" where
  "confirm_waits p =
     (if op_end_on p then [\<lparr>wreason = Confirm, wdeadline = None, wdrop_at_deadline = False\<rparr>] else [])"

definition resolve_confirm :: "pending_id option \<Rightarrow> ('l, 'g) pipeline \<Rightarrow> ('l, 'g) pipeline" where
  "resolve_confirm i p = (case i of None \<Rightarrow> p | Some i \<Rightarrow> complete (resolve i Confirm) p)"

definition cancel_held :: "pending_id option \<Rightarrow> ('l, 'g) pipeline \<Rightarrow> ('l, 'g) pipeline" where
  "cancel_held i p = (case i of None \<Rightarrow> p | Some i \<Rightarrow> complete (\<lambda>c. snd (cancel i c)) p)"

text \<open>\<open>confirm\<close>: the operation stands.\<close>

definition confirm_op :: "held_op \<Rightarrow> ('l, 'g) pipeline \<Rightarrow> ('l, 'g) pipeline" where
  "confirm_op ho p =
     (case ho of
        HeldCreate fo opened coalesce \<Rightarrow> resolve_confirm opened p
      | HeldRename i fo new_nt \<Rightarrow>
          on_files (files_mut fo (\<lambda>e. e\<lparr>fe_nt := Some new_nt, fe_expanded := None\<rparr>)) (resolve_confirm i p))"

definition forget_opened :: "(open_key \<times> int) option \<Rightarrow> files \<Rightarrow> files" where
  "forget_opened coalesce f = (case coalesce of
     None \<Rightarrow> f
   | Some (k, at) \<Rightarrow>
       if recent_get k (fl_opened f) = Some at then f\<lparr>fl_opened := snd (recent_remove k (fl_opened f))\<rparr> else f)"

text \<open>\<open>fail\<close>.\<close>

definition fail_op :: "held_op \<Rightarrow> ('l, 'g) pipeline \<Rightarrow> ('l, 'g) pipeline" where
  "fail_op ho p =
     (let p = count (\<lambda>n. n\<lparr>n_file_op_failed := n_file_op_failed n + 1\<rparr>) p in
      case ho of
        HeldCreate fo opened coalesce \<Rightarrow>
          (let p = on_files (\<lambda>f. f\<lparr>fl_map := AList.delete fo (fl_map f)\<rparr>) p;
               p = cancel_held opened p
           in on_files (forget_opened coalesce) p)
      | HeldRename i fo new_nt \<Rightarrow> cancel_held i p)"

definition hold_back :: "int \<Rightarrow> u64 \<Rightarrow> held_op \<Rightarrow> files \<Rightarrow> files" where
  "hold_back ts irp ho f =
     (let at = fl_held_base f + length (fl_held f)
      in f\<lparr>fl_held_by_irp := AList.update irp at (fl_held_by_irp f), fl_held := fl_held f @ [(ts, irp, Some ho)]\<rparr>)"

text \<open>Whether a failure of the Irp already came for an operation at \<open>ts\<close>; the guarded subtraction
  wraps as in a release build.\<close>

definition already_failed :: "int \<Rightarrow> u64 \<Rightarrow> files \<Rightarrow> bool" where
  "already_failed ts irp f \<longleftrightarrow>
     is_some_and (recent_get irp (fl_failed f)) (\<lambda>fts. fts \<ge> ts \<and> wrap_i64 (fts - ts) \<le> fl_window f)"

definition hold_op :: "int \<Rightarrow> u64 \<Rightarrow> held_op \<Rightarrow> ('l, 'g) pipeline \<Rightarrow> ('l, 'g) pipeline" where
  "hold_op ts irp ho p =
     (if \<not> op_end_on p then confirm_op ho p
      else if already_failed ts irp (pl_files p) then
        fail_op ho (on_files (\<lambda>f. f\<lparr>fl_failed := snd (recent_remove irp (fl_failed f))\<rparr>) p)
      else on_files (hold_back ts irp ho) p)"

section \<open>Creates\<close>

definition opened_recently :: "('l, 'g) pipeline \<Rightarrow> open_key \<Rightarrow> int \<Rightarrow> bool" where
  "opened_recently p k ts \<longleftrightarrow>
     is_some_and (recent_get k (fl_opened (pl_files p)))
       (\<lambda>at. sat_sub ts at < ticks_of (pl_ticks p) (watchlist_coalesce (pl_cfg p)))"

definition watch_open :: "('l, 'g) outside \<Rightarrow> int \<Rightarrow> process_ref \<Rightarrow> rstr \<Rightarrow> u64 \<Rightarrow> ('l, 'g) pipeline
    \<Rightarrow> pending_id option \<times> (open_key \<times> int) option \<times> ('l, 'g) pipeline" where
  "watch_open ext ts actor nt fo p =
     (let logged = watch_matches (pl_watch p) nt; k = (ref_uid actor, lowercase ext nt) in
      if \<not> logged \<and> \<not> has_short_name nt then (None, None, p)
      else if opened_recently p k ts then (None, None, p)
      else
        (let (f, expand, p) = emit_file ext nt (Some fo) p;
             x = (expansion_file (Some fo))\<lparr>x_open_logged := Some logged\<rparr>;
             (ev, p) = file_event ext ts actor f FOpen p;
             (i, p) = push_with ev (confirm_waits p) (to_expand expand x) p;
             p = on_files (\<lambda>f. f\<lparr>fl_opened := recent_insert k ts (fl_opened f)\<rparr>) p
         in (i, Some (k, ts), p)))"

text \<open>\<open>FileCreate::delete_on_close\<close> of \<open>atlas-etw\<close> is \<open>fc_delete_on_close\<close>.\<close>

definition on_file_create :: "('l, 'g) outside \<Rightarrow> header \<Rightarrow> file_create_ev \<Rightarrow> ('l, 'g) pipeline \<Rightarrow> ('l, 'g) pipeline" where
  "on_file_create ext h c p =
     (let nt = to_string_lossy (fc_file_name c); fo = fc_file_object c;
          (opener, p) = actor_sync ext h FileClass p;
          mapped = (map_of (fl_map (pl_files p)) fo \<noteq> None);
          (cleaned, cl) = recent_remove fo (fl_cleaned (pl_files p));
          p = on_files (\<lambda>f. f\<lparr>fl_cleaned := cl\<rparr>) p;
          p = (if mapped \<or> cleaned \<noteq> None
               then count (\<lambda>n. n\<lparr>n_file_object_replaced := n_file_object_replaced n + 1\<rparr>) p else p);
          p = on_seeding (changed FileHandle fo (hts h)) p;
          e = (new_entry (Some nt) opener (hts h))\<lparr>fe_delete_on_close := fc_delete_on_close c\<rparr>;
          p = on_files (files_insert fo e) p;
          (opened, coalesce, p) = (case opener of
              Some actor \<Rightarrow> watch_open ext (hts h) actor nt fo p
            | None \<Rightarrow> (None, None, p))
      in hold_op (hts h) (fc_irp c) (HeldCreate fo opened coalesce) p)"

definition on_file_create_new :: "('l, 'g) outside \<Rightarrow> header \<Rightarrow> file_create_ev \<Rightarrow> ('l, 'g) pipeline \<Rightarrow> ('l, 'g) pipeline" where
  "on_file_create_new ext h c p =
     (let nt = to_string_lossy (fc_file_name c); fo = fc_file_object c;
          (actor, p) = actor_sync ext h FileClass p in
      case actor of
        None \<Rightarrow> p
      | Some actor \<Rightarrow>
          (let p = (if map_of (fl_map (pl_files p)) fo = None
                    then on_files (files_insert fo (new_entry (Some nt) (Some actor) (hts h)))
                           (on_seeding (changed FileHandle fo (hts h)) p)
                    else p);
               (f, expand, p) = emit_file ext nt (Some fo) p;
               (ev, p) = file_event ext (hts h) actor f FCreate p
           in snd (push_with ev [] (to_expand expand (expansion_file (Some fo))) p)))"

section \<open>Writes and information\<close>

definition write_after_cleanup :: "('l, 'g) pipeline \<Rightarrow> ('l, 'g) pipeline" where
  "write_after_cleanup = count (\<lambda>n. n\<lparr>n_writes_after_cleanup := n_writes_after_cleanup n + 1\<rparr>)"

definition can_wait_file :: "('l, 'g) pipeline \<Rightarrow> bool" where
  "can_wait_file p \<longleftrightarrow> seed_on_miss (pl_cfg p) \<or> startup_pending FileHandle (pl_seeding p)"

definition ask_file :: "u64 \<Rightarrow> ('l, 'g) pipeline \<Rightarrow> ('l, 'g) pipeline" where
  "ask_file fo p = on_seeding (ask FileHandle fo (seed_on_miss (pl_cfg p))) p"

definition on_unknown_write :: "header \<Rightarrow> u64 \<Rightarrow> ('l, 'g) pipeline \<Rightarrow> ('l, 'g) pipeline" where
  "on_unknown_write h fo p =
     (if recent_get fo (fl_cleaned (pl_files p)) \<noteq> None then write_after_cleanup p
      else if \<not> can_wait_file p then p
      else ask_file fo (on_files (files_insert fo ((new_entry None None (hts h))\<lparr>fe_written := True\<rparr>)) p))"

definition touch_file :: "u64 \<Rightarrow> ('l, 'g) pipeline \<Rightarrow> file_entry option \<times> ('l, 'g) pipeline" where
  "touch_file fo p = (let (e, f) = files_touch fo (pl_files p) in (e, p\<lparr>pl_files := f\<rparr>))"

definition on_file_write :: "header \<Rightarrow> u64 \<Rightarrow> ('l, 'g) pipeline \<Rightarrow> ('l, 'g) pipeline" where
  "on_file_write h fo p =
     (let (e, p) = touch_file fo p in
      case e of
        None \<Rightarrow> on_unknown_write h fo p
      | Some e \<Rightarrow>
          (let p = (if fe_cleaned e \<noteq> None then write_after_cleanup p else p)
           in on_files (files_mut fo (\<lambda>e. e\<lparr>fe_written := True\<rparr>)) p))"

definition forgets_cached :: "file_action \<Rightarrow> bool" where
  "forgets_cached act = (case act of FSetAttributes \<Rightarrow> False | _ \<Rightarrow> True)"

definition unknown_file :: "('l, 'g) pipeline \<Rightarrow> ('l, 'g) pipeline" where
  "unknown_file = count (\<lambda>n. n\<lparr>n_unknown_file_object := n_unknown_file_object n + 1\<rparr>)"

definition file_action_on :: "('l, 'g) outside \<Rightarrow> int \<Rightarrow> u64 \<Rightarrow> process_ref \<Rightarrow> file_action \<Rightarrow> fill \<Rightarrow> bool
    \<Rightarrow> ('l, 'g) pipeline \<Rightarrow> ('l, 'g) pipeline" where
  "file_action_on ext ts fo actor act fl drop_unresolved p =
     (let (e, p) = touch_file fo p in
      case Option.bind e fe_nt of
        Some nt \<Rightarrow>
          (let p = (if forgets_cached act then push_request (ReqInvalidateHash nt) p else p);
               (f, expand, p) = emit_file ext nt (Some fo) p;
               (ev, p) = file_event ext ts actor f act p
           in snd (push_with ev [] (to_expand expand (expansion_file (Some fo))) p))
      | None \<Rightarrow>
          if \<not> can_wait_file p \<or> is_unnamable FileHandle fo (pl_seeding p) then
            (if drop_unresolved then unknown_file p else p)
          else
            (let p = (if map_of (fl_map (pl_files p)) fo = None
                      then ask_file fo (on_files (files_insert fo (new_entry None None ts)) p) else p);
                 (ev, p) = file_event ext ts actor empty_file act p;
                 (i, c) = push_pending ev [seeder_wait p drop_unresolved] (pl_completion p);
                 p = p\<lparr>pl_completion := c\<rparr>
             in if map_of (fl_map (pl_files p)) fo = None then p
                else on_files (\<lambda>f. (files_mut fo (\<lambda>e. e\<lparr>fe_waiting := fe_waiting e @ [(i, ts, fl)]\<rparr>) f)
                       \<lparr>fl_waiter_fo := AList.update i fo (fl_waiter_fo f)\<rparr>) p))"

definition on_file_set_info :: "('l, 'g) outside \<Rightarrow> header \<Rightarrow> file_set_info_ev \<Rightarrow> ('l, 'g) pipeline \<Rightarrow> ('l, 'g) pipeline" where
  "on_file_set_info ext h i p =
     (if fs_info_class i = FILE_END_OF_FILE_INFORMATION then on_file_write h (fs_file_object i) p
      else if fs_info_class i = FILE_BASIC_INFORMATION then
        (let (actor, p) = actor_sync ext h FileClass p in
         case actor of
           None \<Rightarrow> p
         | Some actor \<Rightarrow> file_action_on ext (hts h) (fs_file_object i) actor FSetAttributes FillFile True p)
      else p)"

section \<open>Deletes\<close>

definition request_path :: "u64 \<Rightarrow> files \<Rightarrow> rstr option" where
  "request_path k f = (case recent_map_get k (fl_requests f) of
     Some (AskedEvent _ path) \<Rightarrow> path
   | _ \<Rightarrow> None)"

definition ask_delete :: "header \<Rightarrow> u64 \<Rightarrow> u64 \<Rightarrow> rstr option \<Rightarrow> files \<Rightarrow> files" where
  "ask_delete h k irp path f =
     (let path = (case path of Some s \<Rightarrow> Some s | None \<Rightarrow> request_path k f)
      in f\<lparr>fl_requests := recent_map_insert k (hts h) (AskedEvent h path) (fl_requests f),
           fl_request_irps := recent_map_insert irp (hts h) k (fl_request_irps f)\<rparr>)"

definition emit_delete :: "('l, 'g) outside \<Rightarrow> int \<Rightarrow> process_ref \<Rightarrow> rstr \<Rightarrow> ('l, 'g) pipeline \<Rightarrow> ('l, 'g) pipeline" where
  "emit_delete ext ts actor nt p =
     (let p = push_request (ReqInvalidateHash nt) p;
          (f, expand, p) = emit_file ext nt None p;
          (ev, p) = file_event ext ts actor f FDelete p
      in snd (push_with ev [] (to_expand expand (expansion_file None)) p))"

definition on_file_delete_path :: "('l, 'g) outside \<Rightarrow> header \<Rightarrow> file_path_ev \<Rightarrow> ('l, 'g) pipeline \<Rightarrow> ('l, 'g) pipeline" where
  "on_file_delete_path ext h x p =
     (if op_end_on p then
        on_files (ask_delete h (fp_file_key x) (fp_irp x) (Some (to_string_lossy (fp_file_path x)))) p
      else
        (let (actor, p) = actor_sync ext h FileClass p in
         case actor of
           None \<Rightarrow> p
         | Some actor \<Rightarrow> emit_delete ext (hts h) actor (to_string_lossy (fp_file_path x)) p))"

definition on_file_set_delete :: "header \<Rightarrow> file_set_info_ev \<Rightarrow> ('l, 'g) pipeline \<Rightarrow> ('l, 'g) pipeline" where
  "on_file_set_delete h i p =
     (if fs_extra_information i \<noteq> 0 then on_files (ask_delete h (fs_file_key i) (fs_irp i) None) p
      else on_files (\<lambda>f.
        if is_some_and (map_of (fl_map f) (fs_file_object i)) fe_delete_on_close
        then files_mut (fs_file_object i) (\<lambda>e. e\<lparr>fe_delete_on_close := False\<rparr>) f
        else f\<lparr>fl_requests := snd (recent_map_remove (fs_file_key i) (fl_requests f))\<rparr>) p)"

definition delete_requester :: "u64 \<Rightarrow> u64 \<Rightarrow> files \<Rightarrow> requester option" where
  "delete_requester fo k f = (case recent_map_get k (fl_requests f) of
     Some r \<Rightarrow> Some r
   | None \<Rightarrow> (case map_of (fl_map f) fo of
       Some e \<Rightarrow> if fe_delete_on_close e then map_option AskedOpener (fe_opener e) else None
     | None \<Rightarrow> None))"

text \<open>A delete reported before by a POSIX-style one, while the handle was open already: its record.\<close>

definition posix_reported :: "u64 \<Rightarrow> u64 \<times> u64 \<Rightarrow> files \<Rightarrow> bool" where
  "posix_reported fo k f \<longleftrightarrow>
     is_some_and (recent_map_get k (fl_posix_deleted f))
       (\<lambda>at. is_none_or (map_of (fl_map f) fo) (\<lambda>e. fe_since e < at))"

definition delete_actor :: "('l, 'g) outside \<Rightarrow> header \<Rightarrow> requester option \<Rightarrow> ('l, 'g) pipeline
    \<Rightarrow> process_ref option \<times> rstr option \<times> ('l, 'g) pipeline" where
  "delete_actor ext h r p =
     (case r of
        Some (AskedOpener a) \<Rightarrow> (Some a, None, p)
      | Some (AskedEvent rh path) \<Rightarrow> (let (a, p) = actor_sync ext rh FileClass p in (a, path, p))
      | None \<Rightarrow> (let (a, p) = actor_sync ext h FileClass p in (a, None, p)))"

definition retire_later :: "u64 \<Rightarrow> int \<Rightarrow> files \<Rightarrow> files" where
  "retire_later fo at f = f\<lparr>fl_retiring := fl_retiring f @ [(sat_add at (fl_outcome f), at, fo)]\<rparr>"

definition report_delete :: "('l, 'g) outside \<Rightarrow> header \<Rightarrow> u64 \<Rightarrow> requester option \<Rightarrow> ('l, 'g) pipeline
    \<Rightarrow> ('l, 'g) pipeline" where
  "report_delete ext h fo r p =
     (let (actor, path, p) = delete_actor ext h r p in
      case actor of
        None \<Rightarrow> p
      | Some actor \<Rightarrow>
          (case path of
             Some nt \<Rightarrow> emit_delete ext (hts h) actor nt p
           | None \<Rightarrow>
               (let mapped = (map_of (fl_map (pl_files p)) fo \<noteq> None);
                    p = file_action_on ext (hts h) fo actor FDelete FillFile True p
                in if \<not> mapped \<and> map_of (fl_map (pl_files p)) fo \<noteq> None
                   then on_files (\<lambda>f. retire_later fo (hts h) (files_mut fo (\<lambda>e. e\<lparr>fe_cleaned := Some (hts h)\<rparr>) f)) p
                   else p)))"

definition on_cleanup_outcome :: "('l, 'g) outside \<Rightarrow> header \<Rightarrow> u64 \<Rightarrow> u64 \<Rightarrow> u64 \<Rightarrow> ('l, 'g) pipeline \<Rightarrow> ('l, 'g) pipeline" where
  "on_cleanup_outcome ext h fo k info p =
     (let r = delete_requester fo k (pl_files p) in
      if \<not> removed info \<and> (info \<noteq> FILE_UNKNOWN \<or> r = None) then p
      else
        (let p = (if removed info then p
                  else count (\<lambda>n. n\<lparr>n_file_delete_outcome_unknown := n_file_delete_outcome_unknown n + 1\<rparr>) p);
             p = on_files (\<lambda>f. f\<lparr>fl_requests := snd (recent_map_remove k (fl_requests f))\<rparr>) p;
             pk = (k, info AND NOT POSIX_STYLE_DELETE)
         in if info AND POSIX_STYLE_DELETE \<noteq> 0 then
              report_delete ext h fo r
                (on_files (\<lambda>f. f\<lparr>fl_posix_deleted := recent_map_insert pk (hts h) (hts h) (fl_posix_deleted f)\<rparr>) p)
            else if posix_reported fo pk (pl_files p) then
              on_files (\<lambda>f. f\<lparr>fl_posix_deleted := snd (recent_map_remove pk (fl_posix_deleted f))\<rparr>) p
            else report_delete ext h fo r p))"

section \<open>Renames\<close>

text \<open>The source of a rename, with the expansions to ask for; an unknown one stays empty.\<close>

definition rename_source :: "('l, 'g) outside \<Rightarrow> header \<Rightarrow> u64 \<Rightarrow> file_entry option \<Rightarrow> (rstr \<times> expansion) list
    \<Rightarrow> ('l, 'g) pipeline \<Rightarrow> file_obj \<times> (rstr \<times> expansion) list \<times> ('l, 'g) pipeline" where
  "rename_source ext h fo e expands p =
     (case Option.bind e fe_nt of
        Some nt \<Rightarrow>
          (let p = push_request (ReqInvalidateHash nt) p; (f, y, p) = emit_file ext nt (Some fo) p
           in (f, expands @ to_expand y (expansion_file None), p))
      | None \<Rightarrow>
          (empty_file, expands,
           if map_of (fl_map (pl_files p)) fo = None
           then on_files (files_insert fo (new_entry None None (hts h))) p else p))"

definition on_file_rename_path :: "('l, 'g) outside \<Rightarrow> header \<Rightarrow> file_path_ev \<Rightarrow> ('l, 'g) pipeline \<Rightarrow> ('l, 'g) pipeline" where
  "on_file_rename_path ext h x p =
     (let (actor, p) = actor_sync ext h FileClass p in
      case actor of
        None \<Rightarrow> p
      | Some actor \<Rightarrow>
          (let new_nt = to_string_lossy (fp_file_path x); fo = fp_file_object x;
               (result, expand_result, p) = emit_file ext new_nt None p;
               (e, p) = touch_file fo p;
               waits = confirm_waits p;
               expands = to_expand expand_result ((expansion_file None)\<lparr>x_slot := SlotRenameResult\<rparr>);
               (f, expands, p) = rename_source ext h fo e expands p;
               (ev, p) = file_event ext (hts h) actor f (FRename result) p;
               (i, p) = push_with ev waits expands p
           in hold_op (hts h) (fp_irp x) (HeldRename i fo new_nt) p))"

section \<open>Operation ends\<close>

text \<open>Takes the held operation at a position out, leaving its place; \<open>None\<close> is the overflow of
  \<open>at - base\<close> (shown not to happen).\<close>

definition take_held :: "u64 \<Rightarrow> files \<Rightarrow> (held_op option \<times> files) option" where
  "take_held irp f =
     (let at = map_of (fl_held_by_irp f) irp; f = f\<lparr>fl_held_by_irp := AList.delete irp (fl_held_by_irp f)\<rparr>
      in case at of
           None \<Rightarrow> Some (None, f)
         | Some at \<Rightarrow>
             if at < fl_held_base f then None
             else
               (let i = at - fl_held_base f
                in if i < length (fl_held f) then
                     (case fl_held f ! i of (ts, hirp, ho) \<Rightarrow>
                        Some (ho, f\<lparr>fl_held := (fl_held f)[i := (ts, hirp, None)]\<rparr>))
                   else Some (None, f)))"

definition op_succeeded :: "('l, 'g) outside \<Rightarrow> header \<Rightarrow> file_op_end_ev \<Rightarrow> ('l, 'g) pipeline \<Rightarrow> ('l, 'g) pipeline" where
  "op_succeeded ext h op p =
     (let f = pl_files p; irp = fo_irp op; info = fo_extra_information op;
          (found, cs) = recent_map_remove irp (fl_cleanups f);
          p = on_files (\<lambda>f. f\<lparr>fl_request_irps := snd (recent_map_remove irp (fl_request_irps f)), fl_cleanups := cs\<rparr>) p in
      case found of
        Some (_, fo, k) \<Rightarrow> on_cleanup_outcome ext h fo k info p
      | None \<Rightarrow>
          if removed info \<or> info = FILE_UNKNOWN
          then on_files (\<lambda>f. f\<lparr>fl_early_outcomes := recent_map_insert irp (hts h) (h, info) (fl_early_outcomes f)\<rparr>) p
          else p)"

definition forget_request :: "u64 \<Rightarrow> files \<Rightarrow> files" where
  "forget_request irp f =
     (let (found, m) = recent_map_remove irp (fl_request_irps f); f = f\<lparr>fl_request_irps := m\<rparr> in
      case found of
        None \<Rightarrow> f
      | Some (_, k) \<Rightarrow> f\<lparr>fl_requests := snd (recent_map_remove k (fl_requests f))\<rparr>)"

definition forget_cleanup :: "u64 \<Rightarrow> files \<Rightarrow> files" where
  "forget_cleanup irp f = f\<lparr>fl_cleanups := snd (recent_map_remove irp (fl_cleanups f)),
     fl_early_outcomes := snd (recent_map_remove irp (fl_early_outcomes f))\<rparr>"

definition op_failed :: "header \<Rightarrow> file_op_end_ev \<Rightarrow> ('l, 'g) pipeline \<Rightarrow> ('l, 'g) pipeline option" where
  "op_failed h op p =
     (let irp = fo_irp op; p = on_files (\<lambda>f. forget_request irp (forget_cleanup irp f)) p in
      Option.bind (take_held irp (pl_files p)) (\<lambda>(ho, f).
        let p = p\<lparr>pl_files := f\<rparr> in
        Some (case ho of
          Some ho \<Rightarrow> fail_op ho p
        | None \<Rightarrow>
            if recent_get irp (fl_confirmed f) \<noteq> None
            then count (\<lambda>n. n\<lparr>n_file_op_late_failure := n_file_op_late_failure n + 1\<rparr>) p
            else on_files (\<lambda>f. f\<lparr>fl_failed := recent_insert irp (hts h) (fl_failed f)\<rparr>) p)))"

definition on_file_op_end :: "('l, 'g) outside \<Rightarrow> header \<Rightarrow> file_op_end_ev \<Rightarrow> ('l, 'g) pipeline \<Rightarrow> ('l, 'g) pipeline option" where
  "on_file_op_end ext h op p =
     (if \<not> fo_failed op then Some (op_succeeded ext h op p) else op_failed h op p)"

definition file_next_op :: "u64 \<Rightarrow> files \<Rightarrow> files" where
  "file_next_op irp f =
     (let f = forget_cleanup irp f
      in f\<lparr>fl_request_irps := snd (recent_map_remove irp (fl_request_irps f))\<rparr>)"

section \<open>Cleanup and Close\<close>

definition cleanup_action :: "('l, 'g) outside \<Rightarrow> header \<Rightarrow> u64 \<Rightarrow> process_ref option \<Rightarrow> file_action \<Rightarrow> ('l, 'g) pipeline
    \<Rightarrow> ('l, 'g) pipeline" where
  "cleanup_action ext h fo opener act p =
     (case opener of
        Some actor \<Rightarrow> file_action_on ext (hts h) fo actor act FillOpened True p
      | None \<Rightarrow>
          if Option.bind (map_of (fl_map (pl_files p)) fo) fe_nt \<noteq> None then unknown_file p
          else file_action_on ext (hts h) fo (bare_to ext p 0 0) act FillOpened True p)"

definition cleanup_handle :: "('l, 'g) outside \<Rightarrow> header \<Rightarrow> file_handle_ev \<Rightarrow> ('l, 'g) pipeline \<Rightarrow> ('l, 'g) pipeline" where
  "cleanup_handle ext h x p =
     (let op_end = op_end_on p; fo = fh_file_object x; (e, p) = touch_file fo p in
      case e of
        None \<Rightarrow> p
      | Some e \<Rightarrow>
          (let changes = fe_written e \<and> fe_cleaned e = None;
               deletes = fe_delete_on_close e \<and> \<not> op_end;
               asked = (if op_end \<and> fe_delete_on_close e then fe_opener e else None);
               p = on_files (files_mut fo (\<lambda>e. e\<lparr>fe_cleaned :=
                     (case fe_cleaned e of None \<Rightarrow> Some (hts h) | Some t \<Rightarrow> Some t)\<rparr>)) p;
               p = (case asked of
                   None \<Rightarrow> p
                 | Some a \<Rightarrow> on_files (\<lambda>f. f\<lparr>fl_requests :=
                     recent_map_insert (fh_file_key x) (hts h) (AskedOpener a) (fl_requests f)\<rparr>) p);
               acts = (if changes then [FUpdate] else []) @ (if deletes then [FDelete] else [])
           in fold (cleanup_action ext h fo (fe_opener e)) acts p))"

definition take_early_outcome :: "u64 \<Rightarrow> header \<Rightarrow> files \<Rightarrow> (header \<times> u64) option \<times> files" where
  "take_early_outcome irp h f =
     (let (found, m) = recent_map_remove irp (fl_early_outcomes f)
      in (case found of Some (_, oh, info) \<Rightarrow> if hts oh \<ge> hts h then Some (oh, info) else None | None \<Rightarrow> None,
          f\<lparr>fl_early_outcomes := m\<rparr>))"

definition cleanup_retires :: "u64 \<Rightarrow> int \<Rightarrow> bool \<Rightarrow> files \<Rightarrow> files" where
  "cleanup_retires fo ts op_end f =
     (if is_some_and (map_of (fl_map f) fo) (\<lambda>e. fe_cleaned e = Some ts) then
        (if op_end then retire_later fo ts f
         else (let (gone, f) = files_retire fo ts f in if gone then f else retire_later fo ts f))
      else f)"

definition on_file_cleanup :: "('l, 'g) outside \<Rightarrow> header \<Rightarrow> file_handle_ev \<Rightarrow> ('l, 'g) pipeline \<Rightarrow> ('l, 'g) pipeline" where
  "on_file_cleanup ext h x p =
     (let op_end = op_end_on p; fo = fh_file_object x; irp = fh_irp x;
          (early, f) = take_early_outcome irp h (pl_files p);
          f = file_next_op irp f;
          f = (if op_end \<and> early = None
               then f\<lparr>fl_cleanups := recent_map_insert irp (hts h) (fo, fh_file_key x) (fl_cleanups f)\<rparr> else f);
          p = cleanup_handle ext h x (p\<lparr>pl_files := f\<rparr>);
          p = (case early of
              None \<Rightarrow> p
            | Some (oh, info) \<Rightarrow> on_cleanup_outcome ext oh fo (fh_file_key x) info p)
      in on_files (cleanup_retires fo (hts h) op_end) p)"

definition on_file_close :: "header \<Rightarrow> file_handle_ev \<Rightarrow> ('l, 'g) pipeline \<Rightarrow> ('l, 'g) pipeline" where
  "on_file_close h x p =
     on_seeding (changed FileHandle (fh_file_object x) (hts h))
       (on_files (\<lambda>f. f\<lparr>fl_map := AList.delete (fh_file_object x) (fl_map f),
          fl_cleaned := snd (recent_remove (fh_file_object x) (fl_cleaned f))\<rparr>) p)"

section \<open>Stream time passes\<close>

definition pop_held :: "files \<Rightarrow> files" where
  "pop_held f = (case fl_held f of
     [] \<Rightarrow> f
   | (ts, irp, ho) # rest \<Rightarrow>
       (let at = fl_held_base f; f = f\<lparr>fl_held := rest, fl_held_base := at + 1\<rparr>
        in if map_of (fl_held_by_irp f) irp = Some at
           then f\<lparr>fl_held_by_irp := AList.delete irp (fl_held_by_irp f)\<rparr> else f))"

definition stand :: "int \<Rightarrow> u64 \<Rightarrow> held_op option \<Rightarrow> ('l, 'g) pipeline \<Rightarrow> ('l, 'g) pipeline" where
  "stand ts irp ho p = (case ho of
     None \<Rightarrow> p
   | Some ho \<Rightarrow>
       on_files (\<lambda>f. f\<lparr>fl_confirmed := recent_insert irp ts (fl_confirmed f)\<rparr>) (confirm_op ho p))"

lemma held_confirm [simp]:
  "fl_held (pl_files (stand ts irp ho p)) = fl_held (pl_files p)"
  by (auto simp: stand_def confirm_op_def resolve_confirm_def complete_def on_files_def files_mut_def
    split: option.split held_op.split)

function confirm_held :: "int \<Rightarrow> ('l, 'g) pipeline \<Rightarrow> ('l, 'g) pipeline" where
  "confirm_held stream p = (case fl_held (pl_files p) of
     [] \<Rightarrow> p
   | (ts, irp, ho) # rest \<Rightarrow>
       if sat_add ts (fl_window (pl_files p)) > stream then p
       else confirm_held stream (stand ts irp ho (on_files pop_held p)))"
  by pat_completeness auto
termination
  by (relation "measure (\<lambda>(_, p). length (fl_held (pl_files p)))")
    (auto simp: on_files_def pop_held_def Let_def)

declare confirm_held.simps [simp del]

text \<open>At most one look at each entry that was there at the start.\<close>

fun retire_due :: "nat \<Rightarrow> int \<Rightarrow> files \<Rightarrow> files" where
  "retire_due 0 stream f = f"
| "retire_due (Suc n) stream f = (case fl_retiring f of
     [] \<Rightarrow> f
   | (due, at, fo) # rest \<Rightarrow>
       if due \<ge> stream then f
       else
         (let (gone, f) = files_retire fo at (f\<lparr>fl_retiring := rest\<rparr>);
              f = (if gone then f
                   else f\<lparr>fl_retiring := fl_retiring f @ [(sat_add stream (fl_outcome f), at, fo)]\<rparr>)
          in retire_due n stream f))"

text \<open>\<open>saturating_mul(40)\<close>.\<close>

definition forty :: "int \<Rightarrow> int" where "forty w = clamp_i64 (w * 40)"

definition files_expire :: "ticks \<Rightarrow> agent_config \<Rightarrow> int \<Rightarrow> files \<Rightarrow> files" where
  "files_expire t cfg stream f =
     (let w = fl_window f; old = sat_sub stream (forty w)
      in f\<lparr>fl_cleaned := recent_expire (sat_sub stream (ticks_of t CLEANED_KEEP)) (fl_cleaned f),
           fl_failed := recent_expire (sat_sub stream w) (fl_failed f),
           fl_cleanups := recent_map_expire (sat_sub stream (fl_outcome f)) (fl_cleanups f),
           fl_request_irps := recent_map_expire old (fl_request_irps f),
           fl_early_outcomes := recent_map_expire old (fl_early_outcomes f),
           fl_confirmed := recent_expire old (fl_confirmed f),
           fl_opened := recent_expire (sat_sub stream (ticks_of t (watchlist_coalesce cfg))) (fl_opened f)\<rparr>)"

definition file_confirm :: "int \<Rightarrow> ('l, 'g) pipeline \<Rightarrow> ('l, 'g) pipeline" where
  "file_confirm stream p =
     (let p = confirm_held stream p
      in on_files (\<lambda>f. files_expire (pl_ticks p) (pl_cfg p) stream
           (retire_due (length (fl_retiring f)) stream f)) p)"

section \<open>Filling an event\<close>

definition fill_file_event :: "fill \<Rightarrow> file_obj \<Rightarrow> process_ref option \<Rightarrow> schema_event \<Rightarrow> schema_event" where
  "fill_file_event fl f actor e = (case event_kind e of
     FileEvent x \<Rightarrow>
       (let x = x\<lparr>file_file := f\<rparr>;
            x = (case (fl, actor) of (FillOpened, Some a) \<Rightarrow> x\<lparr>file_actor := a\<rparr> | _ \<Rightarrow> x)
        in e\<lparr>event_kind := FileEvent x\<rparr>)
   | _ \<Rightarrow> e)"

end
