(* ===== verification/Pl_Seed.thy ===== *)
theory Pl_Seed
  imports Pl_Registry Pl_Files
begin

text \<open>
  Seeding from the handle table (\<open>crates/atlas-agent/src/pipeline/seed.rs\<close>): a snapshot is applied once
  stream time reaches the time it was taken; it names keys and files, answers the events that wait for
  them, and remembers what cannot be named.
\<close>

section \<open>Files\<close>

text \<open>One event waiting for the file now named.\<close>

definition answer_file_waiter :: "int option \<Rightarrow> int \<Rightarrow> rstr \<Rightarrow> file_obj \<Rightarrow> process_ref option
    \<Rightarrow> pending_id \<times> int \<times> fill \<Rightarrow> ('l, 'g) pipeline \<Rightarrow> ('l, 'g) pipeline" where
  "answer_file_waiter change taken nt f opener = (\<lambda>(i, ts, fl) p.
     if \<not> is_waiting i Seeder (pl_completion p) then p
     else if is_some_and change (\<lambda>c. c > min ts taken) \<or> (fl = FillOpened \<and> opener = None) then p
     else
       (let forget = (case map_of (cpending (pl_completion p)) i of
              Some en \<Rightarrow> (case event_kind (eevent en) of FileEvent x \<Rightarrow> forgets_cached (file_act x) | _ \<Rightarrow> True)
            | None \<Rightarrow> True);
            p = complete (\<lambda>c. resolve i Seeder (snd (update i (fill_file_event fl f opener) c))) p
        in if forget then push_request (ReqInvalidateHash nt) p else p))"

text \<open>Takes the events that wait for a handle.\<close>

definition take_waiting :: "u64 \<Rightarrow> ('l, 'g) pipeline \<Rightarrow> (pending_id \<times> int \<times> fill) list \<times> ('l, 'g) pipeline" where
  "take_waiting address p =
     (case map_of (fl_map (pl_files p)) address of None \<Rightarrow> [] | Some e \<Rightarrow> fe_waiting e,
      on_files (files_mut address (\<lambda>e. e\<lparr>fe_waiting := []\<rparr>)) p)"

definition seed_file :: "('l, 'g) outside \<Rightarrow> u64 \<Rightarrow> u32 \<Rightarrow> rstr \<Rightarrow> int \<Rightarrow> ('l, 'g) pipeline \<Rightarrow> ('l, 'g) pipeline" where
  "seed_file ext address owner nt taken p =
     (let (found, p) = pl_lookup_at owner taken p;
          opener = map_option (ref_to ext p) found in
      case map_of (fl_map (pl_files p)) address of
        None \<Rightarrow> on_files (\<lambda>f. f\<lparr>fl_map := AList.update address (seeded_entry nt opener taken) (fl_map f)\<rparr>) p
      | Some e \<Rightarrow>
          if fe_since e > taken \<or> fe_nt e \<noteq> None then p
          else
            (let p = on_files (files_mut address (\<lambda>e. e\<lparr>fe_nt := Some nt, fe_opener := opener\<rparr>)) p;
                 (waiting, p) = take_waiting address p;
                 change = last_change FileHandle address (pl_seeding p);
                 (f, p) = pl_file_obj ext nt p
             in fold (answer_file_waiter change taken nt f opener) waiting p))"

definition unnamable_waiter :: "pending_id \<times> int \<times> fill \<Rightarrow> ('l, 'g) pipeline \<Rightarrow> ('l, 'g) pipeline" where
  "unnamable_waiter = (\<lambda>(i, _, _) p.
     if \<not> is_waiting i Seeder (pl_completion p) then p
     else unknown_file (complete (\<lambda>c. snd (cancel i c)) p))"

definition unnamable_file :: "u64 \<Rightarrow> ('l, 'g) pipeline \<Rightarrow> ('l, 'g) pipeline" where
  "unnamable_file address p =
     (let (waiting, p) = take_waiting address p in fold unnamable_waiter waiting p)"

section \<open>A snapshot\<close>

definition in_table :: "snapshot \<Rightarrow> u64 list" where
  "in_table s = remdups (map nh_address (sn_named s) @ map fst (sn_unnamable s))"

definition absent_from :: "snapshot \<Rightarrow> ('l, 'g) pipeline \<Rightarrow> u64 list" where
  "absent_from s p =
     (let missing = filter (\<lambda>a. a \<notin> set (in_table s)) in
      if sn_asked s = [] then
        (case sn_kind s of
           KeyHandle \<Rightarrow> missing (map fst (rg_waiting (pl_reg p)))
         | FileHandle \<Rightarrow> missing (map fst (filter (\<lambda>(_, e). fe_nt e = None) (fl_map (pl_files p)))))
      else remdups (missing (sn_asked s)))"

definition mark_unchanged :: "snapshot \<Rightarrow> u64 \<times> u32 \<Rightarrow> ('l, 'g) pipeline \<Rightarrow> ('l, 'g) pipeline" where
  "mark_unchanged s = (\<lambda>(address, owner) p.
     if is_none_or (last_change (sn_kind s) address (pl_seeding p)) (\<lambda>c. c \<le> sn_taken s)
     then on_seeding (mark_unnamable (sn_kind s) address owner) p else p)"

fun seed_keys :: "named_handle list \<Rightarrow> int \<Rightarrow> keymap \<Rightarrow> keymap option" where
  "seed_keys [] taken m = Some m"
| "seed_keys (n # ns) taken m =
     Option.bind (km_seed (nh_address n) (nh_name n) taken m) (\<lambda>(_, m). seed_keys ns taken m)"

definition answer_root :: "snapshot \<Rightarrow> u64 \<Rightarrow> ('l, 'g) pipeline \<Rightarrow> ('l, 'g) pipeline" where
  "answer_root s root p =
     answer_key_waiters root (sn_taken s)
       (root \<in> set (in_table s) \<and> \<not> is_unnamable (sn_kind s) root (pl_seeding p)) p"

definition snapshot_keys :: "snapshot \<Rightarrow> u64 list \<Rightarrow> ('l, 'g) pipeline \<Rightarrow> ('l, 'g) pipeline option" where
  "snapshot_keys s absent p =
     Option.bind (seed_keys (sn_named s) (sn_taken s) (pl_keys p)) (\<lambda>m.
       let roots = filter (\<lambda>r. r \<in> set (in_table s) \<or> r \<in> set absent) (map fst (rg_waiting (pl_reg p)))
       in Some (fold (answer_root s) roots (p\<lparr>pl_keys := m\<rparr>)))"

definition snapshot_files :: "('l, 'g) outside \<Rightarrow> snapshot \<Rightarrow> u64 list \<Rightarrow> ('l, 'g) pipeline \<Rightarrow> ('l, 'g) pipeline" where
  "snapshot_files ext s absent p =
     fold unnamable_file (map fst (sn_unnamable s) @ absent)
       (fold (\<lambda>n. seed_file ext (nh_address n) (nh_owner n) (nh_name n) (sn_taken s)) (sn_named s) p)"

definition startup_done :: "handle_kind \<Rightarrow> seeding \<Rightarrow> seeding" where
  "startup_done hk s =
     (let s = s\<lparr>sd_startup := removeAll hk (sd_startup s)\<rparr>
      in if \<not> history_needed s then s\<lparr>sd_changes := recent_new CHANGES_CAP\<rparr> else s)"

definition apply_snapshot :: "('l, 'g) outside \<Rightarrow> snapshot \<Rightarrow> ('l, 'g) pipeline \<Rightarrow> ('l, 'g) pipeline option" where
  "apply_snapshot ext s p =
     (let absent = absent_from s p;
          p = fold (mark_unchanged s) (sn_unnamable s) p;
          p = fold (mark_unchanged s) (map (\<lambda>a. (a, 0)) absent) p in
      Option.bind
        (case sn_kind s of
           KeyHandle \<Rightarrow> snapshot_keys s absent p
         | FileHandle \<Rightarrow> Some (snapshot_files ext s absent p))
        (\<lambda>p. Some
          (let p = (if sn_asked s = [] then on_seeding (startup_done (sn_kind s)) p else p)
           in on_seeding (\<lambda>sd. sd\<lparr>sd_latest := AList.update (sn_kind s) (in_table s) (sd_latest sd)\<rparr>) p)))"

fun apply_each :: "('l, 'g) outside \<Rightarrow> snapshot list \<Rightarrow> ('l, 'g) pipeline \<Rightarrow> ('l, 'g) pipeline option" where
  "apply_each ext [] p = Some p"
| "apply_each ext (s # ss) p = Option.bind (apply_snapshot ext s p) (apply_each ext ss)"

definition apply_snapshots :: "('l, 'g) outside \<Rightarrow> int \<Rightarrow> ('l, 'g) pipeline \<Rightarrow> ('l, 'g) pipeline option" where
  "apply_snapshots ext stream p =
     (let q = sd_queued (pl_seeding p);
          due = sort_key sn_taken (filter (\<lambda>s. sn_taken s \<le> stream) q);
          p = on_seeding (\<lambda>sd. sd\<lparr>sd_queued := filter (\<lambda>s. \<not> sn_taken s \<le> stream) q\<rparr>) p
      in apply_each ext due p)"

end
