(* ===== verification/Pl_Main.thy ===== *)
theory Pl_Main
  imports Pl_Network Pl_Process Pl_Seed
begin

text \<open>
  The pipeline as a whole (\<open>crates/atlas-agent/src/pipeline/mod.rs\<close>): an event is held, then processed
  when stream time reaches it; a tick releases what is due, applies what waits on stream time, and
  emits what the completion stage lets go, less the agent's own events.
\<close>

section \<open>Starting\<close>

record pipeline_setup =
  su_config :: agent_config
  su_ticks :: ticks
  su_anchor :: anchor
  su_identity :: identity
  su_control_set :: nat
  su_self_keys :: "u64 list"
  su_started :: int

definition seed_builtins :: "('l, 'g) pipeline \<Rightarrow> ('l, 'g) pipeline" where
  "seed_builtins p =
     pl_insert ((proc_info_new (start_key (kernel_boot_id (pl_id p)) 0) 0)\<lparr>pi_path := []\<rparr>) I64_MIN p"

text \<open>The state built from the settings.\<close>

definition pipeline_init :: "('l, 'g) outside \<Rightarrow> pipeline_setup \<Rightarrow> watchlist \<Rightarrow> 'l \<Rightarrow> 'g \<Rightarrow> ('l, 'g) pipeline" where
  "pipeline_init ext su w lookups ids =
     (let cfg = su_config su; t = ticks_of (su_ticks su)
      in \<lparr>pl_cfg = cfg, pl_ticks = su_ticks su, pl_clock = clock_new (su_ticks su) (su_anchor su),
          pl_id = su_identity su, pl_ccs = su_control_set su, pl_self_keys = remdups (su_self_keys su),
          pl_self_uids = remdups (map (identity_uid (blake3_of ext) (su_identity su)) (su_self_keys su)),
          pl_started = su_started su, pl_lookups = lookups, pl_ids = ids,
          pl_ordering = ordering_new (t (agent_config.hold cfg)), pl_completion = completion_new (pending_cap cfg),
          pl_procs = pc_new (t (process_retention cfg)) (process_cap cfg), pl_launches = launches_default,
          pl_files = files_new (file_map_cap cfg) (t (confirm_window cfg)) (t OUTCOME_WINDOW),
          pl_keys = km_new (key_map_cap cfg), pl_reg = registry_default,
          pl_net = network_new (flow_cap cfg) (t (udp_idle cfg)), pl_watch = w,
          pl_seeding = seeding_new (seed_on_miss cfg), pl_expands = expands_default, pl_requests = [],
          pl_counters = counters_default, pl_stream = I64_MIN, pl_now = su_started su,
          pl_next_sweep = I64_MIN\<rparr>)"

definition pipeline_start :: "('l, 'g) outside \<Rightarrow> pipeline_setup \<Rightarrow> watchlist \<Rightarrow> 'l \<Rightarrow> 'g \<Rightarrow> ('l, 'g) pipeline" where
  "pipeline_start ext su w lookups ids =
     (let p = seed_builtins (pipeline_init ext su w lookups ids)
      in if seed_on_start (su_config su) then
           (let (sd, rs) = seeding_start (pl_seeding p) (pl_requests p)
            in p\<lparr>pl_seeding := sd, pl_requests := rs\<rparr>)
         else p)"

definition pipeline_new :: "('l, 'g) outside \<Rightarrow> (rstr list option \<Rightarrow> rstr list \<Rightarrow> bad_pattern + watchlist)
    \<Rightarrow> pipeline_setup \<Rightarrow> 'l \<Rightarrow> 'g \<Rightarrow> bad_pattern + ('l, 'g) pipeline" where
  "pipeline_new ext new_watch su lookups ids =
     (let strs = map (map of_char) in
      case new_watch (map_option strs (agent_config.watchlist (su_config su))) (strs (watchlist_extend (su_config su))) of
        Inl b \<Rightarrow> Inl b
      | Inr w \<Rightarrow> Inr (pipeline_start ext su w lookups ids))"

section \<open>One event\<close>

definition dispatch :: "('l, 'g) outside \<Rightarrow> header \<Rightarrow> raw_event \<Rightarrow> ('l, 'g) pipeline \<Rightarrow> ('l, 'g) pipeline option" where
  "dispatch ext h e p =
     (case e of
        ProcessStart s \<Rightarrow> Some (on_process_start ext h s p)
      | ProcessStop s \<Rightarrow> Some (on_process_stop ext h s p)
      | ImageLoad i \<Rightarrow> Some (on_image_load ext h i p)
      | EvClassicProcess c \<Rightarrow> Some (on_classic ext h c p)
      | FileCreate c \<Rightarrow> Some (on_file_create ext h c p)
      | FileCreateNew c \<Rightarrow> Some (on_file_create_new ext h c p)
      | FileCleanup x \<Rightarrow> Some (on_file_cleanup ext h x p)
      | FileClose x \<Rightarrow> Some (on_file_close h x p)
      | FileWrite w \<Rightarrow> Some (on_file_write h (fw_file_object w) p)
      | FileSetInfo i \<Rightarrow> Some (on_file_set_info ext h i p)
      | FileSetDelete i \<Rightarrow> Some (on_file_set_delete h i p)
      | FileOpEnd op \<Rightarrow> on_file_op_end ext h op p
      | FileDeletePath x \<Rightarrow> Some (on_file_delete_path ext h x p)
      | FileRenamePath x \<Rightarrow> Some (on_file_rename_path ext h x p)
      | RegCreateKey op \<Rightarrow> on_reg_open ext h op True p
      | RegOpenKey op \<Rightarrow> on_reg_open ext h op False p
      | RegCloseKey k \<Rightarrow> on_reg_close h k p
      | RegDeleteKey k \<Rightarrow> Some (on_reg_delete_key ext h k p)
      | RegSetValue v \<Rightarrow> Some (on_reg_set_value ext h v p)
      | RegDeleteValue v \<Rightarrow> Some (on_reg_delete_value ext h v p)
      | TcpConnect n \<Rightarrow> Some (on_tcp ext h n TcpConnecting p)
      | TcpAccept n \<Rightarrow> Some (on_tcp ext h n TcpAccepting p)
      | TcpDisconnect n \<Rightarrow> Some (on_tcp ext h n TcpDisconnecting p)
      | UdpSend n \<Rightarrow> Some (on_udp ext h n True p)
      | UdpRecv n \<Rightarrow> Some (on_udp ext h n False p)
      | DnsQuery q \<Rightarrow> Some (on_dns ext h q p))"

definition process_event :: "('l, 'g) outside \<Rightarrow> raw_event incoming \<Rightarrow> ('l, 'g) pipeline \<Rightarrow> ('l, 'g) pipeline option" where
  "process_event ext inc p =
     dispatch ext (inc_header inc) (inc_event inc)
       (case op_irp (inc_event inc) of None \<Rightarrow> p | Some irp \<Rightarrow> on_files (file_next_op irp) p)"

definition pl_push :: "('l, 'g) outside \<Rightarrow> raw_event incoming \<Rightarrow> ('l, 'g) pipeline \<Rightarrow> ('l, 'g) pipeline option" where
  "pl_push ext inc p =
     (let late = count (\<lambda>n. n\<lparr>n_late_arrivals := n_late_arrivals n + 1\<rparr>) in
      if hts (inc_header inc) < pl_stream p then process_event ext inc (late p)
      else
        (case ordering_push (growth ext) inc (pl_ordering p) of
           (Late inc, q) \<Rightarrow> process_event ext inc (late (p\<lparr>pl_ordering := q\<rparr>))
         | (Held, q) \<Rightarrow> Some (p\<lparr>pl_ordering := q\<rparr>)))"

definition pl_reply :: "('l, 'g) outside \<Rightarrow> reply \<Rightarrow> ('l, 'g) pipeline \<Rightarrow> ('l, 'g) pipeline" where
  "pl_reply ext r p =
     (case r of
        RepEnriched i hs sig failed \<Rightarrow> on_enriched i hs sig failed p
      | RepValueRead i result \<Rightarrow> on_value_read i result p
      | RepEarlyRead e read result \<Rightarrow> p\<lparr>pl_reg := on_early_read e read result (pl_reg p)\<rparr>
      | RepExpanded i slot long \<Rightarrow> on_expanded ext i slot long p
      | RepSnapshot s \<Rightarrow> on_seeding (seeding_queue s) p)"

section \<open>Stream time\<close>

definition pl_step :: "('l, 'g) outside \<Rightarrow> int \<Rightarrow> ('l, 'g) pipeline \<Rightarrow> ('l, 'g) pipeline option" where
  "pl_step ext stream p =
     (if stream \<le> pl_stream p then Some p
      else
        Option.bind (apply_snapshots ext stream (p\<lparr>pl_stream := stream\<rparr>)) (\<lambda>p.
          Some (launch_expiry ext stream (file_confirm stream p))))"

definition pl_sweep :: "('l, 'g) outside \<Rightarrow> int \<Rightarrow> ('l, 'g) pipeline \<Rightarrow> ('l, 'g) pipeline" where
  "pl_sweep ext s p =
     (if s \<ge> pl_next_sweep p then
        (let p = net_expire ext s (p\<lparr>pl_next_sweep := sat_add s (frequency (pl_ticks p))\<rparr>)
         in p\<lparr>pl_procs := pc_expire s (pl_procs p)\<rparr>)
      else p)"

text \<open>What the end of a tick does at every stream time.\<close>

definition pl_settle :: "('l, 'g) pipeline \<Rightarrow> ('l, 'g) pipeline" where
  "pl_settle p =
     (let s = pl_stream p; t = ticks_of (pl_ticks p); cfg = pl_cfg p;
          (sd, rs) = flush_asks (pl_now p) (pl_ticks p) (pl_seeding p) (pl_requests p);
          p = p\<lparr>pl_seeding := sd, pl_requests := rs\<rparr>;
          p = p\<lparr>pl_reg := prune_early (sat_sub s (t (agent_config.hold cfg))) (pl_reg p)\<rparr>
      in on_seeding (seeding_expire (sat_sub s (clamp_i64 (t (seeder_startup_deadline cfg) * 4)))) p)"

definition pl_advance :: "('l, 'g) outside \<Rightarrow> int \<Rightarrow> ('l, 'g) pipeline \<Rightarrow> ('l, 'g) pipeline option" where
  "pl_advance ext stream p =
     Option.bind (pl_step ext stream p) (\<lambda>p. Some (pl_sweep ext (pl_stream p) (pl_settle p)))"

section \<open>Emission\<close>

definition actor_of :: "event_kind \<Rightarrow> uid16 option" where
  "actor_of k = (case k of
     ProcessEvent (Launch actor _) \<Rightarrow> Some (ref_uid actor)
   | ProcessEvent (Terminate pr _) \<Rightarrow> Some (ref_uid pr)
   | ModuleEvent a \<Rightarrow> Some (ref_uid (module_actor a))
   | NetworkEvent a \<Rightarrow> Some (ref_uid (net_actor a))
   | FileEvent a \<Rightarrow> Some (ref_uid (file_actor a))
   | RegistryKeyEvent a \<Rightarrow> Some (ref_uid (key_actor a))
   | RegistryValueEvent a \<Rightarrow> Some (ref_uid (value_actor a))
   | DnsEvent a \<Rightarrow> Some (ref_uid (dns_actor a))
   | EventLogEvent _ \<Rightarrow> None
   | SensorHealthEvent _ \<Rightarrow> None)"

definition is_self :: "('l, 'g) pipeline \<Rightarrow> schema_event \<Rightarrow> bool" where
  "is_self p e \<longleftrightarrow> is_some_and (actor_of (event_kind e)) (\<lambda>uid. uid \<in> set (pl_self_uids p))"

type_synonym 'l emit_state = "counters \<times> 'l \<times> proc_cache"

definition finish_reason :: "('l, 'g) outside \<Rightarrow> identity \<Rightarrow> expired \<Rightarrow> 'l emit_state \<times> schema_event
    \<Rightarrow> 'l emit_state \<times> schema_event" where
  "finish_reason ext ident x = (\<lambda>((c, l, procs), e).
     case xreason x of
       Enrich \<Rightarrow> ((c\<lparr>n_enrichment_misses := n_enrichment_misses c + 1\<rparr>, l, procs), e)
     | Join \<Rightarrow>
         (let (e, l, procs) = join_fallback ext ident e (l, procs)
          in ((c\<lparr>n_launch_join_miss := n_launch_join_miss c + 1\<rparr>, l, procs), e))
     | ValueRead \<Rightarrow> ((c\<lparr>n_value_read_failed := n_value_read_failed c + 1\<rparr>, l, procs), e)
     | Seeder \<Rightarrow>
         (case event_kind e of
            FileEvent _ \<Rightarrow>
              (if xdropped x then ((c\<lparr>n_unknown_file_object := n_unknown_file_object c + 1\<rparr>, l, procs), e)
               else ((c, l, procs), e))
          | k \<Rightarrow>
              (let c = c\<lparr>n_registry_unresolved := n_registry_unresolved c + 1\<rparr>; (no, k) = no_read k
               in ((if no then c\<lparr>n_value_read_failed := n_value_read_failed c + 1\<rparr> else c, l, procs),
                   e\<lparr>event_kind := k\<rparr>)))
     | Expand \<Rightarrow> ((c, l, procs), e)
     | Confirm \<Rightarrow> ((c, l, procs), e))"

definition finish_incomplete :: "('l, 'g) outside \<Rightarrow> identity \<Rightarrow> ('l emit_state, schema_event) callback" where
  "finish_incomplete ext ident s e xs = fold (finish_reason ext ident) xs (s, e)"

definition pl_forget :: "pending_id \<Rightarrow> ('l, 'g) pipeline \<Rightarrow> ('l, 'g) pipeline" where
  "pl_forget i p = p\<lparr>pl_launches := launches_forget i (pl_launches p), pl_expands := expands_forget i (pl_expands p),
     pl_reg := registry_forget i (pl_reg p), pl_files := files_forget i (pl_files p)\<rparr>"

definition filter_self :: "schema_event list \<Rightarrow> ('l, 'g) pipeline \<Rightarrow> schema_event list \<times> ('l, 'g) pipeline" where
  "filter_self es p =
     (filter (\<lambda>e. \<not> is_self p e) es,
      count (\<lambda>n. n\<lparr>n_self_filtered := n_self_filtered n + length (filter (is_self p) es)\<rparr>) p)"

text \<open>What the completion stage lets go, before the filter.\<close>

definition pl_drain :: "('l, 'g) outside \<Rightarrow> bool \<Rightarrow> ('l, 'g) pipeline \<Rightarrow> schema_event list \<times> ('l, 'g) pipeline" where
  "pl_drain ext everything p =
     (let cb = finish_incomplete ext (pl_id p); s = (pl_counters p, pl_lookups p, pl_procs p);
          (s, c, es) = (if everything then completion_flush cb s (pl_completion p)
                        else drain cb (pl_now p) s (pl_completion p));
          p = p\<lparr>pl_counters := fst s, pl_lookups := fst (snd s), pl_procs := snd (snd s)\<rparr>;
          (gone, c) = take_exited c
      in (es, fold pl_forget gone (p\<lparr>pl_completion := c\<rparr>)))"

definition pl_emit :: "('l, 'g) outside \<Rightarrow> bool \<Rightarrow> ('l, 'g) pipeline \<Rightarrow> schema_event list \<times> ('l, 'g) pipeline" where
  "pl_emit ext everything p = (let (es, p) = pl_drain ext everything p in filter_self es p)"

end
