(* ===== verification/Pl_Safe.thy ===== *)
theory Pl_Safe
  imports Pl_Main
begin

text \<open>
  What every handler keeps: the parts of the pipeline that only its loop changes, the invariant of the
  key map, and the index of the held operations, which makes the position subtracted in
  \<open>on_file_op_end\<close> one that is there. Each handler gets one lemma; the property of the loop is in Pl_Run.
\<close>

section \<open>What is kept\<close>

definition held_ok :: "files \<Rightarrow> bool" where
  "held_ok f \<longleftrightarrow> (\<forall>irp at. map_of (fl_held_by_irp f) irp = Some at \<longrightarrow>
     fl_held_base f \<le> at \<and> at < fl_held_base f + length (fl_held f) \<and>
     fst (snd (fl_held f ! (at - fl_held_base f))) = irp)"

definition pl_frame where
  "pl_frame p = (pl_ordering p, pl_cfg p, pl_ticks p, pl_clock p, pl_id p, pl_ccs p, pl_self_keys p,
     pl_self_uids p, pl_started p, pl_watch p, pl_stream p, pl_now p, pl_next_sweep p)"

definition keys_ok :: "keymap \<Rightarrow> bool" where
  "keys_ok m \<longleftrightarrow> km_inv m \<and> 1 \<le> km_cap m"

definition good where
  "good C p \<longleftrightarrow> pl_frame p = C \<and> keys_ok (pl_keys p) \<and> held_ok (pl_files p)"

lemma good_updates [simp]:
  "good C (p\<lparr>pl_lookups := a\<rparr>) = good C p" "good C (p\<lparr>pl_ids := b\<rparr>) = good C p"
  "good C (p\<lparr>pl_completion := c\<rparr>) = good C p" "good C (p\<lparr>pl_procs := d\<rparr>) = good C p"
  "good C (p\<lparr>pl_launches := e\<rparr>) = good C p" "good C (p\<lparr>pl_reg := f\<rparr>) = good C p"
  "good C (p\<lparr>pl_net := g\<rparr>) = good C p" "good C (p\<lparr>pl_seeding := h\<rparr>) = good C p"
  "good C (p\<lparr>pl_expands := i\<rparr>) = good C p" "good C (p\<lparr>pl_requests := j\<rparr>) = good C p"
  "good C (p\<lparr>pl_counters := k\<rparr>) = good C p"
  by (simp_all add: good_def pl_frame_def)

lemma good_functions [simp]:
  "good C (count f p) = good C p" "good C (push_request r p) = good C p" "good C (complete g p) = good C p"
  "good C (on_seeding s p) = good C p" "good C (drop_actor ec p) = good C p"
  "good C (pl_insert info start p) = good C p"
  by (simp_all add: count_def push_request_def complete_def on_seeding_def drop_actor_def pl_insert_def)

lemma good_files: "good C p \<Longrightarrow> (held_ok (pl_files p) \<Longrightarrow> held_ok f) \<Longrightarrow> good C (p\<lparr>pl_files := f\<rparr>)"
  by (simp add: good_def pl_frame_def)

lemma good_on_files: "good C p \<Longrightarrow> (\<And>f. held_ok f \<Longrightarrow> held_ok (g f)) \<Longrightarrow> good C (on_files g p)"
  by (simp add: good_def pl_frame_def on_files_def)

lemma good_keys: "good C p \<Longrightarrow> (keys_ok (pl_keys p) \<Longrightarrow> keys_ok m) \<Longrightarrow> good C (p\<lparr>pl_keys := m\<rparr>)"
  by (simp add: good_def pl_frame_def)

lemma good_parts: "good C p \<Longrightarrow> held_ok (pl_files p)" "good C p \<Longrightarrow> keys_ok (pl_keys p)"
  by (simp_all add: good_def)

lemma good_fold_keeps: "good C p \<Longrightarrow> (\<And>x p. good C p \<Longrightarrow> good C (f x p)) \<Longrightarrow> good C (fold f xs p)"
  by (induction xs arbitrary: p) auto

section \<open>Held operations\<close>

lemma held_ok_cong:
  "fl_held_by_irp f' = fl_held_by_irp f \<Longrightarrow> fl_held_base f' = fl_held_base f \<Longrightarrow> fl_held f' = fl_held f \<Longrightarrow>
   held_ok f' = held_ok f"
  by (simp add: held_ok_def)

lemma held_ok_updates [simp]:
  "held_ok (f\<lparr>fl_map := a\<rparr>) = held_ok f" "held_ok (f\<lparr>fl_clock := b\<rparr>) = held_ok f"
  "held_ok (f\<lparr>fl_evictions := c\<rparr>) = held_ok f" "held_ok (f\<lparr>fl_failed := d\<rparr>) = held_ok f"
  "held_ok (f\<lparr>fl_confirmed := e\<rparr>) = held_ok f" "held_ok (f\<lparr>fl_opened := g\<rparr>) = held_ok f"
  "held_ok (f\<lparr>fl_waiter_fo := h\<rparr>) = held_ok f" "held_ok (f\<lparr>fl_cleanups := i\<rparr>) = held_ok f"
  "held_ok (f\<lparr>fl_early_outcomes := j\<rparr>) = held_ok f" "held_ok (f\<lparr>fl_requests := k\<rparr>) = held_ok f"
  "held_ok (f\<lparr>fl_request_irps := l\<rparr>) = held_ok f" "held_ok (f\<lparr>fl_posix_deleted := m\<rparr>) = held_ok f"
  "held_ok (f\<lparr>fl_retiring := n\<rparr>) = held_ok f" "held_ok (f\<lparr>fl_cleaned := q\<rparr>) = held_ok f"
  by (simp_all add: held_ok_def)

lemma held_ok_fold: "(\<And>x f. held_ok (g x f) = held_ok f) \<Longrightarrow> held_ok (fold g xs f) = held_ok f"
  by (induction xs arbitrary: f) auto

lemma held_ok_functions [simp]:
  "held_ok (files_mut fo g f) = held_ok f" "held_ok (files_evict fo f) = held_ok f"
  "held_ok (files_insert fo e f) = held_ok f" "held_ok (snd (files_touch fo f)) = held_ok f"
  "held_ok (snd (files_retire fo at f)) = held_ok f" "held_ok (files_forget i f) = held_ok f"
  "held_ok (ask_delete hh k irp path f) = held_ok f" "held_ok (forget_opened co f) = held_ok f"
  "held_ok (retire_later fo at f) = held_ok f" "held_ok (forget_request irp f) = held_ok f"
  "held_ok (forget_cleanup irp f) = held_ok f" "held_ok (file_next_op irp f) = held_ok f"
  "held_ok (snd (take_early_outcome irp hh f)) = held_ok f" "held_ok (files_expire t cfg s f) = held_ok f"
proof -
  have e: "held_ok (files_evict fo f) = held_ok f" for fo f by (simp add: files_evict_def)
  then show "held_ok (files_evict fo f) = held_ok f" .
  show "held_ok (files_insert fo e f) = held_ok f"
    by (simp add: files_insert_def Let_def held_ok_fold e)
  show r: "held_ok (snd (files_retire fo at f)) = held_ok f"
    by (simp add: files_retire_def split: option.split)
  show "held_ok (file_next_op irp f) = held_ok f" by (simp add: file_next_op_def forget_cleanup_def Let_def)
qed (simp_all add: files_mut_def files_touch_def files_forget_def ask_delete_def forget_opened_def
    retire_later_def forget_request_def forget_cleanup_def take_early_outcome_def files_expire_def Let_def
    split: option.split prod.split)

lemma held_ok_retire: "files_retire fo at f = (gone, g) \<Longrightarrow> held_ok g = held_ok f"
  by (metis held_ok_functions(5) snd_conv)

lemma held_ok_retires [simp]:
  "held_ok (cleanup_retires fo ts b f) = held_ok f" "held_ok (retire_due n stream f) = held_ok f"
proof -
  show "held_ok (cleanup_retires fo ts b f) = held_ok f"
    by (auto simp: cleanup_retires_def held_ok_retire split: prod.split)
  show "held_ok (retire_due n stream f) = held_ok f"
  proof (induction n arbitrary: f)
    case (Suc n)
    then show ?case by (auto simp: held_ok_retire Let_def split: list.split prod.split)
  qed simp
qed

lemma held_ok_hold_back: "held_ok f \<Longrightarrow> held_ok (hold_back ts irp x f)"
  by (auto simp: held_ok_def hold_back_def Let_def update_conv' nth_append split: if_splits)
    (meson add_lessD1 less_imp_le_nat less_or_eq_imp_le trans_less_add1 | fastforce)+

lemma held_ok_pop: "held_ok f \<Longrightarrow> held_ok (pop_held f)"
proof -
  assume ok: "held_ok f"
  show ?thesis
  proof (cases "fl_held f")
    case (Cons x rest)
    obtain ts irp ho where x: "x = (ts, irp, ho)" by (rule prod_cases3)
    have *: "Suc (fl_held_base f) \<le> at \<and> at - fl_held_base f < length (x # rest) \<and> fst (snd (rest ! (at - Suc (fl_held_base f)))) = i"
      if "map_of (fl_held_by_irp f) i = Some at" "i = irp \<longrightarrow> at \<noteq> fl_held_base f" for i at
    proof -
      have a: "fl_held_base f \<le> at" "at < fl_held_base f + length (x # rest)" "fst (snd ((x # rest) ! (at - fl_held_base f))) = i"
        using ok that(1) Cons unfolding held_ok_def by (metis (no_types))+
      have "at \<noteq> fl_held_base f" using a(3) that(2) x by auto
      then obtain d where "at = Suc (fl_held_base f + d)" using a(1) by (metis add_Suc_right le_neq_implies_less less_imp_Suc_add)
      then show ?thesis using a by auto
    qed
    show ?thesis
    proof (cases "map_of (fl_held_by_irp f) irp = Some (fl_held_base f)")
      case True
      then show ?thesis using * by (fastforce simp: held_ok_def pop_held_def Cons x Let_def delete_conv')
    next
      case False
      then show ?thesis using * by (fastforce simp: held_ok_def pop_held_def Cons x Let_def)
    qed
  qed (use ok in \<open>simp add: pop_held_def\<close>)
qed

lemma take_held_ok:
  assumes "held_ok f"
  shows "\<exists>x g. take_held irp f = Some (x, g) \<and> held_ok g"
proof (cases "map_of (fl_held_by_irp f) irp")
  case None
  then show ?thesis using assms by (auto simp: take_held_def held_ok_def delete_conv' Let_def)
next
  case (Some at)
  let ?i = "at - fl_held_base f"
  have at: "fl_held_base f \<le> at" "?i < length (fl_held f)" "fst (snd (fl_held f ! ?i)) = irp"
    using assms Some by (fastforce simp: held_ok_def)+
  obtain ts hirp x where x: "fl_held f ! ?i = (ts, hirp, x)" by (rule prod_cases3)
  let ?g = "f\<lparr>fl_held_by_irp := AList.delete irp (fl_held_by_irp f), fl_held := (fl_held f)[?i := (ts, hirp, None)]\<rparr>"
  have "fst (snd ((fl_held f)[?i := (ts, hirp, None)] ! j)) = fst (snd (fl_held f ! j))" for j
    using at(2) x by (cases "j = ?i") auto
  then have "held_ok ?g" using assms by (auto simp: held_ok_def delete_conv')
  then show ?thesis using Some at(1,2) x by (auto simp: take_held_def Let_def)
qed

section \<open>The steps\<close>

text \<open>Almost every step leaves \<open>good\<close> as it was, both ways: an equation for the simplifier, which finds
  the pipeline before a step from the step's result.\<close>

lemma good_on_files_same [simp]: "(\<And>f. held_ok (g f) = held_ok f) \<Longrightarrow> good C (on_files g p) = good C p"
  by (simp add: good_def pl_frame_def on_files_def)

lemma good_files_same: "held_ok f = held_ok (pl_files p) \<Longrightarrow> good C (p\<lparr>pl_files := f\<rparr>) = good C p"
  by (simp add: good_def pl_frame_def)

lemma good_fold [simp]: "(\<And>x p. good C (f x p) = good C p) \<Longrightarrow> good C (fold f xs p) = good C p"
  by (induction xs arbitrary: p) auto

text \<open>The automation of this theory: every \<open>let\<close> and case split.\<close>

declare Let_def [simp] option.split [split] prod.split [split] if_split [split del] if_cong [cong]

lemma good_if [simp]: "good C (if b then s else q) = (if b then good C s else good C q)"
  by (cases b) simp_all

lemma pair_same [simp]:
  "pl_event ext ts k p = (ev, p') \<Longrightarrow> good C p' = good C p"
  "pl_dos ext nt p = (r, p') \<Longrightarrow> good C p' = good C p"
  "pl_live ext pid p = (l, p') \<Longrightarrow> good C p' = good C p"
  "pl_lookup_at pid ts p = (i, p') \<Longrightarrow> good C p' = good C p"
  by (auto simp: pl_event_def pl_dos_def pl_live_def pl_lookup_at_def split: if_splits option.splits prod.splits)

lemma file_obj_same [simp]: "pl_file_obj ext nt p = (f, p') \<Longrightarrow> good C p' = good C p"
  by (auto simp: pl_file_obj_def split: if_splits option.splits prod.splits)

lemma touch_held: "files_touch fo f = (e, g) \<Longrightarrow> held_ok g = held_ok f"
  by (metis held_ok_functions(4) snd_conv)

lemma touch_same [simp]: "touch_file fo p = (e, p') \<Longrightarrow> good C p' = good C p"
  by (auto simp: touch_file_def good_files_same touch_held split: if_splits option.splits prod.splits)

lemma actor_missed_same [simp]: "actor_missed ext h ec p = (r, p') \<Longrightarrow> good C p' = good C p"
  by (auto simp: actor_missed_def split: if_splits option.splits prod.splits)

lemma actor_same [simp]:
  "actor_sync ext h ec p = (r, p') \<Longrightarrow> good C p' = good C p"
  "actor_payload ext pid ts ec p = (r, p') \<Longrightarrow> good C p' = good C p"
  by (auto simp: actor_sync_def actor_payload_def split: if_splits option.splits prod.splits)

lemma actor_either [simp]:
  "(if b then actor_sync ext h ec p else actor_payload ext pid ts ec p) = (r, p') \<Longrightarrow> good C p' = good C p"
  by (cases b) (simp_all add: actor_same)

section \<open>Expansions\<close>

lemma ask_slot_same [simp]: "good C (ask_slot i x p) = good C p"
  by (simp add: ask_slot_def)

lemma push_with_same [simp]: "push_with ev ws xs p = (i, p') \<Longrightarrow> good C p' = good C p"
  by (auto simp: push_with_def split: if_splits option.splits prod.splits)

lemma snd_push_with [simp]: "good C (snd (push_with ev ws xs p)) = good C p"
  using push_with_same by (metis prod.collapse)

lemma emit_file_same [simp]: "emit_file ext nt fo p = (f, x, p') \<Longrightarrow> good C p' = good C p"
  by (auto simp: emit_file_def split: if_splits option.splits prod.splits)

lemma apply_long_same [simp]: "good C (apply_long ext i x asked l p) = good C p"
  by (simp add: apply_long_def)

lemma on_expanded_same [simp]: "good C (on_expanded ext i slot l p) = good C p"
  by (simp add: on_expanded_def)

section \<open>Processes\<close>

lemma set_halves [simp]: "good C (set_classic m p) = good C p" "good C (set_kernel k p) = good C p"
  "good C (miss_join p) = good C p"
  by (simp_all add: set_classic_def set_kernel_def miss_join_def)

lemma user_of_sid_same [simp]: "user_of_sid ext s p = (u, p') \<Longrightarrow> good C p' = good C p"
  by (auto simp: user_of_sid_def split: if_splits option.splits prod.splits)

lemma apply_classic_same [simp]: "apply_classic ext c info p = (i, p') \<Longrightarrow> good C p' = good C p"
  by (auto simp: apply_classic_def split: if_splits option.splits prod.splits)

lemma take_classic_same [simp]: "take_classic ext h pid info p = (j, i, p') \<Longrightarrow> good C p' = good C p"
  by (auto simp: take_classic_def split: if_splits option.splits prod.splits)

lemma push_launch_same [simp]: "good C (push_launch ext ts actor info nt joined half p) = good C p"
  by (simp add: push_launch_def split: bool.split)

lemma on_process_start_same [simp]: "good C (on_process_start ext h s p) = good C p"
  by (simp add: on_process_start_def)

lemma seed_rundown_same [simp]: "good C (seed_rundown ext c p) = good C p"
  by (simp add: seed_rundown_def)

lemma join_classic_same [simp]: "good C (join_classic ext c x p) = good C p"
  by (simp add: join_classic_def)

lemma on_classic_same [simp]: "good C (on_classic ext h c p) = good C p"
  by (simp add: on_classic_def split: classic_kind.split)

lemma gain_details_same [simp]: "good C (gain_details ext k known c p) = good C p"
  by (simp add: gain_details_def)

lemma launch_from_classic_same [simp]: "good C (launch_from_classic ext l x p) = good C p"
  by (simp add: launch_from_classic_def)

lemma expire_classic_same [simp]: "good C (expire_classic ext x p) = good C p"
  by (simp add: expire_classic_def)

lemma launch_expiry_same [simp]: "good C (launch_expiry ext stream p) = good C p"
  by (simp add: launch_expiry_def)

lemma on_process_stop_same [simp]: "good C (on_process_stop ext h s p) = good C p"
  by (simp add: on_process_stop_def)

lemma on_image_load_same [simp]: "good C (on_image_load ext h i p) = good C p"
  by (simp add: on_image_load_def)

lemma on_enriched_same [simp]: "good C (on_enriched i hs sig failed p) = good C p"
  by (simp add: on_enriched_def)

section \<open>Network\<close>

lemma close_flow_same [simp]: "good C (close_flow ext f p) = good C p"
  by (simp add: close_flow_def)

lemma net_expire_same [simp]: "good C (net_expire ext now p) = good C p"
  by (simp add: net_expire_def)

lemma put_flow_same [simp]: "good C (put_flow k f p) = good C p"
  by (simp add: put_flow_def)

lemma udp_make_room_same [simp]: "good C (udp_make_room ext p) = good C p"
  by (simp add: udp_make_room_def evict_flow_def)

lemma on_tcp_same [simp]: "good C (on_tcp ext h n what p) = good C p"
  by (simp add: on_tcp_def)

lemma on_udp_same [simp]: "good C (on_udp ext h n sending p) = good C p"
  by (simp add: on_udp_def)

lemma on_dns_same [simp]: "good C (on_dns ext h q p) = good C p"
  by (simp add: on_dns_def)

section \<open>Registry\<close>

lemma km_resolve_ok: "keys_ok m \<Longrightarrow> keys_ok (snd (km_resolve k m))"
  using km_resolve_inv [of m k] by (auto simp: keys_ok_def)

lemma resolve_key_keeps [simp]: "resolve_key k p = (r, p') \<Longrightarrow> good C p \<Longrightarrow> good C p'"
  using km_resolve_ok [of "pl_keys p" k] by (auto simp: resolve_key_def intro!: good_keys split: prod.splits)

lemma key_wait_same [simp]: "key_wait partial root p = (r, p') \<Longrightarrow> good C p' = good C p"
  by (auto simp: key_wait_def split: if_splits)

lemma key_path_for_keeps [simp]: "key_path_for k p = (r, p') \<Longrightarrow> good C p \<Longrightarrow> good C p'"
  by (auto simp: key_path_for_def split: prod.splits option.splits resolved.splits)

lemma counts_same [simp]: "good C (fail_read p) = good C p" "good C (unresolve p) = good C p"
  by (simp_all add: fail_read_def unresolve_def)

lemma apply_read_same [simp]: "good C (apply_read i x r p) = good C p"
  by (simp add: apply_read_def)

lemma start_read_same [simp]: "good C (start_read i nt name x early p) = good C p"
  by (simp add: start_read_def)

lemma on_value_read_same [simp]: "good C (on_value_read i r p) = good C p"
  by (simp add: on_value_read_def)

lemma push_registry_keeps [simp]: "good C p \<Longrightarrow> good C (push_registry ts k ev read p)"
  by (simp add: push_registry_def split: key_path_of.split)

lemma key_event_same [simp]:
  "key_event ext ts actor act p = (ev, p') \<Longrightarrow> good C p' = good C p"
  "value_event ext ts actor name vact p = (ev, p') \<Longrightarrow> good C p' = good C p"
  by (simp_all add: key_event_def value_event_def)

lemma push_key_event_keeps [simp]: "good C p \<Longrightarrow> good C (push_key_event ext h k act p)"
  by (simp add: push_key_event_def)

lemma on_reg_delete_key_keeps [simp]: "good C p \<Longrightarrow> good C (on_reg_delete_key ext h k p)"
  by (simp add: on_reg_delete_key_def)

lemma on_reg_set_value_keeps [simp]: "good C p \<Longrightarrow> good C (on_reg_set_value ext h v p)"
  by (simp add: on_reg_set_value_def)

lemma on_reg_delete_value_keeps [simp]: "good C p \<Longrightarrow> good C (on_reg_delete_value ext h v p)"
  by (simp add: on_reg_delete_value_def)

lemma update_no_read_same [simp]: "update_no_read i p = (b, p') \<Longrightarrow> good C p' = good C p"
  by (auto simp: update_no_read_def)

lemma full_name_keeps [simp]: "full_name b k p = (r, p') \<Longrightarrow> good C p \<Longrightarrow> good C p'"
  by (auto simp: full_name_def split: if_splits option.splits resolved.splits prod.splits)

lemma answer_key_waiter_keeps [simp]: "good C p \<Longrightarrow> good C (answer_key_waiter ch taken named w p)"
  by (simp add: answer_key_waiter_def)

lemma answer_key_waiters_keeps [simp]: "good C p \<Longrightarrow> good C (answer_key_waiters root taken named p)"
  by (simp add: answer_key_waiters_def good_fold_keeps)

text \<open>The two events that change the key map return, unless an open is relative to its own handle.\<close>

lemma on_reg_open_keeps:
  assumes "good C p" "\<not> km_self_based (ro_key_object op) (ro_base_object op) (units_to_string (ro_relative_name op))"
  shows "\<exists>p'. on_reg_open ext h op create p = Some p' \<and> good C p'"
proof -
  from assms obtain m where m: "km_open (ro_key_object op) (ro_base_object op) (units_to_string (ro_relative_name op)) (hts h) (pl_keys p) = Some m"
    "keys_ok m"
    using km_open_total [of "pl_keys p"] by (fastforce simp: good_def keys_ok_def)
  have "good C (p\<lparr>pl_keys := m\<rparr>)" by (rule good_keys [OF assms(1)]) (rule m(2))
  then show ?thesis using m(1) assms(1) by (auto simp: on_reg_open_def split: if_split)
qed

lemma on_reg_close_keeps:
  assumes "good C p"
  shows "\<exists>p'. on_reg_close h k p = Some p' \<and> good C p'"
proof -
  from assms obtain m where m: "km_close (rk_key_object k) (hts h) (pl_keys p) = Some m" "keys_ok m"
    using km_close_total [of "pl_keys p"] by (fastforce simp: good_def keys_ok_def)
  have "good C (p\<lparr>pl_keys := m\<rparr>)" by (rule good_keys [OF assms(1)]) (rule m(2))
  then show ?thesis using m(1) assms(1) by (auto simp: on_reg_close_def split: if_split)
qed

section \<open>Files\<close>

lemma file_event_same [simp]: "file_event ext ts actor f act p = (ev, p') \<Longrightarrow> good C p' = good C p"
  by (simp add: file_event_def)

lemma resolve_confirm_same [simp]: "good C (resolve_confirm i p) = good C p" "good C (cancel_held i p) = good C p"
  by (simp_all add: resolve_confirm_def cancel_held_def)

lemma ends_same [simp]: "good C (confirm_op x p) = good C p" "good C (fail_op x p) = good C p"
  by (simp_all add: confirm_op_def fail_op_def split: held_op.split)

lemma hold_op_keeps [simp]: "good C p \<Longrightarrow> good C (hold_op ts irp x p)"
  by (simp add: hold_op_def good_on_files held_ok_hold_back)

lemma watch_open_same [simp]: "watch_open ext ts actor nt fo p = (i, co, p') \<Longrightarrow> good C p' = good C p"
  by (auto simp: watch_open_def split: if_splits prod.splits)

lemma on_file_create_keeps [simp]: "good C p \<Longrightarrow> good C (on_file_create ext h c p)"
  by (simp add: on_file_create_def)

lemma on_file_create_new_same [simp]: "good C (on_file_create_new ext h c p) = good C p"
  by (simp add: on_file_create_new_def)

lemma file_counts_same [simp]: "good C (write_after_cleanup p) = good C p" "good C (unknown_file p) = good C p"
  "good C (ask_file fo p) = good C p"
  by (simp_all add: write_after_cleanup_def unknown_file_def ask_file_def)

lemma on_file_write_same [simp]: "good C (on_file_write h fo p) = good C p"
  by (simp add: on_file_write_def on_unknown_write_def)

lemma file_action_on_same [simp]: "good C (file_action_on ext ts fo actor act fl dr p) = good C p"
  by (simp add: file_action_on_def)

lemma on_file_set_info_same [simp]: "good C (on_file_set_info ext h i p) = good C p"
  by (simp add: on_file_set_info_def)

lemma emit_delete_same [simp]: "good C (emit_delete ext ts actor nt p) = good C p"
  by (simp add: emit_delete_def)

lemma on_file_delete_path_same [simp]: "good C (on_file_delete_path ext h x p) = good C p"
  by (simp add: on_file_delete_path_def)

lemma on_file_set_delete_same [simp]: "good C (on_file_set_delete h i p) = good C p"
  by (simp add: on_file_set_delete_def split: if_split)

lemma delete_actor_same [simp]: "delete_actor ext h r p = (a, path, p') \<Longrightarrow> good C p' = good C p"
  by (auto simp: delete_actor_def split: option.splits requester.splits prod.splits)

lemma report_delete_same [simp]: "good C (report_delete ext h fo r p) = good C p"
  by (simp add: report_delete_def)

lemma on_cleanup_outcome_same [simp]: "good C (on_cleanup_outcome ext h fo k info p) = good C p"
  by (simp add: on_cleanup_outcome_def)

lemma take_held_keeps:
  assumes "good C p"
  shows "\<exists>x g. take_held irp (pl_files p) = Some (x, g) \<and> good C (p\<lparr>pl_files := g\<rparr>)"
  using take_held_ok [OF good_parts(1) [OF assms], of irp] good_files [OF assms] by fastforce

lemma op_succeeded_same [simp]: "good C (op_succeeded ext h op p) = good C p"
  by (simp add: op_succeeded_def)

lemma on_file_op_end_keeps:
  assumes "good C p"
  shows "\<exists>p'. on_file_op_end ext h op p = Some p' \<and> good C p'"
proof (cases "fo_failed op")
  case True
  let ?q = "on_files (\<lambda>f. forget_request (fo_irp op) (forget_cleanup (fo_irp op) f)) p"
  have "good C ?q" using assms by simp
  then obtain x g where x: "take_held (fo_irp op) (pl_files ?q) = Some (x, g)" "good C (?q\<lparr>pl_files := g\<rparr>)"
    using take_held_keeps by blast
  then show ?thesis using True by (simp add: on_file_op_end_def op_failed_def)
qed (use assms in \<open>simp add: on_file_op_end_def\<close>)

lemma cleanup_action_same [simp]: "good C (cleanup_action ext h fo opener act p) = good C p"
  by (simp add: cleanup_action_def)

lemma cleanup_handle_same [simp]: "good C (cleanup_handle ext h x p) = good C p"
  by (simp add: cleanup_handle_def)

lemma early_held: "take_early_outcome irp h f = (e, g) \<Longrightarrow> held_ok g = held_ok f"
  by (metis held_ok_functions(13) snd_conv)

lemma on_file_cleanup_same [simp]: "good C (on_file_cleanup ext h x p) = good C p"
proof -
  obtain e g where e: "take_early_outcome (fh_irp x) h (pl_files p) = (e, g)" by fastforce
  show ?thesis by (simp add: on_file_cleanup_def e good_files_same early_held [OF e] split: if_split)
qed

lemma on_file_close_same [simp]: "good C (on_file_close h x p) = good C p"
  by (simp add: on_file_close_def)

lemma stand_same [simp]: "good C (stand ts irp x p) = good C p"
  by (simp add: stand_def)

lemma confirm_held_keeps [simp]: "good C p \<Longrightarrow> good C (confirm_held stream p)"
proof (induction stream p rule: confirm_held.induct)
  case (1 stream p)
  show ?case
  proof (cases "fl_held (pl_files p)")
    case (Cons x rest)
    obtain ts irp ho where x: "x = (ts, irp, ho)" by (rule prod_cases3)
    have "good C (stand ts irp ho (on_files pop_held p))" using 1(2) by (simp add: good_on_files held_ok_pop)
    then show ?thesis using 1 Cons x by (subst confirm_held.simps) (simp split: if_split)
  qed (use 1 in \<open>simp add: confirm_held.simps\<close>)
qed

lemma file_confirm_keeps [simp]: "good C p \<Longrightarrow> good C (file_confirm stream p)"
  by (simp add: file_confirm_def)

section \<open>Snapshots\<close>

lemma answer_file_waiter_same [simp]: "good C (answer_file_waiter ch taken nt f opener w p) = good C p"
  by (simp add: answer_file_waiter_def)

lemma take_waiting_same [simp]: "take_waiting a p = (ws, p') \<Longrightarrow> good C p' = good C p"
  by (auto simp: take_waiting_def)

lemma seed_file_same [simp]: "good C (seed_file ext a owner nt taken p) = good C p"
  by (simp add: seed_file_def)

lemma unnamable_file_same [simp]: "good C (unnamable_file a p) = good C p"
  by (simp add: unnamable_file_def unnamable_waiter_def)

lemma mark_unchanged_same [simp]: "good C (mark_unchanged s x p) = good C p"
  by (simp add: mark_unchanged_def)

lemma seed_keys_total: "keys_ok m \<Longrightarrow> \<exists>m'. seed_keys ns taken m = Some m' \<and> keys_ok m'"
proof (induction ns arbitrary: m)
  case (Cons n ns)
  obtain r m1 where "km_seed (nh_address n) (nh_name n) taken m = Some (r, m1)" "keys_ok m1"
    using Cons.prems km_seed_total [of m "nh_address n" "nh_name n" taken] by (fastforce simp: keys_ok_def)
  then show ?case using Cons.IH [of m1] by simp
qed simp

lemma apply_snapshot_keeps:
  assumes "good C p"
  shows "\<exists>p'. apply_snapshot ext s p = Some p' \<and> good C p'"
proof -
  let ?a = "absent_from s p"
  define q where "q = fold (mark_unchanged s) (map (\<lambda>a. (a, 0)) ?a) (fold (mark_unchanged s) (sn_unnamable s) p)"
  have q: "good C q" using assms by (simp add: q_def)
  obtain m where m: "seed_keys (sn_named s) (sn_taken s) (pl_keys q) = Some m" "keys_ok m"
    using seed_keys_total good_parts(2) [OF q] by blast
  have "good C (q\<lparr>pl_keys := m\<rparr>)" by (rule good_keys [OF q]) (rule m(2))
  then have "\<exists>p1. (case sn_kind s of KeyHandle \<Rightarrow> snapshot_keys s ?a q | FileHandle \<Rightarrow> Some (snapshot_files ext s ?a q)) = Some p1 \<and>
      good C p1"
    using q m(1) by (auto simp: snapshot_keys_def snapshot_files_def answer_root_def good_fold_keeps
      split: handle_kind.split)
  then obtain p1 where "(case sn_kind s of KeyHandle \<Rightarrow> snapshot_keys s ?a q | FileHandle \<Rightarrow>
      Some (snapshot_files ext s ?a q)) = Some p1" "good C p1" by blast
  then show ?thesis unfolding apply_snapshot_def Let_def q_def [symmetric] by (auto split: if_split)
qed

lemma apply_each_keeps: "good C p \<Longrightarrow> \<exists>p'. apply_each ext ss p = Some p' \<and> good C p'"
proof (induction ss arbitrary: p)
  case (Cons s ss)
  then obtain q where "apply_snapshot ext s p = Some q" "good C q" using apply_snapshot_keeps by blast
  then show ?case using Cons.IH by simp
qed simp

lemma apply_snapshots_keeps: "good C p \<Longrightarrow> \<exists>p'. apply_snapshots ext stream p = Some p' \<and> good C p'"
  by (simp add: apply_snapshots_def apply_each_keeps)

section \<open>Any event\<close>

text \<open>An open relative to the key's own handle, which the key map does not survive.\<close>

definition event_ok :: "raw_event \<Rightarrow> bool" where
  "event_ok e = (case e of
     RegCreateKey op \<Rightarrow>
       \<not> km_self_based (ro_key_object op) (ro_base_object op) (units_to_string (ro_relative_name op))
   | RegOpenKey op \<Rightarrow>
       \<not> km_self_based (ro_key_object op) (ro_base_object op) (units_to_string (ro_relative_name op))
   | _ \<Rightarrow> True)"

lemma rename_source_same [simp]: "rename_source ext h fo e xs p = (f, ys, p') \<Longrightarrow> good C p' = good C p"
  by (auto simp: rename_source_def split: if_splits option.splits prod.splits)

lemma on_file_rename_path_keeps [simp]: "good C p \<Longrightarrow> good C (on_file_rename_path ext h x p)"
  by (simp add: on_file_rename_path_def)

lemma process_event_keeps:
  assumes "good C p" "event_ok (inc_event inc)"
  shows "\<exists>p'. process_event ext inc p = Some p' \<and> good C p'"
proof -
  define q where "q = (case op_irp (inc_event inc) of None \<Rightarrow> p | Some irp \<Rightarrow> on_files (file_next_op irp) p)"
  have q: "good C q" using assms(1) by (simp add: q_def)
  have "\<exists>p'. dispatch ext (inc_header inc) (inc_event inc) q = Some p' \<and> good C p'"
    using q assms(2) on_file_op_end_keeps [OF q] on_reg_close_keeps [OF q] on_reg_open_keeps [OF q]
    by (cases "inc_event inc") (simp_all add: dispatch_def event_ok_def)
  then show ?thesis by (simp add: process_event_def q_def)
qed

declare Let_def [simp del] option.split [split del] prod.split [split del] if_split [split] if_cong [cong del]

end
