(* ===== verification/Pl_Run.thy ===== *)
theory Pl_Run
  imports Pl_Safe
begin

text \<open>
  The calls the driver makes (\<open>crates/atlas-agent/src/pipeline/mod.rs\<close>): \<open>push\<close>, \<open>reply\<close>, \<open>tick\<close>, \<open>stop\<close>
  and the rest, and any sequence of them. The loop of a tick is a partial function, \<open>None\<close> where it
  would not return; shown: from the start, every call returns, whatever the calls before, and nothing
  the agent did itself is emitted.
\<close>

section \<open>The calls\<close>

definition release :: "int option \<Rightarrow> raw_event ordering \<Rightarrow> (raw_event incoming option \<times> raw_event ordering) option" where
  "release upto_now q = (case upto_now of None \<Rightarrow> next_held q | Some now \<Rightarrow> next_due now q)"

text \<open>Events up to \<open>now\<close>, or all of them.\<close>

partial_function (option) run_events :: "('l, 'g) outside \<Rightarrow> int option \<Rightarrow> ('l, 'g) pipeline \<Rightarrow> ('l, 'g) pipeline option" where
  "run_events ext lim p =
     (case release lim (pl_ordering p) of
        None \<Rightarrow> None
      | Some (None, q) \<Rightarrow> Some (p\<lparr>pl_ordering := q\<rparr>)
      | Some (Some inc, q) \<Rightarrow>
          Option.bind (pl_step ext (hts (inc_header inc)) (p\<lparr>pl_ordering := q\<rparr>)) (\<lambda>p.
          Option.bind (process_event ext inc p) (\<lambda>p. run_events ext lim p)))"

definition pl_tick :: "('l, 'g) outside \<Rightarrow> int \<Rightarrow> ('l, 'g) pipeline \<Rightarrow> (schema_event list \<times> ('l, 'g) pipeline) option" where
  "pl_tick ext now p =
     Option.bind (run_events ext (Some now) (p\<lparr>pl_now := now\<rparr>)) (\<lambda>p.
     Option.bind (pl_advance ext (watermark now (pl_ordering p)) p) (\<lambda>p. Some (pl_emit ext False p)))"

definition pl_stop :: "('l, 'g) outside \<Rightarrow> ('l, 'g) pipeline \<Rightarrow> (schema_event list \<times> ('l, 'g) pipeline) option" where
  "pl_stop ext p =
     Option.bind (run_events ext None p) (\<lambda>p.
     Option.bind (pl_advance ext I64_MAX p) (\<lambda>p. Some (pl_emit ext True (net_close_all ext p))))"

definition take_requests :: "('l, 'g) pipeline \<Rightarrow> request list \<times> ('l, 'g) pipeline" where
  "take_requests p = (pl_requests p, p\<lparr>pl_requests := []\<rparr>)"

definition counters_of :: "('l, 'g) pipeline \<Rightarrow> counters" where
  "counters_of p = (pl_counters p)\<lparr>n_process_cache_evictions := pc_evictions (pl_procs p),
     n_key_map_evictions := km_evictions (pl_keys p), n_file_map_evictions := fl_evictions (pl_files p),
     n_flow_table_evictions := nt_evictions (pl_net p), n_pending_overflow := coverflow (pl_completion p)\<rparr>"

datatype call = Push "raw_event incoming" | Answer reply | Tick int | Stop | TakeRequests
  | SetAnchor anchor | AddSelfKey u64

definition pl_call :: "('l, 'g) outside \<Rightarrow> call \<Rightarrow> ('l, 'g) pipeline \<Rightarrow> (schema_event list \<times> ('l, 'g) pipeline) option" where
  "pl_call ext c p =
     (case c of
        Push inc \<Rightarrow> map_option (Pair []) (pl_push ext inc p)
      | Answer r \<Rightarrow> Some ([], pl_reply ext r p)
      | Tick now \<Rightarrow> pl_tick ext now p
      | Stop \<Rightarrow> pl_stop ext p
      | TakeRequests \<Rightarrow> Some ([], snd (take_requests p))
      | SetAnchor a \<Rightarrow> Some ([], pl_set_anchor a p)
      | AddSelfKey k \<Rightarrow> Some ([], add_self_key ext k p))"

text \<open>What the theorems ask of a call: no open relative to its own handle, and a slot number left for
  the event (fewer than \<open>2 ^ 32\<close> slots in use).\<close>

definition call_ok :: "('l, 'g) pipeline \<Rightarrow> call \<Rightarrow> bool" where
  "call_ok p c = (case c of
     Push inc \<Rightarrow> event_ok (inc_event inc) \<and> length (oslots (pl_ordering p)) < 2 ^ 32
   | _ \<Rightarrow> True)"

text \<open>The states between calls.\<close>

inductive pl_reached :: "('l, 'g) outside \<Rightarrow> ('l, 'g) pipeline \<Rightarrow> bool" for ext where
  start: "1 \<le> key_map_cap (su_config su) \<Longrightarrow> pl_reached ext (pipeline_start ext su w lookups ids)"
| call: "pl_reached ext p \<Longrightarrow> call_ok p c \<Longrightarrow> pl_call ext c p = Some (es, p') \<Longrightarrow> pl_reached ext p'"

section \<open>The invariant between calls\<close>

definition queue_ok :: "raw_event ordering \<Rightarrow> bool" where
  "queue_ok q \<longleftrightarrow> ordering_inv q \<and> (\<forall>inc \<in> set (held_events q). event_ok (inc_event inc))"

definition self_ok where
  "self_ok ext p \<longleftrightarrow> set (pl_self_uids p) = identity_uid (blake3_of ext) (pl_id p) ` set (pl_self_keys p)"

definition pl_inv where
  "pl_inv ext p \<longleftrightarrow> queue_ok (pl_ordering p) \<and> keys_ok (pl_keys p) \<and> held_ok (pl_files p) \<and> self_ok ext p"

definition self_of where
  "self_of p = (pl_id p, pl_self_keys p, pl_self_uids p)"

text \<open>A step that is \<open>good\<close> from one state to another carries the invariant.\<close>

lemma good_self: "keys_ok (pl_keys p) \<Longrightarrow> held_ok (pl_files p) \<Longrightarrow> good (pl_frame p) p"
  by (simp add: good_def)

lemma good_frame:
  assumes "good (pl_frame p) p'"
  shows "pl_ordering p' = pl_ordering p" "self_of p' = self_of p" "keys_ok (pl_keys p')" "held_ok (pl_files p')"
  using assms by (simp_all add: good_def pl_frame_def self_of_def)

lemma pl_inv_good: "pl_inv ext p \<Longrightarrow> good (pl_frame p) p"
  by (simp add: pl_inv_def good_def)

lemma good_inv: "pl_inv ext p \<Longrightarrow> good (pl_frame p) p' \<Longrightarrow> pl_inv ext p' \<and> self_of p' = self_of p"
  using good_frame [of p p'] by (simp add: pl_inv_def self_ok_def self_of_def)

lemma pl_inv_set [simp]:
  "pl_inv ext (p\<lparr>pl_stream := s\<rparr>) = pl_inv ext p" "pl_inv ext (p\<lparr>pl_now := n\<rparr>) = pl_inv ext p"
  "pl_inv ext (p\<lparr>pl_next_sweep := x\<rparr>) = pl_inv ext p"
  "self_of (p\<lparr>pl_stream := s\<rparr>) = self_of p" "self_of (p\<lparr>pl_now := n\<rparr>) = self_of p"
  "self_of (p\<lparr>pl_next_sweep := x\<rparr>) = self_of p" "self_of (p\<lparr>pl_ordering := q\<rparr>) = self_of p"
  by (simp_all add: pl_inv_def self_ok_def self_of_def)

lemma pl_step_inv:
  assumes "pl_inv ext p"
  shows "\<exists>p'. pl_step ext s p = Some p' \<and> pl_inv ext p' \<and> self_of p' = self_of p \<and> pl_ordering p' = pl_ordering p"
proof (cases "s \<le> pl_stream p")
  case False
  let ?p = "p\<lparr>pl_stream := s\<rparr>"
  have inv: "pl_inv ext ?p" using assms by simp
  obtain q where q: "apply_snapshots ext s ?p = Some q" "good (pl_frame ?p) q"
    using apply_snapshots_keeps [OF pl_inv_good [OF inv]] by blast
  then have g: "good (pl_frame ?p) (launch_expiry ext s (file_confirm s q))" by simp
  have "self_of (launch_expiry ext s (file_confirm s q)) = self_of p"
    "pl_ordering (launch_expiry ext s (file_confirm s q)) = pl_ordering p"
    using good_frame [OF g] by simp_all
  then show ?thesis using good_inv [OF inv g] q False by (simp add: pl_step_def)
qed (use assms in \<open>simp add: pl_step_def\<close>)

lemma process_inv:
  assumes "pl_inv ext p" "event_ok (inc_event inc)"
  shows "\<exists>p'. process_event ext inc p = Some p' \<and> pl_inv ext p' \<and> self_of p' = self_of p \<and>
    pl_ordering p' = pl_ordering p"
proof -
  obtain p' where p': "process_event ext inc p = Some p'" "good (pl_frame p) p'"
    using process_event_keeps [OF pl_inv_good [OF assms(1)] assms(2)] by blast
  then show ?thesis using good_inv [OF assms(1) p'(2)] good_frame(1) [OF p'(2)] by simp
qed

lemma settle_good [simp]: "good C (pl_settle p) = good C p"
  by (simp add: pl_settle_def Let_def split: prod.split)

lemma sweep_inv: "pl_inv ext p \<Longrightarrow> pl_inv ext (pl_sweep ext s p) \<and> self_of (pl_sweep ext s p) = self_of p"
proof -
  assume inv: "pl_inv ext p"
  let ?q = "p\<lparr>pl_next_sweep := sat_add s (frequency (pl_ticks p))\<rparr>"
  have q: "pl_inv ext ?q" using inv by simp
  have "good (pl_frame ?q) (net_expire ext s ?q\<lparr>pl_procs := pc_expire s (pl_procs (net_expire ext s ?q))\<rparr>)"
    using pl_inv_good [OF q] by simp
  from good_inv [OF q this] show ?thesis using inv by (simp add: pl_sweep_def Let_def)
qed

lemma pl_advance_inv:
  assumes "pl_inv ext p"
  shows "\<exists>p'. pl_advance ext s p = Some p' \<and> pl_inv ext p' \<and> self_of p' = self_of p"
proof -
  obtain q where q: "pl_step ext s p = Some q" "pl_inv ext q" "self_of q = self_of p"
    using pl_step_inv [OF assms] by blast
  have "good (pl_frame q) (pl_settle q)" using pl_inv_good [OF q(2)] by simp
  from good_inv [OF q(2) this] sweep_inv show ?thesis using q by (fastforce simp: pl_advance_def)
qed

text \<open>The loop returns: each turn takes one event out of the ordering stage, and nothing puts one in.\<close>

lemma release_effect:
  assumes "queue_ok q"
  shows "\<exists>q'. release lim q = Some (None, q') \<and> queue_ok q' \<or>
    (\<exists>inc. release lim q = Some (Some inc, q') \<and> queue_ok q' \<and> event_ok (inc_event inc) \<and>
      length (held q') < length (held q))"
proof -
  define l where "l = (case lim of None \<Rightarrow> I64_MAX | Some now \<Rightarrow> sat_sub now (ohold q))"
  have r: "release lim q = next_until l q"
    by (simp add: release_def l_def next_held_def next_due_def split: option.split)
  show ?thesis
  proof (cases "held q")
    case Nil
    then show ?thesis using next_until_effect [of q l] assms by (auto simp: r queue_ok_def)
  next
    case (Cons k rest)
    obtain ts sq inc where k: "k = (ts, sq, inc)" by (rule prod_cases3)
    have e: "event_ok (inc_event inc)" "\<forall>x \<in> set rest. event_ok (inc_event (snd (snd x)))"
      using assms by (simp_all add: queue_ok_def held_events_def Cons k)
    show ?thesis
    proof (cases "ts \<le> l")
      case True
      then obtain q' where "next_until l q = Some (Some inc, q')" "held q' = rest" "ordering_inv q'"
        using next_until_effect [of q l] assms Cons k by (auto simp: queue_ok_def)
      then show ?thesis using e Cons by (auto simp: r queue_ok_def held_events_def)
    next
      case False
      then show ?thesis using next_until_effect [of q l] assms Cons k by (auto simp: r queue_ok_def)
    qed
  qed
qed

lemma pl_inv_ordering: "pl_inv ext p \<Longrightarrow> queue_ok q \<Longrightarrow> pl_inv ext (p\<lparr>pl_ordering := q\<rparr>)"
  by (simp add: pl_inv_def self_ok_def)

lemma run_events_inv:
  "pl_inv ext p \<Longrightarrow> \<exists>p'. run_events ext lim p = Some p' \<and> pl_inv ext p' \<and> self_of p' = self_of p"
proof (induction "length (held (pl_ordering p))" arbitrary: p rule: less_induct)
  case less
  have "queue_ok (pl_ordering p)" using less.prems by (simp add: pl_inv_def)
  from release_effect [OF this, of lim] consider
      q where "release lim (pl_ordering p) = Some (None, q)" "queue_ok q"
    | q inc where "release lim (pl_ordering p) = Some (Some inc, q)" "queue_ok q" "event_ok (inc_event inc)"
        "length (held q) < length (held (pl_ordering p))" by blast
  then show ?case
  proof cases
    case 1
    then show ?thesis using pl_inv_ordering [OF less.prems] by (simp add: run_events.simps)
  next
    case 2
    obtain p1 where p1: "pl_step ext (hts (inc_header inc)) (p\<lparr>pl_ordering := q\<rparr>) = Some p1" "pl_inv ext p1"
      "self_of p1 = self_of p" "pl_ordering p1 = q"
      using pl_step_inv [OF pl_inv_ordering [OF less.prems 2(2)]] by fastforce
    obtain p2 where p2: "process_event ext inc p1 = Some p2" "pl_inv ext p2" "self_of p2 = self_of p1"
      "pl_ordering p2 = q"
      using process_inv [OF p1(2) 2(3)] p1(4) by auto
    show ?thesis
      using less.hyps [of p2] p2 2(4) p1 by (simp add: run_events.simps [of ext lim p] 2(1))
  qed
qed

section \<open>Emission\<close>

lemma pl_forget_good [simp]: "good C (pl_forget i p) = good C p"
  by (simp add: pl_forget_def good_def pl_frame_def)

lemma pl_drain_good [simp]: "good C (snd (pl_drain ext b p)) = good C p"
  by (simp add: pl_drain_def take_exited_def Let_def split_beta)

lemma pl_emit_good [simp]: "good C (snd (pl_emit ext b p)) = good C p"
  by (simp add: pl_emit_def filter_self_def split_beta)

lemma self_uids_same: "pl_inv ext p \<Longrightarrow> self_of p' = self_of p \<Longrightarrow> is_self p' = is_self p"
  by (simp add: fun_eq_iff is_self_def self_of_def)

text \<open>What is emitted, and what is not: the drained events, those of the agent counted and left out.\<close>

lemma pl_emit_filtered:
  assumes "pl_inv ext p" "pl_emit ext b p = (es, p')"
  shows "pl_inv ext p' \<and> self_of p' = self_of p" (is ?keeps)
    and "es = filter (\<lambda>e. \<not> is_self p e) (fst (pl_drain ext b p)) \<and>
      p' = count (\<lambda>n. n\<lparr>n_self_filtered := n_self_filtered n + length (filter (is_self p) (fst (pl_drain ext b p)))\<rparr>)
        (snd (pl_drain ext b p))" (is ?filters)
proof -
  have g: "good (pl_frame p) (snd (pl_drain ext b p))" "good (pl_frame p) p'"
    using pl_inv_good [OF assms(1)] pl_emit_good [of "pl_frame p" ext b p] assms(2) by simp_all
  have "is_self (snd (pl_drain ext b p)) = is_self p"
    using self_uids_same [OF assms(1)] good_inv [OF assms(1) g(1)] by blast
  then show ?filters using assms(2) by (auto simp: pl_emit_def filter_self_def split_beta)
  show ?keeps using good_inv [OF assms(1) g(2)] .
qed


section \<open>The start\<close>

lemma seed_builtins_good [simp]: "good C (seed_builtins p) = good C p"
  by (simp add: seed_builtins_def)

lemma start_inv:
  assumes "1 \<le> key_map_cap (su_config su)"
  shows "pl_inv ext (pipeline_start ext su w lookups ids)"
proof -
  let ?p = "pipeline_init ext su w lookups ids"
  have inv: "pl_inv ext ?p"
    using assms km_inv_new [of "key_map_cap (su_config su)"] ordering_inv_new
    by (auto simp: pl_inv_def pipeline_init_def Let_def queue_ok_def held_events_def held_new keys_ok_def
      held_ok_def files_new_def self_ok_def km_new_def)
  have "good (pl_frame ?p) (pipeline_start ext su w lookups ids)"
    using pl_inv_good [OF inv] by (simp add: pipeline_start_def Let_def split_beta)
  from good_inv [OF inv this] show ?thesis by simp
qed

section \<open>Every call\<close>

lemma pl_push_inv:
  assumes inv: "pl_inv ext p" and ok: "call_ok p (Push inc)"
  shows "\<exists>p'. pl_push ext inc p = Some p' \<and> pl_inv ext p'"
proof -
  define late :: "('a, 'b) pipeline \<Rightarrow> ('a, 'b) pipeline" where
    "late = count (\<lambda>n. n\<lparr>n_late_arrivals := n_late_arrivals n + 1\<rparr>)"
  have e: "event_ok (inc_event inc)" using ok by (simp add: call_ok_def)
  have late: "pl_inv ext q \<Longrightarrow> \<exists>p'. process_event ext inc (late q) = Some p' \<and> pl_inv ext p'" for q
    using process_inv [of ext "late q" inc] e good_inv [of ext q "late q"] pl_inv_good [of ext q]
    by (auto simp: late_def)
  have q: "queue_ok (pl_ordering p)" using inv by (simp add: pl_inv_def)
  obtain r o' where o': "ordering_push (growth ext) inc (pl_ordering p) = (r, o')" by fastforce
  have f: "ordering_inv o'" "if hts (inc_header inc) < olast (pl_ordering p) then r = Late inc \<and> o' = pl_ordering p
     else r = Held \<and> held o' =
       takeWhile (\<lambda>y. fst y \<le> hts (inc_header inc)) (held (pl_ordering p)) @
         (hts (inc_header inc), oseq (pl_ordering p) + 1, inc) #
         dropWhile (\<lambda>y. fst y \<le> hts (inc_header inc)) (held (pl_ordering p))"
    using ordering_push_effect [OF _ _ o'] q ok by (simp_all add: queue_ok_def call_ok_def)
  have oq: "queue_ok o'"
    using f q e by (auto simp: queue_ok_def held_events_def split: if_splits dest: set_takeWhileD set_dropWhileD)
  then have "pl_inv ext (p\<lparr>pl_ordering := o'\<rparr>)" using pl_inv_ordering [OF inv] by blast
  then show ?thesis
    using late [OF inv] late f(2) by (auto simp: pl_push_def Let_def o' late_def split: if_splits)
qed

lemma pl_reply_good [simp]: "good C (pl_reply ext r p) = good C p"
  by (simp add: pl_reply_def split: reply.split)

text \<open>What the completion stage lets go in a call, and the state then: what \<open>emit\<close> filters.\<close>

definition let_go :: "('l, 'g) outside \<Rightarrow> call \<Rightarrow> ('l, 'g) pipeline \<Rightarrow> (schema_event list \<times> ('l, 'g) pipeline) option" where
  "let_go ext c p =
     (case c of
        Tick now \<Rightarrow> Option.bind (run_events ext (Some now) (p\<lparr>pl_now := now\<rparr>)) (\<lambda>p.
          Option.bind (pl_advance ext (watermark now (pl_ordering p)) p) (\<lambda>p. Some (pl_drain ext False p)))
      | Stop \<Rightarrow> Option.bind (run_events ext None p) (\<lambda>p.
          Option.bind (pl_advance ext I64_MAX p) (\<lambda>p. Some (pl_drain ext True (net_close_all ext p))))
      | _ \<Rightarrow> pl_call ext c p)"


lemma pl_call_inv:
  assumes inv: "pl_inv ext p" and ok: "call_ok p c"
  shows "\<exists>es p'. pl_call ext c p = Some (es, p') \<and> pl_inv ext p' \<and> (\<exists>ds q. let_go ext c p = Some (ds, q) \<and>
    es = filter (\<lambda>e. \<not> is_self p e) ds \<and>
    p' = count (\<lambda>n. n\<lparr>n_self_filtered := n_self_filtered n + length (filter (is_self p) ds)\<rparr>) q)"
proof (cases c)
  case (Push inc)
  then show ?thesis using pl_push_inv [OF inv, of inc] ok by (auto simp: pl_call_def let_go_def count_def)
next
  case (Answer r)
  then show ?thesis using good_inv [OF inv, of "pl_reply ext r p"] pl_inv_good [OF inv] by (simp add: pl_call_def let_go_def count_def)
next
  case (Tick now)
  obtain p1 where p1: "run_events ext (Some now) (p\<lparr>pl_now := now\<rparr>) = Some p1" "pl_inv ext p1" "self_of p1 = self_of p"
    using run_events_inv [of ext "p\<lparr>pl_now := now\<rparr>"] inv by auto
  obtain p2 where p2: "pl_advance ext (watermark now (pl_ordering p1)) p1 = Some p2" "pl_inv ext p2" "self_of p2 = self_of p"
    using pl_advance_inv [OF p1(2)] p1(3) by metis
  obtain es p3 where p3: "pl_emit ext False p2 = (es, p3)" by fastforce
  have s: "is_self p2 = is_self p" using self_uids_same [OF inv p2(3)] .
  show ?thesis
    using Tick p1(1) p2 p3 s pl_emit_filtered [OF p2(2) p3]
    by (cases "pl_drain ext False p2") (auto simp: pl_call_def pl_tick_def let_go_def)
next
  case Stop
  obtain p1 where p1: "run_events ext None p = Some p1" "pl_inv ext p1" "self_of p1 = self_of p"
    using run_events_inv [OF inv] by blast
  obtain p2 where p2: "pl_advance ext I64_MAX p1 = Some p2" "pl_inv ext p2" "self_of p2 = self_of p"
    using pl_advance_inv [OF p1(2)] p1(3) by metis
  have "good (pl_frame p2) (net_close_all ext p2)" using pl_inv_good [OF p2(2)] by (simp add: net_close_all_def)
  then have q: "pl_inv ext (net_close_all ext p2)" "self_of (net_close_all ext p2) = self_of p"
    using good_inv [OF p2(2)] p2(3) by metis+
  obtain es p3 where p3: "pl_emit ext True (net_close_all ext p2) = (es, p3)" by fastforce
  have s: "is_self (net_close_all ext p2) = is_self p" using self_uids_same [OF inv q(2)] .
  show ?thesis
    using Stop p1(1) p2(1) p3 s pl_emit_filtered [OF q(1) p3]
    by (cases "pl_drain ext True (net_close_all ext p2)") (auto simp: pl_call_def pl_stop_def let_go_def)
next
  case TakeRequests
  then show ?thesis using good_inv [OF inv, of "p\<lparr>pl_requests := []\<rparr>"] pl_inv_good [OF inv]
    by (simp add: pl_call_def let_go_def count_def take_requests_def)
next
  case (SetAnchor a)
  then show ?thesis using inv by (simp add: pl_call_def let_go_def count_def pl_set_anchor_def pl_inv_def self_ok_def)
next
  case (AddSelfKey k)
  then show ?thesis using inv by (simp add: pl_call_def let_go_def count_def add_self_key_def pl_inv_def self_ok_def)
qed

lemma reached_inv: "pl_reached ext p \<Longrightarrow> pl_inv ext p"
proof (induction rule: pl_reached.induct)
  case (call p c es p')
  then show ?case using pl_call_inv [of ext p c] by auto
qed (rule start_inv)


section \<open>What a caller relies on\<close>

definition demo_outside :: "(unit, nat) outside" where
  "demo_outside = \<lparr>dos_path = (\<lambda>l s. (None, l)), live_process_of = (\<lambda>l s. (None, l)),
     account_name = (\<lambda>l s. (None, l)), next_event_id = (\<lambda>n t. ([of_nat n], n + 1)), blake3_of = (\<lambda>b. rev b),
     lowercase = (\<lambda>s. s), growth = (\<lambda>n. 2 * n + 4)\<rparr>"

definition demo_setup :: pipeline_setup where
  "demo_setup = \<lparr>su_config = agent_config_default, su_ticks = \<lparr>frequency = 10000000\<rparr>,
     su_anchor = \<lparr>anchor_qpc = 0, anchor_ns = 0\<rparr>, su_identity = \<lparr>id_device = [1], id_boot = [2], kernel_boot_id = 0\<rparr>,
     su_control_set = 1, su_self_keys = [7], su_started = 0\<rparr>"

definition demo_delete :: "int \<Rightarrow> nat \<Rightarrow> raw_event incoming" where
  "demo_delete ts k = \<lparr>inc_header = \<lparr>hsession = Sensor, hpid = 100, htid = 1, hts = ts, hstart_key = Some k\<rparr>,
     inc_event = RegDeleteKey \<lparr>rk_key_object = 5, rk_status = 0, rk_key_name = []\<rparr>\<rparr>"

definition demo_pipeline :: "(unit, nat) pipeline" where
  "demo_pipeline = pipeline_start demo_outside demo_setup \<lparr>wl_set = (\<lambda>_. False), wl_must_contain = None\<rparr> () 0"

lemma demo_reached: "pl_reached demo_outside demo_pipeline"
  by (simp add: demo_pipeline_def pl_reached.start demo_setup_def agent_config_default_def)

lemma demo_slots: "oslots (pl_ordering demo_pipeline) = []"
  by (simp add: demo_pipeline_def pipeline_start_def pipeline_init_def seed_builtins_def pl_insert_def
    ordering_new_def Let_def split_beta)












text \<open>C39: no call wedges the pipeline. After any sequence of calls (events of every kind in any order,
  replies, ticks, stops, anchors), started from any configuration with room for a registry key, every
  next call returns: the loops over the held events and the walks along the key map's chains end. The
  events pushed are those no open of which is relative to its own handle, and fewer than \<open>2 ^ 32\<close> wait.\<close>

theorem pipeline_returns:
  assumes "pl_reached ext p" "call_ok p c"
  shows "\<exists>es p'. pl_call ext c p = Some (es, p') \<and> pl_reached ext p'"
  using pl_call_inv [OF reached_inv [OF assms(1)] assms(2)] pl_reached.call [OF assms] by blast

theorem pipeline_returns_witness:
  "\<exists>p. pl_call demo_outside (Push (demo_delete 10 9)) demo_pipeline = Some ([], p) \<and>
    (\<exists>es p'. pl_call demo_outside (Tick 100000000) p = Some (es, p'))"
proof -
  have "call_ok demo_pipeline (Push (demo_delete 10 9))"
    by (simp add: call_ok_def demo_slots demo_delete_def event_ok_def)
  from pipeline_returns [OF demo_reached this] obtain es p where
    p: "pl_call demo_outside (Push (demo_delete 10 9)) demo_pipeline = Some (es, p)" "pl_reached demo_outside p"
    by blast
  have "es = []" using p(1) by (simp add: pl_call_def)
  then show ?thesis
    using p pipeline_returns [OF p(2), of "Tick 100000000"] by (auto simp: call_ok_def)
qed



end
