(* ===== verification/Ew_Follows.thy ===== *)
theory Ew_Follows
  imports Ew_Parse
begin

text \<open>
  What the layout tables promise, and the proof that the hand-written parsers keep it.
  \<open>layout_split\<close> cuts a payload into the fields of a table, knowing only their in-types;
  \<open>event_of\<close> reads an event from the fields by their manifest names. Every parser equals the two
  composed (\<open>follows\<close>), which is proved field by field with the rules below.
\<close>

section \<open>Cutting a payload by its table\<close>

text \<open>The bytes of a null \<open>WbemSid\<close>, or of the \<open>TOKEN_USER\<close> header and the SID.\<close>

definition token_user_len :: "pointer_size \<Rightarrow> nat" where
  "token_user_len p = 2 * pointer_len p"

definition ext_wbem :: "pointer_size \<Rightarrow> bytes \<Rightarrow> (bytes \<times> bytes) option" where
  "ext_wbem p bs =
     (if length bs < 4 then None
      else if take 4 bs = [0, 0, 0, 0] then osplit 4 bs
      else case osplit (token_user_len p) bs of
        None \<Rightarrow> None
      | Some (header, bs) \<Rightarrow> map_option (\<lambda>(s, bs). (header @ s, bs)) (ext_sid bs))"

primrec fixed_len :: "pointer_size \<Rightarrow> in_type \<Rightarrow> nat option" where
  "fixed_len p UnicodeString = None"
| "fixed_len p AnsiString = None"
| "fixed_len p UInt16 = Some 2"
| "fixed_len p Int32 = Some 4"
| "fixed_len p UInt32 = Some 4"
| "fixed_len p UInt64 = Some 8"
| "fixed_len p Binary = None"
| "fixed_len p Pointer = Some (pointer_len p)"
| "fixed_len p FileTime = Some 8"
| "fixed_len p SidField = None"
| "fixed_len p HexInt32 = Some 4"
| "fixed_len p HexInt64 = Some 8"
| "fixed_len p WbemSid = None"

text \<open>A \<open>Binary\<close> field has the length a 16-bit field before it says, or else is an IPv6 address.\<close>

definition binary_len :: "(in_type \<times> bytes) option \<Rightarrow> nat" where
  "binary_len prev = (case prev of Some (UInt16, c) \<Rightarrow> unat (word_of_le c :: u16) | _ \<Rightarrow> 16)"

definition extent :: "pointer_size \<Rightarrow> (in_type \<times> bytes) option \<Rightarrow> in_type \<Rightarrow> bytes \<Rightarrow> (bytes \<times> bytes) option" where
  "extent p prev t = (case fixed_len p t of
     Some n \<Rightarrow> osplit n
   | None \<Rightarrow> case t of
       UnicodeString \<Rightarrow> ext_wstr
     | AnsiString \<Rightarrow> ext_astr
     | SidField \<Rightarrow> ext_sid
     | WbemSid \<Rightarrow> ext_wbem p
     | _ \<Rightarrow> osplit (binary_len prev))"

text \<open>
  A counted name ends at the last NUL unit after which the fields that follow it fill the payload;
  where there is none, at the first NUL. The flag: another NUL would do as well.
\<close>

definition ext_fitting :: "(bytes \<Rightarrow> bool) \<Rightarrow> bytes \<Rightarrow> ((bytes \<times> bool) \<times> bytes) option" where
  "ext_fitting fills bs =
     (case filter (\<lambda>i. nul_at bs i \<and> fills (drop (2 * i + 2) bs)) (rev [0 ..< length bs div 2]) of
       n # others \<Rightarrow> Some ((take (2 * n) bs, others \<noteq> []), drop (2 * n + 2) bs)
     | [] \<Rightarrow> omap (\<lambda>c. (c, False)) ext_wstr bs)"

type_synonym fields_env = "string \<Rightarrow> (bytes \<times> bool) option"

fun layout_split :: "pointer_size \<Rightarrow> string option \<Rightarrow> (in_type \<times> bytes) option \<Rightarrow> field list \<Rightarrow> fields_env \<Rightarrow>
    bytes \<Rightarrow> (fields_env \<times> bytes) option" where
  "layout_split p counted prev [] env bs = Some (env, bs)"
| "layout_split p counted prev ((n, t) # fs) env bs =
     (case (if counted = Some n
            then ext_fitting (\<lambda>bs. map_option snd (layout_split p None None fs Map.empty bs) = Some []) bs
            else omap (\<lambda>c. (c, False)) (extent p prev t) bs) of
        None \<Rightarrow> None
      | Some (c, bs) \<Rightarrow> layout_split p counted (Some (t, fst c)) fs (env(n \<mapsto> c)) bs)"

definition fills :: "pointer_size \<Rightarrow> field list \<Rightarrow> bytes \<Rightarrow> bool" where
  "fills p fs bs \<longleftrightarrow> map_option snd (layout_split p None None fs Map.empty bs) = Some []"

section \<open>Reading an event from its fields\<close>

definition content :: "fields_env \<Rightarrow> string \<Rightarrow> bytes" where
  "content env n = (case env n of Some (c, b) \<Rightarrow> c | None \<Rightarrow> [])"

definition content_ambiguous :: "fields_env \<Rightarrow> string \<Rightarrow> bool" where
  "content_ambiguous env n = (case env n of Some (c, b) \<Rightarrow> b | None \<Rightarrow> False)"

definition num_field :: "fields_env \<Rightarrow> string \<Rightarrow> 'a :: len word" where
  "num_field env n = word_of_le (content env n)"

definition str_field :: "fields_env \<Rightarrow> string \<Rightarrow> wstr" where
  "str_field env n = units_of (content env n)"

definition port_field :: "fields_env \<Rightarrow> string \<Rightarrow> u16" where
  "port_field env n = word_of_le (rev (content env n))"

definition wbem_field :: "pointer_size \<Rightarrow> fields_env \<Rightarrow> string \<Rightarrow> sid option" where
  "wbem_field p env n =
     (let c = content env n in if take 4 c = [0, 0, 0, 0] then None else Some (drop (token_user_len p) c))"

lemma content_simps [simp]:
  "content (env(n \<mapsto> c)) n = fst c"
  "m \<noteq> n \<Longrightarrow> content (env(m \<mapsto> c)) n = content env n"
  "content_ambiguous (env(n \<mapsto> c)) n = snd c"
  "m \<noteq> n \<Longrightarrow> content_ambiguous (env(m \<mapsto> c)) n = content_ambiguous env n"
  by (simp_all add: content_def content_ambiguous_def split_beta)

lemmas field_defs = num_field_def str_field_def port_field_def wbem_field_def Let_def

definition process_start_of :: "nat \<Rightarrow> fields_env \<Rightarrow> process_start_ev" where
  "process_start_of version env =
     \<lparr>ps_pid = num_field env ''ProcessID'',
       ps_sequence_number = num_field env ''ProcessSequenceNumber'',
       ps_create_time = num_field env ''CreateTime'',
       ps_parent_pid = num_field env ''ParentProcessID'',
       ps_parent_sequence_number = num_field env ''ParentProcessSequenceNumber'',
       ps_session_id = num_field env ''SessionID'',
       ps_flags = num_field env ''Flags'',
       ps_token_elevation_type = num_field env ''ProcessTokenElevationType'',
       ps_token_is_elevated = num_field env ''ProcessTokenIsElevated'',
       ps_mandatory_label = content env ''MandatoryLabel'',
       ps_image_name = str_field env ''ImageName'',
       ps_image_checksum = num_field env ''ImageChecksum'',
       ps_time_date_stamp = num_field env ''TimeDateStamp'',
       ps_package_full_name = str_field env ''PackageFullName'',
       ps_package_relative_app_id = str_field env ''PackageRelativeAppId'',
       ps_security_mitigations = (if version = 3 then None else Some (num_field env ''SecurityMitigations''))\<rparr>"

definition process_stop_of :: "fields_env \<Rightarrow> process_stop_ev" where
  "process_stop_of env =
     \<lparr>pst_pid = num_field env ''ProcessID'',
       pst_sequence_number = num_field env ''ProcessSequenceNumber'',
       pst_create_time = num_field env ''CreateTime'',
       pst_exit_time = num_field env ''ExitTime'',
       pst_exit_code = num_field env ''ExitCode'',
       pst_image_name = content env ''ImageName''\<rparr>"

definition image_load_of :: "fields_env \<Rightarrow> image_load_ev" where
  "image_load_of env =
     \<lparr>il_image_base = num_field env ''ImageBase'',
       il_image_size = num_field env ''ImageSize'',
       il_pid = num_field env ''ProcessID'',
       il_image_checksum = num_field env ''ImageCheckSum'',
       il_time_date_stamp = num_field env ''TimeDateStamp'',
       il_default_base = num_field env ''DefaultBase'',
       il_image_name = str_field env ''ImageName''\<rparr>"

definition file_create_of :: "fields_env \<Rightarrow> file_create_ev" where
  "file_create_of env =
     \<lparr>fc_irp = num_field env ''Irp'',
       fc_file_object = num_field env ''FileObject'',
       fc_issuing_tid = num_field env ''IssuingThreadId'',
       fc_create_options = num_field env ''CreateOptions'',
       fc_create_attributes = num_field env ''CreateAttributes'',
       fc_share_access = num_field env ''ShareAccess'',
       fc_file_name = str_field env ''FileName''\<rparr>"

definition file_handle_of :: "fields_env \<Rightarrow> file_handle_ev" where
  "file_handle_of env =
     \<lparr>fh_irp = num_field env ''Irp'',
       fh_file_object = num_field env ''FileObject'',
       fh_file_key = num_field env ''FileKey'',
       fh_issuing_tid = num_field env ''IssuingThreadId''\<rparr>"

definition file_write_of :: "fields_env \<Rightarrow> file_write_ev" where
  "file_write_of env =
     \<lparr>fw_byte_offset = num_field env ''ByteOffset'',
       fw_irp = num_field env ''Irp'',
       fw_file_object = num_field env ''FileObject'',
       fw_file_key = num_field env ''FileKey'',
       fw_issuing_tid = num_field env ''IssuingThreadId'',
       fw_io_size = num_field env ''IOSize'',
       fw_io_flags = num_field env ''IOFlags'',
       fw_extra_flags = num_field env ''ExtraFlags''\<rparr>"

definition file_set_info_of :: "fields_env \<Rightarrow> file_set_info_ev" where
  "file_set_info_of env =
     \<lparr>fs_irp = num_field env ''Irp'',
       fs_file_object = num_field env ''FileObject'',
       fs_file_key = num_field env ''FileKey'',
       fs_extra_information = num_field env ''ExtraInformation'',
       fs_issuing_tid = num_field env ''IssuingThreadId'',
       fs_info_class = num_field env ''InfoClass''\<rparr>"

definition file_op_end_of :: "fields_env \<Rightarrow> file_op_end_ev" where
  "file_op_end_of env =
     \<lparr>fo_irp = num_field env ''Irp'',
       fo_extra_information = num_field env ''ExtraInformation'',
       fo_status = num_field env ''Status''\<rparr>"

definition file_path_of :: "fields_env \<Rightarrow> file_path_ev" where
  "file_path_of env =
     \<lparr>fp_irp = num_field env ''Irp'',
       fp_file_object = num_field env ''FileObject'',
       fp_file_key = num_field env ''FileKey'',
       fp_extra_information = num_field env ''ExtraInformation'',
       fp_issuing_tid = num_field env ''IssuingThreadId'',
       fp_info_class = num_field env ''InfoClass'',
       fp_file_path = str_field env ''FilePath''\<rparr>"

definition reg_open_of :: "fields_env \<Rightarrow> reg_open_ev" where
  "reg_open_of env =
     \<lparr>ro_base_object = num_field env ''BaseObject'',
       ro_key_object = num_field env ''KeyObject'',
       ro_status = num_field env ''Status'',
       ro_disposition = num_field env ''Disposition'',
       ro_base_name = str_field env ''BaseName'',
       ro_relative_name = str_field env ''RelativeName''\<rparr>"

definition reg_key_of :: "fields_env \<Rightarrow> reg_key_ev" where
  "reg_key_of env =
     \<lparr>rk_key_object = num_field env ''KeyObject'',
       rk_status = num_field env ''Status'',
       rk_key_name = str_field env ''KeyName''\<rparr>"

definition reg_set_value_of :: "fields_env \<Rightarrow> reg_set_value_ev" where
  "reg_set_value_of env =
     \<lparr>rsv_key_object = num_field env ''KeyObject'',
       rsv_status = num_field env ''Status'',
       rsv_value_type = num_field env ''Type'',
       rsv_data_size = num_field env ''DataSize'',
       rsv_key_name = str_field env ''KeyName'',
       rsv_value_name = str_field env ''ValueName'',
       rsv_value_name_ambiguous = content_ambiguous env ''ValueName'',
       rsv_captured_data = content env ''CapturedData'',
       rsv_previous_data_type = num_field env ''PreviousDataType'',
       rsv_previous_data_size = num_field env ''PreviousDataSize'',
       rsv_previous_data = content env ''PreviousData''\<rparr>"

definition reg_delete_value_of :: "fields_env \<Rightarrow> reg_delete_value_ev" where
  "reg_delete_value_of env =
     \<lparr>rdv_key_object = num_field env ''KeyObject'',
       rdv_status = num_field env ''Status'',
       rdv_key_name = str_field env ''KeyName'',
       rdv_value_name = str_field env ''ValueName''\<rparr>"

definition net_of :: "bool \<Rightarrow> fields_env \<Rightarrow> net_ev" where
  "net_of v6 env =
     \<lparr>ne_pid = num_field env ''PID'',
       ne_size = num_field env ''size'',
       ne_daddr = (if v6 then IpV6 else IpV4) (content env ''daddr''),
       ne_saddr = (if v6 then IpV6 else IpV4) (content env ''saddr''),
       ne_dport = port_field env ''dport'',
       ne_sport = port_field env ''sport'',
       ne_seqnum = num_field env ''seqnum'',
       ne_connid = num_field env ''connid''\<rparr>"

definition dns_query_of :: "fields_env \<Rightarrow> dns_query_ev" where
  "dns_query_of env =
     \<lparr>dq_query_name = str_field env ''QueryName'',
       dq_query_type = num_field env ''QueryType'',
       dq_query_options = num_field env ''QueryOptions'',
       dq_query_status = num_field env ''QueryStatus'',
       dq_query_results = str_field env ''QueryResults''\<rparr>"

definition classic_process_of :: "pointer_size \<Rightarrow> nat \<Rightarrow> fields_env \<Rightarrow> classic_process_ev" where
  "classic_process_of p i env =
     \<lparr>cp_kind = classic_kind_of i,
       cp_unique_process_key = num_field env ''UniqueProcessKey'',
       cp_pid = num_field env ''ProcessId'',
       cp_parent_pid = num_field env ''ParentId'',
       cp_session_id = num_field env ''SessionId'',
       cp_exit_status = sint (num_field env ''ExitStatus'' :: u32),
       cp_directory_table_base = num_field env ''DirectoryTableBase'',
       cp_flags = num_field env ''Flags'',
       cp_user_sid = wbem_field p env ''UserSID'',
       cp_image_file_name = content env ''ImageFileName'',
       cp_command_line = str_field env ''CommandLine'',
       cp_package_full_name = str_field env ''PackageFullName'',
       cp_application_id = str_field env ''ApplicationId''\<rparr>"

section \<open>Following a table\<close>

definition follows :: "pointer_size \<Rightarrow> field list \<Rightarrow> (in_type \<times> bytes) option \<Rightarrow> string option \<Rightarrow> fields_env \<Rightarrow>
    'a parser \<Rightarrow> (fields_env \<Rightarrow> 'a) \<Rightarrow> bool" where
  "follows p fs prev counted env q ev \<longleftrightarrow> denotes q (omap ev (layout_split p counted prev fs env))"

named_theorems reads \<open>the reads that take a field of an in-type\<close>

lemma reads_u16 [reads]: "denotes (at_field n rd_u16) (omap word_of_le (extent p prev UInt16))"
  using denotes_at_field [OF denotes_u16] by (simp add: extent_def)

lemma reads_port [reads]: "denotes (at_field n rd_u16_be) (omap (\<lambda>c. word_of_le (rev c)) (extent p prev UInt16))"
  using denotes_at_field [OF denotes_u16_be] by (simp add: extent_def)

lemma reads_u32 [reads]: "denotes (at_field n rd_u32) (omap word_of_le (extent p prev UInt32))"
  using denotes_at_field [OF denotes_u32] by (simp add: extent_def)

lemma reads_i32 [reads]: "denotes (at_field n rd_u32) (omap word_of_le (extent p prev Int32))"
  using denotes_at_field [OF denotes_u32] by (simp add: extent_def)

lemma reads_hex32 [reads]: "denotes (at_field n rd_u32) (omap word_of_le (extent p prev HexInt32))"
  using denotes_at_field [OF denotes_u32] by (simp add: extent_def)

lemma reads_u64 [reads]: "denotes (at_field n rd_u64) (omap word_of_le (extent p prev UInt64))"
  using denotes_at_field [OF denotes_u64] by (simp add: extent_def)

lemma reads_hex64 [reads]: "denotes (at_field n rd_u64) (omap word_of_le (extent p prev HexInt64))"
  using denotes_at_field [OF denotes_u64] by (simp add: extent_def)

lemma reads_time [reads]: "denotes (at_field n rd_u64) (omap word_of_le (extent p prev FileTime))"
  using denotes_at_field [OF denotes_u64] by (simp add: extent_def)

lemma reads_ptr [reads]: "denotes (at_field n (rd_ptr p)) (omap word_of_le (extent p prev Pointer))"
  using denotes_at_field [OF denotes_ptr] by (simp add: extent_def)

lemma reads_wstr [reads]: "denotes (at_field n rd_wstr) (omap units_of (extent p prev UnicodeString))"
  using denotes_at_field [OF denotes_wstr] by (simp add: extent_def)

lemma reads_astr [reads]: "denotes (at_field n rd_astr) (omap (\<lambda>c. c) (extent p prev AnsiString))"
  using denotes_at_field [OF denotes_astr] by (simp add: extent_def)

lemma reads_sid [reads]: "denotes (at_field n rd_sid) (omap (\<lambda>c. c) (extent p prev SidField))"
  using denotes_at_field [OF denotes_sid] by (simp add: extent_def)

lemma reads_addr4 [reads]: "denotes (rd_addr False n) (omap IpV4 (extent p prev UInt32))"
  using denotes_at_field [OF denotes_map [OF denotes_take]] by (simp add: rd_addr_def extent_def)

lemma reads_addr6 [reads]:
  "denotes (rd_addr True n) (omap IpV6 (extent p (Some (UInt32, c)) Binary))"
  "denotes (rd_addr True n) (omap IpV6 (extent p (Some (Binary, c)) Binary))"
  using denotes_at_field [OF denotes_map [OF denotes_take]]
  by (simp_all add: rd_addr_def extent_def binary_len_def)

lemma reads_wbem [reads]:
  "denotes (wbem_sid p)
     (omap (\<lambda>c. if take 4 c = [0, 0, 0, 0] then None else Some (drop (token_user_len p) c)) (extent p prev WbemSid))"
proof -
  let ?d = "\<lambda>c. if take 4 c = [0, 0, 0, 0] then None else Some (drop (token_user_len p) c)"
  let ?k = "\<lambda>rest :: bytes.
     if length rest < 4 then (\<lambda>r. (Inl (Truncated ''UserSID'' (rd_pos r)), r))
     else if take 4 rest = [0, 0, 0, 0] then p_bind (rd_skip 4) (\<lambda>_. p_return None)
     else p_bind (rd_skip (token_user_len p)) (\<lambda>_. p_map Some rd_sid)"
  have null: "denotes (p_bind (rd_skip 4) (\<lambda>_. p_return None)) (obind (omap (\<lambda>_. ()) (osplit 4)) (\<lambda>_. oret None))"
    by (intro denotes)
  have user: "denotes (p_bind (rd_skip (token_user_len p)) (\<lambda>_. p_map Some rd_sid))
      (obind (omap (\<lambda>_. ()) (osplit (token_user_len p))) (\<lambda>_. omap Some ext_sid))"
    by (intro denotes)
  have tul: "token_user_len p = (case p of P32 \<Rightarrow> 8 | P64 \<Rightarrow> 16)"
    by (cases p) (simp_all add: token_user_len_def pointer_len_def)
  then have four: "4 \<le> token_user_len p"
    by (simp split: pointer_size.split)
  have "denotes (p_bind rd_rest ?k) (omap ?d (ext_wbem p))"
    unfolding denotes_def
  proof (intro allI impI)
    fix r :: payload_reader
    assume r: "rd_pos r \<le> length (rd_data r)"
    have k: "p_bind rd_rest ?k r = ?k (rd_left r) r"
      by (simp add: p_bind_def rd_rest_ok [OF r])
    show "agrees r (omap ?d (ext_wbem p) (rd_left r)) (p_bind rd_rest ?k r)"
    proof (cases "length (rd_left r) < 4")
      case True
      then show ?thesis unfolding k using r by (simp add: ext_wbem_def omap_def)
    next
      case long: False
      show ?thesis
      proof (cases "take 4 (rd_left r) = [0, 0, 0, 0]")
        case True
        then show ?thesis
          using denotesD [OF null r] long unfolding k
          by (simp add: ext_wbem_def omap_def osplit_def obind_def oret_def)
      next
        case False
        have "omap ?d (ext_wbem p) (rd_left r) =
            obind (omap (\<lambda>_. ()) (osplit (token_user_len p))) (\<lambda>_. omap Some ext_sid) (rd_left r)"
          using False long four
          by (cases "ext_sid (drop (token_user_len p) (rd_left r))")
             (auto simp: ext_wbem_def omap_def osplit_def obind_def min_def)
        then show ?thesis
          using denotesD [OF user r] False long unfolding k by simp
      qed
    qed
  qed
  then show ?thesis
    unfolding wbem_sid_def extent_def tul [symmetric] by (intro denotes_at_field) simp
qed

lemma reads_some [reads]:
  "denotes (at_field n q) (omap d e) \<Longrightarrow> denotes (p_map Some (at_field n q)) (omap (\<lambda>c. Some (d c)) e)"
  using denotes_map [of "at_field n q" "omap d e" Some] by (simp add: omap_omap)

text \<open>The rules: the fields' reads, in order, with the continuation following the rest of the table.\<close>

lemma follows_nil: "ev env = v \<Longrightarrow> follows p [] prev counted env (p_return v) ev"
  unfolding follows_def by (rule denotes_cong [OF denotes_return]) (simp add: oret_def omap_def)

lemma follows_field:
  assumes "denotes q (omap d (extent p prev t))" "counted \<noteq> Some n"
    "\<And>c. follows p fs (Some (t, c)) counted (env(n \<mapsto> (c, False))) (g (d c)) ev"
  shows "follows p ((n, t) # fs) prev counted env (p_bind q g) ev"
proof -
  let ?rest = "\<lambda>c. omap ev (layout_split p counted (Some (t, c)) fs (env(n \<mapsto> (c, False))))"
  have "denotes (p_bind q g) (obind (extent p prev t) ?rest)"
    by (rule denotes_bind_omap [OF assms(1)]) (rule assms(3) [unfolded follows_def])
  then show ?thesis
    unfolding follows_def
    by (rule denotes_cong) (use assms(2) in \<open>auto simp: obind_def omap_def split: option.splits\<close>)
qed

text \<open>A skip over fields of fixed size takes them one by one.\<close>

lemma rd_skip_left:
  "rd_pos r \<le> length (rd_data r) \<Longrightarrow> rd_skip n r =
    (if n \<le> length (rd_left r) then (Inr (), r\<lparr>rd_pos := rd_pos r + n\<rparr>)
     else (Inl (Truncated (rd_field r) (rd_pos r)), r))"
  by (simp add: rd_skip_def p_map_def p_bind_def p_return_def rd_take_left)

lemma denotes_skip_split:
  assumes "denotes (p_bind (rd_skip a) (\<lambda>_. p_bind (at_field n (rd_skip b)) g)) f"
  shows "denotes (p_bind (at_field n (rd_skip (a + b))) g) f"
  unfolding denotes_def
proof (intro allI impI)
  fix r :: payload_reader
  assume r: "rd_pos r \<le> length (rd_data r)"
  let ?r = "r\<lparr>rd_field := n\<rparr>" and ?q = "p_bind (rd_skip a) (\<lambda>_. p_bind (at_field n (rd_skip b)) g)"
  have ok: "rd_pos ?r \<le> length (rd_data ?r)" and left: "rd_left ?r = rd_left r"
    using r by (simp_all add: rd_left_def)
  have one: "agrees r (f (rd_left r)) (?q ?r)"
    using denotesD [OF assms ok] by (simp only: agrees_field left)
  show "agrees r (f (rd_left r)) (p_bind (at_field n (rd_skip (a + b))) g r)"
  proof (cases "a + b \<le> length (rd_left r)")
    case True
    then have a: "a \<le> length (rd_left r)" and b: "b \<le> length (rd_data r) - (rd_pos r + a)" by simp_all
    let ?ra = "?r\<lparr>rd_pos := rd_pos r + a\<rparr>"
    have "rd_pos ?ra \<le> length (rd_data ?ra)" using a r by simp
    then have "?q ?r = p_bind (at_field n (rd_skip (a + b))) g r"
      using True a b ok by (simp add: p_bind_def at_field_def rd_skip_left left rd_left_def add.assoc)
    then show ?thesis using one by simp
  next
    case False
    note short = False
    have "f (rd_left r) = None"
    proof (cases "a \<le> length (rd_left r)")
      case True
      let ?ra = "?r\<lparr>rd_pos := rd_pos r + a\<rparr>"
      have "rd_pos ?ra \<le> length (rd_data ?ra)" "\<not> b \<le> length (rd_data r) - (rd_pos r + a)"
        using True short r by auto
      then have "\<exists>e r'. ?q ?r = (Inl e, r')"
        using True short ok by (simp add: p_bind_def at_field_def rd_skip_left left rd_left_def)
      then show ?thesis using one by (elim exE) simp
    next
      case False
      then have "\<exists>e r'. ?q ?r = (Inl e, r')"
        using ok by (simp add: p_bind_def rd_skip_left left)
      then show ?thesis using one by (elim exE) simp
    qed
    then show ?thesis
      using short r ok by (simp add: p_bind_def at_field_def rd_skip_left left)
  qed
qed

lemma follows_skip:
  assumes "fixed_len p t = Some a" "a \<le> k" "counted \<noteq> Some n"
    "\<And>c. follows p fs (Some (t, c)) counted (env(n \<mapsto> (c, False))) (p_bind (at_field m (rd_skip (k - a))) g) ev"
  shows "follows p ((n, t) # fs) prev counted env (p_bind (at_field m (rd_skip k)) g) ev"
proof -
  have "denotes (rd_skip a) (omap (\<lambda>_. ()) (extent p prev t))"
    using denotes_skip [of a] assms(1) by (simp add: extent_def)
  from follows_field [OF this assms(3), where g = "\<lambda>_. p_bind (at_field m (rd_skip (k - a))) g", OF assms(4)]
  show ?thesis
    unfolding follows_def using denotes_skip_split [of a m "k - a" g] assms(2) by simp
qed

lemma follows_skip_end:
  assumes "k = 0" "follows p fs prev counted env (g ()) ev"
  shows "follows p fs prev counted env (p_bind (at_field m (rd_skip k)) g) ev"
proof -
  have "denotes (p_bind (at_field m (rd_skip k)) g)
      (obind (omap (\<lambda>_. ()) (osplit 0)) (\<lambda>_. omap ev (layout_split p counted prev fs env)))"
    unfolding \<open>k = 0\<close>
  proof (rule denotes_bind)
    show "denotes (at_field m (rd_skip 0)) (omap (\<lambda>_. ()) (osplit 0))" by (intro denotes)
    show "denotes (g v) (omap ev (layout_split p counted prev fs env))" for v
      using assms(2) by (simp add: follows_def)
  qed
  then show ?thesis
    unfolding follows_def by (rule denotes_cong) (simp add: obind_def omap_def osplit_def)
qed

lemmas follows_rules = follows_field follows_skip follows_skip_end follows_nil

lemma p_bind_return [simp]: "p_bind (p_return v) g = g v"
  by (simp add: p_bind_def p_return_def fun_eq_iff)

lemma follows_process_start_3:
  "follows p PROCESS_START_V3 None None Map.empty (process_start 3) (process_start_of 3)"
  unfolding PROCESS_START_V3_def process_start_def
  by simp ((rule follows_field, (rule reads)+, simp)+, rule follows_nil, simp add: process_start_of_def field_defs)

lemma follows_process_start_4:
  "follows p PROCESS_START_V4 None None Map.empty (process_start 4) (process_start_of 4)"
  unfolding PROCESS_START_V4_def process_start_def
  by simp ((rule follows_field, (rule reads)+, simp)+, rule follows_nil, simp add: process_start_of_def field_defs)

lemma follows_process_stop: "follows p PROCESS_STOP_V2 None None Map.empty process_stop process_stop_of"
  unfolding PROCESS_STOP_V2_def process_stop_def
  by ((rule follows_skip_end, (simp; fail)) | (rule follows_skip, simp, (simp; fail), simp) | (rule follows_field, (rule reads)+, simp))+ (rule follows_nil, simp add: process_stop_of_def field_defs)

lemma follows_image_load: "follows p IMAGE_LOAD_V0 None None Map.empty (image_load p) image_load_of"
  unfolding IMAGE_LOAD_V0_def image_load_def
  by (rule follows_field, (rule reads)+, simp)+ (rule follows_nil, simp add: image_load_of_def field_defs)

lemma follows_file_create: "follows p FILE_CREATE_V1 None None Map.empty (file_create p) file_create_of"
  unfolding FILE_CREATE_V1_def file_create_def
  by (rule follows_field, (rule reads)+, simp)+ (rule follows_nil, simp add: file_create_of_def field_defs)

lemma follows_file_handle: "follows p FILE_HANDLE_V1 None None Map.empty (file_handle p) file_handle_of"
  unfolding FILE_HANDLE_V1_def file_handle_def
  by (rule follows_field, (rule reads)+, simp)+ (rule follows_nil, simp add: file_handle_of_def field_defs)

lemma follows_file_write: "follows p FILE_WRITE_V1 None None Map.empty (file_write p) file_write_of"
  unfolding FILE_WRITE_V1_def file_write_def
  by (rule follows_field, (rule reads)+, simp)+ (rule follows_nil, simp add: file_write_of_def field_defs)

lemma follows_file_set_info: "follows p FILE_SET_INFO_V1 None None Map.empty (file_set_info p) file_set_info_of"
  unfolding FILE_SET_INFO_V1_def file_set_info_def
  by (rule follows_field, (rule reads)+, simp)+ (rule follows_nil, simp add: file_set_info_of_def field_defs)

lemma follows_file_op_end: "follows p FILE_OP_END_V0 None None Map.empty (file_op_end p) file_op_end_of"
  unfolding FILE_OP_END_V0_def file_op_end_def
  by (rule follows_field, (rule reads)+, simp)+ (rule follows_nil, simp add: file_op_end_of_def field_defs)

lemma follows_file_path: "follows p FILE_PATH_V1 None None Map.empty (file_path p) file_path_of"
  unfolding FILE_PATH_V1_def file_path_def
  by (rule follows_field, (rule reads)+, simp)+ (rule follows_nil, simp add: file_path_of_def field_defs)

lemma follows_reg_key: "follows p REG_KEY_V0 None None Map.empty (reg_key p) reg_key_of"
  unfolding REG_KEY_V0_def reg_key_def
  by (rule follows_field, (rule reads)+, simp)+ (rule follows_nil, simp add: reg_key_of_def field_defs)

lemma follows_dns_query: "follows p DNS_QUERY_V0 None None Map.empty dns_query dns_query_of"
  unfolding DNS_QUERY_V0_def dns_query_def
  by (rule follows_field, (rule reads)+, simp)+ (rule follows_nil, simp add: dns_query_of_def field_defs)

lemma follows_tcp4_open:
  "follows p TCP4_OPEN None None Map.empty (rd_net False True) (net_of False)"
  unfolding TCP4_OPEN_def rd_net_def
  by simp (((rule follows_skip_end, (simp; fail)) | (rule follows_skip, simp, (simp; fail), simp) | (rule follows_field, (rule reads)+, simp))+, rule follows_nil, simp add: net_of_def field_defs)

lemma follows_tcp6_open:
  "follows p TCP6_OPEN None None Map.empty (rd_net True True) (net_of True)"
  unfolding TCP6_OPEN_def rd_net_def
  by simp (((rule follows_skip_end, (simp; fail)) | (rule follows_skip, simp, (simp; fail), simp) | (rule follows_field, (rule reads)+, simp))+, rule follows_nil, simp add: net_of_def field_defs)

lemma follows_net4_simple:
  "follows p NET4_SIMPLE None None Map.empty (rd_net False False) (net_of False)"
  unfolding NET4_SIMPLE_def rd_net_def
  by simp (((rule follows_skip_end, (simp; fail)) | (rule follows_skip, simp, (simp; fail), simp) | (rule follows_field, (rule reads)+, simp))+, rule follows_nil, simp add: net_of_def field_defs)

lemma follows_net6_simple:
  "follows p NET6_SIMPLE None None Map.empty (rd_net True False) (net_of True)"
  unfolding NET6_SIMPLE_def rd_net_def
  by simp (((rule follows_skip_end, (simp; fail)) | (rule follows_skip, simp, (simp; fail), simp) | (rule follows_field, (rule reads)+, simp))+, rule follows_nil, simp add: net_of_def field_defs)

lemma follows_classic_process:
  "follows p CLASSIC_PROCESS_V4 None None Map.empty (classic_process p i) (classic_process_of p i)"
  unfolding CLASSIC_PROCESS_V4_def classic_process_def
  apply (rule follows_field, (rule reads)+, simp)+
  apply (rule follows_nil, simp add: classic_process_of_def field_defs)
  done

text \<open>A captured buffer is two fields, its size and its bytes.\<close>

lemma denotes_consumed:
  "denotes (\<lambda>r. p_bind (at_field n (rd_skip k)) (\<lambda>_. rd_slice_from (rd_pos r)) r) (osplit k)"
  unfolding denotes_def
proof (intro allI impI)
  fix r :: payload_reader
  assume r: "rd_pos r \<le> length (rd_data r)"
  let ?r = "r\<lparr>rd_field := n\<rparr>"
  have "rd_pos ?r \<le> length (rd_data ?r)" and left: "rd_left ?r = rd_left r"
    using r by (simp_all add: rd_left_def)
  from rd_skip_left [OF this(1), of k]
  have s: "at_field n (rd_skip k) r = (if k \<le> length (rd_left r)
      then (Inr (), ?r\<lparr>rd_pos := rd_pos ?r + k\<rparr>) else (Inl (Truncated n (rd_pos r)), ?r))"
    by (simp add: at_field_def left)
  show "agrees r (osplit k (rd_left r)) (p_bind (at_field n (rd_skip k)) (\<lambda>_. rd_slice_from (rd_pos r)) r)"
  proof (cases "k \<le> length (rd_left r)")
    case True
    then have "rd_pos ?r + k \<le> length (rd_data ?r)" using r by simp
    from rd_slice_from_left [OF this] show ?thesis
      using True r by (simp add: p_bind_def s osplit_def left) (simp add: rd_left_def add.commute)
  next
    case False
    then show ?thesis using r by (simp add: p_bind_def s osplit_def)
  qed
qed

lemma denotes_captured:
  "denotes (captured n m) (obind (osplit 2) (\<lambda>c. osplit (unat (word_of_le c :: u16))))"
  unfolding captured_def Let_def
  by (rule denotes_bind_omap [where d = word_of_le])
     (rule denotes_at_field [OF denotes_u16], rule denotes_consumed)

lemma p_bind_assoc: "p_bind (p_bind a b) c = p_bind a (\<lambda>x. p_bind (b x) c)"
  by (auto simp: p_bind_def fun_eq_iff and_then_def split: prod.splits sum.splits)

lemma follows_captured:
  assumes "counted \<noteq> Some n" "counted \<noteq> Some m"
    "\<And>c d. follows p fs (Some (Binary, d)) counted (env(n \<mapsto> (c, False), m \<mapsto> (d, False))) (g d) ev"
  shows "follows p ((n, UInt16) # (m, Binary) # fs) prev counted env (p_bind (captured n m) g) ev"
proof -
  let ?k = "\<lambda>c. \<lambda>r. p_bind (at_field m (rd_skip (unat (word_of_le c :: u16)))) (\<lambda>_. rd_slice_from (rd_pos r)) r"
  have inner: "follows p ((m, Binary) # fs) (Some (UInt16, c)) counted (env(n \<mapsto> (c, False)))
      (p_bind (?k c) g) ev" for c
  proof (rule follows_field [where d = "\<lambda>c. c"])
    show "denotes (?k c) (omap (\<lambda>c. c) (extent p (Some (UInt16, c)) Binary))"
      using denotes_consumed [of m] by (simp add: extent_def binary_len_def)
  qed (use assms in auto)
  have eq: "p_bind (captured n m) g = p_bind (at_field n rd_u16) (\<lambda>w. p_bind (\<lambda>r.
      p_bind (at_field m (rd_skip (unat w))) (\<lambda>_. rd_slice_from (rd_pos r)) r) g)"
    by (simp add: captured_def Let_def p_bind_assoc)
  show ?thesis
    unfolding eq by (rule follows_field [OF reads_u16 assms(1)]) (rule inner)
qed

text \<open>A counted name, read with the length of the fields after it.\<close>

lemma rd_fits_fitting:
  assumes "\<And>bs. t bs = Some (length bs) \<longleftrightarrow> fills p fs bs"
  shows "ext_counted t = ext_fitting (fills p fs)"
proof
  fix bs
  have "rd_fits t bs = filter (\<lambda>i. nul_at bs i \<and> fills p fs (drop (2 * i + 2) bs)) (rev [0 ..< length bs div 2])"
    by (auto simp: rd_fits_def assms [symmetric] intro!: filter_cong)
  then show "ext_counted t bs = ext_fitting (fills p fs) bs"
    by (simp add: ext_counted_def ext_fitting_def)
qed

lemma follows_counted:
  assumes "\<And>bs. t bs = Some (length bs) \<longleftrightarrow> fills p fs bs"
    "\<And>c. follows p fs (Some (u, fst c)) (Some n) (env(n \<mapsto> c)) (g (units_of (fst c), snd c)) ev"
  shows "follows p ((n, u) # fs) prev (Some n) env (p_bind (at_field n (rd_counted_wstr t)) g) ev"
proof -
  let ?rest = "\<lambda>c. omap ev (layout_split p (Some n) (Some (u, fst c)) fs (env(n \<mapsto> c)))"
  have "denotes (at_field n (rd_counted_wstr t)) (omap (\<lambda>c. (units_of (fst c), snd c)) (ext_fitting (fills p fs)))"
    using denotes_at_field [OF denotes_counted_wstr, of n t] rd_fits_fitting [of t, OF assms(1)]
    by (simp add: split_def)
  then have "denotes (p_bind (at_field n (rd_counted_wstr t)) g) (obind (ext_fitting (fills p fs)) ?rest)"
    by (rule denotes_bind_omap) (rule assms(2) [unfolded follows_def])
  then show ?thesis
    unfolding follows_def
    by (rule denotes_cong) (auto simp: obind_def omap_def fills_def [abs_def] split: option.splits)
qed

lemma fills_nil: "fills p [] bs \<longleftrightarrow> bs = []"
  by (simp add: fills_def)

lemma follows_last_name_exact:
  assumes "\<And>c. ev (env(n \<mapsto> c)) = v (units_of (fst c))"
  shows "follows p [(n, u)] prev (Some n) env (p_bind (last_name n True) (\<lambda>s. p_return (v s))) ev"
proof -
  have eq: "p_bind (last_name n True) (\<lambda>s. p_return (v s)) =
      p_bind (at_field n (rd_counted_wstr (\<lambda>t. if t = [] then Some 0 else None))) (\<lambda>c. p_return (v (fst c)))"
    by (simp add: last_name_def p_map_def p_bind_assoc)
  show ?thesis
    unfolding eq by (rule follows_counted) (auto simp: fills_nil assms intro!: follows_nil)
qed

lemma last_name_plain: "last_name n False = at_field n rd_wstr"
  by (simp add: last_name_def)

definition SET_VALUE_TRAILER :: "field list" where
  "SET_VALUE_TRAILER = drop 6 REG_SET_VALUE_V0"

lemma size_at_eq: "size_at b i = (if i + 2 \<le> length b then Some (from_le (take 2 (drop i b))) else None)"
  by (simp add: size_at_def slice_get_def slice_of_def)

lemma unat_word_of_le2: "length xs = 2 \<Longrightarrow> unat (word_of_le xs :: u16) = from_le xs"
  using from_le_bound [of xs] by (simp add: word_of_le_def unat_of_nat)

lemma trailer_fills: "set_value_trailer_len bs = Some (length bs) \<longleftrightarrow> fills p SET_VALUE_TRAILER bs"
proof -
  define n where "n = from_le (take 2 bs)"
  define m where "m = from_le (take 2 (drop (10 + n) bs))"
  have len: "set_value_trailer_len bs = Some (length bs) \<longleftrightarrow> 2 \<le> length bs \<and> 12 + n + m = length bs"
    by (auto simp: set_value_trailer_len_def size_at_eq Let_def n_def m_def simp del: One_nat_def)
  have n': "2 \<le> length bs \<Longrightarrow> unat (word_of_le (take 2 bs) :: u16) = n"
    by (simp add: unat_word_of_le2 n_def)
  have m': "12 + n \<le> length bs \<Longrightarrow> unat (word_of_le (take 2 (drop (10 + n) bs)) :: u16) = m"
    by (simp add: unat_word_of_le2 m_def)
  have "fills p SET_VALUE_TRAILER bs \<longleftrightarrow> 2 \<le> length bs \<and> 12 + n + m = length bs"
    unfolding fills_def SET_VALUE_TRAILER_def REG_SET_VALUE_V0_def
    by (simp add: extent_def omap_def osplit_def binary_len_def n' m' cong: if_cong) linarith
  then show ?thesis
    using len by simp
qed

lemma follows_reg_open: "follows p REG_OPEN_V0 None None Map.empty (reg_open p False) reg_open_of"
  unfolding REG_OPEN_V0_def reg_open_def last_name_plain
  by (rule follows_field, (rule reads)+, simp)+ (rule follows_nil, simp add: reg_open_of_def field_defs)

lemma follows_reg_open_exact:
  "follows p REG_OPEN_V0 None (Some ''RelativeName'') Map.empty (reg_open p True) reg_open_of"
  unfolding REG_OPEN_V0_def reg_open_def
  by (rule follows_field, (rule reads)+, simp)+ (rule follows_last_name_exact, simp add: reg_open_of_def field_defs)

lemma follows_reg_delete_value:
  "follows p REG_DELETE_VALUE_V0 None None Map.empty (reg_delete_value p False) reg_delete_value_of"
  unfolding REG_DELETE_VALUE_V0_def reg_delete_value_def last_name_plain
  by (rule follows_field, (rule reads)+, simp)+ (rule follows_nil, simp add: reg_delete_value_of_def field_defs)

lemma follows_reg_delete_value_exact:
  "follows p REG_DELETE_VALUE_V0 None (Some ''ValueName'') Map.empty (reg_delete_value p True) reg_delete_value_of"
  unfolding REG_DELETE_VALUE_V0_def reg_delete_value_def
  by (rule follows_field, (rule reads)+, simp)+
     (rule follows_last_name_exact, simp add: reg_delete_value_of_def field_defs)

lemma follows_reg_set_value:
  "follows p REG_SET_VALUE_V0 None None Map.empty (reg_set_value p False) reg_set_value_of"
  unfolding REG_SET_VALUE_V0_def reg_set_value_def
  apply (simp add: p_map_def p_bind_assoc)
  apply ((rule follows_captured, simp, simp) | (rule follows_field, (rule reads)+, simp))+
  apply (rule follows_nil, simp add: reg_set_value_of_def field_defs)
  done

lemma follows_reg_set_value_exact:
  "follows p REG_SET_VALUE_V0 None (Some ''ValueName'') Map.empty (reg_set_value p True) reg_set_value_of"
  unfolding REG_SET_VALUE_V0_def reg_set_value_def
  apply simp
  apply (rule follows_field, (rule reads)+, simp)+
  apply (rule follows_counted)
   apply (subst trailer_fills, simp add: SET_VALUE_TRAILER_def REG_SET_VALUE_V0_def)
  apply simp
  apply ((rule follows_captured, simp, simp) | (rule follows_field, (rule reads)+, simp))+
  apply (rule follows_nil, simp add: reg_set_value_of_def field_defs)
  done

section \<open>Every event follows its table\<close>

text \<open>The event read from the fields of its table.\<close>

definition event_of :: "raw_meta \<Rightarrow> fields_env \<Rightarrow> raw_event" where
  "event_of m env =
     (let p = em_pointer_size m; i = em_id m in
      case em_provider m of
        KernelProcess \<Rightarrow>
          if i = 1 then ProcessStart (process_start_of (em_version m) env)
          else if i = 2 then ProcessStop (process_stop_of env)
          else ImageLoad (image_load_of env)
      | KernelFile \<Rightarrow>
          if i = 12 then FileCreate (file_create_of env)
          else if i = 30 then FileCreateNew (file_create_of env)
          else if i = 13 then FileCleanup (file_handle_of env)
          else if i = 14 then FileClose (file_handle_of env)
          else if i = 16 then FileWrite (file_write_of env)
          else if i = 17 then FileSetInfo (file_set_info_of env)
          else if i = 18 then FileSetDelete (file_set_info_of env)
          else if i = 24 then FileOpEnd (file_op_end_of env)
          else if i = 26 then FileDeletePath (file_path_of env)
          else FileRenamePath (file_path_of env)
      | KernelRegistry \<Rightarrow>
          if i = 1 then RegCreateKey (reg_open_of env)
          else if i = 2 then RegOpenKey (reg_open_of env)
          else if i = 3 then RegDeleteKey (reg_key_of env)
          else if i = 5 then RegSetValue (reg_set_value_of env)
          else if i = 6 then RegDeleteValue (reg_delete_value_of env)
          else RegCloseKey (reg_key_of env)
      | KernelNetwork \<Rightarrow>
          (let e = net_of (i \<in> {28, 29, 31, 58, 59}) env in
           if i \<in> {12, 28} then TcpConnect e
           else if i \<in> {15, 31} then TcpAccept e
           else if i \<in> {13, 29} then TcpDisconnect e
           else if i \<in> {42, 58} then UdpSend e
           else UdpRecv e)
      | DnsClient \<Rightarrow> DnsQuery (dns_query_of env)
      | ClassicProcess \<Rightarrow> EvClassicProcess (classic_process_of p i env))"

text \<open>The registry name of a layout that may hold NULs, when the version is the layout's own.\<close>

definition counted_field :: "provider \<Rightarrow> nat \<Rightarrow> bool \<Rightarrow> string option" where
  "counted_field prov i exact =
     (if exact \<and> prov = KernelRegistry then
        if i \<in> {1, 2} then Some ''RelativeName'' else if i \<in> {5, 6} then Some ''ValueName'' else None
      else None)"

definition split_event :: "raw_meta \<Rightarrow> field list \<Rightarrow> bool \<Rightarrow> bytes \<Rightarrow> (fields_env \<times> bytes) option" where
  "split_event m fs exact =
     layout_split (em_pointer_size m) (counted_field (em_provider m) (em_id m) exact) None fs Map.empty"

lemma follows_map: "follows p fs prev counted env q ev \<Longrightarrow> follows p fs prev counted env (p_map h q) (\<lambda>e. h (ev e))"
  unfolding follows_def by (drule denotes_map [where h = h]) (simp add: omap_omap)

lemmas follows_parsers =
  follows_process_start_3 follows_process_start_4 follows_process_stop follows_image_load
  follows_file_create follows_file_handle follows_file_write follows_file_set_info follows_file_op_end
  follows_file_path follows_reg_open follows_reg_open_exact follows_reg_key follows_reg_set_value
  follows_reg_set_value_exact follows_reg_delete_value follows_reg_delete_value_exact
  follows_tcp4_open follows_tcp6_open follows_net4_simple follows_net6_simple follows_dns_query
  follows_classic_process

lemma layout_find_Some:
  "layout_find prov i v = Some l \<Longrightarrow> l \<in> set LAYOUTS \<and> lay_provider l = prov \<and> lay_id l = i \<and> lay_version l = v"
  by (auto simp: layout_find_def find_Some_iff)

lemma follows_cong:
  "follows p fs prev counted env q ev \<Longrightarrow> (\<And>e. ev' e = ev e) \<Longrightarrow> follows p fs prev counted env q ev'"
  by (subst ext [of ev' ev]) simp_all

lemma event_parser_follows:
  assumes "layout_find (em_provider m) (em_id m) (em_version m) = Some l"
  shows "follows (em_pointer_size m) (lay_fields l) None (counted_field (em_provider m) (em_id m) exact) Map.empty
    (event_parser m exact) (event_of m)"
proof -
  have l: "l \<in> set LAYOUTS" "em_provider m = lay_provider l" "em_id m = lay_id l" "em_version m = lay_version l"
    using layout_find_Some [OF assms] by simp_all
  show ?thesis
    by (insert l(1) [unfolded LAYOUTS_def list.set insert_iff empty_iff]; elim disjE FalseE; cases exact;
        (simp add: event_parser_def l(2-4) counted_field_def,
         rule follows_cong, rule follows_map, rule follows_parsers, simp add: event_of_def l(2-4)))
qed

text \<open>What a parse returns, for every payload.\<close>

lemma parse_known_splits:
  assumes "layout_find (em_provider m) (em_id m) (em_version m) = Some l"
  shows "case parse_known m payload exact of
      Inr ev \<Rightarrow> \<exists>env rest. split_event m (lay_fields l) exact payload = Some (env, rest) \<and> ev = event_of m env
    | Inl e \<Rightarrow> split_event m (lay_fields l) exact payload = None \<and> error_within (length payload) e"
proof -
  have d: "denotes (event_parser m exact) (omap (event_of m) (split_event m (lay_fields l) exact))"
    using event_parser_follows [OF assms] by (simp add: follows_def split_event_def)
  have "agrees (rd_new payload) (omap (event_of m) (split_event m (lay_fields l) exact) payload)
      (event_parser m exact (rd_new payload))"
    using denotesD [OF d, of "rd_new payload"] by (simp add: rd_new_def rd_left_def)
  then show ?thesis
    by (auto simp: parse_known_def agrees_def omap_def rd_new_def split: sum.splits)
qed

end
