(* ===== verification/Ew_Gate.thy ===== *)
theory Ew_Gate
  imports Ew_Follows
begin

text \<open>
  Newer event versions (\<open>crates/atlas-etw/src/session/gate.rs\<close>): the verdict on a version newer than
  the tables, reached once per provider, event and version from the layout installed on the machine,
  and the parse that follows it. The installed layouts are a parameter, as Windows answers for them.
  The theory states what the whole of \<open>parse\<close> answers, and that a newer version the gate accepts is
  read as its own layout says.
\<close>

section \<open>The tables\<close>

definition event_known :: "provider \<Rightarrow> nat \<Rightarrow> bool" where
  "event_known prov i \<longleftrightarrow> list_ex (\<lambda>l. lay_provider l = prov \<and> lay_id l = i) LAYOUTS"

lemma foldl_newest:
  fixes m :: layout
  shows "\<exists>n. foldl (\<lambda>m l. case m of None \<Rightarrow> Some l
      | Some m \<Rightarrow> if lay_version m \<le> lay_version l then Some l else Some m) (Some m) ls = Some n \<and>
    n \<in> insert m (set ls) \<and> (\<forall>l \<in> insert m (set ls). lay_version l \<le> lay_version n)"
proof (induction ls arbitrary: m)
  case Nil
  then show ?case by simp
next
  case (Cons l ls)
  show ?case
  proof (cases "lay_version m \<le> lay_version l")
    case True
    then show ?thesis using Cons.IH [of l] by (auto intro: order_trans)
  next
    case False
    then show ?thesis using Cons.IH [of m] by (auto intro: order_trans)
  qed
qed

lemma layout_newest_cases:
  "case layout_newest prov i of
     None \<Rightarrow> \<not> event_known prov i
   | Some n \<Rightarrow> n \<in> set LAYOUTS \<and> lay_provider n = prov \<and> lay_id n = i \<and>
       (\<forall>l \<in> set LAYOUTS. lay_provider l = prov \<and> lay_id l = i \<longrightarrow> lay_version l \<le> lay_version n)"
proof (cases "filter (\<lambda>l. lay_provider l = prov \<and> lay_id l = i) LAYOUTS")
  case Nil
  then show ?thesis
    by (auto simp: layout_newest_def event_known_def filter_empty_conv list_ex_iff)
next
  case (Cons m ls)
  have mem: "l \<in> insert m (set ls) \<longleftrightarrow> l \<in> set LAYOUTS \<and> lay_provider l = prov \<and> lay_id l = i" for l
    using arg_cong [OF Cons, of "\<lambda>xs. l \<in> set xs"] by auto
  show ?thesis
    using foldl_newest [of m ls]
  proof (elim exE conjE)
    fix n
    assume n: "n \<in> insert m (set ls)" "\<forall>l \<in> insert m (set ls). lay_version l \<le> lay_version n"
    assume "foldl (\<lambda>m l. case m of None \<Rightarrow> Some l
        | Some m \<Rightarrow> if lay_version m \<le> lay_version l then Some l else Some m) (Some m) ls = Some n"
    then have "layout_newest prov i = Some n" by (simp add: layout_newest_def Cons)
    then show ?thesis
      using n(1) n(2) [rule_format, unfolded mem] unfolding mem by simp
  qed
qed

text \<open>No two tables are for the same version, as a test of the code checks.\<close>

definition lay_key :: "layout \<Rightarrow> provider \<times> nat \<times> nat" where
  "lay_key l = (lay_provider l, lay_id l, lay_version l)"

lemma layouts_unique: "distinct (map lay_key LAYOUTS)"
  by code_simp

lemma layout_find_iff:
  "layout_find prov i v = Some l \<longleftrightarrow> l \<in> set LAYOUTS \<and> lay_key l = (prov, i, v)"
proof
  assume l: "l \<in> set LAYOUTS \<and> lay_key l = (prov, i, v)"
  then obtain k where k: "layout_find prov i v = Some k"
    by (cases "layout_find prov i v") (auto simp: layout_find_def find_None_iff lay_key_def)
  then have "k \<in> set LAYOUTS" "lay_key k = lay_key l"
    using layout_find_Some [OF k] l by (simp_all add: lay_key_def)
  then have "k = l"
    using l layouts_unique by (auto simp: distinct_map inj_on_def)
  then show "layout_find prov i v = Some l" using k by simp
qed (use layout_find_Some in \<open>auto simp: lay_key_def\<close>)

lemma layout_newest_find: "layout_newest prov i = Some n \<Longrightarrow> layout_find prov i (lay_version n) = Some n"
  using layout_newest_cases [of prov i] by (simp add: layout_find_iff lay_key_def)

lemma layout_find_known: "layout_find prov i v = Some l \<Longrightarrow> event_known prov i"
  by (auto simp: layout_find_iff lay_key_def event_known_def list_ex_iff)

text \<open>Every event that session A enables has a table.\<close>

definition session_known :: "bool \<Rightarrow> bool \<Rightarrow> bool" where
  "session_known udp op_end =
     list_all (\<lambda>e. list_all (event_known (en_provider e)) (en_event_ids e)) (session_a udp op_end)"

lemma session_a_known: "session_known udp op_end"
proof -
  have "session_known True True" "session_known True False" "session_known False True" "session_known False False"
    by (simp_all add: session_known_def session_a_def event_known_def LAYOUTS_def)
  then show ?thesis by (cases udp; cases op_end) simp_all
qed

section \<open>The gate\<close>

datatype verdict = Rejected | Prefix | Same

definition gate_verdict :: "field list \<Rightarrow> (string \<times> nat) list option \<Rightarrow> verdict" where
  "gate_verdict ours installed = (case installed of
     Some theirs \<Rightarrow>
       if is_prefix ours theirs then if length theirs = length ours then Same else Prefix
       else Rejected
   | None \<Rightarrow> Rejected)"

type_synonym installed = "provider \<Rightarrow> nat \<Rightarrow> nat \<Rightarrow> (string \<times> nat) list option"

type_synonym version_gate = "provider \<times> nat \<times> nat \<Rightarrow> verdict option"

definition gate_new :: version_gate where
  "gate_new = Map.empty"

definition gate_parse :: "installed \<Rightarrow> version_gate \<Rightarrow> raw_meta option \<Rightarrow> bytes \<Rightarrow>
    (parse_error + raw_event) \<times> version_gate" where
  "gate_parse inst g rec_meta payload = (case rec_meta of
     None \<Rightarrow> (Inl UnknownEvent, g)
   | Some m \<Rightarrow>
       (case parse_event m payload of
          Inl (NewerVersion version newest) \<Rightarrow>
            let key = (em_provider m, em_id m, version);
                (v, g) = (case g key of
                   Some v \<Rightarrow> (v, g)
                 | None \<Rightarrow>
                     let ours = (case layout_find (em_provider m) (em_id m) newest of
                           Some l \<Rightarrow> lay_fields l | None \<Rightarrow> []);
                         v = gate_verdict ours (inst (em_provider m) (em_id m) version)
                     in (v, g(key \<mapsto> v)))
            in (case v of
                  Same \<Rightarrow> parse_as m newest payload True
                | Prefix \<Rightarrow> parse_as m newest payload False
                | Rejected \<Rightarrow> Inl (NewerVersion version newest), g)
        | other \<Rightarrow> (other, g)))"

text \<open>Every verdict of the map is the one the installed layout gives.\<close>

definition gate_sound :: "installed \<Rightarrow> version_gate \<Rightarrow> bool" where
  "gate_sound inst g \<longleftrightarrow> (\<forall>prov i v d. g (prov, i, v) = Some d \<longrightarrow>
     (\<exists>n. layout_newest prov i = Some n \<and> lay_version n < v \<and> d = gate_verdict (lay_fields n) (inst prov i v)))"

lemma gate_new_sound: "gate_sound inst gate_new"
  by (simp add: gate_sound_def gate_new_def)

lemma parse_event_newer:
  assumes "layout_newest (em_provider m) (em_id m) = Some n" "lay_version n < em_version m"
  shows "parse_event m payload = Inl (NewerVersion (em_version m) (lay_version n))"
proof -
  have "layout_find (em_provider m) (em_id m) (em_version m) = None"
  proof (rule ccontr)
    assume "layout_find (em_provider m) (em_id m) (em_version m) \<noteq> None"
    then obtain l where "layout_find (em_provider m) (em_id m) (em_version m) = Some l" by blast
    then have "lay_version l = em_version m" "lay_version l \<le> lay_version n"
      using layout_newest_cases [of "em_provider m" "em_id m"] assms(1) by (auto simp: layout_find_iff lay_key_def)
    then show False using assms(2) by simp
  qed
  then show ?thesis using assms by (simp add: parse_event_def)
qed

lemma parse_event_not_newer:
  assumes "parse_event m payload = Inl (NewerVersion v w)"
  shows "\<exists>n. layout_newest (em_provider m) (em_id m) = Some n \<and> lay_version n < em_version m \<and>
    v = em_version m \<and> w = lay_version n"
proof (cases "layout_find (em_provider m) (em_id m) (em_version m)")
  case None
  then show ?thesis using assms by (auto simp: parse_event_def split: option.splits if_splits)
next
  case (Some l)
  then show ?thesis
    using assms parse_known_splits [OF Some, where payload = payload and exact = True] by (simp add: parse_event_def)
qed

text \<open>The parse of a newer version, by the verdict.\<close>

lemma gate_newer:
  assumes sound: "gate_sound inst g"
    and n: "layout_newest (em_provider m) (em_id m) = Some n" "lay_version n < em_version m"
  shows "fst (gate_parse inst g (Some m) payload) =
    (case gate_verdict (lay_fields n) (inst (em_provider m) (em_id m) (em_version m)) of
       Same \<Rightarrow> parse_event (m\<lparr>em_version := lay_version n\<rparr>) payload
     | Prefix \<Rightarrow> parse_known (m\<lparr>em_version := lay_version n\<rparr>) payload False
     | Rejected \<Rightarrow> Inl (NewerVersion (em_version m) (lay_version n)))"
proof -
  let ?k = "(em_provider m, em_id m, em_version m)" and ?m = "m\<lparr>em_version := lay_version n\<rparr>"
  define v where "v = gate_verdict (lay_fields n) (inst (em_provider m) (em_id m) (em_version m))"
  have find: "layout_find (em_provider m) (em_id m) (lay_version n) = Some n"
    by (rule layout_newest_find [OF n(1)])
  have "g ?k = None \<or> g ?k = Some v"
    using sound [unfolded gate_sound_def, THEN spec, THEN spec, THEN spec, THEN spec,
        of "em_provider m" "em_id m" "em_version m" "the (g ?k)"] n(1)
    by (cases "g ?k") (simp_all add: v_def)
  then obtain g' where key: "(case g ?k of None \<Rightarrow> (v, g(?k \<mapsto> v)) | Some w \<Rightarrow> (w, g)) = (v, g')"
    by fastforce
  have same: "parse_event ?m payload = parse_known ?m payload True"
    by (simp add: parse_event_def find)
  have as: "parse_as m (lay_version n) payload e = parse_known ?m payload e" for e
    by (simp add: parse_as_def find)
  show ?thesis
    unfolding gate_parse_def option.case parse_event_newer [OF n] sum.case parse_error.case Let_def find
      v_def [symmetric] key prod.case fst_conv same as ..
qed

lemma gate_parse_sound:
  assumes "gate_sound inst g"
  shows "gate_sound inst (snd (gate_parse inst g rec_meta payload))"
proof (cases rec_meta)
  case None
  then show ?thesis using assms by (simp add: gate_parse_def)
next
  case (Some m)
  show ?thesis
  proof (cases "\<exists>v w. parse_event m payload = Inl (NewerVersion v w)")
    case True
    then obtain n where n: "layout_newest (em_provider m) (em_id m) = Some n" "lay_version n < em_version m"
      using parse_event_not_newer by blast
    let ?k = "(em_provider m, em_id m, em_version m)"
    let ?v = "gate_verdict (lay_fields n) (inst (em_provider m) (em_id m) (em_version m))"
    have "snd (gate_parse inst g rec_meta payload) = (if g ?k = None then g(?k \<mapsto> ?v) else g)"
      by (auto simp: Some gate_parse_def parse_event_newer [OF n] Let_def layout_newest_find [OF n(1)])
    then show ?thesis using assms n by (auto simp: gate_sound_def)
  next
    case False
    then have "snd (gate_parse inst g rec_meta payload) = g"
      by (auto simp: Some gate_parse_def split: sum.split parse_error.split)
    then show ?thesis using assms by simp
  qed
qed

section \<open>A prefix reads the same fields\<close>

lemma layout_split_append:
  assumes "layout_split p None prev (fs @ gs) env bs = Some (env2, rest)"
  shows "\<exists>env1 bs1 prev1. layout_split p None prev fs env bs = Some (env1, bs1) \<and>
    layout_split p None prev1 gs env1 bs1 = Some (env2, rest)"
  using assms
proof (induction fs arbitrary: prev env bs)
  case Nil
  then show ?case by auto
next
  case (Cons f fs)
  obtain n t where f: "f = (n, t)" by (cases f) auto
  show ?case
    using Cons.prems Cons.IH by (auto simp: f split: option.splits)
qed

lemma layout_split_keeps:
  "layout_split p None prev fs env bs = Some (env2, rest) \<Longrightarrow> n \<notin> fst ` set fs \<Longrightarrow> env2 n = env n"
proof (induction fs arbitrary: prev env bs)
  case Nil
  then show ?case by simp
next
  case (Cons f fs)
  obtain m t where f: "f = (m, t)" by (cases f) auto
  show ?case
    using Cons.prems by (auto simp: f split: option.splits dest!: Cons.IH)
qed

definition raw_layout :: "field list \<Rightarrow> (string \<times> nat) list" where
  "raw_layout = map (\<lambda>(n, t). (n, in_type_raw t))"

lemma in_type_raw_inj: "in_type_raw t = in_type_raw u \<longleftrightarrow> t = u"
  by (cases t; cases u; simp)

lemma is_prefix_raw: "is_prefix fs (raw_layout gs) \<longleftrightarrow> (\<exists>more. gs = fs @ more)"
proof (induction fs arbitrary: gs)
  case Nil
  then show ?case by (simp add: is_prefix_def)
next
  case (Cons f fs)
  show ?case
  proof (cases gs)
    case Nil
    then show ?thesis by (simp add: is_prefix_def raw_layout_def)
  next
    case (Cons g gs')
    have "is_prefix (f # fs) (raw_layout gs) \<longleftrightarrow> f = g \<and> is_prefix fs (raw_layout gs')"
      by (cases f; cases g) (auto simp: is_prefix_def raw_layout_def Cons in_type_raw_inj)
    then show ?thesis
      using Cons.IH by (auto simp: \<open>gs = g # gs'\<close>)
  qed
qed

section \<open>What parsing promises\<close>

text \<open>C30: an event of a known version is read by its table. The parse succeeds exactly when the payload
  holds the fields of the event's layout, in order and whole (trailing bytes are left alone), and the
  event has each of its members from the field of that name; a registry name that may hold NULs ends
  where the fields after it still fill the payload. Otherwise the error is at an offset inside the
  payload, and no read leaves it.\<close>

theorem event_reads_its_layout:
  assumes "layout_find (em_provider m) (em_id m) (em_version m) = Some l"
  shows "case parse_event m payload of
      Inr ev \<Rightarrow> \<exists>env rest. split_event m (lay_fields l) True payload = Some (env, rest) \<and> ev = event_of m env
    | Inl e \<Rightarrow> split_event m (lay_fields l) True payload = None \<and> error_within (length payload) e"
  using parse_known_splits [OF assms, where payload = payload and exact = True] assms by (simp add: parse_event_def)

theorem event_reads_its_layout_witness:
  "case parse_event \<lparr>em_provider = KernelFile, em_id = 24, em_version = 0, em_pointer_size = P32\<rparr>
       [1, 0, 0, 0, 2, 0, 0, 0, 0x22, 0, 0, 0xC0, 9] of
      Inr ev \<Rightarrow> \<exists>env rest. split_event \<lparr>em_provider = KernelFile, em_id = 24, em_version = 0, em_pointer_size = P32\<rparr>
          FILE_OP_END_V0 True [1, 0, 0, 0, 2, 0, 0, 0, 0x22, 0, 0, 0xC0, 9] = Some (env, rest) \<and>
        ev = event_of \<lparr>em_provider = KernelFile, em_id = 24, em_version = 0, em_pointer_size = P32\<rparr> env
    | Inl e \<Rightarrow> False"
proof -
  let ?m = "\<lparr>em_provider = KernelFile, em_id = 24, em_version = 0, em_pointer_size = P32\<rparr> :: raw_meta"
  let ?b = "[1, 0, 0, 0, 2, 0, 0, 0, 0x22, 0, 0, 0xC0, 9] :: bytes"
  have find: "layout_find (em_provider ?m) (em_id ?m) (em_version ?m) = Some (Layout KernelFile 24 0 FILE_OP_END_V0)"
    by (simp add: layout_find_iff lay_key_def LAYOUTS_def)
  have split: "split_event ?m FILE_OP_END_V0 True ?b \<noteq> None"
    by (simp add: split_event_def counted_field_def FILE_OP_END_V0_def extent_def omap_def osplit_def pointer_len_def)
  show ?thesis
    using event_reads_its_layout [OF find, of ?b] split by (simp split: sum.splits)
qed

text \<open>C31: what parsing answers. An event without a table is unknown; a version above all tables of the
  event is newer, with the newest of them; a version below and without a table is unsupported; any
  other payload gives an event or an error at a place inside it.\<close>

theorem parse_answers:
  "case parse_event m payload of
     Inr ev \<Rightarrow> layout_find (em_provider m) (em_id m) (em_version m) \<noteq> None
   | Inl UnknownEvent \<Rightarrow> \<not> event_known (em_provider m) (em_id m)
   | Inl (NewerVersion v w) \<Rightarrow> v = em_version m \<and> w < v \<and>
       (\<exists>n. layout_find (em_provider m) (em_id m) w = Some n) \<and>
       (\<forall>u l. layout_find (em_provider m) (em_id m) u = Some l \<longrightarrow> u \<le> w)
   | Inl (UnsupportedVersion v) \<Rightarrow> v = em_version m \<and> layout_find (em_provider m) (em_id m) v = None \<and>
       (\<exists>u l. layout_find (em_provider m) (em_id m) u = Some l \<and> v < u)
   | Inl e \<Rightarrow> layout_find (em_provider m) (em_id m) (em_version m) \<noteq> None \<and> error_within (length payload) e"
proof (cases "layout_find (em_provider m) (em_id m) (em_version m)")
  case (Some l)
  then show ?thesis
    using parse_known_splits [OF Some, where payload = payload and exact = True]
    by (cases "parse_known m payload True") (auto simp: parse_event_def split: parse_error.split)
next
  case None
  show ?thesis
  proof (cases "layout_newest (em_provider m) (em_id m)")
    case none: None
    then show ?thesis
      using None layout_newest_cases [of "em_provider m" "em_id m"] by (simp add: parse_event_def)
  next
    case (Some n)
    have at: "layout_find (em_provider m) (em_id m) (lay_version n) = Some n"
      by (rule layout_newest_find [OF Some])
    have max: "u \<le> lay_version n" if "layout_find (em_provider m) (em_id m) u = Some l" for u l
      using layout_newest_cases [of "em_provider m" "em_id m"] Some that
      by (auto simp: layout_find_iff lay_key_def)
    have "lay_version n \<noteq> em_version m" using at None by auto
    then show ?thesis
      using None Some at max by (cases "em_version m > lay_version n") (auto simp: parse_event_def)
  qed
qed

theorem parse_answers_witness:
  "parse_event \<lparr>em_provider = KernelProcess, em_id = 1, em_version = 2, em_pointer_size = P64\<rparr> [] = Inl (UnsupportedVersion 2) \<and>
   (\<exists>u l. layout_find KernelProcess 1 u = Some l \<and> 2 < u)"
proof -
  let ?m = "\<lparr>em_provider = KernelProcess, em_id = 1, em_version = 2, em_pointer_size = P64\<rparr> :: raw_meta"
  have "parse_event ?m [] = Inl (UnsupportedVersion 2)" by code_simp
  then show ?thesis using parse_answers [of ?m "[]"] by simp
qed

lemma is_prefix_iff: "is_prefix fs l \<longleftrightarrow> (\<exists>more. l = raw_layout fs @ more)"
proof (induction fs arbitrary: l)
  case Nil
  then show ?case by (simp add: is_prefix_def raw_layout_def)
next
  case (Cons f fs)
  show ?case
  proof (cases l)
    case Nil
    then show ?thesis by (cases f) (simp add: is_prefix_def raw_layout_def)
  next
    case (Cons g gs)
    have "is_prefix (f # fs) (g # gs) \<longleftrightarrow> (case f of (n, t) \<Rightarrow> (n, in_type_raw t)) = g \<and> is_prefix fs gs"
      by (cases f; cases g) (auto simp: is_prefix_def)
    then show ?thesis using Cons.IH [of gs] by (auto simp: Cons raw_layout_def)
  qed
qed

text \<open>C32: a newer version the gate accepts as an extension is read as its own layout says. Whatever the
  gate has met before, for a version newer than the tables: with no layout installed, or one that does
  not begin with the newest table, the answer is that the version is newer; with an installed layout
  equal to the newest table the payload is parsed as the known version; and if the installed layout
  begins with the newest table, is one of distinct fields of types the tables know, and the payload
  holds its fields, the gate returns the event of the newest table, with every member's field the one
  the installed layout finds. The verdicts kept stay what the installed layouts give.\<close>

theorem newer_version_read_as_installed:
  assumes sound: "gate_sound inst g"
    and n: "layout_newest (em_provider m) (em_id m) = Some n" "lay_version n < em_version m"
  defines "m' \<equiv> m\<lparr>em_version := lay_version n\<rparr>"
    and "newer \<equiv> Inl (NewerVersion (em_version m) (lay_version n))"
  shows "gate_sound inst (snd (gate_parse inst g (Some m) payload)) \<and>
    (case inst (em_provider m) (em_id m) (em_version m) of
       None \<Rightarrow> fst (gate_parse inst g (Some m) payload) = newer
     | Some l \<Rightarrow>
         if l = raw_layout (lay_fields n) then fst (gate_parse inst g (Some m) payload) = parse_event m' payload
         else if \<exists>more. l = raw_layout (lay_fields n) @ more then
           \<forall>fs env rest. l = raw_layout fs \<and> distinct (map fst fs) \<and>
               layout_split (em_pointer_size m) None None fs Map.empty payload = Some (env, rest) \<longrightarrow>
             (\<exists>env'. fst (gate_parse inst g (Some m) payload) = Inr (event_of m' env') \<and>
                list_all (\<lambda>(f, t). env' f = env f) (lay_fields n))
         else fst (gate_parse inst g (Some m) payload) = newer)"
proof -
  have gate: "fst (gate_parse inst g (Some m) payload) =
      (case gate_verdict (lay_fields n) (inst (em_provider m) (em_id m) (em_version m)) of
         Same \<Rightarrow> parse_event m' payload | Prefix \<Rightarrow> parse_known m' payload False | Rejected \<Rightarrow> newer)"
    unfolding m'_def newer_def by (rule gate_newer [OF sound n])
  have verdict: "gate_verdict (lay_fields n) (Some l) =
      (if l = raw_layout (lay_fields n) then Same else if \<exists>more. l = raw_layout (lay_fields n) @ more then Prefix else Rejected)" for l
    by (auto simp: gate_verdict_def is_prefix_iff raw_layout_def)
  have "\<exists>env'. parse_known m' payload False = Inr (event_of m' env') \<and> list_all (\<lambda>(f, t). env' f = env f) (lay_fields n)"
    if prefix: "raw_layout fs = raw_layout (lay_fields n) @ more" and names: "distinct (map fst fs)"
      and split: "layout_split (em_pointer_size m) None None fs Map.empty payload = Some (env, rest)" for fs more env rest
  proof -
    have "is_prefix (lay_fields n) (raw_layout fs)" using prefix by (auto simp: is_prefix_iff)
    then obtain gs where fs: "fs = lay_fields n @ gs"
      by (auto simp: is_prefix_raw)
    obtain env1 bs1 prev1 where
      one: "layout_split (em_pointer_size m) None None (lay_fields n) Map.empty payload = Some (env1, bs1)"
        "layout_split (em_pointer_size m) None prev1 gs env1 bs1 = Some (env, rest)"
      using layout_split_append [OF split [unfolded fs]] by blast
    have find: "layout_find (em_provider m') (em_id m') (em_version m') = Some n"
      using layout_newest_find [OF n(1)] by (simp add: m'_def)
    have "split_event m' (lay_fields n) False payload = Some (env1, bs1)"
      using one(1) by (simp add: split_event_def counted_field_def m'_def)
    then have "parse_known m' payload False = Inr (event_of m' env1)"
      using parse_known_splits [OF find, where payload = payload and exact = False] by (simp split: sum.splits)
    moreover have "env1 f = env f" if "(f, t) \<in> set (lay_fields n)" for f t
      using layout_split_keeps [OF one(2), of f] names that by (force simp: fs)
    ultimately show ?thesis by (auto simp: list_all_iff)
  qed
  then have extended: "raw_layout fs = raw_layout (lay_fields n) @ more \<and> distinct (map fst fs) \<and>
      layout_split (em_pointer_size m) None None fs Map.empty payload = Some (env, rest) \<longrightarrow>
    (\<exists>env'. parse_known m' payload False = Inr (event_of m' env') \<and> list_all (\<lambda>(f, t). env' f = env f) (lay_fields n))"
    for fs more env rest by blast
  show ?thesis
  proof (cases "inst (em_provider m) (em_id m) (em_version m)")
    case None
    then show ?thesis using gate gate_parse_sound [OF sound] by (simp add: gate_verdict_def)
  next
    case (Some l)
    then show ?thesis
      using gate gate_parse_sound [OF sound] extended
      by (cases "l = raw_layout (lay_fields n)"; cases "\<exists>more. l = raw_layout (lay_fields n) @ more")
        (simp_all add: verdict, blast)
  qed
qed

theorem newer_version_read_as_installed_witness:
  "\<exists>env'. fst (gate_parse (\<lambda>_ _ _. Some (raw_layout (REG_KEY_V0 @ [(''Extra'', UInt32)]))) gate_new
      (Some \<lparr>em_provider = KernelRegistry, em_id = 13, em_version = 1, em_pointer_size = P32\<rparr>)
      [1, 2, 3, 4, 0, 0, 0, 0, 0, 0, 7, 0, 0, 0]) =
    Inr (event_of \<lparr>em_provider = KernelRegistry, em_id = 13, em_version = 0, em_pointer_size = P32\<rparr> env') \<and>
    env' ''KeyObject'' = Some ([1, 2, 3, 4], False)"
proof -
  let ?m = "\<lparr>em_provider = KernelRegistry, em_id = 13, em_version = 1, em_pointer_size = P32\<rparr> :: raw_meta"
  let ?fs = "REG_KEY_V0 @ [(''Extra'', UInt32)]"
  let ?inst = "\<lambda>_ _ _. Some (raw_layout ?fs)"
  let ?n = "Layout KernelRegistry 13 0 REG_KEY_V0"
  let ?b = "[1, 2, 3, 4, 0, 0, 0, 0, 0, 0, 7, 0, 0, 0] :: bytes"
  let ?env = "[''KeyObject'' \<mapsto> ([1, 2, 3, 4], False), ''Status'' \<mapsto> ([0, 0, 0, 0], False),
      ''KeyName'' \<mapsto> ([], False), ''Extra'' \<mapsto> ([7, 0, 0, 0], False)] :: fields_env"
  have new: "layout_newest (em_provider ?m) (em_id ?m) = Some ?n"
    by (simp add: layout_newest_def LAYOUTS_def)
  have split: "layout_split (em_pointer_size ?m) None None ?fs Map.empty ?b = Some (?env, [])"
    by (simp add: REG_KEY_V0_def extent_def omap_def osplit_def pointer_len_def ext_wstr_def nul_at_def upt_rec)
  have d: "distinct (map fst ?fs)" by (simp add: REG_KEY_V0_def)
  have old: "lay_version ?n < em_version ?m" by simp
  have longer: "raw_layout ?fs \<noteq> raw_layout (lay_fields ?n)" "\<exists>more. raw_layout ?fs = raw_layout (lay_fields ?n) @ more"
    by (simp_all add: raw_layout_def)
  note result = conjunct2 [OF newer_version_read_as_installed [OF gate_new_sound [of ?inst] new old, of ?b],
      unfolded option.case if_not_P [OF longer(1)] if_P [OF longer(2)], rule_format, OF conjI [OF refl conjI [OF d split]]]
  obtain env' where "fst (gate_parse ?inst gate_new (Some ?m) ?b) = Inr (event_of (?m\<lparr>em_version := lay_version ?n\<rparr>) env')"
    "list_all (\<lambda>(f, t). env' f = ?env f) (lay_fields ?n)"
    using result by blast
  then show ?thesis
    by (intro exI [of _ env']) (simp add: REG_KEY_V0_def)
qed

end
