(* ===== verification/Spec2Isabelle.thy ===== *)
theory Spec2Isabelle
  imports Buf_Policy Buf_Reader Ag_Time Ag_Recent Ag_Ordering Ag_Completion Ag_Queue Ag_Process Ag_KeyMap Ag_Intake Ag_Paths Ag_Watch Pl_Run Sch_Event Ew_Names Ew_Dns
begin

text \<open>
  A model of the Atlas endpoint sensor (the workspace under \<open>src/crates\<close>) and the theorems that make
  its parts correct.

  The program. An agent on a Windows machine consumes ETW events (\<open>atlas-etw\<close>), orders them, keeps
  caches of processes, files and registry keys to name what they refer to, completes them with data
  that arrives later (\<open>atlas-agent\<close>), turns them into the schema's events (\<open>atlas-schema\<close>) and writes
  these to a log on disk until a server has them (\<open>atlas-buffer\<close>). The parts meet in data, not in
  shared state: the ordering stage hands events to the pipeline, the pipeline hands them to the
  completion stage, that one to the store, which encodes them and appends them to the buffer, from
  which a reader takes them to the server.

  Conventions (theory Prelude). A \<open>usize\<close> or a counter is a natural number; an \<open>i64\<close> is an integer
  whose saturating operations clamp it; words stay words where the code works on bits. A string is
  the list of its UTF-8 bytes. A fallible operation returns a sum, with the state it left on both
  branches; a hash map is an association list whose keys the invariants show distinct; what the code
  does on a broken invariant (a panic, an overflow of the stack) is a value of the model, and the
  theorems show it unreachable. Code outside the repository is a parameter: CRC-32C (\<open>crc\<close>), BLAKE3
  (\<open>blake3\<close>), protobuf (\<open>pb_encode\<close>, \<open>pb_decode\<close>), the growth of a vector, the file system's failures.

  The buffer (\<open>crates/atlas-buffer/src\<close>).
  Buf_Record: \<open>record.rs\<close>, framing, parsing and scanning of records. Buf_Fs: \<open>fsx.rs\<close> and the file
  operations of the standard library over a world whose calls may fail and may write in part.
  Buf_Cursor: \<open>cursor.rs\<close>, the acknowledgement and its file. Buf_Config: \<open>lib.rs\<close>, configuration, gaps
  and counters. Buf_Writer: \<open>writer.rs\<close>, every method. Buf_Writer_Inv, Buf_Writer_Ops, Buf_Writer_Open
  and Buf_Writer_Run: the invariant of a writer and its files, the effect of each operation, opening
  and recovery, and any run of operations with crashes between them. Buf_Policy: the choice of
  victims and the room made. Sources, Buf_Reader: the contract of a source of records, and
  \<open>reader.rs\<close>, which meets it. Together: what is read is what was appended, in order, but for what
  the counters and gaps report lost; nothing written is lost in a crash.

  The agent (\<open>crates/atlas-agent/src\<close>).
  Ag_Time: \<open>time.rs\<close> and \<open>config.rs\<close>. Ag_Recent: \<open>recent.rs\<close> and \<open>evict.rs\<close>, sets that forget the oldest
  first; their common contract is the locale \<open>forgetting\<close>. Ag_Ordering: \<open>ordering.rs\<close>, a heap of keys
  over slots, as a stable sort by time. Ag_Completion: \<open>completion.rs\<close>, events that wait for data,
  leaving in order of arrival. Ag_Queue: \<open>queue.rs\<close>, the counted queue as interleaved atomic steps.
  Ag_Process: \<open>process.rs\<close>, the process cache. Ag_KeyMap: \<open>keymap.rs\<close>, the names of registry keys; its
  \<open>unlink\<close> is a partial function, shown total on every state reachable without a self-based open.
  Ag_Buckets, Ag_Early, Ag_Cleanups, Ag_Intake: \<open>intake.rs\<close> and \<open>cleanup.rs\<close>, what each ETW callback
  does before the queues: the DNS rate limit per process, the early key map, the pairing of Cleanups
  with their outcomes, and the accounts of every event delivered. Ag_Paths: \<open>paths.rs\<close>, one name for
  every spelling of a registry key, and which file names are short ones. Ag_Watch: \<open>watchlist.rs\<close>, the
  sensitive paths; the globs of another package are parameters.

  The pipeline (\<open>crates/atlas-agent/src/pipeline\<close>), one record of state and one function per method.
  Pl_Services: \<open>services.rs\<close>, the counters, and the tables of each part. Pl_State: the pipeline's state and
  what every handler uses. Pl_Network, Pl_Expand, Pl_Process, Pl_Registry, Pl_Files, Pl_Seed: the handlers
  of \<open>net.rs\<close>, \<open>expand.rs\<close>, \<open>proc.rs\<close>, \<open>reg.rs\<close>, \<open>file.rs\<close> and \<open>seed.rs\<close>. Pl_Main: \<open>mod.rs\<close>, the dispatch of an
  event, stream time, emission. Pl_Safe: what every handler keeps of the key map and of the held file
  operations. Pl_Run: the calls of the driver and any sequence of them; every call returns, and what it
  emits is what the completion stage lets go less the agent's own events.

  The event source (\<open>crates/atlas-etw/src\<close>).
  Ew_Layout: \<open>providers.rs\<close> and \<open>layout.rs\<close>, the tables of the payloads. Ew_Reader: \<open>parse/reader.rs\<close>, the
  bounds-checked cursor, and \<open>denotes\<close>, what a read does to the bytes left. Ew_Parse: \<open>parse/mod.rs\<close>,
  one parser per event, written by hand without the tables, as the code has them. Ew_Follows: what the
  tables say of a payload and of the event in it, and that every parser agrees. Ew_Gate:
  \<open>session/gate.rs\<close>, newer versions; the layouts installed on the machine are a parameter. Ew_Names:
  value names with embedded NULs come back whole. Ew_Text: names as UTF-8. Ew_Dns: \<open>parse/dns.rs\<close>, DNS
  answers are read as they were logged.

  The schema (\<open>crates/atlas-schema/src\<close>).
  Sch_Convert: \<open>convert.rs\<close>, \<open>error.rs\<close>, \<open>limits.rs\<close>, \<open>ids.rs\<close>. Sch_Objects, Sch_Classes, Sch_Records,
  Sch_Health: the objects and event classes, each pair of conversions an interpretation of the locale
  \<open>exact_codec\<close>: decoding accepts the encodings of valid values and nothing else. Sch_Event: the
  envelope, the size gate, the OCSF numbers.

  Bounds and fuel. The only fuel is the code's own: \<open>resolve\<close> walks at most 64 bases. Loops are
  functions with termination proofs or, for \<open>unlink\<close> and the loop of a tick, partial functions with a
  proof of when they return.

  Not modelled. Everything under \<open>win\<close> and the rest of the session of \<open>atlas-etw\<close> is calls of Windows;
  \<open>atlas-proto\<close> is generated code; \<open>settings.rs\<close> reads a file with another package's parser; \<open>store.rs\<close>,
  \<open>health.rs\<close>, \<open>driver.rs\<close>, \<open>dump.rs\<close> and \<open>main.rs\<close> are threads, reports of counters and printing around the
  parts above. In the pipeline, \<open>sizes\<close> and \<open>bookkeeping\<close> are diagnostics. Logging, and the concurrency of
  the threads beyond the counted queue, are left out.
\<close>

end
